(* ===== verification/Prelude.thy ===== *)
theory Prelude
  imports
    Main
    "HOL-Library.Word"
    "HOL-Library.AList"
    "HOL-Library.Char_ord"
    "HOL-Library.List_Lexorder"
    "HOL-Library.Product_Lexorder"
    "HOL-Library.Multiset"
    "HOL-Library.Code_Target_Numeral"
begin

text \<open>
  Shared vocabulary of the development: the machine-integer operations the Rust code calls
  (saturating and checked arithmetic on \<open>i64\<close>, \<open>u64\<close> and \<open>usize\<close>), the \<open>?\<close> operator on
  \<open>Result\<close>, the slice and vector operations of the standard library that several components
  use (\<open>chunks\<close>, \<open>drain\<close>, \<open>retain\<close> with a hash set), and the lemmas about them.

  An \<open>i64\<close> is an \<open>int\<close>, a \<open>u64\<close> or \<open>usize\<close> is a \<open>nat\<close>; every operation whose result could
  leave the range is written with its saturation or its check. Byte strings are lists of
  \<open>8 word\<close>, text is a \<open>char list\<close> (its UTF-8 bytes).
\<close>

named_theorems int_defs \<open>definitions of the machine-integer operations\<close>

type_synonym u8 = "8 word"
type_synonym bytes = "8 word list"

section \<open>Machine integers\<close>

definition i64_max :: int where
  "i64_max = 9223372036854775807"

definition i64_min :: int where
  "i64_min = - 9223372036854775808"

definition u64_max :: nat where
  "u64_max = 18446744073709551615"

definition u32_max :: nat where
  "u32_max = 4294967295"

definition i64_range :: "int \<Rightarrow> bool" where
  "i64_range x \<longleftrightarrow> i64_min \<le> x \<and> x \<le> i64_max"

definition sat_i64 :: "int \<Rightarrow> int" where
  "sat_i64 x = max i64_min (min i64_max x)"

definition i64_saturating_add :: "int \<Rightarrow> int \<Rightarrow> int" where
  "i64_saturating_add a b = sat_i64 (a + b)"

definition i64_saturating_sub :: "int \<Rightarrow> int \<Rightarrow> int" where
  "i64_saturating_sub a b = sat_i64 (a - b)"

definition i64_saturating_mul :: "int \<Rightarrow> int \<Rightarrow> int" where
  "i64_saturating_mul a b = sat_i64 (a * b)"

text \<open>\<open>usize\<close> is 64 bits wide on the platforms the service runs on.\<close>

definition u64_saturating_add :: "nat \<Rightarrow> nat \<Rightarrow> nat" where
  "u64_saturating_add a b = min u64_max (a + b)"

definition u64_saturating_sub :: "nat \<Rightarrow> nat \<Rightarrow> nat" where
  "u64_saturating_sub a b = a - b"

text \<open>\<open>i64::try_from\<close> of an unsigned value and \<open>u64::try_from\<close> of a signed one.\<close>

definition i64_try_from :: "nat \<Rightarrow> int option" where
  "i64_try_from n = (if int n \<le> i64_max then Some (int n) else None)"

definition u64_try_from :: "int \<Rightarrow> nat option" where
  "u64_try_from x = (if 0 \<le> x then Some (nat x) else None)"

definition i64_try_from_or_max :: "nat \<Rightarrow> int" where
  "i64_try_from_or_max n = (case i64_try_from n of Some x \<Rightarrow> x | None \<Rightarrow> i64_max)"

lemmas [int_defs] =
  i64_max_def i64_min_def u64_max_def u32_max_def i64_range_def sat_i64_def
  i64_saturating_add_def i64_saturating_sub_def i64_saturating_mul_def
  u64_saturating_add_def u64_saturating_sub_def
  i64_try_from_def u64_try_from_def i64_try_from_or_max_def

lemma sat_i64_range [simp]: "i64_range (sat_i64 x)"
  by (simp add: int_defs)

lemma sat_i64_id [simp]: "i64_range x \<Longrightarrow> sat_i64 x = x"
  by (simp add: int_defs)

lemma sat_i64_mono: "x \<le> y \<Longrightarrow> sat_i64 x \<le> sat_i64 y"
  by (auto simp: int_defs)

lemma sat_i64_le: "0 \<le> x \<Longrightarrow> sat_i64 x \<le> x"
  by (auto simp: int_defs)

lemma i64_saturating_add_le: "0 \<le> a \<Longrightarrow> 0 \<le> b \<Longrightarrow> i64_saturating_add a b \<le> a + b"
  by (simp add: i64_saturating_add_def sat_i64_le)

lemma i64_saturating_add_ge:
  "i64_range a \<Longrightarrow> 0 \<le> b \<Longrightarrow> a \<le> i64_saturating_add a b"
  by (auto simp: int_defs)

lemma i64_try_from_Some [simp]:
  "i64_try_from n = Some x \<longleftrightarrow> int n \<le> i64_max \<and> x = int n"
  by (auto simp: i64_try_from_def)

lemma u64_try_from_Some [simp]: "u64_try_from x = Some n \<longleftrightarrow> 0 \<le> x \<and> n = nat x"
  by (auto simp: u64_try_from_def)

section \<open>The \<open>?\<close> operator\<close>

fun and_then :: "'e + 'a \<Rightarrow> ('a \<Rightarrow> 'e + 'b) \<Rightarrow> 'e + 'b" where
  "and_then (Inl e) f = Inl e"
| "and_then (Inr x) f = f x"

definition ok_or :: "'e \<Rightarrow> 'a option \<Rightarrow> 'e + 'a" where
  "ok_or e m = (case m of None \<Rightarrow> Inl e | Some x \<Rightarrow> Inr x)"

text \<open>\<open>result.map_err(f)\<close> and \<open>?\<close> through \<open>From\<close> conversions.\<close>

definition map_err :: "('e \<Rightarrow> 'f) \<Rightarrow> 'e + 'a \<Rightarrow> 'f + 'a" where
  "map_err f m = (case m of Inl e \<Rightarrow> Inl (f e) | Inr x \<Rightarrow> Inr x)"

lemma map_err_Inr [simp]: "map_err f m = Inr x \<longleftrightarrow> m = Inr x"
  by (simp add: map_err_def split: sum.splits)

lemma map_err_simps [simp]: "map_err f (Inl e) = Inl (f e)" "map_err f (Inr x) = Inr x"
  by (simp_all add: map_err_def)

lemma and_then_Inr [simp]: "and_then m f = Inr y \<longleftrightarrow> (\<exists>x. m = Inr x \<and> f x = Inr y)"
  by (cases m) auto

lemma and_then_Inl: "and_then m f = Inl e \<longleftrightarrow> m = Inl e \<or> (\<exists>x. m = Inr x \<and> f x = Inl e)"
  by (cases m) auto

lemma ok_or_Inr [simp]: "ok_or e m = Inr x \<longleftrightarrow> m = Some x"
  by (auto simp: ok_or_def split: option.splits)

lemma ok_or_simps [simp]: "ok_or e (Some x) = Inr x" "ok_or e None = Inl e"
  by (simp_all add: ok_or_def)

text \<open>\<open>iter.map(f).collect::<Result<Vec<_>, _>>()\<close>: the first error, or all the results.\<close>

fun collect_results :: "('a \<Rightarrow> 'e + 'b) \<Rightarrow> 'a list \<Rightarrow> 'e + 'b list" where
  "collect_results f [] = Inr []"
| "collect_results f (x # xs) =
     (case f x of Inl e \<Rightarrow> Inl e
      | Inr y \<Rightarrow> (case collect_results f xs of Inl e \<Rightarrow> Inl e | Inr ys \<Rightarrow> Inr (y # ys)))"

lemma collect_results_Inr:
  "collect_results f xs = Inr ys \<Longrightarrow> list_all2 (\<lambda>x y. f x = Inr y) xs ys"
  by (induction xs arbitrary: ys) (auto split: sum.splits)

lemma collect_results_map:
  "(\<And>x. x \<in> set xs \<Longrightarrow> f x = Inr (g x)) \<Longrightarrow> collect_results f xs = Inr (map g xs)"
  by (induction xs) auto

lemma collect_results_append:
  "collect_results f xs = Inr us \<Longrightarrow> collect_results f ys = Inr vs \<Longrightarrow>
     collect_results f (xs @ ys) = Inr (us @ vs)"
  by (induction xs arbitrary: us) (auto split: sum.splits)

section \<open>Slices and vectors\<close>

text \<open>\<open>if v.len() > limit { v.drain(..v.len() - limit); }\<close>\<close>

definition drain_to_last :: "nat \<Rightarrow> 'a list \<Rightarrow> 'a list" where
  "drain_to_last limit xs = (if length xs > limit then drop (length xs - limit) xs else xs)"

lemma drain_to_last_alt: "drain_to_last limit xs = drop (length xs - limit) xs"
  by (simp add: drain_to_last_def)

lemma length_drain_to_last [simp]: "length (drain_to_last limit xs) = min limit (length xs)"
  by (simp add: drain_to_last_def)

lemma set_drain_to_last: "set (drain_to_last limit xs) \<subseteq> set xs"
  by (simp add: drain_to_last_def set_drop_subset)

lemma sorted_map_drop: "sorted (map f xs) \<Longrightarrow> sorted (map f (drop n xs))"
  by (simp add: drop_map [symmetric] sorted_wrt_drop)

lemma sorted_drain_to_last: "sorted (map f xs) \<Longrightarrow> sorted (map f (drain_to_last limit xs))"
  by (simp add: drain_to_last_alt sorted_map_drop)

lemma distinct_drain_to_last: "distinct (map f xs) \<Longrightarrow> distinct (map f (drain_to_last limit xs))"
  by (simp add: drain_to_last_alt drop_map [symmetric] distinct_drop)

lemma drain_to_last_suffix: "\<exists>ys. xs = ys @ drain_to_last limit xs"
  by (metis append_take_drop_id drain_to_last_alt)

text \<open>Whatever \<open>drain\<close> removed sorts before whatever it kept.\<close>

lemma drain_to_last_keeps_newest:
  assumes "sorted (map f xs)" and "x \<in> set xs" and "x \<notin> set (drain_to_last limit xs)"
    and "y \<in> set (drain_to_last limit xs)"
  shows "f x \<le> f y"
proof -
  obtain ys where ys: "xs = ys @ drain_to_last limit xs"
    using drain_to_last_suffix by blast
  with assms(2,3) have "x \<in> set ys"
    by (metis Un_iff set_append)
  moreover have "sorted (map f ys @ map f (drain_to_last limit xs))"
    using assms(1) ys by (metis map_append)
  ultimately show ?thesis
    using assms(4) by (auto simp: sorted_append)
qed

text \<open>\<open>slice.chunks(n)\<close>; the callers hold \<open>0 < n\<close> as a construction-time check.\<close>

function chunks :: "nat \<Rightarrow> 'a list \<Rightarrow> 'a list list" where
  "chunks n xs = (if n = 0 \<or> xs = [] then [] else take n xs # chunks n (drop n xs))"
  by pat_completeness auto
termination
  by (relation "measure (\<lambda>(n, xs). length xs)") auto

declare chunks.simps [simp del]

lemma chunks_Nil [simp]: "chunks n [] = []"
  by (simp add: chunks.simps)

lemma concat_chunks: "0 < n \<Longrightarrow> concat (chunks n xs) = xs"
proof (induction n xs rule: chunks.induct)
  case (1 n xs)
  then show ?case by (cases "xs = []") (simp_all add: chunks.simps [of n xs])
qed

lemma chunks_bounds: "c \<in> set (chunks n xs) \<Longrightarrow> c \<noteq> [] \<and> length c \<le> n \<and> set c \<subseteq> set xs"
proof (induction n xs rule: chunks.induct)
  case (1 n xs)
  then show ?case
    by (cases "n = 0 \<or> xs = []")
       (auto simp: chunks.simps [of n xs] dest: in_set_takeD in_set_dropD)
qed

lemma take_chunks_sub: "set (concat (take k (chunks n xs))) \<subseteq> set xs"
proof -
  have "set (take k (chunks n xs)) \<subseteq> set (chunks n xs)" by (rule set_take_subset)
  then show ?thesis using chunks_bounds [of _ n xs] by auto
qed

lemma concat_take_prefix: "\<exists>zs. concat cs = concat (take k cs) @ zs"
  by (metis append_take_drop_id concat_append)

text \<open>
  \<open>v.retain(|r| seen.insert(key(r)))\<close>: keeps the first occurrence of each key that was not
  seen before, and returns the enlarged set.
\<close>

fun retain_new :: "('a \<Rightarrow> 'k) \<Rightarrow> 'k set \<Rightarrow> 'a list \<Rightarrow> 'a list \<times> 'k set" where
  "retain_new key seen [] = ([], seen)"
| "retain_new key seen (x # xs) =
     (if key x \<in> seen then retain_new key seen xs
      else (let (kept, seen') = retain_new key (insert (key x) seen) xs in (x # kept, seen')))"

lemma retain_new_spec:
  "retain_new key seen xs = (kept, seen') \<Longrightarrow>
     seen' = seen \<union> key ` set xs \<and> set kept \<subseteq> set xs \<and> distinct (map key kept) \<and>
     key ` set kept = key ` set xs - seen"
  by (induction xs arbitrary: seen kept seen') (fastforce split: if_splits prod.splits)+

section \<open>Minimum and maximum of a non-empty list\<close>

text \<open>\<open>iter.min().unwrap()\<close> on a vector the caller checked to be non-empty.\<close>

fun min_list1 :: "'a::linorder \<Rightarrow> 'a list \<Rightarrow> 'a" where
  "min_list1 m [] = m"
| "min_list1 m (x # xs) = min_list1 (min m x) xs"

fun max_list1 :: "'a::linorder \<Rightarrow> 'a list \<Rightarrow> 'a" where
  "max_list1 m [] = m"
| "max_list1 m (x # xs) = max_list1 (max m x) xs"

definition iter_min :: "'a::linorder list \<Rightarrow> 'a option" where
  "iter_min xs = (case xs of [] \<Rightarrow> None | x # ys \<Rightarrow> Some (min_list1 x ys))"

definition iter_max :: "'a::linorder list \<Rightarrow> 'a option" where
  "iter_max xs = (case xs of [] \<Rightarrow> None | x # ys \<Rightarrow> Some (max_list1 x ys))"

lemma min_list1_Min: "min_list1 m xs = Min (insert m (set xs))"
proof (induction xs arbitrary: m)
  case (Cons x xs)
  then show ?case
    by (cases "xs = []") (auto simp: min.assoc insert_commute)
qed simp

lemma max_list1_Max: "max_list1 m xs = Max (insert m (set xs))"
proof (induction xs arbitrary: m)
  case (Cons x xs)
  then show ?case
    by (cases "xs = []") (auto simp: max.assoc insert_commute)
qed simp

lemma iter_min_Some: "iter_min xs = Some m \<longleftrightarrow> xs \<noteq> [] \<and> m = Min (set xs)"
  by (auto simp: iter_min_def min_list1_Min split: list.splits)

lemma iter_max_Some: "iter_max xs = Some m \<longleftrightarrow> xs \<noteq> [] \<and> m = Max (set xs)"
  by (auto simp: iter_max_def max_list1_Max split: list.splits)

lemma iter_min_None [simp]: "iter_min xs = None \<longleftrightarrow> xs = []"
  by (auto simp: iter_min_def split: list.splits)

lemma iter_max_None [simp]: "iter_max xs = None \<longleftrightarrow> xs = []"
  by (auto simp: iter_max_def split: list.splits)

section \<open>Association tables\<close>

lemma map_of_filter_key:
  "map_of (filter (\<lambda>(k, v). P k) xs) k = (if P k then map_of xs k else None)"
  by (induction xs) auto

lemma update_fresh: "map_of xs k = None \<Longrightarrow> AList.update k v xs = xs @ [(k, v)]"
  by (induction xs) (auto split: if_splits)

lemma keys_filter_neq: "fst ` set (filter (\<lambda>(k', v). k' \<noteq> k) xs) = fst ` set xs - {k}"
  by (force intro: rev_image_eqI)

lemma distinct_fst_filter: "distinct (map fst xs) \<Longrightarrow> distinct (map fst (filter P xs))"
  by (simp add: distinct_map_filter)

lemma sum_list_filter_add:
  fixes f :: "'a \<Rightarrow> 'b::comm_monoid_add"
  shows "sum_list (map f xs) = sum_list (map f (filter P xs)) + sum_list (map f (filter (\<lambda>x. \<not> P x) xs))"
  by (induction xs) (auto simp: ac_simps)

lemma sum_list_remove_key:
  fixes f :: "'k \<times> 'v \<Rightarrow> 'b::comm_monoid_add"
  shows "distinct (map fst xs) \<Longrightarrow> map_of xs k = Some v \<Longrightarrow>
    sum_list (map f xs) = f (k, v) + sum_list (map f (filter (\<lambda>(k', v). k' \<noteq> k) xs))"
proof (induction xs)
  case (Cons x xs)
  obtain k' v' where x: "x = (k', v')" by (cases x)
  show ?case
  proof (cases "k' = k")
    case True
    then have "filter (\<lambda>(k', v). k' \<noteq> k) xs = xs"
      using Cons.prems(1) x by (force intro: filter_True)
    then show ?thesis using True Cons.prems(2) x by simp
  next
    case False
    then show ?thesis using Cons x by (simp add: ac_simps)
  qed
qed simp

lemma sum_list_update_key:
  fixes f :: "'k \<times> 'v \<Rightarrow> 'b::comm_monoid_add"
  shows "distinct (map fst xs) \<Longrightarrow> map_of xs k = Some v \<Longrightarrow>
    sum_list (map f (AList.update k w xs)) + f (k, v) = sum_list (map f xs) + f (k, w)"
proof (induction xs)
  case (Cons x xs)
  obtain k' v' where x: "x = (k', v')" by (cases x)
  show ?case
  proof (cases "k' = k")
    case True
    then show ?thesis using Cons.prems(2) x by (simp add: ac_simps)
  next
    case False
    then have "sum_list (map f (AList.update k w xs)) + f (k, v) = sum_list (map f xs) + f (k, w)"
      using Cons x by simp
    then show ?thesis using False x by (simp add: add.assoc)
  qed
qed simp

lemma sum_list_insert_key:
  fixes f :: "'k \<times> 'v \<Rightarrow> 'b::comm_monoid_add"
  shows "map_of xs k = None \<Longrightarrow> sum_list (map f (AList.update k w xs)) = sum_list (map f xs) + f (k, w)"
  by (induction xs) (auto simp: ac_simps split: if_splits)

lemma map_of_remove_key:
  "map_of (filter (\<lambda>(k', v). k' \<noteq> k) xs) k' = (if k' = k then None else map_of xs k')"
  by (induction xs) auto

lemma length_remove_key:
  "distinct (map fst xs) \<Longrightarrow> map_of xs k = Some v \<Longrightarrow>
     length xs = Suc (length (filter (\<lambda>(k', v). k' \<noteq> k) xs))"
  using sum_list_remove_key [of xs k v "\<lambda>_. 1::nat"] by (simp add: sum_list_triv)

end
