(* ===== verification/Records.thy ===== *)
theory Records
  imports Prelude
begin

text \<open>
  The data of \<^verbatim>\<open>src/storage/mod.rs\<close>: canonical records with their source fidelity, the query
  request and answer, and the rule by which a copy of a record replaces another. The two sort
  orders and the window test that every store repeats in its query are defined once here, with
  the facts about them that the stores share.
\<close>

section \<open>Records\<close>

datatype source_fidelity = Unknown | Reconstructed | DirectIrc

text \<open>\<open>#[derive(PartialOrd, Ord)]\<close>: the declaration order of the variants.\<close>

fun fidelity_rank :: "source_fidelity \<Rightarrow> nat" where
  "fidelity_rank Unknown = 0"
| "fidelity_rank Reconstructed = 1"
| "fidelity_rank DirectIrc = 2"

instantiation source_fidelity :: linorder
begin

definition less_eq_source_fidelity :: "source_fidelity \<Rightarrow> source_fidelity \<Rightarrow> bool" where
  "less_eq_source_fidelity a b \<longleftrightarrow> fidelity_rank a \<le> fidelity_rank b"

definition less_source_fidelity :: "source_fidelity \<Rightarrow> source_fidelity \<Rightarrow> bool" where
  "less_source_fidelity a b \<longleftrightarrow> fidelity_rank a < fidelity_rank b"

instance
proof
  fix a b :: source_fidelity
  show "a \<le> b \<Longrightarrow> b \<le> a \<Longrightarrow> a = b"
    by (cases a; cases b) (simp_all add: less_eq_source_fidelity_def)
qed (auto simp: less_eq_source_fidelity_def less_source_fidelity_def)

end

type_synonym event_key = bytes

record canonical_record =
  channel_key :: string
  event_at_ms :: int
  received_at_ms :: int
  event_key :: event_key
  source_id :: string
  fidelity :: source_fidelity
  raw_irc :: bytes

definition utf8 :: "string \<Rightarrow> bytes" where
  "utf8 s = map (\<lambda>c. of_nat (of_char c)) s"

lemma utf8_inject [simp]: "utf8 a = utf8 b \<longleftrightarrow> a = b"
proof -
  have "inj (\<lambda>c :: char. (of_nat (of_char c) :: u8))"
  proof (rule injI)
    fix c d :: char assume "(of_nat (of_char c) :: u8) = of_nat (of_char d)"
    then have "unat (of_nat (of_char c) :: u8) = unat (of_nat (of_char d) :: u8)" by simp
    moreover have "(of_char x :: nat) < 256" for x :: char by simp
    ultimately show "c = d" by (simp add: unsigned_of_nat take_bit_eq_mod)
  qed
  then show ?thesis by (simp add: utf8_def inj_map_eq_map)
qed

text \<open>\<open>str::to_ascii_lowercase\<close> and \<open>str::eq_ignore_ascii_case\<close>\<close>

definition ascii_lower :: "char \<Rightarrow> char" where
  "ascii_lower c = (if 65 \<le> (of_char c :: nat) \<and> (of_char c :: nat) \<le> 90 then char_of ((of_char c :: nat) + 32) else c)"

definition to_ascii_lowercase :: "string \<Rightarrow> string" where
  "to_ascii_lowercase s = map ascii_lower s"

definition eq_ignore_ascii_case :: "string \<Rightarrow> string \<Rightarrow> bool" where
  "eq_ignore_ascii_case a b \<longleftrightarrow> to_ascii_lowercase a = to_ascii_lowercase b"

text \<open>\<open>blake3\<close> is a third-party hash function and a parameter.\<close>

definition derive_event_key :: "(bytes \<Rightarrow> bytes) \<Rightarrow> string \<Rightarrow> bytes \<Rightarrow> event_key" where
  "derive_event_key hash ch raw = hash (utf8 ch @ [0] @ raw)"

definition should_replace :: "canonical_record \<Rightarrow> canonical_record \<Rightarrow> bool" where
  "should_replace self retained \<longleftrightarrow>
     event_key self = event_key retained \<and> fidelity self > fidelity retained"

lemma should_replaceD:
  "should_replace r q \<Longrightarrow> event_key r = event_key q \<and> fidelity q < fidelity r"
  by (simp add: should_replace_def)

lemma should_replace_asym: "should_replace a b \<Longrightarrow> \<not> should_replace b a"
  by (auto simp: should_replace_def)

section \<open>Sort orders\<close>

text \<open>The key of \<open>sort_by_key\<close> on the write path and on the read path.\<close>

definition event_order :: "canonical_record \<Rightarrow> int \<times> int \<times> event_key" where
  "event_order r = (event_at_ms r, received_at_ms r, event_key r)"

definition received_order :: "canonical_record \<Rightarrow> int \<times> int \<times> event_key" where
  "received_order r = (received_at_ms r, event_at_ms r, event_key r)"

lemma received_order_le: "received_order a \<le> received_order b \<Longrightarrow> received_at_ms a \<le> received_at_ms b"
  by (auto simp: received_order_def)

lemma sorted_received_at:
  "sorted (map received_order rs) \<Longrightarrow> sorted (map received_at_ms rs)"
  by (induction rs) (auto dest: received_order_le)

section \<open>Queries\<close>

record query_request =
  qr_channel_key :: string
  after_ms :: "int option"
  before_ms :: "int option"
  limit :: nat

record local_result =
  lr_records :: "canonical_record list"
  oldest_retained_at_ms :: "int option"
  newest_retained_at_ms :: "int option"

record store_stats =
  st_channels :: nat
  st_blocks :: nat
  st_messages :: nat
  st_compressed_bytes :: nat
  st_uncompressed_bytes :: nat

definition in_window :: "query_request \<Rightarrow> canonical_record \<Rightarrow> bool" where
  "in_window q r \<longleftrightarrow>
     (case after_ms q of None \<Rightarrow> True | Some a \<Rightarrow> received_at_ms r > a) \<and>
     (case before_ms q of None \<Rightarrow> True | Some b \<Rightarrow> received_at_ms r < b)"

text \<open>
  The tail of every store's \<open>query\<close>: sort all records of the channel, note the oldest and
  newest, keep the window, and keep the newest \<open>limit\<close> of those.
\<close>

definition answer_query :: "query_request \<Rightarrow> canonical_record list \<Rightarrow> local_result" where
  "answer_query q all_records =
     (let sorted_records = sort_key received_order all_records;
          oldest = (case sorted_records of [] \<Rightarrow> None | r # _ \<Rightarrow> Some (received_at_ms r));
          newest = (if sorted_records = [] then None
                    else Some (received_at_ms (last sorted_records)));
          records = drain_to_last (limit q) (filter (in_window q) sorted_records)
      in \<lparr>lr_records = records, oldest_retained_at_ms = oldest, newest_retained_at_ms = newest\<rparr>)"

text \<open>What a client may rely on in an answer, relative to the records the store holds.\<close>

definition valid_answer :: "query_request \<Rightarrow> canonical_record list \<Rightarrow> canonical_record list \<Rightarrow> bool" where
  "valid_answer q held rs \<longleftrightarrow>
     sorted (map received_order rs) \<and>
     length rs = min (limit q) (length (filter (in_window q) held)) \<and>
     mset rs \<subseteq># mset (filter (in_window q) held) \<and>
     (\<forall>x \<in># mset (filter (in_window q) held) - mset rs. \<forall>y \<in> set rs.
        received_order x \<le> received_order y)"

lemma drain_sorted_valid:
  assumes "sorted (map f ws)" and "mset ws = mset hs"
  shows "mset (drain_to_last n ws) \<subseteq># mset hs \<and>
    (\<forall>x \<in># mset hs - mset (drain_to_last n ws). \<forall>y \<in> set (drain_to_last n ws). f x \<le> f y)"
proof -
  define k where "k = length ws - n"
  have d: "drain_to_last n ws = drop k ws"
    by (simp add: k_def drain_to_last_alt)
  have split: "mset hs = mset (take k ws) + mset (drop k ws)"
    by (metis append_take_drop_id assms(2) mset_append)
  have "sorted (map f (take k ws) @ map f (drop k ws))"
    using assms(1) by (metis append_take_drop_id map_append)
  then show ?thesis
    by (auto simp: d split sorted_append)
qed

lemma answer_query_valid: "valid_answer q held (lr_records (answer_query q held))"
proof -
  let ?ws = "filter (in_window q) (sort_key received_order held)"
  have s: "sorted (map received_order ?ws)"
    by (simp add: filter_sort)
  have m: "mset ?ws = mset (filter (in_window q) held)"
    by simp
  have len: "length ?ws = length (filter (in_window q) held)"
    by (metis m size_mset)
  show ?thesis
    using drain_sorted_valid [OF s m, of "limit q"] s
    by (simp add: valid_answer_def answer_query_def Let_def len sorted_drain_to_last)
qed

lemma valid_answer_sub:
  assumes "valid_answer q held rs" and "r \<in> set rs"
  shows "r \<in> set held \<and> in_window q r"
proof -
  have "mset rs \<subseteq># filter_mset (in_window q) (mset held)"
    using assms(1) by (simp add: valid_answer_def)
  then have "r \<in># filter_mset (in_window q) (mset held)"
    by (rule mset_subset_eqD) (simp add: assms(2))
  then show ?thesis by simp
qed

lemma valid_answer_length: "valid_answer q held rs \<Longrightarrow> length rs \<le> limit q"
  by (simp add: valid_answer_def)

end
