(* ===== verification/Block.thy ===== *)
theory Block
  imports Records
begin

text \<open>
  The block codec of \<^verbatim>\<open>src/storage/block.rs\<close>: a batch of records of one channel becomes a
  compressed payload with a checksum and metadata, and decoding checks every one of them.

  MessagePack (\<^verbatim>\<open>rmp_serde\<close>), Zstandard and BLAKE3 are third-party libraries: they are the fields
  of \<open>codec\<close>, a parameter of every definition that uses them. \<open>codec_ok\<close> states what the code
  relies on: decoding inverts encoding, and a BLAKE3 digest has 32 bytes.
\<close>

record codec =
  to_vec_named :: "canonical_record list \<Rightarrow> bytes option"
  from_slice :: "bytes \<Rightarrow> canonical_record list option"
  encode_all :: "bytes \<Rightarrow> int \<Rightarrow> bytes option"
  decode_all :: "bytes \<Rightarrow> bytes option"
  blake3 :: "bytes \<Rightarrow> bytes"

definition codec_ok :: "codec \<Rightarrow> bool" where
  "codec_ok cd \<longleftrightarrow>
     (\<forall>rs b. to_vec_named cd rs = Some b \<longrightarrow> from_slice cd b = Some rs) \<and>
     (\<forall>b l c. encode_all cd b l = Some c \<longrightarrow> decode_all cd c = Some b) \<and>
     (\<forall>b. length (blake3 cd b) = 32)"

lemma codec_okD:
  "codec_ok cd \<Longrightarrow> to_vec_named cd rs = Some b \<Longrightarrow> from_slice cd b = Some rs"
  "codec_ok cd \<Longrightarrow> encode_all cd b l = Some c \<Longrightarrow> decode_all cd c = Some b"
  "codec_ok cd \<Longrightarrow> length (blake3 cd x) = 32"
  by (auto simp: codec_ok_def)

datatype block_error =
    Empty
  | MixedChannels
  | UnsupportedVersion nat
  | ChecksumMismatch
  | MetadataMismatch
  | TooLarge
  | Encode
  | Decode
  | Compression

definition block_format_version :: nat where
  "block_format_version = 1"

record encoded_block =
  format_version :: nat
  eb_channel_key :: string
  first_event_at_ms :: int
  last_event_at_ms :: int
  message_count :: nat
  uncompressed_bytes :: nat
  checksum :: bytes
  payload :: bytes

definition encode :: "codec \<Rightarrow> canonical_record list \<Rightarrow> int \<Rightarrow> block_error + encoded_block" where
  "encode cd records compression_level =
     (case records of
        [] \<Rightarrow> Inl Empty
      | first # _ \<Rightarrow>
          if list_ex (\<lambda>r. channel_key r \<noteq> channel_key first) records then Inl MixedChannels
          else and_then (ok_or Encode (to_vec_named cd records)) (\<lambda>uncompressed.
            and_then (ok_or Compression (encode_all cd uncompressed compression_level)) (\<lambda>pl.
              if length records > u32_max then Inl TooLarge
              else if length uncompressed > u32_max then Inl TooLarge
              else Inr \<lparr>format_version = block_format_version,
                        eb_channel_key = channel_key first,
                        first_event_at_ms = the (iter_min (map event_at_ms records)),
                        last_event_at_ms = the (iter_max (map event_at_ms records)),
                        message_count = length records,
                        uncompressed_bytes = length uncompressed,
                        checksum = blake3 cd pl,
                        payload = pl\<rparr>)))"

definition metadata_matches :: "encoded_block \<Rightarrow> bytes \<Rightarrow> canonical_record list \<Rightarrow> bool" where
  "metadata_matches self uncompressed records \<longleftrightarrow>
     records \<noteq> [] \<and>
     list_all (\<lambda>r. channel_key r = eb_channel_key self) records \<and>
     length records = message_count self \<and>
     length uncompressed = uncompressed_bytes self \<and>
     iter_min (map event_at_ms records) = Some (first_event_at_ms self) \<and>
     iter_max (map event_at_ms records) = Some (last_event_at_ms self)"

definition decode :: "codec \<Rightarrow> encoded_block \<Rightarrow> block_error + canonical_record list" where
  "decode cd self =
     (if format_version self \<noteq> block_format_version
      then Inl (UnsupportedVersion (format_version self))
      else if blake3 cd (payload self) \<noteq> checksum self then Inl ChecksumMismatch
      else and_then (ok_or Compression (decode_all cd (payload self))) (\<lambda>uncompressed.
        and_then (ok_or Decode (from_slice cd uncompressed)) (\<lambda>records.
          if \<not> metadata_matches self uncompressed records then Inl MetadataMismatch
          else Inr records)))"

definition compressed_bytes :: "encoded_block \<Rightarrow> nat" where
  "compressed_bytes b = length (payload b)"

section \<open>Facts about blocks\<close>

text \<open>The metadata of a block that encodes \<open>rs\<close>.\<close>

definition describes :: "encoded_block \<Rightarrow> canonical_record list \<Rightarrow> bool" where
  "describes b rs \<longleftrightarrow>
     rs \<noteq> [] \<and> (\<forall>r \<in> set rs. channel_key r = eb_channel_key b) \<and>
     message_count b = length rs \<and>
     first_event_at_ms b = Min (event_at_ms ` set rs) \<and>
     last_event_at_ms b = Max (event_at_ms ` set rs)"

lemma iter_min_map: "xs \<noteq> [] \<Longrightarrow> iter_min (map f xs) = Some (Min (f ` set xs))"
  by (simp add: iter_min_Some)

lemma iter_max_map: "xs \<noteq> [] \<Longrightarrow> iter_max (map f xs) = Some (Max (f ` set xs))"
  by (simp add: iter_max_Some)

lemma metadata_matches_iff:
  "metadata_matches b u rs \<longleftrightarrow> describes b rs \<and> length u = uncompressed_bytes b"
proof (cases "rs = []")
  case True
  then show ?thesis by (simp add: metadata_matches_def describes_def)
next
  case False
  then show ?thesis
    by (auto simp: metadata_matches_def describes_def list_all_iff iter_min_map iter_max_map)
qed

lemma encode_Inr:
  assumes "encode cd rs level = Inr b"
  shows "describes b rs" and "format_version b = block_format_version"
    and "checksum b = blake3 cd (payload b)" and "message_count b \<le> u32_max"
    and "uncompressed_bytes b \<le> u32_max"
    and "\<exists>u. to_vec_named cd rs = Some u \<and> encode_all cd u level = Some (payload b) \<and>
          uncompressed_bytes b = length u"
  using assms
  by (auto simp: encode_def describes_def list_ex_iff iter_min_map iter_max_map
      iter_min_def iter_max_def min_list1_Min max_list1_Max
      split: list.splits if_splits)

lemma encode_ne_Nil: "encode cd rs level = Inr b \<Longrightarrow> rs \<noteq> []"
  by (auto simp: encode_def)

lemma encode_channel:
  "encode cd rs level = Inr b \<Longrightarrow> r \<in> set rs \<Longrightarrow> channel_key r = eb_channel_key b"
  using encode_Inr(1) by (auto simp: describes_def)

lemma decode_Inr:
  assumes "decode cd b = Inr rs"
  shows "describes b rs" and "blake3 cd (payload b) = checksum b"
    and "format_version b = block_format_version"
  using assms by (auto simp: decode_def metadata_matches_iff split: if_splits)

lemma decode_encode:
  assumes "codec_ok cd" and "encode cd rs level = Inr b"
  shows "decode cd b = Inr rs"
proof -
  obtain u where u: "to_vec_named cd rs = Some u" "encode_all cd u level = Some (payload b)"
    "uncompressed_bytes b = length u"
    using encode_Inr(6) [OF assms(2)] by blast
  have "decode_all cd (payload b) = Some u" "from_slice cd u = Some rs"
    using u assms(1) by (auto dest: codec_okD)
  then show ?thesis
    using encode_Inr [OF assms(2)] u by (simp add: decode_def metadata_matches_iff)
qed

text \<open>
  A codec for the closed examples of the development: it serialises exactly the record lists of
  a table, each as the byte string of its index, and compression prefixes a byte.
\<close>

fun index_of :: "'a list \<Rightarrow> 'a \<Rightarrow> nat option" where
  "index_of [] x = None"
| "index_of (y # ys) x = (if x = y then Some 0 else map_option Suc (index_of ys x))"

fun lookup_index :: "'a list \<Rightarrow> nat \<Rightarrow> 'a option" where
  "lookup_index [] n = None"
| "lookup_index (y # ys) n = (if n = 0 then Some y else lookup_index ys (n - 1))"

definition table_codec :: "canonical_record list list \<Rightarrow> codec" where
  "table_codec T =
     \<lparr>to_vec_named = (\<lambda>rs. map_option (\<lambda>n. replicate n 1) (index_of T rs)),
      from_slice = (\<lambda>b. lookup_index T (length b)),
      encode_all = (\<lambda>b l. Some (7 # b)),
      decode_all = (\<lambda>c. case c of [] \<Rightarrow> None | x # b \<Rightarrow> Some b),
      blake3 = (\<lambda>b. take 32 (b @ replicate 32 0))\<rparr>"

lemma lookup_index_of: "index_of T x = Some n \<Longrightarrow> lookup_index T n = Some x"
  by (induction T arbitrary: n) (auto split: if_splits)

lemma table_codec_ok: "codec_ok (table_codec T)"
  by (auto simp: codec_ok_def table_codec_def lookup_index_of)

end
