(* ===== verification/Store.thy ===== *)
theory Store
  imports Block
begin

text \<open>
  The storage interface of \<^verbatim>\<open>src/storage/mod.rs\<close>: the error type and the trait \<open>MessageStore\<close>,
  as a locale. The trait's operations are the parameters \<open>append_batch\<close> and \<open>query\<close>; \<open>retained\<close> is
  the abstraction (the records of a channel in the order of their blocks) and \<open>invar\<close> the
  representation invariant; \<open>fits\<close> says that a batch does not overflow the store's counters. The laws are what every implementation promises a caller; the in-memory
  store and the SQLite store interpret the locale in their own theories.
\<close>

datatype store_error =
    Block block_error
  | LockPoisoned
  | MixedChannelBatch
  | InvalidLimit
  | Backend string

text \<open>\<open>records.iter().any(|record| record.channel_key != first.channel_key)\<close>\<close>

definition mixed_batch :: "canonical_record list \<Rightarrow> bool" where
  "mixed_batch records =
     (case records of [] \<Rightarrow> False
      | first # _ \<Rightarrow> list_ex (\<lambda>r. channel_key r \<noteq> channel_key first) records)"

lemma not_mixed_batch:
  "\<not> mixed_batch rs \<Longrightarrow> r \<in> set rs \<Longrightarrow> channel_key r = channel_key (hd rs)"
  by (auto simp: mixed_batch_def list_ex_iff split: list.splits)

locale message_store =
  fixes append_batch :: "'s \<Rightarrow> canonical_record list \<Rightarrow> (store_error + unit) \<times> 's"
    and query :: "'s \<Rightarrow> query_request \<Rightarrow> store_error + local_result"
    and retained :: "'s \<Rightarrow> string \<Rightarrow> canonical_record list"
    and invar :: "'s \<Rightarrow> bool"
    and fits :: "canonical_record list \<Rightarrow> bool"
  assumes query_zero: "limit q = 0 \<Longrightarrow> query s q = Inl InvalidLimit"
    and query_answer: "invar s \<Longrightarrow> limit q \<noteq> 0 \<Longrightarrow>
      query s q = Inr (answer_query q (retained s (qr_channel_key q)))"
    and append_mixed: "mixed_batch rs \<Longrightarrow> append_batch s rs = (Inl MixedChannelBatch, s)"
    and invar_append: "invar s \<Longrightarrow> fits rs \<Longrightarrow> append_batch s rs = (res, s') \<Longrightarrow> invar s'"
    and append_frame: "invar s \<Longrightarrow> fits rs \<Longrightarrow> append_batch s rs = (res, s') \<Longrightarrow>
      ch \<notin> channel_key ` set rs \<Longrightarrow> retained s' ch = retained s ch"
    and append_sound: "invar s \<Longrightarrow> fits rs \<Longrightarrow> append_batch s rs = (res, s') \<Longrightarrow>
      r \<in> set (retained s' ch) \<Longrightarrow> r \<in> set (retained s ch) \<or> r \<in> set rs"
    and retained_channel: "invar s \<Longrightarrow> r \<in> set (retained s ch) \<Longrightarrow> channel_key r = ch"
begin

lemma query_ok:
  assumes "invar s" and "limit q \<noteq> 0"
  obtains res where "query s q = Inr res"
    and "valid_answer q (retained s (qr_channel_key q)) (lr_records res)"
  using assms by (simp add: query_answer answer_query_valid)

lemma query_sound:
  assumes "invar s" and "query s q = Inr res" and "r \<in> set (lr_records res)"
  shows "channel_key r = qr_channel_key q \<and> in_window q r \<and>
    r \<in> set (retained s (qr_channel_key q))"
proof -
  have l: "limit q \<noteq> 0"
    using assms(2) query_zero [of q s] by (cases "limit q = 0") auto
  then have "valid_answer q (retained s (qr_channel_key q)) (lr_records res)"
    using assms(1,2) query_answer [of s q] answer_query_valid by auto
  then show ?thesis
    using valid_answer_sub assms(3) retained_channel [OF assms(1)] by blast
qed

text \<open>A sequence of appends, errors included: every held record was appended.\<close>

fun append_all :: "'s \<Rightarrow> canonical_record list list \<Rightarrow> 's" where
  "append_all s [] = s"
| "append_all s (rs # rss) = append_all (snd (append_batch s rs)) rss"

lemma invar_append_all: "invar s \<Longrightarrow> list_all fits rss \<Longrightarrow> invar (append_all s rss)"
proof (induction rss arbitrary: s)
  case (Cons rs rss)
  then show ?case using invar_append [of s rs] by (cases "append_batch s rs") auto
qed simp

lemma append_all_sound:
  assumes "invar s" and "list_all fits rss" and "r \<in> set (retained (append_all s rss) ch)"
  shows "r \<in> set (retained s ch) \<or> r \<in> set (concat rss)"
  using assms
proof (induction rss arbitrary: s)
  case (Cons rs rss)
  obtain res s' where s': "append_batch s rs = (res, s')" by fastforce
  have fits: "fits rs" using Cons.prems(2) by simp
  then have "invar s'" using Cons.prems(1) s' invar_append by blast
  with Cons s' have "r \<in> set (retained s' ch) \<or> r \<in> set (concat rss)" by simp
  then show ?case
    using append_sound [OF Cons.prems(1) fits s'] by auto
qed simp

text \<open>A query after any sequence of appends returns appended records only.\<close>

lemma query_after_appends:
  assumes "invar s" and "list_all fits rss" and "query (append_all s rss) q = Inr res"
    and "r \<in> set (lr_records res)"
  shows "channel_key r = qr_channel_key q \<and> in_window q r \<and>
    (r \<in> set (retained s (qr_channel_key q)) \<or> r \<in> set (concat rss))"
  using query_sound [OF invar_append_all [OF assms(1,2)] assms(3,4)]
    append_all_sound [OF assms(1,2)] by blast

end

end
