(* ===== verification/MemoryStore.thy ===== *)
theory MemoryStore
  imports Store
begin

text \<open>
  The in-memory implementation of \<open>MessageStore\<close>, \<^verbatim>\<open>src/storage/memory.rs\<close>: per channel a queue of
  encoded blocks, the set of event keys they hold and a message count. Appending deduplicates by
  event key, encodes chunks of \<open>block_messages\<close> records and drops whole blocks from the front while
  the channel exceeds its allowance. A failed call returns the error and the state it had reached.
\<close>

record channel_blocks =
  blocks :: "encoded_block list"
  seen_event_keys :: "event_key set"
  cb_message_count :: nat

record memory_store =
  block_messages :: nat
  target_messages_per_channel :: nat
  compression_level :: int
  channels :: "(string \<times> channel_blocks) list"

text \<open>The assertions of \<open>new\<close> abort the process: \<open>None\<close>.\<close>

definition new_memory_store :: "nat \<Rightarrow> nat \<Rightarrow> memory_store option" where
  "new_memory_store bm target =
     (if bm > 0 \<and> target > 0
      then Some \<lparr>block_messages = bm, target_messages_per_channel = target,
                 compression_level = 3, channels = []\<rparr>
      else None)"

definition empty_channel :: channel_blocks where
  "empty_channel = \<lparr>blocks = [], seen_event_keys = {}, cb_message_count = 0\<rparr>"

definition allowed_messages :: "nat \<Rightarrow> nat \<Rightarrow> nat" where
  "allowed_messages target bm = u64_saturating_add target (u64_saturating_sub bm 1)"

definition decode_blocks :: "codec \<Rightarrow> encoded_block list \<Rightarrow> store_error + canonical_record list" where
  "decode_blocks cd bs =
     and_then (collect_results (\<lambda>b. map_err Block (decode cd b)) bs) (\<lambda>rss. Inr (concat rss))"

fun push_chunks :: "codec \<Rightarrow> int \<Rightarrow> canonical_record list list \<Rightarrow> channel_blocks
    \<Rightarrow> (store_error + unit) \<times> channel_blocks" where
  "push_chunks cd level [] c = (Inr (), c)"
| "push_chunks cd level (chunk # rest) c =
     (case encode cd chunk level of
        Inl e \<Rightarrow> (Inl (Block e), c)
      | Inr b \<Rightarrow> push_chunks cd level rest
          (c\<lparr>cb_message_count := cb_message_count c + length chunk, blocks := blocks c @ [b]\<rparr>))"

definition forget :: "channel_blocks \<Rightarrow> canonical_record \<Rightarrow> channel_blocks" where
  "forget c r = c\<lparr>seen_event_keys := seen_event_keys c - {event_key r},
                  cb_message_count := u64_saturating_sub (cb_message_count c) 1\<rparr>"

lemma foldl_forget_simps [simp]:
  "blocks (foldl forget c rs) = blocks c"
  "seen_event_keys (foldl forget c rs) = seen_event_keys c - event_key ` set rs"
  "cb_message_count (foldl forget c rs) = cb_message_count c - length rs"
  by (induction rs arbitrary: c) (auto simp: forget_def int_defs)

function evict_front :: "codec \<Rightarrow> nat \<Rightarrow> channel_blocks \<Rightarrow> (store_error + unit) \<times> channel_blocks" where
  "evict_front cd allowed c =
     (if cb_message_count c > allowed
      then (case blocks c of
              [] \<Rightarrow> (Inr (), c)
            | evicted # rest \<Rightarrow>
                (case decode cd evicted of
                   Inl e \<Rightarrow> (Inl (Block e), c\<lparr>blocks := rest\<rparr>)
                 | Inr rs \<Rightarrow> evict_front cd allowed (foldl forget (c\<lparr>blocks := rest\<rparr>) rs)))
      else (Inr (), c))"
  by pat_completeness auto
termination
  by (relation "measure (\<lambda>(cd, allowed, c). length (blocks c))") auto

declare evict_front.simps [simp del]

text \<open>\<open>channels.entry(channel_key).or_default()\<close>\<close>

definition channel_of :: "memory_store \<Rightarrow> string \<Rightarrow> channel_blocks" where
  "channel_of self ch = (case map_of (channels self) ch of None \<Rightarrow> empty_channel | Some c \<Rightarrow> c)"

definition mem_append_batch ::
    "codec \<Rightarrow> memory_store \<Rightarrow> canonical_record list \<Rightarrow> (store_error + unit) \<times> memory_store" where
  "mem_append_batch cd self records =
     (case records of
        [] \<Rightarrow> (Inr (), self)
      | first # _ \<Rightarrow>
          if list_ex (\<lambda>r. channel_key r \<noteq> channel_key first) records
          then (Inl MixedChannelBatch, self)
          else
            (let ch = channel_key first;
                 sorted_records = sort_key event_order records;
                 c = channel_of self ch;
                 (kept, seen) = retain_new event_key (seen_event_keys c) sorted_records;
                 (pushed, c2) = push_chunks cd (compression_level self)
                    (chunks (block_messages self) kept) (c\<lparr>seen_event_keys := seen\<rparr>);
                 (res, c3) = (case pushed of
                     Inl e \<Rightarrow> (Inl e, c2)
                   | Inr _ \<Rightarrow> evict_front cd
                       (allowed_messages (target_messages_per_channel self) (block_messages self)) c2)
             in (res, self\<lparr>channels := AList.update ch c3 (channels self)\<rparr>)))"

definition mem_query :: "codec \<Rightarrow> memory_store \<Rightarrow> query_request \<Rightarrow> store_error + local_result" where
  "mem_query cd self request =
     (if limit request = 0 then Inl InvalidLimit
      else and_then
        (case map_of (channels self) (qr_channel_key request) of
           None \<Rightarrow> Inr []
         | Some c \<Rightarrow> decode_blocks cd (blocks c))
        (\<lambda>all_records. Inr (answer_query request all_records)))"

definition mem_stats :: "memory_store \<Rightarrow> store_stats" where
  "mem_stats self =
     (let bs = concat (map (blocks \<circ> snd) (channels self))
      in \<lparr>st_channels = length (channels self), st_blocks = length bs,
          st_messages = sum_list (map (cb_message_count \<circ> snd) (channels self)),
          st_compressed_bytes = sum_list (map (length \<circ> payload) bs),
          st_uncompressed_bytes = sum_list (map uncompressed_bytes bs)\<rparr>)"

section \<open>Abstraction and invariant\<close>

definition block_records :: "codec \<Rightarrow> encoded_block \<Rightarrow> canonical_record list" where
  "block_records cd b = (case decode cd b of Inl _ \<Rightarrow> [] | Inr rs \<Rightarrow> rs)"

definition blocks_records :: "codec \<Rightarrow> encoded_block list \<Rightarrow> canonical_record list" where
  "blocks_records cd bs = concat (map (block_records cd) bs)"

definition mem_retained :: "codec \<Rightarrow> memory_store \<Rightarrow> string \<Rightarrow> canonical_record list" where
  "mem_retained cd self ch =
     (case map_of (channels self) ch of None \<Rightarrow> [] | Some c \<Rightarrow> blocks_records cd (blocks c))"

definition good_block :: "codec \<Rightarrow> string \<Rightarrow> encoded_block \<Rightarrow> bool" where
  "good_block cd ch b \<longleftrightarrow> decode cd b = Inr (block_records cd b) \<and> eb_channel_key b = ch"

definition channel_inv :: "codec \<Rightarrow> string \<Rightarrow> channel_blocks \<Rightarrow> bool" where
  "channel_inv cd ch c \<longleftrightarrow>
     (\<forall>b \<in> set (blocks c). good_block cd ch b) \<and>
     cb_message_count c = length (blocks_records cd (blocks c)) \<and>
     distinct (map event_key (blocks_records cd (blocks c))) \<and>
     event_key ` set (blocks_records cd (blocks c)) \<subseteq> seen_event_keys c"

definition mem_inv :: "codec \<Rightarrow> memory_store \<Rightarrow> bool" where
  "mem_inv cd self \<longleftrightarrow>
     codec_ok cd \<and> 0 < block_messages self \<and> 0 < target_messages_per_channel self \<and>
     (\<forall>ch c. map_of (channels self) ch = Some c \<longrightarrow> channel_inv cd ch c)"

lemma blocks_records_simps [simp]:
  "blocks_records cd [] = []"
  "blocks_records cd (b # bs) = block_records cd b @ blocks_records cd bs"
  "blocks_records cd (bs @ bs') = blocks_records cd bs @ blocks_records cd bs'"
  by (simp_all add: blocks_records_def)

lemma good_block_channel: "good_block cd ch b \<Longrightarrow> r \<in> set (block_records cd b) \<Longrightarrow> channel_key r = ch"
  using decode_Inr(1) by (auto simp: good_block_def describes_def)

lemma good_blocks_channel:
  "\<forall>b \<in> set bs. good_block cd ch b \<Longrightarrow> r \<in> set (blocks_records cd bs) \<Longrightarrow> channel_key r = ch"
  by (auto simp: blocks_records_def dest: good_block_channel)

lemma decode_good_blocks:
  "\<forall>b \<in> set bs. good_block cd ch b \<Longrightarrow> decode_blocks cd bs = Inr (blocks_records cd bs)"
  by (simp add: decode_blocks_def blocks_records_def good_block_def
      collect_results_map [where g = "block_records cd"])

lemma encode_good_block:
  assumes "codec_ok cd" and "encode cd rs level = Inr b" and "\<forall>r \<in> set rs. channel_key r = ch"
  shows "good_block cd ch b" and "block_records cd b = rs"
proof -
  have d: "decode cd b = Inr rs" by (rule decode_encode [OF assms(1,2)])
  then show r: "block_records cd b = rs" by (simp add: block_records_def)
  obtain r where r': "r \<in> set rs"
    using encode_ne_Nil [OF assms(2)] by (cases rs) auto
  show "good_block cd ch b"
    using d r assms(3) r' encode_channel [OF assms(2) r'] by (simp add: good_block_def)
qed

lemma channel_inv_empty [simp]: "channel_inv cd ch empty_channel"
  by (simp add: channel_inv_def empty_channel_def)

section \<open>Pushing and evicting blocks\<close>

text \<open>
  Pushing appends a prefix of the chunks, all of them on success, and keeps the invariant when
  their keys are new and already in the seen set.
\<close>

lemma push_chunks_spec:
  assumes "codec_ok cd" and "push_chunks cd level cs c = (res, c')"
    and "\<forall>r \<in> set (concat cs). channel_key r = ch"
    and "\<forall>b \<in> set (blocks c). good_block cd ch b"
    and "cb_message_count c = length (blocks_records cd (blocks c))"
  shows "\<exists>k. blocks_records cd (blocks c') = blocks_records cd (blocks c) @ concat (take k cs) \<and>
     (res = Inr () \<longrightarrow> k = length cs) \<and>
     (\<forall>b \<in> set (blocks c'). good_block cd ch b) \<and>
     cb_message_count c' = length (blocks_records cd (blocks c')) \<and>
     seen_event_keys c' = seen_event_keys c"
  using assms(2-)
proof (induction cs arbitrary: c)
  case Nil
  then show ?case by auto
next
  case (Cons chunk cs)
  show ?case
  proof (cases "encode cd chunk level")
    case (Inl e)
    with Cons.prems show ?thesis by (intro exI [of _ 0]) auto
  next
    case (Inr b)
    let ?c = "c\<lparr>cb_message_count := cb_message_count c + length chunk, blocks := blocks c @ [b]\<rparr>"
    have g: "good_block cd ch b" "block_records cd b = chunk"
      using encode_good_block [OF assms(1) Inr, of ch] Cons.prems(2) by auto
    have p: "push_chunks cd level cs ?c = (res, c')"
      using Cons.prems(1) Inr by simp
    have "\<exists>k. blocks_records cd (blocks c') = blocks_records cd (blocks ?c) @ concat (take k cs) \<and>
       (res = Inr () \<longrightarrow> k = length cs) \<and> (\<forall>b \<in> set (blocks c'). good_block cd ch b) \<and>
       cb_message_count c' = length (blocks_records cd (blocks c')) \<and>
       seen_event_keys c' = seen_event_keys ?c"
      by (rule Cons.IH [OF p]) (use Cons.prems(2-) g in auto)
    then obtain k where
      k: "blocks_records cd (blocks c') = blocks_records cd (blocks ?c) @ concat (take k cs)"
        "res = Inr () \<longrightarrow> k = length cs" "\<forall>b \<in> set (blocks c'). good_block cd ch b"
        "cb_message_count c' = length (blocks_records cd (blocks c'))"
        "seen_event_keys c' = seen_event_keys ?c"
      by blast
    show ?thesis
      by (rule exI [of _ "Suc k"]) (use k g in \<open>simp del: map_append\<close>)
  qed
qed

lemma evict_front_spec:
  assumes "channel_inv cd ch c" and "evict_front cd allowed c = (res, c')"
  shows "res = Inr () \<and> channel_inv cd ch c' \<and> cb_message_count c' \<le> allowed \<and>
     (\<exists>ys. blocks_records cd (blocks c) = ys @ blocks_records cd (blocks c') \<and>
        (cb_message_count c \<le> allowed \<longrightarrow> ys = []))"
  using assms
proof (induction cd allowed c rule: evict_front.induct)
  case (1 cd allowed c)
  show ?case
  proof (cases "cb_message_count c > allowed")
    case False
    with "1.prems" show ?thesis by (auto simp: evict_front.simps [of cd allowed c])
  next
    case True
    show ?thesis
    proof (cases "blocks c")
      case Nil
      with "1.prems"(1) True show ?thesis by (simp add: channel_inv_def)
    next
      case (Cons b bs)
      let ?rs = "block_records cd b"
      let ?c = "foldl forget (c\<lparr>blocks := bs\<rparr>) ?rs"
      have d: "decode cd b = Inr ?rs"
        using "1.prems"(1) Cons by (auto simp: channel_inv_def good_block_def)
      have inv: "channel_inv cd ch ?c"
        using "1.prems"(1) Cons by (auto simp: channel_inv_def)
      have ev: "evict_front cd allowed ?c = (res, c')"
        using "1.prems"(2) True Cons d by (simp add: evict_front.simps [of cd allowed c])
      have IH: "res = Inr () \<and> channel_inv cd ch c' \<and> cb_message_count c' \<le> allowed \<and>
         (\<exists>ys. blocks_records cd (blocks ?c) = ys @ blocks_records cd (blocks c') \<and>
            (cb_message_count ?c \<le> allowed \<longrightarrow> ys = []))"
        using "1.IH" [OF True Cons d inv ev] .
      then obtain ys where "blocks_records cd bs = ys @ blocks_records cd (blocks c')"
        by auto
      with IH True Cons show ?thesis
        by (intro conjI exI [of _ "?rs @ ys"]) auto
    qed
  qed
qed

section \<open>Appending a batch\<close>

text \<open>The records of a batch that \<open>append_batch\<close> will store, in block order.\<close>

definition new_records :: "memory_store \<Rightarrow> canonical_record list \<Rightarrow> canonical_record list" where
  "new_records self records =
     fst (retain_new event_key (seen_event_keys (channel_of self (channel_key (hd records))))
       (sort_key event_order records))"

definition mem_allowed :: "memory_store \<Rightarrow> nat" where
  "mem_allowed self = allowed_messages (target_messages_per_channel self) (block_messages self)"

lemma mem_retained_channel_of: "mem_retained cd s ch = blocks_records cd (blocks (channel_of s ch))"
  by (simp add: mem_retained_def channel_of_def empty_channel_def split: option.splits)

lemma channel_of_inv: "mem_inv cd s \<Longrightarrow> channel_inv cd ch (channel_of s ch)"
  by (simp add: mem_inv_def channel_of_def split: option.splits)

lemma mem_append_unfold:
  assumes "rs \<noteq> []" and "\<not> mixed_batch rs"
    and "retain_new event_key (seen_event_keys (channel_of s ch)) (sort_key event_order rs) = (kept, seen)"
    and "push_chunks cd (compression_level s) (chunks (block_messages s) kept)
      (channel_of s ch\<lparr>seen_event_keys := seen\<rparr>) = (pushed, c2)"
    and "ch = channel_key (hd rs)"
  shows "mem_append_batch cd s rs =
    (let (res, c3) = (case pushed of Inl e \<Rightarrow> (Inl e, c2) | Inr _ \<Rightarrow> evict_front cd (mem_allowed s) c2)
     in (res, s\<lparr>channels := AList.update ch c3 (channels s)\<rparr>))"
  using assms
  by (cases rs)
     (auto simp: mem_append_batch_def mixed_batch_def mem_allowed_def Let_def
       simp del: sort_key_simps split: sum.split prod.split)

lemma mem_append_core:
  assumes inv: "mem_inv cd s" and ne: "rs \<noteq> []" "\<not> mixed_batch rs"
    and ap: "mem_append_batch cd s rs = (res, s')" and ch: "ch = channel_key (hd rs)"
  shows "\<exists>c3 k ys. s' = s\<lparr>channels := AList.update ch c3 (channels s)\<rparr> \<and> channel_inv cd ch c3 \<and>
    mem_retained cd s ch @ concat (take k (chunks (block_messages s) (new_records s rs))) =
      ys @ blocks_records cd (blocks c3) \<and>
    (res = Inr () \<longrightarrow> k = length (chunks (block_messages s) (new_records s rs)) \<and>
       cb_message_count c3 \<le> mem_allowed s \<and>
       (length (mem_retained cd s ch) + length (new_records s rs) \<le> mem_allowed s \<longrightarrow> ys = []))"
proof -
  let ?c = "channel_of s ch" and ?bm = "block_messages s"
  obtain kept seen where rn:
    "retain_new event_key (seen_event_keys ?c) (sort_key event_order rs) = (kept, seen)" by fastforce
  let ?cs = "chunks ?bm kept" and ?c1 = "?c\<lparr>seen_event_keys := seen\<rparr>"
  obtain pushed c2 where pc: "push_chunks cd (compression_level s) ?cs ?c1 = (pushed, c2)" by fastforce
  have kept: "kept = new_records s rs" by (simp add: new_records_def rn ch [symmetric])
  have cc: "concat ?cs = kept" using inv by (simp add: concat_chunks mem_inv_def)
  note rspec = retain_new_spec [OF rn]
  have chan: "\<forall>r \<in> set (concat ?cs). channel_key r = ch"
    using not_mixed_batch [OF ne(2)] rspec by (auto simp: cc ch)
  have ok: "codec_ok cd" using inv by (simp add: mem_inv_def)
  have cinv: "channel_inv cd ch ?c" by (rule channel_of_inv [OF inv])
  have "\<exists>k. blocks_records cd (blocks c2) = mem_retained cd s ch @ concat (take k ?cs) \<and>
     (pushed = Inr () \<longrightarrow> k = length ?cs) \<and> (\<forall>b \<in> set (blocks c2). good_block cd ch b) \<and>
     cb_message_count c2 = length (blocks_records cd (blocks c2)) \<and> seen_event_keys c2 = seen"
    using push_chunks_spec [OF ok pc chan] cinv
    by (simp add: channel_inv_def mem_retained_channel_of)
  then obtain k where
    k: "blocks_records cd (blocks c2) = mem_retained cd s ch @ concat (take k ?cs)"
      "pushed = Inr () \<longrightarrow> k = length ?cs" "\<forall>b \<in> set (blocks c2). good_block cd ch b"
      "cb_message_count c2 = length (blocks_records cd (blocks c2))" "seen_event_keys c2 = seen"
    by blast
  define new where "new = concat (take k ?cs)"
  obtain zs where zs: "kept = new @ zs"
    unfolding new_def using concat_take_prefix cc by metis
  have new: "set new \<subseteq> set kept" "distinct (map event_key new)"
    using rspec by (simp_all add: zs)
  have held: "distinct (map event_key (mem_retained cd s ch))"
    "event_key ` set (mem_retained cd s ch) \<subseteq> seen_event_keys ?c"
    using cinv by (simp_all add: channel_inv_def mem_retained_channel_of)
  have disj: "event_key ` set kept \<inter> seen_event_keys ?c = {}" "event_key ` set kept \<subseteq> seen"
    "seen_event_keys ?c \<subseteq> seen"
    using rspec by auto
  have "distinct (map event_key (mem_retained cd s ch @ new))"
    using new held disj by auto
  moreover have "event_key ` set (mem_retained cd s ch @ new) \<subseteq> seen"
    using order_trans [OF image_mono [OF new(1)] disj(2)] order_trans [OF held(2) disj(3)]
    by (simp add: image_Un)
  ultimately have inv2: "channel_inv cd ch c2"
    using k by (simp add: channel_inv_def new_def)
  obtain c3 where c3: "(case pushed of Inl e \<Rightarrow> (Inl e, c2) | Inr _ \<Rightarrow> evict_front cd (mem_allowed s) c2)
      = (res, c3)" and s': "s' = s\<lparr>channels := AList.update ch c3 (channels s)\<rparr>"
    using ap mem_append_unfold [OF ne rn pc ch]
    by (auto split: prod.splits)
  show ?thesis
  proof (cases pushed)
    case (Inl e)
    with c3 k inv2 s' show ?thesis
      by (intro exI [of _ c3] exI [of _ k] exI [of _ "[]"]) (auto simp: kept)
  next
    case (Inr u)
    with c3 have ev: "evict_front cd (mem_allowed s) c2 = (res, c3)" by simp
    obtain ys where ys: "blocks_records cd (blocks c2) = ys @ blocks_records cd (blocks c3)"
      "cb_message_count c2 \<le> mem_allowed s \<longrightarrow> ys = []" "channel_inv cd ch c3"
      "cb_message_count c3 \<le> mem_allowed s"
      using evict_front_spec [OF inv2 ev] by blast
    have "length (blocks_records cd (blocks c2)) = length (mem_retained cd s ch) + length kept"
      using k(1,2) Inr cc by (cases u) (simp add: length_concat)
    with ys k Inr s' show ?thesis
      by (intro exI [of _ c3] exI [of _ k] exI [of _ ys]) (auto simp: kept)
  qed
qed

lemma mem_append_Nil [simp]: "mem_append_batch cd s [] = (Inr (), s)"
  by (simp add: mem_append_batch_def)

lemma mem_append_mixed: "mixed_batch rs \<Longrightarrow> mem_append_batch cd s rs = (Inl MixedChannelBatch, s)"
  by (auto simp: mem_append_batch_def mixed_batch_def split: list.splits)

lemma mem_retained_update:
  "mem_retained cd (s\<lparr>channels := AList.update ch c (channels s)\<rparr>) ch' =
     (if ch' = ch then blocks_records cd (blocks c) else mem_retained cd s ch')"
  by (simp add: mem_retained_def update_conv')

lemma mem_inv_update:
  "mem_inv cd s \<Longrightarrow> channel_inv cd ch c \<Longrightarrow>
     mem_inv cd (s\<lparr>channels := AList.update ch c (channels s)\<rparr>)"
  by (simp add: mem_inv_def update_conv')

lemma new_records_sub: "set (new_records s rs) \<subseteq> set rs"
proof -
  obtain kept seen where rn: "retain_new event_key (seen_event_keys (channel_of s (channel_key (hd rs))))
      (sort_key event_order rs) = (kept, seen)" by fastforce
  then show ?thesis
    using retain_new_spec [OF rn] by (simp add: new_records_def)
qed

lemma mem_append_step:
  assumes "mem_inv cd s" and "mem_append_batch cd s rs = (res, s')"
  shows "mem_inv cd s'"
    and "ch \<notin> channel_key ` set rs \<Longrightarrow> mem_retained cd s' ch = mem_retained cd s ch"
    and "r \<in> set (mem_retained cd s' ch) \<Longrightarrow> r \<in> set (mem_retained cd s ch) \<or> r \<in> set rs"
proof -
  have "mem_inv cd s' \<and> (ch \<notin> channel_key ` set rs \<longrightarrow> mem_retained cd s' ch = mem_retained cd s ch) \<and>
    (r \<in> set (mem_retained cd s' ch) \<longrightarrow> r \<in> set (mem_retained cd s ch) \<or> r \<in> set rs)"
  proof (cases "rs = [] \<or> mixed_batch rs")
    case True
    with assms show ?thesis by (auto simp: mem_append_mixed)
  next
    case False
    then have ne: "rs \<noteq> []" "\<not> mixed_batch rs" by auto
    let ?ch = "channel_key (hd rs)"
    obtain c3 k ys where
      s': "s' = s\<lparr>channels := AList.update ?ch c3 (channels s)\<rparr>" and inv: "channel_inv cd ?ch c3" and
      ys: "mem_retained cd s ?ch @ concat (take k (chunks (block_messages s) (new_records s rs))) =
        ys @ blocks_records cd (blocks c3)"
      using mem_append_core [OF assms(1) ne assms(2) refl] by blast
    have "set (mem_retained cd s ?ch) \<union> set (concat (take k (chunks (block_messages s) (new_records s rs))))
        = set ys \<union> set (blocks_records cd (blocks c3))"
      using arg_cong [OF ys, of set] by (simp only: set_append)
    then have "set (blocks_records cd (blocks c3)) \<subseteq> set (mem_retained cd s ?ch) \<union> set rs"
      using take_chunks_sub [of k "block_messages s" "new_records s rs"] new_records_sub [of s rs]
      by blast
    moreover have "?ch \<in> channel_key ` set rs"
      using ne by simp
    ultimately show ?thesis
      using assms(1) inv by (auto simp: s' mem_inv_update mem_retained_update)
  qed
  then show "mem_inv cd s'"
    and "ch \<notin> channel_key ` set rs \<Longrightarrow> mem_retained cd s' ch = mem_retained cd s ch"
    and "r \<in> set (mem_retained cd s' ch) \<Longrightarrow> r \<in> set (mem_retained cd s ch) \<or> r \<in> set rs"
    by auto
qed

lemma mem_query_answer:
  assumes "mem_inv cd s" and "limit q \<noteq> 0"
  shows "mem_query cd s q = Inr (answer_query q (mem_retained cd s (qr_channel_key q)))"
proof (cases "map_of (channels s) (qr_channel_key q)")
  case (Some c)
  then have "\<forall>b \<in> set (blocks c). good_block cd (qr_channel_key q) b"
    using assms(1) by (simp add: mem_inv_def channel_inv_def)
  then show ?thesis
    using Some assms(2) by (simp add: mem_query_def mem_retained_def decode_good_blocks)
qed (use assms in \<open>simp add: mem_query_def mem_retained_def\<close>)

lemma mem_retained_channel:
  "mem_inv cd s \<Longrightarrow> r \<in> set (mem_retained cd s ch) \<Longrightarrow> channel_key r = ch"
  using channel_of_inv [of cd s ch]
  by (auto simp: mem_retained_channel_of channel_inv_def dest: good_blocks_channel)

interpretation mem: message_store "mem_append_batch cd" "mem_query cd" "mem_retained cd" "mem_inv cd"
    "\<lambda>_. True"
  for cd
proof unfold_locales
  show "limit q = 0 \<Longrightarrow> mem_query cd s q = Inl InvalidLimit" for q s
    by (simp add: mem_query_def)
qed (fact mem_query_answer mem_append_mixed | rule mem_append_step mem_retained_channel; assumption)+

section \<open>Properties\<close>

text \<open>
  Appending a batch of one channel to the in-memory store succeeds with the channel holding a
  suffix of its old records followed by the new ones (sorted, deduplicated against everything
  held), at most \<open>target + block - 1\<close> of them, and evicts nothing when they all fit; no two records
  the channel holds have the same event key.
\<close>

theorem mem_append_outcome:
  assumes "mem_inv cd s" and "rs \<noteq> []" and "\<not> mixed_batch rs"
    and "mem_append_batch cd s rs = (Inr (), s')"
  shows "(\<exists>ys. mem_retained cd s (channel_key (hd rs)) @ new_records s rs =
        ys @ mem_retained cd s' (channel_key (hd rs)) \<and>
      (length (mem_retained cd s (channel_key (hd rs)) @ new_records s rs) \<le> mem_allowed s \<longrightarrow> ys = [])) \<and>
    length (mem_retained cd s' (channel_key (hd rs))) \<le> mem_allowed s \<and>
    distinct (map event_key (mem_retained cd s' (channel_key (hd rs))))"
proof -
  let ?ch = "channel_key (hd rs)"
  have "concat (chunks (block_messages s) (new_records s rs)) = new_records s rs"
    using assms(1) by (simp add: concat_chunks mem_inv_def)
  then obtain c3 ys where
    s': "s' = s\<lparr>channels := AList.update ?ch c3 (channels s)\<rparr>" and inv: "channel_inv cd ?ch c3" and
    rest: "mem_retained cd s ?ch @ new_records s rs = ys @ blocks_records cd (blocks c3)"
      "cb_message_count c3 \<le> mem_allowed s"
      "length (mem_retained cd s ?ch) + length (new_records s rs) \<le> mem_allowed s \<longrightarrow> ys = []"
    using mem_append_core [OF assms refl] by auto
  have held: "mem_retained cd s' ?ch = blocks_records cd (blocks c3)"
    by (simp add: s' mem_retained_update)
  have "length (mem_retained cd s ?ch @ new_records s rs) \<le> mem_allowed s \<longrightarrow> ys = []"
    using rest(3) by (simp only: length_append)
  then show ?thesis
    using rest(1,2) inv unfolding held channel_inv_def by metis
qed

definition ex_mem_record :: "int \<Rightarrow> u8 \<Rightarrow> canonical_record" where
  "ex_mem_record t k = \<lparr>channel_key = ''a'', event_at_ms = t, received_at_ms = t, event_key = [k],
     source_id = [], fidelity = Unknown, raw_irc = []\<rparr>"

definition ex_mem_codec :: codec where
  "ex_mem_codec = table_codec [[ex_mem_record 1 1], [ex_mem_record 2 2], [ex_mem_record 3 3]]"

definition ex_mem :: memory_store where
  "ex_mem = \<lparr>block_messages = 1, target_messages_per_channel = 2, compression_level = 3, channels = []\<rparr>"

theorem mem_append_outcome_witness:
  "\<exists>s'. mem_append_batch ex_mem_codec ex_mem [ex_mem_record 2 2, ex_mem_record 1 1, ex_mem_record 3 3] = (Inr (), s') \<and>
    length (mem_retained ex_mem_codec s' ''a'') \<le> 2"
proof -
  let ?rs = "[ex_mem_record 2 2, ex_mem_record 1 1, ex_mem_record 3 3]"
  have "fst (mem_append_batch ex_mem_codec ex_mem ?rs) = Inr ()" by code_simp
  then obtain s' where a: "mem_append_batch ex_mem_codec ex_mem ?rs = (Inr (), s')"
    by (metis prod.collapse)
  have inv: "mem_inv ex_mem_codec ex_mem"
    by (simp add: mem_inv_def ex_mem_def ex_mem_codec_def table_codec_ok)
  have "\<not> mixed_batch ?rs" by (simp add: mixed_batch_def ex_mem_record_def)
  from mem_append_outcome [OF inv _ this a] have "length (mem_retained ex_mem_codec s' ''a'') \<le> mem_allowed ex_mem"
    by (simp add: ex_mem_record_def)
  then show ?thesis using a by (simp add: mem_allowed_def allowed_messages_def ex_mem_def int_defs)
qed

end
