(* ===== verification/SqliteTables.thy ===== *)
theory SqliteTables
  imports MemoryStore
begin

text \<open>
  The tables of the SQLite block store (\<^verbatim>\<open>src/storage/sqlite.rs\<close>, the schema and the triggers) and
  the statements its operations run on them. A table with a primary key that is looked up is an
  association list, \<open>message_blocks\<close> is the list of its rows in insertion order, and a set-like
  table is the list of its keys. SQLite itself is modelled by what the SQL of the source says on
  these tables: a constraint violation is an error, the three triggers keep \<open>store_totals\<close>, and a
  transaction that fails leaves the database as it was. Input/output failures of the database
  file are not modelled.
\<close>

record channel_row =
  next_block_sequence :: int
  retained_messages :: int
  last_requested_at_ms :: int

record block_row =
  row_id :: int
  row_channel :: string
  block_sequence :: int
  row_format_version :: int
  row_first_event_at_ms :: int
  row_last_event_at_ms :: int
  row_message_count :: int
  row_uncompressed_bytes :: int
  row_checksum :: bytes
  row_payload :: bytes

record totals =
  total_blocks :: int
  total_messages :: int
  total_compressed_bytes :: int
  total_uncompressed_bytes :: int

record journal_row =
  jr_source_id :: string
  jr_stream_id :: string
  jr_first_sequence :: int
  jr_last_sequence :: int
  jr_checksum :: bytes
  jr_payload :: bytes

record offset_row =
  committed_through :: int
  updated_at_ms :: int

record sqlite_db =
  channel_table :: "(string \<times> channel_row) list"
  blocked_channels :: "string list"
  always_join_channels :: "string list"
  purge_cutoffs :: "(string \<times> int) list"
  message_blocks :: "block_row list"
  store_totals :: totals
  ingest_journal :: "journal_row list"
  source_offsets :: "((string \<times> string) \<times> offset_row) list"

definition empty_db :: sqlite_db where
  "empty_db = \<lparr>channel_table = [], blocked_channels = [], always_join_channels = [],
     purge_cutoffs = [], message_blocks = [],
     store_totals = \<lparr>total_blocks = 0, total_messages = 0, total_compressed_bytes = 0,
                     total_uncompressed_bytes = 0\<rparr>,
     ingest_journal = [], source_offsets = []\<rparr>"

record sqlite_config =
  sc_block_messages :: nat
  sc_target_messages_per_channel :: nat
  sc_compression_level :: int

text \<open>\<open>from_connection\<close>: the two sizes must be positive.\<close>

definition sqlite_config_of :: "nat \<Rightarrow> nat \<Rightarrow> store_error + sqlite_config" where
  "sqlite_config_of bm target =
     (if bm = 0 \<or> target = 0
      then Inl (Backend ''block and retention sizes must be greater than zero'')
      else Inr \<lparr>sc_block_messages = bm, sc_target_messages_per_channel = target,
                sc_compression_level = 3\<rparr>)"

definition config_ok :: "sqlite_config \<Rightarrow> bool" where
  "config_ok cfg \<longleftrightarrow> 0 < sc_block_messages cfg \<and> 0 < sc_target_messages_per_channel cfg"

definition range_error :: store_error where
  "range_error = Backend ''out of range integral type conversion attempted''"

text \<open>
  A transaction: \<open>tx.commit()\<close> is reached only when no step returned an error; dropping the
  transaction rolls back.
\<close>

definition transaction ::
    "(sqlite_db \<Rightarrow> store_error + 'a \<times> sqlite_db) \<Rightarrow> sqlite_db \<Rightarrow> (store_error + 'a) \<times> sqlite_db" where
  "transaction f db = (case f db of Inl e \<Rightarrow> (Inl e, db) | Inr (x, db') \<Rightarrow> (Inr x, db'))"

lemma transaction_cases:
  assumes "transaction f db = (res, db')"
  obtains (rolled_back) e where "f db = Inl e" "res = Inl e" "db' = db"
    | (committed) x where "f db = Inr (x, db')" "res = Inr x"
  using assms by (auto simp: transaction_def split: sum.splits)

section \<open>Blocks as rows\<close>

definition decode_row :: "string \<Rightarrow> block_row \<Rightarrow> store_error + encoded_block" where
  "decode_row ch row =
     (if length (row_checksum row) \<noteq> 32 then Inl (Backend ''invalid BLAKE3 checksum length'')
      else if \<not> (0 \<le> row_format_version row \<and> row_format_version row < 2 ^ 16) \<or>
              \<not> (0 \<le> row_message_count row \<and> row_message_count row \<le> int u32_max) \<or>
              \<not> (0 \<le> row_uncompressed_bytes row \<and> row_uncompressed_bytes row \<le> int u32_max)
      then Inl range_error
      else Inr \<lparr>format_version = nat (row_format_version row),
                eb_channel_key = ch,
                first_event_at_ms = row_first_event_at_ms row,
                last_event_at_ms = row_last_event_at_ms row,
                message_count = nat (row_message_count row),
                uncompressed_bytes = nat (row_uncompressed_bytes row),
                checksum = row_checksum row,
                payload = row_payload row\<rparr>)"

text \<open>The columns an \<open>INSERT\<close> or \<open>UPDATE\<close> of a block writes.\<close>

definition store_block :: "encoded_block \<Rightarrow> block_row \<Rightarrow> block_row" where
  "store_block b row = row\<lparr>row_format_version := int (format_version b),
     row_first_event_at_ms := first_event_at_ms b, row_last_event_at_ms := last_event_at_ms b,
     row_message_count := int (message_count b),
     row_uncompressed_bytes := int (uncompressed_bytes b),
     row_checksum := checksum b, row_payload := payload b\<rparr>"

definition new_row :: "int \<Rightarrow> string \<Rightarrow> int \<Rightarrow> encoded_block \<Rightarrow> block_row" where
  "new_row i ch seq b = store_block b
     \<lparr>row_id = i, row_channel = ch, block_sequence = seq, row_format_version = 0,
      row_first_event_at_ms = 0, row_last_event_at_ms = 0, row_message_count = 0,
      row_uncompressed_bytes = 0, row_checksum = [], row_payload = []\<rparr>"

section \<open>Statements on \<open>message_blocks\<close> and its triggers\<close>

definition trigger_insert :: "block_row \<Rightarrow> totals \<Rightarrow> totals" where
  "trigger_insert row t = t\<lparr>total_blocks := total_blocks t + 1,
     total_messages := total_messages t + row_message_count row,
     total_compressed_bytes := total_compressed_bytes t + int (length (row_payload row)),
     total_uncompressed_bytes := total_uncompressed_bytes t + row_uncompressed_bytes row\<rparr>"

definition trigger_update :: "block_row \<Rightarrow> block_row \<Rightarrow> totals \<Rightarrow> totals" where
  "trigger_update old row t = t\<lparr>
     total_messages := total_messages t + row_message_count row - row_message_count old,
     total_compressed_bytes := total_compressed_bytes t + int (length (row_payload row))
        - int (length (row_payload old)),
     total_uncompressed_bytes := total_uncompressed_bytes t + row_uncompressed_bytes row
        - row_uncompressed_bytes old\<rparr>"

definition trigger_delete :: "block_row \<Rightarrow> totals \<Rightarrow> totals" where
  "trigger_delete old t = t\<lparr>total_blocks := max 0 (total_blocks t - 1),
     total_messages := max 0 (total_messages t - row_message_count old),
     total_compressed_bytes := max 0 (total_compressed_bytes t - int (length (row_payload old))),
     total_uncompressed_bytes := max 0 (total_uncompressed_bytes t - row_uncompressed_bytes old)\<rparr>"

text \<open>\<open>id INTEGER PRIMARY KEY\<close>: SQLite takes one more than the largest id in the table.\<close>

definition next_row_id :: "block_row list \<Rightarrow> int" where
  "next_row_id rows = (case iter_max (map row_id rows) of None \<Rightarrow> 1 | Some m \<Rightarrow> m + 1)"

definition insert_block_row ::
    "string \<Rightarrow> int \<Rightarrow> encoded_block \<Rightarrow> sqlite_db \<Rightarrow> store_error + sqlite_db" where
  "insert_block_row ch seq b db =
     (if list_ex (\<lambda>r. row_channel r = ch \<and> block_sequence r = seq) (message_blocks db)
      then Inl (Backend ''UNIQUE constraint failed: message_blocks.channel_key, message_blocks.block_sequence'')
      else if map_of (channel_table db) ch = None then Inl (Backend ''FOREIGN KEY constraint failed'')
      else (let row = new_row (next_row_id (message_blocks db)) ch seq b
            in Inr (db\<lparr>message_blocks := message_blocks db @ [row],
                       store_totals := trigger_insert row (store_totals db)\<rparr>)))"

definition update_block_row :: "int \<Rightarrow> encoded_block \<Rightarrow> sqlite_db \<Rightarrow> sqlite_db" where
  "update_block_row i b db =
     db\<lparr>message_blocks := map (\<lambda>r. if row_id r = i then store_block b r else r) (message_blocks db),
        store_totals := foldl (\<lambda>t r. trigger_update r (store_block b r) t) (store_totals db)
          (filter (\<lambda>r. row_id r = i) (message_blocks db))\<rparr>"

definition delete_block_rows :: "(block_row \<Rightarrow> bool) \<Rightarrow> sqlite_db \<Rightarrow> sqlite_db" where
  "delete_block_rows P db =
     db\<lparr>message_blocks := filter (\<lambda>r. \<not> P r) (message_blocks db),
        store_totals := foldl (\<lambda>t r. trigger_delete r t) (store_totals db)
          (filter P (message_blocks db))\<rparr>"

section \<open>Statements on \<open>channels\<close>\<close>

definition new_channel_row :: channel_row where
  "new_channel_row = \<lparr>next_block_sequence = 0, retained_messages = 0, last_requested_at_ms = 0\<rparr>"

definition insert_or_ignore_channel :: "string \<Rightarrow> sqlite_db \<Rightarrow> sqlite_db" where
  "insert_or_ignore_channel ch db =
     (if map_of (channel_table db) ch = None
      then db\<lparr>channel_table := channel_table db @ [(ch, new_channel_row)]\<rparr> else db)"

definition update_channel_row :: "string \<Rightarrow> (channel_row \<Rightarrow> channel_row) \<Rightarrow> sqlite_db \<Rightarrow> sqlite_db" where
  "update_channel_row ch f db =
     db\<lparr>channel_table := map (\<lambda>(k, c). if k = ch then (k, f c) else (k, c)) (channel_table db)\<rparr>"

text \<open>\<open>DELETE FROM channels\<close>; blocks go with their channel (\<open>ON DELETE CASCADE\<close>).\<close>

definition delete_channel_rows :: "(string \<Rightarrow> channel_row \<Rightarrow> bool) \<Rightarrow> sqlite_db \<Rightarrow> sqlite_db" where
  "delete_channel_rows P db =
     (let doomed = map fst (filter (\<lambda>(k, c). P k c) (channel_table db))
      in delete_block_rows (\<lambda>r. row_channel r \<in> set doomed)
           (db\<lparr>channel_table := filter (\<lambda>(k, c). \<not> P k c) (channel_table db)\<rparr>))"

text \<open>\<open>MAX(0, retained_messages - ?2)\<close>\<close>

definition reduce_retained :: "int \<Rightarrow> channel_row \<Rightarrow> channel_row" where
  "reduce_retained n c = c\<lparr>retained_messages := max 0 (retained_messages c - n)\<rparr>"

section \<open>The totals the triggers keep\<close>

definition row_totals :: "block_row list \<Rightarrow> totals" where
  "row_totals rows = \<lparr>total_blocks = int (length rows),
     total_messages = sum_list (map row_message_count rows),
     total_compressed_bytes = sum_list (map (\<lambda>r. int (length (row_payload r))) rows),
     total_uncompressed_bytes = sum_list (map row_uncompressed_bytes rows)\<rparr>"

definition row_nonneg :: "block_row \<Rightarrow> bool" where
  "row_nonneg r \<longleftrightarrow> 0 \<le> row_message_count r \<and> 0 \<le> row_uncompressed_bytes r"

lemma row_totals_partition:
  "row_totals (filter P rows @ filter (\<lambda>r. \<not> P r) rows) = row_totals rows"
  using sum_list_filter_add [of row_message_count rows P]
    sum_list_filter_add [of "\<lambda>r. int (length (row_payload r))" rows P]
    sum_list_filter_add [of row_uncompressed_bytes rows P]
    sum_length_filter_compl [of P rows]
  by (simp add: row_totals_def)

lemma sum_list_nonneg_rows:
  "\<forall>r \<in> set rows. row_nonneg r \<Longrightarrow> 0 \<le> sum_list (map row_message_count rows)"
  "\<forall>r \<in> set rows. row_nonneg r \<Longrightarrow> 0 \<le> sum_list (map row_uncompressed_bytes rows)"
  "0 \<le> sum_list (map (\<lambda>r. int (length (row_payload r))) rows)"
  by (induction rows) (auto simp: row_nonneg_def)

lemma trigger_insert_totals: "trigger_insert row (row_totals rows) = row_totals (rows @ [row])"
  by (simp add: trigger_insert_def row_totals_def)

lemma foldl_trigger_delete:
  "\<forall>r \<in> set (del @ rest). row_nonneg r \<Longrightarrow>
     foldl (\<lambda>t r. trigger_delete r t) (row_totals (del @ rest)) del = row_totals rest"
proof (induction del)
  case (Cons r del)
  then have "trigger_delete r (row_totals ((r # del) @ rest)) = row_totals (del @ rest)"
    using sum_list_nonneg_rows [of "del @ rest"]
    by (simp add: trigger_delete_def row_totals_def)
  with Cons show ?case by simp
qed simp

lemma delete_totals:
  assumes "store_totals db = row_totals (message_blocks db)"
    and "\<forall>r \<in> set (message_blocks db). row_nonneg r"
  shows "store_totals (delete_block_rows P db) = row_totals (message_blocks (delete_block_rows P db))"
proof -
  let ?del = "filter P (message_blocks db)" and ?rest = "filter (\<lambda>r. \<not> P r) (message_blocks db)"
  have "foldl (\<lambda>t r. trigger_delete r t) (row_totals (?del @ ?rest)) ?del = row_totals ?rest"
    by (rule foldl_trigger_delete) (use assms(2) in auto)
  then show ?thesis
    by (simp add: delete_block_rows_def assms(1) row_totals_partition)
qed

lemma foldl_trigger_update:
  "foldl (\<lambda>t r. trigger_update r (store_block b r) t) (row_totals (upd @ rest)) upd =
     row_totals (map (store_block b) upd @ rest)"
proof (induction upd arbitrary: rest)
  case (Cons r upd)
  have 1: "row_totals (upd @ store_block b r # rest) = row_totals (store_block b r # upd @ rest)"
    and 2: "row_totals (map (store_block b) upd @ store_block b r # rest) =
      row_totals (store_block b r # map (store_block b) upd @ rest)"
    by (simp_all add: row_totals_def)
  have "trigger_update r (store_block b r) (row_totals ((r # upd) @ rest)) =
      row_totals (upd @ store_block b r # rest)"
    by (simp add: trigger_update_def row_totals_def)
  with Cons [of "store_block b r # rest"] show ?case by (simp add: 2)
qed simp

lemma filter_map_if:
  assumes "\<And>x. P (g x) = P x"
  shows "filter P (map (\<lambda>x. if P x then g x else x) xs) = map g (filter P xs)"
    and "filter (\<lambda>x. \<not> P x) (map (\<lambda>x. if P x then g x else x) xs) = filter (\<lambda>x. \<not> P x) xs"
  using assms by (induction xs) auto

lemma update_totals:
  assumes "store_totals db = row_totals (message_blocks db)"
  shows "store_totals (update_block_row i b db) = row_totals (message_blocks (update_block_row i b db))"
proof -
  let ?rows = "message_blocks db" and ?P = "\<lambda>r. row_id r = i"
  let ?f = "\<lambda>r. if row_id r = i then store_block b r else r"
  have p: "row_totals ?rows = row_totals (filter ?P ?rows @ filter (\<lambda>r. \<not> ?P r) ?rows)"
    by (rule row_totals_partition [symmetric])
  have "store_totals (update_block_row i b db) =
      row_totals (map (store_block b) (filter ?P ?rows) @ filter (\<lambda>r. \<not> ?P r) ?rows)"
    by (simp add: update_block_row_def assms p foldl_trigger_update)
  also have "\<dots> = row_totals (filter ?P (map ?f ?rows) @ filter (\<lambda>r. \<not> ?P r) (map ?f ?rows))"
    using filter_map_if [of ?P "store_block b" ?rows] by (simp add: store_block_def)
  finally show ?thesis
    by (simp add: update_block_row_def row_totals_partition)
qed

end
