(* ===== verification/SqliteAppend.thy ===== *)
theory SqliteAppend
  imports SqliteTables
begin

text \<open>
  \<open>append_transaction\<close> of \<^verbatim>\<open>src/storage/sqlite.rs\<close>, step by step: the block list and purge-cutoff
  filters, the blocks of the channel that overlap the batch in time, deduplication against them
  with fidelity upgrades in place, the rewrite of upgraded blocks, the new blocks, and the eviction
  of the oldest blocks over the allowance. The lemmas give the outcome on the rows of the channel.
\<close>

section \<open>Deduplication against overlapping blocks\<close>

type_synonym retained_block = "int \<times> canonical_record list \<times> bool"
type_synonym retained_index = "event_key \<Rightarrow> (nat \<times> nat) option"

definition overlapping_rows :: "string \<Rightarrow> int \<Rightarrow> int \<Rightarrow> block_row list \<Rightarrow> block_row list" where
  "overlapping_rows ch first_ms last_ms rows =
     sort_key block_sequence
       (filter (\<lambda>r. row_channel r = ch \<and> row_last_event_at_ms r \<ge> first_ms \<and>
                    row_first_event_at_ms r \<le> last_ms) rows)"

fun index_records :: "nat \<Rightarrow> nat \<Rightarrow> canonical_record list \<Rightarrow> retained_index \<Rightarrow> retained_index" where
  "index_records bi ri [] m = m"
| "index_records bi ri (r # rs) m = index_records bi (Suc ri) rs (m(event_key r \<mapsto> (bi, ri)))"

fun load_retained :: "codec \<Rightarrow> string \<Rightarrow> block_row list \<Rightarrow> retained_block list \<Rightarrow> retained_index
    \<Rightarrow> store_error + retained_block list \<times> retained_index" where
  "load_retained cd ch [] bs m = Inr (bs, m)"
| "load_retained cd ch (row # rows) bs m =
     and_then (decode_row ch row) (\<lambda>block.
     and_then (map_err Block (decode cd block)) (\<lambda>decoded.
       load_retained cd ch rows (bs @ [(row_id row, decoded, False)])
         (index_records (length bs) 0 decoded m)))"

record merge_state =
  ms_blocks :: "retained_block list"
  new_indices :: "event_key \<Rightarrow> nat option"
  ms_new :: "canonical_record list"

definition merge_record :: "retained_index \<Rightarrow> merge_state \<Rightarrow> canonical_record \<Rightarrow> merge_state" where
  "merge_record retained st r =
     (case retained (event_key r) of
        Some (bi, ri) \<Rightarrow>
          (case ms_blocks st ! bi of (i, recs, dirty) \<Rightarrow>
             if should_replace r (recs ! ri)
             then st\<lparr>ms_blocks := (ms_blocks st)[bi := (i, recs[ri := r], True)]\<rparr>
             else st)
      | None \<Rightarrow>
          (case new_indices st (event_key r) of
             Some ni \<Rightarrow>
               if should_replace r (ms_new st ! ni)
               then st\<lparr>ms_new := (ms_new st)[ni := r]\<rparr> else st
           | None \<Rightarrow> st\<lparr>new_indices := (new_indices st)(event_key r \<mapsto> length (ms_new st)),
                         ms_new := ms_new st @ [r]\<rparr>))"

fun write_back :: "codec \<Rightarrow> int \<Rightarrow> retained_block list \<Rightarrow> sqlite_db \<Rightarrow> store_error + sqlite_db" where
  "write_back cd level [] db = Inr db"
| "write_back cd level ((i, upgraded, dirty) # rest) db =
     (if \<not> dirty then write_back cd level rest db
      else and_then (map_err Block (encode cd upgraded level)) (\<lambda>b.
        write_back cd level rest (update_block_row i b db)))"

section \<open>New blocks and eviction\<close>

fun insert_chunks :: "codec \<Rightarrow> int \<Rightarrow> string \<Rightarrow> canonical_record list list \<Rightarrow> int \<Rightarrow> int \<Rightarrow> sqlite_db
    \<Rightarrow> store_error + int \<times> int \<times> sqlite_db" where
  "insert_chunks cd level ch [] seq retained db = Inr (seq, retained, db)"
| "insert_chunks cd level ch (chunk # rest) seq retained db =
     and_then (map_err Block (encode cd chunk level)) (\<lambda>b.
     and_then (insert_block_row ch seq b db) (\<lambda>db'.
       insert_chunks cd level ch rest (seq + 1) (retained + int (message_count b)) db'))"

function evict_oldest :: "int \<Rightarrow> string \<Rightarrow> int \<Rightarrow> sqlite_db \<Rightarrow> int \<times> sqlite_db" where
  "evict_oldest allowed ch retained db =
     (if retained > allowed
      then (case sort_key block_sequence (filter (\<lambda>r. row_channel r = ch) (message_blocks db)) of
              [] \<Rightarrow> (retained, db)
            | oldest # _ \<Rightarrow>
                evict_oldest allowed ch
                  (i64_saturating_sub retained (row_message_count oldest))
                  (delete_block_rows (\<lambda>r. row_id r = row_id oldest) db))
      else (retained, db))"
  by pat_completeness auto
termination
proof (relation "measure (\<lambda>(allowed, ch, retained, db). length (message_blocks db))")
  fix allowed retained :: int and ch :: string and db :: sqlite_db and oldest rest
  assume "sort_key block_sequence (filter (\<lambda>r. row_channel r = ch) (message_blocks db)) = oldest # rest"
  then have "oldest \<in> set (message_blocks db)"
    by (metis filter_is_subset list.set_intros(1) set_sort subsetD)
  then have "length (filter (\<lambda>r. row_id r \<noteq> row_id oldest) (message_blocks db)) <
      length (message_blocks db)"
    by (intro length_filter_less) auto
  then show "((allowed, ch, i64_saturating_sub retained (row_message_count oldest),
      delete_block_rows (\<lambda>r. row_id r = row_id oldest) db), allowed, ch, retained, db)
    \<in> measure (\<lambda>(allowed, ch, retained, db). length (message_blocks db))"
    by (simp add: delete_block_rows_def)
qed simp

declare evict_oldest.simps [simp del]

section \<open>The transaction\<close>

definition sql_allowed :: "sqlite_config \<Rightarrow> nat" where
  "sql_allowed cfg = allowed_messages (sc_target_messages_per_channel cfg) (sc_block_messages cfg)"

text \<open>
  The records of a batch that the purge cutoff lets through. The transaction returns at once when
  it removes all of them; without a cutoff the batch is not empty, which both callers check.
\<close>

definition after_cutoff :: "sqlite_db \<Rightarrow> string \<Rightarrow> canonical_record list \<Rightarrow> canonical_record list" where
  "after_cutoff db ch records =
     (case map_of (purge_cutoffs db) ch of
        None \<Rightarrow> records
      | Some cutoff \<Rightarrow> filter (\<lambda>r. received_at_ms r > cutoff) records)"

definition merge_batch :: "codec \<Rightarrow> string \<Rightarrow> canonical_record list \<Rightarrow> sqlite_db
    \<Rightarrow> store_error + merge_state" where
  "merge_batch cd ch records db =
     (let first_ms = the (iter_min (map event_at_ms records));
          last_ms = the (iter_max (map event_at_ms records))
      in and_then (load_retained cd ch (overlapping_rows ch first_ms last_ms (message_blocks db))
                     [] (\<lambda>_. None))
           (\<lambda>(bs, retained).
              Inr (foldl (merge_record retained)
                \<lparr>ms_blocks = bs, new_indices = (\<lambda>_. None), ms_new = []\<rparr>
                (sort_key event_order records))))"

definition append_transaction ::
    "codec \<Rightarrow> sqlite_config \<Rightarrow> string \<Rightarrow> canonical_record list \<Rightarrow> sqlite_db \<Rightarrow> store_error + sqlite_db" where
  "append_transaction cd cfg ch batch db =
     (if ch \<in> set (blocked_channels db) then Inr db
      else
        (let records = after_cutoff db ch batch
         in if records = [] then Inr db
            else
              (let db1 = insert_or_ignore_channel ch db
               in and_then (merge_batch cd ch records db1) (\<lambda>st.
                  and_then (write_back cd (sc_compression_level cfg) (ms_blocks st) db1) (\<lambda>db2.
                    if ms_new st = [] then Inr db2
                    else
                      (case map_of (channel_table db2) ch of
                         None \<Rightarrow> Inl (Backend ''Query returned no rows'')
                       | Some c \<Rightarrow>
                           and_then (insert_chunks cd (sc_compression_level cfg) ch
                              (chunks (sc_block_messages cfg) (ms_new st))
                              (next_block_sequence c) (retained_messages c) db2)
                           (\<lambda>(seq, retained, db3).
                              (case evict_oldest (i64_try_from_or_max (sql_allowed cfg)) ch retained db3 of
                                 (retained', db4) \<Rightarrow>
                                   Inr (update_channel_row ch
                                     (\<lambda>c. c\<lparr>next_block_sequence := seq,
                                             retained_messages := retained'\<rparr>) db4)))))))))"

fun append_batches :: "codec \<Rightarrow> sqlite_config \<Rightarrow> canonical_record list list \<Rightarrow> sqlite_db
    \<Rightarrow> store_error + unit \<times> sqlite_db" where
  "append_batches cd cfg [] db = Inr ((), db)"
| "append_batches cd cfg (records # rest) db =
     (case records of
        [] \<Rightarrow> append_batches cd cfg rest db
      | first # _ \<Rightarrow>
          if list_ex (\<lambda>r. channel_key r \<noteq> channel_key first) records then Inl MixedChannelBatch
          else and_then (append_transaction cd cfg (channel_key first) records db)
            (\<lambda>db'. append_batches cd cfg rest db'))"

definition append_channel_batches ::
    "codec \<Rightarrow> sqlite_config \<Rightarrow> canonical_record list list \<Rightarrow> sqlite_db
      \<Rightarrow> (store_error + unit) \<times> sqlite_db" where
  "append_channel_batches cd cfg batches db = transaction (append_batches cd cfg batches) db"

definition sql_append_batch ::
    "codec \<Rightarrow> sqlite_config \<Rightarrow> sqlite_db \<Rightarrow> canonical_record list \<Rightarrow> (store_error + unit) \<times> sqlite_db" where
  "sql_append_batch cd cfg db records =
     (case records of
        [] \<Rightarrow> (Inr (), db)
      | first # _ \<Rightarrow>
          if list_ex (\<lambda>r. channel_key r \<noteq> channel_key first) records then (Inl MixedChannelBatch, db)
          else transaction (\<lambda>tx. and_then (append_transaction cd cfg (channel_key first) records tx)
            (\<lambda>tx'. Inr ((), tx'))) db)"

section \<open>Rows and the records they hold\<close>

definition row_records :: "codec \<Rightarrow> block_row \<Rightarrow> canonical_record list" where
  "row_records cd row =
     (case decode_row (row_channel row) row of Inl _ \<Rightarrow> [] | Inr b \<Rightarrow> block_records cd b)"

definition row_good :: "codec \<Rightarrow> block_row \<Rightarrow> bool" where
  "row_good cd row \<longleftrightarrow>
     (\<exists>b. decode_row (row_channel row) row = Inr b \<and> good_block cd (row_channel row) b)"

definition rows_of :: "string \<Rightarrow> block_row list \<Rightarrow> block_row list" where
  "rows_of ch rows = filter (\<lambda>r. row_channel r = ch) rows"

definition records_of :: "codec \<Rightarrow> string \<Rightarrow> block_row list \<Rightarrow> canonical_record list" where
  "records_of cd ch rows = concat (map (row_records cd) (rows_of ch rows))"

text \<open>Blocks decode, ids are a key, and a channel's blocks stand in sequence order.\<close>

definition rows_inv :: "codec \<Rightarrow> block_row list \<Rightarrow> bool" where
  "rows_inv cd rows \<longleftrightarrow>
     (\<forall>row \<in> set rows. row_good cd row) \<and> distinct (map row_id rows) \<and>
     (\<forall>ch. sorted_wrt (<) (map block_sequence (rows_of ch rows)))"

lemma rows_of_simps [simp]:
  "rows_of ch [] = []"
  "rows_of ch (rows @ rows') = rows_of ch rows @ rows_of ch rows'"
  by (simp_all add: rows_of_def)

lemma records_of_simps [simp]:
  "records_of cd ch [] = []"
  "records_of cd ch (rows @ rows') = records_of cd ch rows @ records_of cd ch rows'"
  by (simp_all add: records_of_def)

lemma set_rows_of [simp]: "row \<in> set (rows_of ch rows) \<longleftrightarrow> row \<in> set rows \<and> row_channel row = ch"
  by (auto simp: rows_of_def)

lemma row_goodD:
  assumes "row_good cd row"
  shows "row_records cd row \<noteq> []"
    and "row_message_count row = int (length (row_records cd row))"
    and "\<forall>r \<in> set (row_records cd row). channel_key r = row_channel row"
    and "row_first_event_at_ms row = Min (event_at_ms ` set (row_records cd row))"
    and "row_last_event_at_ms row = Max (event_at_ms ` set (row_records cd row))"
    and "row_nonneg row"
proof -
  obtain b where b: "decode_row (row_channel row) row = Inr b" "good_block cd (row_channel row) b"
    using assms by (auto simp: row_good_def)
  then have rr: "row_records cd row = block_records cd b" by (simp add: row_records_def)
  have d: "describes b (block_records cd b)" and c: "eb_channel_key b = row_channel row"
    using b(2) decode_Inr(1) by (auto simp: good_block_def)
  show "row_records cd row \<noteq> []"
    and "row_message_count row = int (length (row_records cd row))"
    and "\<forall>r \<in> set (row_records cd row). channel_key r = row_channel row"
    and "row_first_event_at_ms row = Min (event_at_ms ` set (row_records cd row))"
    and "row_last_event_at_ms row = Max (event_at_ms ` set (row_records cd row))"
    and "row_nonneg row"
    using d c b(1)
    by (auto simp: rr describes_def decode_row_def row_nonneg_def split: if_splits)
qed

lemma row_good_decode:
  assumes "row_good cd row" and "ch = row_channel row"
  shows "\<exists>b. decode_row ch row = Inr b \<and> decode cd b = Inr (row_records cd row)"
  using assms by (auto simp: row_good_def row_records_def good_block_def)

lemma decode_store_block:
  assumes "codec_ok cd" and "encode cd rs level = Inr b" and "\<forall>r \<in> set rs. channel_key r = ch"
  shows "decode_row ch (store_block b row) = Inr b"
proof -
  note e = encode_Inr [OF assms(2)]
  have "eb_channel_key b = ch"
    using encode_good_block(1) [OF assms] by (simp add: good_block_def)
  moreover have "length (checksum b) = 32"
    using e(3) assms(1) by (simp add: codec_okD)
  ultimately show ?thesis
    using e by (simp add: decode_row_def store_block_def block_format_version_def)
qed

lemma store_block_good:
  assumes "codec_ok cd" and "encode cd rs level = Inr b"
    and "\<forall>r \<in> set rs. channel_key r = row_channel row"
  shows "row_good cd (store_block b row)" and "row_records cd (store_block b row) = rs"
proof -
  have c: "row_channel (store_block b row) = row_channel row" by (simp add: store_block_def)
  note d = decode_store_block [OF assms, of row] and g = encode_good_block [OF assms]
  show "row_good cd (store_block b row)" and "row_records cd (store_block b row) = rs"
    using d g by (simp_all add: row_good_def row_records_def c)
qed

lemma rows_inv_sort: "rows_inv cd rows \<Longrightarrow> sort_key block_sequence (rows_of ch rows) = rows_of ch rows"
  by (rule sort_key_id_if_sorted)
     (simp add: rows_inv_def strict_sorted_imp_sorted)

lemma rows_inv_filter: "rows_inv cd rows \<Longrightarrow> rows_inv cd (filter P rows)"
proof -
  assume inv: "rows_inv cd rows"
  have "rows_of ch (filter P rows) = filter P (rows_of ch rows)" for ch
    by (simp add: rows_of_def conj_commute)
  then show ?thesis
    using inv by (simp add: rows_inv_def distinct_map_filter sorted_wrt_map sorted_wrt_filter)
qed

lemma rows_inv_nonneg: "rows_inv cd rows \<Longrightarrow> \<forall>r \<in> set rows. row_nonneg r"
  by (auto simp: rows_inv_def dest: row_goodD(6))

lemma good_rows_count:
  "\<forall>row \<in> set rows. row_good cd row \<Longrightarrow>
     sum_list (map row_message_count rows) = int (length (concat (map (row_records cd) rows)))"
  by (induction rows) (auto dest: row_goodD(2))

lemma records_of_count:
  "rows_inv cd rows \<Longrightarrow>
     sum_list (map row_message_count (rows_of ch rows)) = int (length (records_of cd ch rows))"
  unfolding records_of_def by (rule good_rows_count) (auto simp: rows_inv_def)

end
