(* ===== verification/SqliteMerge.thy ===== *)
theory SqliteMerge
  imports SqliteAppend
begin

text \<open>
  What the deduplication of \<open>append_transaction\<close> computes: every stored record either stays or is
  replaced by a higher-fidelity copy from the batch, the remaining records of the batch are
  collected once per event key, and each record of the batch is represented afterwards by one of
  at least its fidelity.
\<close>

text \<open>A record \<open>b\<close> in the place of \<open>a\<close> after merging the records \<open>S\<close>.\<close>

definition upgraded :: "canonical_record set \<Rightarrow> canonical_record \<Rightarrow> canonical_record \<Rightarrow> bool" where
  "upgraded S a b \<longleftrightarrow>
     b = a \<or> (b \<in> S \<and> event_key b = event_key a \<and> fidelity a < fidelity b)"

lemma upgraded_refl [simp]: "upgraded S a a"
  by (simp add: upgraded_def)

lemma upgraded_key: "upgraded S a b \<Longrightarrow> event_key b = event_key a \<and> fidelity a \<le> fidelity b"
  by (auto simp: upgraded_def)

lemma upgraded_mono: "upgraded S a b \<Longrightarrow> S \<subseteq> T \<Longrightarrow> upgraded T a b"
  by (auto simp: upgraded_def)

lemma upgraded_step:
  "upgraded S a b \<Longrightarrow> should_replace c b \<Longrightarrow> upgraded (insert c S) a c"
  by (auto simp: upgraded_def should_replace_def)

lemma upgraded_list_mono:
  "list_all2 (upgraded S) as bs \<Longrightarrow> S \<subseteq> T \<Longrightarrow> list_all2 (upgraded T) as bs"
  by (erule list_all2_mono) (rule upgraded_mono)

lemma upgraded_keys: "list_all2 (upgraded S) as bs \<Longrightarrow> map event_key bs = map event_key as"
  by (induction rule: list_all2_induct) (auto dest: upgraded_key)

lemma upgraded_member:
  "list_all2 (upgraded S) as bs \<Longrightarrow> b \<in> set bs \<Longrightarrow> b \<in> set as \<or> b \<in> S"
  by (induction rule: list_all2_induct) (auto simp: upgraded_def)

section \<open>The index of the retained records\<close>

text \<open>The positions an index maps event keys to.\<close>

definition index_ok :: "retained_block list \<Rightarrow> retained_index \<Rightarrow> bool" where
  "index_ok bs m \<longleftrightarrow>
     (\<forall>k bi ri. m k = Some (bi, ri) \<longrightarrow> bi < length bs \<and> ri < length (fst (snd (bs ! bi))) \<and>
        event_key (fst (snd (bs ! bi)) ! ri) = k) \<and>
     (\<forall>k. m k = None \<longrightarrow> (\<forall>(i, recs, d) \<in> set bs. k \<notin> event_key ` set recs))"

lemma index_records_Some:
  "index_records bi ri rs m k = Some (b, i) \<Longrightarrow>
     (b = bi \<and> ri \<le> i \<and> i < ri + length rs \<and> event_key (rs ! (i - ri)) = k) \<or> m k = Some (b, i)"
proof (induction rs arbitrary: ri m)
  case (Cons r rs)
  then have "(b = bi \<and> Suc ri \<le> i \<and> i < Suc ri + length rs \<and> event_key (rs ! (i - Suc ri)) = k) \<or>
      (m(event_key r \<mapsto> (bi, ri))) k = Some (b, i)"
    by fastforce
  then show ?case
    by (auto simp: nth_Cons' split: if_splits)
qed simp

lemma index_records_None:
  "index_records bi ri rs m k = None \<longleftrightarrow> m k = None \<and> k \<notin> event_key ` set rs"
  by (induction rs arbitrary: ri m) auto

lemma index_ok_extend:
  assumes "index_ok bs m"
  shows "index_ok (bs @ [(i, rs, d)]) (index_records (length bs) 0 rs m)"
  unfolding index_ok_def
proof (intro conjI allI impI)
  fix k bi ri
  assume "index_records (length bs) 0 rs m k = Some (bi, ri)"
  then have "(bi = length bs \<and> ri < length rs \<and> event_key (rs ! ri) = k) \<or> m k = Some (bi, ri)"
    using index_records_Some [of "length bs" 0 rs m k bi ri] by auto
  moreover have "m k = Some (bi, ri) \<Longrightarrow> bi < length bs \<and> ri < length (fst (snd (bs ! bi))) \<and>
      event_key (fst (snd (bs ! bi)) ! ri) = k"
    using assms by (simp add: index_ok_def)
  ultimately show "bi < length (bs @ [(i, rs, d)])"
    "ri < length (fst (snd ((bs @ [(i, rs, d)]) ! bi)))"
    "event_key (fst (snd ((bs @ [(i, rs, d)]) ! bi)) ! ri) = k"
    by (auto simp: nth_append)
next
  fix k
  assume "index_records (length bs) 0 rs m k = None"
  then have "m k = None" "k \<notin> event_key ` set rs"
    by (simp_all add: index_records_None)
  then show "\<forall>(i, recs, d) \<in> set (bs @ [(i, rs, d)]). k \<notin> event_key ` set recs"
    using assms by (auto simp: index_ok_def)
qed

lemma load_retained_spec:
  assumes "\<forall>row \<in> set rows. row_good cd row \<and> row_channel row = ch" and "index_ok bs m"
  shows "\<exists>m'. load_retained cd ch rows bs m =
      Inr (bs @ map (\<lambda>row. (row_id row, row_records cd row, False)) rows, m') \<and>
    index_ok (bs @ map (\<lambda>row. (row_id row, row_records cd row, False)) rows) m'"
  using assms
proof (induction rows arbitrary: bs m)
  case (Cons row rows)
  obtain b where b: "decode_row ch row = Inr b" "decode cd b = Inr (row_records cd row)"
    using Cons.prems(1) row_good_decode [of cd row ch] by auto
  let ?bs = "bs @ [(row_id row, row_records cd row, False)]"
  let ?m = "index_records (length bs) 0 (row_records cd row) m"
  have "index_ok ?bs ?m" by (rule index_ok_extend [OF Cons.prems(2)])
  then obtain m' where "load_retained cd ch rows ?bs ?m =
      Inr (?bs @ map (\<lambda>row. (row_id row, row_records cd row, False)) rows, m')"
    "index_ok (?bs @ map (\<lambda>row. (row_id row, row_records cd row, False)) rows) m'"
    using Cons.IH [of ?bs ?m] Cons.prems(1) by auto
  with b show ?case by auto
qed auto

section \<open>Merging the batch\<close>

text \<open>
  \<open>merged bs m S st\<close>: the state reached from the blocks \<open>bs\<close> with index \<open>m\<close> after the records \<open>S\<close>.
\<close>

definition block_upgraded ::
    "canonical_record set \<Rightarrow> retained_block \<Rightarrow> retained_block \<Rightarrow> bool" where
  "block_upgraded S x y \<longleftrightarrow>
     (case (x, y) of ((i, rs, _), (i', rs', dirty)) \<Rightarrow>
        i' = i \<and> list_all2 (upgraded S) rs rs' \<and> (\<not> dirty \<longrightarrow> rs' = rs))"

definition state_records :: "merge_state \<Rightarrow> canonical_record list" where
  "state_records st = concat (map (\<lambda>(i, recs, d). recs) (ms_blocks st)) @ ms_new st"

definition represented :: "canonical_record list \<Rightarrow> canonical_record \<Rightarrow> bool" where
  "represented qs r \<longleftrightarrow> (\<exists>q \<in> set qs. event_key q = event_key r \<and> fidelity r \<le> fidelity q)"

definition merged ::
    "retained_block list \<Rightarrow> retained_index \<Rightarrow> canonical_record set \<Rightarrow> merge_state \<Rightarrow> bool" where
  "merged bs m S st \<longleftrightarrow>
     list_all2 (block_upgraded S) bs (ms_blocks st) \<and>
     (\<forall>k ni. new_indices st k = Some ni \<longrightarrow> ni < length (ms_new st) \<and> event_key (ms_new st ! ni) = k) \<and>
     (\<forall>k. new_indices st k = None \<longrightarrow> k \<notin> event_key ` set (ms_new st)) \<and>
     distinct (map event_key (ms_new st)) \<and> set (ms_new st) \<subseteq> S \<and>
     (\<forall>x \<in> set (ms_new st). m (event_key x) = None) \<and>
     (\<forall>r \<in> S. represented (state_records st) r)"

lemma set_list_update: "x \<in> set xs \<Longrightarrow> i < length xs \<Longrightarrow> x \<in> set (xs[i := v]) \<or> x = xs ! i"
  by (metis in_set_conv_nth length_list_update nth_list_update_neq)

lemma block_upgraded_mono:
  "block_upgraded S x y \<Longrightarrow> S \<subseteq> T \<Longrightarrow> block_upgraded T x y"
  by (auto simp: block_upgraded_def intro: upgraded_list_mono split: prod.splits)

lemma merged_index:
  assumes "merged bs m S st" and "index_ok bs m" and "m k = Some (bi, ri)"
  obtains i recs d where "ms_blocks st ! bi = (i, recs, d)" "bi < length (ms_blocks st)"
    "ri < length recs" "event_key (recs ! ri) = k" "block_upgraded S (bs ! bi) (i, recs, d)"
proof -
  have bi: "bi < length bs" "ri < length (fst (snd (bs ! bi)))" "event_key (fst (snd (bs ! bi)) ! ri) = k"
    using assms(2,3) by (auto simp: index_ok_def)
  have l: "list_all2 (block_upgraded S) bs (ms_blocks st)"
    using assms(1) by (simp add: merged_def)
  obtain i recs d where st: "ms_blocks st ! bi = (i, recs, d)" by (cases "ms_blocks st ! bi")
  have u: "block_upgraded S (bs ! bi) (i, recs, d)"
    using list_all2_nthD [OF l bi(1)] st by simp
  then have keys: "map event_key recs = map event_key (fst (snd (bs ! bi)))"
    by (auto simp: block_upgraded_def dest: upgraded_keys split: prod.splits)
  then have "length recs = length (fst (snd (bs ! bi)))" by (metis length_map)
  moreover have "event_key (recs ! ri) = k"
    using keys bi(2,3) calculation by (metis nth_map)
  ultimately show ?thesis
    using that st u bi list_all2_lengthD [OF l] by simp
qed


lemma represented_trans:
  "represented qs x \<Longrightarrow> \<forall>q \<in> set qs. represented ps q \<Longrightarrow> represented ps x"
  unfolding represented_def by (metis order_trans)

lemma represented_self: "x \<in> set qs \<Longrightarrow> represented qs x"
  by (auto simp: represented_def)

lemma represented_mono: "represented qs x \<Longrightarrow> set qs \<subseteq> set ps \<Longrightarrow> represented ps x"
  by (auto simp: represented_def)

lemma represented_update:
  assumes "should_replace r (xs ! i)" and "i < length xs" and "q \<in> set xs"
  shows "represented (xs[i := r]) q"
proof -
  have r: "r \<in> set (xs[i := r])" by (rule set_update_memI [OF assms(2)])
  have "q \<in> set (xs[i := r]) \<or> q = xs ! i" by (rule set_list_update [OF assms(3,2)])
  then show ?thesis
    using r should_replaceD [OF assms(1)] by (auto simp: represented_def intro: less_imp_le)
qed

lemma list_all2_upgraded_update:
  assumes "list_all2 (upgraded S) as bs" and "i < length bs" and "should_replace r (bs ! i)"
  shows "list_all2 (upgraded (insert r S)) as (bs[i := r])"
proof (rule list_all2_all_nthI)
  show l: "length as = length (bs[i := r])"
    using assms(1) by (simp add: list_all2_lengthD)
  fix n assume n: "n < length as"
  have u: "upgraded S (as ! n) (bs ! n)" by (rule list_all2_nthD [OF assms(1) n])
  show "upgraded (insert r S) (as ! n) (bs[i := r] ! n)"
  proof (cases "n = i")
    case True
    then show ?thesis using upgraded_step [OF u] assms(2,3) by simp
  next
    case False
    then show ?thesis using upgraded_mono [OF u] by auto
  qed
qed

lemma merged_grow:
  assumes "merged bs m S st" and "represented (state_records st) r"
  shows "merged bs m (insert r S) st"
proof -
  have "list_all2 (block_upgraded S) bs (ms_blocks st)"
    using assms(1) by (simp add: merged_def)
  then have "list_all2 (block_upgraded (insert r S)) bs (ms_blocks st)"
    by (rule list_all2_mono) (erule block_upgraded_mono, blast)
  then show ?thesis using assms by (auto simp: merged_def)
qed

lemma nth_block_records:
  assumes "j < length bs" and "bs ! j = (i, recs, d)" and "q \<in> set recs"
  shows "q \<in> set (concat (map (\<lambda>(i, recs, d). recs) bs))"
proof -
  have "(i, recs, d) \<in> set bs" using assms(1,2) nth_mem by metis
  then show ?thesis using assms(3) by force
qed

lemma set_concat_map_update:
  assumes "q \<in> set (concat (map f bs))"
  shows "q \<in> set (concat (map f (bs[j := x]))) \<or> q \<in> set (f (bs ! j))"
proof -
  obtain b where b: "b \<in> set bs" "q \<in> set (f b)" using assms by auto
  show ?thesis
  proof (cases "j < length bs")
    case True
    then show ?thesis using set_list_update [OF b(1) True, of x] b(2) by auto
  next
    case False
    then show ?thesis using assms by (simp add: list_update_beyond)
  qed
qed

lemma merge_record_retained:
  assumes M: "merged bs m S st" and I: "index_ok bs m" and k: "m (event_key r) = Some (bi, ri)"
  shows "merged bs m (insert r S) (merge_record m st r)"
proof -
  obtain i recs d where st: "ms_blocks st ! bi = (i, recs, d)" "bi < length (ms_blocks st)"
    "ri < length recs" "event_key (recs ! ri) = event_key r" "block_upgraded S (bs ! bi) (i, recs, d)"
    by (rule merged_index [OF M I k])
  have rec: "recs ! ri \<in> set (state_records st)"
    using nth_block_records [OF st(2,1), of "recs ! ri"] st(3) by (simp add: state_records_def)
  show ?thesis
  proof (cases "should_replace r (recs ! ri)")
    case False
    then have "represented (state_records st) r"
      using rec st(4) by (auto simp: represented_def should_replace_def not_less)
    then show ?thesis using merged_grow [OF M] False k st(1) by (simp add: merge_record_def)
  next
    case True
    let ?recs = "recs[ri := r]"
    let ?st = "st\<lparr>ms_blocks := (ms_blocks st)[bi := (i, ?recs, True)]\<rparr>"
    have l: "list_all2 (block_upgraded S) bs (ms_blocks st)"
      using M by (simp add: merged_def)
    have l': "list_all2 (block_upgraded (insert r S)) bs (ms_blocks ?st)"
    proof (rule list_all2_all_nthI)
      show "length bs = length (ms_blocks ?st)" using list_all2_lengthD [OF l] by simp
      fix n assume n: "n < length bs"
      have u: "block_upgraded S (bs ! n) (ms_blocks st ! n)" by (rule list_all2_nthD [OF l n])
      show "block_upgraded (insert r S) (bs ! n) (ms_blocks ?st ! n)"
      proof (cases "n = bi")
        case False
        then show ?thesis using block_upgraded_mono [OF u] by auto
      next
        case eq: True
        obtain i0 rs0 d0 where b: "bs ! bi = (i0, rs0, d0)" by (cases "bs ! bi")
        then have "i = i0" "list_all2 (upgraded S) rs0 recs"
          using st(5) by (simp_all add: block_upgraded_def)
        then show ?thesis
          using list_all2_upgraded_update [of S rs0 recs ri r] st True b eq
          by (simp add: block_upgraded_def)
      qed
    qed
    have new_in: "x \<in> set ?recs \<Longrightarrow> x \<in> set (state_records ?st)" for x
      using nth_block_records [of bi "ms_blocks ?st" i ?recs True x] st(2)
      by (simp add: state_records_def)
    have dom: "represented (state_records ?st) q" if "q \<in> set (state_records st)" for q
    proof (cases "q \<in> set recs")
      case True
      have "represented ?recs q"
        by (rule represented_update [OF \<open>should_replace r (recs ! ri)\<close> st(3) True])
      then show ?thesis using new_in by (auto simp: represented_def)
    next
      case False
      then have "q \<in> set (state_records ?st)"
        using that st(1)
          set_concat_map_update [of q "\<lambda>(i, recs, d). recs" "ms_blocks st" bi "(i, ?recs, True)"]
        by (auto simp: state_records_def)
      then show ?thesis by (rule represented_self)
    qed
    have "represented (state_records ?st) r"
      by (rule represented_self [OF new_in]) (rule set_update_memI [OF st(3)])
    moreover have "represented (state_records ?st) x" if "x \<in> S" for x
      using that M dom represented_trans [of "state_records st" x "state_records ?st"]
      by (auto simp: merged_def)
    ultimately have "merged bs m (insert r S) ?st"
      using M l' by (auto simp: merged_def)
    then show ?thesis using True k st(1) by (simp add: merge_record_def)
  qed
qed

lemma merge_record_new:
  assumes M: "merged bs m S st" and k: "m (event_key r) = None"
  shows "merged bs m (insert r S) (merge_record m st r)"
proof -
  have l: "list_all2 (block_upgraded (insert r S)) bs (ms_blocks st)"
  proof -
    have "list_all2 (block_upgraded S) bs (ms_blocks st)" using M by (simp add: merged_def)
    then show ?thesis by (rule list_all2_mono) (erule block_upgraded_mono, blast)
  qed
  show ?thesis
  proof (cases "new_indices st (event_key r)")
    case None
    let ?st = "st\<lparr>new_indices := (new_indices st)(event_key r \<mapsto> length (ms_new st)),
      ms_new := ms_new st @ [r]\<rparr>"
    have sub: "set (state_records ?st) = insert r (set (state_records st))"
      by (auto simp: state_records_def)
    have rep: "represented (state_records ?st) x" if x: "x \<in> insert r S" for x
    proof (cases "x = r")
      case True
      show ?thesis by (rule represented_self) (use sub True in blast)
    next
      case False
      then have "represented (state_records st) x" using x M by (auto simp: merged_def)
      then show ?thesis by (rule represented_mono) (use sub in blast)
    qed
    have ix: "\<forall>kk ni. new_indices ?st kk = Some ni \<longrightarrow>
        ni < length (ms_new ?st) \<and> event_key (ms_new ?st ! ni) = kk"
      using M by (auto simp: merged_def nth_append less_SucI)
    have "event_key r \<notin> event_key ` set (ms_new st)"
      using M None by (simp add: merged_def)
    then have "merged bs m (insert r S) ?st"
      using M l k rep ix unfolding merged_def by auto
    then show ?thesis using k None by (simp add: merge_record_def)
  next
    case (Some ni)
    then have ni: "ni < length (ms_new st)" "event_key (ms_new st ! ni) = event_key r"
      using M by (simp_all add: merged_def)
    show ?thesis
    proof (cases "should_replace r (ms_new st ! ni)")
      case False
      have "ms_new st ! ni \<in> set (state_records st)" using ni by (simp add: state_records_def)
      with False ni have "represented (state_records st) r"
        by (auto simp: represented_def should_replace_def not_less)
      then show ?thesis using merged_grow [OF M] False k Some by (simp add: merge_record_def)
    next
      case True
      let ?st = "st\<lparr>ms_new := (ms_new st)[ni := r]\<rparr>"
      have keys: "map event_key (ms_new ?st) = map event_key (ms_new st)"
        using ni by (simp add: map_update list_update_same_conv)
      then have keyset: "event_key ` set (ms_new ?st) = event_key ` set (ms_new st)"
        by (metis list.set_map)
      have keynth: "n < length (ms_new st) \<Longrightarrow> event_key (ms_new ?st ! n) = event_key (ms_new st ! n)" for n
        using ni by (cases "n = ni") simp_all
      have dom: "represented (state_records ?st) q" if "q \<in> set (state_records st)" for q
      proof (cases "q \<in> set (ms_new st)")
        case in_new: True
        have "represented (ms_new ?st) q"
          using represented_update [OF True ni(1) in_new] by simp
        then show ?thesis by (rule represented_mono) (simp add: state_records_def)
      next
        case False
        then show ?thesis using that by (intro represented_self) (auto simp: state_records_def)
      qed
      have "r \<in> set (state_records ?st)"
        using set_update_memI [OF ni(1)] by (simp add: state_records_def)
      then have rep: "represented (state_records ?st) x" if "x \<in> insert r S" for x
        using that M represented_trans [of "state_records st" x "state_records ?st"]
        by (cases "x = r") (auto simp: merged_def intro: represented_self dom)
      have sub: "set (ms_new ?st) \<subseteq> insert r S"
        using M set_update_subset_insert [of "ms_new st" ni r] by (auto simp: merged_def)
      have none: "\<forall>x \<in> set (ms_new ?st). m (event_key x) = None"
        using M k set_update_subset_insert [of "ms_new st" ni r] by (auto simp: merged_def)
      have ix: "\<forall>kk n. new_indices ?st kk = Some n \<longrightarrow>
          n < length (ms_new ?st) \<and> event_key (ms_new ?st ! n) = kk"
        using M keynth by (auto simp: merged_def)
      have nix: "\<forall>kk. new_indices ?st kk = None \<longrightarrow> kk \<notin> event_key ` set (ms_new ?st)"
        using M unfolding keyset by (simp add: merged_def)
      have "distinct (map event_key (ms_new ?st))"
        unfolding keys using M by (simp add: merged_def)
      moreover have "list_all2 (block_upgraded (insert r S)) bs (ms_blocks ?st)"
        using l by simp
      ultimately have "merged bs m (insert r S) ?st"
        using ix nix sub none rep unfolding merged_def by blast
      then show ?thesis using True k Some by (simp add: merge_record_def)
    qed
  qed
qed

lemma merge_records:
  "merged bs m S st \<Longrightarrow> index_ok bs m \<Longrightarrow>
     merged bs m (S \<union> set rs) (foldl (merge_record m) st rs)"
proof (induction rs arbitrary: S st)
  case (Cons r rs)
  have "merged bs m (insert r S) (merge_record m st r)"
    using merge_record_retained [OF Cons.prems, of r] merge_record_new [OF Cons.prems(1), of r]
    by (cases "m (event_key r)") auto
  then show ?case using Cons.IH [of "insert r S"] Cons.prems(2) by simp
qed simp

lemma merged_initial:
  "merged bs m {} \<lparr>ms_blocks = bs, new_indices = (\<lambda>_. None), ms_new = []\<rparr>"
proof -
  have "list_all2 (block_upgraded {}) bs bs"
    by (rule list_all2_refl) (auto simp: block_upgraded_def intro: list_all2_refl split: prod.splits)
  then show ?thesis by (simp add: merged_def)
qed

text \<open>The outcome of \<open>merge_batch\<close> on a channel whose rows decode: it never fails.\<close>

definition loaded_blocks :: "codec \<Rightarrow> block_row list \<Rightarrow> retained_block list" where
  "loaded_blocks cd rows = map (\<lambda>row. (row_id row, row_records cd row, False)) rows"

lemma merge_batch_spec:
  assumes "rows_inv cd (message_blocks db)"
  obtains st m where "merge_batch cd ch rs db = Inr st"
    and "index_ok (loaded_blocks cd (overlapping_rows ch (the (iter_min (map event_at_ms rs)))
          (the (iter_max (map event_at_ms rs))) (message_blocks db))) m"
    and "merged (loaded_blocks cd (overlapping_rows ch (the (iter_min (map event_at_ms rs)))
          (the (iter_max (map event_at_ms rs))) (message_blocks db))) m (set rs) st"
proof -
  let ?rows = "overlapping_rows ch (the (iter_min (map event_at_ms rs)))
          (the (iter_max (map event_at_ms rs))) (message_blocks db)"
  have "\<forall>row \<in> set ?rows. row_good cd row \<and> row_channel row = ch"
    using assms by (auto simp: overlapping_rows_def rows_inv_def)
  moreover have "index_ok [] (\<lambda>_. None)" by (simp add: index_ok_def)
  ultimately obtain m where m: "load_retained cd ch ?rows [] (\<lambda>_. None) = Inr (loaded_blocks cd ?rows, m)"
    "index_ok (loaded_blocks cd ?rows) m"
    using load_retained_spec [of ?rows cd ch "[]" "\<lambda>_. None"] by (auto simp: loaded_blocks_def)
  show ?thesis
    by (rule that [of "foldl (merge_record m) \<lparr>ms_blocks = loaded_blocks cd ?rows,
          new_indices = (\<lambda>_. None), ms_new = []\<rparr> (sort_key event_order rs)" m])
       (use m merge_records [OF merged_initial m(2), of "sort_key event_order rs"]
         in \<open>simp_all add: merge_batch_def Let_def\<close>)
qed

end
