(* ===== verification/SqliteOutcome.thy ===== *)
theory SqliteOutcome
  imports SqliteMerge
begin

text \<open>
  The invariant of the SQLite store and the outcome of \<open>append_transaction\<close> on it: the rows every
  step of the transaction leaves, and from them what the channel holds afterwards.
\<close>

section \<open>Databases that differ in their blocks\<close>

definition totals_ok :: "sqlite_db \<Rightarrow> bool" where
  "totals_ok db \<longleftrightarrow> store_totals db = row_totals (message_blocks db)"

definition with_rows :: "block_row list \<Rightarrow> sqlite_db \<Rightarrow> sqlite_db" where
  "with_rows rows db = db\<lparr>message_blocks := rows, store_totals := row_totals rows\<rparr>"

lemma with_rows_simps [simp]:
  "message_blocks (with_rows rows db) = rows"
  "totals_ok (with_rows rows db)"
  "channel_table (with_rows rows db) = channel_table db"
  "blocked_channels (with_rows rows db) = blocked_channels db"
  "purge_cutoffs (with_rows rows db) = purge_cutoffs db"
  "always_join_channels (with_rows rows db) = always_join_channels db"
  "ingest_journal (with_rows rows db) = ingest_journal db"
  "source_offsets (with_rows rows db) = source_offsets db"
  "with_rows rows (with_rows rows' db) = with_rows rows db"
  by (simp_all add: with_rows_def totals_ok_def)

lemma with_rows_self: "totals_ok db \<Longrightarrow> with_rows (message_blocks db) db = db"
  by (simp add: with_rows_def totals_ok_def)

lemma update_block_row_rows:
  assumes "totals_ok db"
  shows "update_block_row i b db =
    with_rows (map (\<lambda>r. if row_id r = i then store_block b r else r) (message_blocks db)) db"
proof -
  let ?db = "update_block_row i b db"
  have "store_totals ?db = row_totals (message_blocks ?db)"
    by (rule update_totals) (use assms in \<open>simp add: totals_ok_def\<close>)
  then show ?thesis
    by (simp add: with_rows_def update_block_row_def)
qed

lemma delete_block_rows_rows:
  assumes "totals_ok db" and "\<forall>r \<in> set (message_blocks db). row_nonneg r"
  shows "delete_block_rows P db = with_rows (filter (\<lambda>r. \<not> P r) (message_blocks db)) db"
proof -
  let ?db = "delete_block_rows P db"
  have "store_totals ?db = row_totals (message_blocks ?db)"
    by (rule delete_totals) (use assms in \<open>simp_all add: totals_ok_def\<close>)
  then show ?thesis
    by (simp add: with_rows_def delete_block_rows_def)
qed

section \<open>Writing upgraded blocks back\<close>

text \<open>The row a block of \<open>bl\<close> stands for after \<open>write_back\<close>.\<close>

definition rewritten :: "codec \<Rightarrow> retained_block list \<Rightarrow> block_row \<Rightarrow> block_row \<Rightarrow> bool" where
  "rewritten cd bl row row' \<longleftrightarrow>
     row_id row' = row_id row \<and> row_channel row' = row_channel row \<and>
     block_sequence row' = block_sequence row \<and> row_good cd row' \<and>
     (row_id row \<notin> fst ` set bl \<longrightarrow> row' = row) \<and>
     (\<forall>(i, recs, d) \<in> set bl. i = row_id row \<longrightarrow>
        (d \<longrightarrow> row_records cd row' = recs) \<and> (\<not> d \<longrightarrow> row' = row))"

lemma rewritten_Nil: "row_good cd row \<Longrightarrow> rewritten cd [] row row"
  by (simp add: rewritten_def)

lemma rewritten_clean:
  assumes "rewritten cd bl row row'" and "i \<notin> fst ` set bl"
  shows "rewritten cd ((i, recs, False) # bl) row row'"
proof (cases "row_id row = i")
  case True
  then have "row' = row" using assms by (simp add: rewritten_def)
  then show ?thesis using assms(1) by (simp add: rewritten_def)
next
  case False
  then show ?thesis using assms(1) by (simp add: rewritten_def)
qed

lemma rewritten_dirty:
  assumes "rewritten cd bl (if row_id row = i then store_block b row else row) row'"
    and "i \<notin> fst ` set bl" and "row_id row = i \<Longrightarrow> row_records cd (store_block b row) = recs"
  shows "rewritten cd ((i, recs, True) # bl) row row'"
proof (cases "row_id row = i")
  case True
  then have r: "rewritten cd bl (store_block b row) row'" using assms(1) by simp
  have "row_id (store_block b row) = i" using True by (simp add: store_block_def)
  then have eq: "row' = store_block b row" using r assms(2) by (simp add: rewritten_def)
  have "(j, rs, d) \<notin> set bl" if "j = i" for j rs d
    using assms(2) that by (metis fst_conv image_eqI)
  then show ?thesis
    using r True assms(3) by (auto simp: rewritten_def eq) (simp_all add: store_block_def)
next
  case False
  then show ?thesis using assms(1) by (simp add: rewritten_def)
qed

lemma write_back_spec:
  assumes cd: "codec_ok cd" and "write_back cd level bl db = Inr db'" and "totals_ok db"
    and "distinct (map fst bl)"
    and "\<forall>(i, recs, d) \<in> set bl. \<forall>r \<in> set recs. \<forall>row \<in> set (message_blocks db).
          row_id row = i \<longrightarrow> channel_key r = row_channel row"
    and "\<forall>row \<in> set (message_blocks db). row_good cd row"
  shows "\<exists>rows'. db' = with_rows rows' db \<and> list_all2 (rewritten cd bl) (message_blocks db) rows'"
  using assms(2-)
proof (induction bl arbitrary: db)
  case Nil
  then show ?case
    by (intro exI [of _ "message_blocks db"])
       (auto simp: with_rows_self list_all2_same rewritten_Nil)
next
  case (Cons x bl)
  obtain i recs d where x: "x = (i, recs, d)" by (cases x)
  have fresh: "i \<notin> fst ` set bl" using Cons.prems(3) x by auto
  show ?case
  proof (cases d)
    case False
    then obtain rows' where "db' = with_rows rows' db"
      and l: "list_all2 (rewritten cd bl) (message_blocks db) rows'"
      using Cons x by auto
    moreover have "list_all2 (rewritten cd (x # bl)) (message_blocks db) rows'"
      using l by (rule list_all2_mono) (use x False fresh in \<open>simp add: rewritten_clean\<close>)
    ultimately show ?thesis by blast
  next
    case True
    obtain b where b: "encode cd recs level = Inr b"
      and w: "write_back cd level bl (update_block_row i b db) = Inr db'"
      using Cons.prems(1) x True by auto
    let ?g = "\<lambda>r. if row_id r = i then store_block b r else r"
    let ?rows = "map ?g (message_blocks db)"
    have upd: "update_block_row i b db = with_rows ?rows db"
      by (rule update_block_row_rows [OF Cons.prems(2)])
    have good: "row_good cd (store_block b row) \<and> row_records cd (store_block b row) = recs"
      if "row \<in> set (message_blocks db)" "row_id row = i" for row
      using store_block_good [OF cd b, of row] Cons.prems(4) x that by auto
    have chans: "\<forall>(j, recs, d) \<in> set bl. \<forall>r \<in> set recs. \<forall>row \<in> set ?rows.
          row_id row = j \<longrightarrow> channel_key r = row_channel row"
      using Cons.prems(4) by (fastforce simp: store_block_def)
    have goods: "\<forall>row \<in> set ?rows. row_good cd row"
      using Cons.prems(5) good by auto
    have "\<exists>rows'. db' = with_rows rows' (with_rows ?rows db) \<and>
        list_all2 (rewritten cd bl) (message_blocks (with_rows ?rows db)) rows'"
      by (rule Cons.IH) (use w Cons.prems(3) chans goods in \<open>simp_all add: upd\<close>)
    then obtain rows' where r: "db' = with_rows rows' db" "list_all2 (rewritten cd bl) ?rows rows'"
      by auto
    have "list_all2 (\<lambda>row row'. rewritten cd bl (?g row) row') (message_blocks db) rows'"
      using r(2) by (simp add: list_all2_map1)
    then have "list_all2 (rewritten cd (x # bl)) (message_blocks db) rows'"
      unfolding x using True
      by (auto intro!: list.rel_mono_strong [where R = "\<lambda>row row'. rewritten cd bl (?g row) row'"]
          rewritten_dirty [where b = b] fresh dest: good)
    with r(1) show ?thesis by blast
  qed
qed

lemma write_back_error: "write_back cd level bl db = Inl e \<Longrightarrow> \<exists>be. e = Block be"
  by (induction bl arbitrary: db) (auto simp: and_then_Inl map_err_def split: if_splits sum.splits)

section \<open>Inserting new blocks\<close>

lemma next_row_id_fresh: "row \<in> set rows \<Longrightarrow> row_id row < next_row_id rows"
proof -
  assume row: "row \<in> set rows"
  then have "rows \<noteq> []" by auto
  then obtain m where m: "iter_max (map row_id rows) = Some m"
    by (cases "iter_max (map row_id rows)") auto
  then have "m = Max (set (map row_id rows))" by (simp add: iter_max_Some)
  then have "row_id row \<le> m" using row by simp
  then show ?thesis by (simp add: next_row_id_def m)
qed

lemma rows_inv_snoc:
  assumes "rows_inv cd rows" and "row_good cd row" and "row_id row = next_row_id rows"
    and "\<forall>r \<in> set (rows_of (row_channel row) rows). block_sequence r < block_sequence row"
  shows "rows_inv cd (rows @ [row])"
  unfolding rows_inv_def
proof (intro conjI allI)
  show "\<forall>r \<in> set (rows @ [row]). row_good cd r"
    using assms(1,2) by (auto simp: rows_inv_def)
  show "distinct (map row_id (rows @ [row]))"
    using assms(1,3) next_row_id_fresh [of _ rows] by (fastforce simp: rows_inv_def)
  fix ch
  have "rows_of ch [row] = (if row_channel row = ch then [row] else [])"
    by (simp add: rows_of_def)
  then show "sorted_wrt (<) (map block_sequence (rows_of ch (rows @ [row])))"
    using assms(1,4) by (auto simp: rows_inv_def sorted_wrt_append)
qed

lemma new_row_simps [simp]:
  "row_id (new_row i ch seq b) = i"
  "row_channel (new_row i ch seq b) = ch"
  "block_sequence (new_row i ch seq b) = seq"
  by (simp_all add: new_row_def store_block_def)

lemma new_row_good:
  assumes "codec_ok cd" and "encode cd rs level = Inr b" and "\<forall>r \<in> set rs. channel_key r = ch"
  shows "row_good cd (new_row i ch seq b)" and "row_records cd (new_row i ch seq b) = rs"
  using store_block_good [OF assms(1,2)] assms(3) by (simp_all add: new_row_def)

lemma insert_block_row_rows:
  assumes "totals_ok db" and "map_of (channel_table db) ch \<noteq> None"
    and "\<forall>r \<in> set (rows_of ch (message_blocks db)). block_sequence r < seq"
  shows "insert_block_row ch seq b db = Inr (with_rows
    (message_blocks db @ [new_row (next_row_id (message_blocks db)) ch seq b]) db)"
proof -
  have "\<not> list_ex (\<lambda>r. row_channel r = ch \<and> block_sequence r = seq) (message_blocks db)"
    using assms(3) by (auto simp: list_ex_iff)
  then show ?thesis
    using assms(1,2)
    by (simp add: insert_block_row_def with_rows_def Let_def trigger_insert_totals totals_ok_def)
qed

text \<open>Rows appended to \<open>rows\<close> for the channel \<open>ch\<close>, holding the chunks \<open>cs\<close>.\<close>

definition appended :: "codec \<Rightarrow> string \<Rightarrow> int \<Rightarrow> canonical_record list list \<Rightarrow> block_row list \<Rightarrow> bool" where
  "appended cd ch seq cs rows' \<longleftrightarrow>
     map (row_records cd) rows' = cs \<and>
     (\<forall>row \<in> set rows'. row_channel row = ch \<and> seq \<le> block_sequence row \<and>
        block_sequence row < seq + int (length cs))"

lemma insert_chunks_spec:
  assumes cd: "codec_ok cd" and "totals_ok db" and "map_of (channel_table db) ch \<noteq> None"
    and "\<forall>r \<in> set (rows_of ch (message_blocks db)). block_sequence r < seq"
    and "\<forall>r \<in> set (concat cs). channel_key r = ch" and "rows_inv cd (message_blocks db)"
  shows "(\<exists>be. insert_chunks cd level ch cs seq retained db = Inl (Block be)) \<or>
    (\<exists>rows'. insert_chunks cd level ch cs seq retained db =
        Inr (seq + int (length cs), retained + int (length (concat cs)),
             with_rows (message_blocks db @ rows') db) \<and>
      rows_inv cd (message_blocks db @ rows') \<and> appended cd ch seq cs rows')"
  using assms(2-)
proof (induction cs arbitrary: seq retained db)
  case Nil
  then show ?case
    by (auto simp: appended_def with_rows_self intro!: exI [of _ "[]"])
next
  case (Cons chunk cs)
  show ?case
  proof (cases "encode cd chunk level")
    case (Inl be)
    then show ?thesis by simp
  next
    case (Inr b)
    let ?row = "new_row (next_row_id (message_blocks db)) ch seq b"
    let ?db = "with_rows (message_blocks db @ [?row]) db"
    have row: "row_good cd ?row" "row_records cd ?row = chunk"
      using new_row_good [OF cd Inr] Cons.prems(4) by auto
    have ins: "insert_block_row ch seq b db = Inr ?db"
      by (rule insert_block_row_rows [OF Cons.prems(1-3)])
    have count: "int (message_count b) = int (length chunk)"
      using encode_Inr(1) [OF Inr] by (simp add: describes_def)
    have inv: "rows_inv cd (message_blocks ?db)"
      using rows_inv_snoc [OF Cons.prems(5) row(1)] Cons.prems(3) by simp
    have step: "insert_chunks cd level ch (chunk # cs) seq retained db =
        insert_chunks cd level ch cs (seq + 1) (retained + int (length chunk)) ?db"
      using Inr ins count by simp
    have seqs: "\<forall>r \<in> set (rows_of ch (message_blocks ?db)). block_sequence r < seq + 1"
    proof
      fix r assume "r \<in> set (rows_of ch (message_blocks ?db))"
      then have "r \<in> set (rows_of ch (message_blocks db)) \<or> block_sequence r = seq" by auto
      then show "block_sequence r < seq + 1" using Cons.prems(3) by fastforce
    qed
    have "(\<exists>be. insert_chunks cd level ch cs (seq + 1) (retained + int (length chunk)) ?db = Inl (Block be)) \<or>
      (\<exists>rows'. insert_chunks cd level ch cs (seq + 1) (retained + int (length chunk)) ?db =
          Inr (seq + 1 + int (length cs), retained + int (length chunk) + int (length (concat cs)),
               with_rows (message_blocks ?db @ rows') ?db) \<and>
        rows_inv cd (message_blocks ?db @ rows') \<and> appended cd ch (seq + 1) cs rows')"
      by (rule Cons.IH) (use Cons.prems seqs inv in auto)
    then show ?thesis
    proof (elim disjE exE conjE)
      fix be
      assume "insert_chunks cd level ch cs (seq + 1) (retained + int (length chunk)) ?db = Inl (Block be)"
      then show ?thesis by (auto simp: step simp del: insert_chunks.simps)
    next
      fix rows'
      assume r: "insert_chunks cd level ch cs (seq + 1) (retained + int (length chunk)) ?db =
          Inr (seq + 1 + int (length cs), retained + int (length chunk) + int (length (concat cs)),
               with_rows (message_blocks ?db @ rows') ?db)"
        "rows_inv cd (message_blocks ?db @ rows')" "appended cd ch (seq + 1) cs rows'"
      have "appended cd ch seq (chunk # cs) (?row # rows')"
        using r(3) row(2) by (auto simp: appended_def)
      then show ?thesis
        using r by (intro disjI2 exI [of _ "?row # rows'"]) (simp add: step del: insert_chunks.simps)
    qed
  qed
qed

section \<open>Evicting the oldest blocks\<close>

lemma rows_of_filter: "rows_of ch (filter P rows) = filter P (rows_of ch rows)"
  by (simp add: rows_of_def conj_commute)

lemma rows_of_filter_id:
  assumes "distinct (map row_id rows)" and "rows_of ch rows = old # rest"
  shows "rows_of ch (filter (\<lambda>r. row_id r \<noteq> row_id old) rows) = rest"
    and "ch' \<noteq> ch \<Longrightarrow> rows_of ch' (filter (\<lambda>r. row_id r \<noteq> row_id old) rows) = rows_of ch' rows"
proof -
  have d: "distinct (map row_id (rows_of ch rows))"
    using assms(1) by (simp add: rows_of_def distinct_map_filter)
  then have "\<forall>r \<in> set rest. row_id r \<noteq> row_id old"
    by (auto simp: assms(2) image_iff)
  then show "rows_of ch (filter (\<lambda>r. row_id r \<noteq> row_id old) rows) = rest"
    by (simp add: rows_of_filter assms(2))
  have old: "old \<in> set rows" "row_channel old = ch"
    using assms(2) set_rows_of [of old ch rows] by simp_all
  have "row_id r \<noteq> row_id old" if "ch' \<noteq> ch" "r \<in> set (rows_of ch' rows)" for r
    using that old assms(1) by (auto dest: distinct_map [THEN iffD1, THEN conjunct2, THEN inj_onD])
  then show "ch' \<noteq> ch \<Longrightarrow> rows_of ch' (filter (\<lambda>r. row_id r \<noteq> row_id old) rows) = rows_of ch' rows"
    by (auto simp: rows_of_filter intro!: filter_True)
qed

text \<open>What is left after whole blocks of \<open>ch\<close> were dropped from the front.\<close>

definition front_evicted :: "codec \<Rightarrow> string \<Rightarrow> block_row list \<Rightarrow> block_row list \<Rightarrow> bool" where
  "front_evicted cd ch rows rows' \<longleftrightarrow>
     (\<exists>P. rows' = filter P rows) \<and> (\<forall>ch'. ch' \<noteq> ch \<longrightarrow> rows_of ch' rows' = rows_of ch' rows) \<and>
     (\<exists>ys. records_of cd ch rows = ys @ records_of cd ch rows')"

lemma front_evicted_refl [simp]: "front_evicted cd ch rows rows"
proof -
  have "rows = filter (\<lambda>_. True) rows" by simp
  then show ?thesis unfolding front_evicted_def by blast
qed

lemma front_evicted_trans:
  assumes "front_evicted cd ch rows rows1" and "front_evicted cd ch rows1 rows2"
  shows "front_evicted cd ch rows rows2"
proof -
  obtain P Q where "rows1 = filter P rows" "rows2 = filter Q rows1"
    using assms by (auto simp: front_evicted_def)
  then have "rows2 = filter (\<lambda>r. P r \<and> Q r) rows" by (simp add: conj_commute)
  moreover obtain ys zs where "records_of cd ch rows = ys @ records_of cd ch rows1"
    "records_of cd ch rows1 = zs @ records_of cd ch rows2"
    using assms unfolding front_evicted_def by metis
  then have "records_of cd ch rows = (ys @ zs) @ records_of cd ch rows2" by simp
  ultimately show ?thesis
    using assms unfolding front_evicted_def by metis
qed

lemma evict_oldest_spec:
  assumes "rows_inv cd (message_blocks db)" and "totals_ok db"
    and "retained = int (length (records_of cd ch (message_blocks db)))" and "retained \<le> i64_max"
    and "0 \<le> allowed"
  shows "\<exists>rows'. evict_oldest allowed ch retained db =
      (int (length (records_of cd ch rows')), with_rows rows' db) \<and>
    front_evicted cd ch (message_blocks db) rows' \<and>
    int (length (records_of cd ch rows')) \<le> allowed \<and>
    (retained \<le> allowed \<longrightarrow> rows' = message_blocks db)"
  using assms
proof (induction allowed ch retained db rule: evict_oldest.induct)
  case (1 allowed ch retained db)
  let ?rows = "message_blocks db"
  show ?case
  proof (cases "retained > allowed")
    case False
    then have "evict_oldest allowed ch retained db = (retained, db)"
      by (simp add: evict_oldest.simps [of allowed ch retained db])
    then show ?thesis
      using False "1.prems" by (intro exI [of _ ?rows]) (simp add: with_rows_self)
  next
    case True
    have sorted: "sort_key block_sequence (filter (\<lambda>r. row_channel r = ch) ?rows) = rows_of ch ?rows"
      using rows_inv_sort [OF "1.prems"(1)] by (simp add: rows_of_def)
    show ?thesis
    proof (cases "rows_of ch ?rows")
      case Nil
      with True "1.prems"(3,5) show ?thesis by (simp add: records_of_def)
    next
      case (Cons oldest rest)
      let ?rows1 = "filter (\<lambda>r. row_id r \<noteq> row_id oldest) ?rows" and ?n = "row_message_count oldest"
      have d: "distinct (map row_id ?rows)" using "1.prems"(1) by (simp add: rows_inv_def)
      have r1: "rows_of ch ?rows1 = rest" and others: "\<forall>ch'. ch' \<noteq> ch \<longrightarrow> rows_of ch' ?rows1 = rows_of ch' ?rows"
        using rows_of_filter_id [OF d Cons] by blast+
      have good: "row_good cd oldest"
        using "1.prems"(1) set_rows_of [of oldest ch ?rows] Cons by (simp add: rows_inv_def)
      have recs: "records_of cd ch ?rows = row_records cd oldest @ records_of cd ch ?rows1"
        by (simp add: records_of_def Cons r1)
      have sub: "i64_saturating_sub retained ?n = int (length (records_of cd ch ?rows1))"
        using "1.prems"(3,4) row_goodD(2) [OF good] by (simp add: recs int_defs)
      have del: "delete_block_rows (\<lambda>r. row_id r = row_id oldest) db = with_rows ?rows1 db"
        using delete_block_rows_rows [OF "1.prems"(2) rows_inv_nonneg [OF "1.prems"(1)]] by simp
      let ?db1 = "delete_block_rows (\<lambda>r. row_id r = row_id oldest) db"
      have inv1: "rows_inv cd (message_blocks ?db1)" and tot1: "totals_ok ?db1"
        and sub1: "i64_saturating_sub retained ?n = int (length (records_of cd ch (message_blocks ?db1)))"
        using "1.prems"(1) by (simp_all add: del sub rows_inv_filter)
      have le: "i64_saturating_sub retained ?n \<le> i64_max"
        by (simp add: int_defs)
      have hd: "sort_key block_sequence (filter (\<lambda>r. row_channel r = ch) ?rows) = oldest # rest"
        using sorted Cons by simp
      have "\<exists>rows'. evict_oldest allowed ch (i64_saturating_sub retained ?n) ?db1 =
          (int (length (records_of cd ch rows')), with_rows rows' ?db1) \<and>
        front_evicted cd ch (message_blocks ?db1) rows' \<and>
        int (length (records_of cd ch rows')) \<le> allowed \<and>
        (i64_saturating_sub retained ?n \<le> allowed \<longrightarrow> rows' = message_blocks ?db1)"
        by (rule "1.IH" [OF True hd inv1 tot1 sub1 le "1.prems"(5)])
      then obtain rows' where ev: "evict_oldest allowed ch (i64_saturating_sub retained ?n) (with_rows ?rows1 db) =
          (int (length (records_of cd ch rows')), with_rows rows' db)"
        and r': "front_evicted cd ch ?rows1 rows'" "int (length (records_of cd ch rows')) \<le> allowed"
        by (auto simp: del)
      have "front_evicted cd ch ?rows ?rows1"
        using others recs by (auto simp: front_evicted_def)
      then have "front_evicted cd ch ?rows rows'" using r'(1) by (rule front_evicted_trans)
      then show ?thesis
        using ev r'(2) True Cons sorted
        by (intro exI [of _ rows']) (simp add: evict_oldest.simps [of allowed ch retained db] del)
    qed
  qed
qed

section \<open>The invariant of the database\<close>

text \<open>
  \<open>db_inv cd N db\<close>: blocks decode and are ordered; the totals are those of the rows; a row's channel
  exists and is past its sequence number; a channel's count is the number of its records, at most
  \<open>N\<close>; blocked channels hold nothing; no record is older than its channel's purge cutoff.
\<close>

definition channel_count_ok :: "codec \<Rightarrow> int \<Rightarrow> block_row list \<Rightarrow> string \<Rightarrow> channel_row \<Rightarrow> bool" where
  "channel_count_ok cd N rows ch c \<longleftrightarrow>
     retained_messages c = int (length (records_of cd ch rows)) \<and> retained_messages c \<le> N \<and>
     (\<forall>r \<in> set (rows_of ch rows). block_sequence r < next_block_sequence c)"

definition db_inv :: "codec \<Rightarrow> int \<Rightarrow> sqlite_db \<Rightarrow> bool" where
  "db_inv cd N db \<longleftrightarrow>
     rows_inv cd (message_blocks db) \<and> totals_ok db \<and>
     distinct (map fst (channel_table db)) \<and>
     (\<forall>r \<in> set (message_blocks db). map_of (channel_table db) (row_channel r) \<noteq> None) \<and>
     (\<forall>(ch, c) \<in> set (channel_table db). channel_count_ok cd N (message_blocks db) ch c) \<and>
     (\<forall>ch \<in> set (blocked_channels db). rows_of ch (message_blocks db) = []) \<and>
     (\<forall>ch cutoff. map_of (purge_cutoffs db) ch = Some cutoff \<longrightarrow>
        (\<forall>r \<in> set (records_of cd ch (message_blocks db)). cutoff < received_at_ms r))"

definition sql_retained :: "codec \<Rightarrow> sqlite_db \<Rightarrow> string \<Rightarrow> canonical_record list" where
  "sql_retained cd db ch = records_of cd ch (message_blocks db)"

lemma db_invD:
  assumes "db_inv cd N db"
  shows "rows_inv cd (message_blocks db)" and "totals_ok db"
    and "distinct (map fst (channel_table db))"
    and "r \<in> set (message_blocks db) \<Longrightarrow> map_of (channel_table db) (row_channel r) \<noteq> None"
    and "map_of (channel_table db) ch = Some c \<Longrightarrow> channel_count_ok cd N (message_blocks db) ch c"
    and "ch \<in> set (blocked_channels db) \<Longrightarrow> rows_of ch (message_blocks db) = []"
    and "map_of (purge_cutoffs db) ch = Some cutoff \<Longrightarrow> r' \<in> set (records_of cd ch (message_blocks db))
      \<Longrightarrow> cutoff < received_at_ms r'"
  using assms by (auto simp: db_inv_def dest: map_of_SomeD)

text \<open>The invariant after a change of the lists of blocked channels and purge cutoffs.\<close>

lemma db_inv_lists:
  assumes "db_inv cd N db" and "message_blocks db' = message_blocks db"
    and "channel_table db' = channel_table db" and "store_totals db' = store_totals db"
    and "\<forall>k \<in> set (blocked_channels db'). rows_of k (message_blocks db) = []"
    and "\<forall>k t. map_of (purge_cutoffs db') k = Some t \<longrightarrow>
      (\<forall>r \<in> set (records_of cd k (message_blocks db)). t < received_at_ms r)"
  shows "db_inv cd N db'"
  using assms(1,5,6) unfolding db_inv_def totals_ok_def assms(2-4) by blast

lemma db_inv_empty [simp]: "0 \<le> N \<Longrightarrow> db_inv cd N empty_db"
  by (simp add: db_inv_def empty_db_def rows_inv_def totals_ok_def row_totals_def)

lemma db_inv_retained_le:
  assumes "db_inv cd N db" and "0 \<le> N"
  shows "int (length (sql_retained cd db ch)) \<le> N"
proof (cases "map_of (channel_table db) ch")
  case None
  then have "rows_of ch (message_blocks db) = []"
    using db_invD(4) [OF assms(1)] by (fastforce simp: rows_of_def filter_empty_conv)
  then show ?thesis using assms(2) by (simp add: sql_retained_def records_of_def)
next
  case (Some c)
  then have "channel_count_ok cd N (message_blocks db) ch c" by (rule db_invD(5) [OF assms(1)])
  then show ?thesis by (simp add: channel_count_ok_def sql_retained_def)
qed

end
