(* ===== verification/SqliteAppendSpec.thy ===== *)
theory SqliteAppendSpec
  imports SqliteOutcome
begin

text \<open>
  The outcome of \<open>append_transaction\<close>: it keeps the database invariant, touches only the channel of
  the batch, and fails only when a block cannot be encoded; the channel then holds its old records,
  possibly upgraded, followed by the new ones, less whole blocks from the front when it exceeds its
  allowance.
\<close>

section \<open>Upgraded rows\<close>

definition row_upgraded ::
    "codec \<Rightarrow> string \<Rightarrow> canonical_record set \<Rightarrow> block_row \<Rightarrow> block_row \<Rightarrow> bool" where
  "row_upgraded cd ch S row row' \<longleftrightarrow>
     row_id row' = row_id row \<and> row_channel row' = row_channel row \<and>
     block_sequence row' = block_sequence row \<and> row_good cd row' \<and>
     (row_channel row \<noteq> ch \<longrightarrow> row' = row) \<and>
     list_all2 (upgraded S) (row_records cd row) (row_records cd row')"

lemma upgraded_rows_of:
  assumes "list_all2 (row_upgraded cd ch S) rows rows'"
  shows "list_all2 (row_upgraded cd ch S) (rows_of c rows) (rows_of c rows')"
  using assms by (induction rule: list_all2_induct) (auto simp: rows_of_def row_upgraded_def)

lemma upgraded_rows_other:
  assumes "list_all2 (row_upgraded cd ch S) rows rows'" and "c \<noteq> ch"
  shows "rows_of c rows' = rows_of c rows"
  using assms by (induction rule: list_all2_induct) (auto simp: rows_of_def row_upgraded_def)

lemma upgraded_rows_keys:
  assumes "list_all2 (row_upgraded cd ch S) rows rows'"
  shows "map row_id rows' = map row_id rows" and "map block_sequence rows' = map block_sequence rows"
    and "map row_channel rows' = map row_channel rows"
    and "\<forall>row \<in> set rows'. row_good cd row"
  using assms by (induction rule: list_all2_induct) (auto simp: row_upgraded_def)

lemma upgraded_rows_records:
  assumes "list_all2 (row_upgraded cd ch S) rows rows'"
  shows "list_all2 (upgraded S) (records_of cd c rows) (records_of cd c rows')"
  unfolding records_of_def using upgraded_rows_of [OF assms, of c]
  by (induction rule: list_all2_induct) (auto simp: row_upgraded_def intro: list_all2_appendI)

lemma upgraded_rows_inv:
  assumes "list_all2 (row_upgraded cd ch S) rows rows'" and "rows_inv cd rows"
  shows "rows_inv cd rows'"
  using assms(2) upgraded_rows_keys [OF assms(1)] upgraded_rows_keys(2) [OF upgraded_rows_of [OF assms(1)]]
  by (simp add: rows_inv_def)

lemma upgraded_rows_sequence:
  assumes "list_all2 (row_upgraded cd ch S) rows rows'"
    and "\<forall>r \<in> set (rows_of c rows). block_sequence r < n" and "r \<in> set (rows_of c rows')"
  shows "block_sequence r < n"
proof -
  have "block_sequence r \<in> set (map block_sequence (rows_of c rows'))"
    using assms(3) by (metis image_eqI list.set_map)
  then have "block_sequence r \<in> set (map block_sequence (rows_of c rows))"
    using upgraded_rows_keys(2) [OF upgraded_rows_of [OF assms(1), of c]] by simp
  then obtain r' where "r' \<in> set (rows_of c rows)" "block_sequence r = block_sequence r'"
    by (auto simp: rows_of_def)
  then show ?thesis using assms(2) by simp
qed

section \<open>From the merged state to the rewritten rows\<close>

lemma block_upgraded_ids:
  "list_all2 (block_upgraded S) bs bs' \<Longrightarrow> map fst bs' = map fst bs"
  by (induction rule: list_all2_induct) (auto simp: block_upgraded_def)

lemma loaded_ids [simp]: "map fst (loaded_blocks cd rows) = map row_id rows"
  by (simp add: loaded_blocks_def)

lemma block_of_row:
  assumes "list_all2 (block_upgraded S) (loaded_blocks cd rows) bs'" and "distinct (map row_id rows)"
    and "(i, recs, d) \<in> set bs'" and "row \<in> set rows" and "row_id row = i"
  shows "list_all2 (upgraded S) (row_records cd row) recs \<and> (\<not> d \<longrightarrow> recs = row_records cd row)"
proof -
  obtain n where n: "n < length bs'" "bs' ! n = (i, recs, d)"
    using assms(3) by (auto simp: in_set_conv_nth)
  have len: "length bs' = length rows"
    using list_all2_lengthD [OF assms(1)] by (simp add: loaded_blocks_def)
  have u: "block_upgraded S (loaded_blocks cd rows ! n) (i, recs, d)"
    using list_all2_nthD2 [OF assms(1) n(1)] n(2) by simp
  then have b: "row_id (rows ! n) = i" "list_all2 (upgraded S) (row_records cd (rows ! n)) recs"
    "\<not> d \<longrightarrow> recs = row_records cd (rows ! n)"
    using n(1) len by (auto simp: block_upgraded_def loaded_blocks_def)
  obtain k where k: "k < length rows" "rows ! k = row"
    using assms(4) by (auto simp: in_set_conv_nth)
  have "map row_id rows ! k = map row_id rows ! n"
    using k n(1) len b(1) assms(5) by simp
  then have "k = n"
    using nth_eq_iff_index_eq [OF assms(2), of k n] k(1) n(1) len by simp
  then show ?thesis using b k by simp
qed

lemma rewritten_upgraded:
  assumes l: "list_all2 (block_upgraded S) (loaded_blocks cd ov) bs'" and d: "distinct (map row_id rows)"
    and ov: "set ov \<subseteq> set rows" "distinct (map row_id ov)" "\<forall>row \<in> set ov. row_channel row = ch"
    and row: "row \<in> set rows" and rw: "rewritten cd bs' row row'"
  shows "row_upgraded cd ch S row row'"
proof (cases "row_id row \<in> fst ` set bs'")
  case False
  then have "row' = row" using rw by (simp add: rewritten_def)
  then show ?thesis
    using rw by (auto simp: row_upgraded_def rewritten_def intro: list_all2_refl)
next
  case True
  then obtain recs dirty where b: "(row_id row, recs, dirty) \<in> set bs'" by force
  have "fst ` set bs' = row_id ` set ov"
    using arg_cong [OF block_upgraded_ids [OF l], of set] by simp
  then obtain row2 where r2: "row2 \<in> set ov" "row_id row2 = row_id row" using True by force
  then have in_ov: "row \<in> set ov"
    using d ov(1) row by (metis distinct_map inj_onD subsetD)
  have "list_all2 (upgraded S) (row_records cd row) recs \<and> (\<not> dirty \<longrightarrow> recs = row_records cd row)"
    by (rule block_of_row [OF l ov(2) b in_ov refl])
  moreover have "(dirty \<longrightarrow> row_records cd row' = recs) \<and> (\<not> dirty \<longrightarrow> row' = row)"
    using rw b by (fastforce simp: rewritten_def)
  ultimately have "list_all2 (upgraded S) (row_records cd row) (row_records cd row')"
    by (cases dirty) auto
  then show ?thesis
    using rw in_ov ov(3) by (simp add: row_upgraded_def rewritten_def)
qed

text \<open>Every record of a rewritten block is in the row of that block.\<close>

lemma rewritten_member:
  assumes l: "list_all2 (block_upgraded S) (loaded_blocks cd ov) bs'" and ov: "set ov \<subseteq> set rows"
    and dis: "distinct (map row_id ov)" and chan: "\<forall>row \<in> set ov. row_channel row = ch"
    and rw: "list_all2 (rewritten cd bs') rows rows'" and q: "(i, recs, dirty) \<in> set bs'" "q \<in> set recs"
  shows "q \<in> set (records_of cd ch rows')"
proof -
  have "i \<in> fst ` set bs'" using q(1) by force
  then have "i \<in> row_id ` set ov"
    using arg_cong [OF block_upgraded_ids [OF l], of set] by simp
  then obtain row where row: "row \<in> set ov" "row_id row = i" by auto
  then obtain n where n: "n < length rows" "rows ! n = row"
    using ov by (metis in_set_conv_nth subsetD)
  have r: "rewritten cd bs' row (rows' ! n)" using list_all2_nthD [OF rw n(1)] n(2) by simp
  have in': "rows' ! n \<in> set rows'" using n(1) list_all2_lengthD [OF rw] by simp
  have "row_channel (rows' ! n) = ch" using r row(1) chan by (simp add: rewritten_def)
  moreover have "row_records cd (rows' ! n) = recs"
    using r q(1) row block_of_row [OF l dis q(1) row(1,2)]
    by (cases dirty) (fastforce simp: rewritten_def)+
  ultimately show ?thesis
    using in' q(2) by (auto simp: records_of_def)
qed

section \<open>Steps that keep the invariant\<close>

lemma update_channel_row_simps [simp]:
  "message_blocks (update_channel_row ch f db) = message_blocks db"
  "blocked_channels (update_channel_row ch f db) = blocked_channels db"
  "purge_cutoffs (update_channel_row ch f db) = purge_cutoffs db"
  "always_join_channels (update_channel_row ch f db) = always_join_channels db"
  "ingest_journal (update_channel_row ch f db) = ingest_journal db"
  "source_offsets (update_channel_row ch f db) = source_offsets db"
  "totals_ok (update_channel_row ch f db) = totals_ok db"
  "update_channel_row ch (\<lambda>c. c) db = db"
proof -
  have "(\<lambda>(k, c). if k = ch then (k, c) else (k, c)) = (\<lambda>x::string \<times> channel_row. x)"
    by (auto simp: fun_eq_iff)
  then show "update_channel_row ch (\<lambda>c. c) db = db"
    by (simp add: update_channel_row_def)
qed (simp_all add: update_channel_row_def totals_ok_def)

lemma update_channel_row_table:
  "set (channel_table (update_channel_row ch f db)) =
     {(k, if k = ch then f c else c) |k c. (k, c) \<in> set (channel_table db)}"
  "map fst (channel_table (update_channel_row ch f db)) = map fst (channel_table db)"
  by (force simp: update_channel_row_def split: if_splits)+

lemma map_of_update_channel_row:
  "map_of (channel_table (update_channel_row ch f db)) k =
     (if k = ch then map_option f (map_of (channel_table db) k) else map_of (channel_table db) k)"
proof -
  have "map_of (map (\<lambda>(k, c). if k = ch then (k, f c) else (k, c)) xs) k =
      (if k = ch then map_option f (map_of xs k) else map_of xs k)" for xs
    by (induction xs) auto
  then show ?thesis by (simp add: update_channel_row_def)
qed

text \<open>Rewriting the rows and the counters of one channel.\<close>

lemma db_inv_step:
  assumes inv: "db_inv cd N db" and rows: "rows_inv cd rows'"
    and others: "\<forall>c. c \<noteq> ch \<longrightarrow> rows_of c rows' = rows_of c (message_blocks db)"
    and c: "map_of (channel_table db) ch = Some c" and ok: "channel_count_ok cd N rows' ch (f c)"
    and blocked: "ch \<in> set (blocked_channels db) \<Longrightarrow> rows_of ch rows' = []"
    and cutoff: "\<And>t r. map_of (purge_cutoffs db) ch = Some t \<Longrightarrow> r \<in> set (records_of cd ch rows')
      \<Longrightarrow> t < received_at_ms r"
  shows "db_inv cd N (update_channel_row ch f (with_rows rows' db))"
proof -
  have chan: "map_of (channel_table db) (row_channel r) \<noteq> None" if "r \<in> set rows'" for r
  proof (cases "row_channel r = ch")
    case False
    then have "r \<in> set (rows_of (row_channel r) (message_blocks db))"
      using others that by (metis set_rows_of)
    then show ?thesis using db_invD(4) [OF inv] by auto
  qed (simp add: c)
  have recs: "records_of cd k rows' = records_of cd k (message_blocks db)" if "k \<noteq> ch" for k
    using others that by (simp add: records_of_def)
  have count: "channel_count_ok cd N rows' k (if k = ch then f c' else c')"
    if k: "(k, c') \<in> set (channel_table db)" for k c'
  proof (cases "k = ch")
    case True
    then have "c' = c" using k c db_invD(3) [OF inv] by simp
    then show ?thesis using ok True by simp
  next
    case False
    have "channel_count_ok cd N (message_blocks db) k c'"
      using inv k by (auto simp: db_inv_def)
    then show ?thesis
      using False others recs [OF False] by (simp add: channel_count_ok_def)
  qed
  have blk: "rows_of k rows' = []" if "k \<in> set (blocked_channels db)" for k
    using blocked others that db_invD(6) [OF inv] by (cases "k = ch") auto
  have cut: "t < received_at_ms r" if "map_of (purge_cutoffs db) k = Some t" "r \<in> set (records_of cd k rows')" for k t r
    using cutoff that recs db_invD(7) [OF inv] by (cases "k = ch") auto
  show ?thesis
    unfolding db_inv_def
  proof (intro conjI)
    show "\<forall>r \<in> set (message_blocks (update_channel_row ch f (with_rows rows' db))).
        map_of (channel_table (update_channel_row ch f (with_rows rows' db))) (row_channel r) \<noteq> None"
      using chan c by (auto simp: map_of_update_channel_row)
    show "\<forall>(k, c') \<in> set (channel_table (update_channel_row ch f (with_rows rows' db))).
        channel_count_ok cd N (message_blocks (update_channel_row ch f (with_rows rows' db))) k c'"
    proof clarify
      fix k c'
      assume "(k, c') \<in> set (channel_table (update_channel_row ch f (with_rows rows' db)))"
      then obtain c0 where "(k, c0) \<in> set (channel_table db)" "c' = (if k = ch then f c0 else c0)"
        unfolding update_channel_row_table by auto
      then show "channel_count_ok cd N
          (message_blocks (update_channel_row ch f (with_rows rows' db))) k c'"
        using count [of k c0] by simp
    qed
    show "\<forall>k t. map_of (purge_cutoffs (update_channel_row ch f (with_rows rows' db))) k = Some t \<longrightarrow>
        (\<forall>r \<in> set (records_of cd k (message_blocks (update_channel_row ch f (with_rows rows' db)))).
           t < received_at_ms r)"
      using cut by simp
  qed (use rows blk db_invD(3) [OF inv] in \<open>simp_all add: update_channel_row_table\<close>)
qed

lemma insert_or_ignore_channel_simps [simp]:
  "message_blocks (insert_or_ignore_channel ch db) = message_blocks db"
  "blocked_channels (insert_or_ignore_channel ch db) = blocked_channels db"
  "purge_cutoffs (insert_or_ignore_channel ch db) = purge_cutoffs db"
  "always_join_channels (insert_or_ignore_channel ch db) = always_join_channels db"
  "ingest_journal (insert_or_ignore_channel ch db) = ingest_journal db"
  "source_offsets (insert_or_ignore_channel ch db) = source_offsets db"
  "totals_ok (insert_or_ignore_channel ch db) = totals_ok db"
  by (simp_all add: insert_or_ignore_channel_def totals_ok_def)

lemma map_of_insert_or_ignore:
  "map_of (channel_table (insert_or_ignore_channel ch db)) k =
     (if k = ch \<and> map_of (channel_table db) k = None then Some new_channel_row
      else map_of (channel_table db) k)"
  by (auto simp: insert_or_ignore_channel_def map_add_def split: option.splits)

lemma no_channel_no_rows:
  assumes "db_inv cd N db" and "map_of (channel_table db) ch = None"
  shows "rows_of ch (message_blocks db) = []"
  using db_invD(4) [OF assms(1)] assms(2) by (fastforce simp: rows_of_def filter_empty_conv)

lemma db_inv_insert_channel:
  assumes "db_inv cd N db" and "0 \<le> N"
  shows "db_inv cd N (insert_or_ignore_channel ch db)"
proof (cases "map_of (channel_table db) ch")
  case None
  then have "ch \<notin> fst ` set (channel_table db)" by (simp add: map_of_eq_None_iff)
  moreover have "channel_count_ok cd N (message_blocks db) ch new_channel_row"
    using no_channel_no_rows [OF assms(1) None] assms(2)
    by (simp add: channel_count_ok_def new_channel_row_def records_of_def)
  ultimately show ?thesis
    using assms(1) None unfolding db_inv_def
    by (auto simp: insert_or_ignore_channel_def totals_ok_def map_add_def)
qed (use assms(1) in \<open>simp add: insert_or_ignore_channel_def\<close>)

section \<open>The outcome of an append\<close>

text \<open>
  \<open>append_outcome cfg rs held held'\<close>: what appending the records \<open>rs\<close> makes of the records \<open>held\<close>.
\<close>

definition append_outcome ::
    "sqlite_config \<Rightarrow> canonical_record list \<Rightarrow> canonical_record list \<Rightarrow> canonical_record list \<Rightarrow> bool" where
  "append_outcome cfg rs held held' \<longleftrightarrow>
     (\<exists>kept new ys. list_all2 (upgraded (set rs)) held kept \<and>
        set new \<subseteq> set rs \<and> distinct (map event_key new) \<and> kept @ new = ys @ held' \<and>
        (ys \<noteq> [] \<longrightarrow> sql_allowed cfg < length (kept @ new)) \<and>
        (new \<noteq> [] \<longrightarrow> length held' \<le> sql_allowed cfg) \<and>
        (\<forall>r \<in> set rs. represented (kept @ new) r))"

lemma append_outcome_member:
  assumes "append_outcome cfg rs held held'" and "r \<in> set held'"
  shows "r \<in> set held \<or> r \<in> set rs"
proof -
  obtain kept new ys where k: "list_all2 (upgraded (set rs)) held kept" "set new \<subseteq> set rs"
    "kept @ new = ys @ held'"
    using assms(1) unfolding append_outcome_def by blast
  have "r \<in> set kept \<or> r \<in> set new"
    using assms(2) arg_cong [OF k(3), of set] by auto
  then show ?thesis using k(1,2) upgraded_member by blast
qed

text \<open>The rows after deduplication and write-back of a batch for the channel \<open>ch\<close>.\<close>

lemma merge_write_back:
  assumes cd: "codec_ok cd" and rows: "rows_inv cd (message_blocks db)" and tot: "totals_ok db"
    and chan: "\<forall>r \<in> set rs. channel_key r = ch"
    and mb: "merge_batch cd ch rs db = Inr st"
    and wb: "write_back cd level (ms_blocks st) db = Inr db2"
  shows "\<exists>rows2. db2 = with_rows rows2 db \<and>
      list_all2 (row_upgraded cd ch (set rs)) (message_blocks db) rows2 \<and>
      (\<forall>r \<in> set rs. represented (records_of cd ch rows2 @ ms_new st) r)"
    and "set (ms_new st) \<subseteq> set rs" and "distinct (map event_key (ms_new st))"
proof -
  define ov where "ov = overlapping_rows ch (the (iter_min (map event_at_ms rs)))
      (the (iter_max (map event_at_ms rs))) (message_blocks db)"
  obtain m where m: "merged (loaded_blocks cd ov) m (set rs) st"
    using merge_batch_spec [OF rows, of ch rs] mb unfolding ov_def by (metis Inr_inject)
  then show "set (ms_new st) \<subseteq> set rs" and "distinct (map event_key (ms_new st))"
    by (simp_all add: merged_def)
  have l: "list_all2 (block_upgraded (set rs)) (loaded_blocks cd ov) (ms_blocks st)"
    using m by (simp add: merged_def)
  have dr: "distinct (map row_id (message_blocks db))" using rows by (simp add: rows_inv_def)
  have ov: "set ov \<subseteq> set (message_blocks db)" "\<forall>row \<in> set ov. row_channel row = ch"
    by (auto simp: ov_def overlapping_rows_def)
  have "distinct (message_blocks db)" using dr by (simp add: distinct_map)
  then have "distinct ov" by (simp add: ov_def overlapping_rows_def)
  then have dov: "distinct (map row_id ov)"
    using dr ov(1) by (auto simp: distinct_map intro: inj_on_subset)
  have ids: "distinct (map fst (ms_blocks st))"
    using block_upgraded_ids [OF l] dov by simp
  have chans: "\<forall>(i, recs, d) \<in> set (ms_blocks st). \<forall>r \<in> set recs. \<forall>row \<in> set (message_blocks db).
      row_id row = i \<longrightarrow> channel_key r = row_channel row"
  proof (clarify)
    fix row recs d r
    assume b: "(row_id row, recs, d) \<in> set (ms_blocks st)" "r \<in> set recs" "row \<in> set (message_blocks db)"
    have "row_id row \<in> fst ` set (ms_blocks st)" using b(1) by force
    then have "row_id row \<in> row_id ` set ov"
      using arg_cong [OF block_upgraded_ids [OF l], of set] by simp
    then have row: "row \<in> set ov"
      using ov(1) b(3) dr by (auto simp: distinct_map dest: inj_onD)
    have "list_all2 (upgraded (set rs)) (row_records cd row) recs"
      using block_of_row [OF l dov b(1) row refl] by simp
    then have "r \<in> set (row_records cd row) \<or> r \<in> set rs" using b(2) by (rule upgraded_member)
    moreover have "row_good cd row" using rows b(3) by (simp add: rows_inv_def)
    ultimately show "channel_key r = row_channel row"
      using chan ov(2) row row_goodD(3) by auto
  qed
  have goods: "\<forall>row \<in> set (message_blocks db). row_good cd row" using rows by (simp add: rows_inv_def)
  obtain rows2 where r2: "db2 = with_rows rows2 db"
    and rw: "list_all2 (rewritten cd (ms_blocks st)) (message_blocks db) rows2"
    using write_back_spec [OF cd wb tot ids chans goods] by blast
  have up: "list_all2 (row_upgraded cd ch (set rs)) (message_blocks db) rows2"
    by (rule list.rel_mono_strong [OF rw]) (rule rewritten_upgraded [OF l dr ov(1) dov ov(2)])
  have "represented (records_of cd ch rows2 @ ms_new st) r" if "r \<in> set rs" for r
  proof (rule represented_mono)
    show "represented (state_records st) r" using m that by (simp add: merged_def)
    show "set (state_records st) \<subseteq> set (records_of cd ch rows2 @ ms_new st)"
      using rewritten_member [OF l ov(1) dov ov(2) rw] by (auto simp: state_records_def)
  qed
  with r2 up show "\<exists>rows2. db2 = with_rows rows2 db \<and>
      list_all2 (row_upgraded cd ch (set rs)) (message_blocks db) rows2 \<and>
      (\<forall>r \<in> set rs. represented (records_of cd ch rows2 @ ms_new st) r)"
    by blast
qed

text \<open>Everything but the channel table, the blocks and the totals is as before.\<close>

definition other_tables_same :: "sqlite_db \<Rightarrow> sqlite_db \<Rightarrow> bool" where
  "other_tables_same db db' \<longleftrightarrow>
     blocked_channels db' = blocked_channels db \<and> purge_cutoffs db' = purge_cutoffs db \<and>
     always_join_channels db' = always_join_channels db \<and>
     ingest_journal db' = ingest_journal db \<and> source_offsets db' = source_offsets db"

lemma other_tables_same_refl [simp]: "other_tables_same db db"
  by (simp add: other_tables_same_def)

definition allowed_i64 :: "sqlite_config \<Rightarrow> int" where
  "allowed_i64 cfg = i64_try_from_or_max (sql_allowed cfg)"

lemma allowed_i64_nonneg: "0 \<le> allowed_i64 cfg"
  by (simp add: allowed_i64_def int_defs)

lemma allowed_i64_le: "int n \<le> allowed_i64 cfg \<Longrightarrow> n \<le> sql_allowed cfg"
  by (auto simp: allowed_i64_def int_defs split: if_splits)

lemma allowed_i64_less: "allowed_i64 cfg < int n \<Longrightarrow> int n \<le> i64_max \<Longrightarrow> sql_allowed cfg < n"
  by (auto simp: allowed_i64_def int_defs split: if_splits)

text \<open>Inserting the new records and evicting, on a database whose rows were just rewritten.\<close>

lemma insert_and_evict:
  assumes cd: "codec_ok cd" and rows: "rows_inv cd (message_blocks db)" and tot: "totals_ok db"
    and ex: "map_of (channel_table db) ch \<noteq> None"
    and seq: "\<forall>r \<in> set (rows_of ch (message_blocks db)). block_sequence r < seq"
    and new: "\<forall>r \<in> set new. channel_key r = ch" and bm: "0 < bm"
    and held: "retained = int (length (records_of cd ch (message_blocks db)))"
    and fits: "retained + int (length new) \<le> i64_max"
    and ins: "insert_chunks cd level ch (chunks bm new) seq retained db = Inr (seq', retained', db3)"
    and ev: "evict_oldest (allowed_i64 cfg) ch retained' db3 = (retained2, db4)"
  shows "\<exists>rows4 ys. db4 = with_rows rows4 db \<and> rows_inv cd rows4 \<and>
    (\<forall>c. c \<noteq> ch \<longrightarrow> rows_of c rows4 = rows_of c (message_blocks db)) \<and>
    (\<forall>r \<in> set (rows_of ch rows4). block_sequence r < seq') \<and>
    retained2 = int (length (records_of cd ch rows4)) \<and>
    records_of cd ch (message_blocks db) @ new = ys @ records_of cd ch rows4 \<and>
    int (length (records_of cd ch rows4)) \<le> allowed_i64 cfg \<and>
    (ys \<noteq> [] \<longrightarrow> sql_allowed cfg < length (records_of cd ch (message_blocks db) @ new))"
proof -
  let ?rows = "message_blocks db"
  have cc: "concat (chunks bm new) = new" by (rule concat_chunks [OF bm])
  obtain rows' where ap: "appended cd ch seq (chunks bm new) rows'" "rows_inv cd (?rows @ rows')"
    and db3: "db3 = with_rows (?rows @ rows') db" "seq' = seq + int (length (chunks bm new))"
      "retained' = retained + int (length new)"
    using insert_chunks_spec [OF cd tot ex seq, of "chunks bm new" level retained] new rows ins
    by (auto simp: cc)
  have chan': "\<forall>row \<in> set rows'. row_channel row = ch" using ap(1) by (simp add: appended_def)
  then have ro: "rows_of ch rows' = rows'" "\<And>c. c \<noteq> ch \<Longrightarrow> rows_of c rows' = []"
    by (auto simp: rows_of_def filter_empty_conv)
  then have new': "records_of cd ch rows' = new"
    using ap(1) cc by (simp add: records_of_def appended_def)
  let ?held = "records_of cd ch ?rows @ new"
  have len: "retained' = int (length (records_of cd ch (message_blocks db3)))"
    by (simp add: db3 held new')
  have "\<exists>rows4. evict_oldest (allowed_i64 cfg) ch retained' db3 =
      (int (length (records_of cd ch rows4)), with_rows rows4 db3) \<and>
    front_evicted cd ch (message_blocks db3) rows4 \<and>
    int (length (records_of cd ch rows4)) \<le> allowed_i64 cfg \<and>
    (retained' \<le> allowed_i64 cfg \<longrightarrow> rows4 = message_blocks db3)"
    by (rule evict_oldest_spec) (use ap(2) len fits db3 allowed_i64_nonneg in simp_all)
  then obtain rows4 where r4: "db4 = with_rows rows4 db" "retained2 = int (length (records_of cd ch rows4))"
    and fe: "front_evicted cd ch (?rows @ rows') rows4"
    and le: "int (length (records_of cd ch rows4)) \<le> allowed_i64 cfg"
    and stay: "retained' \<le> allowed_i64 cfg \<longrightarrow> rows4 = ?rows @ rows'"
    using ev by (auto simp: db3)
  obtain ys P where ys: "records_of cd ch (?rows @ rows') = ys @ records_of cd ch rows4"
    and P: "rows4 = filter P (?rows @ rows')"
    and others: "\<forall>c. c \<noteq> ch \<longrightarrow> rows_of c rows4 = rows_of c (?rows @ rows')"
    using fe by (auto simp: front_evicted_def)
  have "rows_inv cd rows4" unfolding P by (rule rows_inv_filter [OF ap(2)])
  moreover have "\<forall>r \<in> set (rows_of ch rows4). block_sequence r < seq'"
  proof
    fix r assume "r \<in> set (rows_of ch rows4)"
    then have "r \<in> set (rows_of ch ?rows) \<or> r \<in> set rows'" by (auto simp: P)
    then show "block_sequence r < seq'"
      using seq ap(1) by (fastforce simp: db3 appended_def)
  qed
  moreover have "ys \<noteq> [] \<longrightarrow> sql_allowed cfg < length ?held"
  proof
    assume "ys \<noteq> []"
    then have "rows4 \<noteq> ?rows @ rows'" using ys by auto
    then have "allowed_i64 cfg < retained'" using stay by linarith
    then have "allowed_i64 cfg < int (length ?held)" by (simp add: db3 held)
    then show "sql_allowed cfg < length ?held"
      by (rule allowed_i64_less) (use fits held in simp)
  qed
  ultimately show ?thesis
    using r4 le ys others ro(2) new'
    by (intro exI [of _ rows4] exI [of _ ys]) (simp del: length_append)
qed

lemma insert_chunks_error:
  assumes "codec_ok cd" and "totals_ok db" and "map_of (channel_table db) ch \<noteq> None"
    and "\<forall>r \<in> set (rows_of ch (message_blocks db)). block_sequence r < seq"
    and "\<forall>r \<in> set (concat cs). channel_key r = ch" and "rows_inv cd (message_blocks db)"
    and "insert_chunks cd level ch cs seq retained db = Inl e"
  shows "\<exists>be. e = Block be"
  using insert_chunks_spec [OF assms(1-6), of level retained] assms(7) by auto

definition append_result ::
    "codec \<Rightarrow> sqlite_config \<Rightarrow> int \<Rightarrow> string \<Rightarrow> canonical_record list \<Rightarrow> sqlite_db \<Rightarrow> sqlite_db \<Rightarrow> bool" where
  "append_result cd cfg N ch batch db db' \<longleftrightarrow>
     db_inv cd N db' \<and> other_tables_same db db' \<and>
     (\<forall>c. c \<noteq> ch \<longrightarrow> sql_retained cd db' c = sql_retained cd db c) \<and>
     (if ch \<in> set (blocked_channels db) \<or> after_cutoff db ch batch = [] then db' = db
      else append_outcome cfg (after_cutoff db ch batch) (sql_retained cd db ch) (sql_retained cd db' ch))"

lemma after_cutoff_sub: "set (after_cutoff db ch batch) \<subseteq> set batch"
  by (auto simp: after_cutoff_def split: option.splits)

lemma after_cutoff_newer:
  "map_of (purge_cutoffs db) ch = Some t \<Longrightarrow> r \<in> set (after_cutoff db ch batch) \<Longrightarrow> t < received_at_ms r"
  by (simp add: after_cutoff_def)

lemma length_after_cutoff: "length (after_cutoff db ch batch) \<le> length batch"
  by (simp add: after_cutoff_def split: option.splits)

lemma length_distinct_keys:
  "distinct (map f xs) \<Longrightarrow> set xs \<subseteq> set ys \<Longrightarrow> length xs \<le> length ys"
  by (metis card_mono distinct_card distinct_map card_length order_trans List.finite_set)

lemma append_transaction_rows:
  assumes cd: "codec_ok cd" and cfg: "config_ok cfg" and inv: "db_inv cd N db"
    and N: "allowed_i64 cfg \<le> N" "N + int (length batch) \<le> i64_max"
    and chan: "\<forall>r \<in> set batch. channel_key r = ch" and free: "ch \<notin> set (blocked_channels db)"
    and ne: "after_cutoff db ch batch \<noteq> []"
    and ap: "append_transaction cd cfg ch batch db = Inr db'"
  shows "\<exists>rows' f c. db' = update_channel_row ch f (with_rows rows' (insert_or_ignore_channel ch db)) \<and>
    rows_inv cd rows' \<and> (\<forall>c. c \<noteq> ch \<longrightarrow> rows_of c rows' = rows_of c (message_blocks db)) \<and>
    map_of (channel_table (insert_or_ignore_channel ch db)) ch = Some c \<and>
    channel_count_ok cd N rows' ch (f c) \<and>
    append_outcome cfg (after_cutoff db ch batch) (sql_retained cd db ch) (records_of cd ch rows')"
proof -
  let ?rs = "after_cutoff db ch batch" and ?db1 = "insert_or_ignore_channel ch db"
  have N0: "0 \<le> N" using N(1) allowed_i64_nonneg [of cfg] by simp
  have inv1: "db_inv cd N ?db1" by (rule db_inv_insert_channel [OF inv N0])
  have chan1: "\<forall>r \<in> set ?rs. channel_key r = ch" using chan after_cutoff_sub by blast
  obtain c where c: "map_of (channel_table ?db1) ch = Some c"
    by (cases "map_of (channel_table db) ch") (simp_all add: map_of_insert_or_ignore)
  obtain st db2 where st: "merge_batch cd ch ?rs ?db1 = Inr st"
    and wb: "write_back cd (sc_compression_level cfg) (ms_blocks st) ?db1 = Inr db2"
    using ap free ne by (auto simp: append_transaction_def Let_def)
  note mw = merge_write_back [OF cd db_invD(1) [OF inv1] db_invD(2) [OF inv1] chan1 st wb]
  obtain rows2 where db2: "db2 = with_rows rows2 ?db1"
    and up: "list_all2 (row_upgraded cd ch (set ?rs)) (message_blocks db) rows2"
    and rep: "\<forall>r \<in> set ?rs. represented (records_of cd ch rows2 @ ms_new st) r"
    using mw(1) by auto
  have rinv2: "rows_inv cd rows2" by (rule upgraded_rows_inv [OF up db_invD(1) [OF inv]])
  have others2: "\<forall>c. c \<noteq> ch \<longrightarrow> rows_of c rows2 = rows_of c (message_blocks db)"
    using upgraded_rows_other [OF up] by blast
  have kept: "list_all2 (upgraded (set ?rs)) (sql_retained cd db ch) (records_of cd ch rows2)"
    unfolding sql_retained_def by (rule upgraded_rows_records [OF up])
  have cc: "channel_count_ok cd N (message_blocks db) ch c"
    using db_invD(5) [OF inv1 c] by simp
  have seqs: "\<forall>r \<in> set (rows_of ch rows2). block_sequence r < next_block_sequence c"
    using upgraded_rows_sequence [OF up, of ch] cc unfolding channel_count_ok_def by blast
  have len2: "length (records_of cd ch rows2) = length (sql_retained cd db ch)"
    using list_all2_lengthD [OF kept] by simp
  have ret: "retained_messages c = int (length (records_of cd ch rows2))" "retained_messages c \<le> N"
    using cc len2 by (simp_all add: channel_count_ok_def sql_retained_def)
  show ?thesis
  proof (cases "ms_new st = []")
    case True
    have "db' = update_channel_row ch (\<lambda>c. c) (with_rows rows2 ?db1)"
      using ap free ne st wb True by (simp add: append_transaction_def Let_def db2)
    moreover have "channel_count_ok cd N rows2 ch c"
      using ret seqs by (simp add: channel_count_ok_def)
    moreover have "append_outcome cfg ?rs (sql_retained cd db ch) (records_of cd ch rows2)"
      unfolding append_outcome_def using kept rep True
      by (intro exI [of _ "records_of cd ch rows2"] exI [of _ "[]"]) simp
    ultimately show ?thesis using rinv2 others2 c by blast
  next
    case False
    obtain seq' retained' db3 where ins:
      "insert_chunks cd (sc_compression_level cfg) ch (chunks (sc_block_messages cfg) (ms_new st))
         (next_block_sequence c) (retained_messages c) (with_rows rows2 ?db1) = Inr (seq', retained', db3)"
      using ap free ne st wb False c by (auto simp: append_transaction_def Let_def db2)
    obtain retained2 db4 where ev: "evict_oldest (allowed_i64 cfg) ch retained' db3 = (retained2, db4)"
      by fastforce
    let ?f = "\<lambda>c. c\<lparr>next_block_sequence := seq', retained_messages := retained2\<rparr>"
    have db': "db' = update_channel_row ch ?f db4"
      using ap free ne st wb False c ins ev
      by (simp add: append_transaction_def Let_def db2 allowed_i64_def)
    have new_chan: "\<forall>r \<in> set (ms_new st). channel_key r = ch" using mw(2) chan1 by blast
    have "length (ms_new st) \<le> length batch"
      using length_distinct_keys [OF mw(3,2)] length_after_cutoff [of db ch batch] by simp
    then have fits: "retained_messages c + int (length (ms_new st)) \<le> i64_max"
      using ret(2) N(2) by linarith
    have "\<exists>rows4 ys. db4 = with_rows rows4 (with_rows rows2 ?db1) \<and> rows_inv cd rows4 \<and>
      (\<forall>c. c \<noteq> ch \<longrightarrow> rows_of c rows4 = rows_of c (message_blocks (with_rows rows2 ?db1))) \<and>
      (\<forall>r \<in> set (rows_of ch rows4). block_sequence r < seq') \<and>
      retained2 = int (length (records_of cd ch rows4)) \<and>
      records_of cd ch (message_blocks (with_rows rows2 ?db1)) @ ms_new st = ys @ records_of cd ch rows4 \<and>
      int (length (records_of cd ch rows4)) \<le> allowed_i64 cfg \<and>
      (ys \<noteq> [] \<longrightarrow> sql_allowed cfg <
         length (records_of cd ch (message_blocks (with_rows rows2 ?db1)) @ ms_new st))"
      by (rule insert_and_evict [OF cd _ _ _ _ new_chan _ _ fits ins ev])
         (use rinv2 c seqs ret cfg in \<open>simp_all add: config_ok_def\<close>)
    then obtain rows4 ys where r4: "db4 = with_rows rows4 ?db1" "rows_inv cd rows4"
        "\<forall>c. c \<noteq> ch \<longrightarrow> rows_of c rows4 = rows_of c (message_blocks db)"
        "\<forall>r \<in> set (rows_of ch rows4). block_sequence r < seq'"
        "retained2 = int (length (records_of cd ch rows4))"
        "records_of cd ch rows2 @ ms_new st = ys @ records_of cd ch rows4"
        "int (length (records_of cd ch rows4)) \<le> allowed_i64 cfg"
        "ys \<noteq> [] \<longrightarrow> sql_allowed cfg < length (records_of cd ch rows2 @ ms_new st)"
      using others2 by (auto simp del: length_append)
    have "channel_count_ok cd N rows4 ch (?f c)"
      using r4 N(1) by (simp add: channel_count_ok_def)
    moreover have "append_outcome cfg ?rs (sql_retained cd db ch) (records_of cd ch rows4)"
      unfolding append_outcome_def using kept rep mw(2,3) r4(6,8) allowed_i64_le [OF r4(7)]
      by (intro exI [of _ "records_of cd ch rows2"] exI [of _ "ms_new st"] exI [of _ ys])
         (simp del: length_append)
    ultimately show ?thesis using db' r4(1-3) c by blast
  qed
qed

lemma other_tables_same_step:
  "other_tables_same db (update_channel_row ch f (with_rows rows' (insert_or_ignore_channel ch db)))"
  by (simp add: other_tables_same_def)

lemma append_transaction_spec:
  assumes cd: "codec_ok cd" and cfg: "config_ok cfg" and inv: "db_inv cd N db"
    and N: "allowed_i64 cfg \<le> N" "N + int (length batch) \<le> i64_max"
    and chan: "\<forall>r \<in> set batch. channel_key r = ch"
    and ap: "append_transaction cd cfg ch batch db = Inr db'"
  shows "append_result cd cfg N ch batch db db'"
proof (cases "ch \<in> set (blocked_channels db) \<or> after_cutoff db ch batch = []")
  case True
  then have "db' = db"
    using ap by (elim disjE) (simp_all add: append_transaction_def Let_def split: if_splits)
  then show ?thesis using inv True by (simp add: append_result_def)
next
  case False
  let ?rs = "after_cutoff db ch batch" and ?db1 = "insert_or_ignore_channel ch db"
  obtain rows' f c where db': "db' = update_channel_row ch f (with_rows rows' ?db1)"
    and rows: "rows_inv cd rows'" "\<forall>c. c \<noteq> ch \<longrightarrow> rows_of c rows' = rows_of c (message_blocks db)"
    and c: "map_of (channel_table ?db1) ch = Some c" "channel_count_ok cd N rows' ch (f c)"
    and out: "append_outcome cfg ?rs (sql_retained cd db ch) (records_of cd ch rows')"
    using append_transaction_rows [OF cd cfg inv N chan _ _ ap] False by auto
  have N0: "0 \<le> N" using N(1) allowed_i64_nonneg [of cfg] by simp
  have newer: "t < received_at_ms r"
    if "map_of (purge_cutoffs db) ch = Some t" "r \<in> set (records_of cd ch rows')" for t r
    using append_outcome_member [OF out that(2)] that(1) after_cutoff_newer
      db_invD(7) [OF inv that(1)] by (auto simp: sql_retained_def)
  have "db_inv cd N db'"
    unfolding db' by (rule db_inv_step [OF db_inv_insert_channel [OF inv N0]])
      (use rows c newer False in simp_all)
  moreover have "sql_retained cd db' ch = records_of cd ch rows'"
    "\<forall>c. c \<noteq> ch \<longrightarrow> sql_retained cd db' c = sql_retained cd db c"
    using rows(2) by (simp_all add: db' sql_retained_def records_of_def)
  ultimately show ?thesis
    using False out other_tables_same_step by (simp add: append_result_def db')
qed

text \<open>The only errors of an append are those of the block codec.\<close>

lemma append_transaction_error:
  assumes cd: "codec_ok cd" and cfg: "config_ok cfg" and inv: "db_inv cd N db" and N0: "0 \<le> N"
    and chan: "\<forall>r \<in> set batch. channel_key r = ch"
    and ap: "append_transaction cd cfg ch batch db = Inl e"
  shows "\<exists>be. e = Block be"
proof -
  let ?rs = "after_cutoff db ch batch" and ?db1 = "insert_or_ignore_channel ch db"
  have free: "ch \<notin> set (blocked_channels db)" and ne: "?rs \<noteq> []"
    using ap by (auto simp: append_transaction_def Let_def split: if_splits)
  have inv1: "db_inv cd N ?db1" by (rule db_inv_insert_channel [OF inv N0])
  have chan1: "\<forall>r \<in> set ?rs. channel_key r = ch" using chan after_cutoff_sub by blast
  obtain c where c: "map_of (channel_table ?db1) ch = Some c"
    by (cases "map_of (channel_table db) ch") (simp_all add: map_of_insert_or_ignore)
  obtain st where st: "merge_batch cd ch ?rs ?db1 = Inr st"
    using merge_batch_spec [OF db_invD(1) [OF inv1]] by metis
  show ?thesis
  proof (cases "write_back cd (sc_compression_level cfg) (ms_blocks st) ?db1")
    case (Inl e')
    then have "e = e'" using ap free ne st by (simp add: append_transaction_def Let_def)
    then show ?thesis using write_back_error [OF Inl] by simp
  next
    case (Inr db2)
    note mw = merge_write_back [OF cd db_invD(1) [OF inv1] db_invD(2) [OF inv1] chan1 st Inr]
    obtain rows2 where db2: "db2 = with_rows rows2 ?db1"
      and up: "list_all2 (row_upgraded cd ch (set ?rs)) (message_blocks db) rows2"
      using mw(1) by auto
    have "channel_count_ok cd N (message_blocks db) ch c" using db_invD(5) [OF inv1 c] by simp
    then have seqs: "\<forall>r \<in> set (rows_of ch rows2). block_sequence r < next_block_sequence c"
      using upgraded_rows_sequence [OF up, of ch] unfolding channel_count_ok_def by blast
    have ins: "insert_chunks cd (sc_compression_level cfg) ch (chunks (sc_block_messages cfg) (ms_new st))
         (next_block_sequence c) (retained_messages c) (with_rows rows2 ?db1) = Inl e"
      using ap free ne st Inr c
      by (auto simp: append_transaction_def Let_def db2 and_then_Inl split: if_splits prod.splits)
    show ?thesis
      by (rule insert_chunks_error [OF cd _ _ _ _ _ ins])
         (use c seqs mw(2) chan1 cfg upgraded_rows_inv [OF up] db_invD(1) [OF inv]
           in \<open>auto simp: concat_chunks config_ok_def\<close>)
  qed
qed

end
