(* ===== verification/SqliteStore.thy ===== *)
theory SqliteStore
  imports SqliteAppendSpec
begin

text \<open>
  The other operations of \<^verbatim>\<open>src/storage/sqlite.rs\<close> on blocks and channels: queries and statistics,
  request touches, eviction by id, expiry, purges, and the two channel lists. Each operation keeps
  the database invariant; what it removes and what it leaves is stated with it.
\<close>

section \<open>Reading\<close>

definition read_row :: "codec \<Rightarrow> string \<Rightarrow> block_row \<Rightarrow> store_error + canonical_record list" where
  "read_row cd ch row = and_then (decode_row ch row) (\<lambda>b. map_err Block (decode cd b))"

definition sql_query :: "codec \<Rightarrow> sqlite_db \<Rightarrow> query_request \<Rightarrow> store_error + local_result" where
  "sql_query cd db request =
     (if limit request = 0 then Inl InvalidLimit
      else and_then
        (collect_results (read_row cd (qr_channel_key request))
           (sort_key block_sequence
             (filter (\<lambda>r. row_channel r = qr_channel_key request) (message_blocks db))))
        (\<lambda>recordss. Inr (answer_query request (concat recordss))))"

definition sql_stats :: "sqlite_db \<Rightarrow> store_error + store_stats" where
  "sql_stats db =
     (let t = store_totals db
      in if total_blocks t < 0 \<or> total_messages t < 0 \<or> total_compressed_bytes t < 0 \<or>
            total_uncompressed_bytes t < 0
         then Inl range_error
         else Inr \<lparr>st_channels = length (channel_table db),
                   st_blocks = nat (total_blocks t), st_messages = nat (total_messages t),
                   st_compressed_bytes = nat (total_compressed_bytes t),
                   st_uncompressed_bytes = nat (total_uncompressed_bytes t)\<rparr>)"

section \<open>Writing\<close>

definition i64_arg :: "nat \<Rightarrow> store_error + int" where
  "i64_arg n = ok_or range_error (i64_try_from n)"

text \<open>The upsert changes a row when it inserts one or when the old request is stale.\<close>

definition touch_channel_requested ::
    "string \<Rightarrow> nat \<Rightarrow> nat \<Rightarrow> sqlite_db \<Rightarrow> (store_error + bool) \<times> sqlite_db" where
  "touch_channel_requested ch requested_at coalesce_before db =
     (case and_then (i64_arg requested_at) (\<lambda>r. and_then (i64_arg coalesce_before) (\<lambda>c. Inr (r, c))) of
        Inl e \<Rightarrow> (Inl e, db)
      | Inr (requested, coalesce) \<Rightarrow>
          (case map_of (channel_table db) ch of
             None \<Rightarrow> (Inr True, db\<lparr>channel_table := channel_table db @
                [(ch, new_channel_row\<lparr>last_requested_at_ms := requested\<rparr>)]\<rparr>)
           | Some c \<Rightarrow>
               if last_requested_at_ms c < coalesce
               then (Inr True, update_channel_row ch (\<lambda>c. c\<lparr>last_requested_at_ms := requested\<rparr>) db)
               else (Inr False, db)))"

text \<open>\<open>SELECT channel_key, message_count FROM message_blocks WHERE id = ?1\<close> and the two statements after it.\<close>

definition evict_block_id :: "int \<Rightarrow> sqlite_db \<Rightarrow> nat \<times> sqlite_db" where
  "evict_block_id i db =
     (case filter (\<lambda>r. row_id r = i) (message_blocks db) of
        [] \<Rightarrow> (0, db)
      | row # rest \<Rightarrow>
          (length (row # rest),
           update_channel_row (row_channel row) (reduce_retained (row_message_count row))
             (delete_block_rows (\<lambda>r. row_id r = i) db)))"

fun evict_ids :: "nat list \<Rightarrow> nat \<Rightarrow> sqlite_db \<Rightarrow> store_error + nat \<times> sqlite_db" where
  "evict_ids [] deleted db = Inr (deleted, db)"
| "evict_ids (i # ids) deleted db =
     and_then (i64_arg i) (\<lambda>i'. case evict_block_id i' db of (n, db') \<Rightarrow> evict_ids ids (deleted + n) db')"

definition evict_block_ids :: "nat list \<Rightarrow> sqlite_db \<Rightarrow> (store_error + nat) \<times> sqlite_db" where
  "evict_block_ids ids db = (if ids = [] then (Inr 0, db) else transaction (evict_ids ids 0) db)"

definition expiry_batch_blocks :: nat where
  "expiry_batch_blocks = 1024"

definition expired_rows :: "int \<Rightarrow> block_row list \<Rightarrow> block_row list" where
  "expired_rows cutoff rows = take expiry_batch_blocks
     (sort_key (\<lambda>r. (row_last_event_at_ms r, row_id r))
       (filter (\<lambda>r. row_last_event_at_ms r < cutoff) rows))"

fun expire_rows :: "block_row list \<Rightarrow> nat \<Rightarrow> sqlite_db \<Rightarrow> store_error + nat \<times> sqlite_db" where
  "expire_rows [] messages db = Inr (messages, db)"
| "expire_rows (row # rest) messages db =
     (if row_message_count row < 0 then Inl range_error
      else expire_rows rest (u64_saturating_add messages (nat (row_message_count row)))
        (update_channel_row (row_channel row) (reduce_retained (row_message_count row))
          (delete_block_rows (\<lambda>r. row_id r = row_id row) db)))"

definition idle_channel :: "int \<Rightarrow> string \<Rightarrow> channel_row \<Rightarrow> bool" where
  "idle_channel cutoff ch c \<longleftrightarrow> retained_messages c = 0 \<and>
     (last_requested_at_ms c = 0 \<or> last_requested_at_ms c < cutoff)"

text \<open>
  The loop of \<open>expire_blocks_before\<close>, one transaction per turn; a failed turn rolls back its own
  transaction only. \<open>nb\<close> and \<open>messages\<close> are the counters of \<open>ExpireStats\<close>.
\<close>

lemma expire_rows_shrinks:
  "expire_rows ex m db = Inr (m', db') \<Longrightarrow>
     message_blocks db' = filter (\<lambda>r. row_id r \<notin> row_id ` set ex) (message_blocks db)"
  by (induction ex arbitrary: m db)
     (auto simp: delete_block_rows_def update_channel_row_def conj_commute intro!: filter_cong
       split: if_splits)

lemma expired_in_table: "row \<in> set (expired_rows cutoff rows) \<Longrightarrow> row \<in> set rows"
  by (auto simp: expired_rows_def dest: in_set_takeD)

function expire_blocks_before ::
    "int \<Rightarrow> nat \<Rightarrow> nat \<Rightarrow> sqlite_db \<Rightarrow> (store_error + nat \<times> nat) \<times> sqlite_db" where
  "expire_blocks_before cutoff nb messages db =
     (case expired_rows cutoff (message_blocks db) of
        [] \<Rightarrow> (Inr (nb, messages), delete_channel_rows (idle_channel cutoff) db)
      | row # rest \<Rightarrow>
          (case expire_rows (row # rest) messages db of
             Inl e \<Rightarrow> (Inl e, db)
           | Inr (messages', db') \<Rightarrow>
               expire_blocks_before cutoff (u64_saturating_add nb (length (row # rest)))
                 messages' db'))"
  by pat_completeness auto
termination
proof (relation "measure (\<lambda>(cutoff, nb, messages, db). length (message_blocks db))")
  fix cutoff nb messages db row rest y messages' db'
  assume e: "expired_rows cutoff (message_blocks db) = row # rest"
    and x: "expire_rows (row # rest) messages db = Inr y" "(messages', db') = y"
  have "row \<in> set (message_blocks db)"
    using expired_in_table [of row cutoff "message_blocks db"] e by simp
  then have "length (message_blocks db') < length (message_blocks db)"
    using expire_rows_shrinks [of "row # rest" messages db messages' db'] x
    by (metis (mono_tags, lifting) imageI length_filter_less list.set_intros(1))
  then show "((cutoff, u64_saturating_add nb (length (row # rest)), messages', db'), cutoff, nb,
      messages, db) \<in> measure (\<lambda>(cutoff, nb, messages, db). length (message_blocks db))"
    by simp
qed simp

declare expire_blocks_before.simps [simp del]

text \<open>The two \<open>DELETE\<close> statements that remove a channel.\<close>

definition drop_channel :: "string \<Rightarrow> sqlite_db \<Rightarrow> sqlite_db" where
  "drop_channel ch db =
     delete_channel_rows (\<lambda>k c. k = ch) (delete_block_rows (\<lambda>r. row_channel r = ch) db)"

definition channel_block_count :: "string \<Rightarrow> sqlite_db \<Rightarrow> nat" where
  "channel_block_count ch db = length (filter (\<lambda>r. row_channel r = ch) (message_blocks db))"

definition purge_channel :: "string \<Rightarrow> int \<Rightarrow> sqlite_db \<Rightarrow> (store_error + nat) \<times> sqlite_db" where
  "purge_channel ch received_at db =
     (let cutoff = (case map_of (purge_cutoffs db) ch of None \<Rightarrow> received_at
                    | Some t \<Rightarrow> max t received_at)
      in (Inr (channel_block_count ch db),
          drop_channel ch (db\<lparr>purge_cutoffs := AList.update ch cutoff (purge_cutoffs db)\<rparr>)))"

definition set_channel_blocked :: "string \<Rightarrow> bool \<Rightarrow> sqlite_db \<Rightarrow> (store_error + nat) \<times> sqlite_db" where
  "set_channel_blocked ch blocked db =
     (if blocked
      then (Inr (channel_block_count ch db),
            drop_channel ch (db\<lparr>blocked_channels :=
              (if ch \<in> set (blocked_channels db) then blocked_channels db
               else blocked_channels db @ [ch])\<rparr>))
      else (Inr 0, db\<lparr>blocked_channels := filter (\<lambda>c. c \<noteq> ch) (blocked_channels db)\<rparr>))"

fun insert_blocked :: "string list \<Rightarrow> sqlite_db \<Rightarrow> store_error + sqlite_db" where
  "insert_blocked [] db = Inr db"
| "insert_blocked (ch # chs) db =
     (if ch \<in> set (blocked_channels db)
      then Inl (Backend ''UNIQUE constraint failed: blocked_channels.channel_key'')
      else insert_blocked chs
        (drop_channel ch (db\<lparr>blocked_channels := blocked_channels db @ [ch]\<rparr>)))"

definition sync_blocked_channels :: "string list \<Rightarrow> sqlite_db \<Rightarrow> (store_error + unit) \<times> sqlite_db" where
  "sync_blocked_channels chs = transaction (\<lambda>db.
     and_then (insert_blocked chs (db\<lparr>blocked_channels := []\<rparr>)) (\<lambda>db'. Inr ((), db')))"

fun insert_always_join :: "string list \<Rightarrow> sqlite_db \<Rightarrow> store_error + sqlite_db" where
  "insert_always_join [] db = Inr db"
| "insert_always_join (ch # chs) db =
     (if ch \<in> set (always_join_channels db)
      then Inl (Backend ''UNIQUE constraint failed: always_join_channels.channel_key'')
      else insert_always_join chs (db\<lparr>always_join_channels := always_join_channels db @ [ch]\<rparr>))"

definition sync_always_join_channels ::
    "string list \<Rightarrow> sqlite_db \<Rightarrow> (store_error + unit) \<times> sqlite_db" where
  "sync_always_join_channels chs = transaction (\<lambda>db.
     and_then (insert_always_join chs (db\<lparr>always_join_channels := []\<rparr>)) (\<lambda>db'. Inr ((), db')))"

section \<open>Queries answer what is retained\<close>

lemma read_row_good: "row_good cd row \<Longrightarrow> row_channel row = ch \<Longrightarrow> read_row cd ch row = Inr (row_records cd row)"
  using row_good_decode [of cd row ch] by (auto simp: read_row_def)

lemma sql_query_answer:
  assumes "db_inv cd N db" and "limit q \<noteq> 0"
  shows "sql_query cd db q = Inr (answer_query q (sql_retained cd db (qr_channel_key q)))"
proof -
  let ?ch = "qr_channel_key q" and ?rows = "message_blocks db"
  have inv: "rows_inv cd ?rows" by (rule db_invD(1) [OF assms(1)])
  have s: "sort_key block_sequence (filter (\<lambda>r. row_channel r = ?ch) ?rows) = rows_of ?ch ?rows"
    using rows_inv_sort [OF inv, of ?ch] by (simp add: rows_of_def)
  have "collect_results (read_row cd ?ch) (rows_of ?ch ?rows) = Inr (map (row_records cd) (rows_of ?ch ?rows))"
    by (rule collect_results_map) (use inv in \<open>auto simp: rows_inv_def intro: read_row_good\<close>)
  then show ?thesis
    using assms(2) by (simp add: sql_query_def s sql_retained_def records_of_def)
qed

lemma sql_retained_channel: "db_inv cd N db \<Longrightarrow> r \<in> set (sql_retained cd db ch) \<Longrightarrow> channel_key r = ch"
  using row_goodD(3) db_invD(1) [of cd N db]
  by (fastforce simp: sql_retained_def records_of_def rows_inv_def)

lemma sql_stats_spec:
  assumes "db_inv cd N db"
  shows "sql_stats db = Inr \<lparr>st_channels = length (channel_table db),
    st_blocks = length (message_blocks db),
    st_messages = length (concat (map (row_records cd) (message_blocks db))),
    st_compressed_bytes = sum_list (map (\<lambda>r. length (row_payload r)) (message_blocks db)),
    st_uncompressed_bytes = sum_list (map (\<lambda>r. nat (row_uncompressed_bytes r)) (message_blocks db))\<rparr>"
proof -
  let ?rows = "message_blocks db"
  have inv: "rows_inv cd ?rows" and t: "store_totals db = row_totals ?rows"
    using assms by (simp_all add: db_inv_def totals_ok_def)
  have nn: "\<forall>r \<in> set ?rows. row_nonneg r" by (rule rows_inv_nonneg [OF inv])
  have m: "sum_list (map row_message_count ?rows) = int (length (concat (map (row_records cd) ?rows)))"
    using inv by (intro good_rows_count) (simp add: rows_inv_def)
  have c: "sum_list (map (\<lambda>r. int (length (row_payload r))) rows) =
      int (sum_list (map (\<lambda>r. length (row_payload r)) rows))" for rows
    by (induction rows) auto
  have u: "sum_list (map row_uncompressed_bytes rows) =
      int (sum_list (map (\<lambda>r. nat (row_uncompressed_bytes r)) rows))"
    if "\<forall>r \<in> set rows. row_nonneg r" for rows
    using that by (induction rows) (auto simp: row_nonneg_def)
  show ?thesis
    by (simp add: sql_stats_def Let_def t row_totals_def m c u [OF nn])
qed

section \<open>Every operation keeps the invariant\<close>

lemma db_inv_channels_only:
  assumes "db_inv cd N db" and "message_blocks db' = message_blocks db" and "totals_ok db'"
    and "blocked_channels db' = blocked_channels db" and "purge_cutoffs db' = purge_cutoffs db"
    and "distinct (map fst (channel_table db'))"
    and "\<And>ch c. map_of (channel_table db) ch = Some c \<Longrightarrow> map_of (channel_table db') ch \<noteq> None"
    and "\<And>ch c. (ch, c) \<in> set (channel_table db') \<Longrightarrow> channel_count_ok cd N (message_blocks db) ch c"
  shows "db_inv cd N db'"
  using assms unfolding db_inv_def by fastforce

lemma touch_channel_requested_inv:
  assumes inv: "db_inv cd N db" and N: "0 \<le> N"
    and t: "touch_channel_requested ch r c db = (res, db')"
  shows "db_inv cd N db' \<and> other_tables_same db db' \<and> message_blocks db' = message_blocks db"
proof (cases "and_then (i64_arg r) (\<lambda>r. and_then (i64_arg c) (\<lambda>c. Inr (r, c)))")
  case (Inl e)
  then show ?thesis using t inv by (simp add: touch_channel_requested_def)
next
  case (Inr rc)
  obtain requested coalesce where rc: "rc = (requested, coalesce)" by (cases rc)
  show ?thesis
  proof (cases "map_of (channel_table db) ch")
    case None
    let ?c = "new_channel_row\<lparr>last_requested_at_ms := requested\<rparr>"
    have db': "db' = db\<lparr>channel_table := channel_table db @ [(ch, ?c)]\<rparr>"
      using t Inr rc None by (simp add: touch_channel_requested_def)
    have "channel_count_ok cd N (message_blocks db) ch ?c"
      using no_channel_no_rows [OF inv None] N
      by (simp add: channel_count_ok_def new_channel_row_def records_of_def)
    moreover have "ch \<notin> fst ` set (channel_table db)" using None by (simp add: map_of_eq_None_iff)
    ultimately have "db_inv cd N db'"
      unfolding db' using inv
      by (intro db_inv_channels_only [OF inv])
         (auto simp: totals_ok_def map_add_def db_inv_def split: option.splits)
    then show ?thesis by (simp add: db' other_tables_same_def)
  next
    case (Some row)
    show ?thesis
    proof (cases "last_requested_at_ms row < coalesce")
      case False
      then show ?thesis using t Inr rc Some inv by (simp add: touch_channel_requested_def)
    next
      case True
      let ?f = "\<lambda>c. c\<lparr>last_requested_at_ms := requested\<rparr>"
      have db': "db' = update_channel_row ch ?f db"
        using t Inr rc Some True by (simp add: touch_channel_requested_def)
      have eq: "with_rows (message_blocks db) db = db" by (rule with_rows_self [OF db_invD(2) [OF inv]])
      have "channel_count_ok cd N (message_blocks db) ch (?f row)"
        using db_invD(5) [OF inv Some] by (simp add: channel_count_ok_def)
      then have "db_inv cd N (update_channel_row ch ?f (with_rows (message_blocks db) db))"
        by (intro db_inv_step [OF inv db_invD(1) [OF inv] _ Some])
           (use db_invD(6,7) [OF inv] in auto)
      then show ?thesis by (simp add: db' eq other_tables_same_def)
    qed
  qed
qed

lemma delete_row_rows:
  assumes "db_inv cd N db"
  shows "delete_block_rows P db = with_rows (filter (\<lambda>r. \<not> P r) (message_blocks db)) db"
  by (rule delete_block_rows_rows [OF db_invD(2) [OF assms] rows_inv_nonneg [OF db_invD(1) [OF assms]]])

lemma records_of_filter_sub:
  "set (records_of cd ch (filter P rows)) \<subseteq> set (records_of cd ch rows)"
  by (auto simp: records_of_def rows_of_def)

lemma length_records_of_split:
  "length (records_of cd ch rows) = length (records_of cd ch (filter (\<lambda>r. \<not> P r) rows)) +
     length (records_of cd ch (filter P rows))"
  by (induction rows) (auto simp: records_of_def rows_of_def)

lemma records_of_delete_id:
  assumes "distinct (map row_id rows)" and "row \<in> set rows" and "row_good cd row"
  shows "int (length (records_of cd (row_channel row) (filter (\<lambda>r. row_id r \<noteq> row_id row) rows))) =
    int (length (records_of cd (row_channel row) rows)) - row_message_count row"
proof -
  have "filter (\<lambda>r. row_id r = row_id row) rows = [row]"
    using assms(1,2) by (induction rows) (auto simp: filter_empty_conv image_iff)
  moreover have "records_of cd (row_channel row) [row] = row_records cd row"
    by (simp add: records_of_def rows_of_def)
  ultimately have "length (records_of cd (row_channel row) rows) =
      length (records_of cd (row_channel row) (filter (\<lambda>r. row_id r \<noteq> row_id row) rows)) +
      length (row_records cd row)"
    using length_records_of_split [of cd "row_channel row" rows "\<lambda>r. row_id r = row_id row"] by simp
  then show ?thesis using row_goodD(2) [OF assms(3)] by linarith
qed

text \<open>Deleting one block and lowering the count of its channel.\<close>

lemma db_inv_delete_row:
  assumes inv: "db_inv cd N db" and row: "row \<in> set (message_blocks db)"
  shows "db_inv cd N (update_channel_row (row_channel row) (reduce_retained (row_message_count row))
    (delete_block_rows (\<lambda>r. row_id r = row_id row) db))"
proof -
  let ?ch = "row_channel row" and ?rows = "filter (\<lambda>r. row_id r \<noteq> row_id row) (message_blocks db)"
  have ri: "rows_inv cd (message_blocks db)" by (rule db_invD(1) [OF inv])
  have d: "distinct (map row_id (message_blocks db))" and good: "row_good cd row"
    using ri row by (simp_all add: rows_inv_def)
  obtain c where c: "map_of (channel_table db) ?ch = Some c"
    using db_invD(4) [OF inv row] by blast
  have cc: "channel_count_ok cd N (message_blocks db) ?ch c" by (rule db_invD(5) [OF inv c])
  have others: "\<forall>k. k \<noteq> ?ch \<longrightarrow> rows_of k ?rows = rows_of k (message_blocks db)"
  proof (intro allI impI)
    fix k assume k: "k \<noteq> ?ch"
    have "row_id r \<noteq> row_id row" if "r \<in> set (rows_of k (message_blocks db))" for r
      using that k d row by (auto simp: distinct_map dest: inj_onD)
    then show "rows_of k ?rows = rows_of k (message_blocks db)"
      by (auto simp: rows_of_filter intro!: filter_True)
  qed
  have n: "int (length (records_of cd ?ch ?rows)) =
      int (length (records_of cd ?ch (message_blocks db))) - row_message_count row"
    by (rule records_of_delete_id [OF d row good])
  have "0 \<le> row_message_count row" using row_goodD(6) [OF good] by (simp add: row_nonneg_def)
  then have "channel_count_ok cd N ?rows ?ch (reduce_retained (row_message_count row) c)"
    using cc n by (auto simp: channel_count_ok_def reduce_retained_def)
  moreover have "rows_of ?ch ?rows = []" if "?ch \<in> set (blocked_channels db)"
    using db_invD(6) [OF inv that] by (simp add: rows_of_filter)
  moreover have "t < received_at_ms r"
    if "map_of (purge_cutoffs db) ?ch = Some t" "r \<in> set (records_of cd ?ch ?rows)" for t r
    using that db_invD(7) [OF inv that(1)] records_of_filter_sub by blast
  ultimately have "db_inv cd N (update_channel_row ?ch (reduce_retained (row_message_count row))
      (with_rows ?rows db))"
    by (intro db_inv_step [OF inv rows_inv_filter [OF ri] others c])
  then show ?thesis by (simp add: delete_row_rows [OF inv])
qed

lemma evict_block_id_spec:
  assumes inv: "db_inv cd N db" and e: "evict_block_id i db = (n, db')"
  shows "db_inv cd N db' \<and> message_blocks db' = filter (\<lambda>r. row_id r \<noteq> i) (message_blocks db) \<and>
    n = length (message_blocks db) - length (message_blocks db') \<and> other_tables_same db db'"
proof (cases "filter (\<lambda>r. row_id r = i) (message_blocks db)")
  case Nil
  then have "filter (\<lambda>r. row_id r \<noteq> i) (message_blocks db) = message_blocks db"
    by (simp add: filter_empty_conv)
  then show ?thesis using e inv Nil by (simp add: evict_block_id_def)
next
  case (Cons row rest)
  have "row \<in> set (filter (\<lambda>r. row_id r = i) (message_blocks db))" by (simp add: Cons)
  then have row: "row \<in> set (message_blocks db)" "row_id row = i" by simp_all
  have db': "db' = update_channel_row (row_channel row) (reduce_retained (row_message_count row))
      (delete_block_rows (\<lambda>r. row_id r = row_id row) db)" "n = length (row # rest)"
    using e Cons row(2) by (simp_all add: evict_block_id_def)
  have "length (message_blocks db) = length (row # rest) +
      length (filter (\<lambda>r. row_id r \<noteq> i) (message_blocks db))"
    using sum_length_filter_compl [of "\<lambda>r. row_id r = i" "message_blocks db"] Cons by simp
  then show ?thesis
    using db_inv_delete_row [OF inv row(1)] row(2) db'
    by (simp add: delete_row_rows [OF inv] other_tables_same_def)
qed

lemma other_tables_same_trans:
  "other_tables_same a b \<Longrightarrow> other_tables_same b c \<Longrightarrow> other_tables_same a c"
  by (simp add: other_tables_same_def)

lemma evict_ids_spec:
  assumes "db_inv cd N db" and "evict_ids ids deleted db = Inr (n, db')"
  shows "db_inv cd N db' \<and> other_tables_same db db' \<and>
    message_blocks db' = filter (\<lambda>r. row_id r \<notin> int ` set ids) (message_blocks db) \<and>
    n = deleted + (length (message_blocks db) - length (message_blocks db'))"
  using assms
proof (induction ids arbitrary: deleted db)
  case (Cons i ids)
  obtain m db1 where e: "evict_block_id (int i) db = (m, db1)" by fastforce
  have step: "evict_ids ids (deleted + m) db1 = Inr (n, db')"
    using Cons.prems(2) e by (auto simp: i64_arg_def)
  note s = evict_block_id_spec [OF Cons.prems(1) e]
  have IH: "db_inv cd N db' \<and> other_tables_same db1 db' \<and>
    message_blocks db' = filter (\<lambda>r. row_id r \<notin> int ` set ids) (message_blocks db1) \<and>
    n = (deleted + m) + (length (message_blocks db1) - length (message_blocks db'))"
    by (rule Cons.IH) (use s step in auto)
  have "length (message_blocks db1) \<le> length (message_blocks db)"
    using s by simp
  moreover have "length (message_blocks db') \<le> length (message_blocks db1)"
    using IH by simp
  moreover have "message_blocks db' = filter (\<lambda>r. row_id r \<notin> int ` set (i # ids)) (message_blocks db)"
    using IH s by (auto intro!: filter_cong)
  ultimately show ?case
    using IH s other_tables_same_trans [of db db1 db'] by linarith
qed (auto intro!: filter_True [symmetric])

lemma evict_ids_ok: "\<forall>i \<in> set ids. int i \<le> i64_max \<Longrightarrow> \<exists>n db'. evict_ids ids deleted db = Inr (n, db')"
  by (induction ids arbitrary: deleted db) (auto simp: i64_arg_def i64_try_from_def split: prod.splits)

lemma evict_block_ids_spec:
  assumes inv: "db_inv cd N db" and e: "evict_block_ids ids db = (res, db')"
  shows "db_inv cd N db' \<and> other_tables_same db db' \<and>
    (case res of Inl _ \<Rightarrow> db' = db
     | Inr n \<Rightarrow> message_blocks db' = filter (\<lambda>r. row_id r \<notin> int ` set ids) (message_blocks db) \<and>
         n = length (message_blocks db) - length (message_blocks db'))"
proof (cases "ids = []")
  case True
  then show ?thesis using e inv by (auto simp: evict_block_ids_def intro!: filter_True [symmetric])
next
  case False
  then have "transaction (evict_ids ids 0) db = (res, db')" using e by (simp add: evict_block_ids_def)
  then show ?thesis
    by (rule transaction_cases) (use inv evict_ids_spec [OF inv, of ids 0] in auto)
qed

lemma expire_rows_spec:
  assumes "db_inv cd N db" and "set ex \<subseteq> set (message_blocks db)" and "distinct (map row_id ex)"
  shows "\<exists>db'. expire_rows ex m db =
      Inr (foldl (\<lambda>m r. u64_saturating_add m (nat (row_message_count r))) m ex, db') \<and>
    db_inv cd N db' \<and> other_tables_same db db' \<and>
    message_blocks db' = filter (\<lambda>r. row_id r \<notin> row_id ` set ex) (message_blocks db)"
  using assms
proof (induction ex arbitrary: m db)
  case (Cons row ex)
  let ?db1 = "update_channel_row (row_channel row) (reduce_retained (row_message_count row))
      (delete_block_rows (\<lambda>r. row_id r = row_id row) db)"
  have row: "row \<in> set (message_blocks db)" using Cons.prems(2) by simp
  have inv1: "db_inv cd N ?db1" by (rule db_inv_delete_row [OF Cons.prems(1) row])
  have rows1: "message_blocks ?db1 = filter (\<lambda>r. row_id r \<noteq> row_id row) (message_blocks db)"
    by (simp add: delete_row_rows [OF Cons.prems(1)])
  have good: "row_good cd row"
    using db_invD(1) [OF Cons.prems(1)] row by (simp add: rows_inv_def)
  then have nn: "0 \<le> row_message_count row" using row_goodD(6) by (simp add: row_nonneg_def)
  have sub: "set ex \<subseteq> set (message_blocks ?db1)"
    unfolding rows1 using Cons.prems(2,3) by (auto simp: image_iff)
  obtain db' where r: "expire_rows ex (u64_saturating_add m (nat (row_message_count row))) ?db1 =
      Inr (foldl (\<lambda>m r. u64_saturating_add m (nat (row_message_count r)))
            (u64_saturating_add m (nat (row_message_count row))) ex, db')"
    "db_inv cd N db'" "other_tables_same ?db1 db'"
    "message_blocks db' = filter (\<lambda>r. row_id r \<notin> row_id ` set ex) (message_blocks ?db1)"
    using Cons.IH [OF inv1 sub] Cons.prems(3) by auto
  have "other_tables_same db ?db1"
    by (simp add: delete_row_rows [OF Cons.prems(1)] other_tables_same_def)
  then have "other_tables_same db db'" using r(3) by (rule other_tables_same_trans)
  moreover have "message_blocks db' = filter (\<lambda>r. row_id r \<notin> row_id ` set (row # ex)) (message_blocks db)"
    using r(4) unfolding rows1 by (auto intro!: filter_cong)
  ultimately show ?case using r(1,2) nn by simp
qed (auto intro!: filter_True [symmetric])

lemma delete_channel_rows_inv:
  assumes inv: "db_inv cd N db"
  shows "db_inv cd N (delete_channel_rows P db) \<and> other_tables_same db (delete_channel_rows P db) \<and>
    message_blocks (delete_channel_rows P db) =
      filter (\<lambda>r. \<forall>c. map_of (channel_table db) (row_channel r) = Some c \<longrightarrow> \<not> P (row_channel r) c)
        (message_blocks db)"
proof -
  let ?t = "channel_table db" and ?rows = "message_blocks db"
  have d: "distinct (map fst ?t)" by (rule db_invD(3) [OF inv])
  define doomed where "doomed = fst ` set (filter (\<lambda>(k, c). P k c) ?t)"
  have doom: "k \<in> doomed \<longleftrightarrow> (\<exists>c. map_of ?t k = Some c \<and> P k c)" for k
    using d by (force simp: doomed_def)
  let ?rows' = "filter (\<lambda>r. row_channel r \<notin> doomed) ?rows"
  let ?db1 = "db\<lparr>channel_table := filter (\<lambda>(k, c). \<not> P k c) ?t\<rparr>"
  have "totals_ok ?db1" using db_invD(2) [OF inv] by (simp add: totals_ok_def)
  then have db': "delete_channel_rows P db = with_rows ?rows' ?db1"
    using delete_block_rows_rows [of ?db1] rows_inv_nonneg [OF db_invD(1) [OF inv]]
    by (simp add: delete_channel_rows_def Let_def doomed_def)
  have look: "map_of (filter (\<lambda>(k, c). \<not> P k c) ?t) k =
      (if k \<in> doomed then None else map_of ?t k)" for k
  proof -
    have "(k, c) \<in> set (filter (\<lambda>(k, c). \<not> P k c) ?t) \<longleftrightarrow> map_of ?t k = Some c \<and> k \<notin> doomed" for c
      using d doom [of k] eq_key_imp_eq_value [OF d, of k c] by auto
    then show ?thesis
      using map_of_eq_Some_iff [OF distinct_fst_filter [OF d, of "\<lambda>(k, c). \<not> P k c"]] d
      by (metis (no_types, lifting) not_Some_eq)
  qed
  have same: "rows_of k ?rows' = rows_of k ?rows" if "k \<notin> doomed" for k
    using that by (auto simp: rows_of_filter intro!: filter_True)
  have sub: "rows_of k ?rows' = [] \<or> rows_of k ?rows' = rows_of k ?rows" for k
    using same [of k] by (cases "k \<in> doomed") (auto simp: rows_of_filter filter_empty_conv)
  have "db_inv cd N (with_rows ?rows' ?db1)"
    unfolding db_inv_def
  proof (intro conjI)
    show "rows_inv cd (message_blocks (with_rows ?rows' ?db1))"
      using rows_inv_filter [OF db_invD(1) [OF inv]] by simp
    show "distinct (map fst (channel_table (with_rows ?rows' ?db1)))"
      using distinct_fst_filter [OF d] by simp
    show "\<forall>r \<in> set (message_blocks (with_rows ?rows' ?db1)).
        map_of (channel_table (with_rows ?rows' ?db1)) (row_channel r) \<noteq> None"
      using db_invD(4) [OF inv] by (simp add: look)
    show "\<forall>(k, c) \<in> set (channel_table (with_rows ?rows' ?db1)).
        channel_count_ok cd N (message_blocks (with_rows ?rows' ?db1)) k c"
    proof clarify
      fix k c assume "(k, c) \<in> set (channel_table (with_rows ?rows' ?db1))"
      then have kc: "(k, c) \<in> set ?t" "\<not> P k c" by simp_all
      have mo: "map_of ?t k = Some c" using kc(1) d by simp
      have "k \<notin> doomed" using doom [of k] mo kc(2) by simp
      then have "rows_of k ?rows' = rows_of k ?rows" by (rule same)
      moreover have "channel_count_ok cd N ?rows k c" by (rule db_invD(5) [OF inv mo])
      ultimately show "channel_count_ok cd N (message_blocks (with_rows ?rows' ?db1)) k c"
        by (simp add: channel_count_ok_def records_of_def)
    qed
    show "\<forall>ch \<in> set (blocked_channels (with_rows ?rows' ?db1)). rows_of ch (message_blocks (with_rows ?rows' ?db1)) = []"
    proof
      fix ch assume "ch \<in> set (blocked_channels (with_rows ?rows' ?db1))"
      then have "rows_of ch ?rows = []" using db_invD(6) [OF inv] by simp
      then show "rows_of ch (message_blocks (with_rows ?rows' ?db1)) = []"
        using sub [of ch] by auto
    qed
    show "\<forall>ch cutoff. map_of (purge_cutoffs (with_rows ?rows' ?db1)) ch = Some cutoff \<longrightarrow>
        (\<forall>r \<in> set (records_of cd ch (message_blocks (with_rows ?rows' ?db1))). cutoff < received_at_ms r)"
    proof (intro allI impI ballI)
      fix ch t r
      assume t: "map_of (purge_cutoffs (with_rows ?rows' ?db1)) ch = Some t"
        and "r \<in> set (records_of cd ch (message_blocks (with_rows ?rows' ?db1)))"
      then have "r \<in> set (records_of cd ch ?rows')" by simp
      then have "r \<in> set (records_of cd ch ?rows)" by (rule subsetD [OF records_of_filter_sub])
      moreover have "map_of (purge_cutoffs db) ch = Some t" using t by simp
      ultimately show "t < received_at_ms r" using db_invD(7) [OF inv] by blast
    qed
  qed simp
  moreover have "?rows' = filter (\<lambda>r. \<forall>c. map_of ?t (row_channel r) = Some c \<longrightarrow> \<not> P (row_channel r) c) ?rows"
    by (rule filter_cong) (auto simp: doom)
  ultimately show ?thesis unfolding db' by (simp add: other_tables_same_def)
qed

lemma expired_rows_spec:
  assumes "distinct (map row_id rows)"
  shows "set (expired_rows cutoff rows) \<subseteq> {r \<in> set rows. row_last_event_at_ms r < cutoff}"
    and "distinct (map row_id (expired_rows cutoff rows))"
    and "expired_rows cutoff rows = [] \<longleftrightarrow> (\<forall>r \<in> set rows. cutoff \<le> row_last_event_at_ms r)"
proof -
  let ?all = "sort_key (\<lambda>r. (row_last_event_at_ms r, row_id r))
      (filter (\<lambda>r. row_last_event_at_ms r < cutoff) rows)"
  show "set (expired_rows cutoff rows) \<subseteq> {r \<in> set rows. row_last_event_at_ms r < cutoff}"
    by (auto simp: expired_rows_def dest: in_set_takeD)
  have "distinct (map row_id ?all)"
    using assms by (auto simp: distinct_map intro: inj_on_subset)
  then show "distinct (map row_id (expired_rows cutoff rows))"
    by (simp add: expired_rows_def take_map [symmetric])
  have "expired_rows cutoff rows = [] \<longleftrightarrow> ?all = []"
    by (simp add: expired_rows_def expiry_batch_blocks_def)
  also have "\<dots> \<longleftrightarrow> set ?all = {}" by (simp only: set_empty)
  also have "\<dots> \<longleftrightarrow> (\<forall>r \<in> set rows. cutoff \<le> row_last_event_at_ms r)" by auto
  finally show "expired_rows cutoff rows = [] \<longleftrightarrow> (\<forall>r \<in> set rows. cutoff \<le> row_last_event_at_ms r)" .
qed

text \<open>
  Expiry succeeds, deletes exactly the blocks whose newest event is before the cutoff, and then the
  channels nobody asked for that hold nothing.
\<close>

lemma expire_blocks_before_spec:
  "db_inv cd N db \<Longrightarrow> \<exists>stats db'. expire_blocks_before cutoff nb m db = (Inr stats, db') \<and>
     db_inv cd N db' \<and> other_tables_same db db' \<and>
     message_blocks db' = filter (\<lambda>r. cutoff \<le> row_last_event_at_ms r) (message_blocks db)"
proof (induction cutoff nb m db rule: expire_blocks_before.induct)
  case (1 cutoff nb m db)
  have inv: "db_inv cd N db" by (rule "1.prems")
  have d: "distinct (map row_id (message_blocks db))"
    using db_invD(1) [OF inv] by (simp add: rows_inv_def)
  note ex = expired_rows_spec [OF d, of cutoff]
  show ?case
  proof (cases "expired_rows cutoff (message_blocks db)")
    case Nil
    have idle: "\<not> idle_channel cutoff (row_channel r) c"
      if "r \<in> set (message_blocks db)" "map_of (channel_table db) (row_channel r) = Some c" for r c
    proof -
      have "row_good cd r" using db_invD(1) [OF inv] that(1) by (simp add: rows_inv_def)
      then have "row_records cd r \<noteq> []" by (rule row_goodD(1))
      moreover have "r \<in> set (rows_of (row_channel r) (message_blocks db))" using that(1) by simp
      ultimately have "records_of cd (row_channel r) (message_blocks db) \<noteq> []"
        unfolding records_of_def by fastforce
      then show ?thesis
        using db_invD(5) [OF inv that(2)] by (simp add: idle_channel_def channel_count_ok_def)
    qed
    have "message_blocks (delete_channel_rows (idle_channel cutoff) db) = message_blocks db"
      using delete_channel_rows_inv [OF inv, of "idle_channel cutoff"] idle
      by (auto intro!: filter_True)
    moreover have "message_blocks db = filter (\<lambda>r. cutoff \<le> row_last_event_at_ms r) (message_blocks db)"
      using ex(3) Nil by simp
    ultimately show ?thesis
      using delete_channel_rows_inv [OF inv, of "idle_channel cutoff"] Nil
      by (simp add: expire_blocks_before.simps [of cutoff nb m db])
  next
    case (Cons row rest)
    have sub: "set (row # rest) \<subseteq> set (message_blocks db)" and dd: "distinct (map row_id (row # rest))"
      using ex(1,2) by (auto simp: Cons)
    obtain m' db1 where e: "expire_rows (row # rest) m db = Inr (m', db1)" and inv1: "db_inv cd N db1"
      and o1: "other_tables_same db db1" and
      rows1: "message_blocks db1 = filter (\<lambda>r. row_id r \<notin> row_id ` set (row # rest)) (message_blocks db)"
      using expire_rows_spec [OF inv sub dd, of m] by blast
    obtain stats db' where r: "expire_blocks_before cutoff (u64_saturating_add nb (length (row # rest))) m' db1
        = (Inr stats, db')" "db_inv cd N db'" "other_tables_same db1 db'"
      "message_blocks db' = filter (\<lambda>r. cutoff \<le> row_last_event_at_ms r) (message_blocks db1)"
      using "1.IH" [OF Cons e refl inv1] by blast
    have "row_id r \<notin> row_id ` set (row # rest)"
      if "r \<in> set (message_blocks db)" "cutoff \<le> row_last_event_at_ms r" for r
    proof
      assume "row_id r \<in> row_id ` set (row # rest)"
      then obtain x where x: "x \<in> set (row # rest)" "row_id x = row_id r" by (metis imageE)
      then have "x = r" using sub that(1) d by (auto simp: distinct_map dest: inj_onD)
      then show False using x(1) ex(1) that(2) unfolding Cons by auto
    qed
    then have "message_blocks db' = filter (\<lambda>r. cutoff \<le> row_last_event_at_ms r) (message_blocks db)"
      unfolding r(4) rows1 by (auto intro!: filter_cong)
    then show ?thesis
      using r(1-3) Cons e other_tables_same_trans [OF o1 r(3)]
      by (simp add: expire_blocks_before.simps [of cutoff nb m db] del: expire_rows.simps)
  qed
qed

lemma drop_channel_inv:
  assumes inv: "db_inv cd N db"
  shows "db_inv cd N (drop_channel ch db) \<and> other_tables_same db (drop_channel ch db) \<and>
    message_blocks (drop_channel ch db) = filter (\<lambda>r. row_channel r \<noteq> ch) (message_blocks db)"
proof -
  let ?rows = "filter (\<lambda>r. row_channel r \<noteq> ch) (message_blocks db)"
  let ?doomed = "fst ` set (filter (\<lambda>(k, c). k = ch) (channel_table db))"
  have nn: "\<forall>r \<in> set (message_blocks db). row_nonneg r" by (rule rows_inv_nonneg [OF db_invD(1) [OF inv]])
  have sub: "?doomed \<subseteq> {ch}" by auto
  have mem: "row_channel r \<in> ?doomed" if "r \<in> set (message_blocks db)" "row_channel r = ch" for r
    using db_invD(4) [OF inv that(1)] that(2) by (force dest: map_of_SomeD)
  have f1: "filter (\<lambda>r. row_channel r \<notin> ?doomed) (message_blocks db) = ?rows"
    using sub mem by (intro filter_cong) auto
  have f2: "filter (\<lambda>r. row_channel r \<notin> ?doomed) ?rows = ?rows"
    by (rule filter_True) (use sub in auto)
  let ?t = "filter (\<lambda>(k, c). k \<noteq> ch) (channel_table db)"
  have a: "delete_channel_rows (\<lambda>k c. k = ch) db = with_rows ?rows (db\<lparr>channel_table := ?t\<rparr>)"
    using delete_block_rows_rows [of "db\<lparr>channel_table := ?t\<rparr>"] nn db_invD(2) [OF inv] f1
    by (simp add: delete_channel_rows_def Let_def totals_ok_def)
  have "drop_channel ch db = delete_channel_rows (\<lambda>k c. k = ch) (with_rows ?rows db)"
    by (simp add: drop_channel_def delete_row_rows [OF inv])
  also have "\<dots> = with_rows ?rows ((with_rows ?rows db)\<lparr>channel_table := ?t\<rparr>)"
    using delete_block_rows_rows [of "(with_rows ?rows db)\<lparr>channel_table := ?t\<rparr>"] nn f2
    by (simp add: delete_channel_rows_def Let_def totals_ok_def with_rows_def)
  also have "\<dots> = delete_channel_rows (\<lambda>k c. k = ch) db"
    unfolding a by (simp add: with_rows_def)
  finally have eq: "drop_channel ch db = delete_channel_rows (\<lambda>k c. k = ch) db" .
  have "message_blocks (drop_channel ch db) = ?rows" unfolding eq a by simp
  moreover have "db_inv cd N (drop_channel ch db)" "other_tables_same db (drop_channel ch db)"
    unfolding eq using delete_channel_rows_inv [OF inv] by blast+
  ultimately show ?thesis by blast
qed

text \<open>Replacing a channel's cutoff, or blocking it, just before the channel is dropped.\<close>

lemma drop_channel_commute:
  "drop_channel ch (db\<lparr>purge_cutoffs := p\<rparr>) = (drop_channel ch db)\<lparr>purge_cutoffs := p\<rparr>"
  "drop_channel ch (db\<lparr>blocked_channels := bs\<rparr>) = (drop_channel ch db)\<lparr>blocked_channels := bs\<rparr>"
  by (simp_all add: drop_channel_def delete_channel_rows_def delete_block_rows_def Let_def)

lemma dropped_records:
  assumes "db_inv cd N db"
  shows "sql_retained cd (drop_channel ch db) k = (if k = ch then [] else sql_retained cd db k)"
proof -
  have "rows_of k (message_blocks (drop_channel ch db)) =
      (if k = ch then [] else rows_of k (message_blocks db))"
    using drop_channel_inv [OF assms, of ch]
    by (auto simp: rows_of_filter filter_empty_conv intro!: filter_True)
  then show ?thesis by (simp add: sql_retained_def records_of_def)
qed

lemma purge_channel_spec:
  assumes inv: "db_inv cd N db" and p: "purge_channel ch t db = (res, db')"
  shows "db_inv cd N db' \<and> sql_retained cd db' ch = [] \<and>
    (\<forall>k. k \<noteq> ch \<longrightarrow> sql_retained cd db' k = sql_retained cd db k) \<and>
    (\<exists>t'. map_of (purge_cutoffs db') ch = Some t' \<and> t \<le> t' \<and>
       (\<forall>t0. map_of (purge_cutoffs db) ch = Some t0 \<longrightarrow> t0 \<le> t')) \<and>
    (\<forall>k. k \<noteq> ch \<longrightarrow> map_of (purge_cutoffs db') k = map_of (purge_cutoffs db) k)"
proof -
  define t' where "t' = (case map_of (purge_cutoffs db) ch of None \<Rightarrow> t | Some t0 \<Rightarrow> max t0 t)"
  let ?d = "drop_channel ch db" and ?p = "AList.update ch t' (purge_cutoffs db)"
  have db': "db' = ?d\<lparr>purge_cutoffs := ?p\<rparr>"
    using p by (simp add: purge_channel_def Let_def t'_def drop_channel_commute)
  note d = drop_channel_inv [OF inv, of ch]
  have pc: "purge_cutoffs ?d = purge_cutoffs db" using d by (simp add: other_tables_same_def)
  have recs: "records_of cd k (message_blocks ?d) = (if k = ch then [] else sql_retained cd db k)" for k
    using dropped_records [OF inv, of ch k] by (simp add: sql_retained_def)
  have invd: "db_inv cd N ?d" using d by blast
  have "db_inv cd N db'"
    by (rule db_inv_lists [OF invd])
       (use db_invD(6) [OF invd] db_invD(7) [OF inv] recs
         in \<open>auto simp: db' update_conv' sql_retained_def split: if_splits\<close>)
  moreover have "sql_retained cd db' k = (if k = ch then [] else sql_retained cd db k)" for k
    using recs by (simp add: db' sql_retained_def)
  moreover have "t \<le> t'" "\<forall>t0. map_of (purge_cutoffs db) ch = Some t0 \<longrightarrow> t0 \<le> t'"
    by (auto simp: t'_def split: option.splits)
  ultimately show ?thesis by (simp add: db' update_conv')
qed

lemma blocked_update_inv:
  assumes inv: "db_inv cd N db"
    and "\<forall>k \<in> set bs. k \<noteq> ch \<longrightarrow> rows_of k (message_blocks db) = []"
  shows "db_inv cd N (drop_channel ch (db\<lparr>blocked_channels := bs\<rparr>))"
proof -
  let ?d = "drop_channel ch db"
  note d = drop_channel_inv [OF inv, of ch]
  have "rows_of k (message_blocks ?d) = []" if "k \<in> set bs" for k
    using assms(2) that d by (cases "k = ch") (auto simp: rows_of_filter filter_empty_conv)
  moreover have invd: "db_inv cd N ?d" using d by blast
  ultimately show ?thesis
    unfolding drop_channel_commute by (intro db_inv_lists [OF invd]) (use db_invD(7) [OF invd] in auto)
qed

lemma set_channel_blocked_spec:
  assumes inv: "db_inv cd N db" and s: "set_channel_blocked ch b db = (res, db')"
  shows "db_inv cd N db' \<and>
    set (blocked_channels db') = (if b then insert ch else (\<lambda>bs. bs - {ch})) (set (blocked_channels db)) \<and>
    purge_cutoffs db' = purge_cutoffs db \<and>
    (\<forall>k. sql_retained cd db' k = (if b \<and> k = ch then [] else sql_retained cd db k))"
proof (cases b)
  case True
  let ?bs = "if ch \<in> set (blocked_channels db) then blocked_channels db else blocked_channels db @ [ch]"
  have db': "db' = drop_channel ch (db\<lparr>blocked_channels := ?bs\<rparr>)"
    using s True by (simp add: set_channel_blocked_def)
  have "db_inv cd N db'"
    unfolding db' by (rule blocked_update_inv [OF inv]) (use db_invD(6) [OF inv] in auto)
  moreover have "sql_retained cd db' k = (if k = ch then [] else sql_retained cd db k)" for k
    using dropped_records [OF inv, of ch k] by (simp add: db' drop_channel_commute sql_retained_def)
  moreover have "purge_cutoffs db' = purge_cutoffs db"
    using drop_channel_inv [OF inv, of ch] by (simp add: db' drop_channel_commute other_tables_same_def)
  ultimately show ?thesis using True by (auto simp: db' drop_channel_commute)
next
  case False
  then have db': "db' = db\<lparr>blocked_channels := filter (\<lambda>c. c \<noteq> ch) (blocked_channels db)\<rparr>"
    using s by (simp add: set_channel_blocked_def)
  have "db_inv cd N db'"
    by (rule db_inv_lists [OF inv]) (use db_invD(6,7) [OF inv] in \<open>auto simp: db'\<close>)
  then show ?thesis using False by (auto simp: db' sql_retained_def)
qed

lemma insert_blocked_spec:
  assumes "db_inv cd N db" and "insert_blocked chs db = Inr db'"
  shows "db_inv cd N db' \<and> set (blocked_channels db') = set (blocked_channels db) \<union> set chs \<and>
    purge_cutoffs db' = purge_cutoffs db \<and>
    (\<forall>k. sql_retained cd db' k = (if k \<in> set chs then [] else sql_retained cd db k))"
  using assms
proof (induction chs arbitrary: db)
  case (Cons ch chs)
  let ?d = "drop_channel ch (db\<lparr>blocked_channels := blocked_channels db @ [ch]\<rparr>)"
  have step: "insert_blocked chs ?d = Inr db'" using Cons.prems(2) by (simp split: if_splits)
  have inv: "db_inv cd N ?d"
    by (rule blocked_update_inv [OF Cons.prems(1)]) (use db_invD(6) [OF Cons.prems(1)] in auto)
  have b: "blocked_channels ?d = blocked_channels db @ [ch]" by (simp add: drop_channel_commute)
  have p: "purge_cutoffs ?d = purge_cutoffs db"
    using drop_channel_inv [OF Cons.prems(1), of ch] by (simp add: drop_channel_commute other_tables_same_def)
  have r: "sql_retained cd ?d k = (if k = ch then [] else sql_retained cd db k)" for k
    using dropped_records [OF Cons.prems(1), of ch k] by (simp add: drop_channel_commute sql_retained_def)
  show ?case using Cons.IH [OF inv step] by (auto simp: b p r)
qed auto

lemma sync_blocked_channels_spec:
  assumes inv: "db_inv cd N db" and s: "sync_blocked_channels chs db = (res, db')"
  shows "db_inv cd N db' \<and> (case res of Inl _ \<Rightarrow> db' = db
    | Inr _ \<Rightarrow> set (blocked_channels db') = set chs \<and> purge_cutoffs db' = purge_cutoffs db \<and>
        (\<forall>k. sql_retained cd db' k = (if k \<in> set chs then [] else sql_retained cd db k)))"
proof -
  have inv1: "db_inv cd N (db\<lparr>blocked_channels := []\<rparr>)"
    by (rule db_inv_lists [OF inv]) (use db_invD(6,7) [OF inv] in auto)
  from s have "transaction (\<lambda>db. and_then (insert_blocked chs (db\<lparr>blocked_channels := []\<rparr>))
      (\<lambda>db'. Inr ((), db'))) db = (res, db')"
    by (simp add: sync_blocked_channels_def)
  then show ?thesis
    by (rule transaction_cases)
       (use inv insert_blocked_spec [OF inv1, of chs] in \<open>auto simp: sql_retained_def\<close>)
qed

lemma insert_always_join_inv:
  "insert_always_join chs db = Inr db' \<Longrightarrow>
     db' = db\<lparr>always_join_channels := always_join_channels db @ chs\<rparr>"
  by (induction chs arbitrary: db) (fastforce split: if_splits)+

lemma sync_always_join_channels_spec:
  assumes inv: "db_inv cd N db" and s: "sync_always_join_channels chs db = (res, db')"
  shows "db_inv cd N db' \<and> (case res of Inl _ \<Rightarrow> db' = db
    | Inr _ \<Rightarrow> db' = db\<lparr>always_join_channels := chs\<rparr>)"
proof -
  from s have "transaction (\<lambda>db. and_then (insert_always_join chs (db\<lparr>always_join_channels := []\<rparr>))
      (\<lambda>db'. Inr ((), db'))) db = (res, db')"
    by (simp add: sync_always_join_channels_def)
  then show ?thesis
  proof (rule transaction_cases)
    fix x assume "and_then (insert_always_join chs (db\<lparr>always_join_channels := []\<rparr>))
        (\<lambda>db'. Inr ((), db')) = Inr (x, db')" and r: "res = Inr x"
    then have "db' = db\<lparr>always_join_channels := chs\<rparr>"
      by (auto dest: insert_always_join_inv)
    moreover have "db_inv cd N (db\<lparr>always_join_channels := chs\<rparr>)"
      by (rule db_inv_lists [OF inv]) (use db_invD(6,7) [OF inv] in auto)
    ultimately show ?thesis using r by simp
  qed (use inv in simp)
qed

end
