(* ===== verification/SqliteJournal.thy ===== *)
theory SqliteJournal
  imports SqliteStore
begin

text \<open>
  The ingest journal of \<^verbatim>\<open>src/storage/sqlite.rs\<close>: batches of a source stream keyed by their
  first sequence number, and the offset up to which the stream is committed without a gap.
  Accepting a batch is idempotent, rejects a conflicting replay, and moves the offset over every
  batch that continues it.
\<close>

definition journal_row_of :: "string \<Rightarrow> string \<Rightarrow> int \<Rightarrow> journal_row list \<Rightarrow> journal_row option" where
  "journal_row_of src stream first rows =
     find (\<lambda>j. jr_source_id j = src \<and> jr_stream_id j = stream \<and> jr_first_sequence j = first) rows"

definition non_advancing :: store_error where
  "non_advancing = Backend ''journal contains a non-advancing sequence range''"

text \<open>The loop that moves \<open>committed\<close>.\<close>

function advance :: "string \<Rightarrow> string \<Rightarrow> journal_row list \<Rightarrow> int \<Rightarrow> store_error + int" where
  "advance src stream rows committed =
     (case journal_row_of src stream (i64_saturating_add committed 1) rows of
        None \<Rightarrow> Inr committed
      | Some j \<Rightarrow> if jr_last_sequence j \<le> committed then Inl non_advancing
                  else advance src stream rows (jr_last_sequence j))"
  by pat_completeness auto
termination
proof (relation "measure (\<lambda>(src, stream, rows, committed).
    length (filter (\<lambda>j. jr_last_sequence j > committed) rows))")
  fix src stream rows committed j
  assume j: "journal_row_of src stream (i64_saturating_add committed 1) rows = Some j"
    and adv: "\<not> jr_last_sequence j \<le> committed"
  have in_rows: "j \<in> set rows"
    using j by (auto simp: journal_row_of_def find_Some_iff)
  have "filter (\<lambda>i. jr_last_sequence i > jr_last_sequence j) rows =
      filter (\<lambda>i. jr_last_sequence i > jr_last_sequence j) (filter (\<lambda>j. jr_last_sequence j > committed) rows)"
    using adv by (auto intro!: filter_cong)
  also have "length \<dots> < length (filter (\<lambda>j. jr_last_sequence j > committed) rows)"
    by (rule length_filter_less [of j]) (use in_rows adv in auto)
  finally show "((src, stream, rows, jr_last_sequence j), src, stream, rows, committed)
    \<in> measure (\<lambda>(src, stream, rows, committed). length (filter (\<lambda>j. jr_last_sequence j > committed) rows))"
    by simp
qed simp

declare advance.simps [simp del]

definition accept_journal_transaction ::
    "string \<Rightarrow> string \<Rightarrow> int \<Rightarrow> int \<Rightarrow> bytes \<Rightarrow> bytes \<Rightarrow> int \<Rightarrow> sqlite_db
      \<Rightarrow> store_error + int \<times> sqlite_db" where
  "accept_journal_transaction src stream first last_seq check data now db =
     (let initial = (case map_of (source_offsets db) (src, stream) of
                       Some off \<Rightarrow> committed_through off
                     | None \<Rightarrow> i64_saturating_sub first 1);
          offsets = (case map_of (source_offsets db) (src, stream) of
                       Some off \<Rightarrow> source_offsets db
                     | None \<Rightarrow> source_offsets db @
                         [((src, stream), \<lparr>committed_through = initial, updated_at_ms = now\<rparr>)]);
          row = \<lparr>jr_source_id = src, jr_stream_id = stream, jr_first_sequence = first,
                 jr_last_sequence = last_seq, jr_checksum = check, jr_payload = data\<rparr>
      in and_then
        (case journal_row_of src stream first (ingest_journal db) of
           Some j \<Rightarrow>
             if jr_last_sequence j \<noteq> last_seq \<or> jr_checksum j \<noteq> check
             then Inl (Backend ''conflicting replay for an existing journal sequence'')
             else Inr (ingest_journal db)
         | None \<Rightarrow> Inr (ingest_journal db @ [row]))
        (\<lambda>journal. and_then (advance src stream journal initial) (\<lambda>committed.
           Inr (committed, db\<lparr>ingest_journal := journal,
             source_offsets := map (\<lambda>(k, v). if k = (src, stream)
               then (k, \<lparr>committed_through = committed, updated_at_ms = now\<rparr>) else (k, v)) offsets\<rparr>))))"

definition accept_journal_batch ::
    "string \<Rightarrow> string \<Rightarrow> nat \<Rightarrow> nat \<Rightarrow> bytes \<Rightarrow> bytes \<Rightarrow> nat \<Rightarrow> sqlite_db
      \<Rightarrow> (store_error + nat) \<times> sqlite_db" where
  "accept_journal_batch src stream first last_seq check data now_ms db =
     (if first > last_seq
      then (Inl (Backend ''journal batch sequence range is invalid''), db)
      else (case and_then (i64_arg first) (\<lambda>f. and_then (i64_arg last_seq) (\<lambda>l.
                 and_then (i64_arg now_ms) (\<lambda>n. Inr (f, l, n)))) of
              Inl e \<Rightarrow> (Inl e, db)
            | Inr (f, l, n) \<Rightarrow>
                (case transaction (accept_journal_transaction src stream f l check data n) db of
                   (Inl e, db') \<Rightarrow> (Inl e, db')
                 | (Inr committed, db') \<Rightarrow> (ok_or range_error (u64_try_from committed), db'))))"

definition sql_committed_through :: "string \<Rightarrow> string \<Rightarrow> sqlite_db \<Rightarrow> store_error + nat option" where
  "sql_committed_through src stream db =
     (case map_of (source_offsets db) (src, stream) of
        None \<Rightarrow> Inr None
      | Some off \<Rightarrow> and_then (ok_or range_error (u64_try_from (committed_through off))) (\<lambda>n. Inr (Some n)))"

definition retire_journal_through ::
    "string \<Rightarrow> string \<Rightarrow> nat \<Rightarrow> sqlite_db \<Rightarrow> (store_error + nat) \<times> sqlite_db" where
  "retire_journal_through src stream processed_through db =
     (case i64_arg processed_through of
        Inl e \<Rightarrow> (Inl e, db)
      | Inr p \<Rightarrow>
          (let gone = (\<lambda>j. jr_source_id j = src \<and> jr_stream_id j = stream \<and> jr_last_sequence j \<le> p)
           in (Inr (length (filter gone (ingest_journal db))),
               db\<lparr>ingest_journal := filter (\<lambda>j. \<not> gone j) (ingest_journal db)\<rparr>)))"

record journal_batch =
  jb_source_id :: string
  jb_stream_id :: string
  jb_first_sequence :: nat
  jb_last_sequence :: nat
  jb_checksum :: bytes
  jb_payload :: bytes

definition journal_batch_of :: "journal_row \<Rightarrow> store_error + journal_batch" where
  "journal_batch_of j =
     (if length (jr_checksum j) \<noteq> 32 then Inl (Backend ''Query is not read-only'')
      else and_then (ok_or range_error (u64_try_from (jr_first_sequence j))) (\<lambda>f.
        and_then (ok_or range_error (u64_try_from (jr_last_sequence j))) (\<lambda>l.
          Inr \<lparr>jb_source_id = jr_source_id j, jb_stream_id = jr_stream_id j,
               jb_first_sequence = f, jb_last_sequence = l,
               jb_checksum = jr_checksum j, jb_payload = jr_payload j\<rparr>)))"

definition pending_journal_batches :: "sqlite_db \<Rightarrow> store_error + journal_batch list" where
  "pending_journal_batches db = collect_results journal_batch_of
     (sort_key (\<lambda>j. (jr_source_id j, jr_stream_id j, jr_first_sequence j)) (ingest_journal db))"

record journal_stats =
  js_batches :: nat
  js_bytes :: nat

definition sql_journal_stats :: "sqlite_db \<Rightarrow> journal_stats" where
  "sql_journal_stats db = \<lparr>js_batches = length (ingest_journal db),
     js_bytes = sum_list (map (length \<circ> jr_payload) (ingest_journal db))\<rparr>"

section \<open>The invariant of the journal\<close>

definition journal_key :: "journal_row \<Rightarrow> string \<times> string \<times> int" where
  "journal_key j = (jr_source_id j, jr_stream_id j, jr_first_sequence j)"

text \<open>The rows of \<open>rows\<close> that tile the sequence numbers after \<open>lo\<close> up to \<open>hi\<close> without a gap.\<close>

inductive tiled :: "string \<Rightarrow> string \<Rightarrow> journal_row list \<Rightarrow> int \<Rightarrow> int \<Rightarrow> bool"
  for src :: string and stream :: string and rows :: "journal_row list" where
  tiled_refl: "tiled src stream rows lo lo"
| tiled_step: "j \<in> set rows \<Longrightarrow> jr_source_id j = src \<Longrightarrow> jr_stream_id j = stream \<Longrightarrow>
    jr_first_sequence j = lo + 1 \<Longrightarrow> lo < jr_last_sequence j \<Longrightarrow>
    tiled src stream rows (jr_last_sequence j) hi \<Longrightarrow> tiled src stream rows lo hi"

definition journal_row_ok :: "journal_row \<Rightarrow> bool" where
  "journal_row_ok j \<longleftrightarrow> 0 \<le> jr_first_sequence j \<and> jr_first_sequence j \<le> jr_last_sequence j \<and>
     jr_last_sequence j \<le> i64_max \<and> length (jr_checksum j) = 32"

definition journal_inv :: "sqlite_db \<Rightarrow> bool" where
  "journal_inv db \<longleftrightarrow>
     (\<forall>j \<in> set (ingest_journal db). journal_row_ok j) \<and>
     distinct (map journal_key (ingest_journal db)) \<and>
     distinct (map fst (source_offsets db)) \<and>
     (\<forall>(k, off) \<in> set (source_offsets db). 0 \<le> committed_through off \<and> committed_through off \<le> i64_max)"

lemma journal_row_of_Some:
  "journal_row_of src stream first rows = Some j \<Longrightarrow>
     j \<in> set rows \<and> jr_source_id j = src \<and> jr_stream_id j = stream \<and> jr_first_sequence j = first"
  by (auto simp: journal_row_of_def find_Some_iff)

lemma journal_row_of_None:
  "journal_row_of src stream first rows = None \<longleftrightarrow>
     (\<forall>j \<in> set rows. \<not> (jr_source_id j = src \<and> jr_stream_id j = stream \<and> jr_first_sequence j = first))"
  by (auto simp: journal_row_of_def find_None_iff)

lemma journal_row_of_key:
  assumes "distinct (map journal_key rows)" and "j \<in> set rows"
  shows "journal_row_of (jr_source_id j) (jr_stream_id j) (jr_first_sequence j) rows = Some j"
proof (cases "journal_row_of (jr_source_id j) (jr_stream_id j) (jr_first_sequence j) rows")
  case None
  then show ?thesis using assms(2) by (auto simp: journal_row_of_None)
next
  case (Some j')
  then have "j' \<in> set rows" "journal_key j' = journal_key j"
    by (auto simp: journal_key_def dest: journal_row_of_Some)
  then have "j' = j" using assms by (auto simp: distinct_map dest: inj_onD)
  then show ?thesis using Some by simp
qed

text \<open>Where the offset stops: after a tiling, and before a number no batch starts at.\<close>

lemma advance_spec:
  assumes "\<forall>j \<in> set rows. journal_row_ok j" and "- 1 \<le> c" and "c \<le> i64_max"
  shows "(\<exists>c'. advance src stream rows c = Inr c' \<and> tiled src stream rows c c' \<and> c \<le> c' \<and> c' \<le> i64_max \<and>
    (c' < i64_max \<longrightarrow> journal_row_of src stream (c' + 1) rows = None))
    \<or> advance src stream rows c = Inl non_advancing \<and>
      (\<exists>j \<in> set rows. jr_first_sequence j = i64_max)"
  using assms
proof (induction src stream rows c rule: advance.induct)
  case (1 src stream rows c)
  let ?n = "i64_saturating_add c 1"
  show ?case
  proof (cases "journal_row_of src stream ?n rows")
    case None
    then have a: "advance src stream rows c = Inr c" by (simp add: advance.simps [of src stream rows c])
    have "?n = c + 1" if "c < i64_max" using that "1.prems"(2) by (simp add: int_defs)
    then show ?thesis using None "1.prems"(3) by (auto simp: a intro: tiled_refl)
  next
    case (Some j)
    note j = journal_row_of_Some [OF Some]
    have ok: "journal_row_ok j" using "1.prems"(1) j by simp
    show ?thesis
    proof (cases "jr_last_sequence j \<le> c")
      case True
      then have "advance src stream rows c = Inl non_advancing"
        using Some by (simp add: advance.simps [of src stream rows c])
      moreover have "c = i64_max"
        using True ok j "1.prems"(2,3) by (auto simp: journal_row_ok_def int_defs)
      then have "jr_first_sequence j = i64_max" using j by (simp add: int_defs)
      ultimately show ?thesis using j by blast
    next
      case False
      then have step: "advance src stream rows c = advance src stream rows (jr_last_sequence j)"
        using Some by (simp add: advance.simps [of src stream rows c])
      have b: "- 1 \<le> jr_last_sequence j" "jr_last_sequence j \<le> i64_max"
        using ok by (auto simp: journal_row_ok_def)
      have first: "jr_first_sequence j = c + 1"
        using j False b "1.prems"(2) by (auto simp: int_defs)
      have IH: "(\<exists>c'. advance src stream rows (jr_last_sequence j) = Inr c' \<and>
          tiled src stream rows (jr_last_sequence j) c' \<and> jr_last_sequence j \<le> c' \<and> c' \<le> i64_max \<and>
          (c' < i64_max \<longrightarrow> journal_row_of src stream (c' + 1) rows = None))
          \<or> advance src stream rows (jr_last_sequence j) = Inl non_advancing \<and>
            (\<exists>j \<in> set rows. jr_first_sequence j = i64_max)"
        by (rule "1.IH" [OF Some False "1.prems"(1) b])
      show ?thesis
      proof (rule disjE [OF IH])
        assume "\<exists>c'. advance src stream rows (jr_last_sequence j) = Inr c' \<and>
          tiled src stream rows (jr_last_sequence j) c' \<and> jr_last_sequence j \<le> c' \<and> c' \<le> i64_max \<and>
          (c' < i64_max \<longrightarrow> journal_row_of src stream (c' + 1) rows = None)"
        then obtain c' where c': "advance src stream rows (jr_last_sequence j) = Inr c'"
          "tiled src stream rows (jr_last_sequence j) c'" "jr_last_sequence j \<le> c'" "c' \<le> i64_max"
          "c' < i64_max \<longrightarrow> journal_row_of src stream (c' + 1) rows = None" by blast
        have "tiled src stream rows c c'"
          using tiled_step [of j rows src stream c c'] j first False c'(2) by simp
        then show ?thesis using c' step False by auto
      qed (simp add: step)
    qed
  qed
qed

section \<open>Accepting a batch\<close>

definition stream_offset :: "string \<Rightarrow> string \<Rightarrow> sqlite_db \<Rightarrow> int option" where
  "stream_offset src stream db = map_option committed_through (map_of (source_offsets db) (src, stream))"

text \<open>Only the journal and the offsets of the stream changed.\<close>

definition journal_frame :: "string \<Rightarrow> string \<Rightarrow> sqlite_db \<Rightarrow> sqlite_db \<Rightarrow> bool" where
  "journal_frame src stream db db' \<longleftrightarrow>
     db' = db\<lparr>ingest_journal := ingest_journal db', source_offsets := source_offsets db'\<rparr> \<and>
     (\<forall>s t. (s, t) \<noteq> (src, stream) \<longrightarrow> stream_offset s t db' = stream_offset s t db) \<and>
     (\<forall>j. j \<in> set (ingest_journal db) \<longrightarrow> j \<in> set (ingest_journal db'))"

lemma map_of_map_key:
  "map_of (map (\<lambda>(k, v). if k = a then (k, w) else (k, v)) xs) k =
     (if k = a then map_option (\<lambda>_. w) (map_of xs k) else map_of xs k)"
  by (induction xs) auto

lemma map_fst_map_key: "map fst (map (\<lambda>(k, v). if k = a then (k, w) else (k, v)) xs) = map fst xs"
  by (induction xs) auto

lemma accept_journal_transaction_spec:
  assumes inv: "journal_inv db" and f: "0 \<le> first" "first \<le> last_seq" "last_seq \<le> i64_max"
    and chk: "length check = 32"
    and a: "accept_journal_transaction src stream first last_seq check data now db = Inr (c, db')"
  shows "journal_inv db' \<and> journal_frame src stream db db' \<and> 0 \<le> c \<and> c \<le> i64_max \<and>
    stream_offset src stream db' = Some c \<and>
    (\<exists>j \<in> set (ingest_journal db'). jr_source_id j = src \<and> jr_stream_id j = stream \<and>
       jr_first_sequence j = first \<and> jr_last_sequence j = last_seq \<and> jr_checksum j = check) \<and>
    tiled src stream (ingest_journal db')
      (case stream_offset src stream db of Some i \<Rightarrow> i | None \<Rightarrow> first - 1) c \<and>
    (\<forall>i. stream_offset src stream db = Some i \<longrightarrow> i \<le> c) \<and>
    (c < i64_max \<longrightarrow> journal_row_of src stream (c + 1) (ingest_journal db') = None)"
proof -
  define initial where "initial = (case stream_offset src stream db of Some i \<Rightarrow> i | None \<Rightarrow> first - 1)"
  have init: "initial = (case map_of (source_offsets db) (src, stream) of
      Some off \<Rightarrow> committed_through off | None \<Rightarrow> i64_saturating_sub first 1)"
    using f by (auto simp: initial_def stream_offset_def int_defs split: option.splits)
  define offsets where "offsets = (case map_of (source_offsets db) (src, stream) of
      Some off \<Rightarrow> source_offsets db | None \<Rightarrow> source_offsets db @
        [((src, stream), \<lparr>committed_through = initial, updated_at_ms = now\<rparr>)])"
  let ?row = "\<lparr>jr_source_id = src, jr_stream_id = stream, jr_first_sequence = first,
                 jr_last_sequence = last_seq, jr_checksum = check, jr_payload = data\<rparr>"
  let ?new = "\<lparr>committed_through = c, updated_at_ms = now\<rparr>"
  obtain journal where j: "(case journal_row_of src stream first (ingest_journal db) of
           Some j \<Rightarrow>
             if jr_last_sequence j \<noteq> last_seq \<or> jr_checksum j \<noteq> check
             then Inl (Backend ''conflicting replay for an existing journal sequence'')
             else Inr (ingest_journal db)
         | None \<Rightarrow> Inr (ingest_journal db @ [?row])) = Inr journal"
    and adv: "advance src stream journal initial = Inr c"
    and db': "db' = db\<lparr>ingest_journal := journal, source_offsets := map (\<lambda>(k, v). if k = (src, stream)
      then (k, ?new) else (k, v)) offsets\<rparr>"
    using a unfolding accept_journal_transaction_def Let_def init [symmetric] offsets_def [symmetric]
    by auto
  have rows: "\<forall>j \<in> set journal. journal_row_ok j" "distinct (map journal_key journal)"
    "\<forall>j. j \<in> set (ingest_journal db) \<longrightarrow> j \<in> set journal"
    and present: "\<exists>j \<in> set journal. jr_source_id j = src \<and> jr_stream_id j = stream \<and>
       jr_first_sequence j = first \<and> jr_last_sequence j = last_seq \<and> jr_checksum j = check"
  proof -
    have "(\<forall>j \<in> set journal. journal_row_ok j) \<and> distinct (map journal_key journal) \<and>
      (\<forall>j. j \<in> set (ingest_journal db) \<longrightarrow> j \<in> set journal) \<and>
      (\<exists>j \<in> set journal. jr_source_id j = src \<and> jr_stream_id j = stream \<and>
       jr_first_sequence j = first \<and> jr_last_sequence j = last_seq \<and> jr_checksum j = check)"
    proof (cases "journal_row_of src stream first (ingest_journal db)")
      case None
      then have "journal = ingest_journal db @ [?row]" using j by simp
      then show ?thesis
        using inv f chk None
        by (auto simp: journal_inv_def journal_row_ok_def journal_row_of_None journal_key_def)
    next
      case (Some r)
      then have "journal = ingest_journal db" "jr_last_sequence r = last_seq" "jr_checksum r = check"
        using j by (auto split: if_splits)
      then show ?thesis
        using inv journal_row_of_Some [OF Some] by (auto simp: journal_inv_def)
    qed
    then show "\<forall>j \<in> set journal. journal_row_ok j" "distinct (map journal_key journal)"
      "\<forall>j. j \<in> set (ingest_journal db) \<longrightarrow> j \<in> set journal"
      "\<exists>j \<in> set journal. jr_source_id j = src \<and> jr_stream_id j = stream \<and>
       jr_first_sequence j = first \<and> jr_last_sequence j = last_seq \<and> jr_checksum j = check"
      by blast+
  qed
  have "- 1 \<le> initial \<and> initial \<le> i64_max \<and>
    (\<forall>i. stream_offset src stream db = Some i \<longrightarrow> 0 \<le> i \<and> initial = i)"
  proof (cases "map_of (source_offsets db) (src, stream)")
    case None
    then show ?thesis using f by (simp add: initial_def stream_offset_def)
  next
    case (Some off)
    then have "((src, stream), off) \<in> set (source_offsets db)" by (rule map_of_SomeD)
    then have "0 \<le> committed_through off \<and> committed_through off \<le> i64_max"
      using inv by (auto simp: journal_inv_def)
    then show ?thesis using Some by (simp add: initial_def stream_offset_def)
  qed
  then have ib: "- 1 \<le> initial" "initial \<le> i64_max"
    "\<And>i. stream_offset src stream db = Some i \<Longrightarrow> 0 \<le> i \<and> initial = i"
    by auto
  have t: "tiled src stream journal initial c" "initial \<le> c" "c \<le> i64_max"
    "c < i64_max \<longrightarrow> journal_row_of src stream (c + 1) journal = None"
    using advance_spec [OF rows(1) ib(1,2), of src stream] adv by auto
  have c0: "0 \<le> c"
  proof (rule ccontr)
    assume "\<not> 0 \<le> c"
    then have "c = - 1" using t(2) ib(1) by simp
    then have "initial = - 1" and none: "journal_row_of src stream 0 journal = None"
      using t(2,4) ib(1) by (auto simp: int_defs)
    then have "stream_offset src stream db = None"
      using ib(3) by (cases "stream_offset src stream db") auto
    then have "first = 0" using \<open>initial = - 1\<close> by (simp add: initial_def)
    then show False using none present by (auto simp: journal_row_of_None)
  qed
  have dk: "distinct (map fst offsets)"
    and ok: "\<forall>(k, off) \<in> set offsets. k \<noteq> (src, stream) \<longrightarrow> 0 \<le> committed_through off \<and> committed_through off \<le> i64_max"
    using inv by (auto simp: offsets_def journal_inv_def map_of_eq_None_iff split: option.splits)
  have look: "map_of offsets (src, stream) \<noteq> None"
    "\<And>k. k \<noteq> (src, stream) \<Longrightarrow> map_of offsets k = map_of (source_offsets db) k"
    by (auto simp: offsets_def map_add_def split: option.splits)
  have "\<forall>(k, off) \<in> set (source_offsets db'). 0 \<le> committed_through off \<and> committed_through off \<le> i64_max"
    using ok c0 t(3) by (fastforce simp: db' split: if_splits)
  moreover have "map fst (source_offsets db') = map fst offsets"
    by (simp add: db' map_fst_map_key del: map_map)
  moreover have "ingest_journal db' = journal" by (simp add: db')
  ultimately have "journal_inv db'"
    using rows dk unfolding journal_inv_def by metis
  moreover have "journal_frame src stream db db'"
    using rows(3) look(2) by (auto simp: journal_frame_def db' stream_offset_def map_of_map_key)
  moreover have "stream_offset src stream db' = Some c"
    using look(1) by (auto simp: db' stream_offset_def map_of_map_key)
  moreover have "\<forall>i. stream_offset src stream db = Some i \<longrightarrow> i \<le> c" using ib(3) t(2) by auto
  moreover have "ingest_journal db' = journal" by (simp add: db')
  ultimately show ?thesis
    using t c0 present unfolding initial_def by metis
qed

lemma i64_arg_ok: "int n \<le> i64_max \<Longrightarrow> i64_arg n = Inr (int n)"
  by (simp add: i64_arg_def i64_try_from_def)

lemma i64_arg_Inr: "i64_arg n = Inr x \<longleftrightarrow> int n \<le> i64_max \<and> x = int n"
  by (simp add: i64_arg_def)

text \<open>Accepting a batch of well-typed arguments, on every branch.\<close>

lemma accept_journal_batch_cases:
  assumes inv: "journal_inv db" and chk: "length check = 32"
    and a: "accept_journal_batch src stream first last_seq check data now db = (res, db')"
  obtains (refused) e where "res = Inl e" "db' = db"
  | (accepted) c where "res = Inr c" "first \<le> last_seq"
      "accept_journal_transaction src stream (int first) (int last_seq) check data (int now) db = Inr (int c, db')"
      "int last_seq \<le> i64_max" "int now \<le> i64_max"
proof (cases "first \<le> last_seq \<and> int last_seq \<le> i64_max \<and> int now \<le> i64_max")
  case False
  then have "\<exists>e. res = Inl e \<and> db' = db"
    using a by (auto simp: accept_journal_batch_def and_then_Inl i64_arg_def ok_or_def i64_try_from_def
        split: if_splits)
  then show ?thesis using refused by blast
next
  case True
  let ?f = "accept_journal_transaction src stream (int first) (int last_seq) check data (int now)"
  obtain r db1 where t: "transaction ?f db = (r, db1)" by fastforce
  have res: "(res, db') = (case r of Inl e \<Rightarrow> (Inl e, db1)
      | Inr c \<Rightarrow> (ok_or range_error (u64_try_from c), db1))"
    using a True t by (auto simp: accept_journal_batch_def i64_arg_ok split: sum.splits)
  from t show ?thesis
  proof (rule transaction_cases)
    fix e assume "r = Inl e" "db1 = db"
    then show ?thesis using res refused by simp
  next
    fix c assume c: "?f db = Inr (c, db1)" "r = Inr c"
    have "0 \<le> c"
      using accept_journal_transaction_spec [OF inv _ _ _ chk c(1)] True by simp
    then show ?thesis
      using accepted [of "nat c"] res c True by (simp add: u64_try_from_def)
  qed
qed

lemma accept_journal_batch_inv:
  assumes "journal_inv db" and "length check = 32"
    and "accept_journal_batch src stream first last_seq check data now db = (res, db')"
  shows "journal_inv db' \<and> journal_frame src stream db db'"
  using assms(1)
    accept_journal_transaction_spec [OF assms(1), of "int first" "int last_seq" check src stream data "int now"]
  by (cases rule: accept_journal_batch_cases [OF assms]) (auto simp: assms(2) journal_frame_def)

text \<open>A replay of an accepted batch is accepted with the same offset and changes no batch.\<close>

lemma accept_journal_replay:
  assumes inv: "journal_inv db" and chk: "length check = 32"
    and a: "accept_journal_batch src stream first last_seq check data now db = (Inr c, db')"
    and c: "int c < i64_max" and now: "int now' \<le> i64_max"
  shows "\<exists>db''. accept_journal_batch src stream first last_seq check data' now' db' = (Inr c, db'') \<and>
    ingest_journal db'' = ingest_journal db'"
proof -
  have t: "accept_journal_transaction src stream (int first) (int last_seq) check data (int now) db = Inr (int c, db')"
    and b: "first \<le> last_seq" "int last_seq \<le> i64_max"
    by (rule accept_journal_batch_cases [OF inv chk a]; simp)+
  have s: "journal_inv db'" "stream_offset src stream db' = Some (int c)"
    "\<exists>j \<in> set (ingest_journal db'). jr_source_id j = src \<and> jr_stream_id j = stream \<and>
       jr_first_sequence j = int first \<and> jr_last_sequence j = int last_seq \<and> jr_checksum j = check"
    "journal_row_of src stream (int c + 1) (ingest_journal db') = None"
    using accept_journal_transaction_spec [OF inv _ _ _ chk t] b c by simp_all
  then obtain j where j: "j \<in> set (ingest_journal db')" "jr_source_id j = src" "jr_stream_id j = stream"
    "jr_first_sequence j = int first" "jr_last_sequence j = int last_seq" "jr_checksum j = check" by blast
  have "journal_row_of src stream (int first) (ingest_journal db') = Some j"
    using journal_row_of_key [of "ingest_journal db'" j] s(1) j by (simp add: journal_inv_def)
  moreover obtain off where off: "map_of (source_offsets db') (src, stream) = Some off"
    "committed_through off = int c"
    using s(2) by (auto simp: stream_offset_def)
  moreover have "i64_saturating_add (int c) 1 = int c + 1" using c by (simp add: int_defs)
  then have "advance src stream (ingest_journal db') (int c) = Inr (int c)"
    using s(4) by (simp add: advance.simps [of src stream "ingest_journal db'" "int c"])
  ultimately obtain db'' where
    "accept_journal_transaction src stream (int first) (int last_seq) check data' (int now') db' = Inr (int c, db'')"
    "ingest_journal db'' = ingest_journal db'"
    using j by (simp add: accept_journal_transaction_def Let_def)
  then show ?thesis
    using b now by (intro exI [of _ db''])
      (simp add: accept_journal_batch_def i64_arg_ok transaction_def u64_try_from_def)
qed

section \<open>Pending batches\<close>

lemma journal_batch_of_ok:
  "journal_row_ok j \<Longrightarrow> journal_batch_of j = Inr \<lparr>jb_source_id = jr_source_id j,
     jb_stream_id = jr_stream_id j, jb_first_sequence = nat (jr_first_sequence j),
     jb_last_sequence = nat (jr_last_sequence j), jb_checksum = jr_checksum j, jb_payload = jr_payload j\<rparr>"
  by (simp add: journal_row_ok_def journal_batch_of_def u64_try_from_def)

lemma pending_journal_batches_spec:
  assumes "journal_inv db"
  shows "\<exists>bs. pending_journal_batches db = Inr bs \<and> length bs = length (ingest_journal db) \<and>
    (\<forall>j \<in> set (ingest_journal db). \<exists>b \<in> set bs. journal_batch_of j = Inr b) \<and>
    (\<forall>b \<in> set bs. \<exists>j \<in> set (ingest_journal db). journal_batch_of j = Inr b)"
proof -
  define g where "g = (\<lambda>j::journal_row. \<lparr>jb_source_id = jr_source_id j,
     jb_stream_id = jr_stream_id j, jb_first_sequence = nat (jr_first_sequence j),
     jb_last_sequence = nat (jr_last_sequence j), jb_checksum = jr_checksum j, jb_payload = jr_payload j\<rparr>)"
  let ?js = "sort_key (\<lambda>j. (jr_source_id j, jr_stream_id j, jr_first_sequence j)) (ingest_journal db)"
  have g: "journal_batch_of j = Inr (g j)" if "j \<in> set (ingest_journal db)" for j
    using assms that journal_batch_of_ok [of j] by (simp add: journal_inv_def g_def)
  have "pending_journal_batches db = Inr (map g ?js)"
    unfolding pending_journal_batches_def by (rule collect_results_map) (simp add: g)
  moreover have "length (map g ?js) = length (ingest_journal db)" by simp
  ultimately show ?thesis using g by (intro exI [of _ "map g ?js"]) auto
qed

lemma retire_journal_through_spec:
  assumes "journal_inv db" and "retire_journal_through src stream p db = (res, db')"
  shows "journal_inv db' \<and> source_offsets db' = source_offsets db \<and>
    set (ingest_journal db') \<subseteq> set (ingest_journal db) \<and>
    (\<forall>j \<in> set (ingest_journal db). j \<notin> set (ingest_journal db') \<longrightarrow>
       jr_source_id j = src \<and> jr_stream_id j = stream \<and> jr_last_sequence j \<le> int p) \<and>
    db' = db\<lparr>ingest_journal := ingest_journal db'\<rparr>"
  using assms
  by (auto simp: retire_journal_through_def i64_arg_def Let_def journal_inv_def distinct_map_filter ok_or_def
      i64_try_from_def split: if_splits)

end
