(* ===== verification/SqliteWriter.thy ===== *)
theory SqliteWriter
  imports SqliteJournal
begin

text \<open>
  The writer thread of \<^verbatim>\<open>src/storage/sqlite_async.rs\<close>: the commands other tasks send it, applied to
  the database one at a time, and the databases they reach. Every reachable database satisfies the
  invariants of blocks and journal, so the readers' queries always succeed. Opening connections,
  the channel between the tasks and the thread, and the WAL maintenance commands' effect on the
  file are input/output; on the tables those commands do nothing.
\<close>

datatype writer_command =
    Append "canonical_record list list"
  | Checkpoint
  | MaintainSpace
  | TouchChannelRequested string nat nat
  | AcceptJournal string string nat nat bytes bytes nat
  | RetireJournal string string nat
  | PendingJournal
  | EvictBlocks "nat list"
  | ExpireBlocks int
  | PurgeChannel string int
  | SetChannelBlocked string bool
  | SyncBlockedChannels "string list"
  | SyncAlwaysJoinChannels "string list"

text \<open>The response sent back through the command's oneshot channel.\<close>

datatype writer_reply =
    Done "store_error + unit"
  | Changed "store_error + bool"
  | Committed "store_error + nat"
  | Removed "store_error + nat"
  | Pending "store_error + journal_batch list"
  | Expired "store_error + nat \<times> nat"

definition apply_command ::
    "codec \<Rightarrow> sqlite_config \<Rightarrow> writer_command \<Rightarrow> sqlite_db \<Rightarrow> writer_reply \<times> sqlite_db" where
  "apply_command cd cfg cmd db =
     (case cmd of
        Append batches \<Rightarrow> map_prod Done id (append_channel_batches cd cfg batches db)
      | Checkpoint \<Rightarrow> (Done (Inr ()), db)
      | MaintainSpace \<Rightarrow> (Done (Inr ()), db)
      | TouchChannelRequested ch r c \<Rightarrow> map_prod Changed id (touch_channel_requested ch r c db)
      | AcceptJournal src stream f l check data now \<Rightarrow>
          map_prod Committed id (accept_journal_batch src stream f l check data now db)
      | RetireJournal src stream p \<Rightarrow> map_prod Removed id (retire_journal_through src stream p db)
      | PendingJournal \<Rightarrow> (Pending (pending_journal_batches db), db)
      | EvictBlocks ids \<Rightarrow> map_prod Removed id (evict_block_ids ids db)
      | ExpireBlocks cutoff \<Rightarrow> map_prod Expired id (expire_blocks_before cutoff 0 0 db)
      | PurgeChannel ch t \<Rightarrow> map_prod Removed id (purge_channel ch t db)
      | SetChannelBlocked ch b \<Rightarrow> map_prod Removed id (set_channel_blocked ch b db)
      | SyncBlockedChannels chs \<Rightarrow> map_prod Done id (sync_blocked_channels chs db)
      | SyncAlwaysJoinChannels chs \<Rightarrow> map_prod Done id (sync_always_join_channels chs db))"

text \<open>
  Arguments the types of the code allow: a batch whose length does not overflow a channel's \<open>i64\<close>
  count, and a checksum of 32 bytes.
\<close>

definition batch_fits :: "int \<Rightarrow> canonical_record list \<Rightarrow> bool" where
  "batch_fits N batch \<longleftrightarrow> N + int (length batch) \<le> i64_max"

fun command_fits :: "int \<Rightarrow> writer_command \<Rightarrow> bool" where
  "command_fits N (Append batches) = list_all (batch_fits N) batches"
| "command_fits N (AcceptJournal src stream f l check data now) = (length check = 32)"
| "command_fits N _ = True"

definition setup_ok :: "codec \<Rightarrow> sqlite_config \<Rightarrow> int \<Rightarrow> bool" where
  "setup_ok cd cfg N \<longleftrightarrow> codec_ok cd \<and> config_ok cfg \<and> allowed_i64 cfg \<le> N"

inductive writer_reachable :: "codec \<Rightarrow> sqlite_config \<Rightarrow> int \<Rightarrow> sqlite_db \<Rightarrow> bool"
  for cd :: codec and cfg :: sqlite_config and N :: int where
  reachable_empty: "writer_reachable cd cfg N empty_db"
| reachable_command: "writer_reachable cd cfg N db \<Longrightarrow> command_fits N cmd \<Longrightarrow>
    apply_command cd cfg cmd db = (reply, db') \<Longrightarrow> writer_reachable cd cfg N db'"

fun run_commands :: "codec \<Rightarrow> sqlite_config \<Rightarrow> writer_command list \<Rightarrow> sqlite_db \<Rightarrow> sqlite_db" where
  "run_commands cd cfg [] db = db"
| "run_commands cd cfg (cmd # cmds) db = run_commands cd cfg cmds (snd (apply_command cd cfg cmd db))"

section \<open>Appending several batches\<close>

lemma setup_okD:
  "setup_ok cd cfg N \<Longrightarrow> codec_ok cd" "setup_ok cd cfg N \<Longrightarrow> config_ok cfg"
  "setup_ok cd cfg N \<Longrightarrow> allowed_i64 cfg \<le> N" "setup_ok cd cfg N \<Longrightarrow> 0 \<le> N"
  using allowed_i64_nonneg [of cfg] by (auto simp: setup_ok_def)

lemma append_batches_Cons:
  "append_batches cd cfg (b # bs) db =
     (if b = [] then append_batches cd cfg bs db
      else if mixed_batch b then Inl MixedChannelBatch
      else and_then (append_transaction cd cfg (channel_key (hd b)) b db) (append_batches cd cfg bs))"
  by (cases b) (simp_all add: mixed_batch_def)

lemma append_batches_inv:
  assumes "setup_ok cd cfg N" and "db_inv cd N db" and "list_all (batch_fits N) bs"
    and "append_batches cd cfg bs db = Inr (u, db')"
  shows "db_inv cd N db' \<and> other_tables_same db db' \<and>
    (\<forall>ch r. r \<in> set (sql_retained cd db' ch) \<longrightarrow> r \<in> set (sql_retained cd db ch) \<or> r \<in> set (concat bs))"
  using assms(2-)
proof (induction bs arbitrary: db)
  case (Cons b bs)
  show ?case
  proof (cases "b = []")
    case True
    then show ?thesis using Cons by (simp add: append_batches_Cons del: append_batches.simps(2))
  next
    case False
    let ?ch = "channel_key (hd b)"
    obtain db1 where a: "append_transaction cd cfg ?ch b db = Inr db1"
      and rest: "append_batches cd cfg bs db1 = Inr (u, db')" and m: "\<not> mixed_batch b"
      using Cons.prems(3) False by (auto simp: append_batches_Cons simp del: append_batches.simps(2) split: if_splits)
    have chan: "\<forall>r \<in> set b. channel_key r = ?ch" using not_mixed_batch [OF m] by blast
    have r1: "append_result cd cfg N ?ch b db db1"
      by (rule append_transaction_spec [OF setup_okD(1-2) [OF assms(1)] Cons.prems(1) setup_okD(3) [OF assms(1)] _ chan a])
         (use Cons.prems(2) in \<open>simp add: batch_fits_def\<close>)
    have in1: "r \<in> set (sql_retained cd db ch) \<or> r \<in> set b" if "r \<in> set (sql_retained cd db1 ch)" for r ch
    proof (cases "ch = ?ch")
      case True
      then show ?thesis
        using r1 that after_cutoff_sub [of db ?ch b]
        by (auto simp: append_result_def dest: append_outcome_member split: if_splits)
    next
      case False
      then show ?thesis using r1 that by (simp add: append_result_def)
    qed
    have "db_inv cd N db' \<and> other_tables_same db1 db' \<and> (\<forall>ch r. r \<in> set (sql_retained cd db' ch) \<longrightarrow>
        r \<in> set (sql_retained cd db1 ch) \<or> r \<in> set (concat bs))"
      by (rule Cons.IH) (use r1 rest Cons.prems(2) in \<open>simp_all add: append_result_def\<close>)
    moreover have "other_tables_same db db1" using r1 by (simp add: append_result_def)
    ultimately show ?thesis
      using other_tables_same_trans [of db db1 db'] in1 by (auto dest!: in1)
  qed
qed simp

lemma append_batches_error:
  assumes "setup_ok cd cfg N" and "db_inv cd N db" and "list_all (batch_fits N) bs"
    and "append_batches cd cfg bs db = Inl e"
  shows "e = MixedChannelBatch \<or> (\<exists>be. e = Block be)"
  using assms(2-)
proof (induction bs arbitrary: db)
  case (Cons b bs)
  show ?case
  proof (cases "b = [] \<or> mixed_batch b")
    case True
    then show ?thesis
      using Cons by (auto simp: append_batches_Cons simp del: append_batches.simps(2) split: if_splits)
  next
    case False
    let ?ch = "channel_key (hd b)"
    have chan: "\<forall>r \<in> set b. channel_key r = ?ch" using not_mixed_batch [of b] False by blast
    show ?thesis
    proof (cases "append_transaction cd cfg ?ch b db")
      case (Inl e')
      then have "e' = e" using Cons.prems(3) False
        by (simp add: append_batches_Cons del: append_batches.simps(2))
      then show ?thesis
        using append_transaction_error [OF setup_okD(1-2) [OF assms(1)] Cons.prems(1) setup_okD(4) [OF assms(1)] chan Inl]
        by simp
    next
      case (Inr db1)
      have "append_result cd cfg N ?ch b db db1"
        by (rule append_transaction_spec [OF setup_okD(1-2) [OF assms(1)] Cons.prems(1) setup_okD(3) [OF assms(1)] _ chan Inr])
           (use Cons.prems(2) in \<open>simp add: batch_fits_def\<close>)
      then show ?thesis
        using Cons.IH [of db1] Cons.prems(2,3) False Inr
        by (simp add: append_batches_Cons append_result_def del: append_batches.simps(2))
    qed
  qed
qed simp

lemma append_channel_batches_inv:
  assumes "setup_ok cd cfg N" and "db_inv cd N db" and "list_all (batch_fits N) bs"
    and "append_channel_batches cd cfg bs db = (res, db')"
  shows "db_inv cd N db' \<and> other_tables_same db db' \<and>
    (\<forall>ch r. r \<in> set (sql_retained cd db' ch) \<longrightarrow> r \<in> set (sql_retained cd db ch) \<or> r \<in> set (concat bs))"
proof -
  from assms(4) have "transaction (append_batches cd cfg bs) db = (res, db')"
    by (simp add: append_channel_batches_def)
  then show ?thesis
    by (rule transaction_cases) (use assms(2) append_batches_inv [OF assms(1-3)] in auto)
qed

text \<open>\<open>append_batch\<close> of the blocking store and of the async store do the same.\<close>

lemma sql_append_batch_single:
  "sql_append_batch cd cfg db rs = append_channel_batches cd cfg [rs] db"
  by (cases rs) (auto simp: sql_append_batch_def append_channel_batches_def transaction_def and_then_Inl
      split: sum.splits)

section \<open>Every command keeps the invariants\<close>

lemma journal_inv_same:
  "journal_inv db \<Longrightarrow> other_tables_same db db' \<Longrightarrow> journal_inv db'"
  by (simp add: journal_inv_def other_tables_same_def)

lemma drop_channel_journal [simp]:
  "ingest_journal (drop_channel ch db) = ingest_journal db"
  "source_offsets (drop_channel ch db) = source_offsets db"
  by (simp_all add: drop_channel_def delete_channel_rows_def delete_block_rows_def Let_def)

lemma insert_blocked_journal:
  "insert_blocked chs db = Inr db' \<Longrightarrow>
     ingest_journal db' = ingest_journal db \<and> source_offsets db' = source_offsets db"
  by (induction chs arbitrary: db) (force split: if_splits)+

lemma sync_blocked_journal:
  assumes "sync_blocked_channels chs db = (res, db')"
  shows "ingest_journal db' = ingest_journal db \<and> source_offsets db' = source_offsets db"
proof -
  have "transaction (\<lambda>db. and_then (insert_blocked chs (db\<lparr>blocked_channels := []\<rparr>))
      (\<lambda>db'. Inr ((), db'))) db = (res, db')"
    using assms by (simp add: sync_blocked_channels_def)
  then show ?thesis
    by (rule transaction_cases) (auto dest: insert_blocked_journal)
qed

lemma journal_inv_eq:
  "journal_inv db \<Longrightarrow> ingest_journal db' = ingest_journal db \<Longrightarrow>
     source_offsets db' = source_offsets db \<Longrightarrow> journal_inv db'"
  by (simp add: journal_inv_def)

lemma db_inv_journal:
  "db_inv cd N db \<Longrightarrow> db' = db\<lparr>ingest_journal := j, source_offsets := s\<rparr> \<Longrightarrow> db_inv cd N db'"
  by (rule db_inv_lists [of cd N db]) (use db_invD(6,7) in auto)

definition cutoffs_grow :: "sqlite_db \<Rightarrow> sqlite_db \<Rightarrow> bool" where
  "cutoffs_grow db db' \<longleftrightarrow>
     (\<forall>ch t. map_of (purge_cutoffs db) ch = Some t \<longrightarrow>
        (\<exists>t'. map_of (purge_cutoffs db') ch = Some t' \<and> t \<le> t'))"

lemma cutoffs_grow_eq: "purge_cutoffs db' = purge_cutoffs db \<Longrightarrow> cutoffs_grow db db'"
  by (simp add: cutoffs_grow_def)

lemma cutoffs_grow_trans: "cutoffs_grow a b \<Longrightarrow> cutoffs_grow b c \<Longrightarrow> cutoffs_grow a c"
  unfolding cutoffs_grow_def by (meson order_trans)

lemma cutoffs_grow_other: "other_tables_same db db' \<Longrightarrow> cutoffs_grow db db'"
  by (simp add: other_tables_same_def cutoffs_grow_eq)

definition store_inv :: "codec \<Rightarrow> int \<Rightarrow> sqlite_db \<Rightarrow> bool" where
  "store_inv cd N db \<longleftrightarrow> db_inv cd N db \<and> journal_inv db"

lemma apply_command_inv:
  assumes ok: "setup_ok cd cfg N" and inv: "store_inv cd N db" and fits: "command_fits N cmd"
    and a: "apply_command cd cfg cmd db = (reply, db')"
  shows "store_inv cd N db' \<and> cutoffs_grow db db'"
proof -
  have d: "db_inv cd N db" and j: "journal_inv db" using inv by (simp_all add: store_inv_def)
  have N: "0 \<le> N" by (rule setup_okD(4) [OF ok])
  note same = journal_inv_same [OF j] cutoffs_grow_other [of db db']
  show ?thesis
  proof (cases cmd)
    case (Append batches)
    then obtain res where "append_channel_batches cd cfg batches db = (res, db')"
      using a by (auto simp: apply_command_def map_prod_def split: prod.splits)
    then show ?thesis
      using append_channel_batches_inv [OF ok d] fits Append same by (auto simp: store_inv_def)
  next
    case (TouchChannelRequested ch r c)
    then obtain res where "touch_channel_requested ch r c db = (res, db')"
      using a by (auto simp: apply_command_def map_prod_def split: prod.splits)
    then show ?thesis
      using touch_channel_requested_inv [OF d N] same by (auto simp: store_inv_def)
  next
    case (AcceptJournal src stream f l check data now)
    then obtain res where "accept_journal_batch src stream f l check data now db = (res, db')"
      using a by (auto simp: apply_command_def map_prod_def split: prod.splits)
    then have "journal_inv db' \<and> journal_frame src stream db db'"
      using accept_journal_batch_inv [OF j] fits AcceptJournal by auto
    then have "journal_inv db'" and
      db': "db' = db\<lparr>ingest_journal := ingest_journal db', source_offsets := source_offsets db'\<rparr>"
      by (auto simp: journal_frame_def)
    moreover have "purge_cutoffs db' = purge_cutoffs db" by (subst db') simp
    ultimately show ?thesis
      using db_inv_journal [OF d db'] cutoffs_grow_eq by (simp add: store_inv_def)
  next
    case (RetireJournal src stream p)
    then obtain res where "retire_journal_through src stream p db = (res, db')"
      using a by (auto simp: apply_command_def map_prod_def split: prod.splits)
    note r = retire_journal_through_spec [OF j this]
    then have db': "db' = db\<lparr>ingest_journal := ingest_journal db', source_offsets := source_offsets db\<rparr>"
      by simp
    have "purge_cutoffs db' = purge_cutoffs db" by (subst db') simp
    then show ?thesis
      using r db_inv_journal [OF d db'] cutoffs_grow_eq by (simp add: store_inv_def)
  next
    case (EvictBlocks ids)
    then obtain res where "evict_block_ids ids db = (res, db')"
      using a by (auto simp: apply_command_def map_prod_def split: prod.splits)
    then show ?thesis
      using evict_block_ids_spec [OF d] same by (auto simp: store_inv_def)
  next
    case (ExpireBlocks cutoff)
    obtain stats db1 where e: "expire_blocks_before cutoff 0 0 db = (Inr stats, db1)"
      "db_inv cd N db1" "other_tables_same db db1"
      using expire_blocks_before_spec [OF d, of cutoff 0 0] by blast
    then have "db' = db1" using a ExpireBlocks by (simp add: apply_command_def)
    then show ?thesis using e(2,3) same by (simp add: store_inv_def)
  next
    case (PurgeChannel ch t)
    then obtain res where p: "purge_channel ch t db = (res, db')"
      using a by (auto simp: apply_command_def map_prod_def split: prod.splits)
    have "cutoffs_grow db db'"
      unfolding cutoffs_grow_def
    proof (intro allI impI)
      fix k t0 assume "map_of (purge_cutoffs db) k = Some t0"
      then show "\<exists>t'. map_of (purge_cutoffs db') k = Some t' \<and> t0 \<le> t'"
        using purge_channel_spec [OF d p] by (cases "k = ch") auto
    qed
    moreover have "journal_inv db'"
      by (rule journal_inv_eq [OF j]) (use p in \<open>auto simp: purge_channel_def Let_def\<close>)
    ultimately show ?thesis using purge_channel_spec [OF d p] by (simp add: store_inv_def)
  next
    case (SetChannelBlocked ch b)
    then obtain res where s: "set_channel_blocked ch b db = (res, db')"
      using a by (auto simp: apply_command_def map_prod_def split: prod.splits)
    have "journal_inv db'"
      by (rule journal_inv_eq [OF j]) (use s in \<open>auto simp: set_channel_blocked_def split: if_splits\<close>)
    then show ?thesis
      using set_channel_blocked_spec [OF d s] cutoffs_grow_eq by (simp add: store_inv_def)
  next
    case (SyncBlockedChannels chs)
    then obtain res where s: "sync_blocked_channels chs db = (res, db')"
      using a by (auto simp: apply_command_def map_prod_def split: prod.splits)
    have "journal_inv db'" using sync_blocked_journal [OF s] journal_inv_eq [OF j] by blast
    moreover have "purge_cutoffs db' = purge_cutoffs db"
      using sync_blocked_channels_spec [OF d s] by (cases res) auto
    ultimately show ?thesis
      using sync_blocked_channels_spec [OF d s] cutoffs_grow_eq by (simp add: store_inv_def)
  next
    case (SyncAlwaysJoinChannels chs)
    then obtain res where s: "sync_always_join_channels chs db = (res, db')"
      using a by (auto simp: apply_command_def map_prod_def split: prod.splits)
    have "db' = db \<or> db' = db\<lparr>always_join_channels := chs\<rparr>"
      using sync_always_join_channels_spec [OF d s] by (cases res) auto
    then have "journal_inv db'" "purge_cutoffs db' = purge_cutoffs db"
      using j by (auto simp: journal_inv_def)
    then show ?thesis
      using sync_always_join_channels_spec [OF d s] cutoffs_grow_eq by (simp add: store_inv_def)
  qed (use a inv in \<open>simp_all add: apply_command_def cutoffs_grow_eq\<close>)
qed

lemma journal_inv_empty [simp]: "journal_inv empty_db"
  by (simp add: journal_inv_def empty_db_def)

lemma writer_reachable_inv:
  assumes "setup_ok cd cfg N" and "writer_reachable cd cfg N db"
  shows "store_inv cd N db"
  using assms(2)
proof (induction rule: writer_reachable.induct)
  case reachable_empty
  then show ?case using setup_okD(4) [OF assms(1)] by (simp add: store_inv_def)
next
  case (reachable_command db cmd reply db')
  then show ?case using apply_command_inv [OF assms(1)] by blast
qed

lemma run_commands_inv:
  assumes "setup_ok cd cfg N" and "store_inv cd N db" and "list_all (command_fits N) cmds"
  shows "store_inv cd N (run_commands cd cfg cmds db) \<and> cutoffs_grow db (run_commands cd cfg cmds db)"
  using assms(2,3)
proof (induction cmds arbitrary: db)
  case (Cons cmd cmds)
  obtain reply db1 where a: "apply_command cd cfg cmd db = (reply, db1)" by fastforce
  have f: "command_fits N cmd" using Cons.prems(2) by simp
  note s = apply_command_inv [OF assms(1) Cons.prems(1) f a]
  have "store_inv cd N (run_commands cd cfg cmds db1) \<and> cutoffs_grow db1 (run_commands cd cfg cmds db1)"
    by (rule Cons.IH) (use s Cons.prems(2) in auto)
  then show ?case using a s cutoffs_grow_trans [of db db1] by auto
qed (simp add: cutoffs_grow_def)

lemma run_commands_reachable:
  "writer_reachable cd cfg N db \<Longrightarrow> list_all (command_fits N) cmds \<Longrightarrow>
     writer_reachable cd cfg N (run_commands cd cfg cmds db)"
proof (induction cmds arbitrary: db)
  case (Cons cmd cmds)
  obtain reply db1 where "apply_command cd cfg cmd db = (reply, db1)" by fastforce
  then show ?case using Cons reachable_command by fastforce
qed simp

section \<open>The SQLite store implements the storage interface\<close>

definition sql_invar :: "codec \<Rightarrow> sqlite_config \<Rightarrow> int \<Rightarrow> sqlite_db \<Rightarrow> bool" where
  "sql_invar cd cfg N db \<longleftrightarrow> setup_ok cd cfg N \<and> db_inv cd N db"

lemma append_frame_channel:
  assumes ok: "setup_ok cd cfg N" and inv: "db_inv cd N db" and fits: "batch_fits N rs"
    and a: "append_channel_batches cd cfg [rs] db = (res, db')" and ch: "ch \<notin> channel_key ` set rs"
  shows "sql_retained cd db' ch = sql_retained cd db ch"
proof -
  from a have "transaction (append_batches cd cfg [rs]) db = (res, db')"
    by (simp add: append_channel_batches_def)
  then show ?thesis
  proof (rule transaction_cases)
    fix u assume u: "append_batches cd cfg [rs] db = Inr (u, db')"
    show ?thesis
    proof (cases "rs = []")
      case True
      then show ?thesis using u by simp
    next
      case False
      let ?ch = "channel_key (hd rs)"
      have t: "append_transaction cd cfg ?ch rs db = Inr db'" and m: "\<not> mixed_batch rs"
        using u False by (auto simp: append_batches_Cons simp del: append_batches.simps(2) split: if_splits)
      have chan: "\<forall>r \<in> set rs. channel_key r = ?ch" using not_mixed_batch [OF m] by blast
      have "append_result cd cfg N ?ch rs db db'"
        by (rule append_transaction_spec [OF setup_okD(1-2) [OF ok] inv setup_okD(3) [OF ok] _ chan t])
           (use fits in \<open>simp add: batch_fits_def\<close>)
      moreover have "ch \<noteq> ?ch" using ch False by auto
      ultimately show ?thesis by (simp add: append_result_def)
    qed
  qed simp
qed

interpretation sql: message_store
  "\<lambda>db rs. append_channel_batches cd cfg [rs] db" "sql_query cd" "sql_retained cd"
  "sql_invar cd cfg N" "batch_fits N"
  for cd cfg N
proof unfold_locales
  show "limit q = 0 \<Longrightarrow> sql_query cd s q = Inl InvalidLimit" for q s
    by (simp add: sql_query_def)
  show "sql_invar cd cfg N s \<Longrightarrow> limit q \<noteq> 0 \<Longrightarrow>
      sql_query cd s q = Inr (answer_query q (sql_retained cd s (qr_channel_key q)))" for s q
    unfolding sql_invar_def using sql_query_answer by blast
  show "mixed_batch rs \<Longrightarrow> append_channel_batches cd cfg [rs] s = (Inl MixedChannelBatch, s)" for rs s
    by (auto simp: append_channel_batches_def transaction_def append_batches_Cons mixed_batch_def
        simp del: append_batches.simps(2) split: list.splits)
  show "sql_invar cd cfg N s \<Longrightarrow> batch_fits N rs \<Longrightarrow>
      append_channel_batches cd cfg [rs] s = (res, s') \<Longrightarrow> sql_invar cd cfg N s'" for s rs res s'
    unfolding sql_invar_def using append_channel_batches_inv [of cd cfg N s "[rs]"] by auto
  show "sql_invar cd cfg N s \<Longrightarrow> batch_fits N rs \<Longrightarrow>
      append_channel_batches cd cfg [rs] s = (res, s') \<Longrightarrow> ch \<notin> channel_key ` set rs \<Longrightarrow>
      sql_retained cd s' ch = sql_retained cd s ch" for s rs res s' ch
    unfolding sql_invar_def using append_frame_channel by blast
  show "sql_invar cd cfg N s \<Longrightarrow> batch_fits N rs \<Longrightarrow>
      append_channel_batches cd cfg [rs] s = (res, s') \<Longrightarrow> r \<in> set (sql_retained cd s' ch) \<Longrightarrow>
      r \<in> set (sql_retained cd s ch) \<or> r \<in> set rs" for s rs res s' r ch
    unfolding sql_invar_def using append_channel_batches_inv [of cd cfg N s "[rs]"] by auto
  show "sql_invar cd cfg N s \<Longrightarrow> r \<in> set (sql_retained cd s ch) \<Longrightarrow> channel_key r = ch" for s r ch
    unfolding sql_invar_def using sql_retained_channel by blast
qed

section \<open>Examples\<close>

definition ex_record :: "int \<Rightarrow> u8 \<Rightarrow> source_fidelity \<Rightarrow> canonical_record" where
  "ex_record t k f = \<lparr>channel_key = ''a'', event_at_ms = t, received_at_ms = t, event_key = [k],
     source_id = [], fidelity = f, raw_irc = []\<rparr>"

definition ex_batch1 :: "canonical_record list" where
  "ex_batch1 = [ex_record 1 1 Unknown, ex_record 2 2 Unknown]"

definition ex_batch2 :: "canonical_record list" where
  "ex_batch2 = [ex_record 2 2 DirectIrc, ex_record 3 3 Unknown]"

definition ex_codec :: codec where
  "ex_codec = table_codec [ex_batch1, ex_batch2, [ex_record 1 1 Unknown, ex_record 2 2 DirectIrc],
     [ex_record 3 3 Unknown], [ex_record 2 2 Unknown]]"

definition ex_cfg :: sqlite_config where
  "ex_cfg = \<lparr>sc_block_messages = 2, sc_target_messages_per_channel = 2, sc_compression_level = 3\<rparr>"

definition ex_db :: sqlite_db where
  "ex_db = run_commands ex_codec ex_cfg [Append [ex_batch1]] empty_db"

lemma ex_setup: "setup_ok ex_codec ex_cfg 3"
  unfolding setup_ok_def ex_codec_def using table_codec_ok
  by (simp add: config_ok_def ex_cfg_def allowed_i64_def sql_allowed_def allowed_messages_def int_defs)

lemma ex_fits: "batch_fits 3 ex_batch1" "batch_fits 3 ex_batch2"
  by (simp_all add: batch_fits_def ex_batch1_def ex_batch2_def int_defs)

lemma ex_reachable: "writer_reachable ex_codec ex_cfg 3 ex_db"
  unfolding ex_db_def by (rule run_commands_reachable [OF reachable_empty]) (simp add: ex_fits)

lemma ex_append: "fst (sql_append_batch ex_codec ex_cfg ex_db ex_batch2) = Inr ()"
  by code_simp

section \<open>Properties\<close>



text \<open>
  An append fails only because the batch mixes channels or because the block codec refuses a
  block, and a failed append leaves the database exactly as it was.
\<close>

theorem sql_append_failure:
  assumes "setup_ok cd cfg N" and "writer_reachable cd cfg N db" and "batch_fits N rs"
    and "sql_append_batch cd cfg db rs = (Inl e, db')"
  shows "db' = db \<and> (e = MixedChannelBatch \<and> mixed_batch rs \<or> (\<exists>be. e = Block be))"
proof -
  have inv: "db_inv cd N db" using writer_reachable_inv [OF assms(1,2)] by (simp add: store_inv_def)
  show ?thesis
  proof (cases "mixed_batch rs")
    case True
    then show ?thesis
      using assms(4) by (auto simp: sql_append_batch_def mixed_batch_def split: list.splits)
  next
    case False
    then have t: "append_transaction cd cfg (channel_key (hd rs)) rs db = Inl e" and "db' = db"
      using assms(4)
      by (auto simp: sql_append_batch_def transaction_def mixed_batch_def and_then_Inl
          split: list.splits sum.splits if_splits)
    moreover have "\<forall>r \<in> set rs. channel_key r = channel_key (hd rs)"
      using not_mixed_batch [OF False] by blast
    ultimately show ?thesis
      using append_transaction_error [OF setup_okD(1-2) [OF assms(1)] inv setup_okD(4) [OF assms(1)] _ t]
      by simp
  qed
qed

theorem sql_append_failure_witness:
  "sql_append_batch ex_codec ex_cfg ex_db [ex_record 9 9 Unknown] = (Inl (Block Encode), ex_db)"
proof -
  have e: "fst (sql_append_batch ex_codec ex_cfg ex_db [ex_record 9 9 Unknown]) = Inl (Block Encode)"
    by code_simp
  then obtain db' where a: "sql_append_batch ex_codec ex_cfg ex_db [ex_record 9 9 Unknown] = (Inl (Block Encode), db')"
    by (metis prod.collapse)
  have "batch_fits 3 [ex_record 9 9 Unknown]" by (simp add: batch_fits_def int_defs)
  from sql_append_failure [OF ex_setup ex_reachable this a] a show ?thesis by simp
qed

text \<open>
  C37: on every database the writer reaches, a query with a positive limit succeeds with the newest
  records of the window that the channel retains, all of that channel and newer than its purge
  cutoff, and a blocked channel answers nothing.
\<close>

theorem reachable_query:
  assumes "setup_ok cd cfg N" and "writer_reachable cd cfg N db" and "0 < limit q"
  shows "\<exists>res. sql_query cd db q = Inr res \<and>
    valid_answer q (sql_retained cd db (qr_channel_key q)) (lr_records res) \<and>
    (\<forall>r \<in> set (lr_records res). channel_key r = qr_channel_key q \<and> in_window q r \<and>
       (\<forall>t. map_of (purge_cutoffs db) (qr_channel_key q) = Some t \<longrightarrow> t < received_at_ms r)) \<and>
    (qr_channel_key q \<in> set (blocked_channels db) \<longrightarrow> lr_records res = [])"
proof -
  have inv: "db_inv cd N db" using writer_reachable_inv [OF assms(1,2)] by (simp add: store_inv_def)
  have si: "sql_invar cd cfg N db" using inv assms(1) by (simp add: sql_invar_def)
  obtain res where res: "sql_query cd db q = Inr res"
    "valid_answer q (sql_retained cd db (qr_channel_key q)) (lr_records res)"
    using sql.query_ok [OF si, of q] assms(3) by auto
  have "\<forall>r \<in> set (lr_records res). channel_key r = qr_channel_key q \<and> in_window q r \<and>
      r \<in> set (sql_retained cd db (qr_channel_key q))"
    using sql.query_sound [OF si res(1)] by blast
  moreover have "sql_retained cd db (qr_channel_key q) = []"
    if "qr_channel_key q \<in> set (blocked_channels db)"
    using db_invD(6) [OF inv that] by (simp add: sql_retained_def records_of_def)
  ultimately show ?thesis
    using res db_invD(7) [OF inv] by (auto simp: sql_retained_def valid_answer_def)
qed

theorem reachable_query_witness:
  "\<exists>res. sql_query ex_codec ex_db \<lparr>qr_channel_key = ''a'', after_ms = Some 1, before_ms = None, limit = 5\<rparr> = Inr res \<and>
    (\<forall>r \<in> set (lr_records res). channel_key r = ''a'')"
  using reachable_query [OF ex_setup ex_reachable,
      of "\<lparr>qr_channel_key = ''a'', after_ms = Some 1, before_ms = None, limit = 5\<rparr>"] by auto

text \<open>
  The counters that the triggers maintain are exact on every reachable database: \<open>stats\<close> returns
  the number of channels, blocks and retained records and the sizes of the stored blocks.
\<close>

theorem reachable_stats:
  assumes "setup_ok cd cfg N" and "writer_reachable cd cfg N db"
  shows "sql_stats db = Inr \<lparr>st_channels = length (channel_table db),
    st_blocks = length (message_blocks db),
    st_messages = length (concat (map (row_records cd) (message_blocks db))),
    st_compressed_bytes = sum_list (map (\<lambda>r. length (row_payload r)) (message_blocks db)),
    st_uncompressed_bytes = sum_list (map (\<lambda>r. nat (row_uncompressed_bytes r)) (message_blocks db))\<rparr>"
  using writer_reachable_inv [OF assms] sql_stats_spec [of cd N db] by (simp add: store_inv_def)

theorem reachable_stats_witness:
  "sql_stats ex_db = Inr \<lparr>st_channels = length (channel_table ex_db),
    st_blocks = length (message_blocks ex_db),
    st_messages = length (concat (map (row_records ex_codec) (message_blocks ex_db))),
    st_compressed_bytes = sum_list (map (\<lambda>r. length (row_payload r)) (message_blocks ex_db)),
    st_uncompressed_bytes = sum_list (map (\<lambda>r. nat (row_uncompressed_bytes r)) (message_blocks ex_db))\<rparr>"
  by (rule reachable_stats [OF ex_setup ex_reachable])

text \<open>
  C11: a purge is durable: after purging a channel at time \<open>t\<close>, whatever commands follow, no query of
  the channel returns a record received at or before \<open>t\<close>, so replayed batches do not resurrect it.
\<close>

theorem purge_durable:
  assumes "setup_ok cd cfg N" and "writer_reachable cd cfg N db" and "list_all (command_fits N) cmds"
    and "purge_channel ch t db = (removed, db')"
    and "sql_query cd (run_commands cd cfg cmds db') q = Inr res" and "qr_channel_key q = ch"
    and "r \<in> set (lr_records res)"
  shows "t < received_at_ms r"
proof -
  have inv: "store_inv cd N db" by (rule writer_reachable_inv [OF assms(1,2)])
  then have d: "db_inv cd N db" by (simp add: store_inv_def)
  have a: "apply_command cd cfg (PurgeChannel ch t) db = (Removed removed, db')"
    by (simp add: apply_command_def assms(4))
  have inv': "store_inv cd N db'" using apply_command_inv [OF assms(1) inv _ a] by simp
  obtain t1 where t1: "map_of (purge_cutoffs db') ch = Some t1" "t \<le> t1"
    using purge_channel_spec [OF d assms(4)] by auto
  let ?db = "run_commands cd cfg cmds db'"
  note rc = run_commands_inv [OF assms(1) inv' assms(3)]
  obtain t2 where t2: "map_of (purge_cutoffs ?db) ch = Some t2" "t1 \<le> t2"
    using rc t1(1) by (auto simp: cutoffs_grow_def)
  have d2: "db_inv cd N ?db" using rc by (simp add: store_inv_def)
  then have "sql_invar cd cfg N ?db" using assms(1) by (simp add: sql_invar_def)
  then have "r \<in> set (sql_retained cd ?db ch)"
    using sql.query_sound [OF _ assms(5,7)] assms(6) by blast
  then have "t2 < received_at_ms r"
    using db_invD(7) [OF d2 t2(1)] by (simp add: sql_retained_def)
  then show ?thesis using t1(2) t2(2) by simp
qed

theorem purge_durable_witness:
  "\<exists>res r. sql_query ex_codec (run_commands ex_codec ex_cfg [Append [ex_batch1]] (snd (purge_channel ''a'' 1 ex_db)))
      \<lparr>qr_channel_key = ''a'', after_ms = None, before_ms = None, limit = 5\<rparr> = Inr res \<and>
    r \<in> set (lr_records res) \<and> 1 < received_at_ms r"
proof -
  let ?q = "\<lparr>qr_channel_key = ''a'', after_ms = None, before_ms = None, limit = 5\<rparr>"
  let ?cmds = "[Append [ex_batch1]]"
  obtain removed db' where p: "purge_channel ''a'' 1 ex_db = (removed, db')" by fastforce
  have "(case sql_query ex_codec (run_commands ex_codec ex_cfg ?cmds (snd (purge_channel ''a'' 1 ex_db))) ?q of
      Inl e \<Rightarrow> False | Inr res \<Rightarrow> lr_records res \<noteq> [])"
    by code_simp
  then obtain res where res: "sql_query ex_codec (run_commands ex_codec ex_cfg ?cmds db') ?q = Inr res"
    "lr_records res \<noteq> []"
    by (auto simp: p split: sum.splits)
  then obtain r where r: "r \<in> set (lr_records res)" by (cases "lr_records res") auto
  have "list_all (command_fits 3) ?cmds" by (simp add: ex_fits)
  from purge_durable [OF ex_setup ex_reachable this p res(1) _ r] have "1 < received_at_ms r" by simp
  then show ?thesis using res r p by auto
qed

text \<open>
  Expiry always succeeds and deletes exactly the blocks whose newest event is older than the
  cutoff, in any number of bounded batches; what a channel retains afterwards is what its other
  blocks hold, in the same order.
\<close>

theorem expire_exact:
  assumes "setup_ok cd cfg N" and "writer_reachable cd cfg N db"
  shows "\<exists>stats db'. expire_blocks_before cutoff 0 0 db = (Inr stats, db') \<and>
    message_blocks db' = filter (\<lambda>b. cutoff \<le> row_last_event_at_ms b) (message_blocks db) \<and>
    (\<forall>ch. sql_retained cd db' ch = concat (map (row_records cd)
       (filter (\<lambda>b. cutoff \<le> row_last_event_at_ms b) (rows_of ch (message_blocks db))))) \<and>
    (\<forall>ch. \<forall>r \<in> set (sql_retained cd db ch). cutoff \<le> event_at_ms r \<longrightarrow> r \<in> set (sql_retained cd db' ch))"
proof -
  have inv: "db_inv cd N db" using writer_reachable_inv [OF assms] by (simp add: store_inv_def)
  let ?P = "\<lambda>b. cutoff \<le> row_last_event_at_ms b"
  obtain stats db' where e: "expire_blocks_before cutoff 0 0 db = (Inr stats, db')"
    and rows: "message_blocks db' = filter ?P (message_blocks db)"
    using expire_blocks_before_spec [OF inv, of cutoff 0 0] by blast
  have ret: "sql_retained cd db' ch = concat (map (row_records cd) (filter ?P (rows_of ch (message_blocks db))))" for ch
    by (simp add: sql_retained_def records_of_def rows rows_of_filter)
  have "r \<in> set (sql_retained cd db' ch)"
    if r: "r \<in> set (sql_retained cd db ch)" "cutoff \<le> event_at_ms r" for ch r
  proof -
    obtain b where b: "b \<in> set (rows_of ch (message_blocks db))" "r \<in> set (row_records cd b)"
      using r(1) by (auto simp: sql_retained_def records_of_def)
    then have "row_good cd b" using db_invD(1) [OF inv] by (simp add: rows_inv_def)
    then have "row_last_event_at_ms b = Max (event_at_ms ` set (row_records cd b))" by (rule row_goodD(5))
    then have "event_at_ms r \<le> row_last_event_at_ms b" using b(2) by simp
    then show ?thesis using b r(2) unfolding ret by force
  qed
  then show ?thesis using e rows ret by blast
qed

theorem expire_exact_witness:
  "\<exists>stats db'. expire_blocks_before 3 0 0 ex_db = (Inr stats, db') \<and>
    message_blocks db' = filter (\<lambda>b. 3 \<le> row_last_event_at_ms b) (message_blocks ex_db)"
  using expire_exact [OF ex_setup ex_reachable, of 3] by blast

text \<open>
  C25: accepting a journal batch either changes nothing or stores the batch and moves the stream's
  offset: the offset never moves back, every sequence number it passed is covered by journalled
  batches that follow each other without a gap, and it stops only where no batch continues it.
\<close>

theorem journal_accept_contiguous:
  assumes "setup_ok cd cfg N" and "writer_reachable cd cfg N db" and "length check = 32"
    and "accept_journal_batch src stream first last_seq check data now db = (res, db')"
  shows "case res of
      Inl _ \<Rightarrow> db' = db
    | Inr c \<Rightarrow>
        stream_offset src stream db' = Some (int c) \<and>
        (\<forall>i. stream_offset src stream db = Some i \<longrightarrow> i \<le> int c) \<and>
        tiled src stream (ingest_journal db')
          (case stream_offset src stream db of Some i \<Rightarrow> i | None \<Rightarrow> int first - 1) (int c) \<and>
        (int c < i64_max \<longrightarrow> journal_row_of src stream (int c + 1) (ingest_journal db') = None) \<and>
        (\<exists>j \<in> set (ingest_journal db'). jr_source_id j = src \<and> jr_stream_id j = stream \<and>
           jr_first_sequence j = int first \<and> jr_last_sequence j = int last_seq \<and> jr_checksum j = check) \<and>
        set (ingest_journal db) \<subseteq> set (ingest_journal db') \<and>
        (\<forall>s t. (s, t) \<noteq> (src, stream) \<longrightarrow> stream_offset s t db' = stream_offset s t db)"
proof -
  have inv: "journal_inv db" using writer_reachable_inv [OF assms(1,2)] by (simp add: store_inv_def)
  show ?thesis
  proof (cases rule: accept_journal_batch_cases [OF inv assms(3,4)])
    case (1 e)
    then show ?thesis by simp
  next
    case (2 c)
    have b: "0 \<le> int first" "int first \<le> int last_seq" using 2(2) by simp_all
    have "journal_frame src stream db db'"
      using accept_journal_batch_inv [OF inv assms(3,4)] by simp
    then show ?thesis
      using accept_journal_transaction_spec [OF inv b 2(4) assms(3) 2(3)] 2(1)
      by (auto simp: journal_frame_def)
  qed
qed

definition ex_checksum :: bytes where
  "ex_checksum = replicate 32 0"

lemma ex_accept: "fst (accept_journal_batch ''s'' ''t'' 5 7 ex_checksum [] 1 ex_db) = Inr 7"
  by code_simp

theorem journal_accept_contiguous_witness:
  "\<exists>db'. accept_journal_batch ''s'' ''t'' 5 7 ex_checksum [] 1 ex_db = (Inr 7, db') \<and>
    stream_offset ''s'' ''t'' db' = Some 7"
proof -
  obtain db' where a: "accept_journal_batch ''s'' ''t'' 5 7 ex_checksum [] 1 ex_db = (Inr 7, db')"
    using ex_accept by (metis prod.collapse)
  have "length ex_checksum = 32" by (simp add: ex_checksum_def)
  from journal_accept_contiguous [OF ex_setup ex_reachable this a] a show ?thesis by auto
qed

text \<open>
  Replaying an accepted journal batch, with the same range and checksum, is accepted with the
  same offset and adds nothing to the journal.
\<close>

theorem journal_replay_idempotent:
  assumes "setup_ok cd cfg N" and "writer_reachable cd cfg N db" and "length check = 32"
    and "accept_journal_batch src stream first last_seq check data now db = (Inr c, db')"
    and "int c < i64_max" and "int now' \<le> i64_max"
  shows "\<exists>db''. accept_journal_batch src stream first last_seq check data' now' db' = (Inr c, db'') \<and>
    ingest_journal db'' = ingest_journal db' \<and> stream_offset src stream db'' = stream_offset src stream db'"
proof -
  have inv: "journal_inv db" using writer_reachable_inv [OF assms(1,2)] by (simp add: store_inv_def)
  obtain db'' where a: "accept_journal_batch src stream first last_seq check data' now' db' = (Inr c, db'')"
    "ingest_journal db'' = ingest_journal db'"
    using accept_journal_replay [OF inv assms(3-6)] by blast
  have off: "stream_offset src stream d' = Some (int c)"
    if "journal_inv d" "accept_journal_batch src stream first last_seq check x n d = (Inr c, d')" for d d' x n
  proof (cases rule: accept_journal_batch_cases [OF that(1) assms(3) that(2)])
    case (2 c')
    have "int first \<le> int last_seq" using 2(2) by simp
    then show ?thesis
      using accept_journal_transaction_spec [OF that(1) _ _ 2(4) assms(3) 2(3)] 2(1) by simp
  qed simp
  have "journal_inv db'" using accept_journal_batch_inv [OF inv assms(3,4)] by blast
  then show ?thesis using a off [OF inv assms(4)] off [OF _ a(1)] by simp
qed

theorem journal_replay_idempotent_witness:
  "\<exists>db' db''. accept_journal_batch ''s'' ''t'' 5 7 ex_checksum [] 1 ex_db = (Inr 7, db') \<and>
    accept_journal_batch ''s'' ''t'' 5 7 ex_checksum [1] 2 db' = (Inr 7, db'') \<and>
    ingest_journal db'' = ingest_journal db'"
proof -
  obtain db' where a: "accept_journal_batch ''s'' ''t'' 5 7 ex_checksum [] 1 ex_db = (Inr 7, db')"
    using ex_accept by (metis prod.collapse)
  have "length ex_checksum = 32" by (simp add: ex_checksum_def)
  from journal_replay_idempotent [OF ex_setup ex_reachable this a, of 2 "[1]"] a
  show ?thesis by (auto simp: int_defs)
qed

end
