(* ===== verification/Coverage.thy ===== *)
theory Coverage
  imports Records
begin

text \<open>
  Coverage of a time range by the intervals a source was live, \<^verbatim>\<open>src/coverage.rs\<close>: merging intervals,
  the gaps they leave in a range, and whether they suffice for a request. Times are \<open>i64\<close>
  milliseconds and an interval covers both of its ends.
\<close>

record coverage_interval =
  start_ms :: int
  end_ms :: int
  source :: string

record coverage_request =
  cr_after_ms :: "int option"
  cr_before_ms :: "int option"
  cr_limit :: nat
  now_ms :: int
  retention_ms :: int

record coverage_assessment =
  sufficient :: bool
  required_start_ms :: int
  required_end_ms :: int
  gaps :: "(int \<times> int) list"

text \<open>\<open>source.split(',')\<close>\<close>

fun split_comma :: "string \<Rightarrow> string list" where
  "split_comma [] = [[]]"
| "split_comma (c # cs) =
     (if c = CHR '','' then [] # split_comma cs
      else (case split_comma cs of [] \<Rightarrow> [[c]] | w # ws \<Rightarrow> (c # w) # ws))"

definition merge_step :: "coverage_interval list \<Rightarrow> coverage_interval \<Rightarrow> coverage_interval list" where
  "merge_step merged interval =
     (if end_ms interval < start_ms interval then merged
      else if merged \<noteq> [] \<and> start_ms interval \<le> i64_saturating_add (end_ms (last merged)) 1
      then (let previous = last merged
            in butlast merged @ [previous\<lparr>end_ms := max (end_ms previous) (end_ms interval),
                 source := (if source interval \<in> set (split_comma (source previous)) then source previous
                            else source previous @ '','' @ source interval)\<rparr>])
      else merged @ [interval])"

definition merge_intervals :: "coverage_interval list \<Rightarrow> coverage_interval list" where
  "merge_intervals intervals =
     foldl merge_step [] (sort_key (\<lambda>i. (start_ms i, end_ms i)) intervals)"

fun scan_gaps :: "coverage_interval list \<Rightarrow> int \<Rightarrow> int \<Rightarrow> (int \<times> int) list \<Rightarrow> int \<times> (int \<times> int) list" where
  "scan_gaps [] cursor re gs = (cursor, gs)"
| "scan_gaps (i # is) cursor re gs =
     (if end_ms i < cursor \<or> start_ms i > re then scan_gaps is cursor re gs
      else
        (let gs' = (if start_ms i > cursor then gs @ [(cursor, min (start_ms i) re)] else gs);
             cursor' = max cursor (end_ms i)
         in if cursor' \<ge> re then (cursor', gs') else scan_gaps is cursor' re gs'))"

definition uncovered_intervals :: "coverage_interval list \<Rightarrow> int \<Rightarrow> int \<Rightarrow> (int \<times> int) list" where
  "uncovered_intervals intervals rs re =
     (if rs \<ge> re then []
      else (case scan_gaps (merge_intervals intervals) rs re [] of
              (cursor, gs) \<Rightarrow> if cursor < re then gs @ [(cursor, re)] else gs))"

definition assess_coverage ::
    "canonical_record list \<Rightarrow> coverage_interval list \<Rightarrow> coverage_request \<Rightarrow> coverage_assessment" where
  "assess_coverage records intervals request =
     (let re = min (case cr_before_ms request of None \<Rightarrow> now_ms request | Some b \<Rightarrow> b) (now_ms request)
      in if cr_limit request = 0 \<or> (case cr_after_ms request of None \<Rightarrow> False | Some a \<Rightarrow> a \<ge> re)
         then \<lparr>sufficient = True, required_start_ms = re, required_end_ms = re, gaps = []\<rparr>
         else
           (let horizon = i64_saturating_sub re (retention_ms request);
                requested = max (case cr_after_ms request of None \<Rightarrow> horizon | Some a \<Rightarrow> a) horizon;
                rs = (if length records \<ge> cr_limit request
                      then max (case iter_min (map received_at_ms (take (cr_limit request) (rev records))) of
                                  None \<Rightarrow> re | Some m \<Rightarrow> m) requested
                      else requested);
                gs = uncovered_intervals intervals rs re
            in \<lparr>sufficient = (gs = []), required_start_ms = rs, required_end_ms = re, gaps = gs\<rparr>))"

section \<open>The instants a list of intervals covers\<close>

definition covered :: "coverage_interval list \<Rightarrow> int \<Rightarrow> bool" where
  "covered is t \<longleftrightarrow> (\<exists>i \<in> set is. start_ms i \<le> t \<and> t \<le> end_ms i)"

lemma covered_simps [simp]:
  "\<not> covered [] t"
  "covered (i # is) t \<longleftrightarrow> (start_ms i \<le> t \<and> t \<le> end_ms i) \<or> covered is t"
  "covered (is @ js) t \<longleftrightarrow> covered is t \<or> covered js t"
  by (auto simp: covered_def)

definition intervals_ok :: "coverage_interval list \<Rightarrow> bool" where
  "intervals_ok is \<longleftrightarrow> (\<forall>i \<in> set is. i64_range (start_ms i) \<and> i64_range (end_ms i))"

text \<open>Merged intervals are non-empty, in order, and not even adjacent.\<close>

definition separated :: "coverage_interval list \<Rightarrow> bool" where
  "separated is \<longleftrightarrow> (\<forall>i \<in> set is. start_ms i \<le> end_ms i) \<and>
     sorted_wrt (\<lambda>i j. end_ms i + 1 < start_ms j) is"

lemma separated_append:
  "separated (is @ js) \<longleftrightarrow> separated is \<and> separated js \<and>
     (\<forall>i \<in> set is. \<forall>j \<in> set js. end_ms i + 1 < start_ms j)"
  by (auto simp: separated_def sorted_wrt_append)

lemma separated_single [simp]: "separated [i] \<longleftrightarrow> start_ms i \<le> end_ms i"
  by (simp add: separated_def)

lemma separated_Nil [simp]: "separated []"
  by (simp add: separated_def)

lemma merge_step_spec:
  assumes sep: "separated merged" and ok: "intervals_ok (i # merged)"
    and le: "\<forall>j \<in> set merged. start_ms j \<le> start_ms i"
  shows "separated (merge_step merged i) \<and> intervals_ok (merge_step merged i) \<and>
    (\<forall>j \<in> set (merge_step merged i). start_ms j \<le> start_ms i \<or> end_ms i < start_ms i) \<and>
    (\<forall>j \<in> set (merge_step merged i). start_ms j \<in> insert (start_ms i) (start_ms ` set merged)) \<and>
    (\<forall>t. covered (merge_step merged i) t \<longleftrightarrow> covered (i # merged) t)"
proof (cases "end_ms i < start_ms i")
  case True
  then show ?thesis using sep ok le by (auto simp: merge_step_def intervals_ok_def)
next
  case False
  show ?thesis
  proof (cases "merged \<noteq> [] \<and> start_ms i \<le> i64_saturating_add (end_ms (last merged)) 1")
    case True
    obtain ms p where m: "merged = ms @ [p]" using True by (metis append_butlast_last_id)
    let ?p = "p\<lparr>end_ms := max (end_ms p) (end_ms i), source := (if source i \<in> set (split_comma (source p))
        then source p else source p @ '','' @ source i)\<rparr>"
    have step: "merge_step (ms @ [p]) i = ms @ [?p]"
      using False True by (simp add: merge_step_def m Let_def)
    have "end_ms p \<le> i64_max" "start_ms i \<le> i64_max" "i64_min \<le> end_ms p"
      using ok by (simp_all add: intervals_ok_def m i64_range_def)
    then have near: "start_ms i \<le> end_ms p + 1"
      using True by (auto simp: m int_defs split: if_splits)
    have sp: "start_ms p \<le> start_ms i" "start_ms p \<le> end_ms p"
      using le sep by (auto simp: m separated_append)
    have "separated (ms @ [?p])" using sep sp by (auto simp: m separated_append)
    moreover have "intervals_ok (ms @ [?p])"
      using ok by (auto simp: intervals_ok_def m max_def)
    moreover have "covered (ms @ [?p]) t \<longleftrightarrow> covered (i # merged) t" for t
      using near sp False by (auto simp: m)
    ultimately show ?thesis using le unfolding m step by auto
  next
    case far: False
    have step: "merge_step merged i = merged @ [i]"
      using False far by (auto simp: merge_step_def)
    have "end_ms j + 1 < start_ms i" if "j \<in> set merged" for j
    proof -
      have "merged \<noteq> []" using that by auto
      then obtain ms p where m: "merged = ms @ [p]" by (metis append_butlast_last_id)
      have "end_ms p \<le> i64_max" "start_ms i \<le> i64_max" "i64_min \<le> end_ms p"
        using ok by (simp_all add: intervals_ok_def m i64_range_def)
      moreover have "i64_saturating_add (end_ms p) 1 < start_ms i" using far by (simp add: m)
      ultimately have "end_ms p + 1 < start_ms i"
        by (simp add: int_defs min_def max_def split: if_splits)
      moreover have "end_ms j \<le> end_ms p"
        using sep that by (auto simp: m separated_append)
      ultimately show ?thesis by simp
    qed
    then show ?thesis
      using sep ok False le by (auto simp: step separated_append intervals_ok_def)
  qed
qed

lemma foldl_merge_step:
  assumes "separated merged" and "intervals_ok (merged @ is)"
    and "\<forall>j \<in> set merged. \<forall>i \<in> set is. start_ms j \<le> start_ms i" and "sorted (map start_ms is)"
  shows "separated (foldl merge_step merged is) \<and> intervals_ok (foldl merge_step merged is) \<and>
    (\<forall>t. covered (foldl merge_step merged is) t \<longleftrightarrow> covered (merged @ is) t)"
  using assms
proof (induction "is" arbitrary: merged)
  case (Cons i "is")
  have s: "separated (merge_step merged i) \<and> intervals_ok (merge_step merged i) \<and>
    (\<forall>j \<in> set (merge_step merged i). start_ms j \<le> start_ms i \<or> end_ms i < start_ms i) \<and>
    (\<forall>j \<in> set (merge_step merged i). start_ms j \<in> insert (start_ms i) (start_ms ` set merged)) \<and>
    (\<forall>t. covered (merge_step merged i) t \<longleftrightarrow> covered (i # merged) t)"
    by (rule merge_step_spec) (use Cons.prems in \<open>auto simp: intervals_ok_def\<close>)
  have "separated (foldl merge_step (merge_step merged i) is) \<and>
    intervals_ok (foldl merge_step (merge_step merged i) is) \<and>
    (\<forall>t. covered (foldl merge_step (merge_step merged i) is) t \<longleftrightarrow> covered (merge_step merged i @ is) t)"
  proof (rule Cons.IH)
    show "intervals_ok (merge_step merged i @ is)"
      using s Cons.prems(2) by (auto simp: intervals_ok_def)
    show "\<forall>j \<in> set (merge_step merged i). \<forall>k \<in> set is. start_ms j \<le> start_ms k"
    proof (intro ballI)
      fix j k assume jk: "j \<in> set (merge_step merged i)" "k \<in> set is"
      then have "start_ms j = start_ms i \<or> start_ms j \<in> start_ms ` set merged" using s by blast
      then show "start_ms j \<le> start_ms k"
        using Cons.prems(3,4) jk(2) by auto
    qed
  qed (use s Cons.prems in auto)
  then show ?case using s by auto
qed simp

lemma merge_intervals_spec:
  assumes "intervals_ok is"
  shows "separated (merge_intervals is) \<and> intervals_ok (merge_intervals is) \<and>
    (\<forall>t. covered (merge_intervals is) t \<longleftrightarrow> covered is t)"
proof -
  let ?s = "sort_key (\<lambda>i. (start_ms i, end_ms i)) is"
  have "sorted (map (\<lambda>i. (start_ms i, end_ms i)) ?s)" by simp
  then have so: "sorted (map start_ms ?s)"
    by (simp add: sorted_map) (erule sorted_wrt_mono_rel [rotated], auto)
  have ok: "intervals_ok ([] @ ?s)" using assms by (simp add: intervals_ok_def)
  have "separated (foldl merge_step [] ?s) \<and> intervals_ok (foldl merge_step [] ?s) \<and>
      (\<forall>t. covered (foldl merge_step [] ?s) t \<longleftrightarrow> covered ([] @ ?s) t)"
    by (rule foldl_merge_step [OF _ ok]) (use so in simp_all)
  then show ?thesis by (simp add: merge_intervals_def covered_def)
qed

section \<open>Gaps\<close>

lemma scan_gaps_acc: "scan_gaps is c re gs = (c', gs') \<Longrightarrow>
    \<exists>new. gs' = gs @ new \<and> scan_gaps is c re [] = (c', new)"
proof (induction "is" arbitrary: c gs c' gs')
  case (Cons i "is")
  show ?case
  proof (cases "end_ms i < c \<or> start_ms i > re")
    case True
    then show ?thesis using Cons by auto
  next
    case False
    let ?g = "if start_ms i > c then [(c, min (start_ms i) re)] else []"
    show ?thesis
    proof (cases "re \<le> max c (end_ms i)")
      case True
      then show ?thesis using Cons.prems False by (auto simp: Let_def)
    next
      case less: False
      have "scan_gaps is (max c (end_ms i)) re (gs @ ?g) = (c', gs')"
        using Cons.prems False less by (auto simp: Let_def split: if_splits)
      then obtain new where new: "gs' = (gs @ ?g) @ new" "scan_gaps is (max c (end_ms i)) re [] = (c', new)"
        using Cons.IH by blast
      obtain c2 gs2 where e: "scan_gaps is (max c (end_ms i)) re ?g = (c2, gs2)" by fastforce
      then obtain new2 where "gs2 = ?g @ new2" "scan_gaps is (max c (end_ms i)) re [] = (c2, new2)"
        using Cons.IH by blast
      then have "gs2 = ?g @ new" "c2 = c'" using new(2) by simp_all
      moreover have "scan_gaps (i # is) c re [] = scan_gaps is (max c (end_ms i)) re ?g"
        using False less by (auto simp: Let_def)
      ultimately show ?thesis using e new(1) by simp
    qed
  qed
qed simp

text \<open>What a scan from \<open>c\<close> to \<open>c'\<close> finds.\<close>

definition scan_ok ::
    "coverage_interval list \<Rightarrow> int \<Rightarrow> int \<Rightarrow> int \<Rightarrow> (int \<times> int) list \<Rightarrow> bool" where
  "scan_ok is c re c' gs \<longleftrightarrow>
     c \<le> c' \<and>
     (\<forall>(x, y) \<in> set gs. c \<le> x \<and> x < y \<and> y \<le> re \<and> (\<forall>t. x < t \<and> t < y \<longrightarrow> \<not> covered is t)) \<and>
     (\<forall>t. c < t \<and> t \<le> c' \<and> t \<le> re \<longrightarrow> covered is t \<or> (\<exists>(x, y) \<in> set gs. x \<le> t \<and> t \<le> y)) \<and>
     (c < c' \<longrightarrow> covered is c \<or> (\<exists>(x, y) \<in> set gs. x = c)) \<and>
     (\<forall>t. c' < t \<and> t \<le> re \<longrightarrow> \<not> covered is t)"

lemma separated_Cons:
  assumes "separated (i # is)"
  shows "start_ms i \<le> end_ms i" and "separated is" and "covered is t \<Longrightarrow> end_ms i + 1 < t"
proof -
  show "start_ms i \<le> end_ms i" "separated is" using assms by (auto simp: separated_def)
  have "\<forall>j \<in> set is. end_ms i + 1 < start_ms j" using assms by (simp add: separated_def)
  then show "covered is t \<Longrightarrow> end_ms i + 1 < t" by (force simp: covered_def)
qed

lemma scan_gaps_ok:
  assumes "separated is" and "c < re" and "scan_gaps is c re [] = (c', gs)"
  shows "scan_ok is c re c' gs"
  using assms
proof (induction "is" arbitrary: c c' gs)
  case Nil
  then show ?case by (simp add: scan_ok_def)
next
  case (Cons i "is")
  note sep = separated_Cons [OF Cons.prems(1)]
  show ?case
  proof (cases "end_ms i < c \<or> start_ms i > re")
    case True
    then have ok: "scan_ok is c re c' gs"
      using Cons.IH [OF sep(2) Cons.prems(2)] Cons.prems(3) by simp
    have eq: "covered (i # is) t = covered is t" if "c \<le> t" "t \<le> re" for t
      using True that by auto
    then show ?thesis
      using ok Cons.prems(2) by (auto simp: scan_ok_def simp del: covered_simps)
  next
    case False
    then have near: "c \<le> end_ms i" "start_ms i \<le> re" by auto
    let ?g = "if start_ms i > c then [(c, min (start_ms i) re)] else []"
    have g: "\<not> covered (i # is) t" if "(x, y) \<in> set ?g" "x < t" "t < y" for x y t
      using that sep(1) sep(3) [of t] by (auto split: if_splits)
    show ?thesis
    proof (cases "re \<le> max c (end_ms i)")
      case True
      then have r: "c' = max c (end_ms i)" "gs = ?g"
        using Cons.prems(3) False by (auto simp: Let_def split: if_splits)
      then show ?thesis
        using near True Cons.prems(2) sep(1,3) g by (auto simp: scan_ok_def)
    next
      case less: False
      have "scan_gaps is (max c (end_ms i)) re ?g = (c', gs)"
        using Cons.prems(3) False less by (auto simp: Let_def split: if_splits)
      then obtain new where new: "gs = ?g @ new" "scan_gaps is (max c (end_ms i)) re [] = (c', new)"
        using scan_gaps_acc by blast
      have ok: "scan_ok is (end_ms i) re c' new"
        using Cons.IH [OF sep(2) _ new(2)] less near(1) by (simp add: max_absorb2)
      show ?thesis
        unfolding scan_ok_def
      proof (intro conjI allI impI ballI)
        show "c \<le> c'" using ok near by (simp add: scan_ok_def)
        fix p assume p: "p \<in> set gs"
        obtain x y where xy: "p = (x, y)" by (cases p)
        consider "(x, y) \<in> set ?g" | "(x, y) \<in> set new" using p new(1) xy by (auto split: if_splits)
        then show "case p of (x, y) \<Rightarrow> c \<le> x \<and> x < y \<and> y \<le> re \<and> (\<forall>t. x < t \<and> t < y \<longrightarrow> \<not> covered (i # is) t)"
        proof cases
          case 1
          then show ?thesis using g xy near Cons.prems(2) by (auto split: if_splits)
        next
          case 2
          then have "end_ms i \<le> x \<and> x < y \<and> y \<le> re \<and> (\<forall>t. x < t \<and> t < y \<longrightarrow> \<not> covered is t)"
            using ok by (auto simp: scan_ok_def)
          then show ?thesis using near xy by auto
        qed
      next
        fix t assume t: "c < t \<and> t \<le> c' \<and> t \<le> re"
        show "covered (i # is) t \<or> (\<exists>(x, y) \<in> set gs. x \<le> t \<and> t \<le> y)"
        proof (cases "t \<le> end_ms i")
          case True
          then show ?thesis using t new(1) by auto
        next
          case False
          then have "covered is t \<or> (\<exists>(x, y) \<in> set new. x \<le> t \<and> t \<le> y)"
            using ok t by (simp add: scan_ok_def)
          then show ?thesis using new(1) by auto
        qed
      next
        assume "c < c'"
        show "covered (i # is) c \<or> (\<exists>(x, y) \<in> set gs. x = c)"
          using near new(1) by auto
      next
        fix t assume "c' < t \<and> t \<le> re"
        then show "\<not> covered (i # is) t" using ok by (auto simp: scan_ok_def)
      qed
    qed
  qed
qed

lemma uncovered_intervals_spec:
  assumes "intervals_ok is" and "rs < re"
  shows "(\<forall>(x, y) \<in> set (uncovered_intervals is rs re). rs \<le> x \<and> x < y \<and> y \<le> re \<and>
      (\<forall>t. x < t \<and> t < y \<longrightarrow> \<not> covered is t)) \<and>
    (\<forall>t. rs \<le> t \<and> t \<le> re \<longrightarrow> covered is t \<or>
      (\<exists>(x, y) \<in> set (uncovered_intervals is rs re). x \<le> t \<and> t \<le> y))"
proof -
  note m = merge_intervals_spec [OF assms(1)]
  obtain c gs where s: "scan_gaps (merge_intervals is) rs re [] = (c, gs)" by fastforce
  have ok: "scan_ok (merge_intervals is) rs re c gs"
    using scan_gaps_ok [OF _ assms(2) s] m by blast
  let ?all = "if c < re then gs @ [(c, re)] else gs"
  have u: "uncovered_intervals is rs re = ?all"
    using assms(2) s by (simp add: uncovered_intervals_def)
  have cov: "covered (merge_intervals is) t = covered is t" for t using m by blast
  have le: "rs \<le> c" using ok by (simp add: scan_ok_def)
  have gap: "rs \<le> x \<and> x < y \<and> y \<le> re \<and> (\<forall>t. x < t \<and> t < y \<longrightarrow> \<not> covered is t)"
    if "(x, y) \<in> set ?all" for x y
  proof (cases "(x, y) \<in> set gs")
    case True
    then show ?thesis using ok by (auto simp: scan_ok_def cov)
  next
    case False
    then have "x = c" "y = re" "c < re" using that by (auto split: if_splits)
    then show ?thesis using ok le by (auto simp: scan_ok_def cov)
  qed
  have point: "covered is t \<or> (\<exists>(x, y) \<in> set ?all. x \<le> t \<and> t \<le> y)" if t: "rs \<le> t" "t \<le> re" for t
  proof (cases "c < t")
    case True
    then show ?thesis using t by auto
  next
    case False
    show ?thesis
    proof (cases "t = rs")
      case True
      show ?thesis
      proof (cases "rs < c")
        case less: True
        then have "covered is rs \<or> (\<exists>(x, y) \<in> set gs. x = rs)" using ok by (simp add: scan_ok_def cov)
        then show ?thesis
        proof
          assume "\<exists>(x, y) \<in> set gs. x = rs"
          then obtain y where y: "(rs, y) \<in> set gs" by auto
          then have "rs < y" using gap [of rs y] by simp
          then show ?thesis using y True by (auto intro!: bexI [of _ "(rs, y)"])
        qed (simp add: True)
      next
        case False
        then have "c = rs" using le by simp
        then show ?thesis using True assms(2) by auto
      qed
    next
      case neq: False
      then have "covered is t \<or> (\<exists>(x, y) \<in> set gs. x \<le> t \<and> t \<le> y)"
        using ok t False by (simp add: scan_ok_def cov)
      then show ?thesis by auto
    qed
  qed
  show ?thesis unfolding u using gap point by blast
qed

text \<open>A fully covered range leaves no gap: one merged interval contains it.\<close>

lemma scan_gaps_full:
  assumes "separated is" and "c < re" and "\<forall>t. c \<le> t \<and> t \<le> re \<longrightarrow> covered is t"
    and "scan_gaps is c re [] = (c', gs)"
  shows "gs = [] \<and> re \<le> c'"
  using assms
proof (induction "is")
  case Nil
  then show ?case by (auto dest: spec [of _ c])
next
  case (Cons i "is")
  note sep = separated_Cons [OF Cons.prems(1)]
  have c: "covered (i # is) c" using Cons.prems(2,3) by auto
  show ?case
  proof (cases "start_ms i \<le> c \<and> c \<le> end_ms i")
    case True
    have "re \<le> end_ms i"
    proof (rule ccontr)
      assume "\<not> re \<le> end_ms i"
      then have "covered (i # is) (end_ms i + 1)"
        using Cons.prems(3) [rule_format, of "end_ms i + 1"] True by linarith
      then show False using sep(3) [of "end_ms i + 1"] by auto
    qed
    then show ?thesis using Cons.prems(2,4) True by (auto simp: Let_def split: if_splits)
  next
    case False
    then have "end_ms i < c" using c sep(3) [of c] by auto
    then have "\<forall>t. c \<le> t \<and> t \<le> re \<longrightarrow> covered is t" using Cons.prems(3) by auto
    then show ?thesis using Cons.IH [OF sep(2) Cons.prems(2)] Cons.prems(4) \<open>end_ms i < c\<close> by simp
  qed
qed

lemma uncovered_intervals_Nil:
  assumes "intervals_ok is" and "\<forall>t. rs \<le> t \<and> t \<le> re \<longrightarrow> covered is t"
  shows "uncovered_intervals is rs re = []"
proof (cases "rs < re")
  case True
  obtain c gs where s: "scan_gaps (merge_intervals is) rs re [] = (c, gs)" by fastforce
  have "gs = [] \<and> re \<le> c"
    by (rule scan_gaps_full [OF _ True _ s]) (use merge_intervals_spec [OF assms(1)] assms(2) in auto)
  then show ?thesis using s by (simp add: uncovered_intervals_def)
qed (simp add: uncovered_intervals_def)

lemma assess_coverage_cases:
  "(sufficient (assess_coverage records is request) \<and> gaps (assess_coverage records is request) = [] \<and>
      required_start_ms (assess_coverage records is request) =
        required_end_ms (assess_coverage records is request)) \<or>
   (gaps (assess_coverage records is request) = uncovered_intervals is
        (required_start_ms (assess_coverage records is request))
        (required_end_ms (assess_coverage records is request)) \<and>
      sufficient (assess_coverage records is request) =
        (gaps (assess_coverage records is request) = []))"
  by (simp add: assess_coverage_def Let_def)

section \<open>Properties\<close>

definition ex_interval :: "int \<Rightarrow> int \<Rightarrow> coverage_interval" where
  "ex_interval a b = \<lparr>start_ms = a, end_ms = b, source = ''x''\<rparr>"

text \<open>
  Merging intervals yields non-empty intervals in order, no two of them overlapping or adjacent,
  that cover exactly the instants the given intervals cover.
\<close>

theorem merge_intervals_exact:
  assumes "intervals_ok is"
  shows "sorted_wrt (\<lambda>i j. end_ms i + 1 < start_ms j) (merge_intervals is) \<and>
    (\<forall>i \<in> set (merge_intervals is). start_ms i \<le> end_ms i) \<and>
    (\<forall>t. covered (merge_intervals is) t \<longleftrightarrow> covered is t)"
  using merge_intervals_spec [OF assms] by (simp add: separated_def)

theorem merge_intervals_exact_witness:
  "merge_intervals [ex_interval 5 9, ex_interval 1 3, ex_interval 4 4, ex_interval 8 7] = [ex_interval 1 9] \<and>
    (\<forall>t. covered (merge_intervals [ex_interval 5 9, ex_interval 1 3, ex_interval 4 4, ex_interval 8 7]) t
      \<longleftrightarrow> covered [ex_interval 5 9, ex_interval 1 3, ex_interval 4 4, ex_interval 8 7] t)"
proof
  show "merge_intervals [ex_interval 5 9, ex_interval 1 3, ex_interval 4 4, ex_interval 8 7] = [ex_interval 1 9]"
    by code_simp
  have "intervals_ok [ex_interval 5 9, ex_interval 1 3, ex_interval 4 4, ex_interval 8 7]"
    by (simp add: intervals_ok_def ex_interval_def int_defs)
  from merge_intervals_exact [OF this]
  show "\<forall>t. covered (merge_intervals [ex_interval 5 9, ex_interval 1 3, ex_interval 4 4, ex_interval 8 7]) t
      \<longleftrightarrow> covered [ex_interval 5 9, ex_interval 1 3, ex_interval 4 4, ex_interval 8 7] t" by blast
qed

text \<open>
  C36: an assessment reports sufficient coverage exactly when nothing is required or every instant
  from the required start to the required end is covered; otherwise its gaps are non-empty ranges
  within the required range, no covered instant lies strictly inside one, and every uncovered
  instant lies in one.
\<close>

theorem assess_coverage_exact:
  assumes "intervals_ok is" and "a = assess_coverage records is request"
  shows "(sufficient a \<longleftrightarrow> required_end_ms a \<le> required_start_ms a \<or>
      (\<forall>t. required_start_ms a \<le> t \<and> t \<le> required_end_ms a \<longrightarrow> covered is t)) \<and>
    (sufficient a \<longleftrightarrow> gaps a = []) \<and>
    (\<forall>(x, y) \<in> set (gaps a). required_start_ms a \<le> x \<and> x < y \<and> y \<le> required_end_ms a \<and>
       (\<forall>t. x < t \<and> t < y \<longrightarrow> \<not> covered is t)) \<and>
    (required_start_ms a < required_end_ms a \<longrightarrow>
      (\<forall>t. required_start_ms a \<le> t \<and> t \<le> required_end_ms a \<longrightarrow> covered is t \<or>
        (\<exists>(x, y) \<in> set (gaps a). x \<le> t \<and> t \<le> y)))"
proof -
  let ?u = "uncovered_intervals is (required_start_ms a) (required_end_ms a)"
  consider (trivial) "sufficient a" "gaps a = []" "required_start_ms a = required_end_ms a"
    | (gaps) "gaps a = ?u" "sufficient a \<longleftrightarrow> gaps a = []"
    using assess_coverage_cases unfolding assms(2) by blast
  then show ?thesis
  proof cases
    case trivial
    then show ?thesis by simp
  next
    case gaps
    show ?thesis
    proof (cases "required_start_ms a < required_end_ms a")
      case False
      then show ?thesis using gaps by (simp add: uncovered_intervals_def)
    next
      case True
      note u = uncovered_intervals_spec [OF assms(1) True]
      have "\<not> (\<forall>t. required_start_ms a \<le> t \<and> t \<le> required_end_ms a \<longrightarrow> covered is t)" if "?u \<noteq> []"
      proof
        assume all: "\<forall>t. required_start_ms a \<le> t \<and> t \<le> required_end_ms a \<longrightarrow> covered is t"
        have "?u = []" by (rule uncovered_intervals_Nil [OF assms(1) all])
        then show False using that by simp
      qed
      then show ?thesis using u gaps True by auto
    qed
  qed
qed

theorem assess_coverage_exact_witness:
  "\<not> sufficient (assess_coverage [] [ex_interval 10 20, ex_interval 30 50]
      \<lparr>cr_after_ms = Some 12, cr_before_ms = None, cr_limit = 5, now_ms = 40, retention_ms = 100\<rparr>) \<and>
   \<not> (\<forall>t. 12 \<le> t \<and> t \<le> 40 \<longrightarrow> covered [ex_interval 10 20, ex_interval 30 50] t)"
proof -
  let ?is = "[ex_interval 10 20, ex_interval 30 50]"
  let ?a = "assess_coverage [] ?is
      \<lparr>cr_after_ms = Some 12, cr_before_ms = None, cr_limit = 5, now_ms = 40, retention_ms = 100\<rparr>"
  have ok: "intervals_ok ?is" by (simp add: intervals_ok_def ex_interval_def int_defs)
  have a: "required_start_ms ?a = 12" "required_end_ms ?a = 40" "\<not> sufficient ?a" by code_simp+
  show ?thesis using assess_coverage_exact [OF ok refl, of "[]"
      "\<lparr>cr_after_ms = Some 12, cr_before_ms = None, cr_limit = 5, now_ms = 40, retention_ms = 100\<rparr>"] a
    by (metis (no_types, lifting))
qed

end
