(* ===== verification/PeerMerge.thy ===== *)
theory PeerMerge
  imports Coverage
begin

text \<open>
  Combining the records of several sources, \<open>merge_records\<close> and \<open>PeerClient::fetch_local\<close> of
  \<^verbatim>\<open>src/web/peer.rs\<close>. The hash map of retained copies is an association list; the final sort makes
  its order irrelevant, because event keys are part of the sort key. The answers of the peers
  arrive in an arbitrary order, so \<open>fetch_local\<close> is a function of the arrival sequence.
\<close>

record peer_local_response =
  pr_records :: "canonical_record list"
  pr_coverage :: "coverage_interval list"
  pr_oldest :: "int option"
  pr_newest :: "int option"

definition retain_best ::
    "(event_key \<times> canonical_record) list \<Rightarrow> canonical_record \<Rightarrow> (event_key \<times> canonical_record) list" where
  "retain_best retained r =
     (case map_of retained (event_key r) of
        Some current \<Rightarrow> if should_replace r current then AList.update (event_key r) r retained else retained
      | None \<Rightarrow> (event_key r, r) # retained)"

definition merge_peer_records ::
    "canonical_record list \<Rightarrow> canonical_record list \<Rightarrow> nat \<Rightarrow> canonical_record list" where
  "merge_peer_records local peer lim =
     drain_to_last lim (sort_key received_order (map snd (foldl retain_best [] (local @ peer))))"

definition combine_responses ::
    "nat \<Rightarrow> peer_local_response \<Rightarrow> peer_local_response \<Rightarrow> peer_local_response" where
  "combine_responses lim previous result =
     (let records = merge_peer_records (pr_records previous) (pr_records result) lim
      in \<lparr>pr_records = records,
          pr_coverage = merge_intervals (pr_coverage previous @ pr_coverage result),
          pr_oldest = (case records of [] \<Rightarrow> None | r # _ \<Rightarrow> Some (received_at_ms r)),
          pr_newest = (if records = [] then None else Some (received_at_ms (last records)))\<rparr>)"

datatype peer_fetch_error = AllFailed

fun collect_responses ::
    "nat \<Rightarrow> peer_local_response option \<Rightarrow> (unit + peer_local_response) list \<Rightarrow> peer_local_response option" where
  "collect_responses lim accumulated [] = accumulated"
| "collect_responses lim accumulated (Inl _ # arrivals) = collect_responses lim accumulated arrivals"
| "collect_responses lim accumulated (Inr result # arrivals) =
     collect_responses lim
       (Some (case accumulated of None \<Rightarrow> result
              | Some previous \<Rightarrow> combine_responses lim previous result)) arrivals"

text \<open>
  \<open>fetch_one_local\<close> after decoding: \<open>None\<close> is a request that failed or timed out, or a body that did
  not parse. \<open>fetch_local\<close> sees the outcomes of all peers in their order of arrival.
\<close>

definition accept_response ::
    "nat \<Rightarrow> string \<Rightarrow> peer_local_response option \<Rightarrow> unit + peer_local_response" where
  "accept_response lim channel reply =
     (case reply of None \<Rightarrow> Inl ()
      | Some result \<Rightarrow>
          if length (pr_records result) > lim \<or>
             list_ex (\<lambda>r. \<not> eq_ignore_ascii_case (channel_key r) channel) (pr_records result)
          then Inl () else Inr result)"

definition fetch_local ::
    "nat \<Rightarrow> string \<Rightarrow> peer_local_response option list \<Rightarrow> peer_fetch_error + peer_local_response option" where
  "fetch_local lim channel replies =
     (let arrivals = map (accept_response lim channel) replies
      in if list_ex (\<lambda>a. \<not> isl a) arrivals then Inr (collect_responses lim None arrivals)
         else Inl AllFailed)"

section \<open>The retained copies\<close>

text \<open>The copy kept of a key: the first of those of the highest fidelity.\<close>

definition best_copy :: "canonical_record list \<Rightarrow> event_key \<Rightarrow> canonical_record \<Rightarrow> bool" where
  "best_copy xs k r \<longleftrightarrow> event_key r = k \<and>
     (\<exists>us vs. xs = us @ r # vs \<and> (\<forall>x \<in> set us. event_key x = k \<longrightarrow> fidelity x < fidelity r) \<and>
        (\<forall>x \<in> set vs. event_key x = k \<longrightarrow> fidelity x \<le> fidelity r))"

lemma best_copyD:
  assumes "best_copy xs k r"
  shows "event_key r = k" and "r \<in> set xs" and "x \<in> set xs \<Longrightarrow> event_key x = k \<Longrightarrow> fidelity x \<le> fidelity r"
proof -
  obtain us vs where q: "event_key r = k" "xs = us @ r # vs"
    "\<forall>x \<in> set us. event_key x = k \<longrightarrow> fidelity x < fidelity r"
    "\<forall>x \<in> set vs. event_key x = k \<longrightarrow> fidelity x \<le> fidelity r"
    using assms by (auto simp: best_copy_def)
  show "event_key r = k" "r \<in> set xs" using q(1,2) by simp_all
  assume x: "x \<in> set xs" "event_key x = k"
  then consider "x \<in> set us" | "x = r" | "x \<in> set vs" using q(2) by auto
  then show "fidelity x \<le> fidelity r"
    by cases (use q(3,4) x(2) in \<open>simp_all add: less_imp_le\<close>)
qed

lemma best_copy_snoc:
  assumes "best_copy xs k q" and "event_key r = k \<longrightarrow> fidelity r \<le> fidelity q"
  shows "best_copy (xs @ [r]) k q"
proof -
  obtain us vs where q: "event_key q = k" "xs = us @ q # vs"
    "\<forall>x \<in> set us. event_key x = k \<longrightarrow> fidelity x < fidelity q"
    "\<forall>x \<in> set vs. event_key x = k \<longrightarrow> fidelity x \<le> fidelity q"
    using assms(1) by (auto simp: best_copy_def)
  then have "xs @ [r] = us @ q # (vs @ [r])" "\<forall>x \<in> set (vs @ [r]). event_key x = k \<longrightarrow> fidelity x \<le> fidelity q"
    using assms(2) by auto
  then show ?thesis using q(1,3) unfolding best_copy_def by blast
qed

lemma best_copy_other: "event_key r \<noteq> k \<Longrightarrow> best_copy xs k q \<Longrightarrow> best_copy (xs @ [r]) k q"
  by (simp add: best_copy_snoc)

lemma best_copy_keep:
  "best_copy xs k q \<Longrightarrow> fidelity r \<le> fidelity q \<Longrightarrow> best_copy (xs @ [r]) k q"
  by (simp add: best_copy_snoc)

lemma best_copy_new:
  "\<forall>x \<in> set xs. event_key x = event_key r \<longrightarrow> fidelity x < fidelity r \<Longrightarrow>
     best_copy (xs @ [r]) (event_key r) r"
  unfolding best_copy_def by force

lemma retain_best_keys:
  "distinct (map fst m) \<Longrightarrow> distinct (map fst (retain_best m r)) \<and>
     fst ` set (retain_best m r) = insert (event_key r) (fst ` set m)"
  by (auto simp: retain_best_def distinct_update dom_update map_of_eq_None_iff
      insert_absorb split: option.splits dest: map_of_SomeD intro: rev_image_eqI)

lemma foldl_retain_best:
  "distinct (map fst (foldl retain_best [] xs)) \<and>
   fst ` set (foldl retain_best [] xs) = event_key ` set xs \<and>
   (\<forall>k r. map_of (foldl retain_best [] xs) k = Some r \<longrightarrow> best_copy xs k r)"
proof (induction xs rule: rev_induct)
  case (snoc r xs)
  let ?m = "foldl retain_best [] xs"
  have IH: "distinct (map fst ?m)" "fst ` set ?m = event_key ` set xs"
    "\<And>k q. map_of ?m k = Some q \<Longrightarrow> best_copy xs k q" using snoc.IH by blast+
  have "best_copy (xs @ [r]) k q" if q: "map_of (retain_best ?m r) k = Some q" for k q
  proof (cases "event_key r = k")
    case False
    then have "map_of ?m k = Some q"
      using q by (auto simp: retain_best_def update_conv' split: option.splits if_splits)
    then show ?thesis using best_copy_other [OF False] IH(3) by blast
  next
    case True
    show ?thesis
    proof (cases "map_of ?m k")
      case None
      then have "k \<notin> event_key ` set xs" using IH(2) by (simp add: map_of_eq_None_iff)
      then have "\<forall>x \<in> set xs. event_key x \<noteq> k" by blast
      moreover have "q = r" using q None True by (simp add: retain_best_def)
      ultimately show ?thesis using best_copy_new True by auto
    next
      case (Some c)
      note c = IH(3) [OF Some]
      have eq: "event_key r = event_key c" using c True by (simp add: best_copyD)
      show ?thesis
      proof (cases "should_replace r c")
        case True
        then have "q = r" using q Some \<open>event_key r = k\<close> by (simp add: retain_best_def update_conv')
        moreover have "fidelity c < fidelity r" using True by (simp add: should_replaceD)
        ultimately show ?thesis
          using best_copy_new [of xs r] best_copyD(3) [OF c] \<open>event_key r = k\<close> by fastforce
      next
        case False
        then have "q = c" "fidelity r \<le> fidelity c"
          using q Some \<open>event_key r = k\<close> eq by (auto simp: retain_best_def should_replace_def)
        then show ?thesis using best_copy_keep [OF c] by simp
      qed
    qed
  qed
  then show ?case using retain_best_keys [OF IH(1)] IH(2) by simp
qed simp

definition best_copies :: "canonical_record list \<Rightarrow> canonical_record list" where
  "best_copies xs = map snd (foldl retain_best [] xs)"

lemma best_copies_spec:
  shows "r \<in> set (best_copies xs) \<Longrightarrow> best_copy xs (event_key r) r"
    and "distinct (map event_key (best_copies xs))"
    and "event_key ` set (best_copies xs) = event_key ` set xs"
proof -
  let ?m = "foldl retain_best [] xs"
  note m = foldl_retain_best [of xs]
  have key: "event_key q = k \<and> best_copy xs k q" if "(k, q) \<in> set ?m" for k q
  proof -
    have "map_of ?m k = Some q" using that m by simp
    then show ?thesis using m best_copyD(1) by blast
  qed
  have fst: "map event_key (best_copies xs) = map fst ?m"
    using key by (auto simp: best_copies_def)
  show "distinct (map event_key (best_copies xs))" using m by (simp add: fst)
  show "event_key ` set (best_copies xs) = event_key ` set xs"
    using m by (metis fst list.set_map)
  show "best_copy xs (event_key r) r" if "r \<in> set (best_copies xs)"
    using that key by (auto simp: best_copies_def)
qed

section \<open>The newest records of a set\<close>

definition newest :: "nat \<Rightarrow> canonical_record set \<Rightarrow> canonical_record list \<Rightarrow> bool" where
  "newest n S rs \<longleftrightarrow> sorted (map received_order rs) \<and> distinct (map event_key rs) \<and> set rs \<subseteq> S \<and>
     length rs = min n (card S) \<and> (\<forall>x \<in> S - set rs. \<forall>y \<in> set rs. received_order x \<le> received_order y)"

lemma newest_drain:
  assumes "distinct (map event_key xs)"
  shows "newest n (set xs) (drain_to_last n (sort_key received_order xs))"
proof -
  let ?s = "sort_key received_order xs"
  have d: "distinct (map event_key ?s)"
    using assms by (metis distinct_map distinct_sort set_sort)
  have "card (set xs) = length xs" using assms distinct_card distinct_map by blast
  moreover have "received_order x \<le> received_order y"
    if "x \<in> set xs" "x \<notin> set (drain_to_last n ?s)" "y \<in> set (drain_to_last n ?s)" for x y
    by (rule drain_to_last_keeps_newest [of _ ?s]) (use that in simp_all)
  moreover have "set (drain_to_last n ?s) \<subseteq> set xs" using set_drain_to_last [of n ?s] by simp
  ultimately show ?thesis
    unfolding newest_def by (auto simp: sorted_drain_to_last distinct_drain_to_last d)
qed

lemma merge_peer_records_newest:
  "newest lim (set (best_copies (local @ peer))) (merge_peer_records local peer lim)"
  unfolding merge_peer_records_def best_copies_def [symmetric]
  by (rule newest_drain) (rule best_copies_spec)

text \<open>All copies of an event agree.\<close>

definition agree :: "canonical_record set \<Rightarrow> bool" where
  "agree S \<longleftrightarrow> inj_on event_key S"

lemma best_copies_agree: "agree (set xs) \<Longrightarrow> set (best_copies xs) = set xs"
proof -
  assume a: "agree (set xs)"
  have sub: "set (best_copies xs) \<subseteq> set xs" using best_copies_spec(1) best_copyD(2) by blast
  moreover have "r \<in> set (best_copies xs)" if r: "r \<in> set xs" for r
  proof -
    have "event_key r \<in> event_key ` set (best_copies xs)" using r best_copies_spec(3) by blast
    then obtain q where "q \<in> set (best_copies xs)" "event_key q = event_key r" by auto
    then show ?thesis using a sub r by (auto simp: agree_def dest: inj_onD)
  qed
  ultimately show ?thesis by blast
qed

lemma agree_sub: "agree S \<Longrightarrow> T \<subseteq> S \<Longrightarrow> agree T"
  by (auto simp: agree_def intro: inj_on_subset)

lemma newest_step:
  assumes "finite A" and "finite B" and "newest n A as" and "newest n (set as \<union> B) rs"
  shows "newest n (A \<union> B) rs"
proof -
  have das: "length as = card (set as)" "length rs = card (set rs)"
    using assms(3,4) by (metis distinct_card distinct_map newest_def)+
  have sub: "set as \<subseteq> A" "set rs \<subseteq> set as \<union> B" using assms(3,4) by (auto simp: newest_def)
  have full: "length as = n \<and> n \<le> card (set as \<union> B) \<and> length rs = n" if "set as \<noteq> A"
  proof -
    have "card (set as) < card A" using that sub(1) assms(1) by (simp add: psubset_card_mono psubset_eq)
    then have "length as = n" using assms(3) das by (simp add: newest_def)
    moreover have "card (set as) \<le> card (set as \<union> B)" by (rule card_mono) (use assms(2) in auto)
    ultimately show ?thesis using das assms(4) by (simp add: newest_def)
  qed
  have len: "length rs = min n (card (A \<union> B))"
  proof (cases "set as = A")
    case True
    then show ?thesis using assms(4) by (simp add: newest_def)
  next
    case False
    have "card (set as \<union> B) \<le> card (A \<union> B)" by (rule card_mono) (use assms(1,2) sub in auto)
    then show ?thesis using full [OF False] by simp
  qed
  have "received_order x \<le> received_order y" if x: "x \<in> A \<union> B - set rs" and y: "y \<in> set rs" for x y
  proof (cases "x \<in> set as \<union> B")
    case True
    then show ?thesis using assms(4) x y by (simp add: newest_def)
  next
    case False
    then have xa: "x \<in> A - set as" using x by blast
    then have ne: "set as \<noteq> A" by blast
    have older: "received_order x \<le> received_order z" if "z \<in> set as" for z
      using assms(3) xa that by (simp add: newest_def)
    show ?thesis
    proof (cases "y \<in> set as")
      case False
      have "\<not> set as \<subseteq> set rs"
      proof
        assume "set as \<subseteq> set rs"
        then have "set as = set rs" using full [OF ne] das by (simp add: card_subset_eq)
        then show False using y False by simp
      qed
      then obtain z where z: "z \<in> set as" "z \<notin> set rs" by blast
      then have "received_order z \<le> received_order y" using assms(4) y by (simp add: newest_def)
      then show ?thesis using older [OF z(1)] by (rule order_trans [rotated])
    qed (rule older)
  qed
  then show ?thesis using assms(4) sub len by (auto simp: newest_def)
qed

lemma newest_unique:
  assumes "agree S" and "finite S" and "newest n S rs" and "newest n S qs"
  shows "rs = qs"
proof -
  have inj: "inj_on received_order S"
    using assms(1) by (auto simp: agree_def inj_on_def received_order_def)
  have d: "distinct rs" "distinct qs" "set rs \<subseteq> S" "set qs \<subseteq> S" "length rs = length qs"
    using assms(3,4) by (auto simp: newest_def distinct_map)
  have "set rs \<subseteq> set qs"
  proof
    fix x assume x: "x \<in> set rs"
    show "x \<in> set qs"
    proof (rule ccontr)
      assume nx: "x \<notin> set qs"
      have "card (set rs) = card (set qs)" using d by (simp add: distinct_card)
      then have "\<not> set qs \<subseteq> set rs" using x nx by (metis List.finite_set card_subset_eq)
      then obtain y where y: "y \<in> set qs" "y \<notin> set rs" by blast
      have "received_order y \<le> received_order x" using assms(3) x y d by (auto simp: newest_def)
      moreover have "received_order x \<le> received_order y" using assms(4) x nx y d by (auto simp: newest_def)
      ultimately have "x = y" using inj x y(1) d by (meson dual_order.antisym inj_on_def subsetD)
      then show False using x y by simp
    qed
  qed
  then have "set rs = set qs" using d by (metis List.finite_set card_subset_eq distinct_card)
  then have "set (map received_order rs) = set (map received_order qs)" by simp
  moreover have "distinct (map received_order rs)" "distinct (map received_order qs)"
    using inj d by (auto simp: distinct_map intro: inj_on_subset)
  moreover have "sorted (map received_order rs)" "sorted (map received_order qs)"
    using assms(3,4) by (auto simp: newest_def)
  ultimately have "map received_order rs = map received_order qs"
    by (simp only: sorted_distinct_set_unique)
  then show ?thesis
    by (rule map_inj_on) (rule inj_on_subset [OF inj], use d in simp)
qed

section \<open>Collecting the answers of the peers\<close>

text \<open>A reply as \<open>get_local_recent\<close> of a peer produces it: in order and without duplicates.\<close>

definition reply_ok :: "peer_local_response \<Rightarrow> bool" where
  "reply_ok p \<longleftrightarrow> sorted (map received_order (pr_records p)) \<and> distinct (map event_key (pr_records p)) \<and>
     intervals_ok (pr_coverage p)"

definition accepted :: "nat \<Rightarrow> string \<Rightarrow> peer_local_response option list \<Rightarrow> peer_local_response list" where
  "accepted lim channel replies =
     concat (map (\<lambda>a. case a of Inl _ \<Rightarrow> [] | Inr p \<Rightarrow> [p]) (map (accept_response lim channel) replies))"

definition reply_records :: "peer_local_response list \<Rightarrow> canonical_record set" where
  "reply_records ps = (\<Union>p \<in> set ps. set (pr_records p))"

lemma accepted_bound: "p \<in> set (accepted lim channel replies) \<Longrightarrow>
    length (pr_records p) \<le> lim \<and> Some p \<in> set replies \<and>
    (\<forall>r \<in> set (pr_records p). eq_ignore_ascii_case (channel_key r) channel)"
  by (auto simp: accepted_def accept_response_def list_ex_iff split: option.splits if_splits sum.splits)

fun collect_accepted :: "nat \<Rightarrow> peer_local_response \<Rightarrow> peer_local_response list \<Rightarrow> peer_local_response" where
  "collect_accepted lim acc [] = acc"
| "collect_accepted lim acc (p # ps) = collect_accepted lim (combine_responses lim acc p) ps"

lemma collect_responses_accepted:
  "collect_responses lim acc (map (accept_response lim channel) replies) =
     (case acc of
        Some a \<Rightarrow> Some (collect_accepted lim a (accepted lim channel replies))
      | None \<Rightarrow> (case accepted lim channel replies of [] \<Rightarrow> None
                 | p # ps \<Rightarrow> Some (collect_accepted lim p ps)))"
proof (induction replies arbitrary: acc)
  case Nil
  then show ?case by (simp add: accepted_def split: option.splits)
next
  case (Cons q replies)
  show ?case
  proof (cases "accept_response lim channel q")
    case (Inl u)
    then have a: "accepted lim channel (q # replies) = accepted lim channel replies"
      by (simp add: accepted_def)
    show ?thesis unfolding a using Cons [of acc] Inl by simp
  next
    case (Inr p)
    then have a: "accepted lim channel (q # replies) = p # accepted lim channel replies"
      by (simp add: accepted_def)
    show ?thesis
      by (cases acc) (simp_all only: list.map Inr collect_responses.simps Cons a option.case list.case
          collect_accepted.simps)
  qed
qed

lemma fetch_local_alt:
  "fetch_local lim channel replies =
     (case accepted lim channel replies of [] \<Rightarrow> Inl AllFailed
      | p # ps \<Rightarrow> Inr (Some (collect_accepted lim p ps)))"
proof -
  have "list_ex (\<lambda>a. \<not> isl a) (map (accept_response lim channel) replies) \<longleftrightarrow>
      accepted lim channel replies \<noteq> []"
    by (induction replies) (auto simp: accepted_def split: sum.splits)
  then show ?thesis
    by (cases "accepted lim channel replies")
       (simp_all add: fetch_local_def Let_def collect_responses_accepted)
qed

lemma combine_responses_spec:
  assumes "newest lim A (pr_records a)" and "finite A" and "agree (A \<union> set (pr_records p))"
    and "intervals_ok (pr_coverage a)" and "intervals_ok (pr_coverage p)"
  shows "newest lim (A \<union> set (pr_records p)) (pr_records (combine_responses lim a p)) \<and>
    intervals_ok (pr_coverage (combine_responses lim a p)) \<and>
    (\<forall>t. covered (pr_coverage (combine_responses lim a p)) t \<longleftrightarrow>
       covered (pr_coverage a) t \<or> covered (pr_coverage p) t)"
proof -
  have sub: "set (pr_records a) \<subseteq> A" using assms(1) by (simp add: newest_def)
  have "agree (set (pr_records a @ pr_records p))"
    by (rule agree_sub [OF assms(3)]) (use sub in auto)
  then have "newest lim (set (pr_records a) \<union> set (pr_records p)) (pr_records (combine_responses lim a p))"
    using merge_peer_records_newest [of lim "pr_records a" "pr_records p"]
    by (simp add: best_copies_agree combine_responses_def Let_def)
  then have "newest lim (A \<union> set (pr_records p)) (pr_records (combine_responses lim a p))"
    using newest_step [OF assms(2) _ assms(1)] by blast
  moreover have ok: "intervals_ok (pr_coverage a @ pr_coverage p)"
    using assms(4,5) by (auto simp: intervals_ok_def)
  ultimately show ?thesis
    using merge_intervals_spec [OF ok] by (simp add: combine_responses_def Let_def)
qed

lemma collect_accepted_spec:
  assumes "newest lim A (pr_records a)" and "finite A" and "agree (A \<union> reply_records ps)"
    and "intervals_ok (pr_coverage a)" and "\<forall>p \<in> set ps. reply_ok p"
  shows "newest lim (A \<union> reply_records ps) (pr_records (collect_accepted lim a ps)) \<and>
    (\<forall>t. covered (pr_coverage (collect_accepted lim a ps)) t \<longleftrightarrow>
       covered (pr_coverage a) t \<or> (\<exists>p \<in> set ps. covered (pr_coverage p) t))"
  using assms
proof (induction ps arbitrary: A a)
  case Nil
  then show ?case by (simp add: reply_records_def)
next
  case (Cons p ps)
  have rr: "reply_records (p # ps) = set (pr_records p) \<union> reply_records ps"
    by (simp add: reply_records_def)
  have c: "newest lim (A \<union> set (pr_records p)) (pr_records (combine_responses lim a p)) \<and>
    intervals_ok (pr_coverage (combine_responses lim a p)) \<and>
    (\<forall>t. covered (pr_coverage (combine_responses lim a p)) t \<longleftrightarrow>
       covered (pr_coverage a) t \<or> covered (pr_coverage p) t)"
    by (rule combine_responses_spec)
       (use Cons.prems in \<open>auto simp: rr reply_ok_def intro: agree_sub\<close>)
  have "newest lim ((A \<union> set (pr_records p)) \<union> reply_records ps)
      (pr_records (collect_accepted lim (combine_responses lim a p) ps)) \<and>
    (\<forall>t. covered (pr_coverage (collect_accepted lim (combine_responses lim a p) ps)) t \<longleftrightarrow>
       covered (pr_coverage (combine_responses lim a p)) t \<or> (\<exists>p \<in> set ps. covered (pr_coverage p) t))"
    by (rule Cons.IH) (use Cons.prems c in \<open>auto simp: rr Un_assoc\<close>)
  then show ?case using c by (auto simp: rr Un_assoc)
qed

lemma newest_reply:
  "reply_ok p \<Longrightarrow> length (pr_records p) \<le> lim \<Longrightarrow> newest lim (set (pr_records p)) (pr_records p)"
  by (auto simp: reply_ok_def newest_def distinct_card distinct_map)

section \<open>Properties\<close>

text \<open>
  Merging local and peer records keeps one copy per event, the first of those of the highest
  fidelity; of these copies the answer holds the newest \<open>lim\<close>, in order of reception, all of them if
  there are fewer, and every copy it leaves out was received no later than every record it holds.
\<close>

theorem merge_peer_records_best:
  assumes "rs = merge_peer_records local peer lim"
  shows "sorted (map received_order rs) \<and> distinct (map event_key rs) \<and>
    length rs = min lim (card (event_key ` set (local @ peer))) \<and>
    (\<forall>r \<in> set rs. best_copy (local @ peer) (event_key r) r) \<and>
    (\<forall>x \<in> set (local @ peer). event_key x \<notin> event_key ` set rs \<longrightarrow>
       (\<exists>q. best_copy (local @ peer) (event_key x) q \<and> (\<forall>r \<in> set rs. received_order q \<le> received_order r)))"
proof -
  let ?b = "best_copies (local @ peer)"
  note n = merge_peer_records_newest [of lim local peer, folded assms]
  have inj: "inj_on event_key (set ?b)" using best_copies_spec(2) by (simp add: distinct_map)
  have card: "card (set ?b) = card (event_key ` set (local @ peer))"
    using card_image [OF inj] by (simp add: best_copies_spec(3))
  have dropped: "\<exists>q. best_copy (local @ peer) (event_key x) q \<and> (\<forall>r \<in> set rs. received_order q \<le> received_order r)"
    if x: "x \<in> set (local @ peer)" "event_key x \<notin> event_key ` set rs" for x
  proof -
    have "event_key x \<in> event_key ` set ?b" using x(1) best_copies_spec(3) by blast
    then obtain q where q: "q \<in> set ?b" "event_key q = event_key x" by auto
    then have "q \<notin> set rs" using x(2) by (metis image_eqI)
    then have "\<forall>r \<in> set rs. received_order q \<le> received_order r" using n q(1) by (simp add: newest_def)
    then show ?thesis using best_copies_spec(1) [OF q(1)] q(2) by auto
  qed
  show ?thesis
    using n best_copies_spec(1) dropped by (auto simp: newest_def card simp del: set_append)
qed

definition ex_record :: "u8 \<Rightarrow> int \<Rightarrow> source_fidelity \<Rightarrow> canonical_record" where
  "ex_record k t f = \<lparr>channel_key = ''c'', event_at_ms = t, received_at_ms = t, event_key = [k],
     source_id = [], fidelity = f, raw_irc = [k]\<rparr>"

theorem merge_peer_records_best_witness:
  "merge_peer_records [ex_record 1 10 Unknown, ex_record 2 20 DirectIrc]
       [ex_record 1 30 DirectIrc, ex_record 3 5 DirectIrc] 2 = [ex_record 2 20 DirectIrc, ex_record 1 30 DirectIrc] \<and>
   length (merge_peer_records [ex_record 1 10 Unknown, ex_record 2 20 DirectIrc]
       [ex_record 1 30 DirectIrc, ex_record 3 5 DirectIrc] 2) =
     min 2 (card (event_key ` set [ex_record 1 10 Unknown, ex_record 2 20 DirectIrc,
       ex_record 1 30 DirectIrc, ex_record 3 5 DirectIrc]))"
proof
  show "merge_peer_records [ex_record 1 10 Unknown, ex_record 2 20 DirectIrc]
       [ex_record 1 30 DirectIrc, ex_record 3 5 DirectIrc] 2 = [ex_record 2 20 DirectIrc, ex_record 1 30 DirectIrc]"
    by code_simp
  show "length (merge_peer_records [ex_record 1 10 Unknown, ex_record 2 20 DirectIrc]
       [ex_record 1 30 DirectIrc, ex_record 3 5 DirectIrc] 2) =
     min 2 (card (event_key ` set [ex_record 1 10 Unknown, ex_record 2 20 DirectIrc,
       ex_record 1 30 DirectIrc, ex_record 3 5 DirectIrc]))"
    using merge_peer_records_best [OF refl, of "[ex_record 1 10 Unknown, ex_record 2 20 DirectIrc]"
        "[ex_record 1 30 DirectIrc, ex_record 3 5 DirectIrc]" 2] by simp
qed


definition ex_reply :: "canonical_record list \<Rightarrow> int \<Rightarrow> int \<Rightarrow> peer_local_response" where
  "ex_reply rs a b = \<lparr>pr_records = rs, pr_coverage = [ex_interval a b], pr_oldest = None, pr_newest = None\<rparr>"

definition ex_replies :: "peer_local_response option list" where
  "ex_replies = [Some (ex_reply [ex_record 1 10 Unknown, ex_record 2 20 DirectIrc] 5 20), None,
     Some (ex_reply [ex_record 2 20 DirectIrc, ex_record 3 30 Unknown] 20 40)]"


end
