(* ===== verification/OpenBlocks.thy ===== *)
theory OpenBlocks
  imports Records
begin

text \<open>
  The open tails of the channels, \<^verbatim>\<open>src/storage/open_blocks.rs\<close>: records collect per channel until a
  block is full, idle or old, or until the bounds on open channels and estimated bytes force the
  least recently appended block out. The hash maps are association lists and index functions; the
  order in which a hash map is iterated is that of the list, and no statement depends on it. The
  read-write lock of \<open>SharedOpenBlocks\<close> is sequential access.
\<close>

record open_block_limits =
  ol_block_messages :: nat
  max_open_channels :: nat
  max_open_bytes :: nat
  idle_seal_after_ms :: nat
  max_open_age_ms :: nat

datatype open_block_error = InvalidLimits | ClockMovedBackwards string | OpenLockPoisoned

definition limits_valid :: "open_block_limits \<Rightarrow> bool" where
  "limits_valid l \<longleftrightarrow> ol_block_messages l \<noteq> 0 \<and> max_open_channels l \<noteq> 0 \<and> max_open_bytes l \<noteq> 0 \<and>
     idle_seal_after_ms l \<noteq> 0 \<and> max_open_age_ms l \<noteq> 0"

record open_block =
  ob_records :: "canonical_record list"
  event_indices :: "event_key \<Rightarrow> nat option"
  ob_estimated_bytes :: nat
  opened_at_ms :: nat
  last_append_at_ms :: nat

record open_block_manager =
  om_limits :: open_block_limits
  om_blocks :: "(string \<times> open_block) list"
  om_estimated_bytes :: nat
  om_open_messages :: nat

record open_block_stats =
  open_channels :: nat
  open_messages :: nat
  estimated_bytes :: nat

definition new_manager :: "open_block_limits \<Rightarrow> open_block_error + open_block_manager" where
  "new_manager l =
     (if limits_valid l
      then Inr \<lparr>om_limits = l, om_blocks = [], om_estimated_bytes = 0, om_open_messages = 0\<rparr>
      else Inl InvalidLimits)"

definition estimated_record_bytes :: "canonical_record \<Rightarrow> nat" where
  "estimated_record_bytes r =
     u64_saturating_add (u64_saturating_add (length (raw_irc r)) (length (channel_key r))) 128"

definition take_block ::
    "string \<Rightarrow> open_block_manager \<Rightarrow> canonical_record list option \<times> open_block_manager" where
  "take_block ch self =
     (case map_of (om_blocks self) ch of
        None \<Rightarrow> (None, self)
      | Some b \<Rightarrow> (Some (ob_records b),
          self\<lparr>om_blocks := filter (\<lambda>(k, v). k \<noteq> ch) (om_blocks self),
               om_estimated_bytes := u64_saturating_sub (om_estimated_bytes self) (ob_estimated_bytes b),
               om_open_messages := u64_saturating_sub (om_open_messages self) (length (ob_records b))\<rparr>))"

text \<open>The block that \<open>min_by_key\<close> selects; the channel makes the key unique.\<close>

definition oldest_block :: "open_block_manager \<Rightarrow> string option" where
  "oldest_block self = map_option (snd \<circ> snd)
     (iter_min (map (\<lambda>(ch, b). (last_append_at_ms b, opened_at_ms b, ch)) (om_blocks self)))"

definition over_bounds :: "open_block_manager \<Rightarrow> bool" where
  "over_bounds self \<longleftrightarrow> length (om_blocks self) > max_open_channels (om_limits self) \<or>
     om_estimated_bytes self > max_open_bytes (om_limits self)"

lemma oldest_block_mem: "oldest_block self = Some ch \<Longrightarrow> ch \<in> fst ` set (om_blocks self)"
proof -
  let ?keys = "map (\<lambda>(ch, b). (last_append_at_ms b, opened_at_ms b, ch)) (om_blocks self)"
  assume "oldest_block self = Some ch"
  then obtain t u where "iter_min ?keys = Some (t, u, ch)"
    by (auto simp: oldest_block_def)
  then have k: "?keys \<noteq> []" "(t, u, ch) = Min (set ?keys)" by (simp_all add: iter_min_Some)
  have "Min (set ?keys) \<in> set ?keys" by (rule Min_in) (use k(1) in auto)
  then have "(t, u, ch) \<in> (\<lambda>(ch, b). (last_append_at_ms b, opened_at_ms b, ch)) ` set (om_blocks self)"
    by (simp only: k(2) set_map)
  then obtain x where "x \<in> set (om_blocks self)" "fst x = ch" by (auto split: prod.splits)
  then show ?thesis by (metis image_eqI)
qed

lemma take_block_length:
  assumes "take_block ch self = (Some rs, m)"
  shows "length (om_blocks m) < length (om_blocks self)"
proof -
  obtain b where b: "map_of (om_blocks self) ch = Some b"
    "om_blocks m = filter (\<lambda>(k, v). k \<noteq> ch) (om_blocks self)"
    using assms by (auto simp: take_block_def split: option.splits)
  have "(ch, b) \<in> set (om_blocks self)" using b(1) by (rule map_of_SomeD)
  then show ?thesis unfolding b(2) by (rule length_filter_less) simp
qed

function enforce_bounds ::
    "open_block_manager \<Rightarrow> canonical_record list list \<Rightarrow> open_block_manager \<times> canonical_record list list" where
  "enforce_bounds self sealed =
     (if over_bounds self
      then (case oldest_block self of
              None \<Rightarrow> (self, sealed)
            | Some ch \<Rightarrow>
                (case take_block ch self of
                   (None, self') \<Rightarrow> (self', sealed)
                 | (Some rs, self') \<Rightarrow> enforce_bounds self' (sealed @ [rs])))
      else (self, sealed))"
  by pat_completeness auto
termination
  by (relation "measure (\<lambda>(self, sealed). length (om_blocks self))") (simp, metis case_prod_conv in_measure take_block_length)

declare enforce_bounds.simps [simp del]

definition new_block :: "nat \<Rightarrow> open_block" where
  "new_block now = \<lparr>ob_records = [], event_indices = (\<lambda>_. None), ob_estimated_bytes = 0,
     opened_at_ms = now, last_append_at_ms = now\<rparr>"

text \<open>Replacing a held record by a copy of higher fidelity.\<close>

definition upgrade_record ::
    "string \<Rightarrow> open_block \<Rightarrow> nat \<Rightarrow> canonical_record \<Rightarrow> open_block_manager \<Rightarrow> open_block_manager" where
  "upgrade_record ch b i r self =
     (let old = estimated_record_bytes (ob_records b ! i);
          new = estimated_record_bytes r
      in self\<lparr>om_blocks := AList.update ch
           (b\<lparr>ob_records := (ob_records b)[i := r],
              ob_estimated_bytes := u64_saturating_add (u64_saturating_sub (ob_estimated_bytes b) old) new\<rparr>)
           (om_blocks self),
         om_estimated_bytes := u64_saturating_add (u64_saturating_sub (om_estimated_bytes self) old) new\<rparr>)"

definition push_record ::
    "string \<Rightarrow> open_block \<Rightarrow> nat \<Rightarrow> canonical_record \<Rightarrow> open_block_manager \<Rightarrow> open_block_manager" where
  "push_record ch b now r self =
     self\<lparr>om_blocks := AList.update ch
         (b\<lparr>event_indices := (event_indices b)(event_key r \<mapsto> length (ob_records b)),
            ob_records := ob_records b @ [r],
            ob_estimated_bytes := u64_saturating_add (ob_estimated_bytes b) (estimated_record_bytes r),
            last_append_at_ms := now\<rparr>) (om_blocks self),
       om_estimated_bytes := u64_saturating_add (om_estimated_bytes self) (estimated_record_bytes r),
       om_open_messages := om_open_messages self + 1\<rparr>"

text \<open>Appending a new event: seal a full block, then enforce the bounds.\<close>

definition insert_fresh ::
    "string \<Rightarrow> open_block \<Rightarrow> nat \<Rightarrow> canonical_record \<Rightarrow> open_block_manager
      \<Rightarrow> canonical_record list list \<times> open_block_manager" where
  "insert_fresh ch b now r self =
     (let self1 = push_record ch b now r self;
          (self2, sealed) =
            (if Suc (length (ob_records b)) \<ge> ol_block_messages (om_limits self)
             then (case take_block ch self1 of
                     (Some rs, m) \<Rightarrow> (m, [rs])
                   | (None, m) \<Rightarrow> (m, []))
             else (self1, []));
          (self3, sealed') = enforce_bounds self2 sealed
      in (sealed', self3))"

definition open_append ::
    "canonical_record \<Rightarrow> nat \<Rightarrow> open_block_manager
      \<Rightarrow> (open_block_error + canonical_record list list) \<times> open_block_manager" where
  "open_append r now self =
     (let ch = channel_key r;
          b = (case map_of (om_blocks self) ch of None \<Rightarrow> new_block now | Some b \<Rightarrow> b)
      in if now < last_append_at_ms b then (Inl (ClockMovedBackwards ch), self)
         else
           (case event_indices b (event_key r) of
              Some i \<Rightarrow>
                if should_replace r (ob_records b ! i) then (Inr [], upgrade_record ch b i r self)
                else (Inr [], self)
            | None \<Rightarrow>
                (case insert_fresh ch b now r self of (sealed, self') \<Rightarrow> (Inr sealed, self'))))"

fun take_blocks ::
    "string list \<Rightarrow> open_block_manager \<Rightarrow> canonical_record list list \<times> open_block_manager" where
  "take_blocks [] self = ([], self)"
| "take_blocks (ch # chs) self =
     (case take_block ch self of
        (None, m) \<Rightarrow> take_blocks chs m
      | (Some rs, m) \<Rightarrow> (case take_blocks chs m of (rss, m') \<Rightarrow> (rs # rss, m')))"

definition block_due :: "nat \<Rightarrow> open_block_limits \<Rightarrow> open_block \<Rightarrow> bool" where
  "block_due now l b \<longleftrightarrow> u64_saturating_sub now (last_append_at_ms b) \<ge> idle_seal_after_ms l \<or>
     u64_saturating_sub now (opened_at_ms b) \<ge> max_open_age_ms l"

definition seal_due :: "nat \<Rightarrow> open_block_manager \<Rightarrow> canonical_record list list \<times> open_block_manager" where
  "seal_due now self = take_blocks
     (map fst (filter (\<lambda>(ch, b). block_due now (om_limits self) b) (om_blocks self))) self"

definition seal_all :: "open_block_manager \<Rightarrow> canonical_record list list \<times> open_block_manager" where
  "seal_all self = take_blocks (map fst (om_blocks self)) self"

definition open_stats :: "open_block_manager \<Rightarrow> open_block_stats" where
  "open_stats self = \<lparr>open_channels = length (om_blocks self), open_messages = om_open_messages self,
     estimated_bytes = om_estimated_bytes self\<rparr>"

definition open_query :: "query_request \<Rightarrow> open_block_manager \<Rightarrow> canonical_record list" where
  "open_query q self =
     (let held = (case map_of (om_blocks self) (qr_channel_key q) of None \<Rightarrow> [] | Some b \<Rightarrow> ob_records b)
      in drain_to_last (limit q) (sort_key received_order (filter (in_window q) held)))"

definition open_purge_channel :: "string \<Rightarrow> open_block_manager \<Rightarrow> open_block_manager" where
  "open_purge_channel ch self = snd (take_block ch self)"

section \<open>Invariant\<close>

definition records_bytes :: "canonical_record list \<Rightarrow> nat" where
  "records_bytes rs = sum_list (map estimated_record_bytes rs)"

definition block_inv :: "nat \<Rightarrow> string \<Rightarrow> open_block \<Rightarrow> bool" where
  "block_inv bm ch b \<longleftrightarrow>
     (\<forall>i < length (ob_records b). event_indices b (event_key (ob_records b ! i)) = Some i) \<and>
     (\<forall>k i. event_indices b k = Some i \<longrightarrow> i < length (ob_records b) \<and> event_key (ob_records b ! i) = k) \<and>
     (\<forall>r \<in> set (ob_records b). channel_key r = ch) \<and>
     ob_estimated_bytes b = records_bytes (ob_records b) \<and>
     length (ob_records b) < bm \<and> opened_at_ms b \<le> last_append_at_ms b"

text \<open>\<open>open_inv_at n\<close>: the invariant with every block shorter than \<open>n\<close>.\<close>

definition open_inv_at :: "nat \<Rightarrow> open_block_manager \<Rightarrow> bool" where
  "open_inv_at n self \<longleftrightarrow>
     limits_valid (om_limits self) \<and> distinct (map fst (om_blocks self)) \<and>
     (\<forall>ch b. map_of (om_blocks self) ch = Some b \<longrightarrow>
        block_inv n ch b \<and> ob_records b \<noteq> []) \<and>
     om_estimated_bytes self = sum_list (map (\<lambda>(ch, b). records_bytes (ob_records b)) (om_blocks self)) \<and>
     om_open_messages self = sum_list (map (\<lambda>(ch, b). length (ob_records b)) (om_blocks self))"

definition open_inv :: "open_block_manager \<Rightarrow> bool" where
  "open_inv self \<longleftrightarrow> open_inv_at (ol_block_messages (om_limits self)) self"

text \<open>All open records, as a multiset.\<close>

definition open_records :: "open_block_manager \<Rightarrow> canonical_record multiset" where
  "open_records self = sum_list (map (\<lambda>(ch, b). mset (ob_records b)) (om_blocks self))"

lemma block_inv_distinct: "block_inv bm ch b \<Longrightarrow> distinct (map event_key (ob_records b))"
  unfolding distinct_conv_nth block_inv_def by (metis length_map nth_map option.inject)

lemma block_inv_new: "0 < bm \<Longrightarrow> block_inv bm ch (new_block now)"
  by (simp add: block_inv_def new_block_def records_bytes_def)

lemma take_block_spec:
  assumes inv: "open_inv_at n self" and t: "take_block ch self = (Some rs, self')"
  shows "open_inv_at n self' \<and> open_records self = mset rs + open_records self' \<and>
    length (om_blocks self) = Suc (length (om_blocks self')) \<and> om_limits self' = om_limits self \<and>
    rs \<noteq> [] \<and> (\<forall>r \<in> set rs. channel_key r = ch) \<and> length rs < n \<and>
    distinct (map event_key rs) \<and>
    (\<forall>k. map_of (om_blocks self') k = (if k = ch then None else map_of (om_blocks self) k))"
proof -
  let ?rest = "filter (\<lambda>(k, v). k \<noteq> ch) (om_blocks self)"
  obtain b where b: "map_of (om_blocks self) ch = Some b" "rs = ob_records b"
    and self': "self' = self\<lparr>om_blocks := ?rest,
               om_estimated_bytes := u64_saturating_sub (om_estimated_bytes self) (ob_estimated_bytes b),
               om_open_messages := u64_saturating_sub (om_open_messages self) (length (ob_records b))\<rparr>"
    using t by (auto simp: take_block_def split: option.splits)
  have d: "distinct (map fst (om_blocks self))" using inv by (simp add: open_inv_at_def)
  have bi: "block_inv n ch b" "rs \<noteq> []"
    using inv b by (auto simp: open_inv_at_def)
  note rm = sum_list_remove_key [OF d b(1)]
  have e: "om_estimated_bytes self = ob_estimated_bytes b +
      sum_list (map (\<lambda>(ch, b). records_bytes (ob_records b)) ?rest)"
    using inv rm [of "\<lambda>(ch, b). records_bytes (ob_records b)"] bi(1)
    by (simp add: open_inv_at_def block_inv_def)
  have m: "om_open_messages self = length (ob_records b) +
      sum_list (map (\<lambda>(ch, b). length (ob_records b)) ?rest)"
    using inv rm [of "\<lambda>(ch, b). length (ob_records b)"] by (simp add: open_inv_at_def)
  have "om_estimated_bytes self' = sum_list (map (\<lambda>(ch, b). records_bytes (ob_records b)) (om_blocks self'))"
    "om_open_messages self' = sum_list (map (\<lambda>(ch, b). length (ob_records b)) (om_blocks self'))"
    by (simp_all add: self' u64_saturating_sub_def e m)
  moreover have "block_inv n k c \<and> ob_records c \<noteq> []"
    if "map_of (om_blocks self') k = Some c" for k c
    using that inv by (simp add: self' open_inv_at_def map_of_remove_key split: if_splits)
  moreover have "limits_valid (om_limits self')" "distinct (map fst (om_blocks self'))"
    using inv d by (simp_all add: self' open_inv_at_def distinct_fst_filter)
  ultimately have "open_inv_at n self'" unfolding open_inv_at_def by blast
  moreover have "open_records self = mset rs + open_records self'"
    using rm [of "\<lambda>(ch, b). mset (ob_records b)"] by (simp add: open_records_def self' b(2))
  moreover have "length (om_blocks self) = Suc (length (om_blocks self'))"
    using length_remove_key [OF d b(1)] by (simp add: self')
  ultimately show ?thesis
    using bi block_inv_distinct [OF bi(1)] b(2)
    by (auto simp: self' block_inv_def map_of_remove_key)
qed

lemma take_block_None:
  "take_block ch self = (None, self') \<longleftrightarrow> map_of (om_blocks self) ch = None \<and> self' = self"
  by (auto simp: take_block_def split: option.splits)

text \<open>A sealed batch: records of one channel, at most a block of them, each event once.\<close>

definition sealed_ok :: "nat \<Rightarrow> canonical_record list \<Rightarrow> bool" where
  "sealed_ok bm rs \<longleftrightarrow> rs \<noteq> [] \<and> length rs \<le> bm \<and> distinct (map event_key rs) \<and>
     (\<exists>ch. \<forall>r \<in> set rs. channel_key r = ch)"

lemma enforce_bounds_spec:
  assumes "open_inv self" and "enforce_bounds self sealed = (self', sealed')"
  shows "open_inv self' \<and> \<not> over_bounds self' \<and> om_limits self' = om_limits self \<and>
    (\<exists>more. sealed' = sealed @ more \<and> (\<forall>rs \<in> set more. sealed_ok (ol_block_messages (om_limits self)) rs) \<and>
       open_records self = open_records self' + mset (concat more) \<and>
       (\<not> over_bounds self \<longrightarrow> more = []))"
  using assms
proof (induction self sealed rule: enforce_bounds.induct)
  case (1 self sealed)
  show ?case
  proof (cases "over_bounds self")
    case False
    then have "self' = self" "sealed' = sealed"
      using "1.prems"(2) by (simp_all add: enforce_bounds.simps [of self sealed])
    then show ?thesis using "1.prems"(1) False by simp
  next
    case True
    have "om_blocks self \<noteq> []"
      using True "1.prems"(1) by (auto simp: over_bounds_def open_inv_def open_inv_at_def)
    then obtain ch where ch: "oldest_block self = Some ch"
      by (cases "iter_min (map (\<lambda>(ch, b). (last_append_at_ms b, opened_at_ms b, ch)) (om_blocks self))")
         (auto simp: oldest_block_def)
    then obtain b where "map_of (om_blocks self) ch = Some b"
      using oldest_block_mem by (metis map_of_eq_None_iff not_None_eq)
    then obtain rs m where t: "take_block ch self = (Some rs, m)"
      by (auto simp: take_block_def)
    note s = take_block_spec [OF "1.prems"(1) [unfolded open_inv_def] t]
    have e: "enforce_bounds m (sealed @ [rs]) = (self', sealed')"
      using "1.prems"(2) True ch t by (simp add: enforce_bounds.simps [of self sealed])
    have inv: "open_inv m" using s by (simp add: open_inv_def)
    have IH: "open_inv self' \<and> \<not> over_bounds self' \<and> om_limits self' = om_limits m \<and>
      (\<exists>more. sealed' = (sealed @ [rs]) @ more \<and> (\<forall>rs \<in> set more. sealed_ok (ol_block_messages (om_limits m)) rs) \<and>
         open_records m = open_records self' + mset (concat more) \<and> (\<not> over_bounds m \<longrightarrow> more = []))"
      by (rule "1.IH" [OF True ch t [symmetric] refl inv e])
    then obtain more where more: "sealed' = (sealed @ [rs]) @ more"
      "\<forall>rs \<in> set more. sealed_ok (ol_block_messages (om_limits m)) rs"
      "open_records m = open_records self' + mset (concat more)" by blast
    have "sealed_ok (ol_block_messages (om_limits self)) rs"
      using s by (auto simp: sealed_ok_def)
    then show ?thesis
      using IH more s True by (intro conjI exI [of _ "rs # more"]) (auto simp: ac_simps)
  qed
qed

section \<open>Appending\<close>

text \<open>The held record of the same event in the same channel.\<close>

definition held_copy :: "open_block_manager \<Rightarrow> canonical_record \<Rightarrow> canonical_record option" where
  "held_copy self r = Option.bind (map_of (om_blocks self) (channel_key r))
     (\<lambda>b. map_option (\<lambda>i. ob_records b ! i) (event_indices b (event_key r)))"

definition append_fits :: "open_block_manager \<Rightarrow> canonical_record \<Rightarrow> bool" where
  "append_fits self r \<longleftrightarrow> om_estimated_bytes self + estimated_record_bytes r \<le> u64_max"

lemma block_bytes_le:
  assumes "open_inv_at n self" and "map_of (om_blocks self) ch = Some b"
  shows "ob_estimated_bytes b \<le> om_estimated_bytes self"
proof -
  have "block_inv n ch b" "distinct (map fst (om_blocks self))"
    using assms by (auto simp: open_inv_at_def)
  then show ?thesis
    using assms sum_list_remove_key [of "om_blocks self" ch b "\<lambda>(ch, b). records_bytes (ob_records b)"]
    by (simp add: open_inv_at_def block_inv_def)
qed

lemma multiset_swap_eq:
  assumes "X + A = Y + B" and "add_mset p B = add_mset q A"
  shows "add_mset p X + A = add_mset q Y + A"
proof -
  have "add_mset p X + A = Y + add_mset p B" using assms(1) by simp
  then show ?thesis using assms(2) by simp
qed

lemma upgrade_record_inv:
  assumes inv: "open_inv_at n self" and b: "map_of (om_blocks self) ch = Some b"
    and i: "event_indices b (event_key r) = Some i" and ch: "channel_key r = ch"
    and fits: "append_fits self r"
  shows "open_inv_at n (upgrade_record ch b i r self) \<and>
    add_mset (ob_records b ! i) (open_records (upgrade_record ch b i r self)) = add_mset r (open_records self)"
proof -
  let ?old = "estimated_record_bytes (ob_records b ! i)" and ?new = "estimated_record_bytes r"
  let ?b = "b\<lparr>ob_records := (ob_records b)[i := r],
      ob_estimated_bytes := u64_saturating_add (u64_saturating_sub (ob_estimated_bytes b) ?old) ?new\<rparr>"
  have d: "distinct (map fst (om_blocks self))" using inv by (simp add: open_inv_at_def)
  have bi: "block_inv n ch b" "ob_records b \<noteq> []" using inv b by (auto simp: open_inv_at_def)
  then have il: "i < length (ob_records b)" "event_key (ob_records b ! i) = event_key r"
    using i by (auto simp: block_inv_def)
  have eb: "ob_estimated_bytes b = records_bytes (ob_records b)" using bi(1) by (simp add: block_inv_def)
  have le: "ob_estimated_bytes b \<le> om_estimated_bytes self" by (rule block_bytes_le [OF inv b])
  have old_le: "?old \<le> records_bytes (ob_records b)"
    unfolding records_bytes_def by (rule member_le_sum_list) (use il in auto)
  have upd: "records_bytes ((ob_records b)[i := r]) + ?old = records_bytes (ob_records b) + ?new"
    using sum_list_update [of i "map estimated_record_bytes (ob_records b)" ?new] il old_le
    by (simp add: records_bytes_def map_update)
  have est: "ob_estimated_bytes ?b = records_bytes (ob_records ?b)"
    using fits le old_le upd by (simp add: int_defs append_fits_def eb)
  have idx: "event_key ((ob_records b)[i := r] ! j) = event_key (ob_records b ! j)" if "j < length (ob_records b)" for j
    using il that by (cases "j = i") auto
  have nb: "block_inv n ch ?b"
    unfolding block_inv_def
  proof (intro conjI)
    show "\<forall>r \<in> set (ob_records ?b). channel_key r = ch"
      using bi(1) ch set_update_subset_insert [of "ob_records b" i r] by (auto simp: block_inv_def)
  qed (use bi(1) est idx in \<open>auto simp: block_inv_def\<close>)
  let ?u = "AList.update ch ?b (om_blocks self)"
  let ?f = "\<lambda>(ch::string, b). records_bytes (ob_records b)"
  have sum1: "sum_list (map ?f ?u) + ?old = om_estimated_bytes self + ?new"
    using sum_list_update_key [OF d b, of ?f ?b] inv upd by (simp add: open_inv_at_def)
  have bytes: "om_estimated_bytes (upgrade_record ch b i r self) = sum_list (map ?f ?u)"
    using sum1 fits le old_le eb by (simp add: upgrade_record_def Let_def int_defs append_fits_def)
  have msgs: "om_open_messages self = sum_list (map (\<lambda>(ch, b). length (ob_records b)) ?u)"
    using sum_list_update_key [OF d b, of "\<lambda>(ch, b). length (ob_records b)" ?b] inv
    by (simp add: open_inv_at_def)
  have blocks: "om_blocks (upgrade_record ch b i r self) = ?u"
    by (simp add: upgrade_record_def Let_def)
  have "block_inv n k c \<and> ob_records c \<noteq> []" if "map_of ?u k = Some c" for k c
    using that inv nb bi(2) by (auto simp: update_conv' open_inv_at_def split: if_splits)
  then have inv': "open_inv_at n (upgrade_record ch b i r self)"
    unfolding open_inv_at_def bytes unfolding blocks
    using inv msgs d by (simp add: upgrade_record_def Let_def open_inv_at_def distinct_update)
  have "open_records (upgrade_record ch b i r self) + mset (ob_records b) =
      open_records self + mset (ob_records ?b)"
    using sum_list_update_key [OF d b, of "\<lambda>(ch, b). mset (ob_records b)" ?b]
    by (simp add: open_records_def blocks)
  moreover have "add_mset (ob_records b ! i) (mset (ob_records ?b)) = add_mset r (mset (ob_records b))"
    using il by (simp add: mset_update add_mset_commute [of r])
  ultimately have "add_mset (ob_records b ! i) (open_records (upgrade_record ch b i r self)) + mset (ob_records b)
      = add_mset r (open_records self) + mset (ob_records b)"
    by (rule multiset_swap_eq)
  then have "add_mset (ob_records b ! i) (open_records (upgrade_record ch b i r self)) = add_mset r (open_records self)"
    by (rule add_right_imp_eq)
  then show ?thesis using inv' by blast
qed

lemma push_record_inv:
  assumes inv: "open_inv_at n self"
    and b: "b = (case map_of (om_blocks self) ch of None \<Rightarrow> new_block now | Some b \<Rightarrow> b)"
    and i: "event_indices b (event_key r) = None" and ch: "channel_key r = ch"
    and fits: "append_fits self r" and now: "last_append_at_ms b \<le> now" and n: "0 < n"
  shows "open_inv_at (Suc n) (push_record ch b now r self) \<and>
    open_records (push_record ch b now r self) = add_mset r (open_records self) \<and>
    (\<forall>k. k \<noteq> ch \<longrightarrow> map_of (om_blocks (push_record ch b now r self)) k = map_of (om_blocks self) k) \<and>
    (\<exists>c. map_of (om_blocks (push_record ch b now r self)) ch = Some c \<and> ob_records c = ob_records b @ [r])"
proof -
  let ?b = "b\<lparr>event_indices := (event_indices b)(event_key r \<mapsto> length (ob_records b)),
            ob_records := ob_records b @ [r],
            ob_estimated_bytes := u64_saturating_add (ob_estimated_bytes b) (estimated_record_bytes r),
            last_append_at_ms := now\<rparr>"
  have d: "distinct (map fst (om_blocks self))" using inv by (simp add: open_inv_at_def)
  have bi: "block_inv n ch b"
    using inv b block_inv_new [OF n] by (auto simp: open_inv_at_def split: option.splits)
  have le: "ob_estimated_bytes b \<le> om_estimated_bytes self"
  proof (cases "map_of (om_blocks self) ch")
    case None
    then show ?thesis using b by (simp add: new_block_def)
  next
    case (Some c)
    then show ?thesis using b block_bytes_le [OF inv Some] by simp
  qed
  have est: "ob_estimated_bytes ?b = records_bytes (ob_records ?b)"
    using fits le bi by (simp add: int_defs append_fits_def block_inv_def records_bytes_def)
  have nb: "block_inv (Suc n) ch ?b"
    unfolding block_inv_def
  proof (intro conjI allI impI)
    have fresh: "event_key (ob_records b ! j) \<noteq> event_key r" if "j < length (ob_records b)" for j
    proof
      assume "event_key (ob_records b ! j) = event_key r"
      moreover have "event_indices b (event_key (ob_records b ! j)) = Some j"
        using bi that by (simp add: block_inv_def)
      ultimately show False using i by simp
    qed
    fix j assume "j < length (ob_records ?b)"
    then show "event_indices ?b (event_key (ob_records ?b ! j)) = Some j"
      using bi fresh [of j] by (cases "j = length (ob_records b)") (simp_all add: nth_append block_inv_def)
  next
    fix k j assume k: "event_indices ?b k = Some j"
    have "k = event_key r \<and> j = length (ob_records b) \<or> event_indices b k = Some j"
      using k by (auto split: if_splits)
    then have "j < Suc (length (ob_records b)) \<and> event_key ((ob_records b @ [r]) ! j) = k"
      using bi by (auto simp: nth_append block_inv_def)
    then show "j < length (ob_records ?b)" "event_key (ob_records ?b ! j) = k" by simp_all
  next
    show "ob_estimated_bytes ?b = records_bytes (ob_records ?b)" by (rule est)
    show "\<forall>x \<in> set (ob_records ?b). channel_key x = ch"
      using bi ch by (simp add: block_inv_def)
    show "length (ob_records ?b) < Suc n" "opened_at_ms ?b \<le> last_append_at_ms ?b"
      using bi now by (simp_all add: block_inv_def)
  qed
  let ?u = "AList.update ch ?b (om_blocks self)"
  let ?f = "\<lambda>(ch::string, b). records_bytes (ob_records b)"
  have gen: "sum_list (map f ?u) + g b = sum_list (map f (om_blocks self)) + g ?b"
    if "\<And>b. f (ch, b) = g b" "map_of (om_blocks self) ch = None \<Longrightarrow> g b = 0"
    for f :: "string \<times> open_block \<Rightarrow> 'a::comm_monoid_add" and g :: "open_block \<Rightarrow> 'a"
  proof (cases "map_of (om_blocks self) ch")
    case None
    then show ?thesis using sum_list_insert_key [OF None, of f ?b] that by simp
  next
    case (Some c)
    then have "b = c" using b by simp
    then show ?thesis using sum_list_update_key [OF d Some, of f ?b] that(1) by simp
  qed
  have b0: "ob_records b = []" if "map_of (om_blocks self) ch = None"
    using that b by (simp add: new_block_def)
  have sum1: "sum_list (map ?f ?u) = om_estimated_bytes self + estimated_record_bytes r"
    using gen [of ?f "\<lambda>b. records_bytes (ob_records b)"] b0 inv
    by (simp add: open_inv_at_def records_bytes_def)
  have bytes: "om_estimated_bytes (push_record ch b now r self) = sum_list (map ?f ?u)"
    using sum1 fits by (simp add: push_record_def int_defs append_fits_def)
  have msgs: "om_open_messages (push_record ch b now r self) = sum_list (map (\<lambda>(ch, b). length (ob_records b)) ?u)"
    using gen [of "\<lambda>(ch, b). length (ob_records b)" "\<lambda>b. length (ob_records b)"] b0 inv
    by (simp add: open_inv_at_def push_record_def)
  have blocks: "om_blocks (push_record ch b now r self) = ?u" by (simp add: push_record_def)
  have mono: "block_inv n k c \<Longrightarrow> block_inv (Suc n) k c" for k c by (auto simp: block_inv_def)
  have "block_inv (Suc n) k c \<and> ob_records c \<noteq> []" if "map_of ?u k = Some c" for k c
    using that inv nb mono by (auto simp: update_conv' open_inv_at_def split: if_splits)
  then have inv': "open_inv_at (Suc n) (push_record ch b now r self)"
    unfolding open_inv_at_def bytes msgs unfolding blocks
    using inv d by (simp add: push_record_def open_inv_at_def distinct_update)
  have "open_records (push_record ch b now r self) + mset (ob_records b) =
      open_records self + mset (ob_records ?b)"
    using gen [of "\<lambda>(ch, b). mset (ob_records b)" "\<lambda>b. mset (ob_records b)"] b0
    by (simp add: open_records_def blocks)
  then have "open_records (push_record ch b now r self) + mset (ob_records b) =
      add_mset r (open_records self) + mset (ob_records b)" by simp
  then have "open_records (push_record ch b now r self) = add_mset r (open_records self)"
    by (rule add_right_imp_eq)
  then show ?thesis using inv' by (simp add: blocks update_conv')
qed

text \<open>Shortening the bound after the full block was taken.\<close>

lemma open_inv_at_weaken:
  assumes "open_inv_at m self" and "\<forall>k c. map_of (om_blocks self) k = Some c \<longrightarrow> length (ob_records c) < n"
  shows "open_inv_at n self"
  using assms unfolding open_inv_at_def block_inv_def by blast

lemma open_append_spec:
  assumes inv: "open_inv self" and fits: "append_fits self r"
    and a: "open_append r now self = (Inr sealed, self')"
  shows "open_inv self' \<and> om_limits self' = om_limits self \<and>
    (\<forall>rs \<in> set sealed. sealed_ok (ol_block_messages (om_limits self)) rs) \<and>
    (case held_copy self r of
       None \<Rightarrow> add_mset r (open_records self) = open_records self' + mset (concat sealed) \<and>
         \<not> over_bounds self'
     | Some q \<Rightarrow> sealed = [] \<and> event_key q = event_key r \<and>
         (if should_replace r q
          then add_mset q (open_records self') = add_mset r (open_records self)
          else self' = self))"
proof -
  let ?ch = "channel_key r" and ?n = "ol_block_messages (om_limits self)"
  define b where "b = (case map_of (om_blocks self) ?ch of None \<Rightarrow> new_block now | Some b \<Rightarrow> b)"
  have inv': "open_inv_at ?n self" using inv by (simp add: open_inv_def)
  have n: "0 < ?n" using inv' by (simp add: open_inv_at_def limits_valid_def)
  have now: "last_append_at_ms b \<le> now"
  proof (rule ccontr)
    assume "\<not> last_append_at_ms b \<le> now"
    then show False using a by (simp add: open_append_def b_def Let_def)
  qed
  show ?thesis
  proof (cases "event_indices b (event_key r)")
    case (Some i)
    then have b: "map_of (om_blocks self) ?ch = Some b"
      by (cases "map_of (om_blocks self) ?ch") (auto simp: b_def new_block_def)
    then have "block_inv ?n ?ch b" using inv' by (auto simp: open_inv_at_def)
    then have key: "event_key (ob_records b ! i) = event_key r" using Some by (simp add: block_inv_def)
    have held: "held_copy self r = Some (ob_records b ! i)" using b Some by (simp add: held_copy_def)
    show ?thesis
    proof (cases "should_replace r (ob_records b ! i)")
      case True
      then have "sealed = []" "self' = upgrade_record ?ch b i r self"
        using a Some now by (simp_all add: open_append_def b_def [symmetric])
      moreover have "om_limits (upgrade_record ?ch b i r self) = om_limits self"
        by (simp add: upgrade_record_def Let_def)
      ultimately show ?thesis
        using upgrade_record_inv [OF inv' b Some refl fits] held key True by (simp add: open_inv_def)
    next
      case False
      then have "sealed = []" "self' = self"
        using a Some now by (simp_all add: open_append_def b_def [symmetric])
      then show ?thesis using held key False inv by simp
    qed
  next
    case None
    have held: "held_copy self r = None"
      using None by (cases "map_of (om_blocks self) ?ch") (simp_all add: held_copy_def b_def)
    let ?m = "push_record ?ch b now r self"
    have fresh: "insert_fresh ?ch b now r self = (sealed, self')"
      using a None now by (simp add: open_append_def b_def [symmetric] split: prod.splits)
    note p = push_record_inv [OF inv' b_def None refl fits now n]
    obtain c where c: "map_of (om_blocks ?m) ?ch = Some c" "ob_records c = ob_records b @ [r]"
      using p by blast
    have lim: "om_limits ?m = om_limits self" by (simp add: push_record_def)
    have old: "length (ob_records d) < ?n" if "map_of (om_blocks ?m) k = Some d" "k \<noteq> ?ch" for k d
    proof -
      have "map_of (om_blocks self) k = Some d" using that p by simp
      then have "block_inv ?n k d" using inv' by (auto simp: open_inv_at_def)
      then show ?thesis by (simp add: block_inv_def)
    qed
    obtain m2 sealed1 where st: "open_inv_at ?n m2" "om_limits m2 = om_limits self"
      "open_records ?m = open_records m2 + mset (concat sealed1)" "\<forall>rs \<in> set sealed1. sealed_ok ?n rs"
      and e: "enforce_bounds m2 sealed1 = (self', sealed)"
    proof (cases "Suc (length (ob_records b)) \<ge> ?n")
      case True
      obtain rs m2 where t: "take_block ?ch ?m = (Some rs, m2)"
        using c(1) by (simp add: take_block_def)
      note s = take_block_spec [OF conjunct1 [OF p] t]
      have len: "length (ob_records d) < ?n" if "map_of (om_blocks m2) k = Some d" for k d
        using that s old by (auto split: if_splits)
      have "open_inv_at ?n m2" using open_inv_at_weaken [of "Suc ?n" m2 ?n] s len by blast
      moreover have "enforce_bounds m2 [rs] = (self', sealed)"
        using fresh True t by (simp add: insert_fresh_def split: prod.splits)
      moreover have "sealed_ok ?n rs" using s by (auto simp: sealed_ok_def)
      ultimately show ?thesis using that [of m2 "[rs]"] s lim by (simp add: union_commute)
    next
      case False
      have "length (ob_records d) < ?n" if "map_of (om_blocks ?m) k = Some d" for k d
        using that c False old by (cases "k = ?ch") auto
      then have "open_inv_at ?n ?m" using open_inv_at_weaken p by blast
      moreover have "enforce_bounds ?m [] = (self', sealed)"
        using fresh False by (simp add: insert_fresh_def split: prod.splits)
      ultimately show ?thesis using that [of ?m "[]"] lim by simp
    qed
    have "open_inv m2" using st(1,2) by (simp add: open_inv_def)
    from enforce_bounds_spec [OF this e] obtain more where
      m: "open_inv self'" "\<not> over_bounds self'" "om_limits self' = om_limits self" "sealed = sealed1 @ more"
      "\<forall>rs \<in> set more. sealed_ok ?n rs" "open_records m2 = open_records self' + mset (concat more)"
      using st(2) by auto
    have "add_mset r (open_records self) = open_records self' + mset (concat sealed)"
      using p st(3) m(4,6) by (simp add: ac_simps)
    then show ?thesis using m st(4) held by auto
  qed
qed

section \<open>Sealing\<close>

lemma take_blocks_spec:
  assumes "open_inv_at n self" and "take_blocks chs self = (rss, self')"
  shows "open_inv_at n self' \<and> om_limits self' = om_limits self \<and>
    open_records self = open_records self' + mset (concat rss) \<and> (\<forall>rs \<in> set rss. sealed_ok n rs) \<and>
    (\<forall>k. map_of (om_blocks self') k = (if k \<in> set chs then None else map_of (om_blocks self) k))"
  using assms
proof (induction chs arbitrary: self rss)
  case (Cons ch chs)
  show ?case
  proof (cases "take_block ch self")
    case (Pair res m)
    show ?thesis
    proof (cases res)
      case None
      then have "m = self" "map_of (om_blocks self) ch = None"
        using Pair take_block_None by auto
      then show ?thesis using Cons.IH [OF Cons.prems(1), of rss] Cons.prems(2) Pair None by auto
    next
      case (Some rs)
      note s = take_block_spec [OF Cons.prems(1) Pair [unfolded Some]]
      obtain rss1 where r: "take_blocks chs m = (rss1, self')" "rss = rs # rss1"
        using Cons.prems(2) Pair Some by (auto split: prod.splits)
      have "open_inv_at n m" using s by blast
      note IH = Cons.IH [OF this r(1)]
      have "sealed_ok n rs" using s by (auto simp: sealed_ok_def)
      then show ?thesis using IH s r(2) by (auto simp: ac_simps)
    qed
  qed
qed simp

lemma seal_due_spec:
  assumes inv: "open_inv self" and s: "seal_due now self = (rss, self')"
  shows "open_inv self' \<and> open_records self = open_records self' + mset (concat rss) \<and>
    (\<forall>rs \<in> set rss. sealed_ok (ol_block_messages (om_limits self)) rs) \<and>
    (\<forall>k b. map_of (om_blocks self') k = Some b \<longleftrightarrow>
       map_of (om_blocks self) k = Some b \<and> \<not> block_due now (om_limits self) b)"
proof -
  let ?due = "map fst (filter (\<lambda>(ch, b). block_due now (om_limits self) b) (om_blocks self))"
  have inv': "open_inv_at (ol_block_messages (om_limits self)) self" using inv by (simp add: open_inv_def)
  have d: "distinct (map fst (om_blocks self))" using inv' by (simp add: open_inv_at_def)
  note t = take_blocks_spec [OF inv', of ?due rss self'] s
  have due: "k \<in> set ?due \<longleftrightarrow> (\<exists>b. map_of (om_blocks self) k = Some b \<and> block_due now (om_limits self) b)" for k
    using d by force
  have "map_of (om_blocks self') k = Some b \<longleftrightarrow>
       map_of (om_blocks self) k = Some b \<and> \<not> block_due now (om_limits self) b" for k b
    using t due [of k] by (auto simp: seal_due_def split: if_splits)
  then show ?thesis using t by (simp add: seal_due_def open_inv_def)
qed

lemma seal_all_spec:
  assumes inv: "open_inv self" and s: "seal_all self = (rss, self')"
  shows "open_inv self' \<and> om_blocks self' = [] \<and> open_records self = mset (concat rss)"
proof -
  have inv': "open_inv_at (ol_block_messages (om_limits self)) self" using inv by (simp add: open_inv_def)
  note t = take_blocks_spec [OF inv', of "map fst (om_blocks self)" rss self'] s
  have "map_of (om_blocks self') k = None" for k
    using t by (auto simp: seal_all_def map_of_eq_None_iff split: if_splits)
  then have "om_blocks self' = []" by (metis map_of_eq_None_iff image_is_empty set_empty ex_in_conv)
  then show ?thesis using t by (simp add: seal_all_def open_inv_def open_records_def)
qed

section \<open>Reachable states\<close>

datatype open_command =
    OpenAppend canonical_record nat
  | SealDue nat
  | SealAll
  | OpenPurge string

definition open_step :: "open_command \<Rightarrow> open_block_manager \<Rightarrow> open_block_manager" where
  "open_step cmd self =
     (case cmd of
        OpenAppend r now \<Rightarrow> snd (open_append r now self)
      | SealDue now \<Rightarrow> snd (seal_due now self)
      | SealAll \<Rightarrow> snd (seal_all self)
      | OpenPurge ch \<Rightarrow> open_purge_channel ch self)"

text \<open>The records of one append never overflow the byte counter, a \<open>usize\<close>.\<close>

fun step_fits :: "open_command \<Rightarrow> open_block_manager \<Rightarrow> bool" where
  "step_fits (OpenAppend r now) self = append_fits self r"
| "step_fits _ self = True"

inductive open_reachable :: "open_block_limits \<Rightarrow> open_block_manager \<Rightarrow> bool"
  for l :: open_block_limits where
  open_new: "new_manager l = Inr self \<Longrightarrow> open_reachable l self"
| open_more: "open_reachable l self \<Longrightarrow> step_fits cmd self \<Longrightarrow> open_reachable l (open_step cmd self)"

lemma open_append_error: "open_append r now self = (Inl e, self') \<Longrightarrow> self' = self"
  by (auto simp: open_append_def Let_def split: if_splits option.splits prod.splits)

lemma open_step_inv:
  assumes inv: "open_inv self" and fits: "step_fits cmd self"
  shows "open_inv (open_step cmd self) \<and> om_limits (open_step cmd self) = om_limits self"
proof (cases cmd)
  case (OpenAppend r now)
  obtain res self' where a: "open_append r now self = (res, self')" by fastforce
  show ?thesis
  proof (cases res)
    case (Inl e)
    then show ?thesis
      using inv open_append_error [OF a [unfolded Inl]] by (simp add: open_step_def OpenAppend a)
  next
    case (Inr sealed)
    then show ?thesis
      using open_append_spec [OF inv _ a [unfolded Inr]] fits a by (simp add: open_step_def OpenAppend)
  qed
next
  case (SealDue now)
  obtain rss self' where s: "seal_due now self = (rss, self')" by fastforce
  have "open_inv_at (ol_block_messages (om_limits self)) self" using inv by (simp add: open_inv_def)
  then show ?thesis
    using take_blocks_spec [OF _ s [unfolded seal_due_def]] seal_due_spec [OF inv s]
    by (simp add: open_step_def SealDue s)
next
  case SealAll
  obtain rss self' where s: "seal_all self = (rss, self')" by fastforce
  have "open_inv_at (ol_block_messages (om_limits self)) self" using inv by (simp add: open_inv_def)
  then show ?thesis
    using take_blocks_spec [OF _ s [unfolded seal_all_def]] seal_all_spec [OF inv s]
    by (simp add: open_step_def SealAll s)
next
  case (OpenPurge ch)
  obtain res m where t: "take_block ch self = (res, m)" by fastforce
  have inv': "open_inv_at (ol_block_messages (om_limits self)) self" using inv by (simp add: open_inv_def)
  show ?thesis
  proof (cases res)
    case None
    then have "m = self" using t by (simp add: take_block_None)
    then show ?thesis using t inv by (simp add: open_step_def OpenPurge open_purge_channel_def)
  next
    case (Some rs)
    then show ?thesis
      using take_block_spec [OF inv' t [unfolded Some]]
      by (simp add: open_step_def OpenPurge open_purge_channel_def t open_inv_def)
  qed
qed

lemma open_reachable_inv: "open_reachable l self \<Longrightarrow> open_inv self \<and> om_limits self = l"
proof (induction rule: open_reachable.induct)
  case (open_new self)
  then show ?case
    by (auto simp: new_manager_def open_inv_def open_inv_at_def split: if_splits)
next
  case (open_more self cmd)
  then show ?case using open_step_inv by blast
qed

section \<open>Properties\<close>

definition ex_limits :: open_block_limits where
  "ex_limits = \<lparr>ol_block_messages = 3, max_open_channels = 1, max_open_bytes = 200,
     idle_seal_after_ms = 10, max_open_age_ms = 100\<rparr>"

definition ex_event :: "string \<Rightarrow> u8 \<Rightarrow> source_fidelity \<Rightarrow> nat \<Rightarrow> canonical_record" where
  "ex_event ch k f n = \<lparr>channel_key = ch, event_at_ms = 1, received_at_ms = 1, event_key = [k],
     source_id = [], fidelity = f, raw_irc = replicate n 0\<rparr>"

definition ex_manager :: open_block_manager where
  "ex_manager = open_step (OpenAppend (ex_event ''a'' 1 Unknown 0) 5)
     \<lparr>om_limits = ex_limits, om_blocks = [], om_estimated_bytes = 0, om_open_messages = 0\<rparr>"

lemma ex_manager_reachable: "open_reachable ex_limits ex_manager"
  unfolding ex_manager_def
  by (intro open_more open_new)
     (simp_all add: new_manager_def limits_valid_def ex_limits_def append_fits_def ex_event_def
       estimated_record_bytes_def int_defs)

text \<open>
  C14: a record appended to the open blocks is never lost and never stored twice: a new event is
  afterwards either open or in one of the sealed batches returned, next to everything that was open
  before, and both bounds hold again; a known event replaces the held copy exactly when it has a
  higher fidelity, and otherwise changes nothing.
\<close>

theorem open_append_conserves:
  assumes "open_reachable l self" and "append_fits self r"
    and "open_append r now self = (Inr sealed, self')"
  shows "case held_copy self r of
      None \<Rightarrow> add_mset r (open_records self) = open_records self' + mset (concat sealed) \<and>
        length (om_blocks self') \<le> max_open_channels l \<and> om_estimated_bytes self' \<le> max_open_bytes l
    | Some q \<Rightarrow> sealed = [] \<and> event_key q = event_key r \<and>
        (if fidelity q < fidelity r
         then add_mset q (open_records self') = add_mset r (open_records self)
         else self' = self)"
proof -
  have inv: "open_inv self" "om_limits self = l" using open_reachable_inv [OF assms(1)] by auto
  note s = open_append_spec [OF inv(1) assms(2,3)]
  show ?thesis
  proof (cases "held_copy self r")
    case None
    then show ?thesis using s inv(2) by (auto simp: over_bounds_def)
  next
    case (Some q)
    then show ?thesis using s by (auto simp: should_replace_def split: if_splits)
  qed
qed

theorem open_append_conserves_witness:
  "\<exists>sealed self'. open_append (ex_event ''b'' 2 Unknown 0) 6 ex_manager = (Inr sealed, self') \<and>
    add_mset (ex_event ''b'' 2 Unknown 0) (open_records ex_manager) =
      open_records self' + mset (concat sealed) \<and>
    length (om_blocks self') \<le> 1"
proof -
  let ?r = "ex_event ''b'' 2 Unknown 0"
  have "(case fst (open_append ?r 6 ex_manager) of Inl e \<Rightarrow> False | Inr sealed \<Rightarrow> sealed \<noteq> [])"
    by code_simp
  then obtain sealed self' where a: "open_append ?r 6 ex_manager = (Inr sealed, self')"
    by (cases "open_append ?r 6 ex_manager") (auto split: sum.splits)
  have f: "append_fits ex_manager ?r" and h: "held_copy ex_manager ?r = None" by code_simp+
  from open_append_conserves [OF ex_manager_reachable f a] h a show ?thesis
    by (auto simp: ex_limits_def)
qed

text \<open>
  On every reachable state the statistics are the true totals, every open block is shorter than
  a full block and holds each event once, and a query answers with records of the channel within the
  window, at most the limit, in order.
\<close>

theorem open_stats_exact:
  assumes "open_reachable l self"
  shows "open_stats self = \<lparr>open_channels = length (om_blocks self),
      open_messages = size (open_records self),
      estimated_bytes = sum_list (map (\<lambda>(ch, b). sum_list (map estimated_record_bytes (ob_records b))) (om_blocks self))\<rparr> \<and>
    (\<forall>(ch, b) \<in> set (om_blocks self). ob_records b \<noteq> [] \<and> length (ob_records b) < ol_block_messages l \<and>
       distinct (map event_key (ob_records b)) \<and> (\<forall>r \<in> set (ob_records b). channel_key r = ch)) \<and>
    length (open_query q self) \<le> limit q \<and> sorted (map received_order (open_query q self)) \<and>
    (\<forall>r \<in> set (open_query q self). channel_key r = qr_channel_key q \<and> in_window q r \<and> r \<in># open_records self)"
proof -
  have inv: "open_inv_at (ol_block_messages l) self"
    using open_reachable_inv [OF assms] by (auto simp: open_inv_def)
  have d: "distinct (map fst (om_blocks self))" using inv by (simp add: open_inv_at_def)
  have size: "size (sum_list (map (\<lambda>(ch, b). mset (ob_records b)) bs)) =
      sum_list (map (\<lambda>(ch, b). length (ob_records b)) bs)" for bs :: "(string \<times> open_block) list"
    by (induction bs) auto
  have mem: "r \<in># open_records self" if "(ch, b) \<in> set (om_blocks self)" "r \<in> set (ob_records b)" for ch b r
  proof -
    have "r \<in># sum_list (map (\<lambda>(ch, b). mset (ob_records b)) bs)" if "(ch, b) \<in> set bs" for bs
      using that \<open>r \<in> set (ob_records b)\<close> by (induction bs) auto
    then show ?thesis using that(1) by (simp add: open_records_def)
  qed
  have blocks: "\<forall>(ch, b) \<in> set (om_blocks self). ob_records b \<noteq> [] \<and> length (ob_records b) < ol_block_messages l \<and>
       distinct (map event_key (ob_records b)) \<and> (\<forall>r \<in> set (ob_records b). channel_key r = ch)"
  proof clarify
    fix ch b assume "(ch, b) \<in> set (om_blocks self)"
    then have "map_of (om_blocks self) ch = Some b" using d by simp
    then have "block_inv (ol_block_messages l) ch b" "ob_records b \<noteq> []" using inv by (auto simp: open_inv_at_def)
    then show "ob_records b \<noteq> [] \<and> length (ob_records b) < ol_block_messages l \<and>
       distinct (map event_key (ob_records b)) \<and> (\<forall>r \<in> set (ob_records b). channel_key r = ch)"
      using block_inv_distinct by (auto simp: block_inv_def)
  qed
  let ?held = "case map_of (om_blocks self) (qr_channel_key q) of None \<Rightarrow> [] | Some b \<Rightarrow> ob_records b"
  have q: "sorted (map received_order (open_query q self))" "length (open_query q self) \<le> limit q"
    by (simp_all add: open_query_def Let_def sorted_drain_to_last)
  have "channel_key r = qr_channel_key q \<and> in_window q r \<and> r \<in># open_records self"
    if "r \<in> set (open_query q self)" for r
  proof -
    have "r \<in> set ?held \<and> in_window q r"
      using that set_drain_to_last by (fastforce simp: open_query_def Let_def)
    then obtain b where b: "map_of (om_blocks self) (qr_channel_key q) = Some b" "r \<in> set (ob_records b)"
      "in_window q r"
      by (cases "map_of (om_blocks self) (qr_channel_key q)") auto
    then have "(qr_channel_key q, b) \<in> set (om_blocks self)" by (blast dest: map_of_SomeD)
    then show ?thesis using blocks mem b by blast
  qed
  then show ?thesis
    using inv blocks q by (simp add: open_stats_def open_inv_at_def open_records_def size records_bytes_def)
qed

theorem open_stats_exact_witness:
  "open_messages (open_stats ex_manager) = size (open_records ex_manager)"
  using open_stats_exact [OF ex_manager_reachable] by simp

text \<open>
  \<open>seal_due\<close> returns exactly the idle and the old blocks and keeps the others, without losing or
  duplicating a record, and \<open>seal_all\<close> returns everything.
\<close>

theorem seal_conserves:
  assumes "open_reachable l self"
  shows "open_records self = open_records (snd (seal_due now self)) + mset (concat (fst (seal_due now self))) \<and>
    (\<forall>ch b. map_of (om_blocks (snd (seal_due now self))) ch = Some b \<longleftrightarrow>
       map_of (om_blocks self) ch = Some b \<and> \<not> block_due now l b) \<and>
    om_blocks (snd (seal_all self)) = [] \<and> open_records self = mset (concat (fst (seal_all self)))"
proof -
  have inv: "open_inv self" "om_limits self = l" using open_reachable_inv [OF assms] by auto
  show ?thesis
    using seal_due_spec [OF inv(1), of now "fst (seal_due now self)" "snd (seal_due now self)"]
      seal_all_spec [OF inv(1), of "fst (seal_all self)" "snd (seal_all self)"] inv(2) by simp
qed

theorem seal_conserves_witness:
  "open_records ex_manager = mset (concat (fst (seal_all ex_manager)))"
  using seal_conserves [OF ex_manager_reachable] by blast

text \<open>
  A replacement of higher fidelity is not followed by the bounds check: an append can leave the
  estimated bytes above the configured maximum.
\<close>

theorem upgrade_exceeds_bytes:
  "\<exists>self sealed self'. open_reachable ex_limits self \<and>
    open_append (ex_event ''a'' 1 DirectIrc 100) 6 self = (Inr sealed, self') \<and>
    max_open_bytes ex_limits < om_estimated_bytes self'"
proof -
  let ?a = "open_append (ex_event ''a'' 1 DirectIrc 100) 6 ex_manager"
  have "(case ?a of (Inl e, m) \<Rightarrow> False | (Inr s, m) \<Rightarrow> max_open_bytes ex_limits < om_estimated_bytes m)"
    by code_simp
  then obtain s m where "?a = (Inr s, m)" "max_open_bytes ex_limits < om_estimated_bytes m"
    by (cases ?a) (auto split: sum.splits)
  then show ?thesis using ex_manager_reachable by blast
qed

end
