(* ===== verification/LocalQuery.thy ===== *)
theory LocalQuery
  imports PeerMerge OpenBlocks Store
begin

text \<open>
  The local read of \<^verbatim>\<open>src/web/get_recent_messages.rs\<close>: the query options, \<open>query_local_messages\<close>, which
  merges the sealed blocks of the store with the open block of the channel, and the decision whether
  to look for missing messages elsewhere. The store and the open blocks are parameters, given by the
  signatures of \<open>MessageStore::query\<close> and \<open>SharedOpenBlocks::query\<close>. Times of the options are in
  milliseconds.
\<close>

record query_options =
  hide_moderation_messages :: bool
  hide_moderated_messages :: bool
  clearchat_to_notice :: bool
  opt_limit :: "nat option"
  opt_before :: "int option"
  opt_after :: "int option"

definition default_options :: query_options where
  "default_options = \<lparr>hide_moderation_messages = False, hide_moderated_messages = False,
     clearchat_to_notice = False, opt_limit = None, opt_before = None, opt_after = None\<rparr>"

definition requested_limit :: "query_options \<Rightarrow> nat \<Rightarrow> nat" where
  "requested_limit options max_buffer_size =
     min (case opt_limit options of None \<Rightarrow> max_buffer_size | Some l \<Rightarrow> l) max_buffer_size"

definition query_local_messages ::
    "(query_request \<Rightarrow> store_error + local_result) \<Rightarrow>
     (query_request \<Rightarrow> open_block_error + canonical_record list) option \<Rightarrow>
     string \<Rightarrow> query_options \<Rightarrow> nat \<Rightarrow> store_error + canonical_record list" where
  "query_local_messages store open_blocks channel_login options max_buffer_size =
     (let lim = requested_limit options max_buffer_size
      in if lim = 0 then Inr []
         else
           (let request = \<lparr>qr_channel_key = to_ascii_lowercase channel_login,
                  after_ms = opt_after options, before_ms = opt_before options, limit = lim\<rparr>
            in and_then (store request) (\<lambda>sealed.
               and_then (case open_blocks of
                           None \<Rightarrow> Inr []
                         | Some query \<Rightarrow> map_err (\<lambda>_. LockPoisoned) (query request)) (\<lambda>open.
               Inr (merge_peer_records (lr_records sealed) open lim)))))"

definition should_attempt_repair ::
    "coverage_assessment \<Rightarrow> coverage_interval list \<Rightarrow> nat \<Rightarrow> nat \<Rightarrow> bool" where
  "should_attempt_repair assessment coverage record_count requested =
     (if sufficient assessment then False
      else record_count < requested \<or>
        list_ex (\<lambda>i. end_ms i \<ge> required_start_ms assessment \<and> start_ms i \<le> required_end_ms assessment)
          coverage)"

section \<open>Reading a store and the open blocks together\<close>

lemma newest_answer:
  assumes "distinct (map event_key held)"
  shows "newest (limit q) {r \<in> set held. in_window q r} (lr_records (answer_query q held))"
proof -
  have "lr_records (answer_query q held) =
      drain_to_last (limit q) (sort_key received_order (filter (in_window q) held))"
    by (simp add: answer_query_def Let_def filter_sort)
  moreover have "distinct (map event_key (filter (in_window q) held))"
    using assms by (simp add: distinct_map_filter)
  ultimately show ?thesis using newest_drain [of "filter (in_window q) held" "limit q"] by simp
qed

definition open_held :: "string \<Rightarrow> open_block_manager \<Rightarrow> canonical_record list" where
  "open_held ch m = (case map_of (om_blocks m) ch of None \<Rightarrow> [] | Some b \<Rightarrow> ob_records b)"

lemma open_query_newest:
  assumes "distinct (map event_key (open_held (qr_channel_key q) m))"
  shows "newest (limit q) {r \<in> set (open_held (qr_channel_key q) m). in_window q r} (open_query q m)"
proof -
  have "distinct (map event_key (filter (in_window q) (open_held (qr_channel_key q) m)))"
    using assms by (simp add: distinct_map_filter)
  then show ?thesis
    using newest_drain [of "filter (in_window q) (open_held (qr_channel_key q) m)" "limit q"]
    by (simp add: open_query_def Let_def open_held_def)
qed

lemma newest_union:
  assumes "newest n A as" and "newest n B bs" and "finite A" and "finite B" and "agree (A \<union> B)"
  shows "newest n (A \<union> B) (merge_peer_records as bs n)"
proof -
  have sub: "set as \<subseteq> A" "set bs \<subseteq> B" using assms(1,2) by (auto simp: newest_def)
  have "agree (set (as @ bs))" by (rule agree_sub [OF assms(5)]) (use sub in auto)
  then have m: "newest n (set bs \<union> set as) (merge_peer_records as bs n)"
    using merge_peer_records_newest [of n as bs] by (simp add: best_copies_agree Un_commute)
  have "newest n (B \<union> set as) (merge_peer_records as bs n)"
    by (rule newest_step [OF assms(4) _ assms(2) m]) simp
  then have "newest n (set as \<union> B) (merge_peer_records as bs n)" by (simp add: Un_commute)
  then show ?thesis by (rule newest_step [OF assms(3,4,1)])
qed

text \<open>The client of the storage interface: the merged read is exact over any store.\<close>

context message_store begin

lemma query_local_newest:
  assumes "invar s" and "query_local_messages (query s) (Some (\<lambda>q. Inr (open_query q m))) ch options n = Inr rs"
    and "requested_limit options n = lim" and "0 < lim"
    and "S = {r \<in> set (retained s (to_ascii_lowercase ch)) \<union> set (open_held (to_ascii_lowercase ch) m).
          (\<forall>a. opt_after options = Some a \<longrightarrow> a < received_at_ms r) \<and>
          (\<forall>b. opt_before options = Some b \<longrightarrow> received_at_ms r < b)}"
    and "distinct (map event_key (retained s (to_ascii_lowercase ch)))"
    and "distinct (map event_key (open_held (to_ascii_lowercase ch) m))" and "agree S"
  shows "newest lim S rs"
proof -
  let ?q = "\<lparr>qr_channel_key = to_ascii_lowercase ch, after_ms = opt_after options,
    before_ms = opt_before options, limit = lim\<rparr>"
  have q: "query s ?q = Inr (answer_query ?q (retained s (to_ascii_lowercase ch)))"
    using query_answer [OF assms(1), of ?q] assms(4) by simp
  have rs: "rs = merge_peer_records (lr_records (answer_query ?q (retained s (to_ascii_lowercase ch))))
      (open_query ?q m) lim"
    using assms(2,4) q by (simp add: query_local_messages_def assms(3) Let_def)
  have S: "S = {r \<in> set (retained s (to_ascii_lowercase ch)). in_window ?q r} \<union>
      {r \<in> set (open_held (to_ascii_lowercase ch) m). in_window ?q r}"
    by (auto simp: assms(5) in_window_def split: option.splits)
  show ?thesis
    unfolding rs S
    by (rule newest_union)
       (use newest_answer [OF assms(6), of ?q] open_query_newest [of ?q m] assms(7,8) in
         \<open>simp_all add: S [symmetric]\<close>)
qed

lemma query_local_sound:
  assumes "invar s" and "query_local_messages (query s) (Some (\<lambda>q. Inr (open_query q m))) ch options n = Inr rs"
    and "r \<in> set rs"
  shows "r \<in> set (retained s (to_ascii_lowercase ch)) \<union> set (open_held (to_ascii_lowercase ch) m) \<and>
    (\<forall>a. opt_after options = Some a \<longrightarrow> a < received_at_ms r) \<and>
    (\<forall>b. opt_before options = Some b \<longrightarrow> received_at_ms r < b)"
proof -
  let ?lim = "requested_limit options n"
  let ?q = "\<lparr>qr_channel_key = to_ascii_lowercase ch, after_ms = opt_after options,
    before_ms = opt_before options, limit = ?lim\<rparr>"
  have lim: "?lim \<noteq> 0" using assms(2,3) by (cases "?lim = 0") (auto simp: query_local_messages_def)
  then obtain res where res: "query s ?q = Inr res"
    "rs = merge_peer_records (lr_records res) (open_query ?q m) ?lim"
    using assms(2) by (auto simp: query_local_messages_def Let_def)
  have "r \<in> set (lr_records res @ open_query ?q m)"
    using assms(3) res(2) merge_peer_records_best [of rs "lr_records res" "open_query ?q m" ?lim] best_copyD(2)
    by blast
  then have "(r \<in> set (retained s (to_ascii_lowercase ch)) \<or> r \<in> set (open_held (to_ascii_lowercase ch) m)) \<and>
      in_window ?q r"
    using query_sound [OF assms(1) res(1)] set_drain_to_last
    by (fastforce simp: open_query_def Let_def open_held_def)
  then show ?thesis by (auto simp: in_window_def split: option.splits)
qed

end

end
