(* ===== verification/Text.thy ===== *)
theory Text
  imports Prelude
begin

text \<open>
  Decimal texts of the machine integers, as \<open>Display\<close> and \<open>to_string\<close> of the standard library write
  them, with the facts that make them unambiguous.
\<close>

text \<open>\<open>usize\<close>'s \<open>Display\<close>: the decimal digits.\<close>

fun show_nat :: "nat \<Rightarrow> string" where
  "show_nat n = (if n < 10 then [char_of (48 + n)] else show_nat (n div 10) @ [char_of (48 + n mod 10)])"

declare show_nat.simps [simp del]

text \<open>\<open>i64\<close>'s \<open>Display\<close>\<close>

definition show_int :: "int \<Rightarrow> string" where
  "show_int i = (if i < 0 then CHR ''-'' # show_nat (nat (- i)) else show_nat (nat i))"

fun decimal :: "nat \<Rightarrow> string \<Rightarrow> nat" where
  "decimal acc [] = acc"
| "decimal acc (c # cs) = decimal (acc * 10 + (of_char c - 48)) cs"

lemma decimal_append: "decimal acc (xs @ [c]) = decimal acc xs * 10 + (of_char c - 48)"
  by (induction xs arbitrary: acc) auto

lemma decimal_show_nat: "decimal 0 (show_nat n) = n"
proof (induction n rule: show_nat.induct)
  case (1 n)
  show ?case
  proof (cases "n < 10")
    case True
    then show ?thesis by (simp add: show_nat.simps [of n])
  next
    case False
    then show ?thesis using 1 by (simp add: show_nat.simps [of n] decimal_append)
  qed
qed

lemma show_nat_digits: "c \<in> set (show_nat n) \<Longrightarrow> 48 \<le> (of_char c :: nat) \<and> (of_char c :: nat) \<le> 57"
proof (induction n rule: show_nat.induct)
  case (1 n)
  then show ?case by (cases "n < 10") (auto simp: show_nat.simps [of n])
qed

lemma show_nat_no_char: "c \<in> set (show_nat n) \<Longrightarrow> c \<noteq> CHR ''-'' \<and> c \<noteq> CHR ''|''"
  using show_nat_digits [of c n] by auto

lemma show_int_inject: "show_int i = show_int j \<Longrightarrow> i = j"
proof -
  have nat: "show_nat m = show_nat n \<Longrightarrow> m = n" for m n by (metis decimal_show_nat)
  have minus: "show_nat m \<noteq> CHR ''-'' # xs" for m xs
  proof
    assume "show_nat m = CHR ''-'' # xs"
    then show False using show_nat_no_char [of "CHR ''-''" m] by simp
  qed
  assume e: "show_int i = show_int j"
  then have "(i < 0) = (j < 0)"
    using minus minus [symmetric] by (auto simp: show_int_def split: if_splits)
  then have "nat (- i) = nat (- j) \<and> i < 0 \<or> nat i = nat j \<and> \<not> i < 0"
    using e by (cases "i < 0") (auto simp: show_int_def dest: nat)
  then show "i = j" using \<open>(i < 0) = (j < 0)\<close> by linarith
qed

section \<open>Parsing\<close>

text \<open>\<open>str::parse::<i64>\<close>: an optional sign, then digits, within the range of the type.\<close>

fun parse_nat_digits :: "nat \<Rightarrow> string \<Rightarrow> nat option" where
  "parse_nat_digits acc [] = Some acc"
| "parse_nat_digits acc (c # cs) =
     (let d = (of_char c :: nat)
      in if 48 \<le> d \<and> d \<le> 57 then parse_nat_digits (acc * 10 + (d - 48)) cs else None)"

definition in_i64 :: "int \<Rightarrow> int option" where
  "in_i64 i = (if i64_range i then Some i else None)"

definition parse_i64 :: "string \<Rightarrow> int option" where
  "parse_i64 s =
     (case s of [] \<Rightarrow> None
      | c # cs \<Rightarrow>
          if c = CHR ''-'' then (if cs = [] then None
             else Option.bind (parse_nat_digits 0 cs) (\<lambda>n. in_i64 (- int n)))
          else if c = CHR ''+'' then (if cs = [] then None
             else Option.bind (parse_nat_digits 0 cs) (\<lambda>n. in_i64 (int n)))
          else Option.bind (parse_nat_digits 0 s) (\<lambda>n. in_i64 (int n)))"

lemma parse_nat_digits_digits:
  "(\<forall>c \<in> set s. 48 \<le> (of_char c :: nat) \<and> (of_char c :: nat) \<le> 57) \<Longrightarrow>
     parse_nat_digits acc s = Some (decimal acc s)"
  by (induction s arbitrary: acc) (auto simp: Let_def)

lemma parse_show_nat: "parse_nat_digits 0 (show_nat n) = Some n"
  using show_nat_digits by (simp add: parse_nat_digits_digits decimal_show_nat)

lemma show_nat_not_Nil: "show_nat n \<noteq> []"
  by (simp add: show_nat.simps [of n])

lemma parse_show_int: "i64_range i \<Longrightarrow> parse_i64 (show_int i) = Some i"
proof -
  assume r: "i64_range i"
  have digits: "parse_i64 (show_nat n) = in_i64 (int n)" for n
  proof (cases "show_nat n")
    case (Cons c cs)
    then have "c \<noteq> CHR ''-''" "c \<noteq> CHR ''+''"
      using show_nat_digits [of c n] by auto
    then show ?thesis using Cons parse_show_nat [of n] by (simp add: parse_i64_def)
  qed (simp add: show_nat_not_Nil)
  show ?thesis
  proof (cases "i < 0")
    case True
    then show ?thesis
      using r parse_show_nat [of "nat (- i)"] by (simp add: show_int_def parse_i64_def show_nat_not_Nil in_i64_def)
  next
    case False
    then show ?thesis using r digits by (simp add: show_int_def in_i64_def)
  qed
qed

end
