(* ===== verification/RawIrc.thy ===== *)
theory RawIrc
  imports Records Text
begin

text \<open>
  From an IRC line to a canonical record, \<^verbatim>\<open>src/storage/raw_irc.rs\<close>: which commands are kept, the
  channel, the identity tags a message must have, its times, and the event key by which copies of
  one event are recognized. The parser of the \<open>twitch_irc\<close> crate is the parameter \<open>parse_message\<close> (an
  error carries its text) and BLAKE3 is the parameter \<open>hash\<close>.
\<close>

record irc_message =
  im_tags :: "(string \<times> string) list"
  im_prefix :: "string option"
  im_command :: string
  im_params :: "string list"

datatype raw_irc_error =
    Parse string
  | UnsupportedCommand string
  | MissingChannel
  | MissingIdentity string string

definition retained_commands :: "string list" where
  "retained_commands = [''PRIVMSG'', ''CLEARCHAT'', ''CLEARMSG'', ''USERNOTICE'']"

definition tag :: "irc_message \<Rightarrow> string \<Rightarrow> string option" where
  "tag m name = map_of (im_tags m) name"

definition has_tag :: "irc_message \<Rightarrow> string \<Rightarrow> bool" where
  "has_tag m name = (case tag m name of None \<Rightarrow> False | Some v \<Rightarrow> v \<noteq> [])"

text \<open>The match of \<open>validate_identity\<close>, its arms in order.\<close>

definition required_identity :: "irc_message \<Rightarrow> string option" where
  "required_identity m =
     (if im_command m \<in> {''PRIVMSG'', ''USERNOTICE''} \<and> \<not> has_tag m ''id'' then Some ''id''
      else if im_command m = ''CLEARMSG'' \<and> \<not> has_tag m ''target-msg-id'' then Some ''target-msg-id''
      else if \<not> has_tag m ''tmi-sent-ts'' then Some ''tmi-sent-ts''
      else if im_command m = ''CLEARCHAT'' \<and> length (im_params m) > 1 \<and> \<not> has_tag m ''target-user-id''
        then Some ''target-user-id for a user-specific clear''
      else None)"

definition validate_identity :: "irc_message \<Rightarrow> raw_irc_error + unit" where
  "validate_identity m =
     (case required_identity m of
        Some required \<Rightarrow> Inl (MissingIdentity (im_command m) required)
      | None \<Rightarrow> Inr ())"

definition is_login_char :: "char \<Rightarrow> bool" where
  "is_login_char c \<longleftrightarrow>
     (let n = (of_char c :: nat)
      in (48 \<le> n \<and> n \<le> 57) \<or> (65 \<le> n \<and> n \<le> 90) \<or> (97 \<le> n \<and> n \<le> 122)) \<or> c = CHR ''_''"

definition normalize_channel :: "string \<Rightarrow> string option" where
  "normalize_channel channel =
     (let ch = to_ascii_lowercase (dropWhile (\<lambda>c. c = CHR ''#'') channel)
      in if ch \<noteq> [] \<and> list_all is_login_char ch then Some ch else None)"

section \<open>Event keys\<close>

text \<open>\<open>(n as u64).to_le_bytes()\<close>\<close>

fun le_bytes :: "nat \<Rightarrow> nat \<Rightarrow> bytes" where
  "le_bytes 0 n = []"
| "le_bytes (Suc k) n = word_of_nat (n mod 256) # le_bytes k (n div 256)"

definition add_part :: "bytes \<Rightarrow> bytes" where
  "add_part value = le_bytes 8 (length value) @ value"

definition identity_tags :: "string list" where
  "identity_tags = [''tmi-sent-ts'', ''target-msg-id'', ''target-user-id'', ''ban-duration'', ''source-id'']"

definition tag_parts :: "irc_message \<Rightarrow> string \<Rightarrow> bytes list" where
  "tag_parts m name = (case tag m name of None \<Rightarrow> [] | Some v \<Rightarrow> [utf8 name, utf8 v])"

text \<open>The parts that \<open>event_key\<close> feeds to the hash, in order.\<close>

definition key_parts :: "irc_message \<Rightarrow> string \<Rightarrow> bytes list" where
  "key_parts m channel =
     [utf8 ''twitch-irc-event-v1'', utf8 (im_command m), utf8 channel] @
     (case tag m ''id'' of
        Some i \<Rightarrow> if i \<noteq> [] then [utf8 ''id'', utf8 i]
                else concat (map (tag_parts m) identity_tags) @ map utf8 (drop 1 (im_params m))
      | None \<Rightarrow> concat (map (tag_parts m) identity_tags) @ map utf8 (drop 1 (im_params m)))"

definition message_event_key :: "(bytes \<Rightarrow> bytes) \<Rightarrow> irc_message \<Rightarrow> string \<Rightarrow> event_key" where
  "message_event_key hash m channel = hash (concat (map add_part (key_parts m channel)))"

section \<open>Canonical records\<close>

definition trim_line_end :: "string \<Rightarrow> string" where
  "trim_line_end raw = rev (dropWhile (\<lambda>c. c = CHR 0x0D \<or> c = CHR 0x0A) (rev raw))"

definition timestamp_tag :: "irc_message \<Rightarrow> string \<Rightarrow> int \<Rightarrow> int" where
  "timestamp_tag m name fallback =
     (case Option.bind (tag m name) parse_i64 of None \<Rightarrow> fallback | Some t \<Rightarrow> t)"

definition first_param :: "irc_message \<Rightarrow> string option" where
  "first_param m = (case im_params m of [] \<Rightarrow> None | p # _ \<Rightarrow> Some p)"

definition canonicalize_raw_irc_from ::
    "(string \<Rightarrow> string + irc_message) \<Rightarrow> (bytes \<Rightarrow> bytes) \<Rightarrow>
     string \<Rightarrow> int \<Rightarrow> string \<Rightarrow> source_fidelity \<Rightarrow> raw_irc_error + canonical_record" where
  "canonicalize_raw_irc_from parse_message hash raw received source fid =
     (let raw = trim_line_end raw
      in and_then (map_err Parse (parse_message raw)) (\<lambda>m.
         if im_command m \<notin> set retained_commands then Inl (UnsupportedCommand (im_command m))
         else
           and_then (ok_or MissingChannel (Option.bind (first_param m) normalize_channel)) (\<lambda>ch.
           and_then (validate_identity m) (\<lambda>_.
           Inr \<lparr>channel_key = ch, event_at_ms = timestamp_tag m ''tmi-sent-ts'' received,
                received_at_ms = timestamp_tag m ''rm-received-ts'' received,
                event_key = message_event_key hash m ch, source_id = source, fidelity = fid,
                raw_irc = utf8 raw\<rparr>))))"

definition canonicalize_raw_irc ::
    "(string \<Rightarrow> string + irc_message) \<Rightarrow> (bytes \<Rightarrow> bytes) \<Rightarrow> string \<Rightarrow> int \<Rightarrow> raw_irc_error + canonical_record" where
  "canonicalize_raw_irc parse_message hash raw received =
     canonicalize_raw_irc_from parse_message hash raw received ''unknown'' Unknown"

section \<open>Lemmas\<close>

lemma length_le_bytes [simp]: "length (le_bytes k n) = k"
  by (induction k arbitrary: n) auto

lemma le_bytes_inject: "m < 256 ^ k \<Longrightarrow> n < 256 ^ k \<Longrightarrow> le_bytes k m = le_bytes k n \<Longrightarrow> m = n"
proof (induction k arbitrary: m n)
  case (Suc k)
  have "unat (word_of_nat (m mod 256) :: u8) = unat (word_of_nat (n mod 256) :: u8)"
    using Suc.prems(3) by simp
  then have "m mod 256 = n mod 256" by (simp add: unsigned_of_nat take_bit_eq_mod)
  moreover have "m div 256 = n div 256"
    by (rule Suc.IH) (use Suc.prems in \<open>auto simp: div_less_iff_less_mult mult.commute\<close>)
  ultimately show ?case by (metis div_mult_mod_eq)
qed simp

text \<open>Length prefixes make the concatenation uniquely readable.\<close>

lemma add_part_inject:
  assumes "list_all (\<lambda>p. length p < 2 ^ 64) ps" and "list_all (\<lambda>p. length p < 2 ^ 64) qs"
    and "concat (map add_part ps) = concat (map add_part qs)"
  shows "ps = qs"
  using assms
proof (induction ps arbitrary: qs)
  case Nil
  then show ?case by (cases qs) (auto simp: add_part_def dest: arg_cong [where f = length])
next
  case (Cons p ps)
  show ?case
  proof (cases qs)
    case Nil
    then show ?thesis using Cons.prems(3) by (auto simp: add_part_def dest: arg_cong [where f = length])
  next
    case (Cons q qs')
    have e: "le_bytes 8 (length p) @ p @ concat (map add_part ps) =
        le_bytes 8 (length q) @ q @ concat (map add_part qs')"
      using Cons.prems(3) unfolding Cons by (simp add: add_part_def [of p] add_part_def [of q])
    then have "le_bytes 8 (length p) = le_bytes 8 (length q)" by (simp add: append_eq_append_conv)
    then have len: "length p = length q"
      by (rule le_bytes_inject [rotated 2]) (use Cons.prems(1,2) Cons in simp_all)
    then have "p = q" "concat (map add_part ps) = concat (map add_part qs')"
      using e by (simp_all add: append_eq_append_conv)
    then show ?thesis using Cons.IH [of qs'] Cons.prems(1,2) Cons by simp
  qed
qed

lemma dropWhile_dropWhile: "dropWhile P (dropWhile P xs) = dropWhile P xs"
  by (induction xs) auto

lemma trim_line_end_idem: "trim_line_end (trim_line_end s) = trim_line_end s"
  by (simp add: trim_line_end_def dropWhile_dropWhile)

lemma first_param_Some [simp]: "first_param m = Some p \<longleftrightarrow> (\<exists>ps. im_params m = p # ps)"
  by (auto simp: first_param_def split: list.splits)

lemma validate_identity_Inr [simp]: "validate_identity m = Inr u \<longleftrightarrow> required_identity m = None"
  by (auto simp: validate_identity_def split: option.splits)

lemma canonicalize_Inr:
  "canonicalize_raw_irc_from parse_message hash raw received source fid = Inr r \<longleftrightarrow>
     (\<exists>m p ps ch. parse_message (trim_line_end raw) = Inr m \<and> im_command m \<in> set retained_commands \<and>
        im_params m = p # ps \<and> normalize_channel p = Some ch \<and> required_identity m = None \<and>
        r = \<lparr>channel_key = ch, event_at_ms = timestamp_tag m ''tmi-sent-ts'' received,
             received_at_ms = timestamp_tag m ''rm-received-ts'' received,
             event_key = message_event_key hash m ch, source_id = source, fidelity = fid,
             raw_irc = utf8 (trim_line_end raw)\<rparr>)"
  by (auto simp: canonicalize_raw_irc_from_def Let_def Option.bind_eq_Some_conv)

lemma normalize_channel_Some:
  "normalize_channel p = Some ch \<Longrightarrow>
     ch \<noteq> [] \<and> list_all is_login_char ch \<and> to_ascii_lowercase ch = ch \<and> CHR ''#'' \<notin> set ch"
proof -
  assume a: "normalize_channel p = Some ch"
  then have ch: "ch = to_ascii_lowercase (dropWhile (\<lambda>c. c = CHR ''#'') p)" "ch \<noteq> []" "list_all is_login_char ch"
    by (auto simp: normalize_channel_def Let_def split: if_splits)
  have "to_ascii_lowercase (to_ascii_lowercase x) = to_ascii_lowercase x" for x
    by (auto simp: to_ascii_lowercase_def ascii_lower_def)
  moreover have "\<not> is_login_char (CHR ''#'')" by (simp add: is_login_char_def)
  ultimately show ?thesis using ch by (auto simp: list_all_iff)
qed

section \<open>Properties\<close>

text \<open>
  A line is kept exactly when it parses, its command is one of the four, its first parameter
  names a channel and it carries the identity its command requires; the record is for a non-empty
  lower-case channel without the hash sign. Reading the stored line again gives the same record,
  whatever the source, up to the times that the line itself does not carry.
\<close>

theorem canonicalize_stable:
  assumes "canonicalize_raw_irc_from parse_message hash raw received source fid = Inr r"
  shows "channel_key r \<noteq> [] \<and> to_ascii_lowercase (channel_key r) = channel_key r \<and>
    CHR ''#'' \<notin> set (channel_key r) \<and> source_id r = source \<and> fidelity r = fid \<and>
    (\<exists>line m. raw_irc r = utf8 line \<and> parse_message line = Inr m \<and> im_command m \<in> set retained_commands \<and>
       has_tag m ''tmi-sent-ts'' \<and>
       (\<forall>received' source' fid'. \<exists>r'.
          canonicalize_raw_irc_from parse_message hash line received' source' fid' = Inr r' \<and>
          channel_key r' = channel_key r \<and> event_key r' = event_key r \<and> raw_irc r' = raw_irc r \<and>
          (parse_i64 (the (tag m ''tmi-sent-ts'')) \<noteq> None \<longrightarrow> event_at_ms r' = event_at_ms r)))"
proof -
  obtain m p ps ch where m: "parse_message (trim_line_end raw) = Inr m" "im_command m \<in> set retained_commands"
    "im_params m = p # ps" "normalize_channel p = Some ch" "required_identity m = None"
    "r = \<lparr>channel_key = ch, event_at_ms = timestamp_tag m ''tmi-sent-ts'' received,
             received_at_ms = timestamp_tag m ''rm-received-ts'' received,
             event_key = message_event_key hash m ch, source_id = source, fidelity = fid,
             raw_irc = utf8 (trim_line_end raw)\<rparr>"
    using assms unfolding canonicalize_Inr by blast
  have ts: "has_tag m ''tmi-sent-ts''" using m(5) by (auto simp: required_identity_def split: if_splits)
  then obtain v where v: "tag m ''tmi-sent-ts'' = Some v" by (auto simp: has_tag_def split: option.splits)
  have "\<exists>r'. canonicalize_raw_irc_from parse_message hash (trim_line_end raw) received' source' fid' = Inr r' \<and>
      channel_key r' = channel_key r \<and> event_key r' = event_key r \<and> raw_irc r' = raw_irc r \<and>
      (parse_i64 (the (tag m ''tmi-sent-ts'')) \<noteq> None \<longrightarrow> event_at_ms r' = event_at_ms r)"
    for received' source' fid'
    unfolding canonicalize_Inr trim_line_end_idem
    by (rule exI, intro conjI exI [of _ m] exI [of _ p] exI [of _ ps] exI [of _ ch], rule m(1), rule m(2),
        rule m(3), rule m(4), rule m(5), rule refl) (auto simp: m(6) timestamp_tag_def v)
  then show ?thesis
    using normalize_channel_Some [OF m(4)] m(1,2,6) ts by auto
qed

text \<open>A stand-in parser and hash, to evaluate the definitions.\<close>

definition ex_message :: irc_message where
  "ex_message = \<lparr>im_tags = [(''id'', ''7''), (''tmi-sent-ts'', ''55'')], im_prefix = None,
     im_command = ''PRIVMSG'', im_params = [''#Chan'', ''hi'']\<rparr>"

definition ex_parse_message :: "string \<Rightarrow> string + irc_message" where
  "ex_parse_message s = (if s = ''line'' then Inr ex_message else Inl ''bad'')"

theorem canonicalize_stable_witness:
  "\<exists>r. canonicalize_raw_irc_from ex_parse_message id (''line'' @ [CHR 0x0D, CHR 0x0A]) 9 ''s'' DirectIrc = Inr r \<and>
     channel_key r = ''chan'' \<and> event_at_ms r = 55 \<and> to_ascii_lowercase (channel_key r) = channel_key r"
proof -
  let ?c = "canonicalize_raw_irc_from ex_parse_message id (''line'' @ [CHR 0x0D, CHR 0x0A]) 9 ''s'' DirectIrc"
  have "(case ?c of Inl _ \<Rightarrow> False | Inr r \<Rightarrow> channel_key r = ''chan'' \<and> event_at_ms r = 55)"
    by code_simp
  then obtain r where r: "?c = Inr r" "channel_key r = ''chan''" "event_at_ms r = 55"
    by (cases ?c) auto
  show ?thesis using canonicalize_stable [OF r(1)] r by blast
qed

text \<open>
  The event key depends on the identity of the event alone: when the hash has no collision on the
  two inputs, two messages have the same key exactly when they have the same key parts, and for
  messages with an id exactly when command, channel and id agree, so tags and texts that sources
  add or change do not matter.
\<close>

theorem event_key_exact:
  assumes "list_all (\<lambda>p. length p < 2 ^ 64) (key_parts m ch)"
    and "list_all (\<lambda>p. length p < 2 ^ 64) (key_parts m' ch')"
    and "hash (concat (map add_part (key_parts m ch))) = hash (concat (map add_part (key_parts m' ch'))) \<Longrightarrow>
      concat (map add_part (key_parts m ch)) = concat (map add_part (key_parts m' ch'))"
  shows "(message_event_key hash m ch = message_event_key hash m' ch' \<longleftrightarrow> key_parts m ch = key_parts m' ch') \<and>
    (has_tag m ''id'' \<and> has_tag m' ''id'' \<longrightarrow>
      (message_event_key hash m ch = message_event_key hash m' ch' \<longleftrightarrow>
         im_command m = im_command m' \<and> ch = ch' \<and> tag m ''id'' = tag m' ''id''))"
proof -
  have parts: "message_event_key hash m ch = message_event_key hash m' ch' \<longleftrightarrow> key_parts m ch = key_parts m' ch'"
    using add_part_inject [OF assms(1,2)] assms(3) by (auto simp: message_event_key_def)
  have "key_parts m ch = key_parts m' ch' \<longleftrightarrow> im_command m = im_command m' \<and> ch = ch' \<and> tag m ''id'' = tag m' ''id''"
    if "has_tag m ''id'' \<and> has_tag m' ''id''"
    using that by (auto simp: key_parts_def has_tag_def split: option.splits)
  then show ?thesis using parts by blast
qed

theorem event_key_exact_witness:
  "message_event_key id ex_message ''chan'' =
     message_event_key id (ex_message\<lparr>im_params := [''#chan'', ''edited'']\<rparr>) ''chan''"
proof -
  let ?m = "ex_message\<lparr>im_params := [''#chan'', ''edited'']\<rparr>"
  have l: "list_all (\<lambda>p. length p < 2 ^ 64) (key_parts ex_message ''chan'')"
    "list_all (\<lambda>p. length p < 2 ^ 64) (key_parts ?m ''chan'')"
    "has_tag ex_message ''id'' \<and> has_tag ?m ''id''"
    by code_simp+
  show ?thesis
    using event_key_exact [OF l(1,2), of id] l(3) by (simp add: ex_message_def tag_def)
qed

end
