(* ===== verification/Checkpoint.thy ===== *)
theory Checkpoint
  imports Prelude
begin

text \<open>
  The record of a finished repair, \<open>RepairOutcome\<close> and \<open>RepairCheckpoint\<close> of \<^verbatim>\<open>src/db.rs\<close>, which the
  control store keeps and the repair assessment reads.
\<close>

datatype repair_outcome = Success | Partial | Failed

record repair_checkpoint =
  rc_outcome :: repair_outcome
  completed_at_ms :: int
  rc_requested_start :: int
  rc_requested_end :: int
  next_retry_ms :: int
  record_count :: nat

end
