(* ===== verification/Repair.thy ===== *)
theory Repair
  imports LocalQuery RawIrc Checkpoint
begin

text \<open>
  Repairing a channel from external providers, \<^verbatim>\<open>src/web/repair.rs\<close>: what earlier repairs already
  established, the circuit breaker of each provider, what a provider's answer contributes, and the
  outcome of a repair job. Times are milliseconds for checkpoints and nanoseconds for \<open>Instant\<close>s. HTTP
  exchanges are given by their outcomes; the mutex of a circuit is sequential access.
\<close>

record repair_state =
  best_effort :: bool
  retry_suppressed :: bool

section \<open>What earlier repairs established\<close>

fun bridge_loop :: "coverage_interval list \<Rightarrow> int \<Rightarrow> bool \<Rightarrow> int \<Rightarrow> int \<Rightarrow> bool" where
  "bridge_loop [] cursor first required_end grace = False"
| "bridge_loop (i # is) cursor first required_end grace =
     (if end_ms i < cursor then bridge_loop is cursor first required_end grace
      else
        (let allowed_start = (if first then i64_saturating_add cursor grace else i64_saturating_add cursor 1)
         in if start_ms i > allowed_start then bridge_loop is cursor first required_end grace
            else
              (let cursor' = max cursor (end_ms i)
               in if cursor' \<ge> required_end then True
                  else bridge_loop is cursor' False required_end grace)))"

definition coverage_bridges :: "coverage_interval list \<Rightarrow> int \<Rightarrow> int \<Rightarrow> int \<Rightarrow> bool" where
  "coverage_bridges coverage checkpoint_end required_end grace =
     (if checkpoint_end \<ge> required_end then True
      else bridge_loop (sort_key (\<lambda>i. (start_ms i, end_ms i)) coverage) checkpoint_end True required_end grace)"

definition assess_checkpoint ::
    "coverage_assessment \<Rightarrow> coverage_interval list \<Rightarrow> int \<Rightarrow> int \<Rightarrow> repair_state \<Rightarrow> repair_checkpoint \<Rightarrow> repair_state" where
  "assess_checkpoint assessment coverage now grace_ms state c =
     (let covers_start = rc_requested_start c \<le> required_start_ms assessment;
          overlaps = rc_requested_end c \<ge> required_start_ms assessment;
          exact_or_bridged = rc_requested_end c \<ge> required_end_ms assessment \<or>
            coverage_bridges coverage (rc_requested_end c) (required_end_ms assessment) grace_ms;
          state1 = (if rc_outcome c = Success \<and> covers_start \<and> exact_or_bridged
                    then state\<lparr>best_effort := True\<rparr> else state)
      in if covers_start \<and> overlaps \<and> next_retry_ms c > now \<and> (rc_outcome c \<noteq> Success \<or> exact_or_bridged)
         then state1\<lparr>retry_suppressed := True\<rparr> else state1)"

text \<open>\<open>grace\<close> is the configured duration in milliseconds, as an unsigned number.\<close>

definition assess_repair_state ::
    "repair_checkpoint list \<Rightarrow> coverage_assessment \<Rightarrow> coverage_interval list \<Rightarrow> int \<Rightarrow> nat \<Rightarrow> repair_state" where
  "assess_repair_state checkpoints assessment coverage now grace =
     foldl (assess_checkpoint assessment coverage now (i64_try_from_or_max grace))
       \<lparr>best_effort = False, retry_suppressed = False\<rparr> checkpoints"

section \<open>The circuit breaker of a provider\<close>

record circuit_state =
  consecutive_failures :: nat
  opened_at :: "nat option"
  half_open_probe_inflight :: bool

definition closed_circuit :: circuit_state where
  "closed_circuit = \<lparr>consecutive_failures = 0, opened_at = None, half_open_probe_inflight = False\<rparr>"

record breaker =
  failure_threshold :: nat
  open_duration :: nat

text \<open>\<open>failure_threshold.max(1)\<close> of \<open>parse_provider\<close>.\<close>

definition new_breaker :: "nat \<Rightarrow> nat \<Rightarrow> breaker" where
  "new_breaker threshold duration = \<lparr>failure_threshold = max threshold 1, open_duration = duration\<rparr>"

definition begin_attempt :: "breaker \<Rightarrow> nat \<Rightarrow> circuit_state \<Rightarrow> bool \<times> circuit_state" where
  "begin_attempt b now c =
     (case opened_at c of
        None \<Rightarrow> (True, c)
      | Some opened \<Rightarrow>
          if u64_saturating_sub now opened < open_duration b \<or> half_open_probe_inflight c then (False, c)
          else (True, c\<lparr>half_open_probe_inflight := True\<rparr>))"

text \<open>The failure count is a \<open>u32\<close>.\<close>

definition finish_attempt :: "breaker \<Rightarrow> bool \<Rightarrow> nat \<Rightarrow> circuit_state \<Rightarrow> circuit_state" where
  "finish_attempt b succeeded now c =
     (if succeeded then closed_circuit
      else
        (let c1 = c\<lparr>half_open_probe_inflight := False,
                    consecutive_failures := min u32_max (consecutive_failures c + 1)\<rparr>
         in if opened_at c1 \<noteq> None \<or> consecutive_failures c1 \<ge> failure_threshold b
            then c1\<lparr>opened_at := Some now\<rparr> else c1))"

record provider_records =
  pv_records :: "canonical_record list"
  identity_complete :: bool

text \<open>
  How \<open>fetch_provider\<close> can go: waiting for a permit times out or the semaphore is closed; otherwise
  the exchange ends with records, with an error, or at the deadline.
\<close>

datatype provider_exchange =
    PermitTimeout
  | PermitsClosed
  | Exchanged "string + provider_records"
  | DeadlineExpired

definition fetch_provider ::
    "breaker \<Rightarrow> provider_exchange \<Rightarrow> nat \<Rightarrow> circuit_state \<Rightarrow> (unit + provider_records) \<times> circuit_state" where
  "fetch_provider b exchange now c =
     (case exchange of
        PermitTimeout \<Rightarrow> (Inl (), c)
      | PermitsClosed \<Rightarrow> (Inl (), c)
      | Exchanged (Inr result) \<Rightarrow> (Inr result, finish_attempt b (identity_complete result) now c)
      | Exchanged (Inl outcome) \<Rightarrow> (Inl (), finish_attempt b False now c)
      | DeadlineExpired \<Rightarrow> (Inl (), finish_attempt b False now c))"

text \<open>One provider in one call of \<open>fetch\<close>: \<open>None\<close> when its circuit refuses the attempt.\<close>

definition attempt_provider ::
    "breaker \<Rightarrow> nat \<Rightarrow> provider_exchange \<Rightarrow> nat \<Rightarrow> circuit_state \<Rightarrow> (unit + provider_records) option \<times> circuit_state" where
  "attempt_provider b start exchange finish c =
     (case begin_attempt b start c of
        (False, c1) \<Rightarrow> (None, c1)
      | (True, c1) \<Rightarrow> (case fetch_provider b exchange finish c1 of (r, c2) \<Rightarrow> (Some r, c2)))"

section \<open>The records of an answer\<close>

datatype provider_kind = RecentMessages | Rustlog

fun collect_records ::
    "(string \<Rightarrow> raw_irc_error + canonical_record) \<Rightarrow> provider_kind \<Rightarrow> string \<Rightarrow> string list \<Rightarrow>
     canonical_record list \<Rightarrow> bool \<Rightarrow> string + provider_records" where
  "collect_records canon kind ch [] acc complete = Inr \<lparr>pv_records = acc, identity_complete = complete\<rparr>"
| "collect_records canon kind ch (raw # raws) acc complete =
     (case canon raw of
        Inr r \<Rightarrow>
          if channel_key r = ch
          then collect_records canon kind ch raws
                 (acc @ [if kind = Rustlog then r\<lparr>received_at_ms := event_at_ms r\<rparr> else r]) complete
          else collect_records canon kind ch raws acc complete
      | Inl (UnsupportedCommand _) \<Rightarrow> collect_records canon kind ch raws acc complete
      | Inl (MissingIdentity _ _) \<Rightarrow> collect_records canon kind ch raws acc False
      | Inl _ \<Rightarrow> Inl ''invalid_irc'')"

text \<open>The chunks of a body, refused once they exceed the maximum.\<close>

fun read_body :: "nat \<Rightarrow> bytes list \<Rightarrow> bytes \<Rightarrow> string + bytes" where
  "read_body max_response [] body = Inr body"
| "read_body max_response (chunk # later) body =
     (if u64_saturating_add (length body) (length chunk) > max_response then Inl ''oversize''
      else read_body max_response later (body @ chunk))"

section \<open>One repair\<close>

text \<open>
  \<open>fetch\<close>: the providers whose circuit admits an attempt answer in some order; records go to the
  job as they arrive.
\<close>

datatype repair_fetch_error = Deadline | AllProvidersFailed

fun fetch_updates :: "(unit + provider_records) list \<Rightarrow> canonical_record list list" where
  "fetch_updates [] = []"
| "fetch_updates (Inl _ # rs) = fetch_updates rs"
| "fetch_updates (Inr p # rs) =
     (if pv_records p \<noteq> [] then pv_records p # fetch_updates rs else fetch_updates rs)"

definition fetch_result :: "(unit + provider_records) list \<Rightarrow> bool \<Rightarrow> repair_fetch_error + bool" where
  "fetch_result results deadline_passed =
     (if list_ex (\<lambda>r. \<not> isl r) results then Inr True
      else if deadline_passed then Inl Deadline else Inl AllProvidersFailed)"

text \<open>The updates persisted by the job, each with whether the store accepted it.\<close>

definition persisted_count :: "(canonical_record list \<times> bool) list \<Rightarrow> nat" where
  "persisted_count updates = foldl (\<lambda>n (rs, ok). if ok then u64_saturating_add n (length rs) else n) 0 updates"

text \<open>The completions announced while the job runs.\<close>

definition progress_events :: "(canonical_record list \<times> bool) list \<Rightarrow> repair_outcome list" where
  "progress_events updates = map (\<lambda>_. Partial) (filter snd updates)"

definition job_outcome :: "repair_fetch_error + bool \<Rightarrow> nat \<Rightarrow> repair_outcome \<times> nat" where
  "job_outcome result persisted =
     (case result of
        Inr any_succeeded \<Rightarrow>
          if persisted > 0 then (Success, persisted)
          else if any_succeeded then (Partial, persisted) else (Failed, 0)
      | Inl _ \<Rightarrow> (Failed, 0))"

text \<open>The retry delays in milliseconds, as unsigned numbers.\<close>

record retry_delays =
  success_retry :: nat
  partial_retry :: nat
  failure_retry :: nat

definition job_checkpoint ::
    "retry_delays \<Rightarrow> repair_fetch_error + bool \<Rightarrow> (canonical_record list \<times> bool) list \<Rightarrow> int \<Rightarrow> int \<Rightarrow> int
      \<Rightarrow> repair_checkpoint" where
  "job_checkpoint delays result updates rs re completed =
     (case job_outcome result (persisted_count updates) of (out, n) \<Rightarrow>
        (let retry_after = (case out of Success \<Rightarrow> success_retry delays | Partial \<Rightarrow> partial_retry delays
                              | Failed \<Rightarrow> failure_retry delays)
         in \<lparr>rc_outcome = out, completed_at_ms = completed, rc_requested_start = rs, rc_requested_end = re,
             next_retry_ms = i64_saturating_add completed (i64_try_from_or_max retry_after),
             record_count = n\<rparr>))"

section \<open>Bridges\<close>

lemma bridge_loop_sound:
  assumes "bridge_loop is cursor first required_end grace" and "cursor < required_end"
    and "intervals_ok is" and "i64_range cursor" and "0 \<le> grace"
    and "t \<le> required_end" and "if first then cursor + grace \<le> t else cursor < t"
  shows "covered is t"
  using assms
proof (induction "is" arbitrary: cursor first)
  case (Cons i "is")
  have ok: "intervals_ok is" "i64_range (start_ms i)" "i64_range (end_ms i)"
    using Cons.prems(3) by (auto simp: intervals_ok_def)
  let ?allowed = "if first then i64_saturating_add cursor grace else i64_saturating_add cursor 1"
  show ?case
  proof (cases "end_ms i < cursor \<or> start_ms i > ?allowed")
    case True
    then have "bridge_loop is cursor first required_end grace"
      using Cons.prems(1) by (auto simp: Let_def split: if_splits)
    then show ?thesis using Cons.IH [OF _ Cons.prems(2) ok(1) Cons.prems(4-7)] by simp
  next
    case False
    have allowed: "start_ms i \<le> (if first then cursor + grace else cursor + 1)"
      using False ok(2) Cons.prems(4,5) by (auto simp: int_defs split: if_splits)
    show ?thesis
    proof (cases "t \<le> end_ms i")
      case True
      then show ?thesis using allowed Cons.prems(7) by (auto split: if_splits)
    next
      case after: False
      let ?c = "max cursor (end_ms i)"
      have c: "?c < required_end" "?c < t" "i64_range ?c"
        using after False Cons.prems(4,6) ok(3) by (auto simp: i64_range_def)
      then have "bridge_loop is ?c False required_end grace"
        using Cons.prems(1) False by (auto simp: Let_def split: if_splits)
      then have "covered is t"
        using Cons.IH [of ?c False] c ok(1) Cons.prems(5,6) by simp
      then show ?thesis by simp
    qed
  qed
qed simp

lemma bridge_loop_complete:
  assumes "sorted (map start_ms is)" and "cursor < required_end" and "intervals_ok is"
    and "i64_range cursor" and "i64_range required_end" and "0 \<le> grace"
    and "\<forall>t. cursor < t \<and> t \<le> required_end \<longrightarrow> covered is t" and "first \<Longrightarrow> covered is cursor"
  shows "bridge_loop is cursor first required_end grace"
  using assms
proof (induction "is" arbitrary: cursor first)
  case Nil
  then show ?case by auto
next
  case (Cons i "is")
  have ok: "intervals_ok is" "i64_range (start_ms i)" "i64_range (end_ms i)"
    using Cons.prems(3) by (auto simp: intervals_ok_def)
  have so: "sorted (map start_ms is)" "\<forall>j \<in> set is. start_ms i \<le> start_ms j" using Cons.prems(1) by auto
  show ?case
  proof (cases "end_ms i < cursor")
    case True
    have "bridge_loop is cursor first required_end grace"
      by (rule Cons.IH [OF so(1) Cons.prems(2) ok(1) Cons.prems(4-6)]) (use Cons.prems(7,8) True in auto)
    then show ?thesis using True by simp
  next
    case False
    let ?allowed = "if first then i64_saturating_add cursor grace else i64_saturating_add cursor 1"
    have start: "start_ms i \<le> (if first then cursor else cursor + 1)"
    proof (rule ccontr)
      assume far: "\<not> ?thesis"
      let ?t = "if first then cursor else cursor + 1"
      have "\<not> covered (i # is) ?t" using far so(2) by (auto simp: covered_def)
      moreover have "covered (i # is) ?t" using Cons.prems(2,7,8) by auto
      ultimately show False by contradiction
    qed
    have "?allowed \<ge> (if first then cursor else cursor + 1)"
      using Cons.prems(2,4,5,6) by (auto simp: int_defs)
    then have near: "\<not> start_ms i > ?allowed" using start by linarith
    show ?thesis
    proof (cases "required_end \<le> max cursor (end_ms i)")
      case True
      then show ?thesis using False near by (simp add: Let_def)
    next
      case less: False
      have "bridge_loop is (max cursor (end_ms i)) False required_end grace"
        by (rule Cons.IH [OF so(1) _ ok(1) _ Cons.prems(5,6)])
           (use less Cons.prems(4,7) ok(3) in \<open>auto simp: i64_range_def\<close>)
      then show ?thesis using False near less by (simp add: Let_def)
    qed
  qed
qed

lemma coverage_bridges_spec:
  assumes "intervals_ok is" and "i64_range ce" and "i64_range re" and "0 \<le> grace"
  shows "coverage_bridges is ce re grace \<Longrightarrow> ce + grace \<le> t \<Longrightarrow> t \<le> re \<Longrightarrow> ce < re \<Longrightarrow> covered is t"
    and "(\<forall>t. ce \<le> t \<and> t \<le> re \<longrightarrow> covered is t) \<Longrightarrow> coverage_bridges is ce re grace"
proof -
  let ?s = "sort_key (\<lambda>i. (start_ms i, end_ms i)) is"
  have cov: "covered ?s t = covered is t" for t by (simp add: covered_def)
  have ok: "intervals_ok ?s" using assms(1) by (simp add: intervals_ok_def)
  have "sorted (map (\<lambda>i. (start_ms i, end_ms i)) ?s)" by simp
  then have so: "sorted (map start_ms ?s)"
    by (simp add: sorted_map) (erule sorted_wrt_mono_rel [rotated], auto)
  show "covered is t" if "coverage_bridges is ce re grace" "ce + grace \<le> t" "t \<le> re" "ce < re"
    using bridge_loop_sound [of ?s ce True re grace t] that ok assms(2,4)
    by (simp add: coverage_bridges_def cov split: if_splits)
  show "coverage_bridges is ce re grace" if "\<forall>t. ce \<le> t \<and> t \<le> re \<longrightarrow> covered is t"
    using bridge_loop_complete [OF so _ ok assms(2,3,4), of True] that
    by (simp add: coverage_bridges_def cov)
qed

section \<open>Checkpoints\<close>

definition vouches :: "coverage_assessment \<Rightarrow> coverage_interval list \<Rightarrow> int \<Rightarrow> repair_checkpoint \<Rightarrow> bool" where
  "vouches assessment coverage grace_ms c \<longleftrightarrow>
     rc_requested_end c \<ge> required_end_ms assessment \<or>
     coverage_bridges coverage (rc_requested_end c) (required_end_ms assessment) grace_ms"

lemma foldl_assess_checkpoint:
  "best_effort (foldl (assess_checkpoint a cov now g) st cs) \<longleftrightarrow> best_effort st \<or>
     (\<exists>c \<in> set cs. rc_outcome c = Success \<and> rc_requested_start c \<le> required_start_ms a \<and> vouches a cov g c)"
  "retry_suppressed (foldl (assess_checkpoint a cov now g) st cs) \<longleftrightarrow> retry_suppressed st \<or>
     (\<exists>c \<in> set cs. rc_requested_start c \<le> required_start_ms a \<and> required_start_ms a \<le> rc_requested_end c \<and>
        now < next_retry_ms c \<and> (rc_outcome c = Success \<longrightarrow> vouches a cov g c))"
  by (induction cs arbitrary: st) (auto simp: assess_checkpoint_def vouches_def Let_def)

section \<open>Runs of attempts\<close>

text \<open>Start, exchange and finish of successive attempts on one provider.\<close>

type_synonym attempt = "nat \<times> provider_exchange \<times> nat"

fun run_attempts :: "breaker \<Rightarrow> attempt list \<Rightarrow> circuit_state \<Rightarrow> circuit_state" where
  "run_attempts b [] c = c"
| "run_attempts b ((start, exchange, finish) # as) c =
     run_attempts b as (snd (attempt_provider b start exchange finish c))"

text \<open>The attempt got a permit, and so reports how it went.\<close>

definition reports :: "attempt \<Rightarrow> bool" where
  "reports a \<longleftrightarrow> (case a of (_, exchange, _) \<Rightarrow> exchange \<noteq> PermitTimeout \<and> exchange \<noteq> PermitsClosed)"

definition succeeds :: "provider_exchange \<Rightarrow> bool" where
  "succeeds exchange \<longleftrightarrow> (\<exists>result. exchange = Exchanged (Inr result) \<and> identity_complete result)"

definition circuit_ok :: "breaker \<Rightarrow> circuit_state \<Rightarrow> bool" where
  "circuit_ok b c \<longleftrightarrow> \<not> half_open_probe_inflight c \<and>
     (opened_at c = None \<longrightarrow> consecutive_failures c < failure_threshold b)"

lemma fetch_provider_state:
  assumes "exchange \<noteq> PermitTimeout" and "exchange \<noteq> PermitsClosed"
  shows "snd (fetch_provider b exchange now c) = finish_attempt b (succeeds exchange) now c"
  using assms by (auto simp: fetch_provider_def succeeds_def split: provider_exchange.splits sum.splits)

lemma finish_attempt_ok:
  "0 < failure_threshold b \<Longrightarrow> circuit_ok b (finish_attempt b s now c)"
  by (auto simp: circuit_ok_def finish_attempt_def closed_circuit_def Let_def)

lemma attempt_admitted:
  assumes "begin_attempt b start c = (True, c1)" and "reports (start, exchange, finish)"
  shows "snd (attempt_provider b start exchange finish c) = finish_attempt b (succeeds exchange) finish c1"
  using assms(2) fetch_provider_state [of exchange b finish c1]
  by (cases "fetch_provider b exchange finish c1") (simp add: attempt_provider_def assms(1) reports_def)

lemma attempt_provider_ok:
  assumes "circuit_ok b c" and "0 < failure_threshold b" and "reports (start, exchange, finish)"
  shows "circuit_ok b (snd (attempt_provider b start exchange finish c))"
proof (cases "fst (begin_attempt b start c)")
  case True
  then obtain c1 where b: "begin_attempt b start c = (True, c1)" by (metis prod.collapse)
  show ?thesis using attempt_admitted [OF b assms(3)] finish_attempt_ok [OF assms(2)] by simp
next
  case False
  then have "begin_attempt b start c = (False, c)"
    by (auto simp: begin_attempt_def split: option.splits if_splits)
  then show ?thesis using assms(1) by (simp add: attempt_provider_def)
qed

lemma run_attempts_ok:
  "circuit_ok b c \<Longrightarrow> 0 < failure_threshold b \<Longrightarrow> list_all reports as \<Longrightarrow> circuit_ok b (run_attempts b as c)"
proof (induction "as" arbitrary: c)
  case (Cons a "as")
  obtain start exchange finish where a: "a = (start, exchange, finish)" by (metis prod_cases3)
  then show ?case using Cons attempt_provider_ok [of b c start exchange finish] by simp
qed simp

section \<open>Records of an answer\<close>

lemma collect_records_spec:
  "collect_records canon kind ch raws acc complete = Inr p \<Longrightarrow>
     pv_records p = acc @ List.map_filter (\<lambda>raw. case canon raw of Inl _ \<Rightarrow> None
        | Inr r \<Rightarrow> if channel_key r = ch
            then Some (if kind = Rustlog then r\<lparr>received_at_ms := event_at_ms r\<rparr> else r) else None) raws \<and>
     (identity_complete p \<longleftrightarrow> complete \<and> (\<forall>raw \<in> set raws. \<forall>c q. canon raw \<noteq> Inl (MissingIdentity c q)))"
proof (induction raws arbitrary: acc complete)
  case (Cons raw raws)
  show ?case
  proof (cases "canon raw")
    case (Inl e)
    then show ?thesis using Cons by (cases e) auto
  next
    case (Inr r)
    then show ?thesis using Cons by (auto split: if_splits)
  qed
qed auto

lemma read_body_spec:
  assumes "length acc \<le> n" and "n < u64_max"
  shows "read_body n cs acc =
    (if length (acc @ concat cs) \<le> n then Inr (acc @ concat cs) else Inl ''oversize'')"
  using assms(1)
proof (induction cs arbitrary: acc)
  case (Cons c cs)
  have "u64_saturating_add (length acc) (length c) > n \<longleftrightarrow> length (acc @ c) > n"
    using assms(2) by (simp add: u64_saturating_add_def)
  then show ?case using Cons.IH [of "acc @ c"] by simp
qed simp

section \<open>The outcome of a job\<close>

lemma persisted_count_pos:
  assumes "\<forall>(rs, ok) \<in> set updates. rs \<noteq> []"
  shows "0 < persisted_count updates \<longleftrightarrow> (\<exists>(rs, ok) \<in> set updates. ok)"
proof -
  have "0 < foldl (\<lambda>n (rs, ok). if ok then u64_saturating_add n (length rs) else n) m updates \<longleftrightarrow>
      0 < m \<or> (\<exists>(rs, ok) \<in> set updates. ok)" for m
    using assms
  proof (induction updates arbitrary: m)
    case (Cons u updates)
    obtain rs ok where u: "u = (rs, ok)" by fastforce
    have "0 < (if ok then u64_saturating_add m (length rs) else m) \<longleftrightarrow> 0 < m \<or> ok"
      using Cons.prems by (simp add: u u64_saturating_add_def u64_max_def)
    then show ?case using Cons.IH [of "if ok then u64_saturating_add m (length rs) else m"] Cons.prems
      by (simp add: u)
  qed simp
  then show ?thesis by (simp add: persisted_count_def)
qed

lemma fetch_updates_nonempty: "rs \<in> set (fetch_updates results) \<Longrightarrow> rs \<noteq> []"
  by (induction results rule: fetch_updates.induct) (auto split: if_splits)

lemma fetch_updates_success: "rs \<in> set (fetch_updates results) \<Longrightarrow> list_ex (\<lambda>r. \<not> isl r) results"
  by (induction results rule: fetch_updates.induct) (auto split: if_splits)

section \<open>Properties\<close>


definition ex_assessment :: coverage_assessment where
  "ex_assessment = \<lparr>sufficient = False, required_start_ms = 10, required_end_ms = 100, gaps = [(10, 50)]\<rparr>"

definition ex_checkpoint :: "repair_outcome \<Rightarrow> repair_checkpoint" where
  "ex_checkpoint out = \<lparr>rc_outcome = out, completed_at_ms = 60, rc_requested_start = 5, rc_requested_end = 50,
     next_retry_ms = 200, record_count = 3\<rparr>"


text \<open>
  When every attempt that is started reports how it went, the breaker admits an attempt exactly
  when the circuit is closed or the open period has passed, so a provider is always asked again; a
  success closes the circuit, and a failure opens it once the threshold of consecutive failures is
  reached and restarts the open period if it was open.
\<close>

theorem breaker_recovers:
  assumes "b = new_breaker threshold duration" and "list_all reports as"
    and "c = run_attempts b as closed_circuit"
  shows "(fst (begin_attempt b now c) \<longleftrightarrow>
      (case opened_at c of None \<Rightarrow> True | Some opened \<Rightarrow> duration \<le> now - opened)) \<and>
    (opened_at c = None \<longrightarrow> consecutive_failures c < max threshold 1) \<and>
    (\<forall>exchange finish. reports (now, exchange, finish) \<and> fst (begin_attempt b now c) \<longrightarrow>
       (let c' = snd (attempt_provider b now exchange finish c)
        in if succeeds exchange then c' = closed_circuit
           else (opened_at c' = Some finish \<longleftrightarrow>
                  opened_at c \<noteq> None \<or> max threshold 1 \<le> min u32_max (consecutive_failures c + 1)) \<and>
                (opened_at c' = None \<or> opened_at c' = Some finish)))"
proof -
  have t: "0 < failure_threshold b" "failure_threshold b = max threshold 1" "open_duration b = duration"
    by (simp_all add: assms(1) new_breaker_def)
  have ok: "circuit_ok b c"
    unfolding assms(3) by (rule run_attempts_ok [OF _ t(1) assms(2)])
      (use t(1) in \<open>simp add: circuit_ok_def closed_circuit_def\<close>)
  have admit: "fst (begin_attempt b now c) \<longleftrightarrow>
      (case opened_at c of None \<Rightarrow> True | Some opened \<Rightarrow> duration \<le> now - opened)"
    using ok t(3) by (auto simp: begin_attempt_def circuit_ok_def u64_saturating_sub_def split: option.splits)
  have "let c' = snd (attempt_provider b now exchange finish c)
        in if succeeds exchange then c' = closed_circuit
           else (opened_at c' = Some finish \<longleftrightarrow>
                  opened_at c \<noteq> None \<or> max threshold 1 \<le> min u32_max (consecutive_failures c + 1)) \<and>
                (opened_at c' = None \<or> opened_at c' = Some finish)"
    if rep: "reports (now, exchange, finish)" and adm: "fst (begin_attempt b now c)" for exchange finish
  proof -
    obtain c1 where c1: "begin_attempt b now c = (True, c1)" using adm by (metis prod.collapse)
    then have same: "opened_at c1 = opened_at c" "consecutive_failures c1 = consecutive_failures c"
      by (auto simp: begin_attempt_def split: option.splits if_splits)
    show ?thesis
      using attempt_admitted [OF c1 rep] by (auto simp: finish_attempt_def Let_def same t(2))
  qed
  then show ?thesis using admit ok t(2) by (auto simp: circuit_ok_def)
qed

theorem breaker_recovers_witness:
  "\<exists>c. c = run_attempts (new_breaker 2 10) [(1, DeadlineExpired, 2), (3, Exchanged (Inl ''status''), 4)] closed_circuit \<and>
     opened_at c = Some 4 \<and> \<not> fst (begin_attempt (new_breaker 2 10) 13 c) \<and> fst (begin_attempt (new_breaker 2 10) 14 c)"
proof -
  let ?as = "[(1, DeadlineExpired, 2), (3, Exchanged (Inl ''status''), 4)]"
  let ?c = "run_attempts (new_breaker 2 10) ?as closed_circuit"
  have "list_all reports ?as" by (simp add: reports_def)
  note b = breaker_recovers [OF refl this refl, of 2 10]
  have o: "opened_at ?c = Some 4" by code_simp
  then show ?thesis using b [of 13] b [of 14] by simp
qed

text \<open>
  An attempt that gives up waiting for a permit reports nothing. If it was the probe of an open
  circuit, the provider is never asked again: every later attempt is refused and changes nothing.
\<close>

theorem lost_probe_blocks_provider:
  assumes "opened_at c = Some opened" and "open_duration b \<le> start - opened" and "\<not> half_open_probe_inflight c"
    and "c' = snd (attempt_provider b start PermitTimeout finish c)"
  shows "run_attempts b later c' = c' \<and>
    fst (attempt_provider b start' exchange finish' (run_attempts b later c')) = None"
proof -
  have c': "half_open_probe_inflight c'" "opened_at c' = Some opened"
    using assms by (auto simp: attempt_provider_def begin_attempt_def fetch_provider_def u64_saturating_sub_def)
  then have refuse: "attempt_provider b s e t c' = (None, c')" for s e t
    by (simp add: attempt_provider_def begin_attempt_def)
  have "run_attempts b later c' = c'" by (induction later) (auto simp: refuse)
  then show ?thesis by (simp add: refuse)
qed

theorem lost_probe_blocks_provider_witness:
  "\<exists>c'. c' = run_attempts (new_breaker 1 10) [(1, DeadlineExpired, 2), (20, PermitTimeout, 25)] closed_circuit \<and>
     fst (attempt_provider (new_breaker 1 10) 1000000 (Exchanged (Inr \<lparr>pv_records = [], identity_complete = True\<rparr>)) 1000001 c') = None"
proof -
  let ?c = "run_attempts (new_breaker 1 10) [(1, DeadlineExpired, 2)] closed_circuit"
  have c: "opened_at ?c = Some 2" "open_duration (new_breaker 1 10) \<le> 20 - 2" "\<not> half_open_probe_inflight ?c"
    by code_simp+
  show ?thesis
    using lost_probe_blocks_provider [OF c refl, where finish = 25 and later = "[]" and start' = 1000000
        and finish' = 1000001] by simp
qed

text \<open>
  A provider's answer contributes, in order, exactly the lines of the channel that canonicalize,
  at their event times for a log provider; the circuit counts the answer as a success exactly when no
  line lacked its identity, and a body is read only up to the maximal size.
\<close>

theorem provider_answer_exact:
  assumes "collect_records canon kind ch raws [] True = Inr p" and "n < u64_max"
  shows "pv_records p = List.map_filter (\<lambda>raw. case canon raw of Inl _ \<Rightarrow> None
        | Inr r \<Rightarrow> if channel_key r = ch
            then Some (if kind = Rustlog then r\<lparr>received_at_ms := event_at_ms r\<rparr> else r) else None) raws \<and>
    (\<forall>r \<in> set (pv_records p). channel_key r = ch) \<and>
    (succeeds (Exchanged (Inr p)) \<longleftrightarrow> (\<forall>raw \<in> set raws. \<forall>c q. canon raw \<noteq> Inl (MissingIdentity c q))) \<and>
    read_body n cs [] = (if length (concat cs) \<le> n then Inr (concat cs) else Inl ''oversize'')"
proof -
  note c = collect_records_spec [OF assms(1)]
  have "channel_key r = ch" if "r \<in> set (pv_records p)" for r
    using that c by (auto simp: List.map_filter_def split: sum.splits if_splits)
  then show ?thesis using c read_body_spec [of "[]" n cs] assms(2) by (auto simp: succeeds_def)
qed

theorem provider_answer_exact_witness:
  "\<exists>p. collect_records (\<lambda>raw. canonicalize_raw_irc_from ex_parse_message id raw 9 ''repair:x'' Reconstructed)
       Rustlog ''chan'' [''line''] [] True = Inr p \<and>
     map received_at_ms (pv_records p) = [55] \<and> (\<forall>r \<in> set (pv_records p). channel_key r = ''chan'')"
proof -
  let ?c = "collect_records (\<lambda>raw. canonicalize_raw_irc_from ex_parse_message id raw 9 ''repair:x'' Reconstructed)
       Rustlog ''chan'' [''line''] [] True"
  have "(case ?c of Inl _ \<Rightarrow> False | Inr p \<Rightarrow> map received_at_ms (pv_records p) = [55])" by code_simp
  then obtain p where p: "?c = Inr p" "map received_at_ms (pv_records p) = [55]" by (cases ?c) auto
  have "(0 :: nat) < u64_max" by (simp add: u64_max_def)
  from provider_answer_exact [OF p(1) this, of "[]"] have "\<forall>r \<in> set (pv_records p). channel_key r = ''chan''"
    by blast
  with p show ?thesis by (intro exI [of _ p] conjI)
qed

text \<open>
  A repair job fails exactly when no provider succeeded, succeeds exactly when the store accepted
  records of some provider, and is partial otherwise; its checkpoint defers the next repair by the
  delay of that outcome, and counts what was stored.
\<close>

theorem job_outcome_exact:
  assumes "map fst updates = fetch_updates results"
    and "cp = job_checkpoint delays (fetch_result results late) updates rs re completed"
  shows "(rc_outcome cp = Failed \<longleftrightarrow> list_all isl results) \<and>
    (rc_outcome cp = Success \<longleftrightarrow> (\<exists>(records, ok) \<in> set updates. ok)) \<and>
    record_count cp = persisted_count updates \<and>
    rc_requested_start cp = rs \<and> rc_requested_end cp = re \<and>
    next_retry_ms cp = i64_saturating_add completed (i64_try_from_or_max
      (case rc_outcome cp of Success \<Rightarrow> success_retry delays | Partial \<Rightarrow> partial_retry delays
       | Failed \<Rightarrow> failure_retry delays))"
proof -
  have ne: "\<forall>(records, ok) \<in> set updates. records \<noteq> []"
    using fetch_updates_nonempty assms(1) by (force simp: image_iff dest: arg_cong [where f = set])
  note pos = persisted_count_pos [OF ne]
  have ex: "list_ex (\<lambda>r. \<not> isl r) results \<longleftrightarrow> \<not> list_all isl results"
    by (simp add: list_ex_iff list_all_iff)
  have none: "updates = []" if "list_all isl results"
  proof (rule ccontr)
    assume "updates \<noteq> []"
    then obtain u where "u \<in> set (fetch_updates results)"
      by (metis assms(1) list.set_intros(1) map_is_Nil_conv neq_Nil_conv)
    then show False using fetch_updates_success ex that by blast
  qed
  show ?thesis
    using pos none unfolding assms(2)
    by (auto simp: job_checkpoint_def job_outcome_def fetch_result_def ex Let_def persisted_count_def
        split: sum.splits)
qed

theorem job_outcome_exact_witness:
  "rc_outcome (job_checkpoint \<lparr>success_retry = 1, partial_retry = 2, failure_retry = 3\<rparr>
     (fetch_result [Inl (), Inr \<lparr>pv_records = [ex_record 1 1 Unknown], identity_complete = True\<rparr>] False)
     [([ex_record 1 1 Unknown], True)] 0 10 20) = Success"
proof -
  have "map fst [([ex_record 1 1 Unknown], True)] =
      fetch_updates [Inl (), Inr \<lparr>pv_records = [ex_record 1 1 Unknown], identity_complete = True\<rparr>]" by simp
  from job_outcome_exact [OF this refl] show ?thesis by auto
qed

end
