(* ===== verification/ApiErrors.thy ===== *)
theory ApiErrors
  imports Store Text
begin

text \<open>
  The errors of the web interface, \<^verbatim>\<open>src/web/error.rs\<close>: status, code and message of every variant and
  the response made of it. The text of an error that a third-party library produced is a string.
  Responses keep the status, the headers the program reads, and the body.
\<close>

datatype storage_error =
    ClusterUnavailable
  | SqliteFailure string
  | FilesystemFailure string
  | WorkerFailure string
  | ControlLockPoisoned
  | InvalidTimestamp int
  | UnsupportedSchema int
  | InvalidCoverageInterval int int
  | AlwaysJoinLimitReached nat

datatype api_error =
    NotFound
  | RequestTimeout
  | ServiceOverloaded
  | MethodNotAllowed
  | InvalidPath
  | InvalidQuery
  | InvalidPayload
  | HeaderValueNotUtf8 string
  | MissingHeader string
  | InvalidChannelLogin string
  | ChannelIgnored string
  | InvalidAuthorizationCode
  | MalformedAuthorizationHeader
  | Unauthorized
  | PeerAccessDisabled
  | UnauthorizedPeer
  | AdminAccessDisabled
  | UnauthorizedAdmin
  | AlwaysJoinLimit nat
  | AlwaysJoinIgnored string
  | InvalidPeerHop
  | ExchangeCodeForAccessToken string
  | QueryUserDetails string
  | SaveUserAuthorization storage_error
  | UpdateUserAuthorization storage_error
  | QueryAccessToken storage_error
  | FailedTwitchAccessTokenRefresh string
  | AuthorizationRevokeFailed storage_error
  | GetChannelIgnored storage_error
  | SetChannelIgnored storage_error
  | GetLocalMessages store_error
  | GetCoverage storage_error
  | PurgeMessages store_error
  | ManageAlwaysJoin storage_error
  | SyncAlwaysJoin store_error

text \<open>The number of each \<open>StatusCode\<close> constant.\<close>

fun status_code :: "api_error \<Rightarrow> nat" where
  "status_code (ExchangeCodeForAccessToken _) = 500"
| "status_code (QueryUserDetails _) = 500"
| "status_code (SaveUserAuthorization _) = 500"
| "status_code (UpdateUserAuthorization _) = 500"
| "status_code (QueryAccessToken _) = 500"
| "status_code (FailedTwitchAccessTokenRefresh _) = 500"
| "status_code (AuthorizationRevokeFailed _) = 500"
| "status_code (GetChannelIgnored _) = 500"
| "status_code (SetChannelIgnored _) = 500"
| "status_code (GetLocalMessages _) = 500"
| "status_code (GetCoverage _) = 500"
| "status_code (PurgeMessages _) = 500"
| "status_code (ManageAlwaysJoin _) = 500"
| "status_code (SyncAlwaysJoin _) = 500"
| "status_code NotFound = 404"
| "status_code PeerAccessDisabled = 404"
| "status_code AdminAccessDisabled = 404"
| "status_code RequestTimeout = 408"
| "status_code ServiceOverloaded = 503"
| "status_code MethodNotAllowed = 405"
| "status_code InvalidPath = 400"
| "status_code InvalidQuery = 400"
| "status_code InvalidPayload = 400"
| "status_code (HeaderValueNotUtf8 _) = 400"
| "status_code (MissingHeader _) = 400"
| "status_code (InvalidChannelLogin _) = 400"
| "status_code InvalidAuthorizationCode = 400"
| "status_code MalformedAuthorizationHeader = 400"
| "status_code (AlwaysJoinLimit _) = 400"
| "status_code InvalidPeerHop = 400"
| "status_code (ChannelIgnored _) = 403"
| "status_code (AlwaysJoinIgnored _) = 403"
| "status_code Unauthorized = 401"
| "status_code UnauthorizedPeer = 401"
| "status_code UnauthorizedAdmin = 401"

text \<open>
  The variants with an internal cause all print one sentence, the others their \<open>#[error(...)]\<close> text.
\<close>

fun user_message :: "api_error \<Rightarrow> string" where
  "user_message NotFound = ''Not Found''"
| "user_message RequestTimeout = ''Request Timeout''"
| "user_message ServiceOverloaded = ''Service temporarily overloaded''"
| "user_message MethodNotAllowed = ''Method Not Allowed''"
| "user_message InvalidPath = ''Invalid or missing path parameters''"
| "user_message InvalidQuery = ''Invalid or missing query parameters''"
| "user_message InvalidPayload = ''Invalid or missing payload in request body''"
| "user_message (HeaderValueNotUtf8 h) =
     ''Header value for Header `'' @ h @ ''` was not valid UTF-8''"
| "user_message (MissingHeader h) = ''Missing header `'' @ h @ ''`''"
| "user_message (InvalidChannelLogin e) = ''Invalid channel login: '' @ e"
| "user_message (ChannelIgnored ch) =
     ''The channel login `'' @ ch @ ''` is excluded from this service''"
| "user_message InvalidAuthorizationCode =
     ''Provided `code` could not be exchanged for a token, it is not valid''"
| "user_message MalformedAuthorizationHeader = ''Malformed `Authorization` header''"
| "user_message Unauthorized = ''Unauthorized (access token expired or invalid)''"
| "user_message PeerAccessDisabled = ''Peer access is not configured''"
| "user_message UnauthorizedPeer = ''Unauthorized peer request''"
| "user_message AdminAccessDisabled = ''Administrative access is not configured''"
| "user_message UnauthorizedAdmin = ''Unauthorized administrative request''"
| "user_message (AlwaysJoinLimit n) =
     ''Always-join list exceeds its configured maximum of '' @ show_nat n @ '' channels''"
| "user_message (AlwaysJoinIgnored ch) =
     ''The ignored channel `'' @ ch @ ''` cannot be added to the always-join list''"
| "user_message InvalidPeerHop = ''Invalid peer hop headers''"
| "user_message _ = ''Internal Server Error''"

fun error_code :: "api_error \<Rightarrow> string" where
  "error_code NotFound = ''not_found''"
| "error_code RequestTimeout = ''request_timeout''"
| "error_code ServiceOverloaded = ''service_overloaded''"
| "error_code MethodNotAllowed = ''method_not_allowed''"
| "error_code InvalidPath = ''invalid_path''"
| "error_code InvalidQuery = ''invalid_query''"
| "error_code InvalidPayload = ''invalid_payload''"
| "error_code (HeaderValueNotUtf8 _) = ''header_value_not_utf8''"
| "error_code (MissingHeader _) = ''missing_header''"
| "error_code (InvalidChannelLogin _) = ''invalid_channel_login''"
| "error_code (ChannelIgnored _) = ''channel_ignored''"
| "error_code InvalidAuthorizationCode = ''invalid_authorization_code''"
| "error_code MalformedAuthorizationHeader = ''malformed_authorization_header''"
| "error_code Unauthorized = ''unauthorized''"
| "error_code PeerAccessDisabled = ''peer_access_disabled''"
| "error_code UnauthorizedPeer = ''unauthorized_peer''"
| "error_code AdminAccessDisabled = ''admin_access_disabled''"
| "error_code UnauthorizedAdmin = ''unauthorized_admin''"
| "error_code (AlwaysJoinLimit _) = ''always_join_limit''"
| "error_code (AlwaysJoinIgnored _) = ''always_join_ignored''"
| "error_code InvalidPeerHop = ''invalid_peer_hop''"
| "error_code _ = ''internal_server_error''"

text \<open>
  Responses. The JSON body of an error is kept as its fields; the reason phrase is determined by
  the status. A successful handler's body is a byte string.
\<close>

datatype body = ErrorBody nat string string | Bytes bytes

type_synonym headers = "string \<Rightarrow> bytes option"

record response =
  rs_status :: nat
  rs_headers :: headers
  rs_body :: body

definition is_server_error :: "nat \<Rightarrow> bool" where
  "is_server_error s \<longleftrightarrow> 500 \<le> s \<and> s < 600"

definition overloaded_header :: string where "overloaded_header = ''x-rm-overloaded''"

definition error_response :: "api_error \<Rightarrow> response" where
  "error_response e =
     (let overloaded = (e = ServiceOverloaded);
          hs = (\<lambda>_. None)(''content-type'' \<mapsto> utf8 ''application/json'')
      in \<lparr>rs_status = status_code e,
          rs_headers = (if overloaded
             then hs(overloaded_header \<mapsto> utf8 ''1'', ''retry-after'' \<mapsto> utf8 ''1'') else hs),
          rs_body = ErrorBody (status_code e) (user_message e) (error_code e)\<rparr>)"

section \<open>Properties\<close>

text \<open>
  Every error response has a 4xx or 5xx status that its body repeats. A response with status 500
  always has the same body, so no detail of an internal cause reaches the client, and no other
  response does. The overload marker, which peers read as permission to take over the request, is set
  exactly on the response of status 503.
\<close>

theorem error_response_opaque:
  "(\<exists>msg code. rs_body (error_response e) = ErrorBody (rs_status (error_response e)) msg code) \<and>
   400 \<le> rs_status (error_response e) \<and> rs_status (error_response e) < 600 \<and>
   (rs_status (error_response e) = 500 \<longleftrightarrow>
      rs_body (error_response e) = ErrorBody 500 ''Internal Server Error'' ''internal_server_error'') \<and>
   (rs_headers (error_response e) overloaded_header \<noteq> None \<longleftrightarrow> rs_status (error_response e) = 503)"
  by (cases e) (simp_all add: error_response_def overloaded_header_def Let_def)

end
