(* ===== verification/MessageExport.thy ===== *)
theory MessageExport
  imports LocalQuery ApiErrors RawIrc
begin

text \<open>
  Exporting stored records as IRC lines, \<^verbatim>\<open>src/message_export.rs\<close>: parsing, applying the moderation
  messages to what came before them, the options of the request, the tags added, and the stable
  serialization. The parser and printer of the \<open>twitch_irc\<close> crate, \<open>chrono\<close> and \<open>humantime\<close> are
  parameters: \<open>parse_irc\<close> (parsing and conversion to a server message), \<open>as_raw_irc\<close>, \<open>in_chrono\<close> (the
  timestamps that \<open>timestamp_millis_opt\<close> accepts) and \<open>format_duration\<close>. The types of the crate keep
  the fields that the code reads. Strings are their UTF-8 bytes; the escapes concern ASCII characters
  only, so mapping bytes is mapping characters.
\<close>

section \<open>Messages of the IRC crate\<close>

datatype clear_chat_action =
    ChatCleared
  | UserTimedOut (timed_out_login: string) (timed_out_id: string) (timeout_length: nat)
  | UserBanned (banned_login: string) (banned_id: string)

text \<open>Sender and message ids where the code compares them, and the source message of each.\<close>

datatype server_message =
    Privmsg string string irc_message
  | UserNotice string string irc_message
  | ClearChat clear_chat_action string irc_message
  | ClearMsg string irc_message
  | Notice "string option" irc_message
  | RoomState irc_message
  | OtherMessage irc_message

fun source_message :: "server_message \<Rightarrow> irc_message" where
  "source_message (Privmsg _ _ m) = m"
| "source_message (UserNotice _ _ m) = m"
| "source_message (ClearChat _ _ m) = m"
| "source_message (ClearMsg _ m) = m"
| "source_message (Notice _ m) = m"
| "source_message (RoomState m) = m"
| "source_message (OtherMessage m) = m"

record container_frame =
  original_message :: server_message
  time_received :: int
  deleted_by_moderation :: bool

record stored_message =
  sm_time_received :: int
  message_source :: string

section \<open>Serialization\<close>

fun encode_tag_value :: "string \<Rightarrow> string" where
  "encode_tag_value [] = []"
| "encode_tag_value (c # cs) =
     (if c = CHR '';'' then [CHR 0x5C, CHR '':'']
      else if c = CHR '' '' then [CHR 0x5C, CHR ''s'']
      else if c = CHR 0x5C then [CHR 0x5C, CHR 0x5C]
      else if c = CHR 0x0D then [CHR 0x5C, CHR ''r'']
      else if c = CHR 0x0A then [CHR 0x5C, CHR ''n'']
      else [c]) @ encode_tag_value cs"

definition encode_tag :: "string \<times> string \<Rightarrow> string" where
  "encode_tag t = (case t of (key, value) \<Rightarrow>
     if value = [] then key else key @ ''='' @ encode_tag_value value)"

fun join :: "string \<Rightarrow> string list \<Rightarrow> string" where
  "join sep [] = []"
| "join sep [s] = s"
| "join sep (s # t # ts) = s @ sep @ join sep (t # ts)"

definition stable_raw_irc :: "(irc_message \<Rightarrow> string) \<Rightarrow> irc_message \<Rightarrow> string" where
  "stable_raw_irc as_raw_irc message =
     (let tags = sort_key fst (im_tags message);
          bare = message\<lparr>im_tags := []\<rparr>
      in if tags = [] then as_raw_irc bare
         else ''@'' @ join '';'' (map encode_tag tags) @ '' '' @ as_raw_irc bare)"

section \<open>Exporting one frame\<close>

definition is_moderation :: "server_message \<Rightarrow> bool" where
  "is_moderation m = (case m of ClearChat _ _ _ \<Rightarrow> True | ClearMsg _ _ \<Rightarrow> True | _ \<Rightarrow> False)"

definition notice_text :: "(nat \<Rightarrow> string) \<Rightarrow> clear_chat_action \<Rightarrow> string \<times> string" where
  "notice_text format_duration action =
     (case action of
        ChatCleared \<Rightarrow> (''Chat has been cleared by a moderator.'', ''rm-clearchat'')
      | UserTimedOut login _ len \<Rightarrow>
          (login @ '' has been timed out for '' @ format_duration len @ ''.'', ''rm-timeout'')
      | UserBanned login _ \<Rightarrow> (login @ '' has been permanently banned.'', ''rm-permaban''))"

definition base_message ::
    "(nat \<Rightarrow> string) \<Rightarrow> query_options \<Rightarrow> server_message \<Rightarrow> irc_message" where
  "base_message format_duration options m =
     (if clearchat_to_notice options
      then (case m of
              ClearChat action channel_login _ \<Rightarrow>
                (case notice_text format_duration action of (text, msg_id) \<Rightarrow>
                   \<lparr>im_tags = [(''msg-id'', msg_id)], im_prefix = Some ''tmi.twitch.tv'', im_command = ''NOTICE'',
                    im_params = [''#'' @ channel_login, text]\<rparr>)
            | _ \<Rightarrow> source_message m)
      else source_message m)"

definition add_tag :: "string \<Rightarrow> string \<Rightarrow> irc_message \<Rightarrow> irc_message" where
  "add_tag key value m = m\<lparr>im_tags := AList.update key value (im_tags m)\<rparr>"

definition exported_message ::
    "(nat \<Rightarrow> string) \<Rightarrow> query_options \<Rightarrow> container_frame \<Rightarrow> irc_message" where
  "exported_message format_duration options f =
     (let m = add_tag ''rm-received-ts'' (show_int (time_received f))
                (add_tag ''historical'' ''1'' (base_message format_duration options (original_message f)))
      in if deleted_by_moderation f then add_tag ''rm-deleted'' ''1'' m else m)"

definition export_frame ::
    "(irc_message \<Rightarrow> string) \<Rightarrow> (nat \<Rightarrow> string) \<Rightarrow> query_options \<Rightarrow> container_frame \<Rightarrow> string option" where
  "export_frame as_raw_irc format_duration options f =
     (if hide_moderated_messages options \<and> deleted_by_moderation f then None
      else if hide_moderation_messages options \<and> is_moderation (original_message f) then None
      else Some (stable_raw_irc as_raw_irc (exported_message format_duration options f)))"

section \<open>The container\<close>

definition ignored_notice_ids :: "string list" where
  "ignored_notice_ids = [''no_permission'', ''host_on'', ''host_off'', ''host_target_went_offline'',
     ''msg_channel_suspended'']"

definition mark_deleted :: "(server_message \<Rightarrow> bool) \<Rightarrow> container_frame list \<Rightarrow> container_frame list" where
  "mark_deleted P frames =
     map (\<lambda>f. if P (original_message f) then f\<lparr>deleted_by_moderation := True\<rparr> else f) frames"

definition sent_by :: "string \<Rightarrow> server_message \<Rightarrow> bool" where
  "sent_by user_id m = (case m of Privmsg sender _ _ \<Rightarrow> sender = user_id
     | UserNotice sender _ _ \<Rightarrow> sender = user_id | _ \<Rightarrow> False)"

definition has_message_id :: "string \<Rightarrow> server_message \<Rightarrow> bool" where
  "has_message_id i m = (case m of Privmsg _ message_id _ \<Rightarrow> message_id = i
     | UserNotice _ message_id _ \<Rightarrow> message_id = i | _ \<Rightarrow> False)"

definition append_server_message ::
    "int \<Rightarrow> server_message \<Rightarrow> container_frame list \<Rightarrow> container_frame list" where
  "append_server_message t m frames =
     (let frame = \<lparr>original_message = m, time_received = t, deleted_by_moderation = False\<rparr>
      in case m of
           OtherMessage _ \<Rightarrow> frames
         | ClearChat ChatCleared _ _ \<Rightarrow> mark_deleted (\<lambda>_. True) frames @ [frame]
         | ClearChat (UserTimedOut _ user_id _) _ _ \<Rightarrow> mark_deleted (sent_by user_id) frames @ [frame]
         | ClearChat (UserBanned _ user_id) _ _ \<Rightarrow> mark_deleted (sent_by user_id) frames @ [frame]
         | ClearMsg message_id _ \<Rightarrow> mark_deleted (has_message_id message_id) frames @ [frame]
         | Notice (Some message_id) _ \<Rightarrow>
             if message_id \<in> set ignored_notice_ids then frames else frames @ [frame]
         | _ \<Rightarrow> frames @ [frame])"

definition append_stored_msg ::
    "(string \<Rightarrow> server_message option) \<Rightarrow> container_frame list \<Rightarrow> stored_message \<Rightarrow> container_frame list" where
  "append_stored_msg parse_irc frames message =
     (case parse_irc (message_source message) of
        None \<Rightarrow> frames
      | Some m \<Rightarrow> append_server_message (sm_time_received message) m frames)"

definition export_stored_messages ::
    "(string \<Rightarrow> server_message option) \<Rightarrow> (irc_message \<Rightarrow> string) \<Rightarrow> (nat \<Rightarrow> string) \<Rightarrow>
     stored_message list \<Rightarrow> query_options \<Rightarrow> string list" where
  "export_stored_messages parse_irc as_raw_irc format_duration stored options =
     List.map_filter (export_frame as_raw_irc format_duration options)
       (foldl (append_stored_msg parse_irc) [] stored)"

section \<open>UTF-8\<close>

text \<open>\<open>String::from_utf8\<close>: well-formed sequences, none overlong, no surrogates, at most U+10FFFF.\<close>

definition cont :: "u8 \<Rightarrow> bool" where "cont b \<longleftrightarrow> 0x80 \<le> b \<and> b \<le> 0xBF"

function valid_utf8 :: "bytes \<Rightarrow> bool" where
  "valid_utf8 bs =
     (case bs of
        [] \<Rightarrow> True
      | a # r \<Rightarrow>
          if a \<le> 0x7F then valid_utf8 r
          else if 0xC2 \<le> a \<and> a \<le> 0xDF then
            (case r of b # r1 \<Rightarrow> cont b \<and> valid_utf8 r1 | _ \<Rightarrow> False)
          else if 0xE0 \<le> a \<and> a \<le> 0xEF then
            (case r of b # c # r2 \<Rightarrow> cont b \<and> cont c \<and> (a = 0xE0 \<longrightarrow> 0xA0 \<le> b) \<and>
               (a = 0xED \<longrightarrow> b \<le> 0x9F) \<and> valid_utf8 r2 | _ \<Rightarrow> False)
          else if 0xF0 \<le> a \<and> a \<le> 0xF4 then
            (case r of b # c # d # r3 \<Rightarrow> cont b \<and> cont c \<and> cont d \<and> (a = 0xF0 \<longrightarrow> 0x90 \<le> b) \<and>
               (a = 0xF4 \<longrightarrow> b \<le> 0x8F) \<and> valid_utf8 r3 | _ \<Rightarrow> False)
          else False)"
  by pat_completeness auto
termination by (relation "measure length") auto

declare valid_utf8.simps [simp del]

definition from_utf8 :: "bytes \<Rightarrow> string option" where
  "from_utf8 bs = (if valid_utf8 bs then Some (map (\<lambda>b. char_of (unat b)) bs) else None)"

definition stored_message_of :: "(int \<Rightarrow> bool) \<Rightarrow> canonical_record \<Rightarrow> stored_message option" where
  "stored_message_of in_chrono r =
     (if in_chrono (received_at_ms r)
      then map_option (\<lambda>s. \<lparr>sm_time_received = received_at_ms r, message_source = s\<rparr>) (from_utf8 (raw_irc r))
      else None)"

definition export_canonical_records ::
    "(int \<Rightarrow> bool) \<Rightarrow> (string \<Rightarrow> server_message option) \<Rightarrow> (irc_message \<Rightarrow> string) \<Rightarrow> (nat \<Rightarrow> string) \<Rightarrow>
     canonical_record list \<Rightarrow> query_options \<Rightarrow> string list" where
  "export_canonical_records in_chrono parse_irc as_raw_irc format_duration records options =
     export_stored_messages parse_irc as_raw_irc format_duration
       (List.map_filter (stored_message_of in_chrono) records) options"

section \<open>Which frames are exported, and which are deleted\<close>

definition kept :: "server_message \<Rightarrow> bool" where
  "kept m = (case m of OtherMessage _ \<Rightarrow> False
     | Notice (Some i) _ \<Rightarrow> i \<notin> set ignored_notice_ids | _ \<Rightarrow> True)"

text \<open>Message \<open>later\<close> deletes the earlier message \<open>m\<close>.\<close>

definition deletes :: "server_message \<Rightarrow> server_message \<Rightarrow> bool" where
  "deletes later m = (case later of
       ClearChat ChatCleared _ _ \<Rightarrow> True
     | ClearChat (UserTimedOut _ u _) _ _ \<Rightarrow> sent_by u m
     | ClearChat (UserBanned _ u) _ _ \<Rightarrow> sent_by u m
     | ClearMsg i _ \<Rightarrow> has_message_id i m
     | _ \<Rightarrow> False)"

text \<open>The frames as one would specify them: every kept message, marked by any later one.\<close>

fun expected_frames :: "(int \<times> server_message) list \<Rightarrow> container_frame list" where
  "expected_frames [] = []"
| "expected_frames ((t, m) # ms) =
     (if kept m then [\<lparr>original_message = m, time_received = t,
        deleted_by_moderation = list_ex (\<lambda>(_, later). deletes later m) ms\<rparr>] else []) @ expected_frames ms"

definition parsed :: "(string \<Rightarrow> server_message option) \<Rightarrow> stored_message list \<Rightarrow> (int \<times> server_message) list" where
  "parsed parse_irc stored = List.map_filter (\<lambda>s. map_option (Pair (sm_time_received s)) (parse_irc (message_source s))) stored"

lemma append_server_message_alt:
  "append_server_message t m frames =
     map (\<lambda>f. if deletes m (original_message f) then f\<lparr>deleted_by_moderation := True\<rparr> else f) frames @
     (if kept m then [\<lparr>original_message = m, time_received = t, deleted_by_moderation = False\<rparr>] else [])"
  by (auto simp: append_server_message_def deletes_def kept_def mark_deleted_def Let_def
      split: server_message.splits clear_chat_action.splits option.splits)

lemma expected_frames_snoc:
  "expected_frames (ms @ [(t, m)]) = append_server_message t m (expected_frames ms)"
  by (induction ms) (auto simp: append_server_message_alt)

lemma foldl_append_server_message:
  "foldl (\<lambda>fs (t, m). append_server_message t m fs) [] ms = expected_frames ms"
  by (induction ms rule: rev_induct) (auto simp: expected_frames_snoc)

lemma foldl_append_stored_msg:
  "foldl (append_stored_msg parse_irc) fs stored =
     foldl (\<lambda>fs (t, m). append_server_message t m fs) fs (parsed parse_irc stored)"
  by (induction stored arbitrary: fs) (auto simp: parsed_def append_stored_msg_def split: option.splits)

lemma frames_expected:
  "foldl (append_stored_msg parse_irc) [] stored = expected_frames (parsed parse_irc stored)"
  by (simp add: foldl_append_stored_msg foldl_append_server_message)

section \<open>Tag values\<close>

text \<open>The unescaping rule of the IRCv3 message tags.\<close>

fun decode_tag_value :: "string \<Rightarrow> string" where
  "decode_tag_value [] = []"
| "decode_tag_value [c] = (if c = CHR 0x5C then [] else [c])"
| "decode_tag_value (c # d # cs) =
     (if c = CHR 0x5C
      then (if d = CHR '':'' then CHR '';'' else if d = CHR ''s'' then CHR '' ''
            else if d = CHR ''r'' then CHR 0x0D else if d = CHR ''n'' then CHR 0x0A else d) # decode_tag_value cs
      else c # decode_tag_value (d # cs))"

lemma decode_literal: "c \<noteq> CHR 0x5C \<Longrightarrow> decode_tag_value (c # cs) = c # decode_tag_value cs"
  by (cases cs) auto

lemma decode_encode_tag: "decode_tag_value (encode_tag_value v) = v"
  by (induction v) (auto simp: decode_literal)

lemma encode_tag_value_chars:
  "c \<in> set (encode_tag_value v) \<Longrightarrow> c \<noteq> CHR '';'' \<and> c \<noteq> CHR '' '' \<and> c \<noteq> CHR 0x0D \<and> c \<noteq> CHR 0x0A"
  by (induction v) (auto split: if_splits)

lemma sorted_keys_unique:
  assumes "distinct (map fst xs)" and "mset xs = mset (ys :: (string \<times> string) list)"
  shows "sort_key fst xs = sort_key fst ys"
  by (rule sort_key_inj_key_eq) (use assms in \<open>auto simp: distinct_map\<close>)

lemma exported_message_tags:
  "map_of (im_tags (exported_message fd options f)) k =
     (if k = ''rm-deleted'' \<and> deleted_by_moderation f then Some ''1''
      else if k = ''rm-received-ts'' then Some (show_int (time_received f))
      else if k = ''historical'' then Some ''1''
      else map_of (im_tags (base_message fd options (original_message f))) k)"
  by (simp add: exported_message_def add_tag_def Let_def update_conv')

section \<open>Properties\<close>

text \<open>
  C35: exporting is marking each message by the moderation messages that follow it: the frames built
  one by one are exactly the exportable messages in order, each deleted if and only if some later
  message clears the chat, times out or bans its sender, or deletes its id; and a request that hides
  moderated or moderation messages gets none of them, every other frame being exported once.
\<close>

theorem export_moderation_exact:
  assumes "frames = expected_frames (parsed parse_irc (List.map_filter (stored_message_of in_chrono) records))"
  shows "export_canonical_records in_chrono parse_irc as_raw_irc fd records options =
    map (\<lambda>f. stable_raw_irc as_raw_irc (exported_message fd options f))
      (filter (\<lambda>f. \<not> (hide_moderated_messages options \<and> deleted_by_moderation f) \<and>
         \<not> (hide_moderation_messages options \<and> is_moderation (original_message f))) frames)"
proof -
  have "List.map_filter (export_frame as_raw_irc fd options) fs =
    map (\<lambda>f. stable_raw_irc as_raw_irc (exported_message fd options f))
      (filter (\<lambda>f. \<not> (hide_moderated_messages options \<and> deleted_by_moderation f) \<and>
         \<not> (hide_moderation_messages options \<and> is_moderation (original_message f))) fs)" for fs
    by (induction fs) (auto simp: export_frame_def)
  then show ?thesis
    by (simp add: assms export_canonical_records_def export_stored_messages_def frames_expected)
qed

definition ex_irc :: irc_message where
  "ex_irc = \<lparr>im_tags = [], im_prefix = None, im_command = ''PRIVMSG'', im_params = []\<rparr>"

text \<open>A parser for the example: the first byte tells the kind of the message.\<close>

definition ex_parse :: "string \<Rightarrow> server_message option" where
  "ex_parse s = (if s = ''p'' then Some (Privmsg ''u1'' ''m1'' ex_irc)
     else if s = ''q'' then Some (Privmsg ''u2'' ''m2'' ex_irc)
     else if s = ''t'' then Some (ClearChat (UserTimedOut ''x'' ''u1'' 5) ''c'' ex_irc) else None)"

definition ex_line :: "string \<Rightarrow> canonical_record" where
  "ex_line s = \<lparr>channel_key = ''c'', event_at_ms = 1, received_at_ms = 1, event_key = utf8 s,
     source_id = [], fidelity = Unknown, raw_irc = utf8 s\<rparr>"

theorem export_moderation_exact_witness:
  "\<exists>frames. frames = expected_frames (parsed ex_parse (List.map_filter (stored_message_of (\<lambda>_. True))
       [ex_line ''p'', ex_line ''q'', ex_line ''z'', ex_line ''t''])) \<and>
     map deleted_by_moderation frames = [True, False, False] \<and>
     length (export_canonical_records (\<lambda>_. True) ex_parse im_command (\<lambda>_. [])
       [ex_line ''p'', ex_line ''q'', ex_line ''z'', ex_line ''t'']
       (default_options\<lparr>hide_moderated_messages := True\<rparr>)) = 2"
proof -
  let ?fs = "expected_frames (parsed ex_parse (List.map_filter (stored_message_of (\<lambda>_. True))
       [ex_line ''p'', ex_line ''q'', ex_line ''z'', ex_line ''t'']))"
  have d: "map deleted_by_moderation ?fs = [True, False, False]" by code_simp
  have "length (filter (\<lambda>f. \<not> (hide_moderated_messages (default_options\<lparr>hide_moderated_messages := True\<rparr>) \<and>
      deleted_by_moderation f) \<and> \<not> (hide_moderation_messages (default_options\<lparr>hide_moderated_messages := True\<rparr>)
      \<and> is_moderation (original_message f))) ?fs) = 2" by code_simp
  then show ?thesis using export_moderation_exact [OF refl] d by simp
qed

text \<open>
  The serialization of an exported message does not depend on the order in which the hash map
  gives its tags; tag values survive escaping and unescaping, and an escaped value contains neither
  a separator nor a line break; and the tags are those of the message with the history marker, the
  time of reception and, exactly for deleted messages, the deletion marker.
\<close>

theorem export_tags_exact:
  assumes "distinct (map fst (im_tags m))" and "mset ts = mset (im_tags m)"
  shows "stable_raw_irc as_raw_irc (m\<lparr>im_tags := ts\<rparr>) = stable_raw_irc as_raw_irc m \<and>
    decode_tag_value (encode_tag_value v) = v \<and>
    set (encode_tag_value v) \<inter> {CHR '';'', CHR '' '', CHR 0x0D, CHR 0x0A} = {} \<and>
    map_of (im_tags (exported_message fd options f)) =
      (let base = (map_of (im_tags (base_message fd options (original_message f))))
             (''historical'' \<mapsto> ''1'', ''rm-received-ts'' \<mapsto> show_int (time_received f))
       in if deleted_by_moderation f then base(''rm-deleted'' \<mapsto> ''1'') else base)"
proof -
  have "sort_key fst ts = sort_key fst (im_tags m)"
    by (rule sorted_keys_unique [symmetric, OF assms(1)]) (simp add: assms(2))
  then have "stable_raw_irc as_raw_irc (m\<lparr>im_tags := ts\<rparr>) = stable_raw_irc as_raw_irc m"
    by (simp add: stable_raw_irc_def Let_def)
  moreover have "set (encode_tag_value v) \<inter> {CHR '';'', CHR '' '', CHR 0x0D, CHR 0x0A} = {}"
    using encode_tag_value_chars by auto
  moreover have "map_of (im_tags (exported_message fd options f)) =
      (let base = (map_of (im_tags (base_message fd options (original_message f))))
             (''historical'' \<mapsto> ''1'', ''rm-received-ts'' \<mapsto> show_int (time_received f))
       in if deleted_by_moderation f then base(''rm-deleted'' \<mapsto> ''1'') else base)"
    by (rule ext) (simp add: exported_message_tags Let_def)
  ultimately show ?thesis using decode_encode_tag by blast
qed

theorem export_tags_exact_witness:
  "stable_raw_irc im_command (ex_irc\<lparr>im_tags := [(''b'', []), (''a'', ''x;y'')]\<rparr>) =
     stable_raw_irc im_command (ex_irc\<lparr>im_tags := [(''a'', ''x;y''), (''b'', [])]\<rparr>) \<and>
   stable_raw_irc im_command (ex_irc\<lparr>im_tags := [(''a'', ''x;y''), (''b'', [])]\<rparr>) =
     ''@a=x'' @ [CHR 0x5C] @ '':y;b PRIVMSG''"
proof
  show "stable_raw_irc im_command (ex_irc\<lparr>im_tags := [(''b'', []), (''a'', ''x;y'')]\<rparr>) =
     stable_raw_irc im_command (ex_irc\<lparr>im_tags := [(''a'', ''x;y''), (''b'', [])]\<rparr>)"
    using export_tags_exact [of "ex_irc\<lparr>im_tags := [(''a'', ''x;y''), (''b'', [])]\<rparr>"
        "[(''b'', []), (''a'', ''x;y'')]" im_command] by simp
  show "stable_raw_irc im_command (ex_irc\<lparr>im_tags := [(''a'', ''x;y''), (''b'', [])]\<rparr>) =
     ''@a=x'' @ [CHR 0x5C] @ '':y;b PRIVMSG''"
    by code_simp
qed

end
