(* ===== verification/Placement.thy ===== *)
theory Placement
  imports Records
begin

text \<open>
  Which nodes keep a channel, \<^verbatim>\<open>src/storage/placement.rs\<close>: rendezvous hashing over the members. The
  keyed hash (BLAKE3 with the context of the code) is the parameter \<open>hash\<close>, a function of the bytes
  fed to it; hashes and names compare by their bytes, as byte arrays and \<open>str\<close> do.
\<close>

record cache_placement =
  local_member :: string
  members :: "string list"
  copies :: nat

definition is_ascii_alphanumeric :: "char \<Rightarrow> bool" where
  "is_ascii_alphanumeric c \<longleftrightarrow>
     (let n = (of_char c :: nat) in (48 \<le> n \<and> n \<le> 57) \<or> (65 \<le> n \<and> n \<le> 90) \<or> (97 \<le> n \<and> n \<le> 122))"

definition valid_member :: "string \<Rightarrow> bool" where
  "valid_member m \<longleftrightarrow> m \<noteq> [] \<and> length m \<le> 64 \<and>
     list_all (\<lambda>c. is_ascii_alphanumeric c \<or> c \<in> set ''._-'') m"

definition new_placement :: "string \<Rightarrow> string list \<Rightarrow> nat \<Rightarrow> cache_placement option" where
  "new_placement me ms n =
     (let sorted_members = sort ms
      in if sorted_members = [] \<or> n = 0 \<or> n > length sorted_members \<or> me \<notin> set sorted_members \<or>
            list_ex (\<lambda>(a, b). a = b) (zip sorted_members (tl sorted_members)) \<or>
            list_ex (\<lambda>m. \<not> valid_member m) sorted_members
         then None
         else Some \<lparr>local_member = me, members = sorted_members, copies = n\<rparr>)"

definition ranked_members :: "(bytes \<Rightarrow> bytes) \<Rightarrow> cache_placement \<Rightarrow> string \<Rightarrow> (bytes \<times> string) list" where
  "ranked_members hash p channel =
     (let ch = to_ascii_lowercase channel
      in rev (sort (map (\<lambda>m. (hash (utf8 m @ [0] @ utf8 ch), m)) (members p))))"

definition owners :: "(bytes \<Rightarrow> bytes) \<Rightarrow> cache_placement \<Rightarrow> string \<Rightarrow> string list" where
  "owners hash p channel = map snd (take (copies p) (ranked_members hash p channel))"

definition retains :: "(bytes \<Rightarrow> bytes) \<Rightarrow> cache_placement \<Rightarrow> string \<Rightarrow> bool" where
  "retains hash p channel \<longleftrightarrow> local_member p \<in> set (owners hash p channel)"

section \<open>Placements\<close>

definition placement_ok :: "cache_placement \<Rightarrow> bool" where
  "placement_ok p \<longleftrightarrow> distinct (members p) \<and> 0 < copies p \<and> copies p \<le> length (members p) \<and>
     local_member p \<in> set (members p) \<and> list_all valid_member (members p)"

lemma sorted_adjacent_distinct:
  "sorted (xs :: 'a::linorder list) \<Longrightarrow> \<not> list_ex (\<lambda>(a, b). a = b) (zip xs (tl xs)) \<longleftrightarrow> distinct xs"
proof (induction xs)
  case (Cons x xs)
  then show ?case
  proof (cases xs)
    case (Cons y ys)
    have "x \<notin> set xs" if "x \<noteq> y"
      using \<open>sorted (x # xs)\<close> that by (auto simp: Cons dest: order.antisym)
    then show ?thesis using Cons.IH \<open>sorted (x # xs)\<close> by (auto simp: Cons)
  qed simp
qed simp

lemma new_placement_ok: "new_placement me ms n = Some p \<Longrightarrow>
    placement_ok p \<and> local_member p = me \<and> copies p = n \<and> mset (members p) = mset ms"
  using sorted_adjacent_distinct [of "sort ms"]
  by (auto simp: new_placement_def Let_def placement_ok_def list_ex_iff list_all_iff split: if_splits)

lemma ranked_members_snd:
  "mset (map snd (ranked_members hash p ch)) = mset (members p)"
proof -
  have "mset (map snd (ranked_members hash p ch)) = image_mset snd (mset (ranked_members hash p ch))"
    by simp
  also have "mset (ranked_members hash p ch) =
      mset (map (\<lambda>m. (hash (utf8 m @ [0] @ utf8 (to_ascii_lowercase ch)), m)) (members p))"
    by (simp add: ranked_members_def Let_def)
  finally show ?thesis by (simp add: multiset.map_comp comp_def)
qed

lemma owners_spec:
  assumes "placement_ok p"
  shows "length (owners hash p ch) = copies p" and "distinct (owners hash p ch)"
    and "set (owners hash p ch) \<subseteq> set (members p)"
proof -
  let ?r = "map snd (ranked_members hash p ch)"
  have o: "owners hash p ch = take (copies p) ?r" by (simp add: owners_def take_map)
  have "length ?r = length (members p)" using ranked_members_snd mset_eq_length by metis
  then show "length (owners hash p ch) = copies p" using assms by (simp add: owners_def placement_ok_def)
  have "distinct ?r" using ranked_members_snd assms placement_ok_def mset_eq_imp_distinct_iff by metis
  then show "distinct (owners hash p ch)" by (simp only: o distinct_take)
  have "set ?r = set (members p)" using ranked_members_snd mset_eq_setD by metis
  then show "set (owners hash p ch) \<subseteq> set (members p)" unfolding o by (metis set_take_subset)
qed

lemma take_filter_prefix:
  "(\<forall>x \<in> set (take n xs). P x) \<Longrightarrow> n \<le> length xs \<Longrightarrow> take n (filter P xs) = take n xs"
proof (induction xs arbitrary: n)
  case (Cons x xs)
  then show ?case by (cases n) auto
qed simp

lemma ranked_members_filter:
  assumes "placement_ok p" and "placement_ok p'" and "set (members p') \<subseteq> set (members p)"
  shows "ranked_members hash p' ch = filter (\<lambda>(_, m). m \<in> set (members p')) (ranked_members hash p ch)"
proof -
  let ?f = "\<lambda>m. (hash (utf8 m @ [0] @ utf8 (to_ascii_lowercase ch)), m)"
  let ?P = "\<lambda>(_ :: bytes, m). m \<in> set (members p')"
  have "mset (members p') = mset (filter (\<lambda>m. m \<in> set (members p')) (members p))"
    using assms by (intro set_eq_iff_mset_eq_distinct [THEN iffD1]) (auto simp: placement_ok_def)
  then have "mset (map ?f (members p')) = mset (filter ?P (map ?f (members p)))"
    by (simp add: filter_map comp_def)
  then have "sort (map ?f (members p')) = sort (filter ?P (map ?f (members p)))"
    by (intro properties_for_sort) simp_all
  then show ?thesis
    by (simp only: ranked_members_def Let_def rev_filter [symmetric] filter_sort)
qed

section \<open>Properties\<close>

text \<open>
  A placement gives every channel as many distinct owners as it has copies, so exactly that many
  members retain the channel, whatever the case of its name; and removing members that do not own
  the channel leaves its owners unchanged.
\<close>

theorem owners_stable:
  assumes "new_placement me ms n = Some p" and "new_placement me' ms' n = Some p'"
    and "set ms' \<subseteq> set ms" and "set (owners hash p ch) \<subseteq> set ms'"
  shows "length (owners hash p ch) = n \<and> distinct (owners hash p ch) \<and>
    set (owners hash p ch) \<subseteq> set ms \<and>
    card {m \<in> set ms. retains hash (p\<lparr>local_member := m\<rparr>) ch} = n \<and>
    owners hash p (to_ascii_lowercase ch) = owners hash p ch \<and>
    owners hash p' ch = owners hash p ch"
proof -
  note p = new_placement_ok [OF assms(1)] and p' = new_placement_ok [OF assms(2)]
  have ok: "placement_ok p" "placement_ok p'" using p p' by blast+
  note o = owners_spec [OF ok(1), of hash ch]
  have sets: "set (members p) = set ms" "set (members p') = set ms'"
    using p p' mset_eq_setD by blast+
  have "owners hash (p\<lparr>local_member := m\<rparr>) ch = owners hash p ch" for m
    by (simp add: owners_def ranked_members_def)
  then have "{m \<in> set ms. retains hash (p\<lparr>local_member := m\<rparr>) ch} = set (owners hash p ch)"
    using o(3) sets by (auto simp: retains_def)
  then have card: "card {m \<in> set ms. retains hash (p\<lparr>local_member := m\<rparr>) ch} = n"
    using o(1,2) p by (simp add: distinct_card)
  have lower: "to_ascii_lowercase (to_ascii_lowercase ch) = to_ascii_lowercase ch"
    by (auto simp: to_ascii_lowercase_def ascii_lower_def)
  have "take n (filter (\<lambda>(_, m). m \<in> set (members p')) (ranked_members hash p ch)) =
      take n (ranked_members hash p ch)"
  proof (rule take_filter_prefix)
    show "\<forall>x \<in> set (take n (ranked_members hash p ch)). case x of (_, m) \<Rightarrow> m \<in> set (members p')"
      using assms(4) p sets by (auto simp: owners_def)
    have "length (ranked_members hash p ch) = length (members p)"
      by (simp add: ranked_members_def Let_def)
    then show "n \<le> length (ranked_members hash p ch)" using ok(1) p by (simp add: placement_ok_def)
  qed
  then have "owners hash p' ch = owners hash p ch"
    using ranked_members_filter [OF ok, of hash ch] assms(3) sets p p' by (simp add: owners_def)
  moreover have "owners hash p (to_ascii_lowercase ch) = owners hash p ch"
    by (simp add: owners_def ranked_members_def lower)
  ultimately show ?thesis using o card p sets by simp
qed

text \<open>A stand-in hash, only to evaluate the definitions: the first byte of the name.\<close>

definition ex_hash :: "bytes \<Rightarrow> bytes" where "ex_hash bs = take 1 bs"

theorem owners_stable_witness:
  "owners ex_hash \<lparr>local_member = ''a'', members = [''a'', ''b'', ''c''], copies = 2\<rparr> ''X'' = [''c'', ''b''] \<and>
   owners ex_hash \<lparr>local_member = ''b'', members = [''b'', ''c''], copies = 2\<rparr> ''X'' = [''c'', ''b'']"
proof -
  let ?p = "\<lparr>local_member = ''a'', members = [''a'', ''b'', ''c''], copies = 2\<rparr>"
  let ?p' = "\<lparr>local_member = ''b'', members = [''b'', ''c''], copies = 2\<rparr>"
  have n: "new_placement ''a'' [''c'', ''a'', ''b''] 2 = Some ?p" "new_placement ''b'' [''b'', ''c''] 2 = Some ?p'"
    by code_simp+
  have o: "owners ex_hash ?p ''X'' = [''c'', ''b'']" by code_simp
  have "set (owners ex_hash ?p ''X'') \<subseteq> set [''b'', ''c'']" unfolding o by auto
  from owners_stable [OF n _ this] o show ?thesis by simp
qed

end
