(* ===== verification/ChannelPolicy.thy ===== *)
theory ChannelPolicy
  imports Prelude
begin

text \<open>
  The policy of a channel, \<open>ChannelPolicy\<close> of \<^verbatim>\<open>src/cluster.rs\<close>: whether it is ignored, whether the
  bot always joins it, and the time up to which its messages are purged.
\<close>

record channel_policy =
  cp_ignored :: bool
  cp_always_join :: bool
  cp_purge_ms :: int

definition default_policy :: channel_policy where
  "default_policy = \<lparr>cp_ignored = False, cp_always_join = False, cp_purge_ms = 0\<rparr>"

end
