(* ===== verification/Peer.thy ===== *)
theory Peer
  imports LocalQuery Placement ApiErrors ChannelPolicy
begin

unbundle bit_operations_syntax

text \<open>
  Requests between the nodes of the service, \<^verbatim>\<open>src/web/peer.rs\<close>: authentication, the hop headers that
  stop requests from being forwarded twice, delegation of a request that the local node is too
  loaded to serve, the order in which peers are asked, and the local read served to a peer.

  Headers map lower-case names to the bytes of their first value. Parameters stand for code outside
  the repository: \<open>to_str\<close> for \<open>HeaderValue::to_str\<close>, \<open>validate_login\<close> for the login check of the
  \<open>twitch_irc\<close> crate (an error carries its text), \<open>to_json\<close> and \<open>to_msgpack\<close> for the encoders. HTTP
  requests to other nodes are given by the sequence of their outcomes.
\<close>

definition hop_header :: string where "hop_header = ''x-rm-hop''"
definition no_peer_header :: string where "no_peer_header = ''x-rm-no-peer''"
definition coverage_header :: string where "coverage_header = ''x-rm-coverage''"
definition public_recent_prefix :: string where "public_recent_prefix = ''/api/v2/recent-messages/''"

section \<open>Standard library functions on strings\<close>

text \<open>\<open>str::parse::<u8>\<close>: an optional plus sign, then digits, at most 255.\<close>

fun parse_digits :: "nat \<Rightarrow> string \<Rightarrow> nat option" where
  "parse_digits acc [] = Some acc"
| "parse_digits acc (c # cs) =
     (let d = (of_char c :: nat)
      in if 48 \<le> d \<and> d \<le> 57 \<and> acc * 10 + (d - 48) \<le> 255 then parse_digits (acc * 10 + (d - 48)) cs
         else None)"

definition parse_u8 :: "string \<Rightarrow> nat option" where
  "parse_u8 s = (case s of [] \<Rightarrow> None
     | c # cs \<Rightarrow> if c = CHR ''+'' then (if cs = [] then None else parse_digits 0 cs) else parse_digits 0 s)"

definition strip_prefix :: "string \<Rightarrow> string \<Rightarrow> string option" where
  "strip_prefix p s = (if take (length p) s = p then Some (drop (length p) s) else None)"

lemma strip_prefix_Some: "strip_prefix p s = Some t \<longleftrightarrow> s = p @ t"
  by (auto simp: strip_prefix_def) (metis append_take_drop_id)

section \<open>Authentication\<close>

definition constant_time_equal :: "bytes \<Rightarrow> bytes \<Rightarrow> bool" where
  "constant_time_equal left right \<longleftrightarrow>
     (if length left \<noteq> length right then False
      else foldl (\<lambda>difference (l, r). difference OR (l XOR r)) 0 (zip left right) = 0)"

definition authorize_peer ::
    "(bytes \<Rightarrow> string option) \<Rightarrow> headers \<Rightarrow> string option \<Rightarrow> api_error + unit" where
  "authorize_peer to_str hs expected =
     and_then (ok_or PeerAccessDisabled
         (case expected of None \<Rightarrow> None | Some token \<Rightarrow> if token = [] then None else Some token)) (\<lambda>expected.
     and_then (ok_or UnauthorizedPeer
         (Option.bind (Option.bind (hs ''authorization'') to_str) (strip_prefix ''Bearer ''))) (\<lambda>supplied.
     if \<not> constant_time_equal (utf8 supplied) (utf8 expected) then Inl UnauthorizedPeer else Inr ()))"

section \<open>Hops and delegation\<close>

definition allows_peer_fetch :: "(bytes \<Rightarrow> string option) \<Rightarrow> headers \<Rightarrow> api_error + bool" where
  "allows_peer_fetch to_str hs =
     (if hs no_peer_header = Some (utf8 ''1'') then Inr False
      else
        and_then (case hs hop_header of
                    None \<Rightarrow> Inr 0
                  | Some v \<Rightarrow> ok_or InvalidPeerHop (Option.bind (to_str v) parse_u8)) (\<lambda>hop.
        if hop > 1 then Inl InvalidPeerHop else Inr (hop = 0)))"

definition delegate_target ::
    "(string \<Rightarrow> string + unit) \<Rightarrow> string \<Rightarrow> string option \<Rightarrow> (string \<times> string option) option" where
  "delegate_target validate_login path query =
     (case (case strip_prefix public_recent_prefix path of
              Some ch \<Rightarrow> Some ch | None \<Rightarrow> strip_prefix ''/api/'' path) of
        None \<Rightarrow> None
      | Some ch \<Rightarrow>
          if ch = [] \<or> CHR ''/'' \<in> set ch \<or> isl (validate_login ch) then None else Some (ch, query))"

text \<open>
  What \<open>delegate_one\<close> makes of a peer's response: \<open>error_for_status\<close> rejects 4xx and 5xx, and two
  headers survive.
\<close>

definition delegate_one :: "response option \<Rightarrow> response option" where
  "delegate_one reply =
     (case reply of None \<Rightarrow> None
      | Some r \<Rightarrow>
          if 400 \<le> rs_status r \<and> rs_status r < 600 then None
          else Some \<lparr>rs_status = rs_status r,
                 rs_headers = (\<lambda>_. None)(''content-type'' := rs_headers r ''content-type'',
                   coverage_header := rs_headers r coverage_header),
                 rs_body = rs_body r\<rparr>)"

text \<open>The first peer to answer, in the order of arrival.\<close>

fun delegate_recent :: "response option list \<Rightarrow> peer_fetch_error + response" where
  "delegate_recent [] = Inl AllFailed"
| "delegate_recent (reply # replies) =
     (case delegate_one reply of Some r \<Rightarrow> Inr r | None \<Rightarrow> delegate_recent replies)"

definition delegate_overload ::
    "(bytes \<Rightarrow> string option) \<Rightarrow> (string \<Rightarrow> string + unit) \<Rightarrow>
     (string \<Rightarrow> string option \<Rightarrow> response option list) option \<Rightarrow>
     string \<Rightarrow> string option \<Rightarrow> headers \<Rightarrow> response \<Rightarrow> response" where
  "delegate_overload to_str validate_login peers path query hs served =
     (let target = delegate_target validate_login path query;
          peer_allowed = (case allows_peer_fetch to_str hs of Inl _ \<Rightarrow> False | Inr b \<Rightarrow> b)
      in if rs_status served \<noteq> 503 \<or> rs_headers served overloaded_header \<noteq> Some (utf8 ''1'') \<or>
            \<not> peer_allowed
         then served
         else (case peers of None \<Rightarrow> served
               | Some ask \<Rightarrow> (case target of None \<Rightarrow> served
                   | Some (ch, q) \<Rightarrow> (case delegate_recent (ask ch q) of Inl _ \<Rightarrow> served | Inr r \<Rightarrow> r))))"

text \<open>The headers that \<open>serve_recent\<close> sets before it runs the public handler.\<close>

definition serve_headers :: "headers \<Rightarrow> headers" where
  "serve_headers hs = hs(hop_header \<mapsto> utf8 ''1'', no_peer_header \<mapsto> utf8 ''1'')"

definition serve_recent ::
    "(bytes \<Rightarrow> string option) \<Rightarrow> string option \<Rightarrow> (headers \<Rightarrow> response) \<Rightarrow> headers \<Rightarrow> response" where
  "serve_recent to_str token handler hs =
     (case authorize_peer to_str hs token of
        Inl e \<Rightarrow> error_response e
      | Inr _ \<Rightarrow> handler (serve_headers hs))"

section \<open>The order of the peers\<close>

record peer_node =
  node_name :: string
  base_url :: string

definition position :: "string list \<Rightarrow> string \<Rightarrow> nat option" where
  "position xs x = (if x \<in> set xs then Some (length (takeWhile (\<lambda>y. y \<noteq> x) xs)) else None)"

definition ordered_peers ::
    "(bytes \<Rightarrow> bytes) \<Rightarrow> peer_node list \<Rightarrow> cache_placement option \<Rightarrow> string \<Rightarrow> peer_node list" where
  "ordered_peers hash nodes placement channel =
     (case placement of
        None \<Rightarrow> nodes
      | Some p \<Rightarrow>
          (let os = owners hash p channel
           in sort_key (\<lambda>peer. case position os (node_name peer) of None \<Rightarrow> u64_max | Some i \<Rightarrow> i) nodes))"

section \<open>The local read served to a peer\<close>

definition local_after :: "int option \<Rightarrow> channel_policy option \<Rightarrow> int option" where
  "local_after after policy =
     (case (after, case policy of None \<Rightarrow> None
              | Some p \<Rightarrow> if cp_purge_ms p > 0 then Some (cp_purge_ms p) else None) of
        (Some a, Some b) \<Rightarrow> Some (max a b)
      | (Some a, None) \<Rightarrow> Some a
      | (None, b) \<Rightarrow> b)"

definition ends_of :: "canonical_record list \<Rightarrow> int option \<times> int option" where
  "ends_of records =
     (case records of [] \<Rightarrow> (None, None)
      | r # _ \<Rightarrow> (Some (received_at_ms r), Some (received_at_ms (last records))))"

text \<open>The reads of the application data that the handler makes.\<close>

record peer_app =
  pa_shared_token :: "string option"
  pa_max_buffer_size :: nat
  pa_is_ignored :: "string \<Rightarrow> storage_error + bool"
  pa_store_query :: "query_request \<Rightarrow> store_error + local_result"
  pa_open_query :: "(query_request \<Rightarrow> open_block_error + canonical_record list) option"
  pa_coverage :: "string \<Rightarrow> storage_error + coverage_interval list"

definition local_reply ::
    "peer_app \<Rightarrow> string \<Rightarrow> query_options \<Rightarrow> channel_policy option \<Rightarrow> api_error + peer_local_response" where
  "local_reply app channel_login options policy =
     (let lim = requested_limit options (pa_max_buffer_size app)
      in if lim = 0
         then Inr \<lparr>pr_records = [], pr_coverage = [], pr_oldest = None, pr_newest = None\<rparr>
         else
           (let request = \<lparr>qr_channel_key = to_ascii_lowercase channel_login,
                  after_ms = local_after (opt_after options) policy,
                  before_ms = opt_before options, limit = lim\<rparr>
            in and_then (map_err GetLocalMessages (pa_store_query app request)) (\<lambda>result.
               and_then (case pa_open_query app of
                           None \<Rightarrow> Inr []
                         | Some query \<Rightarrow> map_err (\<lambda>_. GetLocalMessages LockPoisoned) (query request)) (\<lambda>open.
               let records = merge_peer_records (lr_records result) open lim;
                   (oldest, newest) = ends_of records
               in and_then (map_err GetCoverage (pa_coverage app channel_login)) (\<lambda>coverage.
                  Inr \<lparr>pr_records = records, pr_coverage = coverage, pr_oldest = oldest,
                       pr_newest = newest\<rparr>)))))"

definition get_local_recent ::
    "(bytes \<Rightarrow> string option) \<Rightarrow> (string \<Rightarrow> string + unit) \<Rightarrow> peer_app \<Rightarrow>
     string option \<Rightarrow> query_options option \<Rightarrow> headers \<Rightarrow> channel_policy option
      \<Rightarrow> api_error + peer_local_response" where
  "get_local_recent to_str validate_login app path query hs policy =
     and_then (authorize_peer to_str hs (pa_shared_token app)) (\<lambda>_.
     and_then (ok_or InvalidPath path) (\<lambda>channel_login.
     and_then (ok_or InvalidQuery query) (\<lambda>options.
     and_then (map_err InvalidChannelLogin (validate_login channel_login)) (\<lambda>_.
     and_then (map_err GetChannelIgnored (pa_is_ignored app channel_login)) (\<lambda>ignored.
     if ignored then Inl (ChannelIgnored channel_login)
     else local_reply app channel_login options policy)))))"

definition local_response ::
    "(peer_local_response \<Rightarrow> bytes) \<Rightarrow> (peer_local_response \<Rightarrow> string + bytes) \<Rightarrow>
     peer_local_response \<Rightarrow> headers \<Rightarrow> api_error + response" where
  "local_response to_json to_msgpack reply hs =
     (if hs ''accept'' = Some (utf8 ''application/msgpack'')
      then and_then (map_err (\<lambda>e. GetLocalMessages (Backend e)) (to_msgpack reply)) (\<lambda>b.
           Inr \<lparr>rs_status = 200, rs_headers = (\<lambda>_. None)(''content-type'' \<mapsto> utf8 ''application/msgpack''),
                rs_body = Bytes b\<rparr>)
      else Inr \<lparr>rs_status = 200, rs_headers = (\<lambda>_. None)(''content-type'' \<mapsto> utf8 ''application/json''),
                rs_body = Bytes (to_json reply)\<rparr>)"

section \<open>Lemmas\<close>

lemma word_xor_zero: "(l :: u8) XOR r = 0 \<longleftrightarrow> l = r"
proof
  assume a: "l XOR r = 0"
  have "l = (l XOR r) XOR r" by (simp add: xor.assoc)
  then show "l = r" by (simp add: a)
qed simp

lemma foldl_or_zero:
  "foldl (\<lambda>d (l, r). d OR (l XOR r)) (a :: u8) xs = 0 \<longleftrightarrow> a = 0 \<and> (\<forall>(l, r) \<in> set xs. l = r)"
proof (induction xs arbitrary: a)
  case (Cons x xs)
  obtain l r where x: "x = (l, r)" by (cases x)
  have "a OR (l XOR r) = 0 \<longleftrightarrow> a = 0 \<and> l = r"
    by (simp add: or_eq_0_iff word_xor_zero)
  then show ?case using Cons.IH by (simp add: x)
qed simp

lemma constant_time_equal_iff: "constant_time_equal a b \<longleftrightarrow> a = b"
proof
  assume "constant_time_equal a b"
  then have "length a = length b" "\<forall>(l, r) \<in> set (zip a b). l = r"
    by (auto simp: constant_time_equal_def foldl_or_zero split: if_splits)
  then show "a = b" by (induction a b rule: list_induct2) auto
next
  assume "a = b"
  then show "constant_time_equal a b"
    by (auto simp: constant_time_equal_def foldl_or_zero set_zip)
qed

lemma authorize_peer_Inr:
  "authorize_peer to_str hs expected = Inr u \<longleftrightarrow>
     (\<exists>token v. expected = Some token \<and> token \<noteq> [] \<and> hs ''authorization'' = Some v \<and>
        to_str v = Some (''Bearer '' @ token))"
  by (auto simp: authorize_peer_def constant_time_equal_iff strip_prefix_Some Option.bind_eq_Some_conv
      split: option.splits if_splits)

lemma authorize_peer_Inl:
  "authorize_peer to_str hs expected = Inl e \<Longrightarrow>
     e = (if expected = None \<or> expected = Some [] then PeerAccessDisabled else UnauthorizedPeer)"
  by (auto simp: authorize_peer_def and_then_Inl ok_or_def split: option.splits if_splits)

lemma delegate_recent_Inr:
  "delegate_recent replies = Inr r \<Longrightarrow>
     \<exists>us reply vs. replies = us @ reply # vs \<and> (\<forall>u \<in> set us. delegate_one u = None) \<and>
        delegate_one reply = Some r"
proof (induction replies)
  case (Cons q replies)
  show ?case
  proof (cases "delegate_one q")
    case None
    then obtain us reply vs where "replies = us @ reply # vs" "\<forall>u \<in> set us. delegate_one u = None"
      "delegate_one reply = Some r"
      using Cons by auto
    then show ?thesis using None by (intro exI [of _ "q # us"] exI [of _ reply] exI [of _ vs]) simp
  next
    case (Some r')
    then show ?thesis using Cons.prems by (intro exI [of _ "[]"] exI [of _ q] exI [of _ replies]) simp
  qed
qed simp

lemma allows_peer_fetch_True:
  "allows_peer_fetch to_str hs = Inr True \<longleftrightarrow>
     hs no_peer_header \<noteq> Some (utf8 ''1'') \<and>
     (\<forall>v. hs hop_header = Some v \<longrightarrow> Option.bind (to_str v) parse_u8 = Some 0)"
  by (auto simp: allows_peer_fetch_def split: option.splits if_splits)

lemma delegate_target_Some:
  "delegate_target validate_login path query = Some (ch, q) \<Longrightarrow>
     q = query \<and> ch \<noteq> [] \<and> CHR ''/'' \<notin> set ch \<and> \<not> isl (validate_login ch) \<and>
     (path = public_recent_prefix @ ch \<or> path = ''/api/'' @ ch)"
  by (auto simp: delegate_target_def strip_prefix_Some split: option.splits if_splits)

section \<open>Properties\<close>

text \<open>
  The constant-time comparison is equality, so a peer request is authorized exactly when a
  non-empty token is configured and the request carries it; without a configured token the answer is
  that the interface does not exist, and otherwise that the peer is not authorized.
\<close>

theorem peer_authorization_exact:
  "(constant_time_equal a b \<longleftrightarrow> a = b) \<and>
   (authorize_peer to_str hs expected = Inr () \<longleftrightarrow>
      (\<exists>token v. expected = Some token \<and> token \<noteq> [] \<and> hs ''authorization'' = Some v \<and>
         to_str v = Some (''Bearer '' @ token))) \<and>
   (\<forall>e. authorize_peer to_str hs expected = Inl e \<longrightarrow>
      status_code e = (if expected = None \<or> expected = Some [] then 404 else 401))"
  using authorize_peer_Inl [of to_str hs expected] by (auto simp: constant_time_equal_iff authorize_peer_Inr)

text \<open>A stand-in for \<open>to_str\<close> on ASCII bytes, to evaluate the definitions.\<close>

definition ex_to_str :: "bytes \<Rightarrow> string option" where
  "ex_to_str bs = Some (map (\<lambda>b. char_of (unat b)) bs)"

definition ex_headers :: headers where
  "ex_headers = (\<lambda>_. None)(''authorization'' \<mapsto> utf8 ''Bearer secret'')"

theorem peer_authorization_exact_witness:
  "authorize_peer ex_to_str ex_headers (Some ''secret'') = Inr () \<and>
   (\<exists>e. authorize_peer ex_to_str ex_headers (Some ''other'') = Inl e \<and> status_code e = 401)"
proof -
  have s: "ex_to_str (utf8 ''Bearer secret'') = Some (''Bearer '' @ ''secret'')" by code_simp
  then have "authorize_peer ex_to_str ex_headers (Some ''secret'') = Inr ()"
    using peer_authorization_exact [of _ _ ex_to_str ex_headers "Some ''secret''"] by (simp add: ex_headers_def)
  moreover have "authorize_peer ex_to_str ex_headers (Some ''other'') \<noteq> Inr ()"
    using peer_authorization_exact [of _ _ ex_to_str ex_headers "Some ''other''"] s by (simp add: ex_headers_def)
  then obtain e where "authorize_peer ex_to_str ex_headers (Some ''other'') = Inl e"
    by (cases "authorize_peer ex_to_str ex_headers (Some ''other'')") auto
  ultimately show ?thesis
    using peer_authorization_exact [of _ _ ex_to_str ex_headers "Some ''other''"] by auto
qed

text \<open>
  A request is forwarded at most once. The public handler run for a peer sees headers that forbid
  peer requests and delegation; a response is replaced by a peer's only if it is the overload
  response to a request that may still be forwarded and names a valid channel, and then by the first
  response that is no error, with only its content type and coverage headers.
\<close>

theorem forwarding_once:
  assumes "r = delegate_overload to_str validate_login peers path query hs served"
  shows "allows_peer_fetch to_str (serve_headers hs) = Inr False \<and>
   delegate_overload to_str validate_login peers path query (serve_headers hs) served = served \<and>
   (r \<noteq> served \<longrightarrow>
     (\<exists>ask ch us reply vs. peers = Some ask \<and> rs_status served = 503 \<and>
        rs_headers served overloaded_header = Some (utf8 ''1'') \<and>
        hs no_peer_header \<noteq> Some (utf8 ''1'') \<and>
        (path = public_recent_prefix @ ch \<or> path = ''/api/'' @ ch) \<and> \<not> isl (validate_login ch) \<and>
        ask ch query = us @ Some reply # vs \<and> (\<forall>u \<in> set us. delegate_one u = None) \<and>
        (rs_status reply < 400 \<or> 600 \<le> rs_status reply) \<and>
        rs_status r = rs_status reply \<and> rs_body r = rs_body reply \<and>
        (\<forall>h. rs_headers r h = (if h = ''content-type'' \<or> h = coverage_header then rs_headers reply h else None))))"
proof -
  have a: "allows_peer_fetch to_str (serve_headers hs) = Inr False"
    by (simp add: allows_peer_fetch_def serve_headers_def)
  have once: "delegate_overload to_str validate_login peers path query (serve_headers hs) served = served"
    by (simp add: delegate_overload_def a)
  show ?thesis
  proof (cases "r = served")
    case False
    note False = False [unfolded assms]
    have pre: "rs_status served = 503" "rs_headers served overloaded_header = Some (utf8 ''1'')"
      "allows_peer_fetch to_str hs = Inr True"
      using False by (auto simp: delegate_overload_def Let_def split: if_splits sum.splits)
    then obtain ask ch q where ask: "peers = Some ask" "delegate_target validate_login path query = Some (ch, q)"
      "delegate_recent (ask ch q) = Inr r"
      using False by (auto simp: assms delegate_overload_def Let_def split: option.splits sum.splits)
    obtain us reply vs where rep: "ask ch q = us @ reply # vs" "\<forall>u \<in> set us. delegate_one u = None"
      "delegate_one reply = Some r"
      using delegate_recent_Inr [OF ask(3)] by blast
    obtain p where p: "reply = Some p" "rs_status p < 400 \<or> 600 \<le> rs_status p"
      "r = \<lparr>rs_status = rs_status p,
         rs_headers = (\<lambda>_. None)(''content-type'' := rs_headers p ''content-type'',
           coverage_header := rs_headers p coverage_header), rs_body = rs_body p\<rparr>"
      using rep(3) by (auto simp: delegate_one_def split: option.splits if_splits)
    have t: "q = query" "path = public_recent_prefix @ ch \<or> path = ''/api/'' @ ch" "\<not> isl (validate_login ch)"
      using delegate_target_Some [OF ask(2)] by auto
    have np: "hs no_peer_header \<noteq> Some (utf8 ''1'')" using pre(3) by (simp add: allows_peer_fetch_True)
    have "rs_status r = rs_status p \<and> rs_body r = rs_body p \<and>
        (\<forall>h. rs_headers r h = (if h = ''content-type'' \<or> h = coverage_header then rs_headers p h else None))"
      unfolding p(3) by simp
    then show ?thesis using a once pre ask(1) rep p(1,2) t np by blast
  qed (use a once in simp)
qed

definition ex_response :: "nat \<Rightarrow> response" where
  "ex_response st = \<lparr>rs_status = st, rs_headers = (\<lambda>_. None)(''server'' \<mapsto> utf8 ''x'', coverage_header \<mapsto> utf8 ''partial''),
     rs_body = Bytes [1]\<rparr>"

theorem forwarding_once_witness:
  "\<exists>r. delegate_overload ex_to_str (\<lambda>_. Inr ()) (Some (\<lambda>ch q. [Some (ex_response 500), None, Some (ex_response 200)]))
       ''/api/abc'' None ex_headers (error_response ServiceOverloaded) = r \<and>
     rs_status r = 200 \<and> rs_headers r ''server'' = None \<and> rs_headers r coverage_header = Some (utf8 ''partial'')"
proof -
  let ?r = "delegate_overload ex_to_str (\<lambda>_. Inr ()) (Some (\<lambda>ch q. [Some (ex_response 500), None, Some (ex_response 200)]))
       ''/api/abc'' None ex_headers (error_response ServiceOverloaded)"
  have st: "rs_status ?r = 200 \<and> rs_status (error_response ServiceOverloaded) = 503 \<and>
      rs_headers ?r coverage_header = Some (utf8 ''partial'')" by code_simp
  then have ne: "?r \<noteq> error_response ServiceOverloaded" by auto
  from forwarding_once [OF refl, of ex_to_str ex_headers "\<lambda>_. Inr ()"
        "Some (\<lambda>ch q. [Some (ex_response 500), None, Some (ex_response 200)])" "''/api/abc''" None
        "error_response ServiceOverloaded", THEN conjunct2, THEN conjunct2, rule_format, OF ne]
  obtain reply :: response where "\<forall>h. rs_headers ?r h =
      (if h = ''content-type'' \<or> h = coverage_header then rs_headers reply h else None)"
    by blast
  then have "rs_headers ?r ''server'' = None" by (simp add: coverage_header_def)
  then show ?thesis using st by blast
qed

end
