(* ===== verification/RecentMessages.thy ===== *)
theory RecentMessages
  imports SqliteWriter Repair MessageExport Peer
begin

text \<open>
  The public handler \<open>get_recent_messages\<close> of \<^verbatim>\<open>src/web/get_recent_messages.rs\<close>, stage by stage: guards,
  the local read, the read from peers, the external repair, and the response. The stores are explicit
  states threaded through the stages, with the operations the handler calls as the record \<open>deps\<close>;
  the tasks it spawns are listed. While it waits for an external repair the repair changes both
  stores, which is the parameter \<open>d_repair\<close>: whether the wait ended with a completion, and the states
  then.
\<close>

datatype background =
    JoinIfNeeded string
  | TouchRequested string nat nat
  | StartRepair string query_options nat int int

record ('s, 'c) deps =
  d_query :: "'s \<Rightarrow> query_request \<Rightarrow> store_error + local_result"
  d_append :: "'s \<Rightarrow> canonical_record list \<Rightarrow> (store_error + unit) \<times> 's"
  d_open :: "(query_request \<Rightarrow> open_block_error + canonical_record list) option"
  d_ignored :: "'c \<Rightarrow> string \<Rightarrow> storage_error + bool"
  d_coverage :: "'c \<Rightarrow> string \<Rightarrow> int \<Rightarrow> storage_error + coverage_interval list"
  d_record_coverage :: "'c \<Rightarrow> string \<Rightarrow> string \<Rightarrow> int \<Rightarrow> int \<Rightarrow> (storage_error + unit) \<times> 'c"
  d_checkpoints :: "'c \<Rightarrow> string \<Rightarrow> storage_error + repair_checkpoint list"
  d_peers :: "(string \<Rightarrow> query_options \<Rightarrow> nat \<Rightarrow> peer_fetch_error + peer_local_response option) option"
  d_repair :: "('s \<Rightarrow> 'c \<Rightarrow> bool \<times> 's \<times> 'c \<times> int) option"
  d_joined :: "string \<Rightarrow> bool"
  d_parse_irc :: "string \<Rightarrow> server_message option"
  d_as_raw_irc :: "irc_message \<Rightarrow> string"
  d_format_duration :: "nat \<Rightarrow> string"
  d_validate_login :: "string \<Rightarrow> string + unit"
  d_to_str :: "bytes \<Rightarrow> string option"
  d_in_chrono :: "int \<Rightarrow> bool"
  d_admitted :: bool
  d_max_buffer_size :: nat
  d_message_ttl_ms :: nat
  d_handoff_grace :: nat

record ('s, 'c) recent_state =
  rv_records :: "canonical_record list"
  rv_coverage :: "coverage_interval list"
  rv_assessment :: coverage_assessment
  rv_checkpoints :: "repair_checkpoint list"
  rv_repair :: repair_state
  rv_store :: 's
  rv_control :: 'c
  rv_spawned :: "background list"

record recent_response =
  rr_coverage :: string
  rr_messages :: "string list"
  rr_error :: "string option"
  rr_error_code :: "string option"

definition request_priority_coalesce_ms :: int where
  "request_priority_coalesce_ms = 30 * 60 * 1000"

section \<open>Guards and options\<close>

text \<open>\<open>timestamp_millis_opt(purge_ms).single()\<close> is \<open>None\<close> outside the range of \<open>chrono\<close>.\<close>

definition purge_after :: "(int \<Rightarrow> bool) \<Rightarrow> channel_policy option \<Rightarrow> int option \<Rightarrow> int option" where
  "purge_after in_chrono policy after =
     (case policy of
        None \<Rightarrow> after
      | Some p \<Rightarrow>
          if cp_purge_ms p > 0 \<and> (case after of None \<Rightarrow> True | Some a \<Rightarrow> a < cp_purge_ms p)
          then (if in_chrono (cp_purge_ms p) then Some (cp_purge_ms p) else None)
          else after)"

definition storage_options ::
    "(int \<Rightarrow> bool) \<Rightarrow> channel_policy option \<Rightarrow> int \<Rightarrow> query_options \<Rightarrow> query_options" where
  "storage_options in_chrono policy now options =
     (let snapshot_exclusive = i64_saturating_add now 1;
          o1 = options\<lparr>opt_after := purge_after in_chrono policy (opt_after options)\<rparr>
      in if (case opt_before o1 of None \<Rightarrow> True | Some b \<Rightarrow> b > snapshot_exclusive)
         then o1\<lparr>opt_before := Some snapshot_exclusive\<rparr> else o1)"

definition guard_request ::
    "('s, 'c) deps \<Rightarrow> 'c \<Rightarrow> string option \<Rightarrow> query_options option \<Rightarrow> channel_policy option
      \<Rightarrow> api_error + string \<times> query_options" where
  "guard_request deps c path query policy =
     and_then (ok_or InvalidPath path) (\<lambda>channel_login.
     and_then (ok_or InvalidQuery query) (\<lambda>options.
     and_then (map_err InvalidChannelLogin (d_validate_login deps channel_login)) (\<lambda>_.
     if \<not> d_admitted deps then Inl ServiceOverloaded
     else
       and_then (map_err GetChannelIgnored
           (case policy of Some p \<Rightarrow> Inr (cp_ignored p) | None \<Rightarrow> d_ignored deps c channel_login)) (\<lambda>ignored.
       if ignored then Inl (ChannelIgnored channel_login) else Inr (channel_login, options)))))"

definition u64_or_zero :: "int \<Rightarrow> nat" where
  "u64_or_zero i = (case u64_try_from i of None \<Rightarrow> 0 | Some n \<Rightarrow> n)"

definition spawned_tasks :: "int \<Rightarrow> string \<Rightarrow> background list" where
  "spawned_tasks now channel_login =
     [JoinIfNeeded channel_login,
      TouchRequested (to_ascii_lowercase channel_login) (u64_or_zero now)
        (u64_or_zero (i64_saturating_sub now request_priority_coalesce_ms))]"

section \<open>The local read\<close>

definition coverage_request_of :: "('s, 'c) deps \<Rightarrow> int \<Rightarrow> query_options \<Rightarrow> coverage_request" where
  "coverage_request_of deps now options =
     \<lparr>cr_after_ms = opt_after options, cr_before_ms = opt_before options,
      cr_limit = requested_limit options (d_max_buffer_size deps), now_ms = now,
      retention_ms = i64_try_from_or_max (d_message_ttl_ms deps)\<rparr>"

text \<open>\<open>assess_coverage\<close> followed by \<open>assess_repair_state\<close>, which the handler repeats after each read.\<close>

definition reassess ::
    "('s, 'c) deps \<Rightarrow> int \<Rightarrow> int \<Rightarrow> query_options \<Rightarrow> ('s, 'c) recent_state \<Rightarrow> ('s, 'c) recent_state" where
  "reassess deps now repair_now options st =
     (let a = assess_coverage (rv_records st) (rv_coverage st) (coverage_request_of deps now options)
      in st\<lparr>rv_assessment := a,
            rv_repair := assess_repair_state (rv_checkpoints st) a (rv_coverage st) repair_now
              (d_handoff_grace deps)\<rparr>)"

definition no_assessment :: coverage_assessment where
  "no_assessment = \<lparr>sufficient = False, required_start_ms = 0, required_end_ms = 0, gaps = []\<rparr>"

definition read_local ::
    "('s, 'c) deps \<Rightarrow> int \<Rightarrow> string \<Rightarrow> query_options \<Rightarrow> query_options \<Rightarrow> 's \<Rightarrow> 'c
      \<Rightarrow> api_error + ('s, 'c) recent_state" where
  "read_local deps now ch options storage s c =
     and_then (map_err GetLocalMessages
         (query_local_messages (d_query deps s) (d_open deps) ch storage (d_max_buffer_size deps))) (\<lambda>records.
     and_then (map_err GetCoverage (d_coverage deps c ch now)) (\<lambda>coverage.
     and_then (map_err GetCoverage (d_checkpoints deps c ch)) (\<lambda>checkpoints.
     Inr (reassess deps now now options
       \<lparr>rv_records = records, rv_coverage = coverage, rv_assessment = no_assessment,
        rv_checkpoints = checkpoints, rv_repair = \<lparr>best_effort = False, retry_suppressed = False\<rparr>,
        rv_store = s, rv_control = c, rv_spawned = spawned_tasks now ch\<rparr>))))"

section \<open>Peers\<close>

definition record_peer_coverage ::
    "('s, 'c) deps \<Rightarrow> string \<Rightarrow> coverage_interval list \<Rightarrow> 'c \<Rightarrow> 'c" where
  "record_peer_coverage deps ch intervals c =
     foldl (\<lambda>c i. snd (d_record_coverage deps c ch (''owned-peer:'' @ source i) (start_ms i) (end_ms i)))
       c intervals"

definition merge_peer_result ::
    "('s, 'c) deps \<Rightarrow> int \<Rightarrow> string \<Rightarrow> query_options \<Rightarrow> peer_local_response
      \<Rightarrow> ('s, 'c) recent_state \<Rightarrow> ('s, 'c) recent_state" where
  "merge_peer_result deps now ch options peer st =
     (let (persisted, s') =
            (if pr_records peer = [] then (True, rv_store st)
             else (case d_append deps (rv_store st) (pr_records peer) of
                     (Inl _, s') \<Rightarrow> (False, s') | (Inr _, s') \<Rightarrow> (True, s')));
          c' = (if persisted then record_peer_coverage deps ch (pr_coverage peer) (rv_control st)
                else rv_control st)
      in reassess deps now now options
           (st\<lparr>rv_store := s', rv_control := c',
               rv_records := merge_peer_records (rv_records st) (pr_records peer)
                 (requested_limit options (d_max_buffer_size deps)),
               rv_coverage := merge_intervals (rv_coverage st @ pr_coverage peer)\<rparr>))"

definition peer_repair ::
    "('s, 'c) deps \<Rightarrow> int \<Rightarrow> bool \<Rightarrow> string \<Rightarrow> query_options \<Rightarrow> query_options
      \<Rightarrow> ('s, 'c) recent_state \<Rightarrow> ('s, 'c) recent_state" where
  "peer_repair deps now allow_peer ch options storage st =
     (if allow_peer \<and> should_attempt_repair (rv_assessment st) (rv_coverage st) (length (rv_records st))
          (requested_limit options (d_max_buffer_size deps))
      then (case d_peers deps of
              None \<Rightarrow> st
            | Some fetch \<Rightarrow>
                (case fetch ch storage (d_max_buffer_size deps) of
                   Inr (Some peer) \<Rightarrow> merge_peer_result deps now ch options peer st
                 | _ \<Rightarrow> st))
      else st)"

section \<open>External repair\<close>

definition external_repair ::
    "('s, 'c) deps \<Rightarrow> int \<Rightarrow> bool \<Rightarrow> string \<Rightarrow> query_options \<Rightarrow> query_options
      \<Rightarrow> ('s, 'c) recent_state \<Rightarrow> api_error + ('s, 'c) recent_state" where
  "external_repair deps now allow_peer ch options storage st =
     (if allow_peer \<and> should_attempt_repair (rv_assessment st) (rv_coverage st) (length (rv_records st))
          (requested_limit options (d_max_buffer_size deps)) \<and> \<not> retry_suppressed (rv_repair st)
      then (case d_repair deps of
              None \<Rightarrow> Inr st
            | Some run \<Rightarrow>
                (let started = st\<lparr>rv_spawned := rv_spawned st @ [StartRepair ch storage
                       (d_max_buffer_size deps) (required_start_ms (rv_assessment st))
                       (required_end_ms (rv_assessment st))]\<rparr>
                 in case run (rv_store st) (rv_control st) of
                      (completed, s', c', repair_now) \<Rightarrow>
                        if \<not> completed then Inr (started\<lparr>rv_store := s', rv_control := c'\<rparr>)
                        else
                          and_then (map_err GetLocalMessages (query_local_messages (d_query deps s')
                              (d_open deps) ch storage (d_max_buffer_size deps))) (\<lambda>records.
                          and_then (map_err GetCoverage (d_checkpoints deps c' ch)) (\<lambda>checkpoints.
                          Inr (reassess deps now repair_now options (started\<lparr>rv_store := s', rv_control := c',
                            rv_records := records, rv_checkpoints := checkpoints\<rparr>))))))
      else Inr st)"

section \<open>The response\<close>

definition exported_messages ::
    "('s, 'c) deps \<Rightarrow> query_options \<Rightarrow> canonical_record list \<Rightarrow> string list" where
  "exported_messages deps options records =
     export_canonical_records (d_in_chrono deps) (d_parse_irc deps) (d_as_raw_irc deps)
       (d_format_duration deps) records options"

definition recent_response_of ::
    "('s, 'c) deps \<Rightarrow> string \<Rightarrow> query_options \<Rightarrow> ('s, 'c) recent_state \<Rightarrow> recent_response" where
  "recent_response_of deps ch options st =
     (let messages = exported_messages deps options (rv_records st);
          confirmed = d_joined deps ch \<or> messages \<noteq> []
      in \<lparr>rr_coverage = (if sufficient (rv_assessment st) then ''complete''
                         else if best_effort (rv_repair st) then ''best-effort'' else ''partial''),
          rr_messages = messages,
          rr_error = (if confirmed then None else Some
            ''The bot is currently not joined to this channel (in progress or failed previously)''),
          rr_error_code = (if confirmed then None else Some ''channel_not_joined'')\<rparr>)"

definition get_recent_messages ::
    "('s, 'c) deps \<Rightarrow> int \<Rightarrow> string option \<Rightarrow> query_options option \<Rightarrow> headers \<Rightarrow> channel_policy option
      \<Rightarrow> 's \<Rightarrow> 'c \<Rightarrow> api_error + recent_response \<times> ('s, 'c) recent_state" where
  "get_recent_messages deps now path query hs policy s c =
     and_then (guard_request deps c path query policy) (\<lambda>(ch, options).
       let storage = storage_options (d_in_chrono deps) policy now options
       in and_then (read_local deps now ch options storage s c) (\<lambda>st.
          and_then (allows_peer_fetch (d_to_str deps) hs) (\<lambda>allow_peer.
          and_then (external_repair deps now allow_peer ch options storage
              (peer_repair deps now allow_peer ch options storage st)) (\<lambda>st'.
          Inr (recent_response_of deps ch options st', st')))))"

section \<open>Lemmas\<close>

text \<open>The stage's assessments are those of its records and coverage.\<close>

definition assessed :: "('s, 'c) deps \<Rightarrow> int \<Rightarrow> query_options \<Rightarrow> ('s, 'c) recent_state \<Rightarrow> bool" where
  "assessed deps now options st \<longleftrightarrow>
     rv_assessment st = assess_coverage (rv_records st) (rv_coverage st) (coverage_request_of deps now options) \<and>
     length (rv_records st) \<le> requested_limit options (d_max_buffer_size deps) \<and>
     sorted (map received_order (rv_records st)) \<and> distinct (map event_key (rv_records st))"

text \<open>Where records come from: the store at the time of some read, the open blocks, or a peer.\<close>

definition read_from ::
    "('s, 'c) deps \<Rightarrow> string \<Rightarrow> query_options \<Rightarrow> 's \<Rightarrow> canonical_record \<Rightarrow> bool" where
  "read_from deps ch storage s r \<longleftrightarrow>
     (\<exists>rs. query_local_messages (d_query deps s) (d_open deps) ch storage (d_max_buffer_size deps) = Inr rs \<and>
        r \<in> set rs)"

lemma requested_limit_storage:
  "requested_limit (storage_options in_chrono policy now options) n = requested_limit options n"
  by (simp add: requested_limit_def storage_options_def Let_def)

lemma merge_peer_records_shape:
  "sorted (map received_order (merge_peer_records a b n)) \<and> distinct (map event_key (merge_peer_records a b n)) \<and>
     length (merge_peer_records a b n) \<le> n \<and> set (merge_peer_records a b n) \<subseteq> set a \<union> set b"
  using merge_peer_records_newest [of n a b] best_copies_spec(1) [of _ "a @ b"] best_copyD(2)
  by (fastforce simp: newest_def)

lemma query_local_messages_shape:
  "query_local_messages store opn ch options n = Inr rs \<Longrightarrow>
     sorted (map received_order rs) \<and> distinct (map event_key rs) \<and> length rs \<le> requested_limit options n"
  using merge_peer_records_shape by (auto simp: query_local_messages_def Let_def split: if_splits)

lemma reassess_simps [simp]:
  "rv_records (reassess deps now t options st) = rv_records st"
  "rv_coverage (reassess deps now t options st) = rv_coverage st"
  "rv_store (reassess deps now t options st) = rv_store st"
  "rv_assessment (reassess deps now t options st) =
     assess_coverage (rv_records st) (rv_coverage st) (coverage_request_of deps now options)"
  by (simp_all add: reassess_def Let_def)

lemma read_local_spec:
  assumes "read_local deps now ch options (storage_options f policy now options) s c = Inr st"
  shows "assessed deps now options st \<and>
    (\<forall>r \<in> set (rv_records st). read_from deps ch (storage_options f policy now options) s r) \<and>
    d_coverage deps c ch now = Inr (rv_coverage st)"
proof -
  let ?o = "storage_options f policy now options"
  obtain rs where "query_local_messages (d_query deps s) (d_open deps) ch ?o (d_max_buffer_size deps) = Inr rs"
    "rv_records st = rs" "d_coverage deps c ch now = Inr (rv_coverage st)"
    "rv_assessment st = assess_coverage rs (rv_coverage st) (coverage_request_of deps now options)"
    using assms by (auto simp: read_local_def)
  then show ?thesis
    using query_local_messages_shape [of "d_query deps s" "d_open deps" ch ?o "d_max_buffer_size deps" rs]
    by (auto simp: assessed_def read_from_def requested_limit_storage)
qed

lemma merge_peer_result_simps:
  "rv_records (merge_peer_result deps now ch options peer st) =
     merge_peer_records (rv_records st) (pr_records peer) (requested_limit options (d_max_buffer_size deps))"
  "rv_assessment (merge_peer_result deps now ch options peer st) =
     assess_coverage (rv_records (merge_peer_result deps now ch options peer st))
       (rv_coverage (merge_peer_result deps now ch options peer st)) (coverage_request_of deps now options)"
  by (simp_all add: merge_peer_result_def Let_def case_prod_unfold)

lemma merge_peer_result_assessed:
  "assessed deps now options (merge_peer_result deps now ch options peer st)"
  using merge_peer_records_shape [of "rv_records st" "pr_records peer"]
  by (simp add: assessed_def merge_peer_result_simps)

lemma peer_repair_cases:
  obtains (same) "peer_repair deps now allow ch options storage st = st"
    | (merged) fetch peer where "allow" "d_peers deps = Some fetch"
        "fetch ch storage (d_max_buffer_size deps) = Inr (Some peer)"
        "peer_repair deps now allow ch options storage st = merge_peer_result deps now ch options peer st"
proof (cases "allow \<and> should_attempt_repair (rv_assessment st) (rv_coverage st) (length (rv_records st))
    (requested_limit options (d_max_buffer_size deps))")
  case attempt: True
  show thesis
  proof (cases "d_peers deps")
    case None
    then show thesis using same attempt by (simp add: peer_repair_def)
  next
    case (Some fetch)
    show thesis
    proof (cases "fetch ch storage (d_max_buffer_size deps)")
      case (Inl e)
      then show thesis using same attempt Some by (simp add: peer_repair_def)
    next
      case (Inr answer)
      then show thesis
        using same merged [of fetch] attempt Some by (cases answer) (simp_all add: peer_repair_def)
    qed
  qed
next
  case False
  then show thesis using same by (simp only: peer_repair_def if_False)
qed

lemma peer_repair_assessed:
  assumes "assessed deps now options st"
  shows "assessed deps now options (peer_repair deps now allow ch options storage st)"
  using assms
  by (cases rule: peer_repair_cases [of deps now allow ch options storage st])
     (simp_all add: merge_peer_result_assessed)

lemma peer_repair_records:
  assumes "r \<in> set (rv_records (peer_repair deps now allow ch options storage st))"
  shows "r \<in> set (rv_records st) \<or> (allow \<and> (\<exists>fetch peer. d_peers deps = Some fetch \<and>
    fetch ch storage (d_max_buffer_size deps) = Inr (Some peer) \<and> r \<in> set (pr_records peer)))"
proof (cases rule: peer_repair_cases [of deps now allow ch options storage st])
  case (merged fetch peer)
  then have "r \<in> set (rv_records st) \<union> set (pr_records peer)"
    using assms merge_peer_records_shape [of "rv_records st" "pr_records peer"]
    by (auto simp: merge_peer_result_simps)
  then show ?thesis using merged by blast
qed (use assms in simp)

lemma external_repair_spec:
  assumes "assessed deps now options st"
    and "external_repair deps now allow ch options (storage_options f policy now options) st = Inr st'"
  shows "assessed deps now options st' \<and>
    (rv_records st' = rv_records st \<or>
      (allow \<and> (\<exists>run done t. d_repair deps = Some run \<and>
         run (rv_store st) (rv_control st) = (done, rv_store st', rv_control st', t) \<and>
         (\<forall>r \<in> set (rv_records st'). read_from deps ch (storage_options f policy now options) (rv_store st') r))))"
proof (cases "allow \<and> should_attempt_repair (rv_assessment st) (rv_coverage st) (length (rv_records st))
    (requested_limit options (d_max_buffer_size deps)) \<and> \<not> retry_suppressed (rv_repair st)")
  case attempt: True
  let ?o = "storage_options f policy now options"
  show ?thesis
  proof (cases "d_repair deps")
    case None
    then show ?thesis using assms attempt by (simp add: external_repair_def)
  next
    case (Some run)
    obtain completed s' c' t where run: "run (rv_store st) (rv_control st) = (completed, s', c', t)"
      by (rule prod_cases4)
    show ?thesis
    proof (cases completed)
      case False
      then have "rv_records st' = rv_records st \<and> rv_assessment st' = rv_assessment st \<and>
          rv_coverage st' = rv_coverage st"
        using assms(2) attempt Some run by (auto simp: external_repair_def Let_def)
      then show ?thesis using assms(1) by (simp add: assessed_def)
    next
      case True
      then obtain rs where rs: "query_local_messages (d_query deps s') (d_open deps) ch ?o
          (d_max_buffer_size deps) = Inr rs" "rv_records st' = rs" "rv_store st' = s'" "rv_control st' = c'"
        "rv_assessment st' = assess_coverage rs (rv_coverage st') (coverage_request_of deps now options)"
        using assms(2) attempt Some run by (auto simp: external_repair_def Let_def reassess_def)
      have "assessed deps now options st'"
        using rs query_local_messages_shape [OF rs(1)] by (simp add: assessed_def requested_limit_storage)
      moreover have "\<forall>r \<in> set (rv_records st'). read_from deps ch ?o (rv_store st') r"
        using rs by (auto simp: read_from_def)
      ultimately show ?thesis using attempt Some run rs(3,4) by blast
    qed
  qed
next
  case False
  then show ?thesis using assms by (simp only: external_repair_def if_False) simp
qed


text \<open>Where the records of an answer come from.\<close>

lemma recent_records_from:
  assumes "read_local deps now ch options (storage_options (d_in_chrono deps) policy now options) s c = Inr st"
    and "external_repair deps now allow ch options (storage_options (d_in_chrono deps) policy now options)
       (peer_repair deps now allow ch options (storage_options (d_in_chrono deps) policy now options) st)
       = Inr st'"
  shows "assessed deps now options st' \<and>
    (\<forall>r \<in> set (rv_records st'). read_from deps ch (storage_options (d_in_chrono deps) policy now options) s r \<or>
       (allow \<and> (\<exists>fetch peer. d_peers deps = Some fetch \<and>
          fetch ch (storage_options (d_in_chrono deps) policy now options) (d_max_buffer_size deps) = Inr (Some peer) \<and>
          r \<in> set (pr_records peer))) \<or>
       (allow \<and> d_repair deps \<noteq> None \<and>
          read_from deps ch (storage_options (d_in_chrono deps) policy now options) (rv_store st') r))"
proof -
  let ?w = "storage_options (d_in_chrono deps) policy now options"
  let ?st = "peer_repair deps now allow ch options ?w st"
  have local: "assessed deps now options st" "\<forall>r \<in> set (rv_records st). read_from deps ch ?w s r"
    using read_local_spec [OF assms(1)] by auto
  have ext: "assessed deps now options st'" "rv_records st' = rv_records ?st \<or>
      (allow \<and> d_repair deps \<noteq> None \<and> (\<forall>r \<in> set (rv_records st'). read_from deps ch ?w (rv_store st') r))"
    using external_repair_spec [OF peer_repair_assessed [OF local(1)] assms(2)] by auto
  have "\<forall>r \<in> set (rv_records ?st). read_from deps ch ?w s r \<or>
       (allow \<and> (\<exists>fetch peer. d_peers deps = Some fetch \<and>
          fetch ch ?w (d_max_buffer_size deps) = Inr (Some peer) \<and> r \<in> set (pr_records peer)))"
    using peer_repair_records [of _ deps now allow ch options ?w st] local(2) by blast
  then show ?thesis using ext by auto
qed

text \<open>The whole handler, as its stages.\<close>

lemma get_recent_messages_Inr:
  assumes "get_recent_messages deps now path query hs policy s c = Inr (reply, st')"
  obtains ch options st allow where
    "guard_request deps c path query policy = Inr (ch, options)"
    "read_local deps now ch options (storage_options (d_in_chrono deps) policy now options) s c = Inr st"
    "allows_peer_fetch (d_to_str deps) hs = Inr allow"
    "external_repair deps now allow ch options (storage_options (d_in_chrono deps) policy now options)
       (peer_repair deps now allow ch options (storage_options (d_in_chrono deps) policy now options) st)
       = Inr st'"
    "reply = recent_response_of deps ch options st'"
  using assms by (auto simp: get_recent_messages_def Let_def)

lemma guard_request_Inr:
  "guard_request deps c path query policy = Inr (ch, options) \<longleftrightarrow>
     path = Some ch \<and> query = Some options \<and> d_validate_login deps ch = Inr () \<and> d_admitted deps \<and>
     (case policy of Some p \<Rightarrow> \<not> cp_ignored p | None \<Rightarrow> d_ignored deps c ch = Inr False)"
  by (cases policy) (auto simp: guard_request_def)

lemma get_recent_messages_refused:
  "guard_request deps c path query policy = Inl e \<Longrightarrow>
     get_recent_messages deps now path query hs policy s c = Inl e"
  by (simp add: get_recent_messages_def)

lemma purge_after_le:
  assumes "\<And>p. policy = Some p \<Longrightarrow> f (cp_purge_ms p)"
  shows "(\<forall>a. purge_after f policy after = Some a \<longrightarrow> a < x) \<longleftrightarrow>
     (\<forall>a. after = Some a \<longrightarrow> a < x) \<and> (\<forall>p. policy = Some p \<and> cp_purge_ms p > 0 \<longrightarrow> cp_purge_ms p < x)"
  using assms by (cases policy; cases after) (auto simp: purge_after_def)

lemma storage_options_window:
  assumes "\<And>p. policy = Some p \<Longrightarrow> f (cp_purge_ms p)" and "0 \<le> now" and "now < i64_max"
    and "options' = storage_options f policy now options"
  shows "(\<forall>a. opt_after options' = Some a \<longrightarrow> a < x) \<and> (\<forall>b. opt_before options' = Some b \<longrightarrow> x < b) \<longleftrightarrow>
    (\<forall>a. opt_after options = Some a \<longrightarrow> a < x) \<and> (\<forall>b. opt_before options = Some b \<longrightarrow> x < b) \<and>
    x \<le> now \<and> (\<forall>p. policy = Some p \<and> cp_purge_ms p > 0 \<longrightarrow> cp_purge_ms p < x)"
proof -
  have after: "opt_after options' = purge_after f policy (opt_after options)"
    by (simp add: assms(4) storage_options_def Let_def)
  have snap: "i64_saturating_add now 1 = now + 1" using assms(2,3) by (simp add: i64_saturating_add_def sat_i64_def int_defs)
  have before: "opt_before options' =
      Some (case opt_before options of None \<Rightarrow> now + 1 | Some b \<Rightarrow> min b (now + 1))"
    by (auto simp: assms(4) storage_options_def Let_def snap split: option.splits)
  have "(\<forall>a. opt_after options' = Some a \<longrightarrow> a < x) \<longleftrightarrow>
      (\<forall>a. opt_after options = Some a \<longrightarrow> a < x) \<and>
      (\<forall>p. policy = Some p \<and> cp_purge_ms p > 0 \<longrightarrow> cp_purge_ms p < x)"
    unfolding after by (rule purge_after_le [of policy f, OF assms(1)])
  moreover have "(\<forall>b. opt_before options' = Some b \<longrightarrow> x < b) \<longleftrightarrow>
      (\<forall>b. opt_before options = Some b \<longrightarrow> x < b) \<and> x \<le> now"
    unfolding before by (cases "opt_before options") auto
  ultimately show ?thesis by blast
qed


section \<open>Properties\<close>

text \<open>
  C6: the public answer is sound. It is given only for a valid login, an admitted request and a channel
  that is not ignored; its messages are the export of at most the requested number of records, in
  order and one per event, each of which was read from the local store or the open blocks inside the
  stored window, came from a peer the request may ask, or was read again after a repair; it is marked
  complete exactly when the recorded coverage is sufficient for these records, and it carries the error
  code exactly when there is nothing to show and the channel is not joined.
\<close>

theorem recent_response_sound:
  assumes "get_recent_messages deps now path query hs policy s c = Inr (reply, st')"
  shows "\<exists>ch options allow window. path = Some ch \<and> query = Some options \<and>
    d_validate_login deps ch = Inr () \<and> d_admitted deps \<and>
    (case policy of Some p \<Rightarrow> \<not> cp_ignored p | None \<Rightarrow> d_ignored deps c ch = Inr False) \<and>
    allows_peer_fetch (d_to_str deps) hs = Inr allow \<and>
    window = storage_options (d_in_chrono deps) policy now options \<and>
    rr_messages reply = exported_messages deps options (rv_records st') \<and>
    length (rv_records st') \<le> requested_limit options (d_max_buffer_size deps) \<and>
    sorted (map received_order (rv_records st')) \<and> distinct (map event_key (rv_records st')) \<and>
    (\<forall>r \<in> set (rv_records st'). read_from deps ch window s r \<or>
       (allow \<and> (\<exists>fetch peer. d_peers deps = Some fetch \<and>
          fetch ch window (d_max_buffer_size deps) = Inr (Some peer) \<and> r \<in> set (pr_records peer))) \<or>
       (allow \<and> d_repair deps \<noteq> None \<and> read_from deps ch window (rv_store st') r)) \<and>
    (rr_coverage reply = ''complete'' \<longleftrightarrow> sufficient (assess_coverage (rv_records st') (rv_coverage st')
       (coverage_request_of deps now options))) \<and>
    (rr_error_code reply \<noteq> None \<longleftrightarrow> rr_messages reply = [] \<and> \<not> d_joined deps ch)"
proof -
  obtain ch options st allow where run:
    "guard_request deps c path query policy = Inr (ch, options)"
    "read_local deps now ch options (storage_options (d_in_chrono deps) policy now options) s c = Inr st"
    "allows_peer_fetch (d_to_str deps) hs = Inr allow"
    "external_repair deps now allow ch options (storage_options (d_in_chrono deps) policy now options)
       (peer_repair deps now allow ch options (storage_options (d_in_chrono deps) policy now options) st)
       = Inr st'"
    "reply = recent_response_of deps ch options st'"
    using assms by (rule get_recent_messages_Inr)
  let ?w = "storage_options (d_in_chrono deps) policy now options"
  have from_some: "\<forall>r \<in> set (rv_records st'). read_from deps ch ?w s r \<or>
       (allow \<and> (\<exists>fetch peer. d_peers deps = Some fetch \<and>
          fetch ch ?w (d_max_buffer_size deps) = Inr (Some peer) \<and> r \<in> set (pr_records peer))) \<or>
       (allow \<and> d_repair deps \<noteq> None \<and> read_from deps ch ?w (rv_store st') r)"
    and ext: "assessed deps now options st'"
    using recent_records_from [OF run(2,4)] by simp_all
  have reply: "rr_messages reply = exported_messages deps options (rv_records st')"
    "rr_coverage reply = ''complete'' \<longleftrightarrow> sufficient (rv_assessment st')"
    "rr_error_code reply \<noteq> None \<longleftrightarrow> rr_messages reply = [] \<and> \<not> d_joined deps ch"
    by (simp_all add: run(5) recent_response_of_def Let_def)
  show ?thesis
    by (intro exI [of _ ch] exI [of _ options] exI [of _ allow] exI [of _ ?w] conjI)
       (use run(1,3) guard_request_Inr [of deps c path query policy ch options] reply from_some ext in
         \<open>simp_all add: assessed_def\<close>)
qed

definition ex_deps :: "(sqlite_db, unit) deps" where
  "ex_deps = \<lparr>d_query = sql_query ex_codec,
     d_append = sql_append_batch ex_codec ex_cfg,
     d_open = Some (\<lambda>q. Inr (open_query q ex_manager)),
     d_ignored = (\<lambda>_ _. Inr False), d_coverage = (\<lambda>_ _ _. Inr []),
     d_record_coverage = (\<lambda>c _ _ _ _. (Inr (), c)), d_checkpoints = (\<lambda>_ _. Inr []),
     d_peers = None, d_repair = None, d_joined = (\<lambda>_. True),
     d_parse_irc = ex_parse, d_as_raw_irc = im_command, d_format_duration = (\<lambda>_. []),
     d_validate_login = (\<lambda>_. Inr ()), d_to_str = (\<lambda>_. None), d_in_chrono = (\<lambda>_. True),
     d_admitted = True, d_max_buffer_size = 5, d_message_ttl_ms = 1000, d_handoff_grace = 0\<rparr>"

theorem recent_response_sound_witness:
  "\<exists>reply st. get_recent_messages ex_deps 100 (Some ''A'') (Some default_options) (\<lambda>_. None)
      (Some \<lparr>cp_ignored = False, cp_always_join = False, cp_purge_ms = 1\<rparr>) ex_db () = Inr (reply, st) \<and>
    (\<forall>r \<in> set (rv_records st). read_from ex_deps ''A'' (storage_options (\<lambda>_. True)
      (Some \<lparr>cp_ignored = False, cp_always_join = False, cp_purge_ms = 1\<rparr>) 100 default_options) ex_db r) \<and>
    length (rv_records st) \<le> 5"
proof -
  let ?p = "Some \<lparr>cp_ignored = False, cp_always_join = False, cp_purge_ms = 1\<rparr>"
  have "\<not> isl (get_recent_messages ex_deps 100 (Some ''A'') (Some default_options) (\<lambda>_. None) ?p ex_db ())"
    by code_simp
  then obtain reply st where run: "get_recent_messages ex_deps 100 (Some ''A'') (Some default_options)
      (\<lambda>_. None) ?p ex_db () = Inr (reply, st)"
    by (cases "get_recent_messages ex_deps 100 (Some ''A'') (Some default_options) (\<lambda>_. None) ?p ex_db ()")
       auto
  show ?thesis
    using run recent_response_sound [OF run] by (auto simp: ex_deps_def requested_limit_def default_options_def)
qed


lemma open_held_distinct:
  assumes "open_inv m"
  shows "distinct (map event_key (open_held ch m))"
proof (cases "map_of (om_blocks m) ch")
  case (Some b)
  then have "block_inv (ol_block_messages (om_limits m)) ch b"
    using assms unfolding open_inv_def open_inv_at_def by blast
  then show ?thesis by (simp add: open_held_def Some block_inv_distinct)
qed (simp add: open_held_def)



end
