(* ===== verification/ResponseCache.thy ===== *)
theory ResponseCache
  imports Peer
begin

text \<open>
  The response cache used under load, \<^verbatim>\<open>src/web/response_cache.rs\<close>: bounded by entries and bytes, evicting
  in the order of insertion, consulted only while the node is under pressure. An \<open>Instant\<close> and a
  \<open>Duration\<close> are nanoseconds. The hash map is an association list; nothing depends on its order. The
  two mutexes are sequential access, and metrics are left out.
\<close>

record cache_config =
  max_age :: nat
  pressure_hold :: nat
  enter_inflight :: nat
  max_entries :: nat
  max_bytes :: nat
  max_entry_bytes :: nat

record cached_response =
  inserted_at :: nat
  c_content_type :: "bytes option"
  c_coverage :: "bytes option"
  c_body :: bytes

record cache_state =
  cs_entries :: "(string \<times> cached_response) list"
  insertion_order :: "string list"
  cs_bytes :: nat

type_synonym pressure_state = "nat option"

datatype cache_config_error = InvalidLimits | EntryExceedsTotal

definition empty_cache :: cache_state where
  "empty_cache = \<lparr>cs_entries = [], insertion_order = [], cs_bytes = 0\<rparr>"

definition cache_from_config :: "bool \<Rightarrow> cache_config \<Rightarrow> cache_config_error + cache_config option" where
  "cache_from_config enabled cfg =
     (if \<not> enabled then Inr None
      else if max_age cfg = 0 \<or> pressure_hold cfg = 0 \<or> enter_inflight cfg = 0 \<or> max_entries cfg = 0 \<or>
          max_bytes cfg = 0 \<or> max_entry_bytes cfg = 0 then Inl InvalidLimits
      else if max_entry_bytes cfg > max_bytes cfg then Inl EntryExceedsTotal
      else Inr (Some cfg))"

text \<open>\<open>Instant::checked_add\<close>: seconds in an \<open>i64\<close>, nanoseconds below a second.\<close>

definition instant_checked_add :: "nat \<Rightarrow> nat \<Rightarrow> nat option" where
  "instant_checked_add a d = (if a + d < 9223372036854775808 * 1000000000 then Some (a + d) else None)"

definition pressure_active :: "cache_config \<Rightarrow> nat \<Rightarrow> nat \<Rightarrow> pressure_state \<Rightarrow> bool \<times> pressure_state" where
  "pressure_active cfg active_requests now until =
     (let until' = (if active_requests \<ge> enter_inflight cfg
                    then instant_checked_add now (pressure_hold cfg) else until);
          active = (case until' of None \<Rightarrow> False | Some u \<Rightarrow> u > now)
      in (active, if active then until' else None))"

definition remove_entry :: "string \<Rightarrow> cache_state \<Rightarrow> cache_state" where
  "remove_entry key s =
     (let s' = (case map_of (cs_entries s) key of
                  None \<Rightarrow> s
                | Some removed \<Rightarrow> s\<lparr>cs_entries := filter (\<lambda>(k, v). k \<noteq> key) (cs_entries s),
                    cs_bytes := u64_saturating_sub (cs_bytes s) (length (c_body removed))\<rparr>)
      in s'\<lparr>insertion_order := filter (\<lambda>k. k \<noteq> key) (insertion_order s')\<rparr>)"

definition cache_get :: "cache_config \<Rightarrow> string \<Rightarrow> nat \<Rightarrow> cache_state \<Rightarrow> cached_response option \<times> cache_state" where
  "cache_get cfg key now s =
     (case map_of (cs_entries s) key of
        None \<Rightarrow> (None, s)
      | Some e \<Rightarrow>
          if u64_saturating_sub now (inserted_at e) > max_age cfg then (None, remove_entry key s)
          else (Some e, s))"

text \<open>The eviction loop, over the queue of insertions.\<close>

fun evict_entries ::
    "cache_config \<Rightarrow> string list \<Rightarrow> (string \<times> cached_response) list \<Rightarrow> nat \<Rightarrow> cache_state" where
  "evict_entries cfg [] es n = \<lparr>cs_entries = es, insertion_order = [], cs_bytes = n\<rparr>"
| "evict_entries cfg (oldest # order) es n =
     (if length es > max_entries cfg \<or> n > max_bytes cfg
      then (case map_of es oldest of
              None \<Rightarrow> evict_entries cfg order es n
            | Some removed \<Rightarrow> evict_entries cfg order (filter (\<lambda>(k, v). k \<noteq> oldest) es)
                (u64_saturating_sub n (length (c_body removed))))
      else \<lparr>cs_entries = es, insertion_order = oldest # order, cs_bytes = n\<rparr>)"

definition cache_insert :: "cache_config \<Rightarrow> string \<Rightarrow> cached_response \<Rightarrow> cache_state \<Rightarrow> cache_state" where
  "cache_insert cfg key r s =
     (let s1 = remove_entry key s
      in evict_entries cfg (insertion_order s1 @ [key]) (AList.update key r (cs_entries s1))
           (u64_saturating_add (cs_bytes s1) (length (c_body r))))"

definition cached_to_response :: "cached_response \<Rightarrow> response" where
  "cached_to_response r =
     \<lparr>rs_status = 200,
      rs_headers = (\<lambda>_. None)(''content-type'' := c_content_type r, coverage_header := c_coverage r),
      rs_body = Bytes (c_body r)\<rparr>"

text \<open>
  A response on its way out: its size hint (lower and upper bound of the body) and what reading
  the body gives, \<open>None\<close> when that fails or exceeds the given maximum.
\<close>

record pending_response =
  pd_status :: nat
  pd_headers :: headers
  pd_lower :: nat
  pd_upper :: "nat option"
  pd_body :: "bytes option"

definition to_bytes :: "bytes option \<Rightarrow> nat \<Rightarrow> bytes option" where
  "to_bytes b n = (case b of None \<Rightarrow> None | Some bs \<Rightarrow> if length bs \<le> n then Some bs else None)"

datatype outgoing = Forwarded pending_response | Built response

text \<open>\<open>usize::try_from\<close> of a \<open>u64\<close> never fails on 64-bit platforms.\<close>

definition capture_response ::
    "cache_config \<Rightarrow> string \<Rightarrow> pending_response \<Rightarrow> nat \<Rightarrow> cache_state \<Rightarrow> outgoing \<times> cache_state" where
  "capture_response cfg key r now s =
     (if pd_status r \<noteq> 200 then (Forwarded r, s)
      else (case pd_upper r of
          None \<Rightarrow> (Forwarded r, s)
        | Some upper \<Rightarrow>
            if upper \<noteq> pd_lower r \<or> upper > max_entry_bytes cfg then (Forwarded r, s)
            else (case to_bytes (pd_body r) (max_entry_bytes cfg) of
                None \<Rightarrow> (Built \<lparr>rs_status = 500, rs_headers = (\<lambda>_. None), rs_body = Bytes []\<rparr>, s)
              | Some b \<Rightarrow>
                  (Built \<lparr>rs_status = pd_status r, rs_headers = pd_headers r, rs_body = Bytes b\<rparr>,
                   cache_insert cfg key
                     \<lparr>inserted_at = now, c_content_type = pd_headers r ''content-type'',
                      c_coverage = pd_headers r coverage_header, c_body = b\<rparr> s))))"

text \<open>The middleware for one request; \<open>served\<close> is what the handler would answer.\<close>

definition adaptive_response_cache ::
    "cache_config \<Rightarrow> string \<Rightarrow> nat \<Rightarrow> nat \<Rightarrow> pending_response \<Rightarrow> cache_state \<times> pressure_state
      \<Rightarrow> outgoing \<times> cache_state \<times> pressure_state" where
  "adaptive_response_cache cfg key active_requests now served st =
     (case st of (s, p) \<Rightarrow>
        (case pressure_active cfg active_requests now p of (active, p') \<Rightarrow>
           (case (if active then cache_get cfg key now s else (None, s)) of
              (Some hit, s') \<Rightarrow> (Built (cached_to_response hit), s', p')
            | (None, s') \<Rightarrow>
                (case capture_response cfg key served now s' of (r, s'') \<Rightarrow> (r, s'', p')))))"

text \<open>The key: URI, peer mode and purge cutoff.\<close>

definition show_bool :: "bool \<Rightarrow> string" where
  "show_bool b = (if b then ''true'' else ''false'')"

definition cache_key :: "(bytes \<Rightarrow> string option) \<Rightarrow> string \<Rightarrow> headers \<Rightarrow> channel_policy option \<Rightarrow> string" where
  "cache_key to_str uri hs policy =
     (let peer_mode = (case allows_peer_fetch to_str hs of Inl _ \<Rightarrow> False | Inr b \<Rightarrow> b);
          purge_ms = (case policy of None \<Rightarrow> 0 | Some p \<Rightarrow> cp_purge_ms p)
      in uri @ ''|peer='' @ show_bool peer_mode @ ''|purge='' @ show_int purge_ms)"

section \<open>The invariant of the cache\<close>

definition total_bytes :: "(string \<times> cached_response) list \<Rightarrow> nat" where
  "total_bytes es = sum_list (map (\<lambda>(k, r). length (c_body r)) es)"

text \<open>Entries, queue and byte count agree.\<close>

definition cache_shape :: "cache_state \<Rightarrow> bool" where
  "cache_shape s \<longleftrightarrow> distinct (map fst (cs_entries s)) \<and> distinct (insertion_order s) \<and>
     set (insertion_order s) = fst ` set (cs_entries s) \<and> cs_bytes s = total_bytes (cs_entries s)"

definition cache_bounded :: "cache_config \<Rightarrow> cache_state \<Rightarrow> bool" where
  "cache_bounded cfg s \<longleftrightarrow> length (cs_entries s) \<le> max_entries cfg \<and> cs_bytes s \<le> max_bytes cfg"

lemma total_bytes_filter:
  assumes "distinct (map fst es)" and "map_of es k = Some r"
  shows "total_bytes es = length (c_body r) + total_bytes (filter (\<lambda>(k', v). k' \<noteq> k) es)"
  using sum_list_remove_key [OF assms, of "\<lambda>(k, r). length (c_body r)"] by (simp add: total_bytes_def)

lemma total_bytes_filter_le: "total_bytes (filter P es) \<le> total_bytes es"
  by (induction es) (auto simp: total_bytes_def)

lemma filter_neq_id: "map_of es k = None \<Longrightarrow> filter (\<lambda>(k', v). k' \<noteq> k) es = es"
  by (force simp: map_of_eq_None_iff filter_id_conv)

lemma remove_entry_spec:
  assumes "cache_shape s"
  shows "cache_shape (remove_entry k s)"
    and "map_of (cs_entries (remove_entry k s)) = (map_of (cs_entries s))(k := None)"
    and "cs_entries (remove_entry k s) = filter (\<lambda>(k', v). k' \<noteq> k) (cs_entries s)"
    and "insertion_order (remove_entry k s) = filter (\<lambda>k'. k' \<noteq> k) (insertion_order s)"
    and "cs_bytes (remove_entry k s) \<le> cs_bytes s"
proof -
  show e: "cs_entries (remove_entry k s) = filter (\<lambda>(k', v). k' \<noteq> k) (cs_entries s)"
    using filter_neq_id [of "cs_entries s" k]
    by (auto simp: remove_entry_def Let_def split: option.splits)
  show i: "insertion_order (remove_entry k s) = filter (\<lambda>k'. k' \<noteq> k) (insertion_order s)"
    by (simp add: remove_entry_def Let_def split: option.splits)
  have b: "cs_bytes (remove_entry k s) = total_bytes (filter (\<lambda>(k', v). k' \<noteq> k) (cs_entries s))"
    using assms total_bytes_filter [of "cs_entries s" k] filter_neq_id [of "cs_entries s" k]
    by (auto simp: remove_entry_def Let_def cache_shape_def u64_saturating_sub_def split: option.splits)
  show "map_of (cs_entries (remove_entry k s)) = (map_of (cs_entries s))(k := None)"
    unfolding e by (rule ext) (simp add: map_of_filter_key [where P = "\<lambda>k'. k' \<noteq> k"])
  show "cs_bytes (remove_entry k s) \<le> cs_bytes s"
    using assms total_bytes_filter_le by (simp add: b cache_shape_def)
  show "cache_shape (remove_entry k s)"
    using assms unfolding cache_shape_def e i b
    by (auto simp: distinct_fst_filter intro: rev_image_eqI)
qed

lemma evict_entries_spec:
  assumes "distinct (map fst es)" and "distinct order" and "set order = fst ` set es"
    and "n = total_bytes es" and "s = evict_entries cfg order es n"
  shows "cache_shape s \<and> cache_bounded cfg s \<and> map_of (cs_entries s) \<subseteq>\<^sub>m map_of es \<and>
    (\<exists>us. order = us @ insertion_order s)"
  using assms
proof (induction cfg order es n rule: evict_entries.induct)
  case (1 cfg es n)
  then show ?case by (simp add: cache_shape_def cache_bounded_def total_bytes_def)
next
  case (2 cfg k order es n)
  obtain r where r: "map_of es k = Some r"
    using "2.prems"(3) by (metis list.set_intros(1) map_of_eq_None_iff not_None_eq)
  show ?case
  proof (cases "length es > max_entries cfg \<or> n > max_bytes cfg")
    case False
    then show ?thesis using "2.prems" by (simp add: cache_shape_def cache_bounded_def)
  next
    case True
    let ?es = "filter (\<lambda>(k', v). k' \<noteq> k) es"
    have s: "s = evict_entries cfg order ?es (u64_saturating_sub n (length (c_body r)))"
      using True r "2.prems"(5) by simp
    have d: "distinct (map fst ?es)" "distinct order" "set order = fst ` set ?es"
      using "2.prems"(1,2,3) unfolding keys_filter_neq by (auto simp: distinct_fst_filter)
    have n: "u64_saturating_sub n (length (c_body r)) = total_bytes ?es"
      using total_bytes_filter [OF "2.prems"(1) r] "2.prems"(4) by (simp add: u64_saturating_sub_def)
    have IH: "cache_shape s \<and> cache_bounded cfg s \<and> map_of (cs_entries s) \<subseteq>\<^sub>m map_of ?es \<and>
        (\<exists>us. order = us @ insertion_order s)"
      by (rule "2.IH"(2) [OF True r d n s])
    have "map_of ?es \<subseteq>\<^sub>m map_of es"
      by (auto simp: map_le_def map_of_filter_key [where P = "\<lambda>k'. k' \<noteq> k"] split: if_splits)
    moreover obtain us where "order = us @ insertion_order s" using IH by blast
    then have "k # order = (k # us) @ insertion_order s" by simp
    ultimately show ?thesis using IH map_le_trans by blast
  qed
qed

text \<open>An entry that fits alone survives its own insertion: the loop reaches it last.\<close>

lemma evict_entries_keeps_last:
  assumes "distinct (map fst es)" and "distinct (order @ [k])" and "set (order @ [k]) = fst ` set es"
    and "n = total_bytes es" and "map_of es k = Some r" and "length (c_body r) \<le> max_bytes cfg"
    and "0 < max_entries cfg"
  shows "map_of (cs_entries (evict_entries cfg (order @ [k]) es n)) k = Some r"
  using assms
proof (induction order arbitrary: es n)
  case Nil
  have "set (map fst es) = {k}" using Nil.prems(3) by simp
  then have "length es = 1" using distinct_card [OF Nil.prems(1)] by simp
  then obtain x where "es = [x]" by (cases es) auto
  then have "es = [(k, r)]" using Nil.prems(5) by (cases x) (auto split: if_splits)
  then show ?case using Nil.prems by (simp add: total_bytes_def)
next
  case (Cons a order)
  obtain q where q: "map_of es a = Some q"
    using Cons.prems(3) by (metis append_Cons list.set_intros(1) map_of_eq_None_iff not_None_eq)
  show ?case
  proof (cases "length es > max_entries cfg \<or> n > max_bytes cfg")
    case False
    then show ?thesis using Cons.prems(5) by simp
  next
    case True
    let ?es = "filter (\<lambda>(k', v). k' \<noteq> a) es"
    have ne: "a \<noteq> k" using Cons.prems(2) by auto
    have "map_of (cs_entries (evict_entries cfg (order @ [k]) ?es (total_bytes ?es))) k = Some r"
    proof (rule Cons.IH)
      show "set (order @ [k]) = fst ` set ?es"
        using Cons.prems(2,3) unfolding keys_filter_neq by auto
      show "map_of ?es k = Some r"
        using Cons.prems(5) ne by (simp add: map_of_filter_key [where P = "\<lambda>k'. k' \<noteq> a"])
    qed (use Cons.prems in \<open>simp_all add: distinct_fst_filter\<close>)
    then show ?thesis
      using True q total_bytes_filter [OF Cons.prems(1) q] Cons.prems(4) by (simp add: u64_saturating_sub_def)
  qed
qed

lemma cache_insert_spec:
  assumes "cache_shape s" and "cache_bounded cfg s" and "length (c_body r) + max_bytes cfg \<le> u64_max"
  shows "cache_shape (cache_insert cfg k r s) \<and> cache_bounded cfg (cache_insert cfg k r s) \<and>
    map_of (cs_entries (cache_insert cfg k r s)) \<subseteq>\<^sub>m (map_of (cs_entries s))(k \<mapsto> r) \<and>
    (\<exists>us. filter (\<lambda>k'. k' \<noteq> k) (insertion_order s) @ [k] = us @ insertion_order (cache_insert cfg k r s)) \<and>
    (length (c_body r) \<le> max_bytes cfg \<longrightarrow> 0 < max_entries cfg \<longrightarrow>
      map_of (cs_entries (cache_insert cfg k r s)) k = Some r)"
proof -
  let ?s = "remove_entry k s" and ?es = "AList.update k r (cs_entries (remove_entry k s))"
  note rm = remove_entry_spec [OF assms(1), of k]
  have none: "map_of (cs_entries ?s) k = None" by (simp add: rm(2))
  have up: "?es = cs_entries ?s @ [(k, r)]"
    using none by (rule update_fresh)
  have shape: "distinct (map fst ?es)" "distinct (insertion_order ?s @ [k])"
    "set (insertion_order ?s @ [k]) = fst ` set ?es"
    using rm(1) none by (auto simp: cache_shape_def distinct_update dom_update map_of_eq_None_iff)
  have "cs_bytes ?s + length (c_body r) \<le> u64_max"
    using rm(5) assms(2,3) by (simp add: cache_bounded_def)
  then have n: "u64_saturating_add (cs_bytes ?s) (length (c_body r)) = total_bytes ?es"
    using rm(1) by (simp add: up cache_shape_def total_bytes_def u64_saturating_add_def)
  have ins: "cache_insert cfg k r s = evict_entries cfg (insertion_order ?s @ [k]) ?es (total_bytes ?es)"
    by (simp add: cache_insert_def Let_def n)
  have m: "map_of ?es = (map_of (cs_entries s))(k \<mapsto> r)" by (simp add: update_conv' rm(2))
  note ev = evict_entries_spec [OF shape refl ins]
  have "map_of (cs_entries (cache_insert cfg k r s)) k = Some r"
    if "length (c_body r) \<le> max_bytes cfg" "0 < max_entries cfg"
    unfolding ins by (rule evict_entries_keeps_last [OF shape refl _ that]) (simp add: m)
  then show ?thesis using ev m rm(4) by auto
qed

section \<open>Reachable caches\<close>

text \<open>The requests of a history: key, in-flight count, time and the handler's response.\<close>

type_synonym cache_request = "string \<times> nat \<times> nat \<times> pending_response"

fun run_cache ::
    "cache_config \<Rightarrow> cache_request list \<Rightarrow> cache_state \<times> pressure_state \<Rightarrow> cache_state \<times> pressure_state" where
  "run_cache cfg [] st = st"
| "run_cache cfg ((k, n, now, r) # rs) st =
     run_cache cfg rs (snd (adaptive_response_cache cfg k n now r st))"

definition captured :: "cache_config \<Rightarrow> string \<Rightarrow> cached_response \<Rightarrow> cache_request \<Rightarrow> bool" where
  "captured cfg k c q \<longleftrightarrow> (case q of (k', n, now, r) \<Rightarrow> k' = k \<and> inserted_at c = now \<and> pd_status r = 200 \<and>
     pd_body r = Some (c_body c) \<and> length (c_body c) \<le> max_entry_bytes cfg \<and>
     c_content_type c = pd_headers r ''content-type'' \<and> c_coverage c = pd_headers r coverage_header)"

definition config_ok :: "cache_config \<Rightarrow> bool" where
  "config_ok cfg \<longleftrightarrow> cache_from_config True cfg = Inr (Some cfg) \<and> max_entry_bytes cfg + max_bytes cfg \<le> u64_max"

lemma config_okD: "config_ok cfg \<Longrightarrow> max_entry_bytes cfg \<le> max_bytes cfg \<and> 0 < max_entries cfg"
  by (auto simp: config_ok_def cache_from_config_def split: if_splits)

lemma cache_get_spec:
  assumes "cache_shape s" and "cache_bounded cfg s" and "cache_get cfg k now s = (hit, s')"
  shows "cache_shape s' \<and> cache_bounded cfg s' \<and> map_of (cs_entries s') \<subseteq>\<^sub>m map_of (cs_entries s) \<and>
    (\<forall>c. hit = Some c \<longrightarrow> s' = s \<and> map_of (cs_entries s) k = Some c \<and> now - inserted_at c \<le> max_age cfg)"
proof (cases "map_of (cs_entries s) k")
  case None
  then show ?thesis using assms by (simp add: cache_get_def)
next
  case (Some e)
  note rm = remove_entry_spec [OF assms(1), of k]
  have "cache_bounded cfg (remove_entry k s)"
    using assms(2) rm(5) by (auto simp: cache_bounded_def rm(3) intro: order_trans [OF length_filter_le])
  then show ?thesis
    using Some assms rm(1,2)
    by (auto simp: cache_get_def u64_saturating_sub_def map_le_def split: if_splits)
qed

definition cache_inv :: "cache_config \<Rightarrow> cache_request list \<Rightarrow> cache_state \<Rightarrow> bool" where
  "cache_inv cfg qs s \<longleftrightarrow> cache_shape s \<and> cache_bounded cfg s \<and>
     (\<forall>k c. map_of (cs_entries s) k = Some c \<longrightarrow> (\<exists>q \<in> set qs. captured cfg k c q))"

lemma capture_response_inv:
  assumes "config_ok cfg" and "cache_inv cfg qs s"
    and "capture_response cfg k r now s = (res, s')"
  shows "cache_inv cfg (qs @ [(k, n, now, r)]) s'"
proof -
  have old: "cache_inv cfg (qs @ [(k, n, now, r)]) s" using assms(2) by (auto simp: cache_inv_def)
  show ?thesis
  proof (cases "s' = s")
    case False
    then obtain b where b: "pd_status r = 200" "pd_body r = Some b" "length b \<le> max_entry_bytes cfg"
      "s' = cache_insert cfg k \<lparr>inserted_at = now, c_content_type = pd_headers r ''content-type'',
          c_coverage = pd_headers r coverage_header, c_body = b\<rparr> s"
      using assms(3) by (auto simp: capture_response_def to_bytes_def split: if_splits option.splits)
    let ?c = "\<lparr>inserted_at = now, c_content_type = pd_headers r ''content-type'',
          c_coverage = pd_headers r coverage_header, c_body = b\<rparr>"
    have "length (c_body ?c) + max_bytes cfg \<le> u64_max"
      using assms(1) b(3) by (simp add: config_ok_def)
    note ins = cache_insert_spec [OF _ _ this, of s k]
    have cap: "captured cfg k ?c (k, n, now, r)" using b by (simp add: captured_def)
    have "\<exists>q \<in> set (qs @ [(k, n, now, r)]). captured cfg k' c q"
      if "map_of (cs_entries s') k' = Some c" for k' c
    proof -
      have "((map_of (cs_entries s))(k \<mapsto> ?c)) k' = Some c"
        using that ins assms(2) b(4) by (auto simp: cache_inv_def map_le_def dom_def)
      then show ?thesis using cap assms(2) by (auto simp: cache_inv_def split: if_splits)
    qed
    then show ?thesis using ins assms(2) b(4) by (simp add: cache_inv_def)
  qed (use old in simp)
qed

lemma adaptive_response_cache_inv:
  assumes "config_ok cfg" and "cache_inv cfg qs s"
    and "adaptive_response_cache cfg k n now r (s, p) = (res, s', p')"
  shows "cache_inv cfg (qs @ [(k, n, now, r)]) s'"
proof -
  obtain active p1 where pa: "pressure_active cfg n now p = (active, p1)" by fastforce
  obtain hit s1 where g: "(if active then cache_get cfg k now s else (None, s)) = (hit, s1)" by fastforce
  have s1: "cache_inv cfg qs s1"
    using g cache_get_spec [of s cfg k now hit s1] assms(2)
    by (auto simp: cache_inv_def map_le_def dom_def split: if_splits)
  show ?thesis
  proof (cases hit)
    case (Some c)
    then have "s' = s1" using assms(3) pa g by (simp add: adaptive_response_cache_def)
    then show ?thesis using s1 by (auto simp: cache_inv_def)
  next
    case None
    obtain res' s2 where c: "capture_response cfg k r now s1 = (res', s2)" by fastforce
    then have "s' = s2" using assms(3) pa g None by (simp add: adaptive_response_cache_def)
    then show ?thesis using capture_response_inv [OF assms(1) s1 c] by simp
  qed
qed

lemma run_cache_inv:
  assumes "config_ok cfg" and "cache_inv cfg qs s" and "run_cache cfg rs (s, p) = (s', p')"
  shows "cache_inv cfg (qs @ rs) s'"
  using assms(2,3)
proof (induction rs arbitrary: qs s p)
  case (Cons q rs)
  obtain k n now r where q: "q = (k, n, now, r)" by (cases q) auto
  obtain res s1 p1 where step: "adaptive_response_cache cfg k n now r (s, p) = (res, s1, p1)" by (metis prod_cases3)
  have "cache_inv cfg (qs @ [q]) s1"
    using adaptive_response_cache_inv [OF assms(1) Cons.prems(1) step] by (simp add: q)
  then have "cache_inv cfg ((qs @ [q]) @ rs) s'"
    by (rule Cons.IH) (use Cons.prems(2) step q in simp)
  then show ?case by simp
qed simp

lemma cache_inv_empty: "cache_inv cfg [] empty_cache"
  by (simp add: cache_inv_def cache_shape_def cache_bounded_def empty_cache_def total_bytes_def)

section \<open>Keys\<close>

lemma show_int_no_bar: "CHR ''|'' \<notin> set (show_int i)"
  using show_nat_no_char by (auto simp: show_int_def)

lemma first_bar_inject:
  "x @ c # a = y @ c # b \<Longrightarrow> c \<notin> set x \<Longrightarrow> c \<notin> set y \<Longrightarrow> a = b \<and> x = y"
proof (induction x arbitrary: y)
  case Nil
  then show ?case by (cases y) auto
next
  case (Cons d x)
  then show ?case by (cases y) auto
qed

lemma last_bar_inject:
  assumes "a @ c # x = b @ c # y" and "c \<notin> set x" and "c \<notin> set y"
  shows "a = b \<and> x = y"
proof -
  have "rev x @ c # rev a = rev y @ c # rev b"
    using arg_cong [OF assms(1), of rev] by simp
  then have "rev a = rev b \<and> rev x = rev y" by (rule first_bar_inject) (use assms(2,3) in simp_all)
  then show ?thesis by simp
qed

lemma key_inject:
  assumes "u @ ''|peer='' @ show_bool b @ ''|purge='' @ show_int i =
      u' @ ''|peer='' @ show_bool b' @ ''|purge='' @ show_int i'"
  shows "u = u' \<and> b = b' \<and> i = i'"
proof -
  have "(u @ ''|peer='' @ show_bool b) @ CHR ''|'' # (''purge='' @ show_int i) =
      (u' @ ''|peer='' @ show_bool b') @ CHR ''|'' # (''purge='' @ show_int i')"
    using assms by simp
  then have 1: "u @ ''|peer='' @ show_bool b = u' @ ''|peer='' @ show_bool b' \<and>
    ''purge='' @ show_int i = ''purge='' @ show_int i'"
    by (rule last_bar_inject) (simp_all add: show_int_no_bar)
  then have "u @ CHR ''|'' # (''peer='' @ show_bool b) = u' @ CHR ''|'' # (''peer='' @ show_bool b')" by simp
  then have "u = u' \<and> ''peer='' @ show_bool b = ''peer='' @ show_bool b'"
    by (rule last_bar_inject) (simp_all add: show_bool_def)
  then show ?thesis using 1 show_int_inject by (auto simp: show_bool_def split: if_splits)
qed

section \<open>Properties\<close>

text \<open>
  Two requests share a cache key exactly when they have the same URI, the same permission to ask
  peers and the same purge cutoff, so a response stored before a purge is never served after it.
\<close>

theorem cache_key_exact:
  "cache_key to_str uri hs policy = cache_key to_str uri' hs' policy' \<longleftrightarrow>
     uri = uri' \<and>
     (allows_peer_fetch to_str hs = Inr True \<longleftrightarrow> allows_peer_fetch to_str hs' = Inr True) \<and>
     (case policy of None \<Rightarrow> 0 | Some p \<Rightarrow> cp_purge_ms p) =
     (case policy' of None \<Rightarrow> 0 | Some p \<Rightarrow> cp_purge_ms p)"
proof -
  have b: "(case x of Inl _ \<Rightarrow> False | Inr v \<Rightarrow> v) = (x = Inr True)" for x :: "api_error + bool"
    by (cases x) auto
  show ?thesis
    unfolding cache_key_def Let_def b
    by (rule iffI, drule key_inject) simp_all
qed

text \<open>
  C38: After any history of requests the cache respects both bounds, its byte count is the sum of the
  stored bodies, its queue lists every stored key once, and every stored response was captured for
  the same key from a successful handler response of the history, small enough, with its body and
  its two headers.
\<close>

theorem cache_reachable:
  assumes "config_ok cfg" and "run_cache cfg qs (empty_cache, None) = (s, p)"
  shows "length (cs_entries s) \<le> max_entries cfg \<and> cs_bytes s \<le> max_bytes cfg \<and>
    cs_bytes s = sum_list (map (\<lambda>(k, r). length (c_body r)) (cs_entries s)) \<and>
    distinct (insertion_order s) \<and> set (insertion_order s) = fst ` set (cs_entries s) \<and>
    (\<forall>(k, c) \<in> set (cs_entries s). \<exists>q \<in> set qs. captured cfg k c q)"
proof -
  have inv: "cache_inv cfg qs s"
    using run_cache_inv [OF assms(1) cache_inv_empty assms(2)] by simp
  have "\<exists>q \<in> set qs. captured cfg k c q" if "(k, c) \<in> set (cs_entries s)" for k c
  proof -
    have "map_of (cs_entries s) k = Some c" using that inv by (simp add: cache_inv_def cache_shape_def)
    then show ?thesis using inv unfolding cache_inv_def by blast
  qed
  then have "\<forall>(k, c) \<in> set (cs_entries s). \<exists>q \<in> set qs. captured cfg k c q" by blast
  then show ?thesis
    using inv by (simp add: cache_inv_def cache_shape_def cache_bounded_def total_bytes_def)
qed

definition ex_cache_config :: cache_config where
  "ex_cache_config = \<lparr>max_age = 10, pressure_hold = 5, enter_inflight = 1, max_entries = 1, max_bytes = 4,
     max_entry_bytes = 3\<rparr>"

definition ex_pending :: "bytes \<Rightarrow> pending_response" where
  "ex_pending b = \<lparr>pd_status = 200, pd_headers = (\<lambda>_. None)(''server'' \<mapsto> [0]), pd_lower = length b,
     pd_upper = Some (length b), pd_body = Some b\<rparr>"

definition ex_history :: "cache_request list" where
  "ex_history = [(''a'', 0, 1, ex_pending [1, 2]), (''b'', 0, 2, ex_pending [3]), (''b'', 1, 6, ex_pending [4])]"

lemma ex_cache_config_ok: "config_ok ex_cache_config"
  by (simp add: config_ok_def cache_from_config_def ex_cache_config_def int_defs)

theorem cache_reachable_witness:
  "\<exists>s p. run_cache ex_cache_config ex_history (empty_cache, None) = (s, p) \<and> length (cs_entries s) = 1 \<and>
     length (cs_entries s) \<le> max_entries ex_cache_config"
proof -
  obtain s p where r: "run_cache ex_cache_config ex_history (empty_cache, None) = (s, p)" by fastforce
  moreover have "length (cs_entries (fst (run_cache ex_cache_config ex_history (empty_cache, None)))) = 1"
    by code_simp
  ultimately show ?thesis using cache_reachable [OF ex_cache_config_ok r] by auto
qed

text \<open>
  C17: without pressure the client gets the handler's response, or an empty error when the body of a
  response to be stored cannot be read. A stored response is served only under pressure: it was
  captured for the same key at most the maximal age ago, and the client gets its body and its two
  headers. Pressure lasts at most the hold time after the last overloaded request.
\<close>

theorem cache_transparent:
  assumes "config_ok cfg" and "run_cache cfg qs (empty_cache, None) = (s, p)"
    and "adaptive_response_cache cfg k n now r (s, p) = (res, s', p')"
  shows "(\<exists>c q. q \<in> set qs \<and> captured cfg k c q \<and> now - inserted_at c \<le> max_age cfg \<and>
        (\<exists>u. p' = Some u \<and> now < u) \<and> s' = s \<and>
        res = Built \<lparr>rs_status = 200, rs_headers = (\<lambda>_. None)(''content-type'' := c_content_type c,
          coverage_header := c_coverage c), rs_body = Bytes (c_body c)\<rparr>) \<or>
     res = Forwarded r \<or>
     (\<exists>b. pd_body r = Some b \<and>
       res = Built \<lparr>rs_status = pd_status r, rs_headers = pd_headers r, rs_body = Bytes b\<rparr>) \<or>
     (to_bytes (pd_body r) (max_entry_bytes cfg) = None \<and> pd_status r = 200 \<and>
       res = Built \<lparr>rs_status = 500, rs_headers = (\<lambda>_. None), rs_body = Bytes []\<rparr>)"
proof -
  have inv: "cache_inv cfg qs s"
    using run_cache_inv [OF assms(1) cache_inv_empty assms(2)] by simp
  obtain active p1 where pa: "pressure_active cfg n now p = (active, p1)" by fastforce
  obtain hit s1 where g: "(if active then cache_get cfg k now s else (None, s)) = (hit, s1)" by fastforce
  show ?thesis
  proof (cases hit)
    case (Some c)
    then have act: "active" using g by (auto split: if_splits)
    then have u: "\<exists>u. p1 = Some u \<and> now < u"
      using pa by (auto simp: pressure_active_def Let_def split: option.splits if_splits)
    have c: "s1 = s" "map_of (cs_entries s) k = Some c" "now - inserted_at c \<le> max_age cfg"
      using cache_get_spec [of s cfg k now hit s1] g act Some inv by (auto simp: cache_inv_def)
    then obtain q where "q \<in> set qs" "captured cfg k c q" using inv unfolding cache_inv_def by blast
    moreover have "res = Built \<lparr>rs_status = 200, rs_headers = (\<lambda>_. None)(''content-type'' := c_content_type c,
          coverage_header := c_coverage c), rs_body = Bytes (c_body c)\<rparr>" "s' = s" "p' = p1"
      using assms(3) pa g Some c(1) by (auto simp: adaptive_response_cache_def cached_to_response_def)
    ultimately show ?thesis using c(3) u by blast
  next
    case None
    then have "res = fst (capture_response cfg k r now s1)"
      using assms(3) pa g by (auto simp: adaptive_response_cache_def split: prod.splits)
    then show ?thesis
      by (auto simp: capture_response_def to_bytes_def split: option.splits if_splits)
  qed
qed

theorem cache_transparent_witness:
  "\<exists>s p res s' p' c. run_cache ex_cache_config ex_history (empty_cache, None) = (s, p) \<and>
     adaptive_response_cache ex_cache_config ''b'' 1 7 (ex_pending [9]) (s, p) = (res, s', p') \<and>
     res = Built c \<and> rs_body c = Bytes [3] \<and> (\<exists>d q. q \<in> set ex_history \<and> captured ex_cache_config ''b'' d q)"
proof -
  obtain s p where r: "run_cache ex_cache_config ex_history (empty_cache, None) = (s, p)" by fastforce
  obtain res s' p' where a: "adaptive_response_cache ex_cache_config ''b'' 1 7 (ex_pending [9]) (s, p) = (res, s', p')"
    by (metis prod_cases3)
  have "(case fst (adaptive_response_cache ex_cache_config ''b'' 1 7 (ex_pending [9])
      (run_cache ex_cache_config ex_history (empty_cache, None))) of
        Forwarded _ \<Rightarrow> False | Built c \<Rightarrow> rs_body c = Bytes [3])"
    by code_simp
  then obtain c where c: "res = Built c" "rs_body c = Bytes [3]" using a r by (auto split: outgoing.splits)
  then have "\<exists>d q. q \<in> set ex_history \<and> captured ex_cache_config ''b'' d q"
    using cache_transparent [OF ex_cache_config_ok r a]
    by (elim disjE exE conjE) (blast | force simp: ex_pending_def)+
  then show ?thesis using r a c by blast
qed

end
