(* ===== verification/Cluster.thy ===== *)
theory Cluster
  imports ApiErrors ChannelPolicy
begin

text \<open>
  The replicated control state of \<^verbatim>\<open>src/cluster.rs\<close>: the owner's database of channel policies and
  sessions, the mutations of the owner, the snapshots it sends, and how a replica accepts them. A
  database is its three tables; a statement that fails leaves the transaction's state unchanged.
  SQLite's numeric reading of a text stored in an INTEGER column is the parameter \<open>numeric\<close>, and
  \<open>validate_login\<close> is that of \<open>twitch_irc\<close>. Errors that come from SQLite carry a fixed text.
\<close>

text \<open>\<open>serde_json::Value\<close>: \<open>JNumber\<close> is a number with an \<open>as_i64\<close>, \<open>JOther\<close> any other number, array
  or object.\<close>

datatype json = JNull | JBool bool | JNumber int | JString string | JOther

text \<open>A value in a table; a real number by its floor, which decides comparisons with integers.\<close>

datatype sql_value = SqlNull | SqlInteger int | SqlText string | SqlReal int

record cluster_db =
  rm_channel :: "(string \<times> channel_policy) list"
  rm_auth :: "sql_value list list"
  rm_metadata :: "(string \<times> string) list"

record snapshot =
  sn_epoch :: string
  sn_revision :: int
  sn_channels :: "json list list"
  sn_sessions :: "json list list"

record user_authorization =
  ua_access_token :: string
  ua_twitch_access_token :: string
  ua_twitch_refresh_token :: string
  ua_validated_ms :: int
  ua_valid_until_ms :: int
  ua_user_id :: string
  ua_user_login :: string
  ua_user_name :: string
  ua_profile_image_url :: string

datatype mutation =
    Ignore string bool
  | PurgeTo string int
  | Pin string bool nat
  | ReplacePins "string list"
  | BootstrapPins "string list"
  | SaveAuth user_authorization bool
  | Revoke string

definition unavailable :: storage_error where
  "unavailable = ClusterUnavailable"

definition empty_cluster_db :: cluster_db where
  "empty_cluster_db = \<lparr>rm_channel = [], rm_auth = [], rm_metadata = []\<rparr>"

section \<open>Values and rows\<close>

fun sql_value_of :: "json \<Rightarrow> storage_error + sql_value" where
  "sql_value_of JNull = Inr SqlNull"
| "sql_value_of (JString v) = Inr (SqlText v)"
| "sql_value_of (JBool v) = Inr (SqlInteger (of_bool v))"
| "sql_value_of (JNumber v) = Inr (SqlInteger v)"
| "sql_value_of JOther = Inl unavailable"

fun json_of_sql :: "sql_value \<Rightarrow> storage_error + json" where
  "json_of_sql (SqlInteger v) = Inr (JNumber v)"
| "json_of_sql (SqlText v) = Inr (JString v)"
| "json_of_sql _ = Inl (SqliteFailure ''invalid query'')"

definition row_string :: "json list \<Rightarrow> nat \<Rightarrow> storage_error + string" where
  "row_string row i =
     (if i < length row then (case row ! i of JString s \<Rightarrow> Inr s | _ \<Rightarrow> Inl unavailable) else Inl unavailable)"

definition row_integer :: "json list \<Rightarrow> nat \<Rightarrow> storage_error + int" where
  "row_integer row i =
     (if i < length row then (case row ! i of JNumber n \<Rightarrow> Inr n | _ \<Rightarrow> Inl unavailable) else Inl unavailable)"

definition policy_from_row :: "json list \<Rightarrow> storage_error + channel_policy" where
  "policy_from_row row =
     and_then (row_integer row 0) (\<lambda>a. and_then (row_integer row 1) (\<lambda>b. and_then (row_integer row 2) (\<lambda>p.
       Inr \<lparr>cp_ignored = (a \<noteq> 0), cp_always_join = (b \<noteq> 0), cp_purge_ms = p\<rparr>)))"

text \<open>The columns of \<open>rm_channel\<close> hold 0 or 1 for the flags.\<close>

definition policy_row :: "channel_policy \<Rightarrow> json list" where
  "policy_row p = [JNumber (of_bool (cp_ignored p)), JNumber (of_bool (cp_always_join p)), JNumber (cp_purge_ms p)]"

definition channel_json :: "string \<times> channel_policy \<Rightarrow> json list" where
  "channel_json c = JString (fst c) # policy_row (snd c)"

section \<open>Queries\<close>

definition cluster_check :: "cluster_db \<Rightarrow> storage_error + unit" where
  "cluster_check db = (if map_of (rm_metadata db) ''initialized'' = Some ''1'' then Inr () else Inl unavailable)"

definition has_snapshot :: "cluster_db \<Rightarrow> bool" where
  "has_snapshot db \<longleftrightarrow> map_of (rm_metadata db) ''epoch'' \<noteq> None"

definition mark_ready :: "cluster_db \<Rightarrow> cluster_db" where
  "mark_ready db = db\<lparr>rm_metadata := AList.update ''initialized'' ''1'' (rm_metadata db)\<rparr>"

definition policy_of :: "cluster_db \<Rightarrow> string \<Rightarrow> storage_error + channel_policy" where
  "policy_of db ch =
     (case map_of (rm_channel db) (to_ascii_lowercase ch) of
        None \<Rightarrow> Inr default_policy
      | Some p \<Rightarrow> policy_from_row (policy_row p))"

text \<open>\<open>SELECT channel_login, ignored, always_join, purge_ms FROM rm_channel ORDER BY channel_login\<close>\<close>

definition channel_json_rows :: "cluster_db \<Rightarrow> json list list" where
  "channel_json_rows db = map channel_json (sort_key fst (rm_channel db))"

definition policies_of :: "cluster_db \<Rightarrow> storage_error + (string \<times> channel_policy) list" where
  "policies_of db =
     collect_results (\<lambda>r. and_then (row_string r 0) (\<lambda>c. and_then (policy_from_row (tl r)) (\<lambda>p. Inr (c, p))))
       (channel_json_rows db)"

definition pins_of :: "cluster_db \<Rightarrow> storage_error + string list" where
  "pins_of db =
     collect_results (\<lambda>r. row_string r 0)
       (map channel_json (sort_key fst (filter (\<lambda>c. cp_always_join (snd c)) (rm_channel db))))"

text \<open>Rows without a token sort first.\<close>

definition session_key :: "sql_value list \<Rightarrow> string list" where
  "session_key row = (case row of SqlText t # _ \<Rightarrow> [t] | _ \<Rightarrow> [])"

definition snapshot_of :: "cluster_db \<Rightarrow> storage_error + snapshot" where
  "snapshot_of db =
     and_then (ok_or (SqliteFailure ''no rows'') (map_of (rm_metadata db) ''epoch'')) (\<lambda>epoch.
     and_then (ok_or (SqliteFailure ''no rows'') (map_of (rm_metadata db) ''revision'')) (\<lambda>revision.
     and_then (ok_or unavailable (parse_i64 revision)) (\<lambda>n.
     and_then (collect_results (collect_results json_of_sql) (sort_key session_key (rm_auth db))) (\<lambda>sessions.
       Inr \<lparr>sn_epoch = epoch, sn_revision = n, sn_channels = channel_json_rows db, sn_sessions = sessions\<rparr>))))"

definition auth_from_row :: "(int \<Rightarrow> bool) \<Rightarrow> json list \<Rightarrow> storage_error + user_authorization" where
  "auth_from_row in_chrono r =
     and_then (row_string r 0) (\<lambda>a. and_then (row_string r 1) (\<lambda>t. and_then (row_string r 2) (\<lambda>f.
     and_then (and_then (row_integer r 3) (\<lambda>i. ok_or unavailable (if in_chrono i then Some i else None))) (\<lambda>v.
     and_then (and_then (row_integer r 4) (\<lambda>i. ok_or unavailable (if in_chrono i then Some i else None))) (\<lambda>u.
     and_then (row_string r 5) (\<lambda>i. and_then (row_string r 6) (\<lambda>l. and_then (row_string r 7) (\<lambda>n.
     and_then (row_string r 8) (\<lambda>p.
       Inr \<lparr>ua_access_token = a, ua_twitch_access_token = t, ua_twitch_refresh_token = f, ua_validated_ms = v,
            ua_valid_until_ms = u, ua_user_id = i, ua_user_login = l, ua_user_name = n,
            ua_profile_image_url = p\<rparr>)))))))))"

text \<open>\<open>WHERE access_token=? AND valid_until_ms>=?\<close> on the primary key; a number sorts before a text.\<close>

definition auth_matches :: "string \<Rightarrow> int \<Rightarrow> sql_value list \<Rightarrow> bool" where
  "auth_matches token now row \<longleftrightarrow> length row = 9 \<and> row ! 0 = SqlText token \<and>
     (case row ! 4 of SqlInteger v \<Rightarrow> v \<ge> now | SqlReal v \<Rightarrow> v \<ge> now | SqlText _ \<Rightarrow> True | SqlNull \<Rightarrow> False)"

definition auth_of :: "(int \<Rightarrow> bool) \<Rightarrow> cluster_db \<Rightarrow> string \<Rightarrow> int \<Rightarrow> storage_error + user_authorization option" where
  "auth_of in_chrono db token now =
     and_then (collect_results (collect_results json_of_sql) (filter (auth_matches token now) (rm_auth db))) (\<lambda>rows.
       case rows of [] \<Rightarrow> Inr None | r # _ \<Rightarrow> and_then (auth_from_row in_chrono r) (\<lambda>a. Inr (Some a)))"


section \<open>Statements and transactions\<close>

text \<open>The statements the owner's operations are made of, and the rows each affects.\<close>

datatype statement =
    UpsertIgnored string bool int
  | UpsertPurge string int
  | PinIfRoom string nat
  | Unpin string
  | ClearPins
  | PinAlways string
  | PinUnlessBootstrapped string
  | MarkBootstrapped
  | MarkBootstrappedOnce
  | InsertAuth "sql_value list"
  | UpdateAuth string "sql_value list"
  | DeleteAuth string

definition upsert_channel ::
    "string \<Rightarrow> (channel_policy \<Rightarrow> channel_policy) \<Rightarrow> channel_policy \<Rightarrow> cluster_db \<Rightarrow> cluster_db" where
  "upsert_channel ch on_conflict new db =
     db\<lparr>rm_channel := AList.update ch
       (case map_of (rm_channel db) ch of None \<Rightarrow> new | Some old \<Rightarrow> on_conflict old) (rm_channel db)\<rparr>"

definition pinned_count :: "cluster_db \<Rightarrow> nat" where
  "pinned_count db = length (filter (\<lambda>c. cp_always_join (snd c)) (rm_channel db))"

definition is_pinned :: "cluster_db \<Rightarrow> string \<Rightarrow> bool" where
  "is_pinned db ch \<longleftrightarrow> (case map_of (rm_channel db) ch of None \<Rightarrow> False | Some p \<Rightarrow> cp_always_join p)"

definition pin_channel :: "string \<Rightarrow> cluster_db \<Rightarrow> cluster_db" where
  "pin_channel ch = upsert_channel ch (\<lambda>p. p\<lparr>cp_always_join := True\<rparr>) (default_policy\<lparr>cp_always_join := True\<rparr>)"

definition bootstrapped :: "cluster_db \<Rightarrow> bool" where
  "bootstrapped db \<longleftrightarrow> map_of (rm_metadata db) ''pins_bootstrapped'' \<noteq> None"

definition auth_token :: "sql_value list \<Rightarrow> string option" where
  "auth_token row = (case row of SqlText t # _ \<Rightarrow> Some t | _ \<Rightarrow> None)"

text \<open>The column types of \<open>rm_auth\<close>: seven texts and, fourth and fifth, two integers.\<close>

definition text_affinity :: "sql_value \<Rightarrow> sql_value" where
  "text_affinity v = (case v of SqlInteger i \<Rightarrow> SqlText (show_int i) | _ \<Rightarrow> v)"

definition integer_affinity :: "(string \<Rightarrow> sql_value) \<Rightarrow> sql_value \<Rightarrow> sql_value" where
  "integer_affinity numeric v = (case v of SqlText t \<Rightarrow> numeric t | _ \<Rightarrow> v)"

definition stored_session :: "(string \<Rightarrow> sql_value) \<Rightarrow> sql_value list \<Rightarrow> sql_value list" where
  "stored_session numeric row =
     map text_affinity (take 3 row) @ map (integer_affinity numeric) (take 2 (drop 3 row)) @
     map text_affinity (drop 5 row)"

text \<open>\<open>NOT NULL\<close> on all columns but the primary key, which is unique.\<close>

definition insert_auth ::
    "(string \<Rightarrow> sql_value) \<Rightarrow> sql_value list \<Rightarrow> sql_value list list \<Rightarrow> storage_error + sql_value list list" where
  "insert_auth numeric row auth =
     (if SqlNull \<in> set (tl row) then Inl (SqliteFailure ''constraint failed'')
      else
        (let stored = stored_session numeric row
         in if auth_token stored \<noteq> None \<and> auth_token stored \<in> set (map auth_token auth)
            then Inl (SqliteFailure ''constraint failed'')
            else Inr (auth @ [stored])))"

definition exec_statement ::
    "(string \<Rightarrow> sql_value) \<Rightarrow> statement \<Rightarrow> cluster_db \<Rightarrow> storage_error + nat \<times> cluster_db" where
  "exec_statement numeric stmt db = (case stmt of
       UpsertIgnored ch ignored t \<Rightarrow> Inr (1, upsert_channel ch
         (\<lambda>p. p\<lparr>cp_ignored := ignored, cp_purge_ms := max (cp_purge_ms p) t\<rparr>)
         \<lparr>cp_ignored = ignored, cp_always_join = False, cp_purge_ms = t\<rparr> db)
     | UpsertPurge ch t \<Rightarrow> Inr (1, upsert_channel ch (\<lambda>p. p\<lparr>cp_purge_ms := max (cp_purge_ms p) t\<rparr>)
         \<lparr>cp_ignored = False, cp_always_join = False, cp_purge_ms = t\<rparr> db)
     | PinIfRoom ch maximum \<Rightarrow>
         if pinned_count db < maximum \<or> is_pinned db ch then Inr (1, pin_channel ch db) else Inr (0, db)
     | Unpin ch \<Rightarrow>
         (case map_of (rm_channel db) ch of
            None \<Rightarrow> Inr (0, db)
          | Some p \<Rightarrow> Inr (1, db\<lparr>rm_channel := AList.update ch (p\<lparr>cp_always_join := False\<rparr>) (rm_channel db)\<rparr>))
     | ClearPins \<Rightarrow> Inr (length (rm_channel db),
         db\<lparr>rm_channel := map (\<lambda>(ch, p). (ch, p\<lparr>cp_always_join := False\<rparr>)) (rm_channel db)\<rparr>)
     | PinAlways ch \<Rightarrow> Inr (1, pin_channel ch db)
     | PinUnlessBootstrapped ch \<Rightarrow> if bootstrapped db then Inr (0, db) else Inr (1, pin_channel ch db)
     | MarkBootstrapped \<Rightarrow>
         Inr (1, db\<lparr>rm_metadata := AList.update ''pins_bootstrapped'' ''1'' (rm_metadata db)\<rparr>)
     | MarkBootstrappedOnce \<Rightarrow>
         if bootstrapped db then Inr (0, db)
         else Inr (1, db\<lparr>rm_metadata := AList.update ''pins_bootstrapped'' ''1'' (rm_metadata db)\<rparr>)
     | InsertAuth row \<Rightarrow> and_then (insert_auth numeric row (rm_auth db)) (\<lambda>auth. Inr (1, db\<lparr>rm_auth := auth\<rparr>))
     | UpdateAuth token row \<Rightarrow>
         Inr (length (filter (\<lambda>r. auth_token r = Some token) (rm_auth db)),
              db\<lparr>rm_auth := map (\<lambda>r. if auth_token r = Some token
                then stored_session numeric (SqlText token # row) else r) (rm_auth db)\<rparr>)
     | DeleteAuth token \<Rightarrow>
         Inr (length (filter (\<lambda>r. auth_token r = Some token) (rm_auth db)),
              db\<lparr>rm_auth := filter (\<lambda>r. auth_token r \<noteq> Some token) (rm_auth db)\<rparr>))"

text \<open>\<open>CAST(value AS INTEGER)\<close>: the longest integer prefix after leading blanks, 0 without one.\<close>

definition is_digit :: "char \<Rightarrow> bool" where
  "is_digit c \<longleftrightarrow> 48 \<le> (of_char c :: nat) \<and> (of_char c :: nat) \<le> 57"

definition cast_integer :: "string \<Rightarrow> int" where
  "cast_integer text =
     (let s = dropWhile (\<lambda>c. c \<in> set [CHR '' '', char_of (9::nat), char_of (10::nat), char_of (11::nat), char_of (12::nat), char_of (13::nat)]) text
      in sat_i64 (if s \<noteq> [] \<and> hd s = CHR ''-'' then - int (decimal 0 (takeWhile is_digit (tl s)))
                  else if s \<noteq> [] \<and> hd s = CHR ''+'' then int (decimal 0 (takeWhile is_digit (tl s)))
                  else int (decimal 0 (takeWhile is_digit s))))"

text \<open>\<open>UPDATE rm_metadata SET value=CAST(value AS INTEGER)+1 WHERE key='revision'\<close>; the sum stays below
  the largest integer in every state considered.\<close>

definition bump_revision :: "cluster_db \<Rightarrow> cluster_db" where
  "bump_revision db =
     (case map_of (rm_metadata db) ''revision'' of
        None \<Rightarrow> db
      | Some v \<Rightarrow> db\<lparr>rm_metadata := AList.update ''revision'' (show_int (cast_integer v + 1)) (rm_metadata db)\<rparr>)"

fun exec_all ::
    "(string \<Rightarrow> sql_value) \<Rightarrow> statement list \<Rightarrow> cluster_db \<Rightarrow> storage_error + nat list \<times> cluster_db" where
  "exec_all numeric [] db = Inr ([], db)"
| "exec_all numeric (stmt # stmts) db =
     and_then (exec_statement numeric stmt db) (\<lambda>(n, db').
     and_then (exec_all numeric stmts db') (\<lambda>(ns, db''). Inr (n # ns, db'')))"

definition write_statements ::
    "(string \<Rightarrow> sql_value) \<Rightarrow> statement list \<Rightarrow> cluster_db \<Rightarrow> (storage_error + nat list) \<times> cluster_db" where
  "write_statements numeric stmts db =
     (case exec_all numeric stmts db of
        Inl e \<Rightarrow> (Inl e, db)
      | Inr (affected, db') \<Rightarrow> (Inr affected, bump_revision db'))"

section \<open>Mutations of the owner\<close>

definition session_values :: "user_authorization \<Rightarrow> sql_value list" where
  "session_values a =
     [SqlText (ua_twitch_access_token a), SqlText (ua_twitch_refresh_token a), SqlInteger (ua_validated_ms a),
      SqlInteger (ua_valid_until_ms a), SqlText (ua_user_id a), SqlText (ua_user_login a),
      SqlText (ua_user_name a), SqlText (ua_profile_image_url a)]"

definition pin_statements :: "string \<Rightarrow> bool \<Rightarrow> nat \<Rightarrow> statement list" where
  "pin_statements ch enabled maximum =
     [if enabled then PinIfRoom (to_ascii_lowercase ch) maximum else Unpin (to_ascii_lowercase ch),
      MarkBootstrapped]"

definition mutation_statements :: "int \<Rightarrow> mutation \<Rightarrow> statement list" where
  "mutation_statements now operation = (case operation of
       Ignore ch ignored \<Rightarrow> [UpsertIgnored (to_ascii_lowercase ch) ignored now]
     | PurgeTo ch cutoff \<Rightarrow> [UpsertPurge (to_ascii_lowercase ch) cutoff]
     | Pin ch enabled maximum \<Rightarrow> pin_statements ch enabled maximum
     | ReplacePins chs \<Rightarrow> [ClearPins, MarkBootstrapped] @ map (\<lambda>c. PinAlways (to_ascii_lowercase c)) chs
     | BootstrapPins chs \<Rightarrow>
         map (\<lambda>c. PinUnlessBootstrapped (to_ascii_lowercase c)) chs @ [MarkBootstrappedOnce]
     | SaveAuth a fresh \<Rightarrow>
         [if fresh then InsertAuth (SqlText (ua_access_token a) # session_values a)
          else UpdateAuth (ua_access_token a) (session_values a)]
     | Revoke token \<Rightarrow> [DeleteAuth token])"

definition set_pin_local ::
    "(string \<Rightarrow> sql_value) \<Rightarrow> string \<Rightarrow> bool \<Rightarrow> nat \<Rightarrow> cluster_db \<Rightarrow> (storage_error + bool) \<times> cluster_db" where
  "set_pin_local numeric ch enabled maximum db =
     (if enabled \<and> int maximum > i64_max then (Inl unavailable, db)
      else (case write_statements numeric (pin_statements ch enabled maximum) db of
              (Inl e, db') \<Rightarrow> (Inl e, db')
            | (Inr affected, db') \<Rightarrow>
                (if enabled \<and> affected ! 0 = 0 then Inl (AlwaysJoinLimitReached maximum) else Inr False, db')))"

definition apply_mutation ::
    "(string \<Rightarrow> sql_value) \<Rightarrow> int \<Rightarrow> mutation \<Rightarrow> cluster_db \<Rightarrow> (storage_error + bool) \<times> cluster_db" where
  "apply_mutation numeric now operation db = (case operation of
       Pin ch enabled maximum \<Rightarrow> set_pin_local numeric ch enabled maximum db
     | BootstrapPins chs \<Rightarrow>
         if chs = [] then (Inr False, db)
         else (case write_statements numeric (mutation_statements now operation) db of
                 (Inl e, db') \<Rightarrow> (Inl e, db')
               | (Inr affected, db') \<Rightarrow> (Inr (affected \<noteq> [] \<and> last affected > 0), db'))
     | _ \<Rightarrow>
         (case write_statements numeric (mutation_statements now operation) db of
            (Inl e, db') \<Rightarrow> (Inl e, db') | (Inr _, db') \<Rightarrow> (Inr False, db')))"

text \<open>\<open>push_unlocked\<close>: the answers of the replicas to the snapshot, if there are any.\<close>

definition push_snapshot ::
    "bool \<Rightarrow> (snapshot \<Rightarrow> (storage_error + bool) list) \<Rightarrow> cluster_db \<Rightarrow> storage_error + unit" where
  "push_snapshot owner answers db =
     (if \<not> owner then Inl unavailable
      else and_then (snapshot_of db) (\<lambda>s.
        if answers s = [] then Inl unavailable
        else if list_all (\<lambda>a. a = Inr True) (answers s) then Inr () else Inl unavailable))"

definition mutate ::
    "(string \<Rightarrow> sql_value) \<Rightarrow> bool \<Rightarrow> (mutation \<Rightarrow> storage_error + bool) \<Rightarrow>
     (snapshot \<Rightarrow> (storage_error + bool) list) \<Rightarrow> int \<Rightarrow> mutation \<Rightarrow> cluster_db
      \<Rightarrow> (storage_error + bool) \<times> cluster_db" where
  "mutate numeric owner remote answers now operation db =
     (if \<not> owner then (remote operation, db)
      else (case cluster_check db of
              Inl e \<Rightarrow> (Inl e, db)
            | Inr _ \<Rightarrow>
                (case apply_mutation numeric now operation db of
                   (Inl e, db') \<Rightarrow> (Inl e, db')
                 | (Inr res, db') \<Rightarrow> (and_then (push_snapshot owner answers db') (\<lambda>_. Inr res), db'))))"

section \<open>Receiving a snapshot\<close>

definition check_channel_row ::
    "(string \<Rightarrow> string + unit) \<Rightarrow> (string \<times> channel_policy) list \<Rightarrow> json list \<Rightarrow> storage_error + unit" where
  "check_channel_row validate_login held row =
     and_then (row_string row 0) (\<lambda>name.
     if length row \<noteq> 4 \<or> isl (validate_login name) then Inl unavailable
     else and_then (row_integer row 1) (\<lambda>a. if a \<notin> {0, 1} then Inl unavailable
     else and_then (row_integer row 2) (\<lambda>b. if b \<notin> {0, 1} then Inl unavailable
     else and_then (row_integer row 3) (\<lambda>purge.
       if purge < (case map_of held name of None \<Rightarrow> 0 | Some p \<Rightarrow> cp_purge_ms p) then Inl unavailable
       else Inr ()))))"

text \<open>\<open>INSERT INTO rm_channel\<close> of a checked row; the primary key is unique.\<close>

definition insert_channel_row ::
    "json list \<Rightarrow> (string \<times> channel_policy) list \<Rightarrow> storage_error + (string \<times> channel_policy) list" where
  "insert_channel_row row held =
     and_then (row_string row 0) (\<lambda>name. and_then (policy_from_row (tl row)) (\<lambda>p.
       if name \<in> fst ` set held then Inl (SqliteFailure ''constraint failed'') else Inr (held @ [(name, p)])))"

definition insert_session_row ::
    "(string \<Rightarrow> sql_value) \<Rightarrow> json list \<Rightarrow> sql_value list list \<Rightarrow> storage_error + sql_value list list" where
  "insert_session_row numeric row auth =
     (if length row \<noteq> 9 then Inl unavailable
      else and_then (collect_results sql_value_of row) (\<lambda>values. insert_auth numeric values auth))"

fun insert_rows :: "('r \<Rightarrow> 't \<Rightarrow> storage_error + 't) \<Rightarrow> 'r list \<Rightarrow> 't \<Rightarrow> storage_error + 't" where
  "insert_rows f [] t = Inr t"
| "insert_rows f (r # rs) t = and_then (f r t) (insert_rows f rs)"

definition received_metadata :: "snapshot \<Rightarrow> (string \<times> string) list \<Rightarrow> (string \<times> string) list" where
  "received_metadata s md =
     AList.update ''pins_bootstrapped'' ''1'' (AList.update ''initialized'' ''0''
       (AList.update ''revision'' (show_int (sn_revision s)) (AList.update ''epoch'' (sn_epoch s) md)))"

definition replace_tables ::
    "(string \<Rightarrow> sql_value) \<Rightarrow> (string \<Rightarrow> string + unit) \<Rightarrow> snapshot \<Rightarrow> cluster_db \<Rightarrow> storage_error + cluster_db" where
  "replace_tables numeric validate_login s db =
     and_then (collect_results (check_channel_row validate_login (rm_channel db)) (sn_channels s)) (\<lambda>_.
     and_then (collect_results (\<lambda>r. row_string r 0) (sn_channels s)) (\<lambda>retained.
     if \<exists>c \<in> set (rm_channel db). cp_purge_ms (snd c) > 0 \<and> fst c \<notin> set retained then Inl unavailable
     else
       and_then (insert_rows insert_channel_row (sn_channels s) []) (\<lambda>channels.
       and_then (insert_rows (insert_session_row numeric) (sn_sessions s) []) (\<lambda>sessions.
       Inr \<lparr>rm_channel = channels, rm_auth = sessions,
            rm_metadata = received_metadata s (rm_metadata db)\<rparr>))))"

text \<open>How the snapshot relates to the one held: an error, nothing to do, or newer.\<close>

definition compare_revision :: "snapshot \<Rightarrow> cluster_db \<Rightarrow> storage_error + bool" where
  "compare_revision s db =
     (case map_of (rm_metadata db) ''epoch'' of
        None \<Rightarrow> Inr True
      | Some epoch \<Rightarrow>
          if epoch \<noteq> sn_epoch s then Inl unavailable
          else and_then (ok_or (SqliteFailure ''no rows'') (map_of (rm_metadata db) ''revision'')) (\<lambda>v.
            and_then (ok_or unavailable (parse_i64 v)) (\<lambda>revision.
              if sn_revision s < revision then Inl unavailable else Inr (sn_revision s \<noteq> revision))))"

definition receive_snapshot ::
    "(string \<Rightarrow> sql_value) \<Rightarrow> (string \<Rightarrow> string + unit) \<Rightarrow> bool \<Rightarrow> bool \<Rightarrow> snapshot \<Rightarrow> cluster_db
      \<Rightarrow> (storage_error + bool) \<times> cluster_db" where
  "receive_snapshot numeric validate_login owner consensus s db =
     (if owner \<or> consensus \<or> sn_epoch s = [] \<or> sn_revision s < 0 then (Inl unavailable, db)
      else (case compare_revision s db of
              Inl e \<Rightarrow> (Inl e, db)
            | Inr False \<Rightarrow> (Inr False, db)
            | Inr True \<Rightarrow>
                (case replace_tables numeric validate_login s db of
                   Inl e \<Rightarrow> (Inl e, db) | Inr db' \<Rightarrow> (Inr True, db'))))"

end
