(* ===== verification/ControlStore.thy ===== *)
theory ControlStore
  imports Coverage Cluster Checkpoint
begin

text \<open>
  The control store of \<^verbatim>\<open>src/db.rs\<close>: channels, coverage intervals, repair checkpoints, the join state of
  each channel, sessions and the policies already applied, one table each. An operation returns the
  database after its transaction; a transaction that fails leaves it unchanged. The time an operation
  reads from the clock is its argument \<open>now\<close>, in milliseconds; a \<open>Duration\<close> is its number of
  milliseconds. With a cluster configured some operations go to \<open>Cluster\<close> instead. Opening the file
  and its schema are input/output, and errors of SQLite carry a fixed text.
\<close>

record channel_entry =
  ce_ignored_at :: "int option"
  ce_last_access :: int
  ce_always_join :: bool

record coverage_row =
  cv_channel :: string
  cv_source :: string
  cv_start :: int
  cv_end :: int

record live_entry =
  lv_source :: string
  lv_started_at :: int

record checkpoint_row =
  ck_id :: nat
  ck_channel :: string
  ck_source :: string
  ck_checkpoint :: repair_checkpoint

datatype join_status = JoinPending | Joined | JoinUnavailable

record join_entry =
  jn_state :: join_status
  jn_failures :: nat
  jn_last_attempt :: "int option"
  jn_last_confirmed :: "int option"
  jn_next_retry :: int
  jn_failure_kind :: "string option"

record control_db =
  channel_tab :: "(string \<times> channel_entry) list"
  auth_tab :: "(string \<times> user_authorization) list"
  coverage_tab :: "coverage_row list"
  live_tab :: "(string \<times> live_entry) list"
  checkpoint_tab :: "checkpoint_row list"
  join_tab :: "(string \<times> join_entry) list"
  metadata_tab :: "(string \<times> string) list"
  applied_tab :: "(string \<times> channel_policy) list"

definition empty_control_db :: control_db where
  "empty_control_db = \<lparr>channel_tab = [], auth_tab = [], coverage_tab = [], live_tab = [], checkpoint_tab = [],
     join_tab = [], metadata_tab = [], applied_tab = []\<rparr>"

definition duration_ms :: "nat \<Rightarrow> int" where
  "duration_ms d = i64_try_from_or_max d"

definition without_key :: "string \<Rightarrow> (string \<times> 'a) list \<Rightarrow> (string \<times> 'a) list" where
  "without_key ch = filter (\<lambda>(k, v). k \<noteq> ch)"

text \<open>\<open>INSERT ... ON CONFLICT(channel_login) DO UPDATE\<close> on an association list.\<close>

definition upsert :: "string \<Rightarrow> ('a \<Rightarrow> 'a) \<Rightarrow> 'a \<Rightarrow> (string \<times> 'a) list \<Rightarrow> (string \<times> 'a) list" where
  "upsert k on_conflict new t =
     AList.update k (case map_of t k of None \<Rightarrow> new | Some old \<Rightarrow> on_conflict old) t"

section \<open>Policies of the cluster\<close>

definition apply_cluster_policy :: "string \<Rightarrow> channel_policy \<Rightarrow> control_db \<Rightarrow> control_db" where
  "apply_cluster_policy channel policy db =
     (let ch = to_ascii_lowercase channel;
          ignored_at = (if cp_ignored policy then Some (cp_purge_ms policy) else None)
      in db\<lparr>channel_tab := upsert ch
             (\<lambda>e. e\<lparr>ce_ignored_at := ignored_at, ce_always_join := cp_always_join policy\<rparr>)
             \<lparr>ce_ignored_at = ignored_at, ce_last_access = 0, ce_always_join = cp_always_join policy\<rparr>
             (channel_tab db),
           applied_tab := AList.update ch policy (applied_tab db)\<rparr>)"

definition applied_cluster_policy :: "string \<Rightarrow> control_db \<Rightarrow> channel_policy option" where
  "applied_cluster_policy channel db = map_of (applied_tab db) (to_ascii_lowercase channel)"

section \<open>Channels\<close>

definition get_channel_logins_to_join :: "int \<Rightarrow> int \<Rightarrow> nat \<Rightarrow> control_db \<Rightarrow> string set" where
  "get_channel_logins_to_join now now2 channel_expiry db =
     (let cutoff = i64_saturating_sub now (duration_ms channel_expiry)
      in set (map fst (filter (\<lambda>(ch, e).
           ce_ignored_at e = None \<and> (ce_always_join e \<or> ce_last_access e > cutoff) \<and>
           (case map_of (join_tab db) ch of
              None \<Rightarrow> True
            | Some j \<Rightarrow> jn_state j \<noteq> JoinUnavailable \<or> jn_next_retry j \<le> now2)) (channel_tab db))))"

definition mark_bootstrap_applied :: "control_db \<Rightarrow> control_db" where
  "mark_bootstrap_applied db =
     db\<lparr>metadata_tab := AList.update ''always_join_bootstrap_applied'' ''1'' (metadata_tab db)\<rparr>"

definition always_join_channel :: "string \<Rightarrow> control_db \<Rightarrow> control_db" where
  "always_join_channel ch db =
     db\<lparr>channel_tab := upsert ch (\<lambda>e. e\<lparr>ce_always_join := True\<rparr>)
       \<lparr>ce_ignored_at = None, ce_last_access = 0, ce_always_join = True\<rparr> (channel_tab db)\<rparr>"

definition local_always_join_channels :: "control_db \<Rightarrow> string list" where
  "local_always_join_channels db =
     map fst (sort_key fst (filter (\<lambda>(ch, e). ce_always_join e) (channel_tab db)))"

definition local_bootstrap_always_join :: "string list \<Rightarrow> control_db \<Rightarrow> bool \<times> control_db" where
  "local_bootstrap_always_join channels db =
     (if channels = [] \<or> map_of (metadata_tab db) ''always_join_bootstrap_applied'' \<noteq> None then (False, db)
      else (True, mark_bootstrap_applied (fold always_join_channel (map to_ascii_lowercase channels) db)))"

definition local_set_always_join ::
    "string \<Rightarrow> bool \<Rightarrow> nat \<Rightarrow> control_db \<Rightarrow> (storage_error + unit) \<times> control_db" where
  "local_set_always_join channel_login enabled maximum db =
     (let ch = to_ascii_lowercase channel_login;
          already = (case map_of (channel_tab db) ch of None \<Rightarrow> False | Some e \<Rightarrow> ce_always_join e);
          count = length (filter (\<lambda>(ch, e). ce_always_join e) (channel_tab db))
      in if enabled
         then (if \<not> already \<and> count \<ge> maximum then (Inl (AlwaysJoinLimitReached maximum), db)
               else (Inr (), mark_bootstrap_applied (always_join_channel ch db)))
         else (Inr (), mark_bootstrap_applied (db\<lparr>channel_tab :=
                map (\<lambda>(k, e). if k = ch then (k, e\<lparr>ce_always_join := False\<rparr>) else (k, e)) (channel_tab db)\<rparr>)))"

definition local_replace_always_join :: "string list \<Rightarrow> control_db \<Rightarrow> control_db" where
  "local_replace_always_join channels db =
     mark_bootstrap_applied (fold always_join_channel (remdups (map to_ascii_lowercase channels))
       (db\<lparr>channel_tab := map (\<lambda>(k, e). (k, e\<lparr>ce_always_join := False\<rparr>)) (channel_tab db)\<rparr>))"

definition touch_or_add_channel :: "int \<Rightarrow> string \<Rightarrow> control_db \<Rightarrow> control_db" where
  "touch_or_add_channel now channel_login db =
     (let update_before = i64_saturating_sub now (30 * 60 * 1000)
      in db\<lparr>channel_tab := upsert (to_ascii_lowercase channel_login)
           (\<lambda>e. if ce_last_access e < update_before then e\<lparr>ce_last_access := now\<rparr> else e)
           \<lparr>ce_ignored_at = None, ce_last_access = now, ce_always_join = False\<rparr> (channel_tab db)\<rparr>)"

definition local_channel_ignored :: "string \<Rightarrow> control_db \<Rightarrow> bool" where
  "local_channel_ignored channel_login db =
     (case map_of (channel_tab db) (to_ascii_lowercase channel_login) of
        None \<Rightarrow> False | Some e \<Rightarrow> ce_ignored_at e \<noteq> None)"

definition local_ignored_channels :: "control_db \<Rightarrow> string set" where
  "local_ignored_channels db = set (map fst (filter (\<lambda>(ch, e). ce_ignored_at e \<noteq> None) (channel_tab db)))"

text \<open>The statements \<open>DELETE FROM ... WHERE channel_login=?1\<close> of several operations.\<close>

definition delete_coverage_of :: "string \<Rightarrow> control_db \<Rightarrow> control_db" where
  "delete_coverage_of ch db =
     db\<lparr>coverage_tab := filter (\<lambda>r. cv_channel r \<noteq> ch) (coverage_tab db),
        live_tab := without_key ch (live_tab db),
        checkpoint_tab := filter (\<lambda>r. ck_channel r \<noteq> ch) (checkpoint_tab db)\<rparr>"

definition local_set_channel_ignored :: "int \<Rightarrow> string \<Rightarrow> bool \<Rightarrow> control_db \<Rightarrow> control_db" where
  "local_set_channel_ignored now channel_login ignored db =
     (let ch = to_ascii_lowercase channel_login;
          ignored_at = (if ignored then Some now else None);
          db1 = db\<lparr>channel_tab := upsert ch (\<lambda>e. e\<lparr>ce_ignored_at := ignored_at\<rparr>)
            \<lparr>ce_ignored_at = ignored_at, ce_last_access = now, ce_always_join = False\<rparr> (channel_tab db)\<rparr>
      in if ignored then (delete_coverage_of ch db1)\<lparr>join_tab := without_key ch (join_tab db1)\<rparr> else db1)"

definition invalidate_channel_coverage :: "string \<Rightarrow> control_db \<Rightarrow> control_db" where
  "invalidate_channel_coverage channel_login = delete_coverage_of (to_ascii_lowercase channel_login)"

definition prune_inactive_channels :: "int \<Rightarrow> control_db \<Rightarrow> nat \<times> control_db" where
  "prune_inactive_channels cutoff db =
     (let inactive = (\<lambda>(ch, e). ce_ignored_at e = None \<and> \<not> ce_always_join e \<and> ce_last_access e \<le> cutoff);
          candidates = map fst (filter inactive (channel_tab db))
      in (length candidates,
          db\<lparr>coverage_tab := filter (\<lambda>r. cv_channel r \<notin> set candidates) (coverage_tab db),
             live_tab := filter (\<lambda>(k, v). k \<notin> set candidates) (live_tab db),
             checkpoint_tab := filter (\<lambda>r. ck_channel r \<notin> set candidates) (checkpoint_tab db),
             join_tab := filter (\<lambda>(k, v). k \<notin> set candidates) (join_tab db),
             channel_tab := filter (\<lambda>x. \<not> inactive x) (channel_tab db)\<rparr>))"

section \<open>Coverage\<close>

definition discard_live_coverage :: "string \<Rightarrow> control_db \<Rightarrow> control_db" where
  "discard_live_coverage channel_login db =
     db\<lparr>live_tab := without_key (to_ascii_lowercase channel_login) (live_tab db)\<rparr>"

definition discard_all_live_coverage :: "control_db \<Rightarrow> control_db" where
  "discard_all_live_coverage db = db\<lparr>live_tab := []\<rparr>"

definition prune_coverage_ended_before :: "int \<Rightarrow> control_db \<Rightarrow> nat \<times> control_db" where
  "prune_coverage_ended_before cutoff db =
     (length (filter (\<lambda>r. cv_end r < cutoff) (coverage_tab db)),
      db\<lparr>coverage_tab := filter (\<lambda>r. \<not> cv_end r < cutoff) (coverage_tab db)\<rparr>)"

definition begin_live_coverage :: "string \<Rightarrow> string \<Rightarrow> int \<Rightarrow> control_db \<Rightarrow> control_db" where
  "begin_live_coverage channel_login src started_at db =
     (let ch = to_ascii_lowercase channel_login
      in db\<lparr>live_tab := without_key ch (live_tab db) @ [(ch, \<lparr>lv_source = src, lv_started_at = started_at\<rparr>)]\<rparr>)"

text \<open>
  A plain \<open>INSERT\<close> into \<open>coverage_interval\<close>: it violates the unique index when the same interval is
  recorded already.
\<close>

definition insert_coverage_row :: "coverage_row \<Rightarrow> coverage_row list \<Rightarrow> storage_error + coverage_row list" where
  "insert_coverage_row r rows =
     (if r \<in> set rows then Inl (SqliteFailure ''constraint failed'') else Inr (rows @ [r]))"

definition end_live_coverage :: "string \<Rightarrow> int \<Rightarrow> control_db \<Rightarrow> (storage_error + unit) \<times> control_db" where
  "end_live_coverage channel_login ended_at db =
     (let ch = to_ascii_lowercase channel_login; deleted = without_key ch (live_tab db)
      in case map_of (live_tab db) ch of
           None \<Rightarrow> (Inr (), db\<lparr>live_tab := deleted\<rparr>)
         | Some live \<Rightarrow>
             if ended_at \<ge> lv_started_at live
             then (case insert_coverage_row \<lparr>cv_channel = ch, cv_source = lv_source live,
                       cv_start = lv_started_at live, cv_end = ended_at\<rparr> (coverage_tab db) of
                     Inl e \<Rightarrow> (Inl e, db)
                   | Inr rows \<Rightarrow> (Inr (), db\<lparr>live_tab := deleted, coverage_tab := rows\<rparr>))
             else (Inr (), db\<lparr>live_tab := deleted\<rparr>))"

fun insert_coverage_rows :: "coverage_row list \<Rightarrow> coverage_row list \<Rightarrow> storage_error + coverage_row list" where
  "insert_coverage_rows [] rows = Inr rows"
| "insert_coverage_rows (r # rs) rows = and_then (insert_coverage_row r rows) (insert_coverage_rows rs)"

definition live_row :: "int \<Rightarrow> string \<times> live_entry \<Rightarrow> coverage_row" where
  "live_row ended_at l = \<lparr>cv_channel = fst l, cv_source = lv_source (snd l),
     cv_start = lv_started_at (snd l), cv_end = ended_at\<rparr>"

definition close_all_live_coverage :: "int \<Rightarrow> control_db \<Rightarrow> (storage_error + unit) \<times> control_db" where
  "close_all_live_coverage ended_at db =
     (case insert_coverage_rows (map (live_row ended_at)
         (filter (\<lambda>l. lv_started_at (snd l) \<le> ended_at) (live_tab db))) (coverage_tab db) of
        Inl e \<Rightarrow> (Inl e, db)
      | Inr rows \<Rightarrow> (Inr (), db\<lparr>coverage_tab := rows, live_tab := []\<rparr>))"

definition record_coverage_interval ::
    "string \<Rightarrow> string \<Rightarrow> int \<Rightarrow> int \<Rightarrow> control_db \<Rightarrow> (storage_error + unit) \<times> control_db" where
  "record_coverage_interval channel_login src start_at end_at db =
     (if end_at < start_at then (Inl (InvalidCoverageInterval start_at end_at), db)
      else
        (let r = \<lparr>cv_channel = to_ascii_lowercase channel_login, cv_source = src, cv_start = start_at, cv_end = end_at\<rparr>
         in (Inr (), if r \<in> set (coverage_tab db) then db else db\<lparr>coverage_tab := coverage_tab db @ [r]\<rparr>)))"

text \<open>Rows with equal times come in the order of the tables.\<close>

definition get_coverage_intervals :: "string \<Rightarrow> int \<Rightarrow> control_db \<Rightarrow> coverage_interval list" where
  "get_coverage_intervals channel_login through db =
     (let ch = to_ascii_lowercase channel_login;
          recorded = map (\<lambda>r. \<lparr>start_ms = cv_start r, end_ms = cv_end r, source = cv_source r\<rparr>)
            (filter (\<lambda>r. cv_channel r = ch) (coverage_tab db));
          live = map (\<lambda>(k, l). \<lparr>start_ms = lv_started_at l, end_ms = through, source = lv_source l\<rparr>)
            (filter (\<lambda>(k, l). k = ch \<and> lv_started_at l \<le> through) (live_tab db))
      in sort_key (\<lambda>i. (start_ms i, end_ms i)) (recorded @ live))"

section \<open>Repair checkpoints\<close>

text \<open>\<open>ORDER BY completed_at_ms DESC, id DESC LIMIT 8\<close>\<close>

definition newest_checkpoints :: "string \<Rightarrow> control_db \<Rightarrow> checkpoint_row list" where
  "newest_checkpoints ch db =
     take 8 (rev (sort_key (\<lambda>r. (completed_at_ms (ck_checkpoint r), ck_id r))
       (filter (\<lambda>r. ck_channel r = ch) (checkpoint_tab db))))"

definition record_repair_checkpoint ::
    "string \<Rightarrow> string \<Rightarrow> repair_checkpoint \<Rightarrow> control_db \<Rightarrow> (storage_error + unit) \<times> control_db" where
  "record_repair_checkpoint channel_login src c db =
     (if rc_requested_end c < rc_requested_start c
      then (Inl (InvalidCoverageInterval (rc_requested_start c) (rc_requested_end c)), db)
      else
        (let ch = to_ascii_lowercase channel_login;
             row = \<lparr>ck_id = Suc (Max (insert 0 (set (map ck_id (checkpoint_tab db))))), ck_channel = ch, ck_source = src,
               ck_checkpoint = c\<lparr>record_count := nat (i64_try_from_or_max (record_count c))\<rparr>\<rparr>;
             db1 = db\<lparr>checkpoint_tab := checkpoint_tab db @ [row]\<rparr>;
             kept = map ck_id (newest_checkpoints ch db1)
         in (Inr (), db1\<lparr>checkpoint_tab :=
               filter (\<lambda>r. \<not> (ck_channel r = ch \<and> ck_id r \<notin> set kept)) (checkpoint_tab db1)\<rparr>)))"

definition get_repair_checkpoints :: "string \<Rightarrow> control_db \<Rightarrow> repair_checkpoint list" where
  "get_repair_checkpoints channel_login db =
     map ck_checkpoint (newest_checkpoints (to_ascii_lowercase channel_login) db)"

section \<open>Joining channels\<close>

text \<open>\<open>row.get::<_, u32>\<close> fails on a larger count.\<close>

definition u32_of :: "nat \<Rightarrow> storage_error + nat" where
  "u32_of n = (if n \<le> u32_max then Inr n else Inl (SqliteFailure ''integral value out of range''))"

definition retry_delay :: "nat \<Rightarrow> nat \<Rightarrow> nat \<Rightarrow> int" where
  "retry_delay retry_min retry_max failures =
     (let retry_min_ms = max (duration_ms retry_min) 1; retry_max_ms = max (duration_ms retry_max) retry_min_ms
      in min (i64_saturating_mul retry_min_ms (2 ^ min failures 30)) retry_max_ms)"

definition join_timed_out :: "int \<Rightarrow> nat \<Rightarrow> nat \<Rightarrow> join_entry \<Rightarrow> join_entry" where
  "join_timed_out now retry_min retry_max j =
     j\<lparr>jn_state := JoinUnavailable, jn_failures := Suc (jn_failures j),
       jn_next_retry := i64_saturating_add now (retry_delay retry_min retry_max (jn_failures j)),
       jn_failure_kind := Some ''confirmation_timeout''\<rparr>"

definition join_pending :: "int \<Rightarrow> int \<Rightarrow> join_entry \<Rightarrow> join_entry" where
  "join_pending now deadline j =
     j\<lparr>jn_state := JoinPending, jn_last_attempt := Some now, jn_next_retry := deadline, jn_failure_kind := None\<rparr>"

definition begin_join_attempt_if_due ::
    "int \<Rightarrow> string \<Rightarrow> nat \<Rightarrow> nat \<Rightarrow> nat \<Rightarrow> control_db \<Rightarrow> (storage_error + bool) \<times> control_db" where
  "begin_join_attempt_if_due now channel_login confirmation_timeout retry_min retry_max db =
     (let ch = to_ascii_lowercase channel_login;
          deadline = i64_saturating_add now (duration_ms confirmation_timeout);
          new = \<lparr>jn_state = JoinPending, jn_failures = 0, jn_last_attempt = Some now, jn_last_confirmed = None,
            jn_next_retry = deadline, jn_failure_kind = None\<rparr>
      in case map_of (join_tab db) ch of
           None \<Rightarrow> (Inr True, db\<lparr>join_tab := AList.update ch new (join_tab db)\<rparr>)
         | Some j \<Rightarrow>
             (case u32_of (jn_failures j) of
                Inl e \<Rightarrow> (Inl e, db)
              | Inr _ \<Rightarrow>
                  if jn_state j \<noteq> Joined \<and> jn_next_retry j > now then (Inr False, db)
                  else if jn_state j = JoinPending
                  then (Inr False, db\<lparr>join_tab := AList.update ch (join_timed_out now retry_min retry_max j) (join_tab db)\<rparr>)
                  else (Inr True, db\<lparr>join_tab := AList.update ch (join_pending now deadline j) (join_tab db)\<rparr>)))"

definition mark_join_confirmed :: "int \<Rightarrow> string \<Rightarrow> control_db \<Rightarrow> control_db" where
  "mark_join_confirmed now channel_login db =
     db\<lparr>join_tab := upsert (to_ascii_lowercase channel_login)
       (\<lambda>j. if jn_state j \<noteq> Joined
            then j\<lparr>jn_state := Joined, jn_failures := 0, jn_last_confirmed := Some now, jn_next_retry := 0,
                   jn_failure_kind := None\<rparr>
            else j)
       \<lparr>jn_state = Joined, jn_failures = 0, jn_last_attempt = None, jn_last_confirmed = Some now,
        jn_next_retry = 0, jn_failure_kind = None\<rparr> (join_tab db)\<rparr>"

definition mark_join_unavailable :: "int \<Rightarrow> string \<Rightarrow> string \<Rightarrow> nat \<Rightarrow> control_db \<Rightarrow> control_db" where
  "mark_join_unavailable now channel_login kind retry_after db =
     (let retry = i64_saturating_add now (duration_ms retry_after)
      in db\<lparr>join_tab := upsert (to_ascii_lowercase channel_login)
           (\<lambda>j. j\<lparr>jn_state := JoinUnavailable, jn_failures := Suc (jn_failures j),
                  jn_next_retry := max (jn_next_retry j) retry,
                  jn_failure_kind := (if retry \<ge> jn_next_retry j then Some kind else jn_failure_kind j)\<rparr>)
           \<lparr>jn_state = JoinUnavailable, jn_failures = 1, jn_last_attempt = None, jn_last_confirmed = None,
            jn_next_retry = retry, jn_failure_kind = Some kind\<rparr> (join_tab db)\<rparr>)"

definition stale_join :: "int \<Rightarrow> join_entry \<Rightarrow> bool" where
  "stale_join now j \<longleftrightarrow> jn_state j = JoinPending \<and> jn_next_retry j \<le> now"

definition fail_stale_join_attempts ::
    "int \<Rightarrow> nat \<Rightarrow> nat \<Rightarrow> control_db \<Rightarrow> (storage_error + nat) \<times> control_db" where
  "fail_stale_join_attempts now retry_min retry_max db =
     (let stale = filter (\<lambda>(ch, j). stale_join now j) (join_tab db)
      in case collect_results (\<lambda>(ch, j). u32_of (jn_failures j)) stale of
           Inl e \<Rightarrow> (Inl e, db)
         | Inr _ \<Rightarrow> (Inr (length stale),
             db\<lparr>join_tab := map (\<lambda>(ch, j). if stale_join now j
               then (ch, join_timed_out now retry_min retry_max j) else (ch, j)) (join_tab db)\<rparr>))"

section \<open>Sessions\<close>

definition authorization_of ::
    "(int \<Rightarrow> bool) \<Rightarrow> user_authorization \<Rightarrow> storage_error + user_authorization" where
  "authorization_of in_chrono a =
     and_then (if in_chrono (ua_validated_ms a) then Inr () else Inl (InvalidTimestamp (ua_validated_ms a))) (\<lambda>_.
     and_then (if in_chrono (ua_valid_until_ms a) then Inr () else Inl (InvalidTimestamp (ua_valid_until_ms a))) (\<lambda>_.
     Inr a))"

definition local_append_authorization :: "user_authorization \<Rightarrow> control_db \<Rightarrow> (storage_error + unit) \<times> control_db" where
  "local_append_authorization a db =
     (if map_of (auth_tab db) (ua_access_token a) \<noteq> None then (Inl (SqliteFailure ''constraint failed''), db)
      else (Inr (), db\<lparr>auth_tab := auth_tab db @ [(ua_access_token a, a)]\<rparr>))"

definition local_get_authorization ::
    "(int \<Rightarrow> bool) \<Rightarrow> int \<Rightarrow> string \<Rightarrow> control_db \<Rightarrow> storage_error + user_authorization option" where
  "local_get_authorization in_chrono now token db =
     (case map_of (auth_tab db) token of
        None \<Rightarrow> Inr None
      | Some a \<Rightarrow> if ua_valid_until_ms a \<ge> now
                  then and_then (authorization_of in_chrono a) (\<lambda>a. Inr (Some a)) else Inr None)"

definition local_update_authorization :: "user_authorization \<Rightarrow> control_db \<Rightarrow> control_db" where
  "local_update_authorization a db = db\<lparr>auth_tab := AList.update (ua_access_token a) a (auth_tab db)\<rparr>"

definition local_delete_authorization :: "string \<Rightarrow> control_db \<Rightarrow> control_db" where
  "local_delete_authorization token db = db\<lparr>auth_tab := without_key token (auth_tab db)\<rparr>"

section \<open>With a cluster\<close>

text \<open>A node of the cluster: the arguments of \<open>Cluster.mutate\<close> and its database.\<close>

record cluster_node =
  cn_numeric :: "string \<Rightarrow> sql_value"
  cn_owner :: bool
  cn_remote :: "mutation \<Rightarrow> storage_error + bool"
  cn_answers :: "snapshot \<Rightarrow> (storage_error + bool) list"
  cn_db :: cluster_db

record control_store =
  cs_cluster :: "cluster_node option"
  cs_db :: control_db

definition node_mutate :: "int \<Rightarrow> mutation \<Rightarrow> cluster_node \<Rightarrow> (storage_error + bool) \<times> cluster_node" where
  "node_mutate now operation node =
     (case mutate (cn_numeric node) (cn_owner node) (cn_remote node) (cn_answers node) now operation (cn_db node) of
        (res, db) \<Rightarrow> (res, node\<lparr>cn_db := db\<rparr>))"

definition via_cluster ::
    "int \<Rightarrow> mutation \<Rightarrow> (bool \<Rightarrow> 'a) \<Rightarrow> (control_db \<Rightarrow> (storage_error + 'a) \<times> control_db) \<Rightarrow> control_store
      \<Rightarrow> (storage_error + 'a) \<times> control_store" where
  "via_cluster now operation f local_operation store =
     (case cs_cluster store of
        Some node \<Rightarrow>
          (case node_mutate now operation node of
             (res, node') \<Rightarrow> (map_sum id f res, store\<lparr>cs_cluster := Some node'\<rparr>))
      | None \<Rightarrow> (case local_operation (cs_db store) of (res, db) \<Rightarrow> (res, store\<lparr>cs_db := db\<rparr>)))"

definition get_always_join_channels :: "control_store \<Rightarrow> storage_error + string list" where
  "get_always_join_channels store =
     (case cs_cluster store of
        Some node \<Rightarrow> pins_of (cn_db node) | None \<Rightarrow> Inr (local_always_join_channels (cs_db store)))"

definition check_readable :: "control_store \<Rightarrow> storage_error + unit" where
  "check_readable store =
     (case cs_cluster store of Some node \<Rightarrow> cluster_check (cn_db node) | None \<Rightarrow> Inr ())"

definition bootstrap_always_join_channels ::
    "int \<Rightarrow> string list \<Rightarrow> control_store \<Rightarrow> (storage_error + bool) \<times> control_store" where
  "bootstrap_always_join_channels now channels store =
     (if cs_cluster store \<noteq> None \<and> channels = [] then (Inr False, store)
      else via_cluster now (BootstrapPins channels) id
        (\<lambda>db. case local_bootstrap_always_join channels db of (b, db') \<Rightarrow> (Inr b, db')) store)"

definition set_always_join_channel ::
    "int \<Rightarrow> string \<Rightarrow> bool \<Rightarrow> nat \<Rightarrow> control_store \<Rightarrow> (storage_error + unit) \<times> control_store" where
  "set_always_join_channel now ch enabled maximum =
     via_cluster now (Pin ch enabled maximum) (\<lambda>_. ()) (local_set_always_join ch enabled maximum)"

definition replace_always_join_channels ::
    "int \<Rightarrow> string list \<Rightarrow> control_store \<Rightarrow> (storage_error + unit) \<times> control_store" where
  "replace_always_join_channels now channels =
     via_cluster now (ReplacePins channels) (\<lambda>_. ()) (\<lambda>db. (Inr (), local_replace_always_join channels db))"

definition is_channel_ignored :: "string \<Rightarrow> control_store \<Rightarrow> storage_error + bool" where
  "is_channel_ignored ch store =
     (case cs_cluster store of
        Some node \<Rightarrow> and_then (policy_of (cn_db node) ch) (\<lambda>p. Inr (cp_ignored p))
      | None \<Rightarrow> Inr (local_channel_ignored ch (cs_db store)))"

definition get_ignored_channels :: "control_store \<Rightarrow> storage_error + string set" where
  "get_ignored_channels store =
     (case cs_cluster store of
        Some node \<Rightarrow> and_then (policies_of (cn_db node)) (\<lambda>rows.
          Inr (set (map fst (filter (\<lambda>(c, p). cp_ignored p) rows))))
      | None \<Rightarrow> Inr (local_ignored_channels (cs_db store)))"

definition set_channel_ignored ::
    "int \<Rightarrow> string \<Rightarrow> bool \<Rightarrow> control_store \<Rightarrow> (storage_error + unit) \<times> control_store" where
  "set_channel_ignored now ch ignored =
     via_cluster now (Ignore ch ignored) (\<lambda>_. ()) (\<lambda>db. (Inr (), local_set_channel_ignored now ch ignored db))"

definition append_user_authorization ::
    "int \<Rightarrow> user_authorization \<Rightarrow> control_store \<Rightarrow> (storage_error + unit) \<times> control_store" where
  "append_user_authorization now a =
     via_cluster now (SaveAuth a True) (\<lambda>_. ()) (local_append_authorization a)"

definition get_user_authorization ::
    "(int \<Rightarrow> bool) \<Rightarrow> int \<Rightarrow> string \<Rightarrow> control_store \<Rightarrow> storage_error + user_authorization option" where
  "get_user_authorization in_chrono now token store =
     (case cs_cluster store of
        Some node \<Rightarrow> auth_of in_chrono (cn_db node) token now
      | None \<Rightarrow> local_get_authorization in_chrono now token (cs_db store))"

definition update_user_authorization ::
    "int \<Rightarrow> user_authorization \<Rightarrow> control_store \<Rightarrow> (storage_error + unit) \<times> control_store" where
  "update_user_authorization now a =
     via_cluster now (SaveAuth a False) (\<lambda>_. ()) (\<lambda>db. (Inr (), local_update_authorization a db))"

definition delete_user_authorization ::
    "int \<Rightarrow> string \<Rightarrow> control_store \<Rightarrow> (storage_error + unit) \<times> control_store" where
  "delete_user_authorization now token =
     via_cluster now (Revoke token) (\<lambda>_. ()) (\<lambda>db. (Inr (), local_delete_authorization token db))"

end
