(* ===== verification/ControlProperties.thy ===== *)
theory ControlProperties
  imports ControlStore
begin

text \<open>
  Properties of the control store: what ends a live coverage interval, and how the join state of a
  channel moves between attempts, confirmations and failures.
\<close>

lemma map_of_upsert:
  "map_of (upsert k f new t) k' =
     (if k' = k then Some (case map_of t k of None \<Rightarrow> new | Some old \<Rightarrow> f old) else map_of t k')"
  by (simp add: upsert_def update_conv')

lemma map_of_without_key [simp]: "map_of (without_key k t) k' = (if k' = k then None else map_of t k')"
  by (induction t) (auto simp: without_key_def)

lemma distinct_without_key: "distinct (map fst t) \<Longrightarrow> distinct (map fst (without_key k t))"
  by (simp add: without_key_def distinct_map_filter)

lemma distinct_upsert: "distinct (map fst t) \<Longrightarrow> distinct (map fst (upsert k f new t))"
  by (simp add: upsert_def distinct_update)

section \<open>Coverage\<close>

definition recorded_intervals :: "string \<Rightarrow> control_db \<Rightarrow> coverage_interval set" where
  "recorded_intervals ch db =
     (\<lambda>r. \<lparr>start_ms = cv_start r, end_ms = cv_end r, source = cv_source r\<rparr>) `
       {r \<in> set (coverage_tab db). cv_channel r = ch}"

definition live_intervals :: "string \<Rightarrow> int \<Rightarrow> control_db \<Rightarrow> coverage_interval set" where
  "live_intervals ch through db =
     (case map_of (live_tab db) ch of
        None \<Rightarrow> {}
      | Some l \<Rightarrow> if lv_started_at l \<le> through
                  then {\<lparr>start_ms = lv_started_at l, end_ms = through, source = lv_source l\<rparr>} else {})"

lemma live_set:
  assumes "distinct (map fst t)"
  shows "(\<lambda>(k, l). f l) ` {x \<in> set t. case x of (k, l) \<Rightarrow> k = ch \<and> P l} =
    (case map_of t ch of None \<Rightarrow> {} | Some l \<Rightarrow> if P l then {f l} else {})"
proof (cases "map_of t ch")
  case None
  then have "ch \<notin> fst ` set t" by (simp add: map_of_eq_None_iff)
  then show ?thesis using None by force
next
  case (Some l)
  have uniq: "b = l" if "(ch, b) \<in> set t" for b
    using map_of_is_SomeI [OF assms that] Some by simp
  have "{x \<in> set t. case x of (k, l) \<Rightarrow> k = ch \<and> P l} = (if P l then {(ch, l)} else {})"
    using map_of_SomeD [OF Some] by (auto dest: uniq)
  then show ?thesis using Some by simp
qed

lemma set_get_coverage:
  assumes "distinct (map fst (live_tab db))"
  shows "set (get_coverage_intervals channel through db) =
    recorded_intervals (to_ascii_lowercase channel) db \<union> live_intervals (to_ascii_lowercase channel) through db"
  unfolding get_coverage_intervals_def Let_def recorded_intervals_def live_intervals_def
    live_set [OF assms, where P = "\<lambda>l. lv_started_at l \<le> through", symmetric]
  by (auto simp: case_prod_unfold)

lemma recorded_intervals_append:
  assumes "coverage_tab db' = coverage_tab db @ [r]"
  shows "recorded_intervals ch db' = recorded_intervals ch db \<union>
    (if cv_channel r = ch then {\<lparr>start_ms = cv_start r, end_ms = cv_end r, source = cv_source r\<rparr>} else {})"
proof -
  have "{x \<in> set (coverage_tab db'). cv_channel x = ch} =
      {x \<in> set (coverage_tab db). cv_channel x = ch} \<union> (if cv_channel r = ch then {r} else {})"
    using assms by auto
  then show ?thesis by (simp add: recorded_intervals_def image_Un)
qed

lemma recorded_intervals_simps:
  "recorded_intervals ch (db\<lparr>live_tab := t\<rparr>) = recorded_intervals ch db"
  "recorded_intervals ch (db\<lparr>live_tab := t, coverage_tab := coverage_tab db @ [r]\<rparr>) =
     recorded_intervals ch db \<union>
       (if cv_channel r = ch then {\<lparr>start_ms = cv_start r, end_ms = cv_end r, source = cv_source r\<rparr>} else {})"
  by (simp add: recorded_intervals_def) (rule recorded_intervals_append, simp)

text \<open>The rows of coverage and the live entries, as every operation leaves them.\<close>

definition coverage_inv :: "control_db \<Rightarrow> bool" where
  "coverage_inv db \<longleftrightarrow> distinct (map fst (live_tab db)) \<and> distinct (coverage_tab db) \<and>
     (\<forall>r \<in> set (coverage_tab db). cv_start r \<le> cv_end r)"

datatype control_op =
    ApplyClusterPolicy string channel_policy
  | BootstrapAlwaysJoin "string list"
  | SetAlwaysJoin string bool nat
  | ReplaceAlwaysJoin "string list"
  | TouchChannel int string
  | SetIgnored int string bool
  | InvalidateCoverage string
  | DiscardLive string
  | DiscardAllLive
  | PruneCoverage int
  | PruneInactive int
  | RecordCheckpoint string string repair_checkpoint
  | BeginJoin int string nat nat nat
  | ConfirmJoin int string
  | FailJoin int string string nat
  | FailStaleJoins int nat nat
  | BeginLive string string int
  | EndLive string int
  | CloseAllLive int
  | RecordCoverage string string int int
  | AppendAuthorization user_authorization
  | UpdateAuthorization user_authorization
  | DeleteAuthorization string

definition control_step :: "control_op \<Rightarrow> control_db \<Rightarrow> control_db" where
  "control_step operation db = (case operation of
       ApplyClusterPolicy ch p \<Rightarrow> apply_cluster_policy ch p db
     | BootstrapAlwaysJoin chs \<Rightarrow> snd (local_bootstrap_always_join chs db)
     | SetAlwaysJoin ch b n \<Rightarrow> snd (local_set_always_join ch b n db)
     | ReplaceAlwaysJoin chs \<Rightarrow> local_replace_always_join chs db
     | TouchChannel now ch \<Rightarrow> touch_or_add_channel now ch db
     | SetIgnored now ch b \<Rightarrow> local_set_channel_ignored now ch b db
     | InvalidateCoverage ch \<Rightarrow> invalidate_channel_coverage ch db
     | DiscardLive ch \<Rightarrow> discard_live_coverage ch db
     | DiscardAllLive \<Rightarrow> discard_all_live_coverage db
     | PruneCoverage t \<Rightarrow> snd (prune_coverage_ended_before t db)
     | PruneInactive t \<Rightarrow> snd (prune_inactive_channels t db)
     | RecordCheckpoint ch src c \<Rightarrow> snd (record_repair_checkpoint ch src c db)
     | BeginJoin now ch t a b \<Rightarrow> snd (begin_join_attempt_if_due now ch t a b db)
     | ConfirmJoin now ch \<Rightarrow> mark_join_confirmed now ch db
     | FailJoin now ch kind t \<Rightarrow> mark_join_unavailable now ch kind t db
     | FailStaleJoins now a b \<Rightarrow> snd (fail_stale_join_attempts now a b db)
     | BeginLive ch src t \<Rightarrow> begin_live_coverage ch src t db
     | EndLive ch t \<Rightarrow> snd (end_live_coverage ch t db)
     | CloseAllLive t \<Rightarrow> snd (close_all_live_coverage t db)
     | RecordCoverage ch src a b \<Rightarrow> snd (record_coverage_interval ch src a b db)
     | AppendAuthorization a \<Rightarrow> snd (local_append_authorization a db)
     | UpdateAuthorization a \<Rightarrow> local_update_authorization a db
     | DeleteAuthorization t \<Rightarrow> local_delete_authorization t db)"

inductive control_reachable :: "control_db \<Rightarrow> bool" where
  control_empty: "control_reachable empty_control_db"
| control_op: "control_reachable db \<Longrightarrow> control_reachable (control_step operation db)"

lemma coverage_inv_eq:
  "coverage_tab db' = coverage_tab db \<Longrightarrow> live_tab db' = live_tab db \<Longrightarrow> coverage_inv db' = coverage_inv db"
  by (simp add: coverage_inv_def)

lemma fold_always_join_same [simp]:
  "coverage_tab (fold always_join_channel chs db) = coverage_tab db"
  "live_tab (fold always_join_channel chs db) = live_tab db"
  by (induction chs arbitrary: db) (simp_all add: always_join_channel_def)

lemma insert_coverage_rows_inv:
  "insert_coverage_rows rs rows = Inr rows' \<Longrightarrow> distinct rows \<Longrightarrow>
     distinct rows' \<and> set rows' = set rows \<union> set rs"
  by (induction rs arbitrary: rows) (auto simp: insert_coverage_row_def split: if_splits)

lemma coverage_inv_delete: "coverage_inv db \<Longrightarrow> coverage_inv (delete_coverage_of ch db)"
  by (simp add: coverage_inv_def delete_coverage_of_def distinct_without_key)

lemma end_live_cases:
  assumes "end_live_coverage channel t db = (res, db')" and "ch = to_ascii_lowercase channel"
  obtains (none) "map_of (live_tab db) ch = None" "res = Inr ()"
      "db' = db\<lparr>live_tab := without_key ch (live_tab db)\<rparr>"
    | (early) l where "map_of (live_tab db) ch = Some l" "t < lv_started_at l" "res = Inr ()"
      "db' = db\<lparr>live_tab := without_key ch (live_tab db)\<rparr>"
    | (duplicate) l where "map_of (live_tab db) ch = Some l" "lv_started_at l \<le> t"
      "live_row t (ch, l) \<in> set (coverage_tab db)" "res = Inl (SqliteFailure ''constraint failed'')" "db' = db"
    | (closed) l where "map_of (live_tab db) ch = Some l" "lv_started_at l \<le> t"
      "live_row t (ch, l) \<notin> set (coverage_tab db)" "res = Inr ()"
      "db' = db\<lparr>live_tab := without_key ch (live_tab db), coverage_tab := coverage_tab db @ [live_row t (ch, l)]\<rparr>"
proof (cases "map_of (live_tab db) ch")
  case None
  then show thesis using none assms by (simp add: end_live_coverage_def Let_def)
next
  case (Some l)
  consider "t < lv_started_at l" | "lv_started_at l \<le> t" "live_row t (ch, l) \<in> set (coverage_tab db)"
    | "lv_started_at l \<le> t" "live_row t (ch, l) \<notin> set (coverage_tab db)" by linarith
  then show thesis
  proof cases
    case 1
    show thesis
      by (rule early [OF Some 1]) (use assms Some 1 in \<open>simp_all add: end_live_coverage_def Let_def\<close>)
  next
    case 2
    show thesis
      by (rule duplicate [OF Some 2])
         (use assms Some 2 in \<open>simp_all add: end_live_coverage_def Let_def insert_coverage_row_def live_row_def\<close>)
  next
    case 3
    show thesis
      by (rule closed [OF Some 3])
         (use assms Some 3 in \<open>simp_all add: end_live_coverage_def Let_def insert_coverage_row_def live_row_def\<close>)
  qed
qed

lemma coverage_inv_end_live:
  assumes "coverage_inv db" and "end_live_coverage channel t db = (res, db')"
  shows "coverage_inv db'"
  using assms
  by (cases rule: end_live_cases [OF assms(2) refl])
     (auto simp: coverage_inv_def distinct_without_key live_row_def)

lemma coverage_inv_close_all:
  assumes "coverage_inv db"
  shows "coverage_inv (snd (close_all_live_coverage t db))"
proof (cases "insert_coverage_rows (map (live_row t)
    (filter (\<lambda>l. lv_started_at (snd l) \<le> t) (live_tab db))) (coverage_tab db)")
  case (Inr rows)
  then have "distinct rows \<and> set rows = set (coverage_tab db) \<union>
      set (map (live_row t) (filter (\<lambda>l. lv_started_at (snd l) \<le> t) (live_tab db)))"
    using assms insert_coverage_rows_inv by (simp add: coverage_inv_def)
  then show ?thesis
    using assms Inr by (auto simp: close_all_live_coverage_def coverage_inv_def live_row_def)
qed (use assms in \<open>simp add: close_all_live_coverage_def\<close>)

lemma control_step_coverage:
  assumes "coverage_inv db"
  shows "coverage_inv (control_step operation db)"
proof (cases operation)
  case (EndLive ch t)
  then show ?thesis
    using coverage_inv_end_live [OF assms] by (cases "end_live_coverage ch t db") (simp add: control_step_def)
next
  case (CloseAllLive t)
  then show ?thesis using coverage_inv_close_all [OF assms] by (simp add: control_step_def)
next
  case (BeginLive ch src t)
  have "distinct (map fst (without_key k (live_tab db) @ [(k, l)]))" for k l
    using assms distinct_without_key [of "live_tab db" k] by (auto simp: coverage_inv_def without_key_def)
  then show ?thesis
    using BeginLive assms by (simp add: control_step_def begin_live_coverage_def Let_def coverage_inv_def)
next
  case (SetIgnored now ch b)
  have "coverage_inv (delete_coverage_of k (db\<lparr>channel_tab := t\<rparr>))" for k t
    using assms by (intro coverage_inv_delete) (simp add: coverage_inv_def)
  then show ?thesis
    using SetIgnored assms by (simp add: control_step_def local_set_channel_ignored_def Let_def coverage_inv_def)
next
  case (InvalidateCoverage ch)
  then show ?thesis using assms coverage_inv_delete by (simp add: control_step_def invalidate_channel_coverage_def)
next
  case (RecordCoverage ch src a b)
  then show ?thesis
    using assms by (auto simp: control_step_def record_coverage_interval_def Let_def coverage_inv_def)
next
  case (PruneInactive t)
  then show ?thesis
    using assms by (auto simp: control_step_def prune_inactive_channels_def Let_def coverage_inv_def
        distinct_map_filter case_prod_unfold)
next
  case (DiscardLive ch)
  then show ?thesis
    using assms by (simp add: control_step_def discard_live_coverage_def coverage_inv_def distinct_without_key)
next
  case (BeginJoin now ch t a b)
  then show ?thesis
    by (intro trans [OF coverage_inv_eq, THEN iffD2, OF _ _ _ assms])
       (auto simp: control_step_def begin_join_attempt_if_due_def Let_def split: option.splits sum.splits)
qed (use assms in \<open>auto simp: control_step_def coverage_inv_def apply_cluster_policy_def
      local_bootstrap_always_join_def mark_bootstrap_applied_def local_set_always_join_def always_join_channel_def
      local_replace_always_join_def touch_or_add_channel_def discard_all_live_coverage_def
      prune_coverage_ended_before_def record_repair_checkpoint_def mark_join_confirmed_def
      mark_join_unavailable_def fail_stale_join_attempts_def local_append_authorization_def
      local_update_authorization_def local_delete_authorization_def Let_def split: sum.splits\<close>)

lemma control_reachable_coverage: "control_reachable db \<Longrightarrow> coverage_inv db"
proof (induction rule: control_reachable.induct)
  case control_empty
  show ?case by (simp add: coverage_inv_def empty_control_db_def)
qed (rule control_step_coverage)


text \<open>
  C40: ending live coverage neither loses nor invents coverage: in every reachable store, when it succeeds
  the channel's intervals are from then on what they were at the end time, and other channels keep
  theirs; it fails exactly when that very interval is recorded already, and then the channel stays live.
\<close>

theorem end_live_exact:
  assumes "control_reachable db" and "end_live_coverage channel t db = (res, db')"
    and "ch = to_ascii_lowercase channel"
  shows "(res = Inr () \<longrightarrow> (\<forall>through.
      set (get_coverage_intervals channel through db') = set (get_coverage_intervals channel t db) \<and>
      (\<forall>i \<in> set (get_coverage_intervals channel through db'). start_ms i \<le> end_ms i))) \<and>
    (\<forall>other through. to_ascii_lowercase other \<noteq> ch \<longrightarrow>
      set (get_coverage_intervals other through db') = set (get_coverage_intervals other through db)) \<and>
    (res \<noteq> Inr () \<longleftrightarrow> (\<exists>l. map_of (live_tab db) ch = Some l \<and> lv_started_at l \<le> t \<and>
      \<lparr>cv_channel = ch, cv_source = lv_source l, cv_start = lv_started_at l, cv_end = t\<rparr> \<in> set (coverage_tab db))) \<and>
    (res \<noteq> Inr () \<longrightarrow> db' = db)"
proof -
  have inv: "coverage_inv db" by (rule control_reachable_coverage [OF assms(1)])
  then have d: "distinct (map fst (live_tab db))" by (simp add: coverage_inv_def)
  have inv': "coverage_inv db'" by (rule coverage_inv_end_live [OF inv assms(2)])
  then have d': "distinct (map fst (live_tab db'))" by (simp add: coverage_inv_def)
  have same: "set (get_coverage_intervals channel through db') = set (get_coverage_intervals channel t db)"
    if "res = Inr ()" for through
    unfolding set_get_coverage [OF d] set_get_coverage [OF d'] assms(3) [symmetric]
    using that
    by (cases rule: end_live_cases [OF assms(2,3)])
       (simp_all add: recorded_intervals_simps live_intervals_def live_row_def)
  have other: "set (get_coverage_intervals other through db') = set (get_coverage_intervals other through db)"
    if "to_ascii_lowercase other \<noteq> ch" for other through
    unfolding set_get_coverage [OF d] set_get_coverage [OF d']
    using that
    by (cases rule: end_live_cases [OF assms(2,3)])
       (simp_all add: recorded_intervals_simps live_intervals_def live_row_def)
  have "(res \<noteq> Inr () \<longleftrightarrow> (\<exists>l. map_of (live_tab db) ch = Some l \<and> lv_started_at l \<le> t \<and>
      live_row t (ch, l) \<in> set (coverage_tab db))) \<and> (res \<noteq> Inr () \<longrightarrow> db' = db)"
    by (cases rule: end_live_cases [OF assms(2,3)]) auto
  moreover have "start_ms i \<le> end_ms i" if "i \<in> set (get_coverage_intervals channel t db)" for i
    using that inv
    by (auto simp: set_get_coverage [OF d] recorded_intervals_def live_intervals_def coverage_inv_def
        split: option.splits if_splits)
  ultimately show ?thesis using same other by (simp add: live_row_def)
qed

definition ex_control :: control_db where
  "ex_control = control_step (BeginLive ''A'' ''irc'' 5) empty_control_db"

lemma ex_control_reachable: "control_reachable ex_control"
  unfolding ex_control_def by (intro control_op control_empty)

theorem end_live_exact_witness:
  "set (get_coverage_intervals ''a'' 100 (snd (end_live_coverage ''A'' 9 ex_control))) =
     {\<lparr>start_ms = 5, end_ms = 9, source = ''irc''\<rparr>}"
proof -
  have "fst (end_live_coverage ''A'' 9 ex_control) = Inr ()"
    "set (get_coverage_intervals ''A'' 9 ex_control) = {\<lparr>start_ms = 5, end_ms = 9, source = ''irc''\<rparr>}"
    "get_coverage_intervals ''a'' 100 (snd (end_live_coverage ''A'' 9 ex_control)) =
     get_coverage_intervals ''A'' 100 (snd (end_live_coverage ''A'' 9 ex_control))"
    by code_simp+
  then show ?thesis
    using end_live_exact [OF ex_control_reachable prod.collapse [symmetric] refl, of "''A''" 9] by simp
qed

section \<open>Joining\<close>

lemma retry_delay_bounds:
  "1 \<le> retry_delay retry_min retry_max n \<and>
   retry_delay retry_min retry_max n \<le> max (duration_ms retry_max) (max (duration_ms retry_min) 1)"
proof -
  let ?m = "max (duration_ms retry_min) 1"
  have "duration_ms retry_min \<le> i64_max"
    by (simp add: duration_ms_def int_defs i64_try_from_or_max_def i64_try_from_def split: option.splits)
  then have "1 \<le> ?m" "?m \<le> i64_max" by (simp_all add: int_defs)
  moreover have "1 * 1 \<le> ?m * (2 :: int) ^ min n 30" by (rule mult_mono) simp_all
  ultimately have "1 \<le> i64_saturating_mul ?m (2 ^ min n 30)"
    by (simp add: i64_saturating_mul_def sat_i64_def int_defs)
  then show ?thesis by (simp add: retry_delay_def Let_def)
qed

lemma saturating_le: "0 \<le> now \<Longrightarrow> 0 \<le> d \<Longrightarrow> i64_saturating_add now d \<le> now + d"
  unfolding i64_saturating_add_def by (rule sat_i64_le) simp

text \<open>
  The join state machine allows an attempt exactly for a channel without state, one that was joined,
  and one that failed and whose delay is over; the attempt is then pending until its deadline. No channel
  is given up: a pending attempt past its deadline is turned into a failure whose delay is at most the
  configured maximum, after which the next attempt is allowed. Other channels are untouched.
\<close>

theorem join_attempts_exact:
  assumes "begin_join_attempt_if_due now channel timeout retry_min retry_max db = (res, db')"
    and "ch = to_ascii_lowercase channel" and "0 \<le> now"
    and "\<And>j. map_of (join_tab db) ch = Some j \<Longrightarrow> jn_failures j < u32_max"
    and "bound = max (duration_ms retry_max) (max (duration_ms retry_min) 1)"
  shows "(res = Inr True \<longleftrightarrow> (case map_of (join_tab db) ch of None \<Rightarrow> True
      | Some j \<Rightarrow> jn_state j = Joined \<or> jn_state j = JoinUnavailable \<and> jn_next_retry j \<le> now)) \<and>
    (res = Inr True \<longrightarrow> (\<exists>j. map_of (join_tab db') ch = Some j \<and> jn_state j = JoinPending \<and>
      jn_next_retry j = i64_saturating_add now (duration_ms timeout))) \<and>
    (\<forall>j. map_of (join_tab db) ch = Some j \<and> jn_next_retry j \<le> now \<longrightarrow> res = Inr True \<or>
      (\<forall>later \<ge> now + bound.
         fst (begin_join_attempt_if_due later channel timeout retry_min retry_max db') = Inr True)) \<and>
    (\<forall>other. other \<noteq> ch \<longrightarrow> map_of (join_tab db') other = map_of (join_tab db) other)"
proof (cases "map_of (join_tab db) ch")
  case None
  then show ?thesis
    using assms(1) by (auto simp: begin_join_attempt_if_due_def Let_def assms(2) [symmetric] update_conv')
next
  case (Some j)
  have f: "jn_failures j < u32_max" by (rule assms(4) [OF Some])
  consider (wait) "jn_state j \<noteq> Joined" "now < jn_next_retry j"
    | (timed_out) "jn_state j = JoinPending" "jn_next_retry j \<le> now"
    | (start) "jn_state j = Joined \<or> jn_state j = JoinUnavailable \<and> jn_next_retry j \<le> now"
    by (cases "jn_state j"; cases "now < jn_next_retry j") auto
  then show ?thesis
  proof cases
    case wait
    then have "res = Inr False" "db' = db"
      using assms(1) Some f
      by (auto simp: begin_join_attempt_if_due_def Let_def assms(2) [symmetric] u32_of_def split: if_splits)
    then show ?thesis using wait Some by auto
  next
    case timed_out
    let ?j = "join_timed_out now retry_min retry_max j"
    have r: "res = Inr False" "db' = db\<lparr>join_tab := AList.update ch ?j (join_tab db)\<rparr>"
      using assms(1) Some f timed_out
      by (auto simp: begin_join_attempt_if_due_def Let_def assms(2) [symmetric] u32_of_def split: if_splits)
    have "jn_next_retry ?j \<le> now + bound"
      using saturating_le [OF assms(3), of "retry_delay retry_min retry_max (jn_failures j)"]
        retry_delay_bounds [of retry_min retry_max "jn_failures j"] assms(5)
      by (simp add: join_timed_out_def)
    then have "fst (begin_join_attempt_if_due later channel timeout retry_min retry_max db') = Inr True"
      if "now + bound \<le> later" for later
      using that f r(2)
      by (simp add: begin_join_attempt_if_due_def Let_def assms(2) [symmetric] update_conv' u32_of_def
          join_timed_out_def)
    then show ?thesis using r timed_out Some by (simp add: update_conv')
  next
    case start
    then have "res = Inr True"
      "db' = db\<lparr>join_tab := AList.update ch (join_pending now (i64_saturating_add now (duration_ms timeout)) j) (join_tab db)\<rparr>"
      using assms(1) Some f
      by (auto simp: begin_join_attempt_if_due_def Let_def assms(2) [symmetric] u32_of_def split: if_splits)
    then show ?thesis using start Some by (simp add: update_conv' join_pending_def)
  qed
qed

theorem join_attempts_exact_witness:
  "fst (begin_join_attempt_if_due 200 ''A'' 10 5 60
     (snd (begin_join_attempt_if_due 100 ''A'' 10 5 60 (control_step (BeginJoin 1 ''a'' 10 5 60) empty_control_db)))) = Inr True"
proof -
  let ?db = "control_step (BeginJoin 1 ''a'' 10 5 60) empty_control_db"
  obtain j where j: "map_of (join_tab ?db) (to_ascii_lowercase ''A'') = Some j" "jn_failures j = 0"
    "jn_next_retry j \<le> 100" "jn_state j = JoinPending"
  proof -
    have "\<exists>j. map_of (join_tab ?db) (to_ascii_lowercase ''A'') = Some j \<and> jn_failures j = 0 \<and>
        jn_next_retry j \<le> 100 \<and> jn_state j = JoinPending"
      by (intro exI conjI) code_simp+
    then show thesis using that by blast
  qed
  have "max (duration_ms 60) (max (duration_ms 5) 1) = 60" by code_simp
  moreover have "jn_failures i < u32_max" if "map_of (join_tab ?db) (to_ascii_lowercase ''A'') = Some i" for i
    using that j(1,2) by (simp add: int_defs)
  ultimately show ?thesis
    using join_attempts_exact [where now = 100 and db = ?db and channel = "''A''" and timeout = 10 and retry_min = 5
        and retry_max = 60 and bound = 60, OF prod.collapse [symmetric] refl] j by auto
qed

end
