(* ===== verification/ClusterReplication.thy ===== *)
theory ClusterReplication
  imports Cluster
begin

text \<open>
  The owner and a replica as one system: the owner's database changes by mutations, its snapshots may be
  delivered to the replica late, repeatedly, in any order, or never. The states are those of
  \<open>Cluster\<close>; \<open>cluster_step\<close> is the step relation and \<open>cluster_reachable\<close> its reachable states.
\<close>

section \<open>Well-formed tables\<close>

definition table_ok :: "(string \<Rightarrow> string + unit) \<Rightarrow> (string \<times> channel_policy) list \<Rightarrow> bool" where
  "table_ok va t \<longleftrightarrow> distinct (map fst t) \<and>
     (\<forall>c \<in> set t. va (fst c) = Inr () \<and> 0 \<le> cp_purge_ms (snd c))"

definition session_ok :: "sql_value list \<Rightarrow> bool" where
  "session_ok row \<longleftrightarrow> (\<exists>a t f v u i l n p. row =
     [SqlText a, SqlText t, SqlText f, SqlInteger v, SqlInteger u, SqlText i, SqlText l, SqlText n, SqlText p])"

definition sessions_ok :: "sql_value list list \<Rightarrow> bool" where
  "sessions_ok auth \<longleftrightarrow> list_all session_ok auth \<and> distinct (map auth_token auth)"

text \<open>No channel disappears and no purge cutoff decreases.\<close>

definition grows :: "(string \<times> channel_policy) list \<Rightarrow> (string \<times> channel_policy) list \<Rightarrow> bool" where
  "grows t t' \<longleftrightarrow> (\<forall>ch p. map_of t ch = Some p \<longrightarrow>
     (\<exists>p'. map_of t' ch = Some p' \<and> cp_purge_ms p \<le> cp_purge_ms p'))"

lemma grows_refl [simp, intro]: "grows t t" by (simp add: grows_def)

lemma grows_trans: "grows t u \<Longrightarrow> grows u v \<Longrightarrow> grows t v"
  unfolding grows_def by (meson order_trans)

lemma table_ok_update:
  assumes "table_ok va t" and "va ch = Inr ()" and "0 \<le> cp_purge_ms q"
    and "\<And>p. map_of t ch = Some p \<Longrightarrow> cp_purge_ms p \<le> cp_purge_ms q"
  shows "table_ok va (AList.update ch q t) \<and> grows t (AList.update ch q t)"
proof -
  have "distinct (map fst (AList.update ch q t))"
    using assms(1) by (simp add: table_ok_def distinct_update)
  moreover have "set (AList.update ch q t) \<subseteq> insert (ch, q) (set t)"
    by (induction t) auto
  moreover have "grows t (AList.update ch q t)"
    using assms(4) by (auto simp: grows_def update_conv')
  ultimately show ?thesis using assms(1-3) by (auto simp: table_ok_def)
qed

lemma table_ok_purge: "table_ok va t \<Longrightarrow> map_of t ch = Some p \<Longrightarrow> va ch = Inr () \<and> 0 \<le> cp_purge_ms p"
  by (auto simp: table_ok_def dest!: map_of_SomeD)

lemma table_ok_map:
  assumes "table_ok va t"
  shows "table_ok va (map (\<lambda>(ch, p). (ch, p\<lparr>cp_always_join := False\<rparr>)) t) \<and>
    grows t (map (\<lambda>(ch, p). (ch, p\<lparr>cp_always_join := False\<rparr>)) t)"
proof -
  have "map fst (map (\<lambda>(ch, p). (ch, p\<lparr>cp_always_join := False\<rparr>)) t) = map fst t" by auto
  moreover have "grows t (map (\<lambda>(ch, p). (ch, p\<lparr>cp_always_join := False\<rparr>)) t)"
    unfolding grows_def map_of_map by auto
  ultimately show ?thesis
    using assms unfolding table_ok_def by (simp only:) auto
qed

lemma stored_session_ok [simp]: "session_ok row \<Longrightarrow> stored_session numeric row = row"
  by (auto simp: session_ok_def stored_session_def text_affinity_def integer_affinity_def)

lemma session_ok_token: "session_ok row \<Longrightarrow> \<exists>t. auth_token row = Some t"
  by (auto simp: session_ok_def auth_token_def)

lemma session_ok_not_null: "session_ok row \<Longrightarrow> SqlNull \<notin> set row"
  by (auto simp: session_ok_def)

lemma session_values_ok: "session_ok (SqlText t # session_values a)"
  by (simp add: session_ok_def session_values_def)

lemma insert_auth_ok:
  assumes "sessions_ok auth" and "session_ok row" and "insert_auth numeric row auth = Inr auth'"
  shows "sessions_ok auth'"
  using assms session_ok_token [OF assms(2)]
  by (auto simp: insert_auth_def sessions_ok_def Let_def split: if_splits)

section \<open>Mutations keep the tables well-formed\<close>

definition revision_of :: "cluster_db \<Rightarrow> int" where
  "revision_of db = (case map_of (rm_metadata db) ''revision'' of None \<Rightarrow> 0 | Some v \<Rightarrow> cast_integer v)"

definition db_ok :: "(string \<Rightarrow> string + unit) \<Rightarrow> cluster_db \<Rightarrow> bool" where
  "db_ok va db \<longleftrightarrow> table_ok va (rm_channel db) \<and> sessions_ok (rm_auth db) \<and>
     (\<exists>e. map_of (rm_metadata db) ''epoch'' = Some e \<and> e \<noteq> []) \<and>
     map_of (rm_metadata db) ''revision'' = Some (show_int (revision_of db)) \<and>
     0 \<le> revision_of db \<and> i64_range (revision_of db)"

definition statement_ok :: "(string \<Rightarrow> string + unit) \<Rightarrow> statement \<Rightarrow> bool" where
  "statement_ok va stmt = (case stmt of
       UpsertIgnored ch _ t \<Rightarrow> va ch = Inr () \<and> 0 \<le> t
     | UpsertPurge ch t \<Rightarrow> va ch = Inr () \<and> 0 \<le> t
     | PinIfRoom ch _ \<Rightarrow> va ch = Inr ()
     | PinAlways ch \<Rightarrow> va ch = Inr ()
     | PinUnlessBootstrapped ch \<Rightarrow> va ch = Inr ()
     | InsertAuth row \<Rightarrow> session_ok row
     | UpdateAuth t row \<Rightarrow> session_ok (SqlText t # row)
     | _ \<Rightarrow> True)"

definition mutation_ok :: "(string \<Rightarrow> string + unit) \<Rightarrow> int \<Rightarrow> mutation \<Rightarrow> bool" where
  "mutation_ok va now operation = (case operation of
       Ignore ch _ \<Rightarrow> va (to_ascii_lowercase ch) = Inr () \<and> 0 \<le> now
     | PurgeTo ch t \<Rightarrow> va (to_ascii_lowercase ch) = Inr () \<and> 0 \<le> t
     | Pin ch _ _ \<Rightarrow> va (to_ascii_lowercase ch) = Inr ()
     | ReplacePins chs \<Rightarrow> list_all (\<lambda>ch. va (to_ascii_lowercase ch) = Inr ()) chs
     | BootstrapPins chs \<Rightarrow> list_all (\<lambda>ch. va (to_ascii_lowercase ch) = Inr ()) chs
     | _ \<Rightarrow> True)"

lemma mutation_statements_ok:
  "mutation_ok va now operation \<Longrightarrow> list_all (statement_ok va) (mutation_statements now operation)"
  by (cases operation)
     (auto simp: mutation_ok_def mutation_statements_def statement_ok_def pin_statements_def list_all_iff
       session_values_ok)

definition tables_ok :: "(string \<Rightarrow> string + unit) \<Rightarrow> cluster_db \<Rightarrow> cluster_db \<Rightarrow> bool" where
  "tables_ok va db db' \<longleftrightarrow> table_ok va (rm_channel db') \<and> sessions_ok (rm_auth db') \<and>
     grows (rm_channel db) (rm_channel db') \<and>
     map_of (rm_metadata db') ''epoch'' = map_of (rm_metadata db) ''epoch'' \<and>
     map_of (rm_metadata db') ''revision'' = map_of (rm_metadata db) ''revision''"

lemma tables_ok_refl: "table_ok va (rm_channel db) \<Longrightarrow> sessions_ok (rm_auth db) \<Longrightarrow> tables_ok va db db"
  by (simp add: tables_ok_def)

lemma tables_ok_upsert:
  assumes "table_ok va (rm_channel db)" and "sessions_ok (rm_auth db)" and "va ch = Inr ()"
    and "0 \<le> cp_purge_ms q" and "\<And>p. cp_purge_ms p \<le> cp_purge_ms (f p)"
  shows "tables_ok va db (upsert_channel ch f q db)"
proof -
  let ?q = "case map_of (rm_channel db) ch of None \<Rightarrow> q | Some old \<Rightarrow> f old"
  have "0 \<le> cp_purge_ms ?q \<and> (\<forall>p. map_of (rm_channel db) ch = Some p \<longrightarrow> cp_purge_ms p \<le> cp_purge_ms ?q)"
  proof (cases "map_of (rm_channel db) ch")
    case (Some p)
    then show ?thesis using table_ok_purge [OF assms(1) Some] assms(5) [of p] by simp
  qed (use assms(4) in simp)
  then show ?thesis
    using table_ok_update [OF assms(1,3), of ?q] assms(2) by (simp add: tables_ok_def upsert_channel_def)
qed

lemma tables_ok_pin:
  "table_ok va (rm_channel db) \<Longrightarrow> sessions_ok (rm_auth db) \<Longrightarrow> va ch = Inr () \<Longrightarrow> tables_ok va db (pin_channel ch db)"
  unfolding pin_channel_def by (rule tables_ok_upsert) (simp_all add: default_policy_def)


lemma sessions_ok_update:
  assumes "sessions_ok auth" and "session_ok (SqlText token # row)"
  shows "sessions_ok (map (\<lambda>r. if auth_token r = Some token
    then stored_session numeric (SqlText token # row) else r) auth)" (is "sessions_ok (map ?f auth)")
proof -
  have "map auth_token (map ?f auth) = map auth_token auth"
    using assms(2) by (simp add: auth_token_def)
  moreover have "list_all session_ok (map ?f auth)"
    using assms by (auto simp: sessions_ok_def list_all_iff)
  ultimately show ?thesis using assms(1) by (simp only: sessions_ok_def)
qed

lemma sessions_ok_filter: "sessions_ok auth \<Longrightarrow> sessions_ok (filter P auth)"
  by (auto simp: sessions_ok_def list_all_iff distinct_map_filter)

lemma exec_statement_ok:
  assumes "table_ok va (rm_channel db)" and "sessions_ok (rm_auth db)" and "statement_ok va stmt"
    and "exec_statement numeric stmt db = Inr (n, db')"
  shows "tables_ok va db db'"
proof (cases stmt)
  case (UpsertIgnored ch i t)
  then show ?thesis
    using assms tables_ok_upsert [OF assms(1,2)]
    by (auto simp: exec_statement_def statement_ok_def)
next
  case (UpsertPurge ch t)
  then show ?thesis
    using assms tables_ok_upsert [OF assms(1,2)]
    by (auto simp: exec_statement_def statement_ok_def)
next
  case (Unpin ch)
  show ?thesis
  proof (cases "map_of (rm_channel db) ch")
    case None
    then show ?thesis using assms Unpin by (simp add: exec_statement_def tables_ok_refl)
  next
    case (Some p)
    then show ?thesis
      using assms Unpin table_ok_update [OF assms(1), of ch "p\<lparr>cp_always_join := False\<rparr>"]
        table_ok_purge [OF assms(1) Some]
      by (auto simp: exec_statement_def tables_ok_def)
  qed
next
  case ClearPins
  then show ?thesis
    using assms table_ok_map [OF assms(1)] by (auto simp: exec_statement_def tables_ok_def)
next
  case (InsertAuth row)
  then show ?thesis
    using assms insert_auth_ok [OF assms(2)]
    by (auto simp: exec_statement_def tables_ok_def statement_ok_def)
next
  case (UpdateAuth token row)
  then show ?thesis
    using assms sessions_ok_update [OF assms(2)]
    by (auto simp: exec_statement_def tables_ok_def statement_ok_def)
next
  case (DeleteAuth token)
  then show ?thesis
    using assms sessions_ok_filter [OF assms(2)] by (auto simp: exec_statement_def tables_ok_def)
qed (use assms tables_ok_pin [OF assms(1,2)] tables_ok_refl [OF assms(1,2)] in
      \<open>auto simp: exec_statement_def statement_ok_def tables_ok_def update_conv' split: if_splits\<close>)

lemma tables_ok_trans: "tables_ok va db db' \<Longrightarrow> tables_ok va db' db'' \<Longrightarrow> tables_ok va db db''"
  unfolding tables_ok_def using grows_trans by fastforce

lemma exec_all_ok:
  "exec_all numeric stmts db = Inr (ns, db') \<Longrightarrow> table_ok va (rm_channel db) \<Longrightarrow> sessions_ok (rm_auth db) \<Longrightarrow>
     list_all (statement_ok va) stmts \<Longrightarrow> tables_ok va db db'"
proof (induction stmts arbitrary: db ns)
  case (Cons stmt stmts)
  then obtain n db1 ms where s: "exec_statement numeric stmt db = Inr (n, db1)"
    "exec_all numeric stmts db1 = Inr (ms, db')" by auto
  have "tables_ok va db db1" using exec_statement_ok [OF Cons.prems(2,3) _ s(1)] Cons.prems(4) by simp
  moreover from this have "tables_ok va db1 db'"
    using Cons.IH [OF s(2)] Cons.prems(4) by (simp add: tables_ok_def)
  ultimately show ?case by (rule tables_ok_trans)
qed (simp add: tables_ok_refl)

lemma is_digit_digits: "(\<forall>c \<in> set s. is_digit c) \<Longrightarrow> takeWhile is_digit s = s"
  by simp

lemma cast_show_int:
  assumes "0 \<le> n" and "i64_range n"
  shows "cast_integer (show_int n) = n"
proof -
  let ?s = "show_nat (nat n)"
  have digits: "\<forall>c \<in> set ?s. is_digit c" using show_nat_digits by (auto simp: is_digit_def)
  obtain c cs where s: "?s = c # cs" using show_nat_not_Nil by (cases ?s) auto
  have c: "48 \<le> (of_char c :: nat)" "(of_char c :: nat) \<le> 57" using digits s by (auto simp: is_digit_def)
  then have "dropWhile (\<lambda>c. c \<in> set [CHR '' '', char_of (9::nat), char_of (10::nat), char_of (11::nat), char_of (12::nat), char_of (13::nat)]) ?s = ?s"
    unfolding s by auto
  moreover have "c \<noteq> CHR ''-''" "c \<noteq> CHR ''+''" using c by auto
  ultimately show ?thesis
    using assms digits s decimal_show_nat [of "nat n"]
    by (simp add: cast_integer_def Let_def show_int_def is_digit_digits)
qed

lemma bump_revision_ok:
  assumes "db_ok va db" and "tables_ok va db db'" and "revision_of db < i64_max"
  shows "db_ok va (bump_revision db') \<and> revision_of (bump_revision db') = revision_of db + 1 \<and>
    rm_channel (bump_revision db') = rm_channel db' \<and>
    map_of (rm_metadata (bump_revision db')) ''epoch'' = map_of (rm_metadata db) ''epoch''"
proof -
  have rev: "map_of (rm_metadata db') ''revision'' = Some (show_int (revision_of db))"
    "0 \<le> revision_of db" "i64_range (revision_of db)"
    using assms(1,2) by (simp_all add: db_ok_def tables_ok_def)
  have "0 \<le> revision_of db + 1" "i64_range (revision_of db + 1)"
    using rev assms(3) by (simp_all add: i64_range_def int_defs)
  note nxt = this
  have bump: "bump_revision db' = db'\<lparr>rm_metadata :=
      AList.update ''revision'' (show_int (revision_of db + 1)) (rm_metadata db')\<rparr>"
    using rev by (simp add: bump_revision_def cast_show_int)
  moreover have "revision_of (bump_revision db') = revision_of db + 1"
    unfolding bump using nxt by (subst revision_of_def) (simp add: update_conv' cast_show_int)
  ultimately show ?thesis
    using assms(1,2) nxt by (simp add: db_ok_def tables_ok_def update_conv')
qed

text \<open>A write either fails and changes nothing, or yields the next version.\<close>

definition next_version :: "(string \<Rightarrow> string + unit) \<Rightarrow> cluster_db \<Rightarrow> cluster_db \<Rightarrow> bool" where
  "next_version va db db' \<longleftrightarrow> db_ok va db' \<and> revision_of db' = revision_of db + 1 \<and>
     grows (rm_channel db) (rm_channel db') \<and>
     map_of (rm_metadata db') ''epoch'' = map_of (rm_metadata db) ''epoch''"

lemma write_statements_ok:
  assumes "db_ok va db" and "list_all (statement_ok va) stmts" and "revision_of db < i64_max"
    and "write_statements numeric stmts db = (res, db')"
  shows "db' = db \<and> isl res \<or> next_version va db db'"
proof (cases "exec_all numeric stmts db")
  case (Inl e)
  then show ?thesis using assms(4) by (auto simp: write_statements_def)
next
  case (Inr p)
  obtain ns db1 where p: "p = (ns, db1)" by fastforce
  have t: "tables_ok va db db1"
    using exec_all_ok [OF Inr [unfolded p]] assms(1,2) by (simp add: db_ok_def)
  have "db' = bump_revision db1" using assms(4) Inr p by (simp add: write_statements_def)
  then show ?thesis
    using bump_revision_ok [OF assms(1) t assms(3)] t by (simp add: next_version_def tables_ok_def)
qed

lemma apply_mutation_ok:
  assumes "db_ok va db" and "mutation_ok va now operation" and "revision_of db < i64_max"
    and "apply_mutation numeric now operation db = (res, db')"
  shows "db' = db \<or> next_version va db db'"
proof -
  obtain w db1 where w: "write_statements numeric (mutation_statements now operation) db = (w, db1)"
    by fastforce
  have "db1 = db \<or> next_version va db db1"
    using write_statements_ok [OF assms(1) mutation_statements_ok [OF assms(2)] assms(3) w] by blast
  moreover have "db' = db \<or> db' = db1"
  proof (cases operation)
    case (Pin ch enabled maximum)
    then show ?thesis
      using assms(4) w
      by (auto simp: apply_mutation_def set_pin_local_def mutation_statements_def split: if_splits sum.splits)
  qed (use assms(4) w in \<open>auto simp: apply_mutation_def split: if_splits sum.splits\<close>)
  ultimately show ?thesis by blast
qed

lemma mutate_ok:
  assumes "db_ok va db" and "mutation_ok va now operation" and "revision_of db < i64_max"
    and "mutate numeric owner remote answers now operation db = (res, db')"
  shows "db' = db \<or> next_version va db db'"
proof -
  obtain r db1 where r: "apply_mutation numeric now operation db = (r, db1)" by fastforce
  have "db' = db \<or> db' = db1"
    using assms(4) r by (auto simp: mutate_def split: if_splits sum.splits)
  then show ?thesis using apply_mutation_ok [OF assms(1-3) r] by blast
qed


section \<open>Snapshots\<close>

definition json_row :: "sql_value list \<Rightarrow> json list" where
  "json_row row = map (\<lambda>v. projr (json_of_sql v)) row"

lemma session_json:
  assumes "session_ok row"
  shows "collect_results json_of_sql row = Inr (json_row row)"
    and "collect_results sql_value_of (json_row row) = Inr row" and "length (json_row row) = 9"
  using assms by (auto simp: session_ok_def json_row_def)

lemma collect_results_Inr_map:
  "(\<And>x. x \<in> set xs \<Longrightarrow> f x = Inr (g x)) \<Longrightarrow> collect_results f xs = Inr (map g xs)"
  by (induction xs) auto

lemma policy_from_policy_row [simp]: "policy_from_row (policy_row p) = Inr p"
  by (simp add: policy_from_row_def policy_row_def row_integer_def)

lemma channel_row_simps [simp]:
  "row_string (channel_json c) 0 = Inr (fst c)" "tl (channel_json c) = policy_row (snd c)"
  "length (channel_json c) = 4"
  "row_integer (channel_json c) (Suc 0) = Inr (of_bool (cp_ignored (snd c)))"
  "row_integer (channel_json c) 2 = Inr (of_bool (cp_always_join (snd c)))"
  "row_integer (channel_json c) 3 = Inr (cp_purge_ms (snd c))"
  by (simp_all add: channel_json_def row_string_def policy_row_def row_integer_def numeral_eq_Suc)

lemma policies_of_sorted: "policies_of db = Inr (sort_key fst (rm_channel db))"
proof -
  have "collect_results (\<lambda>r. and_then (row_string r 0) (\<lambda>c. and_then (policy_from_row (tl r)) (\<lambda>p. Inr (c, p))))
      (map channel_json t) = Inr t" for t
    by (induction t) simp_all
  then show ?thesis by (simp add: policies_of_def channel_json_rows_def)
qed

lemma distinct_map_sort [simp]: "distinct (map f (sort_key k xs)) \<longleftrightarrow> distinct (map f xs)"
  by (rule mset_eq_imp_distinct_iff) simp

lemma table_ok_sort: "table_ok va (sort_key fst t) \<longleftrightarrow> table_ok va t"
  by (simp add: table_ok_def)

lemma map_of_sort: "distinct (map fst t) \<Longrightarrow> map_of (sort_key fst t) = map_of t"
  by (intro map_of_eqI) auto

definition snapshot_for :: "cluster_db \<Rightarrow> snapshot" where
  "snapshot_for db =
     \<lparr>sn_epoch = the (map_of (rm_metadata db) ''epoch''), sn_revision = revision_of db,
      sn_channels = map channel_json (sort_key fst (rm_channel db)),
      sn_sessions = map json_row (sort_key session_key (rm_auth db))\<rparr>"

lemma snapshot_of_ok:
  assumes "db_ok va db"
  shows "snapshot_of db = Inr (snapshot_for db)"
proof -
  have "collect_results (collect_results json_of_sql) (sort_key session_key (rm_auth db)) =
      Inr (map json_row (sort_key session_key (rm_auth db)))"
    using assms session_json(1)
    by (intro collect_results_Inr_map) (auto simp: db_ok_def sessions_ok_def list_all_iff)
  then show ?thesis
    using assms
    by (auto simp: snapshot_of_def snapshot_for_def db_ok_def channel_json_rows_def parse_show_int)
qed

section \<open>Accepting a snapshot\<close>

lemma insert_channel_rows:
  "distinct (map fst (held @ t)) \<Longrightarrow>
     insert_rows insert_channel_row (map channel_json t) held = Inr (held @ t)"
  by (induction t arbitrary: held) (auto simp: insert_channel_row_def)

lemma insert_session_rows:
  assumes "list_all session_ok a" and "distinct (map auth_token (held @ a))"
  shows "insert_rows (insert_session_row numeric) (map json_row a) held = Inr (held @ a)"
  using assms
proof (induction a arbitrary: held)
  case (Cons row a)
  have "insert_auth numeric row held = Inr (held @ [row])"
    using Cons.prems session_ok_not_null [of row] list.set_sel(2) [of row]
    by (auto simp: insert_auth_def Let_def session_ok_def)
  then show ?case using Cons session_json [of row] by (simp add: insert_session_row_def)
qed simp

lemma check_channel_rows:
  assumes "table_ok va t" and "grows held t"
  shows "collect_results (check_channel_row va held) (map channel_json t) = Inr (map (\<lambda>_. ()) (map channel_json t))"
proof (rule collect_results_Inr_map)
  fix row
  assume "row \<in> set (map channel_json t)"
  then obtain c where c: "row = channel_json c" "c \<in> set t" by auto
  have "map_of t (fst c) = Some (snd c)" using assms(1) c(2) by (cases c) (auto simp: table_ok_def)
  then have "(case map_of held (fst c) of None \<Rightarrow> 0 | Some p \<Rightarrow> cp_purge_ms p) \<le> cp_purge_ms (snd c)"
  proof (cases "map_of held (fst c)")
    case None
    then show ?thesis using assms(1) c(2) by (simp add: table_ok_def)
  next
    case (Some p)
    then show ?thesis using assms(2) \<open>map_of t (fst c) = Some (snd c)\<close> by (fastforce simp: grows_def)
  qed
  then show "check_channel_row va held row = Inr ()"
    using assms(1) c by (auto simp: check_channel_row_def table_ok_def)
qed

definition replica_holds :: "cluster_db \<Rightarrow> cluster_db \<Rightarrow> bool" where
  "replica_holds db r \<longleftrightarrow> rm_channel r = sort_key fst (rm_channel db) \<and>
     rm_auth r = sort_key session_key (rm_auth db) \<and>
     map_of (rm_metadata r) ''epoch'' = map_of (rm_metadata db) ''epoch'' \<and>
     map_of (rm_metadata r) ''revision'' = map_of (rm_metadata db) ''revision''"

definition fresh_replica :: "cluster_db \<Rightarrow> bool" where
  "fresh_replica r \<longleftrightarrow> rm_channel r = [] \<and> map_of (rm_metadata r) ''epoch'' = None"

lemma replace_tables_ok:
  assumes "db_ok va db" and "grows (rm_channel r) (rm_channel db)" and "distinct (map fst (rm_channel r))"
  shows "\<exists>r'. replace_tables numeric va (snapshot_for db) r = Inr r' \<and> replica_holds db r'"
proof -
  let ?t = "sort_key fst (rm_channel db)" and ?a = "sort_key session_key (rm_auth db)"
  have t: "table_ok va ?t" "distinct (map fst ?t)"
    using assms(1) table_ok_sort by (auto simp: db_ok_def table_ok_def)
  have g: "grows (rm_channel r) ?t"
    using assms(1,2) map_of_sort [of "rm_channel db"] by (simp add: grows_def db_ok_def table_ok_def)
  have names: "collect_results (\<lambda>x. row_string x 0) (map channel_json t) = Inr (map fst t)" for t
    by (induction t) simp_all
  have kept: "\<not> (\<exists>c \<in> set (rm_channel r). cp_purge_ms (snd c) > 0 \<and> fst c \<notin> set (map fst ?t))"
  proof
    assume "\<exists>c \<in> set (rm_channel r). cp_purge_ms (snd c) > 0 \<and> fst c \<notin> set (map fst ?t)"
    then obtain c where c: "c \<in> set (rm_channel r)" "fst c \<notin> set (map fst ?t)" by auto
    have "map_of (rm_channel r) (fst c) = Some (snd c)" using c(1) assms(3) by (cases c) auto
    then obtain p where "map_of ?t (fst c) = Some p" using g unfolding grows_def by blast
    then have "fst c \<in> fst ` set ?t" by (auto dest!: map_of_SomeD intro: rev_image_eqI)
    then show False using c(2) by simp
  qed
  have a: "list_all session_ok ?a" "distinct (map auth_token ?a)"
    using assms(1) by (auto simp: db_ok_def sessions_ok_def list_all_iff)
  obtain r' where r': "r' = \<lparr>rm_channel = ?t, rm_auth = ?a,
      rm_metadata = received_metadata (snapshot_for db) (rm_metadata r)\<rparr>" by blast
  have "replace_tables numeric va (snapshot_for db) r = Inr r'"
    unfolding replace_tables_def r'
    using check_channel_rows [OF t(1) g] names [of ?t] kept insert_channel_rows [of "[]" ?t] t(2)
      insert_session_rows [OF a(1), of "[]"] a(2)
    by (simp add: snapshot_for_def del: bex_simps)
  moreover have "replica_holds db r'"
    using assms(1) by (auto simp: replica_holds_def r' received_metadata_def snapshot_for_def db_ok_def update_conv')
  ultimately show ?thesis by blast
qed

lemma receive_fresh:
  assumes "db_ok va db" and "fresh_replica r"
  shows "\<exists>r'. receive_snapshot numeric va False False (snapshot_for db) r = (Inr True, r') \<and> replica_holds db r'"
proof -
  obtain r' where "replace_tables numeric va (snapshot_for db) r = Inr r'" "replica_holds db r'"
    using replace_tables_ok [OF assms(1), of r] assms(2) by (auto simp: grows_def fresh_replica_def)
  then show ?thesis
    using assms by (auto simp: receive_snapshot_def compare_revision_def fresh_replica_def snapshot_for_def db_ok_def)
qed

lemma receive_newer:
  assumes "db_ok va db" and "db_ok va old" and "replica_holds old r"
    and "map_of (rm_metadata old) ''epoch'' = map_of (rm_metadata db) ''epoch''"
    and "revision_of old < revision_of db" and "grows (rm_channel old) (rm_channel db)"
  shows "\<exists>r'. receive_snapshot numeric va False False (snapshot_for db) r = (Inr True, r') \<and> replica_holds db r'"
proof -
  have d: "distinct (map fst (rm_channel old))" using assms(2) by (simp add: db_ok_def table_ok_def)
  have "grows (rm_channel r) (rm_channel db)"
    using assms(3,6) map_of_sort [OF d] by (simp add: grows_def replica_holds_def)
  moreover have "distinct (map fst (rm_channel r))"
    using assms(2,3) table_ok_sort by (auto simp: db_ok_def replica_holds_def table_ok_def)
  ultimately obtain r' where "replace_tables numeric va (snapshot_for db) r = Inr r'" "replica_holds db r'"
    using replace_tables_ok [OF assms(1), of r] by blast
  moreover have "compare_revision (snapshot_for db) r = Inr True"
    using assms by (auto simp: compare_revision_def replica_holds_def db_ok_def snapshot_for_def parse_show_int)
  ultimately show ?thesis
    using assms(1) by (auto simp: receive_snapshot_def snapshot_for_def db_ok_def)
qed

lemma receive_not_newer:
  assumes "db_ok va db" and "db_ok va held" and "replica_holds held r"
    and "map_of (rm_metadata held) ''epoch'' = map_of (rm_metadata db) ''epoch''"
    and "revision_of db \<le> revision_of held"
  shows "receive_snapshot numeric va False False (snapshot_for db) r =
    (if revision_of db = revision_of held then Inr False else Inl unavailable, r)"
  using assms
  by (auto simp: receive_snapshot_def compare_revision_def replica_holds_def db_ok_def snapshot_for_def parse_show_int)


section \<open>The system\<close>

record cluster =
  cl_owner :: cluster_db
  cl_replica :: cluster_db
  cl_sent :: "snapshot list"

inductive cluster_step ::
    "(string \<Rightarrow> sql_value) \<Rightarrow> (string \<Rightarrow> string + unit) \<Rightarrow> cluster \<Rightarrow> cluster \<Rightarrow> bool"
  for numeric va where
  owner_mutates: "mutation_ok va now operation \<Longrightarrow> revision_of (cl_owner st) < i64_max \<Longrightarrow>
    mutate numeric True remote answers now operation (cl_owner st) = (res, db) \<Longrightarrow>
    cluster_step numeric va st (st\<lparr>cl_owner := db\<rparr>)"
| owner_sends: "snapshot_of (cl_owner st) = Inr s \<Longrightarrow>
    cluster_step numeric va st (st\<lparr>cl_sent := s # cl_sent st\<rparr>)"
| replica_receives: "s \<in> set (cl_sent st) \<Longrightarrow>
    receive_snapshot numeric va False False s (cl_replica st) = (res, db) \<Longrightarrow>
    cluster_step numeric va st (st\<lparr>cl_replica := db\<rparr>)"
| replica_ready: "cluster_step numeric va st (st\<lparr>cl_replica := mark_ready (cl_replica st)\<rparr>)"

inductive cluster_reachable ::
    "(string \<Rightarrow> sql_value) \<Rightarrow> (string \<Rightarrow> string + unit) \<Rightarrow> cluster \<Rightarrow> bool"
  for numeric va where
  cluster_start: "db_ok va db \<Longrightarrow>
    cluster_reachable numeric va \<lparr>cl_owner = db, cl_replica = empty_cluster_db, cl_sent = []\<rparr>"
| cluster_more: "cluster_reachable numeric va st \<Longrightarrow> cluster_step numeric va st st' \<Longrightarrow>
    cluster_reachable numeric va st'"

text \<open>The versions of the owner's database: all before the current one, and ordered by revision.\<close>

definition version_before :: "cluster_db \<Rightarrow> cluster_db \<Rightarrow> bool" where
  "version_before g h \<longleftrightarrow> revision_of g < revision_of h \<and> grows (rm_channel g) (rm_channel h)"

definition versions :: "(string \<Rightarrow> string + unit) \<Rightarrow> cluster_db set \<Rightarrow> cluster_db \<Rightarrow> bool" where
  "versions va H owner \<longleftrightarrow> owner \<in> H \<and>
     (\<forall>g \<in> H. db_ok va g \<and> map_of (rm_metadata g) ''epoch'' = map_of (rm_metadata owner) ''epoch'' \<and>
        (g = owner \<or> version_before g owner)) \<and>
     (\<forall>g \<in> H. \<forall>h \<in> H. g = h \<or> version_before g h \<or> version_before h g)"

lemma versionsD:
  assumes "versions va H owner" and "g \<in> H"
  shows "db_ok va g" and "map_of (rm_metadata g) ''epoch'' = map_of (rm_metadata owner) ''epoch''"
    and "g = owner \<or> version_before g owner" and "h \<in> H \<Longrightarrow> g = h \<or> version_before g h \<or> version_before h g"
  using assms unfolding versions_def by blast+

lemma versions_next:
  assumes "versions va H db" and "next_version va db db'"
  shows "versions va (insert db' H) db'"
proof -
  note next_version = assms(2) [unfolded next_version_def]
  have before: "version_before g db'" if "g \<in> H" for g
    using versionsD(3) [OF assms(1) that] next_version grows_trans [of "rm_channel g" "rm_channel db"]
    by (elim disjE) (simp_all add: version_before_def)
  have ok: "db_ok va g" "map_of (rm_metadata g) ''epoch'' = map_of (rm_metadata db') ''epoch''"
    if "g \<in> insert db' H" for g
    using that versionsD(1,2) [OF assms(1)] next_version by auto
  have "g = h \<or> version_before g h \<or> version_before h g"
    if "g \<in> insert db' H" and "h \<in> insert db' H" for g h
    using that before versionsD(4) [OF assms(1)] by blast
  then show ?thesis
    unfolding versions_def using ok before by blast
qed

definition cluster_inv :: "(string \<Rightarrow> string + unit) \<Rightarrow> cluster \<Rightarrow> bool" where
  "cluster_inv va st \<longleftrightarrow> (\<exists>H. versions va H (cl_owner st) \<and> set (cl_sent st) \<subseteq> snapshot_for ` H \<and>
     (fresh_replica (cl_replica st) \<or> (\<exists>h \<in> H. replica_holds h (cl_replica st))))"

text \<open>Any version delivered to a replica that is fresh or holds a version.\<close>

lemma receive_version:
  assumes "versions va H owner" and "h \<in> H" and "fresh_replica r \<or> (\<exists>g \<in> H. replica_holds g r)"
    and "receive_snapshot numeric va False False (snapshot_for h) r = (res, r')"
  shows "r' = r \<and> (\<exists>g \<in> H. replica_holds g r \<and> revision_of h \<le> revision_of g \<and> (g = h \<longrightarrow> res = Inr False)) \<or>
    res = Inr True \<and> replica_holds h r' \<and> (fresh_replica r \<or> (\<exists>g \<in> H. replica_holds g r \<and> version_before g h))"
proof (cases "fresh_replica r")
  case True
  then obtain r1 where "receive_snapshot numeric va False False (snapshot_for h) r = (Inr True, r1)" "replica_holds h r1"
    using receive_fresh [OF versionsD(1) [OF assms(1,2)]] by blast
  then show ?thesis using assms(4) True by simp
next
  case False
  then obtain g where g: "g \<in> H" "replica_holds g r" using assms(3) by blast
  have ok: "db_ok va g" "db_ok va h"
    "map_of (rm_metadata g) ''epoch'' = map_of (rm_metadata h) ''epoch''"
    using versionsD(1,2) [OF assms(1)] assms(2) g(1) by auto
  have "g = h \<or> version_before g h \<or> version_before h g"
    by (rule versionsD(4) [OF assms(1) g(1) assms(2)])
  then consider "version_before g h" | "revision_of h \<le> revision_of g"
    by (auto simp: version_before_def)
  then show ?thesis
  proof cases
    case 1
    then have "res = Inr True \<and> replica_holds h r'"
      using receive_newer [OF ok(2,1) g(2) ok(3), of numeric] assms(4) by (auto simp: version_before_def)
    then show ?thesis using g 1 by blast
  next
    case 2
    then have "r' = r \<and> (g = h \<longrightarrow> res = Inr False)"
      using receive_not_newer [OF ok(2,1) g(2) ok(3), of numeric] assms(4) by auto
    then show ?thesis using g 2 by blast
  qed
qed

lemma mark_ready_same:
  "fresh_replica (mark_ready r) = fresh_replica r" "replica_holds h (mark_ready r) = replica_holds h r"
  by (simp_all add: fresh_replica_def replica_holds_def mark_ready_def update_conv')

lemma cluster_inv_step:
  assumes "cluster_inv va st" and "cluster_step numeric va st st'"
  shows "cluster_inv va st'"
  using assms(2,1)
proof (induction rule: cluster_step.induct)
  case (owner_mutates now operation st remote answers res db)
  then obtain H where H: "versions va H (cl_owner st)" "set (cl_sent st) \<subseteq> snapshot_for ` H"
    "fresh_replica (cl_replica st) \<or> (\<exists>h \<in> H. replica_holds h (cl_replica st))"
    by (auto simp: cluster_inv_def)
  have owner: "db_ok va (cl_owner st)" using H(1) by (simp add: versions_def)
  consider "db = cl_owner st" | "next_version va (cl_owner st) db"
    using mutate_ok [OF owner owner_mutates(1-3)] by blast
  then show ?case
  proof cases
    case 1
    then show ?thesis using owner_mutates(4) by simp
  next
    case 2
    show ?thesis
      unfolding cluster_inv_def
      by (intro exI [of _ "insert db H"]) (use versions_next [OF H(1) 2] H(2,3) in auto)
  qed
next
  case (owner_sends st s)
  then obtain H where H: "versions va H (cl_owner st)" "set (cl_sent st) \<subseteq> snapshot_for ` H"
    "fresh_replica (cl_replica st) \<or> (\<exists>h \<in> H. replica_holds h (cl_replica st))"
    by (auto simp: cluster_inv_def)
  have "db_ok va (cl_owner st)" "cl_owner st \<in> H" using H(1) by (simp_all add: versions_def)
  then have "s \<in> snapshot_for ` H" using owner_sends(1) by (auto simp: snapshot_of_ok)
  then show ?case using H unfolding cluster_inv_def by (intro exI [of _ H]) simp
next
  case (replica_receives s st res db)
  then obtain H where H: "versions va H (cl_owner st)" "set (cl_sent st) \<subseteq> snapshot_for ` H"
    "fresh_replica (cl_replica st) \<or> (\<exists>h \<in> H. replica_holds h (cl_replica st))"
    by (auto simp: cluster_inv_def)
  obtain h where h: "h \<in> H" "s = snapshot_for h" using H(2) replica_receives(1) by auto
  have "fresh_replica db \<or> (\<exists>h \<in> H. replica_holds h db)"
    using receive_version [OF H(1) h(1) H(3), of numeric res db] replica_receives(2) h H(3) by blast
  then show ?case using H unfolding cluster_inv_def by (intro exI [of _ H]) simp
next
  case (replica_ready st)
  then show ?case by (simp add: cluster_inv_def mark_ready_same)
qed

lemma cluster_reachable_inv: "cluster_reachable numeric va st \<Longrightarrow> cluster_inv va st"
proof (induction rule: cluster_reachable.induct)
  case (cluster_start db)
  then have "versions va {db} db" by (simp add: versions_def)
  then show ?case
    unfolding cluster_inv_def
    by (intro exI [of _ "{db}"]) (simp add: fresh_replica_def empty_cluster_db_def)
next
  case (cluster_more st st')
  then show ?case using cluster_inv_step by blast
qed


section \<open>What the tables answer\<close>

lemma filter_mset_single:
  assumes "mset xs = mset ys" and "length (filter P xs) \<le> 1"
  shows "filter P xs = filter P ys"
proof -
  have m: "mset (filter P xs) = mset (filter P ys)" using assms(1) by simp
  then have "length (filter P ys) = length (filter P xs)" by (metis size_mset)
  then show ?thesis
    using m assms(2) by (cases "filter P xs"; cases "filter P ys") auto
qed

lemma distinct_filter_single:
  assumes "distinct (map f xs)" and "\<And>x. P x \<Longrightarrow> f x = k"
  shows "length (filter P xs) \<le> 1"
  using assms(1)
proof (induction xs)
  case (Cons x xs)
  show ?case
  proof (cases "P x")
    case True
    have "\<not> P y" if "y \<in> set xs" for y
    proof
      assume "P y"
      then have "f x = f y" using assms(2) [OF True] assms(2) by simp
      then show False using Cons.prems that by auto
    qed
    then have "filter P xs = []" by (simp add: filter_empty_conv)
    then show ?thesis by simp
  next
    case False
    then show ?thesis using Cons by simp
  qed
qed simp

lemma replica_holds_same_answers:
  assumes "db_ok va db" and "replica_holds db r"
  shows "policies_of r = policies_of db" and "policy_of r ch = policy_of db ch" and "pins_of r = pins_of db"
    and "auth_of f r token now = auth_of f db token now"
proof -
  have d: "distinct (map fst (rm_channel db))" "distinct (map auth_token (rm_auth db))"
    using assms(1) by (simp_all add: db_ok_def table_ok_def sessions_ok_def)
  have c: "rm_channel r = sort_key fst (rm_channel db)" "rm_auth r = sort_key session_key (rm_auth db)"
    using assms(2) by (simp_all add: replica_holds_def)
  have idem: "sort_key fst (sort_key fst t) = sort_key fst t" for t :: "(string \<times> channel_policy) list"
    by (rule sort_key_id_if_sorted) simp
  show "policies_of r = policies_of db" by (simp add: policies_of_sorted c idem)
  show "policy_of r ch = policy_of db ch" by (simp add: policy_of_def c map_of_sort [OF d(1)])
  show "pins_of r = pins_of db"
    by (simp add: pins_of_def c filter_sort [symmetric] idem)
  have "auth_token row = Some token" if "auth_matches token now row" for row
    using that by (cases row) (auto simp: auth_matches_def auth_token_def)
  then have "length (filter (auth_matches token now) (rm_auth db)) \<le> 1"
    by (rule distinct_filter_single [OF d(2)])
  then have "filter (auth_matches token now) (rm_auth r) = filter (auth_matches token now) (rm_auth db)"
    using filter_mset_single [of "rm_auth db" "rm_auth r"] by (simp add: c)
  then show "auth_of f r token now = auth_of f db token now" by (simp add: auth_of_def)
qed

definition purge_cutoff_of :: "cluster_db \<Rightarrow> string \<Rightarrow> int" where
  "purge_cutoff_of db ch = (case map_of (rm_channel db) ch of None \<Rightarrow> 0 | Some p \<Rightarrow> cp_purge_ms p)"

lemma purge_cutoff_grows: "table_ok va t' \<Longrightarrow> grows (rm_channel db) t' \<Longrightarrow> rm_channel db' = t' \<Longrightarrow> purge_cutoff_of db ch \<le> purge_cutoff_of db' ch"
  by (cases "map_of (rm_channel db) ch"; cases "map_of t' ch")
     (fastforce simp: purge_cutoff_of_def grows_def dest: table_ok_purge)+

lemma purge_cutoff_holds: "db_ok va h \<Longrightarrow> replica_holds h r \<Longrightarrow> purge_cutoff_of r ch = purge_cutoff_of h ch"
  by (simp add: purge_cutoff_of_def replica_holds_def db_ok_def table_ok_def map_of_sort)

lemma purge_cutoff_version: "db_ok va h \<Longrightarrow> version_before g h \<Longrightarrow> purge_cutoff_of g ch \<le> purge_cutoff_of h ch"
  using purge_cutoff_grows [of va "rm_channel h" g h] by (simp add: version_before_def db_ok_def)

lemma purge_cutoff_fresh: "fresh_replica r \<Longrightarrow> purge_cutoff_of r ch = 0"
  by (simp add: purge_cutoff_of_def fresh_replica_def)

lemma purge_cutoff_nonneg: "db_ok va h \<Longrightarrow> 0 \<le> purge_cutoff_of h ch"
  by (auto simp: purge_cutoff_of_def db_ok_def dest: table_ok_purge split: option.splits)

lemma replica_purge_cutoff_le:
  assumes "cluster_inv va st"
  shows "purge_cutoff_of (cl_replica st) ch \<le> purge_cutoff_of (cl_owner st) ch"
proof -
  obtain H where H: "versions va H (cl_owner st)"
    "fresh_replica (cl_replica st) \<or> (\<exists>h \<in> H. replica_holds h (cl_replica st))"
    using assms by (auto simp: cluster_inv_def)
  have owner: "cl_owner st \<in> H" using H(1) by (simp add: versions_def)
  show ?thesis
    using H(2)
  proof (elim disjE bexE)
    assume "fresh_replica (cl_replica st)"
    then show ?thesis using purge_cutoff_nonneg [OF versionsD(1) [OF H(1) owner]] by (simp add: purge_cutoff_fresh)
  next
    fix h assume h: "h \<in> H" "replica_holds h (cl_replica st)"
    have "purge_cutoff_of h ch \<le> purge_cutoff_of (cl_owner st) ch"
      using versionsD(3) [OF H(1) h(1)] purge_cutoff_version [OF versionsD(1) [OF H(1) owner]] by auto
    then show ?thesis using purge_cutoff_holds [OF versionsD(1) [OF H(1) h(1)] h(2)] by simp
  qed
qed

section \<open>Properties\<close>

text \<open>
  C9: the replica converges on the owner. In every reachable state of the system, whatever was lost,
  duplicated or reordered, the owner's current snapshot is accepted, and the replica then gives the
  owner's answers: the same policies, the same pins and the same valid sessions.
\<close>

theorem replica_converges:
  assumes "cluster_reachable numeric va st"
  shows "\<exists>s changed r. snapshot_of (cl_owner st) = Inr s \<and>
    receive_snapshot numeric va False False s (cl_replica st) = (Inr changed, r) \<and>
    policies_of r = policies_of (cl_owner st) \<and> (\<forall>ch. policy_of r ch = policy_of (cl_owner st) ch) \<and>
    pins_of r = pins_of (cl_owner st) \<and>
    (\<forall>f token now. auth_of f r token now = auth_of f (cl_owner st) token now)"
proof -
  obtain H where H: "versions va H (cl_owner st)"
    "fresh_replica (cl_replica st) \<or> (\<exists>h \<in> H. replica_holds h (cl_replica st))"
    using cluster_reachable_inv [OF assms] by (auto simp: cluster_inv_def)
  have owner: "cl_owner st \<in> H" using H(1) by (simp add: versions_def)
  have ok: "db_ok va (cl_owner st)" by (rule versionsD(1) [OF H(1) owner])
  obtain res r where r: "receive_snapshot numeric va False False (snapshot_for (cl_owner st)) (cl_replica st) = (res, r)"
    by fastforce
  have "\<exists>changed. res = Inr changed \<and> replica_holds (cl_owner st) r"
    using receive_version [OF H(1) owner H(2) r]
  proof (elim disjE conjE bexE)
    fix g assume g: "g \<in> H" "replica_holds g (cl_replica st)" "revision_of (cl_owner st) \<le> revision_of g"
      "g = cl_owner st \<longrightarrow> res = Inr False" and "r = cl_replica st"
    have "g = cl_owner st" using versionsD(3) [OF H(1) g(1)] g(3) by (auto simp: version_before_def)
    then show ?thesis using g \<open>r = cl_replica st\<close> by blast
  qed blast+
  then show ?thesis
    using snapshot_of_ok [OF ok] r replica_holds_same_answers [OF ok] by metis
qed

definition ex_owner :: cluster_db where
  "ex_owner = \<lparr>rm_channel = [(''b'', default_policy)], rm_auth = [],
     rm_metadata = [(''initialized'', ''1''), (''epoch'', ''e''), (''revision'', ''0'')]\<rparr>"

definition ex_mutate :: "cluster_db \<Rightarrow> (storage_error + bool) \<times> cluster_db" where
  "ex_mutate = mutate (\<lambda>_. SqlNull) True (\<lambda>_. Inr False) (\<lambda>_. [Inr True]) 7 (Ignore ''A'' True)"

definition ex_cluster :: cluster where
  "ex_cluster = \<lparr>cl_owner = snd (ex_mutate ex_owner), cl_replica = empty_cluster_db,
     cl_sent = [snapshot_for ex_owner]\<rparr>"

lemma ex_owner_revision: "revision_of ex_owner = 0"
  by code_simp

lemma ex_owner_ok: "db_ok (\<lambda>_. Inr ()) ex_owner"
proof -
  have "show_int 0 = ''0''" by code_simp
  then show ?thesis
    unfolding db_ok_def ex_owner_revision
    by (simp add: ex_owner_def table_ok_def sessions_ok_def default_policy_def i64_range_def int_defs)
qed

lemma ex_cluster_reachable: "cluster_reachable (\<lambda>_. SqlNull) (\<lambda>_. Inr ()) ex_cluster"
proof -
  let ?st0 = "\<lparr>cl_owner = ex_owner, cl_replica = empty_cluster_db, cl_sent = []\<rparr>"
  let ?st1 = "?st0\<lparr>cl_sent := [snapshot_for ex_owner]\<rparr>"
  have "cluster_step (\<lambda>_. SqlNull) (\<lambda>_. Inr ()) ?st0 (?st0\<lparr>cl_sent := snapshot_for ex_owner # cl_sent ?st0\<rparr>)"
    by (rule owner_sends) (simp add: snapshot_of_ok [OF ex_owner_ok])
  then have r1: "cluster_reachable (\<lambda>_. SqlNull) (\<lambda>_. Inr ()) ?st1"
    using cluster_more [OF cluster_start [OF ex_owner_ok]] by simp
  obtain res db where m: "ex_mutate ex_owner = (res, db)" by fastforce
  have "cluster_step (\<lambda>_. SqlNull) (\<lambda>_. Inr ()) ?st1 (?st1\<lparr>cl_owner := db\<rparr>)"
    by (rule owner_mutates [OF _ _ m [unfolded ex_mutate_def, folded ex_mutate_def, THEN trans [rotated]]])
       (simp_all add: mutation_ok_def ex_owner_revision int_defs ex_mutate_def)
  then show ?thesis using cluster_more [OF r1] m by (simp add: ex_cluster_def)
qed

theorem replica_converges_witness:
  "\<exists>s changed r. receive_snapshot (\<lambda>_. SqlNull) (\<lambda>_. Inr ()) False False s empty_cluster_db = (Inr changed, r) \<and>
    policy_of r ''a'' = Inr \<lparr>cp_ignored = True, cp_always_join = False, cp_purge_ms = 7\<rparr>"
proof -
  have "policy_of (cl_owner ex_cluster) ''a'' = Inr \<lparr>cp_ignored = True, cp_always_join = False, cp_purge_ms = 7\<rparr>"
    by code_simp
  moreover obtain s changed r where "receive_snapshot (\<lambda>_. SqlNull) (\<lambda>_. Inr ()) False False s
      (cl_replica ex_cluster) = (Inr changed, r)" "\<forall>ch. policy_of r ch = policy_of (cl_owner ex_cluster) ch"
    using replica_converges [OF ex_cluster_reachable] by blast
  ultimately show ?thesis
    by (intro exI [of _ s] exI [of _ changed] exI [of _ r]) (simp add: ex_cluster_def)
qed

text \<open>
  C16: no purge is ever undone: in every step of the system, whatever snapshot arrives, the purge cutoff
  of a channel decreases neither at the owner nor at the replica, and the replica's never exceeds the
  owner's.
\<close>

theorem cutoffs_monotone:
  assumes "cluster_reachable numeric va st" and "cluster_step numeric va st st'"
  shows "purge_cutoff_of (cl_owner st) ch \<le> purge_cutoff_of (cl_owner st') ch \<and>
    purge_cutoff_of (cl_replica st) ch \<le> purge_cutoff_of (cl_replica st') ch \<and>
    purge_cutoff_of (cl_replica st') ch \<le> purge_cutoff_of (cl_owner st') ch"
proof -
  have inv: "cluster_inv va st" using assms(1) by (rule cluster_reachable_inv)
  have le: "purge_cutoff_of (cl_replica st') ch \<le> purge_cutoff_of (cl_owner st') ch"
    by (rule replica_purge_cutoff_le [OF cluster_inv_step [OF inv assms(2)]])
  obtain H where H: "versions va H (cl_owner st)" "set (cl_sent st) \<subseteq> snapshot_for ` H"
    "fresh_replica (cl_replica st) \<or> (\<exists>h \<in> H. replica_holds h (cl_replica st))"
    using inv by (auto simp: cluster_inv_def)
  from assms(2) H have "purge_cutoff_of (cl_owner st) ch \<le> purge_cutoff_of (cl_owner st') ch \<and>
    purge_cutoff_of (cl_replica st) ch \<le> purge_cutoff_of (cl_replica st') ch"
  proof (induction rule: cluster_step.induct)
    case (owner_mutates now operation st remote answers res db)
    have "db_ok va (cl_owner st)" using owner_mutates(4) by (simp add: versions_def)
    then have "db = cl_owner st \<or> next_version va (cl_owner st) db"
      using mutate_ok owner_mutates(1-3) by blast
    then show ?case
      using purge_cutoff_grows [of va "rm_channel db" "cl_owner st" db]
      by (auto simp: next_version_def db_ok_def)
  next
    case (replica_receives s st res db)
    obtain h where h: "h \<in> H" "s = snapshot_for h" using replica_receives(1,4) by auto
    have ok: "db_ok va h" by (rule versionsD(1) [OF replica_receives(3) h(1)])
    have "purge_cutoff_of (cl_replica st) ch \<le> purge_cutoff_of db ch"
      using receive_version [OF replica_receives(3) h(1) replica_receives(5), of numeric res db]
        replica_receives(2) h(2) purge_cutoff_holds [OF ok] purge_cutoff_version [OF ok] purge_cutoff_nonneg [OF ok]
        purge_cutoff_holds [OF versionsD(1) [OF replica_receives(3)]]
      by (auto simp: purge_cutoff_fresh)
    then show ?case by simp
  next
    case (replica_ready st)
    then show ?case by (simp add: purge_cutoff_of_def mark_ready_def)
  qed simp
  then show ?thesis using le by blast
qed


theorem cutoffs_monotone_witness:
  "purge_cutoff_of (cl_replica ex_cluster) ''b'' \<le>
     purge_cutoff_of (snd (receive_snapshot (\<lambda>_. SqlNull) (\<lambda>_. Inr ()) False False (snapshot_for ex_owner) empty_cluster_db)) ''b''"
proof -
  obtain res db where r: "receive_snapshot (\<lambda>_. SqlNull) (\<lambda>_. Inr ()) False False (snapshot_for ex_owner)
      (cl_replica ex_cluster) = (res, db)" by fastforce
  have "cluster_step (\<lambda>_. SqlNull) (\<lambda>_. Inr ()) ex_cluster (ex_cluster\<lparr>cl_replica := db\<rparr>)"
    by (rule replica_receives [OF _ r]) (simp add: ex_cluster_def)
  then show ?thesis
    using cutoffs_monotone [OF ex_cluster_reachable, of "ex_cluster\<lparr>cl_replica := db\<rparr>" "''b''"] r
    by (simp add: ex_cluster_def)
qed

lemma pinned_count_update:
  assumes "distinct (map fst t)"
  shows "length (filter (\<lambda>c. cp_always_join (snd c)) (AList.update ch q t)) +
      (case map_of t ch of None \<Rightarrow> 0 | Some p \<Rightarrow> of_bool (cp_always_join p)) =
    length (filter (\<lambda>c. cp_always_join (snd c)) t) + of_bool (cp_always_join q)"
  using assms
proof (induction t)
  case (Cons c t)
  then show ?case by (cases c) (auto simp: map_of_eq_None_iff split: option.splits dest: map_of_SomeD)
qed simp


lemma bump_revision_channels [simp]: "rm_channel (bump_revision db) = rm_channel db"
  by (simp add: bump_revision_def split: option.splits)

lemma set_pin_local_eq:
  assumes "int maximum \<le> i64_max"
  shows "set_pin_local numeric ch enabled maximum db = (res, db') \<Longrightarrow>
    (case map_of (rm_channel db) (to_ascii_lowercase ch) of None \<Rightarrow> default_policy | Some p \<Rightarrow> p) = p \<Longrightarrow>
    if enabled \<and> maximum \<le> pinned_count db \<and> \<not> is_pinned db (to_ascii_lowercase ch)
    then res = Inl (AlwaysJoinLimitReached maximum) \<and> rm_channel db' = rm_channel db
    else res = Inr False \<and>
      (if enabled \<or> map_of (rm_channel db) (to_ascii_lowercase ch) \<noteq> None
       then rm_channel db' = AList.update (to_ascii_lowercase ch) (p\<lparr>cp_always_join := enabled\<rparr>) (rm_channel db)
       else rm_channel db' = rm_channel db)"
  using assms
  by (cases enabled; cases "map_of (rm_channel db) (to_ascii_lowercase ch)")
     (auto simp: set_pin_local_def write_statements_def pin_statements_def exec_statement_def pin_channel_def
        upsert_channel_def split: if_splits)

text \<open>
  The limit on pinned channels is exact: pinning fails with the limit error exactly when the channel
  is not yet pinned and the limit is reached, and then no channel changes; otherwise the channel is
  pinned, or unpinned, no other channel changes, and the number of pinned channels stays within the limit
  or does not grow.
\<close>

theorem pin_limit_exact:
  assumes "distinct (map fst (rm_channel db))" and "int maximum \<le> i64_max"
    and "set_pin_local numeric ch enabled maximum db = (res, db')" and "key = to_ascii_lowercase ch"
  shows "(res \<noteq> Inr False \<longleftrightarrow> enabled \<and> maximum \<le> pinned_count db \<and> \<not> is_pinned db key) \<and>
    (res \<noteq> Inr False \<longrightarrow> res = Inl (AlwaysJoinLimitReached maximum) \<and> rm_channel db' = rm_channel db) \<and>
    (res = Inr False \<longrightarrow> is_pinned db' key = enabled \<and>
       (\<forall>other. other \<noteq> key \<longrightarrow> map_of (rm_channel db') other = map_of (rm_channel db) other) \<and>
       purge_cutoff_of db' key = purge_cutoff_of db key) \<and>
    pinned_count db' \<le> max maximum (pinned_count db)"
proof -
  define p where "p = (case map_of (rm_channel db) key of None \<Rightarrow> default_policy | Some p \<Rightarrow> p)"
  note eq = set_pin_local_eq [OF assms(2,3) p_def [unfolded assms(4), symmetric]]
  note count = pinned_count_update [OF assms(1), of key "p\<lparr>cp_always_join := enabled\<rparr>"]
  consider (limit) "enabled \<and> maximum \<le> pinned_count db \<and> \<not> is_pinned db key"
    | (set) "\<not> (enabled \<and> maximum \<le> pinned_count db \<and> \<not> is_pinned db key)"
        "enabled \<or> map_of (rm_channel db) key \<noteq> None"
    | (absent) "\<not> enabled" "map_of (rm_channel db) key = None"
    by blast
  then show ?thesis
  proof cases
    case limit
    then have "res = Inl (AlwaysJoinLimitReached maximum)" "rm_channel db' = rm_channel db"
      using eq by (simp_all add: assms(4))
    then show ?thesis using limit by (simp add: pinned_count_def)
  next
    case set
    then have r: "res = Inr False" "rm_channel db' = AList.update key (p\<lparr>cp_always_join := enabled\<rparr>) (rm_channel db)"
      using eq by (simp_all add: assms(4) split: if_splits)
    have "purge_cutoff_of db' key = purge_cutoff_of db key"
      unfolding purge_cutoff_of_def r(2) by (cases "map_of (rm_channel db) key") (simp_all add: p_def default_policy_def update_conv')
    moreover have "pinned_count db' \<le> max maximum (pinned_count db)"
      using set(1) count unfolding pinned_count_def r(2)
      by (cases enabled; cases "map_of (rm_channel db) key") (auto simp: is_pinned_def)
    ultimately show ?thesis
      using r set(1) by (simp add: is_pinned_def update_conv')
  next
    case absent
    then have "res = Inr False" "rm_channel db' = rm_channel db"
      using eq by (simp_all add: assms(4))
    then show ?thesis using absent by (simp add: is_pinned_def pinned_count_def purge_cutoff_of_def)
  qed
qed

theorem pin_limit_exact_witness:
  "fst (set_pin_local (\<lambda>_. SqlNull) ''B'' True 0 ex_owner) \<noteq> Inr False \<and>
   fst (set_pin_local (\<lambda>_. SqlNull) ''B'' True 1 ex_owner) = Inr False"
proof -
  have d: "distinct (map fst (rm_channel ex_owner))" "pinned_count ex_owner = 0"
    "\<not> is_pinned ex_owner (to_ascii_lowercase ''B'')"
    by code_simp+
  have m: "int 0 \<le> i64_max" "int 1 \<le> i64_max" by (simp_all add: int_defs)
  show ?thesis
    using pin_limit_exact [OF d(1) m(1) prod.collapse [symmetric] refl, of "\<lambda>_. SqlNull" "''B''" True]
      pin_limit_exact [OF d(1) m(2) prod.collapse [symmetric] refl, of "\<lambda>_. SqlNull" "''B''" True] d(2,3)
    by simp
qed

end
