(* ===== verification/ClusterPolicy.thy ===== *)
theory ClusterPolicy
  imports SqliteWriter Peer ControlProperties ClusterReplication
begin

text \<open>
  How a node applies the cluster's policies, \<^verbatim>\<open>src/web/cluster_policy.rs\<close>: \<open>AppliedPolicies::apply\<close> purges
  the stores before it records a policy, \<open>gate\<close> lets a request through only after its channel's policy
  is applied, and \<open>accept_snapshot\<close> takes over the owner's state. The block store is the writer of
  \<open>SqliteWriter\<close>, the open blocks those of \<open>OpenBlocks\<close>; the lock of the open blocks is never poisoned.
\<close>

record policy_app =
  pa_cluster :: "cluster_node option"
  pa_applied :: "(string \<times> channel_policy) list"
  pa_db :: sqlite_db
  pa_open :: "open_block_manager option"
  pa_control :: control_db
  pa_parted :: "string list"
  pa_reconciles :: nat

section \<open>Applying a policy\<close>

text \<open>The policy a former process applied is read from the control store.\<close>

definition load_applied :: "string \<Rightarrow> policy_app \<Rightarrow> policy_app" where
  "load_applied ch app =
     (case map_of (pa_applied app) ch of
        Some _ \<Rightarrow> app
      | None \<Rightarrow> (case applied_cluster_policy ch (pa_control app) of
                   None \<Rightarrow> app
                 | Some previous \<Rightarrow> app\<lparr>pa_applied := AList.update ch previous (pa_applied app)\<rparr>))"

definition purge_stage :: "string \<Rightarrow> int \<Rightarrow> policy_app \<Rightarrow> (api_error + unit) \<times> policy_app" where
  "purge_stage ch purge_ms app =
     (case purge_channel ch purge_ms (pa_db app) of
        (Inl e, db) \<Rightarrow> (Inl (PurgeMessages e), app\<lparr>pa_db := db\<rparr>)
      | (Inr _, db) \<Rightarrow> (Inr (), app\<lparr>pa_db := db, pa_open := map_option (open_purge_channel ch) (pa_open app),
          pa_control := invalidate_channel_coverage ch (pa_control app)\<rparr>))"

definition apply_policy :: "string \<Rightarrow> channel_policy \<Rightarrow> policy_app \<Rightarrow> (api_error + unit) \<times> policy_app" where
  "apply_policy ch policy app0 =
     (let app = load_applied ch app0;
          current = map_of (pa_applied app) ch;
          previous_cutoff = (case current of None \<Rightarrow> 0 | Some p \<Rightarrow> cp_purge_ms p)
      in if current = Some policy \<or> policy = default_policy \<and> current = None then (Inr (), app)
         else if cp_purge_ms policy < previous_cutoff then (Inl ServiceOverloaded, app)
         else (case set_channel_blocked ch (cp_ignored policy) (pa_db app) of
                 (Inl e, db) \<Rightarrow> (Inl (PurgeMessages e), app\<lparr>pa_db := db\<rparr>)
               | (Inr _, db) \<Rightarrow>
                   (case (if cp_ignored policy \<or> cp_purge_ms policy > previous_cutoff
                          then purge_stage ch (cp_purge_ms policy) (app\<lparr>pa_db := db\<rparr>)
                          else (Inr (), app\<lparr>pa_db := db\<rparr>)) of
                      (Inl e, app') \<Rightarrow> (Inl e, app')
                    | (Inr _, app') \<Rightarrow>
                        (Inr (), app'\<lparr>
                           pa_parted := (if cp_ignored policy then pa_parted app' @ [ch] else pa_parted app'),
                           pa_control := apply_cluster_policy ch policy (pa_control app'),
                           pa_applied := AList.update ch policy (pa_applied app')\<rparr>))))"

section \<open>The gate and the snapshot handlers\<close>

definition contains_text :: "string \<Rightarrow> string \<Rightarrow> bool" where
  "contains_text text pattern \<longleftrightarrow>
     list_ex (\<lambda>i. take (length pattern) (drop i text) = pattern) [0..<Suc (length text)]"

text \<open>An error response, or the request goes on, with its policy when there is a cluster.\<close>

definition gate ::
    "(bytes \<Rightarrow> string option) \<Rightarrow> (string \<Rightarrow> string + unit) \<Rightarrow> string option \<Rightarrow> string \<Rightarrow> string \<Rightarrow> headers \<Rightarrow>
     policy_app \<Rightarrow> (api_error + channel_policy option) \<times> policy_app" where
  "gate to_str validate_login token login path hs app =
     (case pa_cluster app of
        None \<Rightarrow> (Inr None, app)
      | Some node \<Rightarrow>
          (let ch = to_ascii_lowercase login
           in case map_err InvalidChannelLogin (validate_login ch) of
                Inl e \<Rightarrow> (Inl e, app)
              | Inr _ \<Rightarrow>
                  (case (if contains_text path ''/local-recent/'' \<or> contains_text path ''/serve/''
                         then authorize_peer to_str hs token else Inr ()) of
                     Inl e \<Rightarrow> (Inl e, app)
                   | Inr _ \<Rightarrow>
                       if isl (cluster_check (cn_db node)) then (Inl ServiceOverloaded, app)
                       else (case policy_of (cn_db node) ch of
                               Inl _ \<Rightarrow> (Inl ServiceOverloaded, app)
                             | Inr policy \<Rightarrow>
                                 (case apply_policy ch policy app of
                                    (Inl e, app') \<Rightarrow> (Inl e, app')
                                  | (Inr _, app') \<Rightarrow>
                                      (if cp_ignored policy then Inl (ChannelIgnored ch) else Inr (Some policy),
                                       app'))))))"

fun apply_policies :: "(string \<times> channel_policy) list \<Rightarrow> policy_app \<Rightarrow> (api_error + unit) \<times> policy_app" where
  "apply_policies [] app = (Inr (), app)"
| "apply_policies ((ch, policy) # rest) app =
     (case apply_policy ch policy app of
        (Inl e, app') \<Rightarrow> (Inl e, app') | (Inr _, app') \<Rightarrow> apply_policies rest app')"

definition synchronize :: "policy_app \<Rightarrow> (api_error + unit) \<times> policy_app" where
  "synchronize app =
     (case pa_cluster app of
        None \<Rightarrow> (Inr (), app)
      | Some node \<Rightarrow>
          (case map_err GetCoverage (policies_of (cn_db node)) of
             Inl e \<Rightarrow> (Inl e, app)
           | Inr policies \<Rightarrow>
               (case apply_policies policies app of
                  (Inl e, app') \<Rightarrow> (Inl e, app')
                | (Inr _, app') \<Rightarrow>
                    (case sync_always_join_channels
                        (map fst (filter (\<lambda>(c, p). cp_always_join p) policies)) (pa_db app') of
                       (Inl e, db) \<Rightarrow> (Inl (SyncAlwaysJoin e), app'\<lparr>pa_db := db\<rparr>)
                     | (Inr _, db) \<Rightarrow>
                         (Inr (), app'\<lparr>pa_db := db, pa_reconciles := Suc (pa_reconciles app')\<rparr>)))))"

definition with_node_db :: "cluster_db \<Rightarrow> policy_app \<Rightarrow> policy_app" where
  "with_node_db db app = app\<lparr>pa_cluster := map_option (\<lambda>node. node\<lparr>cn_db := db\<rparr>) (pa_cluster app)\<rparr>"

definition accept_snapshot ::
    "(string \<Rightarrow> string + unit) \<Rightarrow> snapshot \<Rightarrow> policy_app \<Rightarrow> (api_error + unit) \<times> policy_app" where
  "accept_snapshot validate_login s app =
     (case pa_cluster app of
        None \<Rightarrow> (Inl ServiceOverloaded, app)
      | Some node \<Rightarrow>
          (case receive_snapshot (cn_numeric node) validate_login (cn_owner node) False s (cn_db node) of
             (Inl e, db) \<Rightarrow> (Inl (GetCoverage e), with_node_db db app)
           | (Inr _, db) \<Rightarrow>
               (case synchronize (with_node_db db app) of
                  (Inl e, app') \<Rightarrow> (Inl e, app')
                | (Inr _, app') \<Rightarrow> (Inr (), with_node_db (mark_ready db) app'))))"

definition state_get ::
    "(bytes \<Rightarrow> string option) \<Rightarrow> string option \<Rightarrow> headers \<Rightarrow> policy_app \<Rightarrow> api_error + snapshot" where
  "state_get to_str token hs app =
     and_then (authorize_peer to_str hs token) (\<lambda>_.
     and_then (ok_or ServiceOverloaded (case pa_cluster app of Some node \<Rightarrow> if cn_owner node then Some node else None
                                        | None \<Rightarrow> None)) (\<lambda>node.
     and_then (map_err GetCoverage (cluster_check (cn_db node))) (\<lambda>_.
     map_err GetCoverage (snapshot_of (cn_db node)))))"

definition state_post ::
    "(bytes \<Rightarrow> string option) \<Rightarrow> (string \<Rightarrow> string + unit) \<Rightarrow> string option \<Rightarrow> headers \<Rightarrow> snapshot \<Rightarrow> policy_app
      \<Rightarrow> (api_error + bool) \<times> policy_app" where
  "state_post to_str validate_login token hs s app =
     (case authorize_peer to_str hs token of
        Inl e \<Rightarrow> (Inl e, app)
      | Inr _ \<Rightarrow> (case accept_snapshot validate_login s app of
                    (Inl e, app') \<Rightarrow> (Inl e, app') | (Inr _, app') \<Rightarrow> (Inr True, app')))"

definition mutation_post ::
    "(bytes \<Rightarrow> string option) \<Rightarrow> string option \<Rightarrow> headers \<Rightarrow> int \<Rightarrow> mutation \<Rightarrow> policy_app
      \<Rightarrow> (api_error + bool) \<times> policy_app" where
  "mutation_post to_str token hs now operation app =
     (case authorize_peer to_str hs token of
        Inl e \<Rightarrow> (Inl e, app)
      | Inr _ \<Rightarrow>
          (case pa_cluster app of
             None \<Rightarrow> (Inl ServiceOverloaded, app)
           | Some node \<Rightarrow>
               if \<not> cn_owner node then (Inl ServiceOverloaded, app)
               else (case node_mutate now operation node of
                       (Inl e, node') \<Rightarrow> (Inl (GetCoverage e), app\<lparr>pa_cluster := Some node'\<rparr>)
                     | (Inr result, node') \<Rightarrow>
                         (case synchronize (app\<lparr>pa_cluster := Some node'\<rparr>) of
                            (Inl e, app') \<Rightarrow> (Inl e, app') | (Inr _, app') \<Rightarrow> (Inr result, app')))))"


section \<open>The states of a node\<close>

text \<open>
  Policies are applied under lower-case names; in between the writer runs any commands, the open blocks
  change in any way, the control store runs any other operation, the cluster's database changes, and the
  process may restart, which forgets the policies it holds in memory.
\<close>

inductive policy_reachable :: "codec \<Rightarrow> sqlite_config \<Rightarrow> int \<Rightarrow> policy_app \<Rightarrow> bool"
  for cd cfg N where
  policy_start: "writer_reachable cd cfg N db \<Longrightarrow>
    policy_reachable cd cfg N \<lparr>pa_cluster = node, pa_applied = [], pa_db = db, pa_open = opened,
      pa_control = empty_control_db, pa_parted = [], pa_reconciles = 0\<rparr>"
| policy_applies: "policy_reachable cd cfg N app \<Longrightarrow> to_ascii_lowercase ch = ch \<Longrightarrow>
    policy_reachable cd cfg N (snd (apply_policy ch policy app))"
| policy_writes: "policy_reachable cd cfg N app \<Longrightarrow> command_fits N cmd \<Longrightarrow>
    policy_reachable cd cfg N (app\<lparr>pa_db := snd (apply_command cd cfg cmd (pa_db app))\<rparr>)"
| policy_controls: "policy_reachable cd cfg N app \<Longrightarrow> (\<forall>ch p. operation \<noteq> ApplyClusterPolicy ch p) \<Longrightarrow>
    policy_reachable cd cfg N (app\<lparr>pa_control := control_step operation (pa_control app)\<rparr>)"
| policy_restarts: "policy_reachable cd cfg N app \<Longrightarrow>
    policy_reachable cd cfg N (app\<lparr>pa_cluster := node, pa_open := opened, pa_applied := []\<rparr>)"
| policy_changes: "policy_reachable cd cfg N app \<Longrightarrow>
    policy_reachable cd cfg N (app\<lparr>pa_cluster := node, pa_open := opened\<rparr>)"

definition purged_to :: "sqlite_db \<Rightarrow> string \<Rightarrow> int \<Rightarrow> bool" where
  "purged_to db ch t \<longleftrightarrow> t > 0 \<longrightarrow> (\<exists>t'. map_of (purge_cutoffs db) ch = Some t' \<and> t \<le> t')"

definition policies_purged :: "sqlite_db \<Rightarrow> (string \<times> channel_policy) list \<Rightarrow> bool" where
  "policies_purged db t \<longleftrightarrow> (\<forall>ch p. map_of t ch = Some p \<longrightarrow> purged_to db ch (cp_purge_ms p))"

definition policy_inv :: "codec \<Rightarrow> int \<Rightarrow> policy_app \<Rightarrow> bool" where
  "policy_inv cd N app \<longleftrightarrow> store_inv cd N (pa_db app) \<and> policies_purged (pa_db app) (pa_applied app) \<and>
     policies_purged (pa_db app) (applied_tab (pa_control app))"

lemma purged_to_grow: "cutoffs_grow db db' \<Longrightarrow> purged_to db ch t \<Longrightarrow> purged_to db' ch t"
  unfolding cutoffs_grow_def purged_to_def by (meson order_trans)

lemma policies_purged_grow: "cutoffs_grow db db' \<Longrightarrow> policies_purged db t \<Longrightarrow> policies_purged db' t"
  unfolding policies_purged_def using purged_to_grow by blast

lemma policies_purged_update:
  "policies_purged db t \<Longrightarrow> purged_to db ch (cp_purge_ms p) \<Longrightarrow> policies_purged db (AList.update ch p t)"
  by (simp add: policies_purged_def update_conv')

lemma fold_always_join_applied [simp]: "applied_tab (fold always_join_channel chs db) = applied_tab db"
  by (induction chs arbitrary: db) (simp_all add: always_join_channel_def)

lemma control_step_applied:
  "(\<forall>ch p. operation \<noteq> ApplyClusterPolicy ch p) \<Longrightarrow> applied_tab (control_step operation db) = applied_tab db"
  by (cases operation)
     (auto simp: control_step_def local_bootstrap_always_join_def mark_bootstrap_applied_def
        local_set_always_join_def always_join_channel_def local_replace_always_join_def touch_or_add_channel_def
        local_set_channel_ignored_def delete_coverage_of_def invalidate_channel_coverage_def
        discard_live_coverage_def discard_all_live_coverage_def prune_coverage_ended_before_def
        prune_inactive_channels_def record_repair_checkpoint_def begin_join_attempt_if_due_def
        mark_join_confirmed_def mark_join_unavailable_def fail_stale_join_attempts_def
        begin_live_coverage_def end_live_coverage_def close_all_live_coverage_def
        record_coverage_interval_def local_append_authorization_def local_update_authorization_def
        local_delete_authorization_def Let_def split: option.splits sum.splits)

lemma load_applied_same:
  "pa_db (load_applied ch app) = pa_db app" "pa_control (load_applied ch app) = pa_control app"
  by (simp_all add: load_applied_def split: option.splits)

lemma load_applied_inv:
  assumes "policy_inv cd N app" and "to_ascii_lowercase ch = ch"
  shows "policy_inv cd N (load_applied ch app)"
  using assms policies_purged_update [of "pa_db app" "pa_applied app" ch]
  by (auto simp: load_applied_def policy_inv_def applied_cluster_policy_def policies_purged_def [of _ "applied_tab _"]
      split: option.splits)

lemma applied_after [simp]:
  "applied_tab (apply_cluster_policy ch p db) = AList.update (to_ascii_lowercase ch) p (applied_tab db)"
  "applied_tab (invalidate_channel_coverage ch db) = applied_tab db"
  by (simp_all add: apply_cluster_policy_def Let_def invalidate_channel_coverage_def delete_coverage_of_def)

text \<open>Blocking and purging as commands of the writer.\<close>

lemma block_command:
  assumes "setup_ok cd cfg N" and "store_inv cd N db" and "set_channel_blocked ch b db = (res, db')"
  shows "isl res = False \<and> store_inv cd N db' \<and> cutoffs_grow db db'"
proof -
  have a: "apply_command cd cfg (SetChannelBlocked ch b) db = (Removed res, db')"
    using assms(3) by (simp add: apply_command_def)
  have "isl res = False"
    using assms(3) by (auto simp: set_channel_blocked_def split: if_splits)
  then show ?thesis using apply_command_inv [OF assms(1,2) _ a] by simp
qed

lemma purge_command:
  assumes "setup_ok cd cfg N" and "store_inv cd N db" and "purge_channel ch t db = (res, db')"
  shows "isl res = False \<and> store_inv cd N db' \<and> cutoffs_grow db db' \<and> purged_to db' ch t"
proof -
  have a: "apply_command cd cfg (PurgeChannel ch t) db = (Removed res, db')"
    using assms(3) by (simp add: apply_command_def)
  have "isl res = False" using assms(3) by (auto simp: purge_channel_def Let_def)
  moreover have "purged_to db' ch t"
    using purge_channel_spec [of cd N db ch t res db'] assms(2,3) by (auto simp: store_inv_def purged_to_def)
  ultimately show ?thesis using apply_command_inv [OF assms(1,2) _ a] by simp
qed

lemma purge_stage_spec:
  assumes "setup_ok cd cfg N" and "store_inv cd N (pa_db app)" and "purge_stage ch t app = (res, app')"
  shows "res = Inr () \<and> store_inv cd N (pa_db app') \<and> cutoffs_grow (pa_db app) (pa_db app') \<and>
    purged_to (pa_db app') ch t \<and> pa_applied app' = pa_applied app \<and>
    applied_tab (pa_control app') = applied_tab (pa_control app)"
proof -
  obtain r db where p: "purge_channel ch t (pa_db app) = (r, db)" by fastforce
  then show ?thesis
    using purge_command [OF assms(1,2) p] assms(3) by (cases r) (auto simp: purge_stage_def)
qed

text \<open>After a successful application the store is purged up to the policy's cutoff.\<close>

lemma apply_policy_inv:
  assumes "setup_ok cd cfg N" and "policy_inv cd N app0" and "to_ascii_lowercase ch = ch"
    and "apply_policy ch policy app0 = (res, app')"
  shows "policy_inv cd N app' \<and> cutoffs_grow (pa_db app0) (pa_db app') \<and>
    (res = Inr () \<longrightarrow> purged_to (pa_db app') ch (cp_purge_ms policy))"
proof -
  define app where "app = load_applied ch app0"
  have db0: "pa_db app0 = pa_db app" by (simp add: app_def load_applied_same)
  define current where "current = map_of (pa_applied app) ch"
  define previous where "previous = (case current of None \<Rightarrow> 0 | Some p \<Rightarrow> cp_purge_ms p)"
  define same where "same = (current = Some policy \<or> policy = default_policy \<and> current = None)"
  have inv: "policy_inv cd N app" unfolding app_def by (rule load_applied_inv [OF assms(2,3)])
  then have s: "store_inv cd N (pa_db app)" "policies_purged (pa_db app) (pa_applied app)"
    "policies_purged (pa_db app) (applied_tab (pa_control app))"
    by (simp_all add: policy_inv_def)
  have prev: "purged_to (pa_db app) ch previous"
    using s(2) by (auto simp: previous_def current_def policies_purged_def purged_to_def split: option.splits)
  note eq = assms(4) [unfolded apply_policy_def Let_def, folded app_def, folded current_def,
      folded previous_def, folded same_def]
  show ?thesis
  proof (cases same)
    case True
    then have r: "res = Inr ()" "app' = app" using eq by simp_all
    have "purged_to (pa_db app) ch (cp_purge_ms policy)"
      using True prev by (auto simp: previous_def purged_to_def default_policy_def same_def)
    then show ?thesis using inv r by (simp add: db0 cutoffs_grow_eq)
  next
    case changed: False
    show ?thesis
    proof (cases "cp_purge_ms policy < previous")
      case True
      then have "res = Inl ServiceOverloaded" "app' = app" using eq changed by simp_all
      then show ?thesis using inv by (simp add: db0 cutoffs_grow_eq)
    next
      case False
      obtain r db where b: "set_channel_blocked ch (cp_ignored policy) (pa_db app) = (r, db)" by fastforce
      note blocked = block_command [OF assms(1) s(1) b]
      obtain r2 app2 where stage: "(if cp_ignored policy \<or> cp_purge_ms policy > previous
          then purge_stage ch (cp_purge_ms policy) (app\<lparr>pa_db := db\<rparr>) else (Inr (), app\<lparr>pa_db := db\<rparr>)) = (r2, app2)"
        by fastforce
      have two: "r2 = Inr () \<and> store_inv cd N (pa_db app2) \<and> cutoffs_grow db (pa_db app2) \<and>
          purged_to (pa_db app2) ch (cp_purge_ms policy) \<and> pa_applied app2 = pa_applied app \<and>
          applied_tab (pa_control app2) = applied_tab (pa_control app)"
      proof (cases "cp_ignored policy \<or> cp_purge_ms policy > previous")
        case True
        then show ?thesis
          using purge_stage_spec [OF assms(1), of "app\<lparr>pa_db := db\<rparr>" ch] stage blocked by simp
      next
        case quiet: False
        then have "cp_purge_ms policy = previous" using False by simp
        moreover have "purged_to db ch previous" using purged_to_grow prev blocked by blast
        ultimately show ?thesis
          using stage quiet blocked by (auto simp: cutoffs_grow_eq)
      qed
      have grow: "cutoffs_grow (pa_db app) (pa_db app2)"
        using blocked two cutoffs_grow_trans by blast
      have "res = Inr ()" "pa_db app' = pa_db app2" "pa_applied app' = AList.update ch policy (pa_applied app)"
        "applied_tab (pa_control app') = AList.update ch policy (applied_tab (pa_control app))"
        using eq changed False b blocked stage two assms(3) by (auto split: sum.splits)
      moreover have "policies_purged (pa_db app2) (AList.update ch policy (pa_applied app))"
        "policies_purged (pa_db app2) (AList.update ch policy (applied_tab (pa_control app)))"
        using policies_purged_update policies_purged_grow [OF grow] s(2,3) two by blast+
      ultimately show ?thesis using two grow by (simp add: policy_inv_def db0)
    qed
  qed
qed


lemma policy_reachable_inv:
  assumes "setup_ok cd cfg N" and "policy_reachable cd cfg N app"
  shows "policy_inv cd N app"
  using assms(2)
proof (induction rule: policy_reachable.induct)
  case (policy_start db node opened)
  then show ?case
    using writer_reachable_inv [OF assms(1)]
    by (simp add: policy_inv_def policies_purged_def empty_control_db_def)
next
  case (policy_applies app ch policy)
  then show ?case using apply_policy_inv [OF assms(1) _ _ prod.collapse [symmetric]] by blast
next
  case (policy_writes app cmd)
  then show ?case
    using apply_command_inv [OF assms(1) _ policy_writes(2) prod.collapse [symmetric], of "pa_db app"]
      policies_purged_grow
    by (auto simp: policy_inv_def)
next
  case (policy_controls app operation)
  then show ?case by (simp add: policy_inv_def control_step_applied)
next
  case (policy_restarts app node opened)
  then show ?case by (simp add: policy_inv_def policies_purged_def)
next
  case (policy_changes app node opened)
  then show ?case by (simp add: policy_inv_def)
qed

lemma to_ascii_lowercase_idem [simp]: "to_ascii_lowercase (to_ascii_lowercase s) = to_ascii_lowercase s"
proof -
  have "ascii_lower (ascii_lower c) = ascii_lower c" for c
    by (cases c) (simp add: ascii_lower_def)
  then show ?thesis by (simp add: to_ascii_lowercase_def)
qed

lemma gate_Inr:
  assumes "gate to_str va token login path hs app = (Inr (Some policy), app')"
  obtains node where "pa_cluster app = Some node" "policy_of (cn_db node) (to_ascii_lowercase login) = Inr policy"
    "\<not> cp_ignored policy" "cluster_check (cn_db node) = Inr ()"
    "apply_policy (to_ascii_lowercase login) policy app = (Inr (), app')"
  using assms
  by (auto simp: gate_def Let_def map_err_def cluster_check_def split: option.splits sum.splits prod.splits if_splits)

text \<open>Purged once, whatever the writer does afterwards.\<close>

lemma served_after_purge:
  assumes "setup_ok cd cfg N" and "store_inv cd N db0" and "list_all (command_fits N) cmds"
    and "sql_query cd (run_commands cd cfg cmds db0) q = Inr res"
    and "purged_to db0 (qr_channel_key q) t" and "0 < t" and "r \<in> set (lr_records res)"
  shows "t < received_at_ms r"
proof -
  let ?db = "run_commands cd cfg cmds db0"
  have run: "store_inv cd N ?db" "cutoffs_grow db0 ?db"
    using run_commands_inv [OF assms(1,2,3)] by simp_all
  have d: "db_inv cd N ?db" using run(1) by (simp add: store_inv_def)
  then have si: "sql_invar cd cfg N ?db" using assms(1) by (simp add: sql_invar_def)
  obtain t' where t': "map_of (purge_cutoffs ?db) (qr_channel_key q) = Some t'" "t \<le> t'"
    using purged_to_grow [OF run(2) assms(5)] assms(6) by (auto simp: purged_to_def)
  have "r \<in> set (sql_retained cd ?db (qr_channel_key q))"
    using sql.query_sound [OF si assms(4,7)] by simp
  then show ?thesis using db_invD(7) [OF d t'(1)] t'(2) by (fastforce simp: sql_retained_def)
qed

section \<open>Properties\<close>

text \<open>
  C7: nothing purged is served. On a node of the cluster, whatever happened before, a request that passes
  the gate carries the policy the cluster's database holds for its channel, which is not ignored, and no
  query of the channel returns from then on a record received at or before the policy's purge cutoff,
  whatever the writer is asked to do in between.
\<close>

theorem gate_serves_purged:
  assumes "setup_ok cd cfg N" and "policy_reachable cd cfg N app"
    and "gate to_str va token login path hs app = (Inr (Some policy), app')"
    and "list_all (command_fits N) cmds" and "qr_channel_key q = to_ascii_lowercase login"
    and "sql_query cd (run_commands cd cfg cmds (pa_db app')) q = Inr res"
  shows "(\<exists>node. pa_cluster app = Some node \<and> policy_of (cn_db node) login = Inr policy) \<and>
    \<not> cp_ignored policy \<and>
    (cp_purge_ms policy > 0 \<longrightarrow> (\<forall>r \<in> set (lr_records res). cp_purge_ms policy < received_at_ms r))"
proof -
  obtain node where g: "pa_cluster app = Some node" "policy_of (cn_db node) (to_ascii_lowercase login) = Inr policy"
    "\<not> cp_ignored policy" "apply_policy (to_ascii_lowercase login) policy app = (Inr (), app')"
    using assms(3) by (rule gate_Inr)
  have inv: "policy_inv cd N app'" "purged_to (pa_db app') (qr_channel_key q) (cp_purge_ms policy)"
    using apply_policy_inv [OF assms(1) policy_reachable_inv [OF assms(1,2)] _ g(4)] assms(5) by simp_all
  have "cp_purge_ms policy < received_at_ms r" if "0 < cp_purge_ms policy" and "r \<in> set (lr_records res)" for r
    using served_after_purge [OF assms(1) _ assms(4,6) inv(2) that] inv(1) by (simp add: policy_inv_def)
  moreover have "policy_of (cn_db node) login = Inr policy"
    using g(2) by (simp add: policy_of_def)
  ultimately show ?thesis using g by blast
qed

definition ex_node :: cluster_node where
  "ex_node = \<lparr>cn_numeric = (\<lambda>_. SqlNull), cn_owner = False, cn_remote = (\<lambda>_. Inr False), cn_answers = (\<lambda>_. []),
     cn_db = \<lparr>rm_channel = [(''a'', \<lparr>cp_ignored = False, cp_always_join = False, cp_purge_ms = 1\<rparr>)], rm_auth = [],
       rm_metadata = [(''initialized'', ''1'')]\<rparr>\<rparr>"

definition ex_app :: policy_app where
  "ex_app = \<lparr>pa_cluster = Some ex_node, pa_applied = [], pa_db = ex_db, pa_open = None,
     pa_control = empty_control_db, pa_parted = [], pa_reconciles = 0\<rparr>"

theorem gate_serves_purged_witness:
  "\<exists>policy app' res. gate (\<lambda>_. None) (\<lambda>_. Inr ()) None ''A'' ''/api/a'' (\<lambda>_. None) ex_app = (Inr (Some policy), app') \<and>
    sql_query ex_codec (run_commands ex_codec ex_cfg [Append [ex_batch1]] (pa_db app'))
      \<lparr>qr_channel_key = ''a'', after_ms = None, before_ms = None, limit = 5\<rparr> = Inr res \<and>
    lr_records res \<noteq> [] \<and> (\<forall>r \<in> set (lr_records res). 1 < received_at_ms r)"
proof -
  let ?gate = "gate (\<lambda>_. None) (\<lambda>_. Inr ()) None ''A'' ''/api/a'' (\<lambda>_. None) ex_app"
  let ?q = "\<lparr>qr_channel_key = ''a'', after_ms = None, before_ms = None, limit = 5\<rparr>"
  let ?res = "sql_query ex_codec (run_commands ex_codec ex_cfg [Append [ex_batch1]] (pa_db (snd ?gate))) ?q"
  have g: "fst ?gate = Inr (Some \<lparr>cp_ignored = False, cp_always_join = False, cp_purge_ms = 1\<rparr>)" by code_simp
  have "case ?res of Inl e \<Rightarrow> False | Inr res \<Rightarrow> lr_records res \<noteq> []" by code_simp
  then obtain res where res: "?res = Inr res" "lr_records res \<noteq> []" by (auto split: sum.splits)
  have reach: "policy_reachable ex_codec ex_cfg 3 ex_app"
    unfolding ex_app_def by (rule policy_start [OF ex_reachable])
  have gate: "?gate = (Inr (Some \<lparr>cp_ignored = False, cp_always_join = False, cp_purge_ms = 1\<rparr>), snd ?gate)"
    using g by (metis prod.collapse)
  have "list_all (command_fits 3) [Append [ex_batch1]]" "qr_channel_key ?q = to_ascii_lowercase ''A''"
    by (simp add: ex_fits) code_simp
  from gate_serves_purged [OF ex_setup reach gate this res(1)]
  have "\<forall>r \<in> set (lr_records res). 1 < received_at_ms r" by simp
  then show ?thesis using gate res by blast
qed

end
