(* ===== verification/AsyncStore.thy ===== *)
theory AsyncStore
  imports SqliteWriter
begin

text \<open>
  The handle through which the tasks of the server use the SQLite store,
  \<^verbatim>\<open>src/storage/sqlite_async.rs\<close>: every method sends one command to the writer thread and waits
  for the reply. A call can fail at every point: the command may never reach the thread, SQLite may
  refuse the transaction, or the thread may stop after the transaction and before the reply. Which
  calls fail is a schedule in the state, so a statement for every schedule covers every failure.
  The handle also carries the history of the commands the thread has executed, which the code does
  not keep and no operation reads.
\<close>

section \<open>Operations that change a state and may fail\<close>

definition then_st :: "('e + 'a) \<times> 's \<Rightarrow> ('a \<Rightarrow> 's \<Rightarrow> ('e + 'b) \<times> 's) \<Rightarrow> ('e + 'b) \<times> 's" where
  "then_st m f = (case m of (Inl e, s) \<Rightarrow> (Inl e, s) | (Inr x, s) \<Rightarrow> f x s)"

text \<open>\<open>outcome m Q E\<close>: a result satisfies \<open>Q\<close>, an error \<open>E\<close>, each with the state it leaves.\<close>

definition outcome :: "('e + 'a) \<times> 's \<Rightarrow> ('a \<Rightarrow> 's \<Rightarrow> bool) \<Rightarrow> ('e \<Rightarrow> 's \<Rightarrow> bool) \<Rightarrow> bool" where
  "outcome m Q E \<longleftrightarrow> (case m of (Inl e, s) \<Rightarrow> E e s | (Inr x, s) \<Rightarrow> Q x s)"

lemma then_st_simps [simp]:
  "then_st (Inl e, s) f = (Inl e, s)" "then_st (Inr x, s) f = f x s"
  by (simp_all add: then_st_def)

lemma then_st_Inr: "then_st m f = (Inr y, s') \<longleftrightarrow> (\<exists>x s. m = (Inr x, s) \<and> f x s = (Inr y, s'))"
  by (auto simp: then_st_def split: prod.splits sum.splits)

lemma outcome_simps [simp]:
  "outcome (Inl e, s) Q E = E e s" "outcome (Inr x, s) Q E = Q x s"
  by (simp_all add: outcome_def)

lemma outcome_then:
  assumes "outcome m R E" and "\<And>x s. R x s \<Longrightarrow> outcome (f x s) Q E"
  shows "outcome (then_st m f) Q E"
proof (cases m)
  case (Pair r s)
  then show ?thesis using assms by (cases r) simp_all
qed

lemma outcome_weaken:
  assumes "outcome m R F" and "\<And>x s. R x s \<Longrightarrow> Q x s" and "\<And>e s. F e s \<Longrightarrow> E e s"
  shows "outcome m Q E"
  using assms by (auto simp: outcome_def split: prod.splits sum.splits)

lemma outcome_conj:
  "outcome m Q E \<Longrightarrow> outcome m R F \<Longrightarrow> outcome m (\<lambda>x s. Q x s \<and> R x s) (\<lambda>e s. E e s \<and> F e s)"
  by (auto simp: outcome_def split: prod.splits sum.splits)

lemma outcome_cases:
  assumes "outcome m Q E"
  obtains e s where "m = (Inl e, s)" "E e s" | x s where "m = (Inr x, s)" "Q x s"
  using assms by (auto simp: outcome_def split: prod.splits sum.splits)

section \<open>The handle\<close>

text \<open>What happens to one call.\<close>

datatype call_fate =
    Answered                \<comment> \<open>executed, and the reply arrives\<close>
  | SendFailed              \<comment> \<open>the writer thread is gone: nothing is executed\<close>
  | Refused string          \<comment> \<open>SQLite reports an error: the transaction is rolled back\<close>
  | ReplyLost               \<comment> \<open>executed, and the thread stops before it replies\<close>

record async_store =
  as_db :: sqlite_db
  as_fates :: "call_fate list"
  as_history :: "(writer_command \<times> writer_reply) list"

definition writer_closed :: store_error where
  "writer_closed = Backend ''SQLite writer thread closed unexpectedly''"

definition execute :: "codec \<Rightarrow> sqlite_config \<Rightarrow> writer_command \<Rightarrow> async_store \<Rightarrow> writer_reply \<times> async_store" where
  "execute cd cfg cmd st =
     (case apply_command cd cfg cmd (as_db st) of
        (reply, db) \<Rightarrow> (reply, st\<lparr>as_db := db, as_history := as_history st @ [(cmd, reply)]\<rparr>))"

text \<open>
  One call. \<open>answer\<close> takes the reply of the command's kind out of the response channel. After the
  schedule has run out every call is answered.
\<close>

definition call ::
    "codec \<Rightarrow> sqlite_config \<Rightarrow> writer_command \<Rightarrow> (writer_reply \<Rightarrow> store_error + 'a) \<Rightarrow> async_store
      \<Rightarrow> (store_error + 'a) \<times> async_store" where
  "call cd cfg cmd answer st =
     (let st' = st\<lparr>as_fates := tl (as_fates st)\<rparr>
      in case (if as_fates st = [] then Answered else hd (as_fates st)) of
           Answered \<Rightarrow> (case execute cd cfg cmd st' of (reply, st'') \<Rightarrow> (answer reply, st''))
         | SendFailed \<Rightarrow> (Inl writer_closed, st')
         | Refused m \<Rightarrow> (Inl (Backend m), st')
         | ReplyLost \<Rightarrow> (Inl writer_closed, snd (execute cd cfg cmd st')))"

fun answer_done :: "writer_reply \<Rightarrow> store_error + unit" where
  "answer_done (Done r) = r"
| "answer_done _ = Inl writer_closed"

fun answer_changed :: "writer_reply \<Rightarrow> store_error + bool" where
  "answer_changed (Changed r) = r"
| "answer_changed _ = Inl writer_closed"

fun answer_committed :: "writer_reply \<Rightarrow> store_error + nat" where
  "answer_committed (Committed r) = r"
| "answer_committed _ = Inl writer_closed"

fun answer_removed :: "writer_reply \<Rightarrow> store_error + nat" where
  "answer_removed (Removed r) = r"
| "answer_removed _ = Inl writer_closed"

fun answer_pending :: "writer_reply \<Rightarrow> store_error + journal_batch list" where
  "answer_pending (Pending r) = r"
| "answer_pending _ = Inl writer_closed"

fun answer_expired :: "writer_reply \<Rightarrow> store_error + nat \<times> nat" where
  "answer_expired (Expired r) = r"
| "answer_expired _ = Inl writer_closed"

section \<open>The methods\<close>

definition async_append_channel_batches where
  "async_append_channel_batches cd cfg batches st = call cd cfg (Append batches) answer_done st"

definition async_checkpoint_wal where
  "async_checkpoint_wal cd cfg st = call cd cfg Checkpoint answer_done st"

definition async_maintain_space where
  "async_maintain_space cd cfg st = call cd cfg MaintainSpace answer_done st"

definition async_touch_channel_requested where
  "async_touch_channel_requested cd cfg ch requested_at_ms coalesce_before_ms st =
     call cd cfg (TouchChannelRequested ch requested_at_ms coalesce_before_ms) answer_changed st"

definition async_accept_journal_batch where
  "async_accept_journal_batch cd cfg src stream first_sequence last_sequence check data now_ms st =
     call cd cfg (AcceptJournal src stream first_sequence last_sequence check data now_ms)
       answer_committed st"

definition async_retire_journal_through where
  "async_retire_journal_through cd cfg src stream processed_through st =
     call cd cfg (RetireJournal src stream processed_through) answer_removed st"

definition async_pending_journal_batches where
  "async_pending_journal_batches cd cfg st = call cd cfg PendingJournal answer_pending st"

definition async_evict_block_ids where
  "async_evict_block_ids cd cfg ids st = call cd cfg (EvictBlocks ids) answer_removed st"

definition async_expire_blocks_before where
  "async_expire_blocks_before cd cfg cutoff_ms st = call cd cfg (ExpireBlocks cutoff_ms) answer_expired st"

definition async_purge_channel where
  "async_purge_channel cd cfg ch through_ms st =
     call cd cfg (PurgeChannel ch through_ms) answer_removed st"

definition async_set_channel_blocked where
  "async_set_channel_blocked cd cfg ch blocked st = call cd cfg (SetChannelBlocked ch blocked) answer_removed st"

definition async_sync_blocked_channels where
  "async_sync_blocked_channels cd cfg chs st = call cd cfg (SyncBlockedChannels chs) answer_done st"

definition async_sync_always_join_channels where
  "async_sync_always_join_channels cd cfg chs st =
     call cd cfg (SyncAlwaysJoinChannels chs) answer_done st"

definition async_append_batch where
  "async_append_batch cd cfg records st = async_append_channel_batches cd cfg [records] st"

lemmas async_methods =
  async_append_channel_batches_def async_checkpoint_wal_def async_maintain_space_def
  async_touch_channel_requested_def async_accept_journal_batch_def async_retire_journal_through_def
  async_pending_journal_batches_def async_evict_block_ids_def async_expire_blocks_before_def
  async_purge_channel_def async_set_channel_blocked_def async_sync_blocked_channels_def
  async_sync_always_join_channels_def async_append_batch_def

section \<open>What a call does\<close>

text \<open>The state after a call that executed the command, and after one that did not.\<close>

definition executed ::
    "codec \<Rightarrow> sqlite_config \<Rightarrow> writer_command \<Rightarrow> async_store \<Rightarrow> writer_reply \<Rightarrow> async_store \<Rightarrow> bool" where
  "executed cd cfg cmd st reply st' \<longleftrightarrow>
     apply_command cd cfg cmd (as_db st) = (reply, as_db st') \<and>
     as_history st' = as_history st @ [(cmd, reply)]"

definition untouched :: "async_store \<Rightarrow> async_store \<Rightarrow> bool" where
  "untouched st st' \<longleftrightarrow> as_db st' = as_db st \<and> as_history st' = as_history st"

lemma execute_executed: "execute cd cfg cmd st = (reply, st') \<Longrightarrow> executed cd cfg cmd st reply st'"
  by (auto simp: execute_def executed_def split: prod.splits)

lemma call_cases:
  assumes "call cd cfg cmd answer st = (res, st')"
  obtains (answered) reply where "executed cd cfg cmd st reply st'" "res = answer reply"
  | (lost) reply where "executed cd cfg cmd st reply st'" "res = Inl writer_closed"
  | (failed) e where "untouched st st'" "res = Inl e"
proof -
  have ex: "executed cd cfg cmd st reply st''"
    if "execute cd cfg cmd (st\<lparr>as_fates := tl (as_fates st)\<rparr>) = (reply, st'')" for reply st''
    using execute_executed [OF that] by (simp add: executed_def)
  define fate where "fate = (if as_fates st = [] then Answered else hd (as_fates st))"
  obtain reply st'' where e: "execute cd cfg cmd (st\<lparr>as_fates := tl (as_fates st)\<rparr>) = (reply, st'')"
    by fastforce
  show thesis
    using assms ex [OF e] e answered lost failed unfolding call_def Let_def fate_def [symmetric]
    by (cases fate) (auto simp: untouched_def)
qed

text \<open>Without failures in the schedule a call is the command.\<close>

lemma call_answered:
  "as_fates st = [] \<Longrightarrow> call cd cfg cmd answer st =
     (case execute cd cfg cmd st of (reply, st') \<Rightarrow> (answer reply, st'))"
  by (cases st) (simp add: call_def)

definition store_reachable :: "codec \<Rightarrow> sqlite_config \<Rightarrow> int \<Rightarrow> async_store \<Rightarrow> bool" where
  "store_reachable cd cfg N st \<longleftrightarrow> writer_reachable cd cfg N (as_db st)"

lemma executed_reachable:
  "executed cd cfg cmd st reply st' \<Longrightarrow> command_fits N cmd \<Longrightarrow> store_reachable cd cfg N st \<Longrightarrow>
     store_reachable cd cfg N st'"
  unfolding executed_def store_reachable_def by (blast intro: reachable_command)

lemma untouched_reachable:
  "untouched st st' \<Longrightarrow> store_reachable cd cfg N st \<Longrightarrow> store_reachable cd cfg N st'"
  by (simp add: untouched_def store_reachable_def)

lemma call_reachable:
  assumes "command_fits N cmd" and "store_reachable cd cfg N st"
    and "call cd cfg cmd answer st = (res, st')"
  shows "store_reachable cd cfg N st'"
  using assms(3) executed_reachable [OF _ assms(1,2)] untouched_reachable [OF _ assms(2)]
  by (cases rule: call_cases) auto

section \<open>Records in committed appends\<close>

fun committed_by :: "writer_command \<times> writer_reply \<Rightarrow> canonical_record set" where
  "committed_by (Append bs, Done (Inr u)) = set (concat bs)"
| "committed_by _ = {}"

definition committed :: "async_store \<Rightarrow> canonical_record set" where
  "committed st = \<Union> (committed_by ` set (as_history st))"

lemma committed_executed:
  "executed cd cfg cmd st reply st' \<Longrightarrow> committed st' = committed st \<union> committed_by (cmd, reply)"
  by (auto simp: executed_def committed_def)

lemma committed_untouched: "untouched st st' \<Longrightarrow> committed st' = committed st"
  by (simp add: untouched_def committed_def)

lemma committed_append_answer:
  "executed cd cfg (Append bs) st reply st' \<Longrightarrow> answer_done reply = Inr u \<Longrightarrow>
     committed st' = committed st \<union> set (concat bs)"
  by (cases reply) (auto simp: committed_executed)

end
