(* ===== verification/Ingest.thy ===== *)
theory Ingest
  imports AsyncStore OpenBlocks Text
begin

text \<open>
  The durable ingest of \<^verbatim>\<open>src/storage/ingest.rs\<close>: a batch of a source is written to the journal
  first, then its records go to the open blocks, and blocks that are full, due or forced out are
  appended to the SQLite store. A checkpoint seals everything and only then retires the journal; a
  restart replays what the journal still holds. MessagePack, Zstandard and BLAKE3 are parameters.
\<close>

datatype ingest_error =
    StoreFailed store_error
  | OpenBlockFailed open_block_error
  | JournalCodec string
  | JournalChecksum
  | InvalidSourceBatch

record raw_source_batch =
  rb_source_id :: string
  rb_stream_id :: string
  rb_first_sequence :: nat
  rb_last_sequence :: nat
  rb_records :: "canonical_record list"

record journal_envelope =
  je_format_version :: nat
  je_records :: "canonical_record list"

text \<open>\<open>rmp_serde\<close>, \<open>zstd::stream\<close> and \<open>blake3\<close>; errors are their texts.\<close>

record journal_codec =
  to_vec_named :: "journal_envelope \<Rightarrow> string + bytes"
  encode_all :: "bytes \<Rightarrow> string + bytes"
  decode_all :: "bytes \<Rightarrow> string + bytes"
  from_slice :: "bytes \<Rightarrow> string + journal_envelope"
  blake3_hash :: "bytes \<Rightarrow> bytes"

record ingest_env =
  ie_codec :: codec
  ie_config :: sqlite_config
  ie_journal :: journal_codec

record durable_ingest =
  di_store :: async_store
  di_open :: open_block_manager
  materialized_through :: "((string \<times> string) \<times> nat) list"

definition journal_format_version :: nat where
  "journal_format_version = 1"

definition recovery_append_batches :: nat where
  "recovery_append_batches = 1024"

definition encode_journal :: "journal_codec \<Rightarrow> canonical_record list \<Rightarrow> ingest_error + bytes" where
  "encode_journal jc records =
     and_then (map_err JournalCodec
       (to_vec_named jc \<lparr>je_format_version = journal_format_version, je_records = records\<rparr>))
       (\<lambda>encoded. map_err JournalCodec (encode_all jc encoded))"

definition decode_journal :: "journal_codec \<Rightarrow> bytes \<Rightarrow> ingest_error + canonical_record list" where
  "decode_journal jc data =
     and_then (map_err JournalCodec (decode_all jc data)) (\<lambda>decoded.
     and_then (map_err JournalCodec (from_slice jc decoded)) (\<lambda>envelope.
       if je_format_version envelope \<noteq> journal_format_version
       then Inl (JournalCodec (''unsupported journal format version '' @ show_nat (je_format_version envelope)))
       else Inr (je_records envelope)))"

section \<open>Steps on the parts of the state\<close>

definition ingest_new :: "async_store \<Rightarrow> open_block_limits \<Rightarrow> ingest_error + durable_ingest" where
  "ingest_new st l = and_then (map_err OpenBlockFailed (new_manager l))
     (\<lambda>m. Inr \<lparr>di_store = st, di_open = m, materialized_through = []\<rparr>)"

definition with_store ::
    "(async_store \<Rightarrow> (store_error + 'a) \<times> async_store) \<Rightarrow> durable_ingest
      \<Rightarrow> (ingest_error + 'a) \<times> durable_ingest" where
  "with_store f d = (case f (di_store d) of (res, st) \<Rightarrow> (map_err StoreFailed res, d\<lparr>di_store := st\<rparr>))"

definition append_open ::
    "canonical_record \<Rightarrow> nat \<Rightarrow> durable_ingest \<Rightarrow> (ingest_error + canonical_record list list) \<times> durable_ingest" where
  "append_open r now d =
     (case open_append r now (di_open d) of (res, m) \<Rightarrow> (map_err OpenBlockFailed res, d\<lparr>di_open := m\<rparr>))"

definition note_materialized :: "string \<times> string \<Rightarrow> nat \<Rightarrow> durable_ingest \<Rightarrow> durable_ingest" where
  "note_materialized key through d =
     d\<lparr>materialized_through := AList.update key
         (case map_of (materialized_through d) key of None \<Rightarrow> through | Some t \<Rightarrow> max t through)
         (materialized_through d)\<rparr>"

definition append_sealed ::
    "ingest_env \<Rightarrow> canonical_record list list \<Rightarrow> durable_ingest \<Rightarrow> (ingest_error + unit) \<times> durable_ingest" where
  "append_sealed env sealed d =
     (if sealed = [] then (Inr (), d)
      else with_store (async_append_channel_batches (ie_codec env) (ie_config env) sealed) d)"

section \<open>Accepting a batch\<close>

fun append_records ::
    "canonical_record list \<Rightarrow> nat \<Rightarrow> canonical_record list list \<Rightarrow> durable_ingest
      \<Rightarrow> (ingest_error + canonical_record list list) \<times> durable_ingest" where
  "append_records [] now sealed d = (Inr sealed, d)"
| "append_records (r # rs) now sealed d =
     then_st (append_open r now d) (\<lambda>more d. append_records rs now (sealed @ more) d)"

definition materialize ::
    "ingest_env \<Rightarrow> string \<Rightarrow> string \<Rightarrow> nat \<Rightarrow> canonical_record list \<Rightarrow> nat \<Rightarrow> durable_ingest
      \<Rightarrow> (ingest_error + unit) \<times> durable_ingest" where
  "materialize env src stream last_sequence records now d =
     then_st (append_records records now [] d) (\<lambda>sealed d.
     then_st (append_sealed env sealed d) (\<lambda>_ d.
       (Inr (), note_materialized (src, stream) last_sequence d)))"

definition accept_batch ::
    "ingest_env \<Rightarrow> string \<Rightarrow> string \<Rightarrow> nat \<Rightarrow> nat \<Rightarrow> canonical_record list \<Rightarrow> nat \<Rightarrow> durable_ingest
      \<Rightarrow> (ingest_error + nat) \<times> durable_ingest" where
  "accept_batch env src stream first_sequence last_sequence records now d =
     then_st (encode_journal (ie_journal env) records, d) (\<lambda>data d.
     then_st (with_store (async_accept_journal_batch (ie_codec env) (ie_config env) src stream
         first_sequence last_sequence (blake3_hash (ie_journal env) data) data now) d) (\<lambda>acknowledged d.
     then_st (materialize env src stream last_sequence records now d) (\<lambda>_ d. (Inr acknowledged, d))))"

text \<open>\<open>checked_sub\<close> and \<open>checked_add\<close> of \<open>u64\<close>; a \<open>usize\<close> is 64 bits.\<close>

definition source_batch_count :: "raw_source_batch \<Rightarrow> nat option" where
  "source_batch_count b =
     (if rb_last_sequence b < rb_first_sequence b then None
      else let difference = rb_last_sequence b - rb_first_sequence b
           in if difference + 1 > u64_max then None else Some (difference + 1))"

definition accept_source_batch ::
    "ingest_env \<Rightarrow> raw_source_batch \<Rightarrow> nat \<Rightarrow> durable_ingest \<Rightarrow> (ingest_error + nat) \<times> durable_ingest" where
  "accept_source_batch env b now d =
     (case source_batch_count b of
        None \<Rightarrow> (Inl InvalidSourceBatch, d)
      | Some expected_records \<Rightarrow>
          if rb_records b = [] \<or> length (rb_records b) \<noteq> expected_records
          then (Inl InvalidSourceBatch, d)
          else accept_batch env (rb_source_id b) (rb_stream_id b) (rb_first_sequence b)
                 (rb_last_sequence b) (rb_records b) now d)"

section \<open>Recovery\<close>

fun recover_records ::
    "ingest_env \<Rightarrow> canonical_record list \<Rightarrow> nat \<Rightarrow> canonical_record list list \<Rightarrow> durable_ingest
      \<Rightarrow> (ingest_error + canonical_record list list) \<times> durable_ingest" where
  "recover_records env [] now sealed d = (Inr sealed, d)"
| "recover_records env (r # rs) now sealed d =
     then_st (append_open r now d) (\<lambda>more d.
       if length (sealed @ more) \<ge> recovery_append_batches
       then then_st (with_store (async_append_channel_batches (ie_codec env) (ie_config env) (sealed @ more)) d)
              (\<lambda>_ d. recover_records env rs now [] d)
       else recover_records env rs now (sealed @ more) d)"

fun recover_batches ::
    "ingest_env \<Rightarrow> journal_batch list \<Rightarrow> nat \<Rightarrow> canonical_record list list \<Rightarrow> durable_ingest
      \<Rightarrow> (ingest_error + canonical_record list list) \<times> durable_ingest" where
  "recover_batches env [] now sealed d = (Inr sealed, d)"
| "recover_batches env (b # bs) now sealed d =
     (if blake3_hash (ie_journal env) (jb_payload b) \<noteq> jb_checksum b then (Inl JournalChecksum, d)
      else then_st (decode_journal (ie_journal env) (jb_payload b), d) (\<lambda>records d.
           then_st (recover_records env records now sealed d) (\<lambda>sealed d.
             recover_batches env bs now sealed
               (note_materialized (jb_source_id b, jb_stream_id b) (jb_last_sequence b) d))))"

definition recover_pending :: "ingest_env \<Rightarrow> nat \<Rightarrow> durable_ingest \<Rightarrow> (ingest_error + nat) \<times> durable_ingest" where
  "recover_pending env now d =
     then_st (with_store (async_pending_journal_batches (ie_codec env) (ie_config env)) d) (\<lambda>pending d.
     then_st (recover_batches env pending now [] d) (\<lambda>sealed d.
     then_st (append_sealed env sealed d) (\<lambda>_ d. (Inr (length pending), d))))"

section \<open>Sealing and checkpoints\<close>

definition ingest_seal_due :: "ingest_env \<Rightarrow> nat \<Rightarrow> durable_ingest \<Rightarrow> (ingest_error + nat) \<times> durable_ingest" where
  "ingest_seal_due env now d =
     (case seal_due now (di_open d) of (sealed, m) \<Rightarrow>
        then_st (append_sealed env sealed (d\<lparr>di_open := m\<rparr>))
          (\<lambda>_ d. (Inr (sum_list (map length sealed)), d)))"

function append_chunks ::
    "ingest_env \<Rightarrow> canonical_record list list \<Rightarrow> durable_ingest \<Rightarrow> (ingest_error + unit) \<times> durable_ingest" where
  "append_chunks env batches d =
     (let chunk = take recovery_append_batches batches
      in if chunk = [] then (Inr (), d)
         else then_st (with_store (async_append_channel_batches (ie_codec env) (ie_config env) chunk) d) (\<lambda>_ d.
              then_st (with_store (async_checkpoint_wal (ie_codec env) (ie_config env)) d) (\<lambda>_ d.
                append_chunks env (drop recovery_append_batches batches) d)))"
  by pat_completeness auto
termination
  by (relation "measure (\<lambda>(env, batches, d). length batches)") (auto simp: recovery_append_batches_def)

declare append_chunks.simps [simp del]

fun retire_all ::
    "ingest_env \<Rightarrow> ((string \<times> string) \<times> nat) list \<Rightarrow> durable_ingest \<Rightarrow> (ingest_error + unit) \<times> durable_ingest" where
  "retire_all env [] d = (Inr (), d)"
| "retire_all env (((src, stream), through) # rest) d =
     then_st (with_store (async_retire_journal_through (ie_codec env) (ie_config env) src stream through) d)
       (\<lambda>_ d. retire_all env rest
          (d\<lparr>materialized_through := AList.delete (src, stream) (materialized_through d)\<rparr>))"

definition ingest_checkpoint :: "ingest_env \<Rightarrow> durable_ingest \<Rightarrow> (ingest_error + nat) \<times> durable_ingest" where
  "ingest_checkpoint env d =
     (case seal_all (di_open d) of (sealed, m) \<Rightarrow>
        then_st (append_chunks env sealed (d\<lparr>di_open := m\<rparr>)) (\<lambda>_ d.
        then_st (retire_all env (materialized_through d) d) (\<lambda>_ d.
          (Inr (sum_list (map length sealed)), d))))"

definition ingest_expire_before ::
    "ingest_env \<Rightarrow> int \<Rightarrow> durable_ingest \<Rightarrow> (ingest_error + nat \<times> nat) \<times> durable_ingest" where
  "ingest_expire_before env cutoff d =
     with_store (async_expire_blocks_before (ie_codec env) (ie_config env) cutoff) d"

end
