(* ===== verification/OpenKept.thy ===== *)
theory OpenKept
  imports OpenBlocks
begin

text \<open>
  What the open blocks keep, without any assumption on the byte counters: the shape of the blocks
  is an invariant of every operation, and after each one every record that was open or came in is
  open or in a sealed batch, or a copy of the same event with at least its fidelity is. The exact
  accounting, which needs the counters not to saturate, is in \<open>OpenBlocks\<close>.
\<close>

definition kept :: "canonical_record set \<Rightarrow> canonical_record \<Rightarrow> bool" where
  "kept S r \<longleftrightarrow> (\<exists>q \<in> S. channel_key q = channel_key r \<and> event_key q = event_key r \<and> fidelity r \<le> fidelity q)"

lemma kept_self [intro]: "r \<in> S \<Longrightarrow> kept S r"
  by (auto simp: kept_def)

lemma kept_mono: "kept S r \<Longrightarrow> S \<subseteq> T \<Longrightarrow> kept T r"
  by (auto simp: kept_def)

lemma kept_trans:
  assumes "kept S r" and "\<And>q. q \<in> S \<Longrightarrow> kept T q"
  shows "kept T r"
  using assms unfolding kept_def by (metis order_trans)

definition block_shape :: "nat \<Rightarrow> string \<Rightarrow> open_block \<Rightarrow> bool" where
  "block_shape bm ch b \<longleftrightarrow>
     (\<forall>k i. event_indices b k = Some i \<longrightarrow> i < length (ob_records b) \<and> event_key (ob_records b ! i) = k) \<and>
     (\<forall>r \<in> set (ob_records b). channel_key r = ch) \<and> length (ob_records b) < bm"

definition open_shape :: "nat \<Rightarrow> open_block_manager \<Rightarrow> bool" where
  "open_shape bm self \<longleftrightarrow>
     0 < bm \<and> (\<forall>ch b. map_of (om_blocks self) ch = Some b \<longrightarrow> block_shape bm ch b)"

definition open_set :: "open_block_manager \<Rightarrow> canonical_record set" where
  "open_set self = {r. \<exists>ch b. map_of (om_blocks self) ch = Some b \<and> r \<in> set (ob_records b)}"

text \<open>A batch the store accepts: one channel, at most a block of records.\<close>

definition sealed_shape :: "nat \<Rightarrow> canonical_record list \<Rightarrow> bool" where
  "sealed_shape bm rs \<longleftrightarrow> length rs \<le> bm \<and> (\<exists>ch. \<forall>r \<in> set rs. channel_key r = ch)"

lemma open_shapeD: "open_shape bm self \<Longrightarrow> map_of (om_blocks self) ch = Some b \<Longrightarrow> block_shape bm ch b"
  by (simp add: open_shape_def)

lemma open_shape_Suc:
  assumes "open_shape bm self"
  shows "open_shape (Suc bm) self"
  unfolding open_shape_def
proof (intro conjI allI impI)
  fix ch b assume "map_of (om_blocks self) ch = Some b"
  then show "block_shape (Suc bm) ch b"
    using open_shapeD [OF assms] unfolding block_shape_def by (metis less_SucI)
qed simp

lemma take_block_shape:
  assumes "open_shape bm self" and "take_block ch self = (res, self')"
  shows "open_shape bm self' \<and> om_limits self' = om_limits self \<and>
    (\<forall>rs. res = Some rs \<longrightarrow> length rs < bm \<and> (\<forall>r \<in> set rs. channel_key r = ch)) \<and>
    open_set self \<subseteq> open_set self' \<union> (case res of None \<Rightarrow> {} | Some rs \<Rightarrow> set rs) \<and>
    (\<forall>k. map_of (om_blocks self') k = (if k = ch then None else map_of (om_blocks self) k))"
proof (cases "map_of (om_blocks self) ch")
  case None
  then have "res = None" "self' = self" using assms(2) by (simp_all add: take_block_def)
  then show ?thesis using assms(1) None by simp
next
  case (Some b)
  then have res: "res = Some (ob_records b)" "om_limits self' = om_limits self"
    "om_blocks self' = filter (\<lambda>(k, v). k \<noteq> ch) (om_blocks self)"
    using assms(2) by (auto simp: take_block_def)
  have look: "map_of (om_blocks self') k = (if k = ch then None else map_of (om_blocks self) k)" for k
    by (simp add: res(3) map_of_remove_key)
  have "r \<in> open_set self' \<union> set (ob_records b)" if mem: "r \<in> open_set self" for r
  proof -
    obtain k c where "map_of (om_blocks self) k = Some c" "r \<in> set (ob_records c)"
      using mem unfolding open_set_def by blast
    then show ?thesis using Some look [of k] by (cases "k = ch") (auto simp: open_set_def)
  qed
  then show ?thesis
    using assms(1) open_shapeD [OF assms(1) Some] res look
    by (auto simp: open_shape_def block_shape_def)
qed

lemma enforce_bounds_shape:
  assumes "open_shape bm self" and "enforce_bounds self sealed = (self', sealed')"
  shows "open_shape bm self' \<and> om_limits self' = om_limits self \<and>
    (\<exists>more. sealed' = sealed @ more \<and> (\<forall>rs \<in> set more. sealed_shape bm rs) \<and>
       open_set self \<subseteq> open_set self' \<union> set (concat more))"
  using assms
proof (induction self sealed rule: enforce_bounds.induct)
  case (1 self sealed)
  show ?case
  proof (cases "over_bounds self \<and> oldest_block self \<noteq> None")
    case False
    then have "self' = self" "sealed' = sealed"
      using "1.prems"(2) by (auto simp: enforce_bounds.simps [of self sealed] split: if_splits)
    then show ?thesis using "1.prems"(1) by simp
  next
    case True
    then obtain ch where over: "over_bounds self" and ch: "oldest_block self = Some ch" by auto
    obtain res m where t: "take_block ch self = (res, m)" by fastforce
    note s = take_block_shape [OF "1.prems"(1) t]
    show ?thesis
    proof (cases res)
      case None
      then have "self' = m" "sealed' = sealed"
        using "1.prems"(2) over ch t by (simp_all add: enforce_bounds.simps [of self sealed])
      then show ?thesis using s None by simp
    next
      case (Some rs)
      have e: "enforce_bounds m (sealed @ [rs]) = (self', sealed')"
        using "1.prems"(2) over ch t Some by (simp add: enforce_bounds.simps [of self sealed])
      have "open_shape bm self' \<and> om_limits self' = om_limits m \<and>
        (\<exists>more. sealed' = (sealed @ [rs]) @ more \<and> (\<forall>rs \<in> set more. sealed_shape bm rs) \<and>
           open_set m \<subseteq> open_set self' \<union> set (concat more))"
        by (rule "1.IH" [OF over ch t [unfolded Some, symmetric] refl _ e]) (use s in blast)
      then obtain more where "open_shape bm self'" "om_limits self' = om_limits m"
        "sealed' = (sealed @ [rs]) @ more" "\<forall>rs \<in> set more. sealed_shape bm rs"
        "open_set m \<subseteq> open_set self' \<union> set (concat more)" by blast
      then show ?thesis
        using s Some by (intro conjI exI [of _ "rs # more"]) (auto simp: sealed_shape_def)
    qed
  qed
qed

text \<open>Putting a block under a channel.\<close>

lemma put_block_shape:
  assumes "open_shape bm self" and "block_shape bm ch b'"
    and "om_blocks self' = AList.update ch b' (om_blocks self)"
  shows "open_shape bm self'"
    and "open_set self' = set (ob_records b') \<union>
      {r. \<exists>k c. k \<noteq> ch \<and> map_of (om_blocks self) k = Some c \<and> r \<in> set (ob_records c)}"
  using assms by (auto simp: open_shape_def open_set_def update_conv')

lemma open_append_kept:
  assumes shape: "open_shape bm self" and bm: "bm = ol_block_messages (om_limits self)"
    and a: "open_append r now self = (Inr sealed, self')"
  shows "open_shape bm self' \<and> om_limits self' = om_limits self \<and>
    (\<forall>rs \<in> set sealed. sealed_shape bm rs) \<and>
    (\<forall>q \<in> insert r (open_set self). kept (open_set self' \<union> set (concat sealed)) q)"
proof -
  let ?ch = "channel_key r"
  define b where "b = (case map_of (om_blocks self) ?ch of None \<Rightarrow> new_block now | Some b \<Rightarrow> b)"
  have bs: "block_shape bm ?ch b"
    using shape by (auto simp: b_def new_block_def block_shape_def open_shape_def split: option.splits)
  have others: "open_set self = {q. \<exists>k c. k \<noteq> ?ch \<and> map_of (om_blocks self) k = Some c \<and> q \<in> set (ob_records c)}
      \<union> set (ob_records b)"
    by (auto simp: open_set_def b_def new_block_def split: option.splits)
      (metis option.inject option.distinct(1))+
  have clock: "\<not> now < last_append_at_ms b"
    using a by (auto simp: open_append_def b_def [symmetric] Let_def split: if_splits)
  show ?thesis
  proof (cases "event_indices b (event_key r)")
    case (Some i)
    have i: "i < length (ob_records b)" "event_key (ob_records b ! i) = event_key r"
      using bs Some by (auto simp: block_shape_def)
    have chan: "channel_key (ob_records b ! i) = ?ch" using bs i by (auto simp: block_shape_def)
    show ?thesis
    proof (cases "should_replace r (ob_records b ! i)")
      case False
      then have "self' = self" "sealed = []"
        using a Some clock by (auto simp: open_append_def b_def [symmetric] Let_def)
      moreover have "fidelity r \<le> fidelity (ob_records b ! i)"
        using False i(2) by (auto simp: should_replace_def)
      then have "kept (open_set self) r"
        using i chan unfolding others kept_def by (intro bexI [of _ "ob_records b ! i"]) auto
      ultimately show ?thesis using shape by auto
    next
      case True
      then have u: "self' = upgrade_record ?ch b i r self" "sealed = []"
        using a Some clock by (auto simp: open_append_def b_def [symmetric] Let_def)
      obtain b' where b': "om_blocks self' = AList.update ?ch b' (om_blocks self)"
        "ob_records b' = (ob_records b)[i := r]" "event_indices b' = event_indices b"
        "om_limits self' = om_limits self"
        unfolding u(1) upgrade_record_def Let_def by simp
      have "block_shape bm ?ch b'"
        using bs i unfolding block_shape_def b'
        by (auto simp: nth_list_update dest!: set_update_subset_insert [THEN subsetD])
      note p = put_block_shape [OF shape this b'(1)]
      have r: "r \<in> set (ob_records b')" unfolding b'(2) by (rule set_update_memI [OF i(1)])
      have "kept (open_set self') q" if q: "q \<in> open_set self" for q
      proof (cases "q \<in> set (ob_records b)")
        case False
        then show ?thesis using q unfolding others p(2) by auto
      next
        case mem: True
        then obtain j where j: "j < length (ob_records b)" "q = ob_records b ! j"
          by (auto simp: in_set_conv_nth)
        show ?thesis
        proof (cases "j = i")
          case True
          then show ?thesis
            using j chan i(2) should_replaceD [OF \<open>should_replace r (ob_records b ! i)\<close>] r
            unfolding kept_def p(2) by (intro bexI [of _ r]) auto
        next
          case False
          then have "q \<in> set (ob_records b')"
            unfolding b'(2) using j by (metis length_list_update nth_list_update_neq nth_mem)
          then show ?thesis unfolding p(2) by auto
        qed
      qed
      then show ?thesis using p r u(2) b'(4) by auto
    qed
  next
    case None
    then have ins: "insert_fresh ?ch b now r self = (sealed, self')"
      using a clock by (auto simp: open_append_def b_def [symmetric] Let_def split: prod.splits)
    define s1 where "s1 = push_record ?ch b now r self"
    obtain b' where b': "om_blocks s1 = AList.update ?ch b' (om_blocks self)"
      "ob_records b' = ob_records b @ [r]"
      "event_indices b' = (event_indices b)(event_key r \<mapsto> length (ob_records b))"
      "om_limits s1 = om_limits self"
      unfolding s1_def push_record_def by simp
    let ?full = "Suc (length (ob_records b)) \<ge> ol_block_messages (om_limits self)"
    have wide: "block_shape (Suc bm) ?ch b'"
      using bs unfolding block_shape_def b' by (auto simp: nth_append less_Suc_eq)
    note p = put_block_shape [OF open_shape_Suc [OF shape] wide b'(1)]
    have kept1: "insert r (open_set self) \<subseteq> open_set s1"
      unfolding p(2) others b'(2) by auto
    define step where "step = (if ?full
        then (case take_block ?ch s1 of (Some rs, m) \<Rightarrow> (m, [rs]) | (None, m) \<Rightarrow> (m, []))
        else (s1, []))"
    obtain s2 sealed2 where s2: "step = (s2, sealed2)" by (cases step)
    have e: "enforce_bounds s2 sealed2 = (self', sealed)"
      using ins unfolding insert_fresh_def s1_def [symmetric] step_def [symmetric] s2 Let_def
      by (auto split: prod.splits)
    have "open_shape bm s2 \<and> om_limits s2 = om_limits self \<and> (\<forall>rs \<in> set sealed2. sealed_shape bm rs) \<and>
      open_set s1 \<subseteq> open_set s2 \<union> set (concat sealed2)"
    proof (cases ?full)
      case False
      have "block_shape bm ?ch b'"
        using wide False b'(2) bm by (auto simp: block_shape_def)
      then show ?thesis using put_block_shape(1) [OF shape _ b'(1)] s2 False b'(4) by (simp add: step_def)
    next
      case True
      obtain res m where t: "take_block ?ch s1 = (res, m)" by fastforce
      note tk = take_block_shape [OF p(1) t]
      have "res \<noteq> None" using t b'(1) by (auto simp: take_block_def update_conv' split: option.splits)
      then obtain rs where rs: "res = Some rs" by auto
      have look: "map_of (om_blocks m) k = (if k = ?ch then None else map_of (om_blocks self) k)" for k
        using tk b'(1) by (simp add: update_conv')
      have "open_shape bm m" using shape by (auto simp: open_shape_def look split: if_splits)
      moreover have "sealed_shape bm rs" using tk rs by (auto simp: sealed_shape_def)
      moreover have "s2 = m" "sealed2 = [rs]" using s2 True t rs by (simp_all add: step_def)
      ultimately show ?thesis using rs tk b'(4) by simp
    qed
    then have s2': "open_shape bm s2" "om_limits s2 = om_limits self" "\<forall>rs \<in> set sealed2. sealed_shape bm rs"
      "open_set s1 \<subseteq> open_set s2 \<union> set (concat sealed2)" by blast+
    obtain more where more: "sealed = sealed2 @ more" "\<forall>rs \<in> set more. sealed_shape bm rs"
      "open_set s2 \<subseteq> open_set self' \<union> set (concat more)" "open_shape bm self'" "om_limits self' = om_limits s2"
      using enforce_bounds_shape [OF s2'(1) e] by blast
    have "kept (open_set self' \<union> set (concat sealed)) q" if "q \<in> insert r (open_set self)" for q
    proof (rule kept_self)
      have "q \<in> open_set s2 \<union> set (concat sealed2)" using that kept1 s2'(4) by blast
      then show "q \<in> open_set self' \<union> set (concat sealed)" using more(1,3) by auto
    qed
    moreover have "\<forall>rs \<in> set sealed. sealed_shape bm rs" using more(1,2) s2'(3) by auto
    ultimately show ?thesis using more(4,5) s2'(2) by auto
  qed
qed

section \<open>Sealing and purging\<close>

lemma take_blocks_shape:
  assumes "open_shape bm self" and "take_blocks chs self = (rss, self')"
  shows "open_shape bm self' \<and> om_limits self' = om_limits self \<and> (\<forall>rs \<in> set rss. sealed_shape bm rs) \<and>
    open_set self \<subseteq> open_set self' \<union> set (concat rss) \<and>
    (\<forall>k. map_of (om_blocks self') k = (if k \<in> set chs then None else map_of (om_blocks self) k))"
  using assms
proof (induction chs arbitrary: self rss)
  case (Cons ch chs)
  obtain res m where t: "take_block ch self = (res, m)" by fastforce
  note s = take_block_shape [OF Cons.prems(1) t]
  obtain rss1 where r: "take_blocks chs m = (rss1, self')"
    "rss = (case res of None \<Rightarrow> rss1 | Some rs \<Rightarrow> rs # rss1)"
    using Cons.prems(2) t by (auto split: option.splits prod.splits)
  have "open_shape bm m" using s by blast
  note IH = Cons.IH [OF this r(1)]
  then show ?case using s r(2) by (cases res) (auto simp: sealed_shape_def)
qed simp

lemma seal_due_shape:
  assumes "open_shape bm self" and "seal_due now self = (rss, self')"
  shows "open_shape bm self' \<and> om_limits self' = om_limits self \<and> (\<forall>rs \<in> set rss. sealed_shape bm rs) \<and>
    open_set self \<subseteq> open_set self' \<union> set (concat rss)"
  using take_blocks_shape [OF assms(1) assms(2) [unfolded seal_due_def]] by simp

lemma seal_all_shape:
  assumes "open_shape bm self" and "seal_all self = (rss, self')"
  shows "open_shape bm self' \<and> om_limits self' = om_limits self \<and> (\<forall>rs \<in> set rss. sealed_shape bm rs) \<and>
    open_set self \<subseteq> set (concat rss) \<and> open_set self' = {}"
proof -
  note t = take_blocks_shape [OF assms(1) assms(2) [unfolded seal_all_def]]
  have "map_of (om_blocks self') k = None" for k
    using t by (auto simp: map_of_eq_None_iff split: if_splits)
  then have "open_set self' = {}" by (simp add: open_set_def)
  then show ?thesis using t by simp
qed

lemma purge_shape:
  assumes "open_shape bm self"
  shows "open_shape bm (open_purge_channel ch self)"
    and "om_limits (open_purge_channel ch self) = om_limits self"
    and "r \<in> open_set self \<Longrightarrow> channel_key r \<noteq> ch \<Longrightarrow> r \<in> open_set (open_purge_channel ch self)"
proof -
  obtain res m where t: "take_block ch self = (res, m)" by fastforce
  note s = take_block_shape [OF assms t]
  show "open_shape bm (open_purge_channel ch self)" "om_limits (open_purge_channel ch self) = om_limits self"
    using s by (simp_all add: open_purge_channel_def t)
  assume "r \<in> open_set self" "channel_key r \<noteq> ch"
  then show "r \<in> open_set (open_purge_channel ch self)"
    using s by (auto simp: open_purge_channel_def t split: option.splits)
qed

lemma new_manager_shape:
  assumes "new_manager l = Inr m"
  shows "open_shape (ol_block_messages l) m" "om_limits m = l" "open_set m = {}"
  using assms by (auto simp: new_manager_def open_shape_def open_set_def limits_valid_def split: if_splits)

section \<open>The clock\<close>

text \<open>An append fails only when the clock is behind the channel's last append.\<close>

definition open_clock :: "nat \<Rightarrow> open_block_manager \<Rightarrow> bool" where
  "open_clock now self \<longleftrightarrow> (\<forall>ch b. map_of (om_blocks self) ch = Some b \<longrightarrow> last_append_at_ms b \<le> now)"

lemma take_block_clock: "open_clock now self \<Longrightarrow> take_block ch self = (res, self') \<Longrightarrow> open_clock now self'"
  by (auto simp: open_clock_def take_block_def map_of_remove_key split: option.splits if_splits)

lemma enforce_bounds_clock:
  assumes "open_clock now self" and "enforce_bounds self sealed = (self', sealed')"
  shows "open_clock now self'"
  using assms
proof (induction self sealed rule: enforce_bounds.induct)
  case (1 self sealed)
  show ?case
  proof (cases "over_bounds self \<and> oldest_block self \<noteq> None")
    case False
    then have "self' = self"
      using "1.prems"(2) by (auto simp: enforce_bounds.simps [of self sealed] split: if_splits)
    then show ?thesis using "1.prems"(1) by simp
  next
    case True
    then obtain ch where over: "over_bounds self" and ch: "oldest_block self = Some ch" by auto
    obtain res m where t: "take_block ch self = (res, m)" by fastforce
    note m = take_block_clock [OF "1.prems"(1) t]
    show ?thesis
    proof (cases res)
      case None
      then show ?thesis
        using "1.prems"(2) over ch t m by (simp add: enforce_bounds.simps [of self sealed])
    next
      case (Some rs)
      have "enforce_bounds m (sealed @ [rs]) = (self', sealed')"
        using "1.prems"(2) over ch t Some by (simp add: enforce_bounds.simps [of self sealed])
      then show ?thesis by (rule "1.IH" [OF over ch t [unfolded Some, symmetric] refl m])
    qed
  qed
qed

lemma open_clock_update:
  "open_clock now self \<Longrightarrow> last_append_at_ms b \<le> now \<Longrightarrow>
     om_blocks self' = AList.update ch b (om_blocks self) \<Longrightarrow> open_clock now self'"
  by (auto simp: open_clock_def update_conv')

lemma insert_fresh_clock:
  assumes "open_clock now self" and "insert_fresh ch b now r self = (sealed, self')"
  shows "open_clock now self'"
proof -
  define s1 where "s1 = push_record ch b now r self"
  have s1: "open_clock now s1"
    by (rule open_clock_update [OF assms(1), of
      "b\<lparr>event_indices := (event_indices b)(event_key r \<mapsto> length (ob_records b)),
         ob_records := ob_records b @ [r],
         ob_estimated_bytes := u64_saturating_add (ob_estimated_bytes b) (estimated_record_bytes r),
         last_append_at_ms := now\<rparr>" _ ch]) (simp_all add: s1_def push_record_def)
  obtain res m where t: "take_block ch s1 = (res, m)" by fastforce
  obtain s2 sealed2 where "open_clock now s2" "enforce_bounds s2 sealed2 = (self', sealed)"
    using assms(2) s1 take_block_clock [OF s1 t] t
    by (auto simp: insert_fresh_def s1_def [symmetric] Let_def split: prod.splits option.splits if_splits)
  then show ?thesis by (rule enforce_bounds_clock)
qed

lemma open_append_clock:
  assumes c: "open_clock now self"
  shows "\<exists>sealed self'. open_append r now self = (Inr sealed, self') \<and> open_clock now self'"
proof -
  define b where "b = (case map_of (om_blocks self) (channel_key r) of None \<Rightarrow> new_block now | Some b \<Rightarrow> b)"
  have b: "last_append_at_ms b \<le> now"
    using c by (auto simp: b_def open_clock_def new_block_def split: option.splits)
  obtain sealed self' where i: "insert_fresh (channel_key r) b now r self = (sealed, self')" by fastforce
  have u: "open_clock now (upgrade_record (channel_key r) b i r self)" for i
    by (rule open_clock_update [OF c, of "b\<lparr>ob_records := (ob_records b)[i := r],
          ob_estimated_bytes := u64_saturating_add (u64_saturating_sub (ob_estimated_bytes b)
            (estimated_record_bytes (ob_records b ! i))) (estimated_record_bytes r)\<rparr>" _ "channel_key r"])
      (use b in \<open>simp_all add: upgrade_record_def Let_def\<close>)
  show ?thesis
    using b c i u insert_fresh_clock [OF c i]
    by (auto simp: open_append_def b_def [symmetric] Let_def split: option.splits)
qed

lemma new_manager_clock: "new_manager l = Inr m \<Longrightarrow> open_clock now m"
  by (auto simp: new_manager_def open_clock_def split: if_splits)

end
