(* ===== verification/IngestDurability.thy ===== *)
theory IngestDurability
  imports Ingest OpenKept
begin

text \<open>
  Durability of the ingest: whatever call fails and wherever the process stops, a record of an
  acknowledged batch is in the journal, ready to be replayed, or it was part of a committed append
  to the SQLite store, itself or as a copy of the same event with at least its fidelity. The only
  other way out is a purge of the channel. The journal is retired only for records that are stored.
\<close>

section \<open>The store's commands and the journal\<close>

fun journal_command :: "writer_command \<Rightarrow> bool" where
  "journal_command (AcceptJournal _ _ _ _ _ _ _) = True"
| "journal_command (RetireJournal _ _ _) = True"
| "journal_command _ = False"

lemma other_command_journal:
  assumes ok: "setup_ok cd cfg N" and inv: "store_inv cd N db" and fits: "command_fits N cmd"
    and cmd: "\<not> journal_command cmd" and a: "apply_command cd cfg cmd db = (reply, db')"
  shows "ingest_journal db' = ingest_journal db"
proof -
  have d: "db_inv cd N db" using inv by (simp add: store_inv_def)
  have same: "other_tables_same db db' \<Longrightarrow> ingest_journal db' = ingest_journal db"
    by (simp add: other_tables_same_def)
  have N: "0 \<le> N" by (rule setup_okD(4) [OF ok])
  show ?thesis
  proof (cases cmd)
    case (Append batches)
    then obtain res where "append_channel_batches cd cfg batches db = (res, db')"
      using a by (auto simp: apply_command_def map_prod_def split: prod.splits)
    then show ?thesis
      using append_channel_batches_inv [OF ok d] fits Append same by auto
  next
    case (TouchChannelRequested ch r c)
    then obtain res where "touch_channel_requested ch r c db = (res, db')"
      using a by (auto simp: apply_command_def map_prod_def split: prod.splits)
    then show ?thesis using touch_channel_requested_inv [OF d N] same by auto
  next
    case (EvictBlocks ids)
    then obtain res where "evict_block_ids ids db = (res, db')"
      using a by (auto simp: apply_command_def map_prod_def split: prod.splits)
    then show ?thesis using evict_block_ids_spec [OF d] same by auto
  next
    case (ExpireBlocks cutoff)
    obtain stats db1 where e: "expire_blocks_before cutoff 0 0 db = (Inr stats, db1)"
      "other_tables_same db db1"
      using expire_blocks_before_spec [OF d, of cutoff 0 0] by blast
    then have "db' = db1" using a ExpireBlocks by (simp add: apply_command_def)
    then show ?thesis using e(2) same by simp
  next
    case (PurgeChannel ch t)
    then show ?thesis using a by (auto simp: apply_command_def purge_channel_def Let_def)
  next
    case (SetChannelBlocked ch b)
    then show ?thesis
      using a by (auto simp: apply_command_def set_channel_blocked_def split: if_splits)
  next
    case (SyncBlockedChannels chs)
    then obtain res where "sync_blocked_channels chs db = (res, db')"
      using a by (auto simp: apply_command_def map_prod_def split: prod.splits)
    then show ?thesis using sync_blocked_journal by blast
  next
    case (SyncAlwaysJoinChannels chs)
    then obtain res where s: "sync_always_join_channels chs db = (res, db')"
      using a by (auto simp: apply_command_def map_prod_def split: prod.splits)
    have "db' = db \<or> db' = db\<lparr>always_join_channels := chs\<rparr>"
      using sync_always_join_channels_spec [OF d s] by (cases res) auto
    then show ?thesis by auto
  qed (use a cmd in \<open>simp_all add: apply_command_def\<close>)
qed

text \<open>The rows after an accepted or refused batch.\<close>

lemma accept_transaction_rows:
  assumes "accept_journal_transaction src stream first last_seq check data now db = Inr (c, db')"
  shows "(\<exists>j. journal_row_of src stream first (ingest_journal db) = Some j \<and>
       jr_last_sequence j = last_seq \<and> jr_checksum j = check \<and> ingest_journal db' = ingest_journal db) \<or>
    ingest_journal db' = ingest_journal db @ [\<lparr>jr_source_id = src, jr_stream_id = stream,
       jr_first_sequence = first, jr_last_sequence = last_seq, jr_checksum = check, jr_payload = data\<rparr>]"
  using assms by (auto simp: accept_journal_transaction_def Let_def split: option.splits if_splits)

lemma accept_batch_rows:
  assumes inv: "journal_inv db" and chk: "length check = 32"
    and a: "accept_journal_batch src stream first last_seq check data now db = (res, db')"
  obtains (refused) e where "res = Inl e" "db' = db"
  | (replayed) c j where "res = Inr c" "j \<in> set (ingest_journal db)" "jr_checksum j = check"
      "jr_source_id j = src" "jr_stream_id j = stream" "jr_last_sequence j = int last_seq"
      "ingest_journal db' = ingest_journal db"
  | (added) c where "res = Inr c"
      "ingest_journal db' = ingest_journal db @ [\<lparr>jr_source_id = src, jr_stream_id = stream,
         jr_first_sequence = int first, jr_last_sequence = int last_seq, jr_checksum = check, jr_payload = data\<rparr>]"
proof (cases rule: accept_journal_batch_cases [OF inv chk a])
  case 1
  then show ?thesis using refused by blast
next
  case (2 c)
  then show ?thesis
    using accept_transaction_rows [OF 2(3)] 2(1) replayed added by (auto dest: journal_row_of_Some)
qed

section \<open>Where a record is\<close>

definition ingest_setup :: "ingest_env \<Rightarrow> int \<Rightarrow> open_block_limits \<Rightarrow> bool" where
  "ingest_setup env N l \<longleftrightarrow> setup_ok (ie_codec env) (ie_config env) N \<and> limits_valid l \<and>
     N + int (ol_block_messages l) \<le> i64_max"

text \<open>What the code relies on: decoding inverts encoding, and a BLAKE3 hash has 32 bytes.\<close>

definition journal_laws :: "journal_codec \<Rightarrow> bool" where
  "journal_laws jc \<longleftrightarrow>
     (\<forall>e b c. to_vec_named jc e = Inr b \<longrightarrow> encode_all jc b = Inr c \<longrightarrow>
        decode_all jc c = Inr b \<and> from_slice jc b = Inr e) \<and>
     (\<forall>b. length (blake3_hash jc b) = 32)"

lemma decode_encode_journal:
  "journal_laws jc \<Longrightarrow> encode_journal jc rs = Inr data \<Longrightarrow> decode_journal jc data = Inr rs"
proof -
  assume laws: "journal_laws jc" and e: "encode_journal jc rs = Inr data"
  let ?env = "\<lparr>je_format_version = journal_format_version, je_records = rs\<rparr>"
  obtain b where b: "to_vec_named jc ?env = Inr b" "encode_all jc b = Inr data"
    using e by (auto simp: encode_journal_def)
  then have "decode_all jc data = Inr b" "from_slice jc b = Inr ?env"
    using laws by (auto simp: journal_laws_def)
  then show "decode_journal jc data = Inr rs" by (simp add: decode_journal_def)
qed

definition row_holds :: "journal_codec \<Rightarrow> journal_row \<Rightarrow> canonical_record list \<Rightarrow> bool" where
  "row_holds jc j rs \<longleftrightarrow> blake3_hash jc (jr_payload j) = jr_checksum j \<and>
     decode_journal jc (jr_payload j) = Inr rs"

definition journaled :: "journal_codec \<Rightarrow> async_store \<Rightarrow> canonical_record \<Rightarrow> bool" where
  "journaled jc st r \<longleftrightarrow> (\<exists>j \<in> set (ingest_journal (as_db st)). \<exists>rs. row_holds jc j rs \<and> r \<in> set rs)"

text \<open>\<open>P\<close> are the records a purge took out of the open blocks.\<close>

definition durable :: "journal_codec \<Rightarrow> canonical_record set \<Rightarrow> async_store \<Rightarrow> canonical_record \<Rightarrow> bool" where
  "durable jc P st r \<longleftrightarrow> journaled jc st r \<or> kept (committed st \<union> P) r"

definition store_sound :: "ingest_env \<Rightarrow> int \<Rightarrow> async_store \<Rightarrow> bool" where
  "store_sound env N st \<longleftrightarrow> store_reachable (ie_codec env) (ie_config env) N st \<and>
     (\<forall>j \<in> set (ingest_journal (as_db st)). \<exists>rs. row_holds (ie_journal env) j rs)"

text \<open>From one state of the store to a later one nothing durable is lost.\<close>

definition advances :: "ingest_env \<Rightarrow> int \<Rightarrow> canonical_record set \<Rightarrow> async_store \<Rightarrow> async_store \<Rightarrow> bool" where
  "advances env N P st st' \<longleftrightarrow> store_sound env N st' \<and> committed st \<subseteq> committed st' \<and>
     (\<forall>r. durable (ie_journal env) P st r \<longrightarrow> durable (ie_journal env) P st' r)"

lemma advances_refl [simp]: "store_sound env N st \<Longrightarrow> advances env N P st st"
  by (simp add: advances_def)

lemma advances_trans: "advances env N P a b \<Longrightarrow> advances env N P b c \<Longrightarrow> advances env N P a c"
  unfolding advances_def by blast

lemma store_soundD:
  assumes "ingest_setup env N l" and "store_sound env N st"
  shows "store_inv (ie_codec env) N (as_db st)" "journal_inv (as_db st)"
  using writer_reachable_inv [of "ie_codec env" "ie_config env" N "as_db st"] assms
  by (auto simp: ingest_setup_def store_sound_def store_reachable_def store_inv_def)

lemma untouched_advances:
  "store_sound env N st \<Longrightarrow> untouched st st' \<Longrightarrow> advances env N P st st'"
  by (simp add: advances_def store_sound_def store_reachable_def durable_def journaled_def
      committed_def untouched_def)

lemma grows_advances:
  assumes "store_reachable (ie_codec env) (ie_config env) N st'"
    and "set (ingest_journal (as_db st)) \<subseteq> set (ingest_journal (as_db st'))"
    and "\<forall>j \<in> set (ingest_journal (as_db st')). \<exists>rs. row_holds (ie_journal env) j rs"
    and "committed st \<subseteq> committed st'"
  shows "advances env N P st st'"
proof -
  have "durable (ie_journal env) P st' r" if d: "durable (ie_journal env) P st r" for r
    using d unfolding durable_def
  proof (elim disjE)
    assume "journaled (ie_journal env) st r"
    then show "journaled (ie_journal env) st' r \<or> kept (committed st' \<union> P) r"
      using assms(2) unfolding journaled_def by blast
  next
    assume "kept (committed st \<union> P) r"
    then show "journaled (ie_journal env) st' r \<or> kept (committed st' \<union> P) r"
      using kept_mono [of _ r "committed st' \<union> P"] assms(4) by blast
  qed
  then show ?thesis using assms by (simp add: advances_def store_sound_def)
qed

section \<open>Calls\<close>

text \<open>A call of a command that does not touch the journal.\<close>

lemma other_call:
  assumes env: "ingest_setup env N l" and ok: "store_sound env N st"
    and fits: "command_fits N cmd" and cmd: "\<not> journal_command cmd"
    and c: "call (ie_codec env) (ie_config env) cmd answer st = (res, st')"
  shows "advances env N P st st' \<and> ingest_journal (as_db st') = ingest_journal (as_db st)"
proof -
  have su: "setup_ok (ie_codec env) (ie_config env) N" using env by (simp add: ingest_setup_def)
  have exec: "advances env N P st st' \<and> ingest_journal (as_db st') = ingest_journal (as_db st)"
    if e: "executed (ie_codec env) (ie_config env) cmd st reply st'" for reply
  proof -
    have j: "ingest_journal (as_db st') = ingest_journal (as_db st)"
      using other_command_journal [OF su store_soundD(1) [OF env ok] fits cmd] e
      by (simp add: executed_def)
    have "store_reachable (ie_codec env) (ie_config env) N st'"
      using executed_reachable [OF e fits] ok by (simp add: store_sound_def)
    then show ?thesis
      using grows_advances [of env N st' st] j ok committed_executed [OF e] by (simp add: store_sound_def)
  qed
  from c show ?thesis
  proof (cases rule: call_cases)
    case (failed e)
    then show ?thesis using untouched_advances [OF ok] by (simp add: untouched_def)
  qed (rule exec, assumption)+
qed

lemma append_call:
  assumes env: "ingest_setup env N l" and ok: "store_sound env N st"
    and shape: "\<forall>rs \<in> set bs. sealed_shape (ol_block_messages l) rs"
    and c: "async_append_channel_batches (ie_codec env) (ie_config env) bs st = (res, st')"
  shows "advances env N P st st' \<and> ingest_journal (as_db st') = ingest_journal (as_db st) \<and>
    (\<forall>u. res = Inr u \<longrightarrow> committed st' = committed st \<union> set (concat bs))"
proof -
  have "command_fits N (Append bs)"
    using env shape by (force simp: list_all_iff batch_fits_def sealed_shape_def ingest_setup_def)
  note o = other_call [OF env ok this _ c [unfolded async_append_channel_batches_def]]
  have "committed st' = committed st \<union> set (concat bs)" if u: "res = Inr u" for u
    using c [unfolded async_append_channel_batches_def]
  proof (cases rule: call_cases)
    case (answered reply)
    then show ?thesis using committed_append_answer [of _ _ bs st reply st' u] u by simp
  qed (use u in simp_all)
  then show ?thesis using o by simp
qed

lemma accept_call:
  assumes env: "ingest_setup env N l" and laws: "journal_laws (ie_journal env)"
    and ok: "store_sound env N st" and data: "encode_journal (ie_journal env) records = Inr data"
    and c: "async_accept_journal_batch (ie_codec env) (ie_config env) src stream first_sequence
      last_sequence (blake3_hash (ie_journal env) data) data now st = (res, st')"
    and fresh: "\<forall>j \<in> set (ingest_journal (as_db st)).
      jr_checksum j = blake3_hash (ie_journal env) data \<longrightarrow> jr_payload j = data"
  shows "advances env N P st st' \<and>
    (\<forall>a. res = Inr a \<longrightarrow>
       (\<exists>j \<in> set (ingest_journal (as_db st')). row_holds (ie_journal env) j records) \<and>
       (\<forall>j \<in> set (ingest_journal (as_db st')). j \<in> set (ingest_journal (as_db st)) \<or>
          row_holds (ie_journal env) j records \<and> jr_source_id j = src \<and> jr_stream_id j = stream \<and>
          jr_last_sequence j = int last_sequence \<and> jr_payload j = data))"
proof -
  let ?hash = "blake3_hash (ie_journal env) data"
  let ?cmd = "AcceptJournal src stream first_sequence last_sequence ?hash data now"
  have chk: "length ?hash = 32" using laws by (simp add: journal_laws_def)
  have dec: "decode_journal (ie_journal env) data = Inr records"
    by (rule decode_encode_journal [OF laws data])
  have exec: "advances env N P st st' \<and> (\<forall>a. answer_committed reply = Inr a \<longrightarrow>
       (\<exists>j \<in> set (ingest_journal (as_db st')). row_holds (ie_journal env) j records) \<and>
       (\<forall>j \<in> set (ingest_journal (as_db st')). j \<in> set (ingest_journal (as_db st)) \<or>
          row_holds (ie_journal env) j records \<and> jr_source_id j = src \<and> jr_stream_id j = stream \<and>
          jr_last_sequence j = int last_sequence \<and> jr_payload j = data))"
    if e: "executed (ie_codec env) (ie_config env) ?cmd st reply st'" for reply
  proof -
    obtain r where r: "accept_journal_batch src stream first_sequence last_sequence ?hash data now
        (as_db st) = (r, as_db st')" "reply = Committed r"
      using e by (auto simp: executed_def apply_command_def map_prod_def split: prod.splits)
    have reach: "store_reachable (ie_codec env) (ie_config env) N st'"
      using executed_reachable [OF e] chk ok by (simp add: store_sound_def)
    have com: "committed st \<subseteq> committed st'" using committed_executed [OF e] by blast
    have old: "\<forall>j \<in> set (ingest_journal (as_db st)). \<exists>rs. row_holds (ie_journal env) j rs"
      using ok by (simp add: store_sound_def)
    from store_soundD(2) [OF env ok] chk r(1) show ?thesis
    proof (cases rule: accept_batch_rows)
      case (refused e)
      then show ?thesis using grows_advances [OF reach _ _ com] old r(2) by simp
    next
      case (replayed c j)
      then have "row_holds (ie_journal env) j records" using fresh dec by (simp add: row_holds_def)
      then show ?thesis using grows_advances [OF reach _ _ com] old r(2) replayed by auto
    next
      case (added c)
      then show ?thesis
        using grows_advances [OF reach _ _ com] old r(2) dec by (auto simp: row_holds_def)
    qed
  qed
  from c show ?thesis unfolding async_accept_journal_batch_def
  proof (cases rule: call_cases)
    case (answered reply)
    then show ?thesis using exec by simp
  next
    case (lost reply)
    then show ?thesis using exec by simp
  next
    case (failed e)
    then show ?thesis using untouched_advances [OF ok] by simp
  qed
qed

lemma retired_rows:
  "retire_journal_through src stream p db = (Inr n, db') \<Longrightarrow> j \<in> set (ingest_journal db') \<Longrightarrow>
     \<not> (jr_source_id j = src \<and> jr_stream_id j = stream \<and> jr_last_sequence j \<le> int p)"
  by (auto simp: retire_journal_through_def i64_arg_Inr Let_def split: sum.splits)

text \<open>Retiring rows whose records are all kept elsewhere.\<close>

lemma retire_call:
  assumes env: "ingest_setup env N l" and ok: "store_sound env N st"
    and c: "async_retire_journal_through (ie_codec env) (ie_config env) src stream through st = (res, st')"
    and safe: "\<forall>j \<in> set (ingest_journal (as_db st)). \<forall>rs. row_holds (ie_journal env) j rs \<longrightarrow>
      (\<forall>r \<in> set rs. kept (committed st \<union> P) r)"
  shows "advances env N P st st' \<and> set (ingest_journal (as_db st')) \<subseteq> set (ingest_journal (as_db st)) \<and>
    committed st' = committed st \<and>
    (\<forall>n. res = Inr n \<longrightarrow> (\<forall>j \<in> set (ingest_journal (as_db st')).
       \<not> (jr_source_id j = src \<and> jr_stream_id j = stream \<and> jr_last_sequence j \<le> int through)))"
proof -
  let ?cmd = "RetireJournal src stream through"
  have exec: "advances env N P st st' \<and> set (ingest_journal (as_db st')) \<subseteq> set (ingest_journal (as_db st)) \<and>
      committed st' = committed st \<and>
      (\<forall>n. answer_removed reply = Inr n \<longrightarrow> (\<forall>j \<in> set (ingest_journal (as_db st')).
         \<not> (jr_source_id j = src \<and> jr_stream_id j = stream \<and> jr_last_sequence j \<le> int through)))"
    if e: "executed (ie_codec env) (ie_config env) ?cmd st reply st'" for reply
  proof -
    obtain r where r: "retire_journal_through src stream through (as_db st) = (r, as_db st')"
      "reply = Removed r"
      using e by (auto simp: executed_def apply_command_def map_prod_def split: prod.splits)
    have sub: "set (ingest_journal (as_db st')) \<subseteq> set (ingest_journal (as_db st))"
      using retire_journal_through_spec [OF store_soundD(2) [OF env ok] r(1)] by blast
    have com: "committed st' = committed st" using committed_executed [OF e] by simp
    have reach: "store_reachable (ie_codec env) (ie_config env) N st'"
      using executed_reachable [OF e] ok by (simp add: store_sound_def)
    have "store_sound env N st'" using ok sub reach unfolding store_sound_def by blast
    moreover have "durable (ie_journal env) P st' q" if "durable (ie_journal env) P st q" for q
      using that safe unfolding durable_def journaled_def com by blast
    ultimately have "advances env N P st st'" using com by (simp add: advances_def)
    moreover have "\<forall>n. r = Inr n \<longrightarrow> (\<forall>j \<in> set (ingest_journal (as_db st')).
         \<not> (jr_source_id j = src \<and> jr_stream_id j = stream \<and> jr_last_sequence j \<le> int through))"
      using r(1) retired_rows by blast
    ultimately show ?thesis using sub com r(2) by simp
  qed
  from c show ?thesis unfolding async_retire_journal_through_def
  proof (cases rule: call_cases)
    case (answered reply)
    then show ?thesis using exec by simp
  next
    case (lost reply)
    then show ?thesis using exec by simp
  next
    case (failed e)
    then show ?thesis
      using untouched_advances [OF ok] by (simp add: untouched_def committed_def)
  qed
qed

section \<open>The running process\<close>

text \<open>
  The rows of the journal that \<open>W\<close> selects are accounted for: their records are open, stored, or in
  \<open>Q\<close>, the records under way, and the map \<open>ks\<close> of processed sequence numbers covers them.
\<close>

definition noted :: "((string \<times> string) \<times> nat) list \<Rightarrow> journal_row \<Rightarrow> bool" where
  "noted ks j \<longleftrightarrow> (\<exists>p. map_of ks (jr_source_id j, jr_stream_id j) = Some p \<and> jr_last_sequence j \<le> int p)"

definition live ::
    "ingest_env \<Rightarrow> int \<Rightarrow> open_block_limits \<Rightarrow> (journal_row \<Rightarrow> bool) \<Rightarrow> canonical_record set
      \<Rightarrow> ((string \<times> string) \<times> nat) list \<Rightarrow> durable_ingest \<Rightarrow> bool" where
  "live env N l W Q ks d \<longleftrightarrow>
     open_shape (ol_block_messages l) (di_open d) \<and> om_limits (di_open d) = l \<and>
     store_sound env N (di_store d) \<and>
     (\<forall>j \<in> set (ingest_journal (as_db (di_store d))). W j \<longrightarrow> noted ks j \<and>
        (\<forall>rs. row_holds (ie_journal env) j rs \<longrightarrow>
           (\<forall>r \<in> set rs. kept (open_set (di_open d) \<union> committed (di_store d) \<union> Q) r)))"

definition safe :: "ingest_env \<Rightarrow> int \<Rightarrow> canonical_record set \<Rightarrow> durable_ingest \<Rightarrow> durable_ingest \<Rightarrow> bool" where
  "safe env N P d d' \<longleftrightarrow> advances env N P (di_store d) (di_store d')"

definition same_journal :: "durable_ingest \<Rightarrow> durable_ingest \<Rightarrow> bool" where
  "same_journal d d' \<longleftrightarrow>
     ingest_journal (as_db (di_store d')) = ingest_journal (as_db (di_store d))"

lemma safe_trans: "safe env N P a b \<Longrightarrow> safe env N P b c \<Longrightarrow> safe env N P a c"
  unfolding safe_def by (rule advances_trans)

lemma live_sound: "live env N l W Q ks d \<Longrightarrow> store_sound env N (di_store d)"
  by (simp add: live_def)

lemma safe_refl: "live env N l W Q ks d \<Longrightarrow> safe env N P d d"
  by (simp add: safe_def live_def)

lemma live_mono:
  assumes "live env N l W Q ks d" and "\<And>r. r \<in> Q \<Longrightarrow> kept (open_set (di_open d) \<union> committed (di_store d) \<union> R) r"
  shows "live env N l W R ks d"
proof -
  have "kept (open_set (di_open d) \<union> committed (di_store d) \<union> R) r"
    if "kept (open_set (di_open d) \<union> committed (di_store d) \<union> Q) r" for r
    by (rule kept_trans [OF that]) (use assms(2) in auto)
  then show ?thesis using assms(1) unfolding live_def by blast
qed

lemma live_subset: "live env N l W Q ks d \<Longrightarrow> Q \<subseteq> R \<Longrightarrow> live env N l W R ks d"
  by (rule live_mono) auto

lemma live_note [simp]: "live env N l W Q ks (note_materialized k t d) = live env N l W Q ks d"
  by (simp add: live_def note_materialized_def)

lemma note_store [simp]:
  "di_store (note_materialized k t d) = di_store d" "di_open (note_materialized k t d) = di_open d"
  by (simp_all add: note_materialized_def)

lemma noted_note:
  "noted (materialized_through d) j \<Longrightarrow> noted (materialized_through (note_materialized k t d)) j"
  by (auto simp: noted_def note_materialized_def update_conv' split: option.splits)

lemma noted_new:
  "jr_source_id j = src \<Longrightarrow> jr_stream_id j = stream \<Longrightarrow> jr_last_sequence j \<le> int t \<Longrightarrow>
     noted (materialized_through (note_materialized (src, stream) t d)) j"
  by (auto simp: noted_def note_materialized_def update_conv' split: option.splits)

text \<open>Moving the open blocks and the store on, with the journal unchanged.\<close>

lemma live_step:
  assumes "live env N l W Q ks d" and "open_shape (ol_block_messages l) (di_open d')"
    and "om_limits (di_open d') = l" and "store_sound env N (di_store d')" and "same_journal d d'"
    and "\<And>r. r \<in> open_set (di_open d) \<union> committed (di_store d) \<union> Q \<Longrightarrow>
      kept (open_set (di_open d') \<union> committed (di_store d') \<union> R) r"
  shows "live env N l W R ks d'"
proof -
  have "kept (open_set (di_open d') \<union> committed (di_store d') \<union> R) r"
    if "kept (open_set (di_open d) \<union> committed (di_store d) \<union> Q) r" for r
    by (rule kept_trans [OF that assms(6)])
  then show ?thesis using assms(1-5) unfolding live_def same_journal_def by simp
qed

lemma append_open_live:
  assumes "live env N l W (insert r Q) ks d"
  shows "outcome (append_open r now d)
    (\<lambda>more d'. live env N l W (Q \<union> set (concat more)) ks d' \<and> di_store d' = di_store d \<and>
       materialized_through d' = materialized_through d \<and>
       (\<forall>rs \<in> set more. sealed_shape (ol_block_messages l) rs))
    (\<lambda>e d'. di_store d' = di_store d)"
proof -
  obtain res m where a: "open_append r now (di_open d) = (res, m)" by fastforce
  show ?thesis
  proof (cases res)
    case (Inl e)
    then show ?thesis by (simp add: append_open_def a)
  next
    case (Inr more)
    have o: "open_shape (ol_block_messages l) (di_open d)" "om_limits (di_open d) = l"
      using assms by (simp_all add: live_def)
    note k = open_append_kept [OF o(1) _ a [unfolded Inr]]
    let ?d = "d\<lparr>di_open := m\<rparr>"
    have k': "open_shape (ol_block_messages l) m" "om_limits m = l"
      "\<forall>rs \<in> set more. sealed_shape (ol_block_messages l) rs"
      "\<forall>q \<in> insert r (open_set (di_open d)). kept (open_set m \<union> set (concat more)) q"
      using k o(2) by simp_all
    have "live env N l W (Q \<union> set (concat more)) ks ?d"
    proof (rule live_step [OF assms])
      fix q assume q: "q \<in> open_set (di_open d) \<union> committed (di_store d) \<union> insert r Q"
      show "kept (open_set (di_open ?d) \<union> committed (di_store ?d) \<union> (Q \<union> set (concat more))) q"
      proof (cases "q \<in> insert r (open_set (di_open d))")
        case True
        then have "kept (open_set m \<union> set (concat more)) q" using k'(4) by blast
        then show ?thesis by (rule kept_mono) auto
      next
        case False
        then show ?thesis using q by auto
      qed
    qed (use k' assms in \<open>simp_all add: live_def same_journal_def\<close>)
    then show ?thesis using k'(3) by (simp add: append_open_def a Inr)
  qed
qed

lemma append_records_live:
  assumes "live env N l W (Q \<union> set records \<union> set (concat sealed)) ks d"
    and "\<forall>rs \<in> set sealed. sealed_shape (ol_block_messages l) rs"
  shows "outcome (append_records records now sealed d)
    (\<lambda>sealed' d'. live env N l W (Q \<union> set (concat sealed')) ks d' \<and> di_store d' = di_store d \<and>
       materialized_through d' = materialized_through d \<and>
       (\<forall>rs \<in> set sealed'. sealed_shape (ol_block_messages l) rs))
    (\<lambda>e d'. di_store d' = di_store d)"
  using assms
proof (induction records arbitrary: sealed d)
  case (Cons r records)
  have "live env N l W (insert r (Q \<union> set records \<union> set (concat sealed))) ks d"
    using Cons.prems(1) by (rule live_subset) auto
  note a = append_open_live [OF this, of now]
  show ?case unfolding append_records.simps
  proof (rule outcome_then [OF a])
    fix more d1
    assume d1: "live env N l W (Q \<union> set records \<union> set (concat sealed) \<union> set (concat more)) ks d1 \<and>
      di_store d1 = di_store d \<and> materialized_through d1 = materialized_through d \<and>
      (\<forall>rs \<in> set more. sealed_shape (ol_block_messages l) rs)"
    then have "live env N l W (Q \<union> set records \<union> set (concat (sealed @ more))) ks d1"
      by (simp add: Un_assoc)
    then show "outcome (append_records records now (sealed @ more) d1)
      (\<lambda>sealed' d'. live env N l W (Q \<union> set (concat sealed')) ks d' \<and> di_store d' = di_store d \<and>
         materialized_through d' = materialized_through d \<and>
         (\<forall>rs \<in> set sealed'. sealed_shape (ol_block_messages l) rs))
      (\<lambda>e d'. di_store d' = di_store d)"
      using Cons.IH [of "sealed @ more" d1] d1 Cons.prems(2) by auto
  qed
qed simp

lemma append_batches_live:
  assumes env: "ingest_setup env N l" and d: "live env N l W (Q \<union> set (concat sealed)) ks d"
    and shape: "\<forall>rs \<in> set sealed. sealed_shape (ol_block_messages l) rs"
  shows "outcome (with_store (async_append_channel_batches (ie_codec env) (ie_config env) sealed) d)
    (\<lambda>_ d'. live env N l W Q ks d' \<and> materialized_through d' = materialized_through d \<and>
       di_open d' = di_open d \<and> committed (di_store d') = committed (di_store d) \<union> set (concat sealed) \<and>
       same_journal d d' \<and> safe env N P d d')
    (\<lambda>e d'. safe env N P d d')"
proof -
  obtain res st where c: "async_append_channel_batches (ie_codec env) (ie_config env) sealed (di_store d) = (res, st)"
    by fastforce
  note a = append_call [OF env live_sound [OF d] shape c, of P]
  let ?d = "d\<lparr>di_store := st\<rparr>"
  have sj: "same_journal d ?d" "safe env N P d ?d" using a by (simp_all add: same_journal_def safe_def)
  show ?thesis
  proof (cases res)
    case (Inl e)
    then show ?thesis using sj by (simp add: with_store_def c)
  next
    case (Inr u)
    then have com: "committed st = committed (di_store d) \<union> set (concat sealed)" using a by simp
    have "live env N l W Q ks ?d"
      by (rule live_step [OF d]) (use d a sj com in \<open>auto simp: live_def advances_def\<close>)
    then show ?thesis using sj com Inr by (simp add: with_store_def c)
  qed
qed

lemma append_sealed_live:
  assumes env: "ingest_setup env N l" and d: "live env N l W (Q \<union> set (concat sealed)) ks d"
    and shape: "\<forall>rs \<in> set sealed. sealed_shape (ol_block_messages l) rs"
  shows "outcome (append_sealed env sealed d)
    (\<lambda>_ d'. live env N l W Q ks d' \<and> materialized_through d' = materialized_through d \<and>
       same_journal d d' \<and> safe env N P d d')
    (\<lambda>e d'. safe env N P d d')"
proof (cases "sealed = []")
  case True
  then show ?thesis
    using d safe_refl [OF d] by (simp add: append_sealed_def same_journal_def)
next
  case False
  then show ?thesis
    using append_batches_live [OF env d shape, of P]
    by (simp add: append_sealed_def) (erule outcome_weaken; simp)
qed

lemma same_journal_trans: "same_journal a b \<Longrightarrow> same_journal b c \<Longrightarrow> same_journal a c"
  by (simp add: same_journal_def)

lemma safe_same_store: "live env N l W Q ks d \<Longrightarrow> di_store d' = di_store d \<Longrightarrow> safe env N P d d'"
  by (simp add: safe_def live_def)

section \<open>The operations\<close>

lemma materialize_live:
  assumes env: "ingest_setup env N l" and d: "live env N l W (Q \<union> set records) ks d"
  shows "outcome (materialize env src stream last_sequence records now d)
    (\<lambda>_ d'. live env N l W Q ks d' \<and> same_journal d d' \<and> safe env N P d d' \<and>
       materialized_through d' = materialized_through (note_materialized (src, stream) last_sequence d))
    (\<lambda>e d'. safe env N P d d')"
  unfolding materialize_def
proof (rule outcome_then [OF outcome_weaken [OF append_records_live [of env N l W Q records "[]" ks d now]]])
  fix sealed d1
  assume d1: "live env N l W (Q \<union> set (concat sealed)) ks d1 \<and> di_store d1 = di_store d \<and>
    materialized_through d1 = materialized_through d \<and> (\<forall>rs \<in> set sealed. sealed_shape (ol_block_messages l) rs)"
  then have a: "outcome (append_sealed env sealed d1)
    (\<lambda>_ d'. live env N l W Q ks d' \<and> materialized_through d' = materialized_through d1 \<and>
       same_journal d1 d' \<and> safe env N P d1 d') (\<lambda>e d'. safe env N P d1 d')"
    by (intro append_sealed_live [OF env]) auto
  have s: "safe env N P d d'" "same_journal d1 d' = same_journal d d'" if "safe env N P d1 d'" for d'
    using that d1 by (simp_all add: safe_def same_journal_def)
  show "outcome (then_st (append_sealed env sealed d1)
      (\<lambda>_ d. (Inr (), note_materialized (src, stream) last_sequence d)))
    (\<lambda>_ d'. live env N l W Q ks d' \<and> same_journal d d' \<and> safe env N P d d' \<and>
       materialized_through d' = materialized_through (note_materialized (src, stream) last_sequence d))
    (\<lambda>e d'. safe env N P d d')"
  proof (rule outcome_then [OF outcome_weaken [OF a]])
    fix u d2
    assume d2: "live env N l W Q ks d2 \<and> materialized_through d2 = materialized_through d1 \<and>
       same_journal d1 d2 \<and> safe env N P d1 d2"
    have "materialized_through (note_materialized (src, stream) last_sequence d2) =
      materialized_through (note_materialized (src, stream) last_sequence d)"
      using d1 d2 by (simp add: note_materialized_def)
    then show "outcome (Inr (), note_materialized (src, stream) last_sequence d2)
      (\<lambda>_ d'. live env N l W Q ks d' \<and> same_journal d d' \<and> safe env N P d d' \<and>
         materialized_through d' = materialized_through (note_materialized (src, stream) last_sequence d))
      (\<lambda>e d'. safe env N P d d')"
      using d1 d2 s [of d2] by (simp add: safe_def same_journal_def)
  qed (use s in auto)
qed (use d safe_same_store [OF d] in auto)

text \<open>
  Accepting: BLAKE3 has collisions in principle, so the statement is about a batch whose checksum
  is not that of a different payload in the journal.
\<close>

definition no_collision :: "ingest_env \<Rightarrow> canonical_record list \<Rightarrow> durable_ingest \<Rightarrow> bool" where
  "no_collision env records d \<longleftrightarrow>
     (\<forall>data. encode_journal (ie_journal env) records = Inr data \<longrightarrow>
       (\<forall>j \<in> set (ingest_journal (as_db (di_store d))).
          jr_checksum j = blake3_hash (ie_journal env) data \<longrightarrow> jr_payload j = data))"

definition running :: "ingest_env \<Rightarrow> int \<Rightarrow> open_block_limits \<Rightarrow> canonical_record set \<Rightarrow> durable_ingest \<Rightarrow> bool" where
  "running env N l P d \<longleftrightarrow> live env N l (\<lambda>_. True) P (materialized_through d) d"

text \<open>What an accepted batch adds to the journal.\<close>

definition journal_added :: "ingest_env \<Rightarrow> canonical_record list \<Rightarrow> durable_ingest \<Rightarrow> durable_ingest \<Rightarrow> bool" where
  "journal_added env records d d' \<longleftrightarrow>
     (\<forall>j \<in> set (ingest_journal (as_db (di_store d'))). j \<in> set (ingest_journal (as_db (di_store d))) \<or>
        encode_journal (ie_journal env) records = Inr (jr_payload j))"

lemma accept_batch_running:
  assumes env: "ingest_setup env N l" and laws: "journal_laws (ie_journal env)"
    and d: "running env N l P d" and fresh: "no_collision env records d"
  shows "outcome (accept_batch env src stream first_sequence last_sequence records now d)
    (\<lambda>_ d'. running env N l P d' \<and> safe env N P d d' \<and>
       (\<forall>r \<in> set records. journaled (ie_journal env) (di_store d') r) \<and> journal_added env records d d')
    (\<lambda>e d'. safe env N P d d')"
proof (cases "encode_journal (ie_journal env) records")
  case (Inl e)
  then show ?thesis using d safe_refl by (simp add: accept_batch_def running_def)
next
  case (Inr data)
  obtain res st where c: "async_accept_journal_batch (ie_codec env) (ie_config env) src stream
      first_sequence last_sequence (blake3_hash (ie_journal env) data) data now (di_store d) = (res, st)"
    by fastforce
  have fresh': "\<forall>j \<in> set (ingest_journal (as_db (di_store d))).
      jr_checksum j = blake3_hash (ie_journal env) data \<longrightarrow> jr_payload j = data"
    using fresh Inr by (simp add: no_collision_def)
  note a = accept_call [OF env laws live_sound [OF d [unfolded running_def]] Inr c fresh', of P]
  let ?d = "d\<lparr>di_store := st\<rparr>" and ?ks = "materialized_through (note_materialized (src, stream) last_sequence d)"
  have sd: "safe env N P d ?d" using a by (simp add: safe_def)
  show ?thesis
  proof (cases res)
    case e: (Inl e)
    then show ?thesis using Inr c sd by (simp add: accept_batch_def with_store_def)
  next
    case ok: (Inr ack)
    have rows: "\<exists>j \<in> set (ingest_journal (as_db st)). row_holds (ie_journal env) j records"
      "\<And>j. j \<in> set (ingest_journal (as_db st)) \<Longrightarrow> j \<in> set (ingest_journal (as_db (di_store d))) \<or>
          row_holds (ie_journal env) j records \<and> jr_source_id j = src \<and> jr_stream_id j = stream \<and>
          jr_last_sequence j = int last_sequence \<and> jr_payload j = data"
      using a ok by blast+
    have com: "committed (di_store d) \<subseteq> committed st" and sound: "store_sound env N st"
      using a by (simp_all add: advances_def)
    have "live env N l (\<lambda>_. True) (P \<union> set records) ?ks ?d"
      unfolding live_def
    proof (intro conjI ballI impI allI)
      fix j assume j: "j \<in> set (ingest_journal (as_db (di_store ?d)))"
      show "noted ?ks j"
        using rows(2) [of j] j d by (auto simp: running_def live_def intro: noted_note noted_new)
      fix rs r assume rs: "row_holds (ie_journal env) j rs" "r \<in> set rs"
      show "kept (open_set (di_open ?d) \<union> committed (di_store ?d) \<union> (P \<union> set records)) r"
      proof (cases "j \<in> set (ingest_journal (as_db (di_store d)))")
        case True
        then have "kept (open_set (di_open d) \<union> committed (di_store d) \<union> P) r"
          using d rs by (simp add: running_def live_def)
        then show ?thesis by (rule kept_mono) (use com in auto)
      next
        case False
        then have "rs = records" using rows(2) [of j] j rs(1) by (auto simp: row_holds_def)
        then show ?thesis using rs(2) by auto
      qed
    qed (use d sound in \<open>simp_all add: running_def live_def\<close>)
    note m = materialize_live [OF env this, of src stream last_sequence now P]
    have "outcome (then_st (materialize env src stream last_sequence records now ?d) (\<lambda>_ d. (Inr ack, d)))
      (\<lambda>_ d'. running env N l P d' \<and> safe env N P d d' \<and>
         (\<forall>r \<in> set records. journaled (ie_journal env) (di_store d') r) \<and> journal_added env records d d')
      (\<lambda>e d'. safe env N P d d')"
    proof (rule outcome_then [OF outcome_weaken [OF m]])
      fix u d2
      assume d2: "live env N l (\<lambda>_. True) P ?ks d2 \<and> same_journal ?d d2 \<and> safe env N P ?d d2 \<and>
        materialized_through d2 = materialized_through (note_materialized (src, stream) last_sequence ?d)"
      have "materialized_through d2 = ?ks" using d2 by (simp add: note_materialized_def)
      then have "running env N l P d2" using d2 by (simp add: running_def)
      moreover have "safe env N P d d2" using safe_trans [OF sd] d2 by blast
      moreover have "\<forall>r \<in> set records. journaled (ie_journal env) (di_store d2) r"
        using rows(1) d2 by (auto simp: journaled_def same_journal_def)
      moreover have "journal_added env records d d2"
        using rows(2) d2 Inr by (auto simp: journal_added_def same_journal_def)
      ultimately show "outcome (Inr ack, d2)
        (\<lambda>_ d'. running env N l P d' \<and> safe env N P d d' \<and>
           (\<forall>r \<in> set records. journaled (ie_journal env) (di_store d') r) \<and> journal_added env records d d')
        (\<lambda>e d'. safe env N P d d')"
        by simp
    qed (use safe_trans [OF sd] in auto)
    then show ?thesis using Inr c ok by (simp add: accept_batch_def with_store_def)
  qed
qed

lemma accept_source_batch_running:
  assumes "ingest_setup env N l" and "journal_laws (ie_journal env)"
    and "running env N l P d" and "no_collision env (rb_records b) d"
  shows "outcome (accept_source_batch env b now d)
    (\<lambda>_ d'. running env N l P d' \<and> safe env N P d d' \<and>
       (\<forall>r \<in> set (rb_records b). journaled (ie_journal env) (di_store d') r) \<and>
       journal_added env (rb_records b) d d')
    (\<lambda>e d'. safe env N P d d')"
  using accept_batch_running [OF assms] assms(3) safe_refl
  by (auto simp: accept_source_batch_def running_def split: option.splits)

lemma seal_due_running:
  assumes env: "ingest_setup env N l" and d: "running env N l P d"
  shows "outcome (ingest_seal_due env now d) (\<lambda>_ d'. running env N l P d' \<and> safe env N P d d' \<and> same_journal d d')
    (\<lambda>e d'. safe env N P d d')"
proof -
  obtain sealed m where s: "seal_due now (di_open d) = (sealed, m)" by fastforce
  let ?d = "d\<lparr>di_open := m\<rparr>"
  have l: "live env N l (\<lambda>_. True) P (materialized_through d) d" using d by (simp add: running_def)
  have o: "open_shape (ol_block_messages l) (di_open d)" "om_limits (di_open d) = l"
    using l by (simp_all add: live_def)
  note k = seal_due_shape [OF o(1) s]
  have "live env N l (\<lambda>_. True) (P \<union> set (concat sealed)) (materialized_through d) ?d"
    by (rule live_step [OF l]) (use k o l in \<open>auto simp: live_def same_journal_def\<close>)
  then have a: "outcome (append_sealed env sealed ?d)
    (\<lambda>_ d'. live env N l (\<lambda>_. True) P (materialized_through d) d' \<and>
       materialized_through d' = materialized_through ?d \<and> same_journal ?d d' \<and> safe env N P ?d d')
    (\<lambda>e d'. safe env N P ?d d')"
    by (intro append_sealed_live [OF env]) (use k in auto)
  show ?thesis
    unfolding ingest_seal_due_def s prod.case
    by (rule outcome_then [OF outcome_weaken [OF a]]) (auto simp: running_def safe_def same_journal_def)
qed

section \<open>Checkpoints\<close>

lemma checkpoint_wal_live:
  assumes env: "ingest_setup env N l" and d: "live env N l W Q ks d"
  shows "outcome (with_store (async_checkpoint_wal (ie_codec env) (ie_config env)) d)
    (\<lambda>_ d'. live env N l W Q ks d' \<and> materialized_through d' = materialized_through d \<and>
       di_open d' = di_open d \<and> safe env N P d d')
    (\<lambda>e d'. safe env N P d d')"
proof -
  obtain res st where c: "async_checkpoint_wal (ie_codec env) (ie_config env) (di_store d) = (res, st)"
    by fastforce
  note a = other_call [OF env live_sound [OF d] _ _ c [unfolded async_checkpoint_wal_def], of P]
  let ?d = "d\<lparr>di_store := st\<rparr>"
  have adv: "advances env N P (di_store d) st" "same_journal d ?d" using a by (simp_all add: same_journal_def)
  have "live env N l W Q ks ?d"
    by (rule live_step [OF d]) (use d adv in \<open>auto simp: live_def advances_def\<close>)
  then show ?thesis
    using adv by (cases res) (simp_all add: with_store_def c safe_def)
qed

lemma append_chunks_live:
  assumes "ingest_setup env N l" and "live env N l W (Q \<union> set (concat sealed)) ks d"
    and "\<forall>rs \<in> set sealed. sealed_shape (ol_block_messages l) rs"
  shows "outcome (append_chunks env sealed d)
    (\<lambda>_ d'. live env N l W Q ks d' \<and> materialized_through d' = materialized_through d \<and>
       di_open d' = di_open d \<and> safe env N P d d')
    (\<lambda>e d'. safe env N P d d')"
  using assms
proof (induction env sealed d rule: append_chunks.induct)
  case (1 env sealed d)
  let ?n = recovery_append_batches
  let ?chunk = "take ?n sealed" and ?rest = "drop ?n sealed"
  let ?Q = "\<lambda>_ d'. live env N l W Q ks d' \<and> materialized_through d' = materialized_through d \<and>
       di_open d' = di_open d \<and> safe env N P d d'"
  let ?E = "\<lambda>_ d'. safe env N P d d'"
  show ?case
  proof (cases "?chunk = []")
    case True
    then have "sealed = []" by (simp add: recovery_append_batches_def)
    then show ?thesis
      using "1.prems"(2) safe_refl [OF "1.prems"(2)] by (simp add: append_chunks.simps [of env "[]" d])
  next
    case False
    have split: "set (concat sealed) = set (concat ?rest) \<union> set (concat ?chunk)"
      by (metis append_take_drop_id concat_append set_append Un_commute)
    have pre: "live env N l W (Q \<union> set (concat ?rest) \<union> set (concat ?chunk)) ks d"
      using "1.prems"(2) unfolding split Un_assoc .
    have shapes: "\<forall>rs \<in> set ?chunk. sealed_shape (ol_block_messages l) rs"
      "\<forall>rs \<in> set ?rest. sealed_shape (ol_block_messages l) rs"
      using "1.prems"(3) in_set_takeD in_set_dropD by metis+
    have step: "append_chunks env sealed d =
      then_st (with_store (async_append_channel_batches (ie_codec env) (ie_config env) ?chunk) d) (\<lambda>_ d.
      then_st (with_store (async_checkpoint_wal (ie_codec env) (ie_config env)) d) (\<lambda>_ d.
        append_chunks env ?rest d))"
      using False by (simp add: append_chunks.simps [of env sealed d] Let_def)
    show ?thesis
      unfolding step
    proof (rule outcome_then [OF outcome_weaken [OF append_batches_live [OF "1.prems"(1) pre shapes(1), of P]]])
      fix u d1
      assume d1: "live env N l W (Q \<union> set (concat ?rest)) ks d1 \<and>
        materialized_through d1 = materialized_through d \<and> di_open d1 = di_open d \<and>
        committed (di_store d1) = committed (di_store d) \<union> set (concat ?chunk) \<and>
        same_journal d d1 \<and> safe env N P d d1"
      then have "live env N l W (Q \<union> set (concat ?rest)) ks d1" by blast
      note w = checkpoint_wal_live [OF "1.prems"(1) this, of P]
      show "outcome (then_st (with_store (async_checkpoint_wal (ie_codec env) (ie_config env)) d1) (\<lambda>_ d.
        append_chunks env ?rest d)) ?Q ?E"
      proof (rule outcome_then [OF outcome_weaken [OF w]])
        fix v d2
        assume d2: "live env N l W (Q \<union> set (concat ?rest)) ks d2 \<and>
          materialized_through d2 = materialized_through d1 \<and> di_open d2 = di_open d1 \<and> safe env N P d1 d2"
        have s: "safe env N P d d2" using d1 d2 safe_trans by blast
        have "outcome (append_chunks env ?rest d2)
          (\<lambda>_ d'. live env N l W Q ks d' \<and> materialized_through d' = materialized_through d2 \<and>
             di_open d' = di_open d2 \<and> safe env N P d2 d') (\<lambda>_ d'. safe env N P d2 d')"
          by (rule "1.IH" [OF refl False]) (use "1.prems"(1) d2 shapes(2) in blast)+
        then show "outcome (append_chunks env ?rest d2) ?Q ?E"
          by (rule outcome_weaken) (use d1 d2 safe_trans [OF s] in auto)
      qed (use d1 safe_trans in blast)+
    qed auto
  qed
qed

text \<open>With nothing open and nothing under way, every row may go.\<close>

lemma retire_all_live:
  assumes "ingest_setup env N l" and "live env N l (\<lambda>_. True) P ks d" and "open_set (di_open d) = {}"
  shows "outcome (retire_all env ks d)
    (\<lambda>_ d'. live env N l (\<lambda>_. True) P [] d' \<and> di_open d' = di_open d \<and> safe env N P d d' \<and>
       materialized_through d' = filter (\<lambda>(k, v). k \<notin> fst ` set ks) (materialized_through d))
    (\<lambda>e d'. safe env N P d d')"
  using assms(2,3)
proof (induction ks arbitrary: d)
  case Nil
  then show ?case using safe_refl [OF Nil.prems(1)] by simp
next
  case (Cons kv ks)
  obtain src stream through where kv: "kv = ((src, stream), through)" by (metis prod.exhaust)
  obtain res st where c: "async_retire_journal_through (ie_codec env) (ie_config env) src stream through
      (di_store d) = (res, st)" by fastforce
  have "\<forall>j \<in> set (ingest_journal (as_db (di_store d))). \<forall>rs. row_holds (ie_journal env) j rs \<longrightarrow>
      (\<forall>r \<in> set rs. kept (committed (di_store d) \<union> P) r)"
    using Cons.prems by (simp add: live_def)
  note a = retire_call [OF assms(1) live_sound [OF Cons.prems(1)] c this]
  show ?case
  proof (cases res)
    case (Inl e)
    then show ?thesis using a by (simp add: kv with_store_def c safe_def)
  next
    case (Inr n)
    let ?d = "d\<lparr>di_store := st, materialized_through := AList.delete (src, stream) (materialized_through d)\<rparr>"
    have rows: "set (ingest_journal (as_db st)) \<subseteq> set (ingest_journal (as_db (di_store d)))"
      and com: "committed st = committed (di_store d)" and adv: "advances env N P (di_store d) st"
      and gone: "\<And>j. j \<in> set (ingest_journal (as_db st)) \<Longrightarrow>
         \<not> (jr_source_id j = src \<and> jr_stream_id j = stream \<and> jr_last_sequence j \<le> int through)"
      using a Inr by blast+
    have "live env N l (\<lambda>_. True) P ks ?d"
      unfolding live_def
    proof (intro conjI ballI impI allI)
      fix j assume j: "j \<in> set (ingest_journal (as_db (di_store ?d)))"
      then have old: "j \<in> set (ingest_journal (as_db (di_store d)))" using rows by auto
      then have "noted (((src, stream), through) # ks) j"
        using Cons.prems(1) by (simp add: live_def kv)
      then show "noted ks j" using gone [of j] j by (auto simp: noted_def split: if_splits)
      fix rs r assume "row_holds (ie_journal env) j rs" "r \<in> set rs"
      then show "kept (open_set (di_open ?d) \<union> committed (di_store ?d) \<union> P) r"
        using Cons.prems(1) old com by (simp add: live_def)
    qed (use Cons.prems(1) adv in \<open>simp_all add: live_def advances_def\<close>)
    note IH = Cons.IH [OF this]
    have s: "safe env N P d ?d" using adv by (simp add: safe_def)
    have step: "retire_all env (kv # ks) d = retire_all env ks ?d"
      using Inr by (simp add: kv with_store_def c)
    show ?thesis
      unfolding step
      by (rule outcome_weaken [OF IH])
        (use Cons.prems(2) safe_trans [OF s] in \<open>auto simp: kv AList.delete_eq intro: filter_cong\<close>)
  qed
qed

lemma checkpoint_running:
  assumes env: "ingest_setup env N l" and d: "running env N l P d"
  shows "outcome (ingest_checkpoint env d)
    (\<lambda>_ d'. running env N l P d' \<and> safe env N P d d' \<and> ingest_journal (as_db (di_store d')) = [] \<and>
       open_set (di_open d') = {} \<and> materialized_through d' = [])
    (\<lambda>e d'. safe env N P d d')"
proof -
  obtain sealed m where s: "seal_all (di_open d) = (sealed, m)" by fastforce
  let ?d = "d\<lparr>di_open := m\<rparr>" and ?ks = "materialized_through d"
  have l: "live env N l (\<lambda>_. True) P ?ks d" using d by (simp add: running_def)
  have o: "open_shape (ol_block_messages l) (di_open d)" "om_limits (di_open d) = l"
    using l by (simp_all add: live_def)
  note k = seal_all_shape [OF o(1) s]
  have l1: "live env N l (\<lambda>_. True) (P \<union> set (concat sealed)) ?ks ?d"
    by (rule live_step [OF l]) (use k o l in \<open>auto simp: live_def same_journal_def\<close>)
  have sf: "safe env N P d d'" if "safe env N P ?d d'" for d' using that by (simp add: safe_def)
  show ?thesis
    unfolding ingest_checkpoint_def s prod.case
  proof (rule outcome_then [OF outcome_weaken [OF append_chunks_live [OF env l1, of P]]])
    fix u d1
    assume d1: "live env N l (\<lambda>_. True) P ?ks d1 \<and> materialized_through d1 = materialized_through ?d \<and>
       di_open d1 = di_open ?d \<and> safe env N P ?d d1"
    then have mat: "materialized_through d1 = ?ks" and l2: "live env N l (\<lambda>_. True) P ?ks d1"
      and empty: "open_set (di_open d1) = {}" and s1: "safe env N P d d1" using k sf by auto
    show "outcome (then_st (retire_all env (materialized_through d1) d1)
        (\<lambda>_ d. (Inr (sum_list (map length sealed)), d)))
      (\<lambda>_ d'. running env N l P d' \<and> safe env N P d d' \<and> ingest_journal (as_db (di_store d')) = [] \<and>
         open_set (di_open d') = {} \<and> materialized_through d' = [])
      (\<lambda>e d'. safe env N P d d')"
      unfolding mat
    proof (rule outcome_then [OF outcome_weaken [OF retire_all_live [OF env l2 empty]]])
      fix v d2
      assume d2: "live env N l (\<lambda>_. True) P [] d2 \<and> di_open d2 = di_open d1 \<and> safe env N P d1 d2 \<and>
        materialized_through d2 = filter (\<lambda>(k, v). k \<notin> fst ` set ?ks) (materialized_through d1)"
      have "materialized_through d2 = []" using d2 mat by (force simp: filter_empty_conv)
      moreover have "ingest_journal (as_db (di_store d2)) = []"
        using d2 by (auto simp: live_def noted_def intro: ccontr)
      ultimately show "outcome (Inr (sum_list (map length sealed)), d2)
        (\<lambda>_ d'. running env N l P d' \<and> safe env N P d d' \<and> ingest_journal (as_db (di_store d')) = [] \<and>
           open_set (di_open d') = {} \<and> materialized_through d' = [])
        (\<lambda>e d'. safe env N P d d')"
        using d2 empty safe_trans [OF s1] by (simp add: running_def)
    qed (use safe_trans [OF s1] in auto)
  qed (use k sf in auto)
qed

section \<open>Recovery\<close>

definition store_failure :: "ingest_error \<Rightarrow> bool" where
  "store_failure e \<longleftrightarrow> (\<exists>se. e = StoreFailed se)"

lemma with_store_failure: "outcome (with_store f d) (\<lambda>_ _. True) (\<lambda>e _. store_failure e)"
proof -
  obtain res st where "f (di_store d) = (res, st)" by fastforce
  then show ?thesis by (cases res) (simp_all add: with_store_def store_failure_def)
qed

lemma append_sealed_failure: "outcome (append_sealed env sealed d) (\<lambda>_ _. True) (\<lambda>e _. store_failure e)"
  by (simp add: append_sealed_def with_store_failure)

text \<open>With the clock not behind, appending to the open blocks never fails.\<close>

lemma append_open_recovery:
  assumes "live env N l W (insert r Q) ks d" and "open_clock now (di_open d)"
  shows "outcome (append_open r now d)
    (\<lambda>more d'. live env N l W (Q \<union> set (concat more)) ks d' \<and> di_store d' = di_store d \<and>
       materialized_through d' = materialized_through d \<and> open_clock now (di_open d') \<and>
       (\<forall>rs \<in> set more. sealed_shape (ol_block_messages l) rs))
    (\<lambda>e d'. False)"
proof -
  obtain sealed m where "open_append r now (di_open d) = (Inr sealed, m)" "open_clock now m"
    using open_append_clock [OF assms(2)] by blast
  then show ?thesis
    using append_open_live [OF assms(1), of now] by (simp add: append_open_def)
qed

lemma recover_records_live:
  assumes env: "ingest_setup env N l"
    and "live env N l W (Q \<union> set records \<union> set (concat sealed)) ks d" and "open_clock now (di_open d)"
    and "\<forall>rs \<in> set sealed. sealed_shape (ol_block_messages l) rs"
  shows "outcome (recover_records env records now sealed d)
    (\<lambda>sealed' d'. live env N l W (Q \<union> set (concat sealed')) ks d' \<and> open_clock now (di_open d') \<and>
       materialized_through d' = materialized_through d \<and> same_journal d d' \<and> safe env N P d d' \<and>
       (\<forall>rs \<in> set sealed'. sealed_shape (ol_block_messages l) rs))
    (\<lambda>e d'. store_failure e \<and> safe env N P d d')"
  using assms(2-)
proof (induction records arbitrary: sealed d)
  case Nil
  then show ?case using safe_refl [OF Nil.prems(1)] by (simp add: same_journal_def)
next
  case (Cons r records)
  let ?E = "\<lambda>e d'. store_failure e \<and> safe env N P d d'"
  let ?R = "\<lambda>sealed' d'. live env N l W (Q \<union> set (concat sealed')) ks d' \<and> open_clock now (di_open d') \<and>
       materialized_through d' = materialized_through d \<and> same_journal d d' \<and> safe env N P d d' \<and>
       (\<forall>rs \<in> set sealed'. sealed_shape (ol_block_messages l) rs)"
  have "live env N l W (insert r (Q \<union> set records \<union> set (concat sealed))) ks d"
    using Cons.prems(1) by (rule live_subset) auto
  note a = append_open_recovery [OF this Cons.prems(2)]
  show ?case unfolding recover_records.simps
  proof (rule outcome_then [OF outcome_weaken [OF a]])
    fix more d1
    assume d1: "live env N l W (Q \<union> set records \<union> set (concat sealed) \<union> set (concat more)) ks d1 \<and>
      di_store d1 = di_store d \<and> materialized_through d1 = materialized_through d \<and>
      open_clock now (di_open d1) \<and> (\<forall>rs \<in> set more. sealed_shape (ol_block_messages l) rs)"
    let ?sealed = "sealed @ more"
    have l1: "live env N l W (Q \<union> set records \<union> set (concat ?sealed)) ks d1" using d1 by (simp add: Un_assoc)
    have sh: "\<forall>rs \<in> set ?sealed. sealed_shape (ol_block_messages l) rs" using d1 Cons.prems(3) by auto
    have same: "safe env N P d d' = safe env N P d1 d'" "same_journal d d' = same_journal d1 d'" for d'
      using d1 by (simp_all add: safe_def same_journal_def)
    show "outcome (if length ?sealed \<ge> recovery_append_batches
        then then_st (with_store (async_append_channel_batches (ie_codec env) (ie_config env) ?sealed) d1)
               (\<lambda>_ d. recover_records env records now [] d)
        else recover_records env records now ?sealed d1) ?R ?E"
    proof (cases "length ?sealed \<ge> recovery_append_batches")
      case False
      then show ?thesis
        using Cons.IH [OF l1 _ sh] d1 by (simp add: same)
    next
      case True
      note w = outcome_conj [OF append_batches_live [OF env l1 sh, of P] with_store_failure]
      have "outcome (then_st (with_store (async_append_channel_batches (ie_codec env) (ie_config env) ?sealed) d1)
               (\<lambda>_ d. recover_records env records now [] d)) ?R ?E"
      proof (rule outcome_then [OF outcome_weaken [OF w]])
        fix u d2
        assume d2: "(live env N l W (Q \<union> set records) ks d2 \<and> materialized_through d2 = materialized_through d1 \<and>
          di_open d2 = di_open d1 \<and> committed (di_store d2) = committed (di_store d1) \<union> set (concat ?sealed) \<and>
          same_journal d1 d2 \<and> safe env N P d1 d2) \<and> True"
        have s: "safe env N P d d2" "same_journal d d2" using d2 same by auto
        have l2: "live env N l W (Q \<union> set records \<union> set (concat [])) ks d2" using d2 by simp
        have "outcome (recover_records env records now [] d2)
          (\<lambda>sealed' d'. live env N l W (Q \<union> set (concat sealed')) ks d' \<and> open_clock now (di_open d') \<and>
             materialized_through d' = materialized_through d2 \<and> same_journal d2 d' \<and> safe env N P d2 d' \<and>
             (\<forall>rs \<in> set sealed'. sealed_shape (ol_block_messages l) rs))
          (\<lambda>e d'. store_failure e \<and> safe env N P d2 d')"
          by (rule Cons.IH [OF l2]) (use d1 d2 in simp_all)
        then show "outcome (recover_records env records now [] d2) ?R ?E"
          by (rule outcome_weaken) (use d1 d2 s safe_trans [OF s(1)] same_journal_trans [OF s(2)] in auto)
      qed (auto simp: same)
      then show ?thesis using True by simp
    qed
  qed auto
qed

text \<open>The rows whose batches are still to be replayed.\<close>

definition replayed :: "journal_batch list \<Rightarrow> journal_row \<Rightarrow> bool" where
  "replayed bs j \<longleftrightarrow> (\<forall>b \<in> set bs. journal_batch_of j \<noteq> Inr b)"

text \<open>The batches are those of rows of the journal.\<close>

definition batches_of :: "durable_ingest \<Rightarrow> journal_batch list \<Rightarrow> bool" where
  "batches_of d bs \<longleftrightarrow>
     (\<forall>b \<in> set bs. \<exists>j \<in> set (ingest_journal (as_db (di_store d))). journal_batch_of j = Inr b)"

lemma journal_batch_of_fields:
  "journal_batch_of j = Inr b \<Longrightarrow> jb_payload b = jr_payload j \<and> jb_checksum b = jr_checksum j \<and>
     jb_source_id b = jr_source_id j \<and> jb_stream_id b = jr_stream_id j \<and>
     jr_last_sequence j = int (jb_last_sequence b)"
  by (auto simp: journal_batch_of_def split: if_splits)

lemma recover_batches_live:
  assumes env: "ingest_setup env N l"
    and "live env N l (replayed bs) (P \<union> set (concat sealed)) (materialized_through d) d"
    and "batches_of d bs" and "open_clock now (di_open d)"
    and "\<forall>rs \<in> set sealed. sealed_shape (ol_block_messages l) rs"
  shows "outcome (recover_batches env bs now sealed d)
    (\<lambda>sealed' d'. live env N l (\<lambda>_. True) (P \<union> set (concat sealed')) (materialized_through d') d' \<and>
       same_journal d d' \<and> safe env N P d d' \<and>
       (\<forall>rs \<in> set sealed'. sealed_shape (ol_block_messages l) rs))
    (\<lambda>e d'. store_failure e \<and> safe env N P d d')"
  using assms(2-)
proof (induction bs arbitrary: sealed d)
  case Nil
  then show ?case using safe_refl [OF Nil.prems(1)] by (simp add: same_journal_def replayed_def live_def)
next
  case (Cons b bs)
  let ?E = "\<lambda>e d'. store_failure e \<and> safe env N P d d'"
  let ?R = "\<lambda>sealed' d'. live env N l (\<lambda>_. True) (P \<union> set (concat sealed')) (materialized_through d') d' \<and>
       same_journal d d' \<and> safe env N P d d' \<and> (\<forall>rs \<in> set sealed'. sealed_shape (ol_block_messages l) rs)"
  let ?k = "(jb_source_id b, jb_stream_id b)" and ?last = "jb_last_sequence b"
  let ?ks = "materialized_through (note_materialized ?k ?last d)"
  obtain j where j: "j \<in> set (ingest_journal (as_db (di_store d)))" "journal_batch_of j = Inr b"
    using Cons.prems(2) by (auto simp: batches_of_def)
  note f = journal_batch_of_fields [OF j(2)]
  obtain records where holds: "row_holds (ie_journal env) j records"
    using live_sound [OF Cons.prems(1)] j(1) by (auto simp: store_sound_def)
  have ok: "blake3_hash (ie_journal env) (jb_payload b) = jb_checksum b"
    "decode_journal (ie_journal env) (jb_payload b) = Inr records"
    using holds f by (simp_all add: row_holds_def)
  have "live env N l (replayed bs) (P \<union> set records \<union> set (concat sealed)) ?ks d"
    unfolding live_def
  proof (intro conjI ballI impI allI)
    fix i assume i: "i \<in> set (ingest_journal (as_db (di_store d)))" "replayed bs i"
    show "noted ?ks i"
    proof (cases "journal_batch_of i = Inr b")
      case True
      then show ?thesis using journal_batch_of_fields [OF True] by (intro noted_new) auto
    next
      case False
      then have "replayed (b # bs) i" using i(2) by (simp add: replayed_def)
      then show ?thesis using Cons.prems(1) i(1) by (intro noted_note) (simp add: live_def)
    qed
    fix rs r assume rs: "row_holds (ie_journal env) i rs" "r \<in> set rs"
    show "kept (open_set (di_open d) \<union> committed (di_store d) \<union> (P \<union> set records \<union> set (concat sealed))) r"
    proof (cases "journal_batch_of i = Inr b")
      case True
      then have "rs = records"
        using journal_batch_of_fields [OF True] rs(1) ok(2) by (simp add: row_holds_def)
      then show ?thesis using rs(2) by auto
    next
      case False
      then have "replayed (b # bs) i" using i(2) by (simp add: replayed_def)
      then have "kept (open_set (di_open d) \<union> committed (di_store d) \<union> (P \<union> set (concat sealed))) r"
        using Cons.prems(1) i(1) rs by (simp add: live_def)
      then show ?thesis by (rule kept_mono) auto
    qed
  qed (use Cons.prems(1) in \<open>simp_all add: live_def\<close>)
  note rec = recover_records_live [OF env this Cons.prems(3,4), of P]
  have "outcome (then_st (recover_records env records now sealed d) (\<lambda>sealed d.
      recover_batches env bs now sealed (note_materialized ?k ?last d))) ?R ?E"
  proof (rule outcome_then [OF rec])
    fix sealed1 d1
    assume d1: "live env N l (replayed bs) (P \<union> set (concat sealed1)) ?ks d1 \<and> open_clock now (di_open d1) \<and>
      materialized_through d1 = materialized_through d \<and> same_journal d d1 \<and> safe env N P d d1 \<and>
      (\<forall>rs \<in> set sealed1. sealed_shape (ol_block_messages l) rs)"
    let ?d = "note_materialized ?k ?last d1"
    have "materialized_through ?d = ?ks" using d1 by (simp add: note_materialized_def)
    then have l1: "live env N l (replayed bs) (P \<union> set (concat sealed1)) (materialized_through ?d) ?d"
      using d1 by simp
    have s: "safe env N P d ?d" "same_journal d ?d" using d1 by (simp_all add: safe_def same_journal_def)
    have "batches_of ?d bs" using Cons.prems(2) d1 by (simp add: batches_of_def same_journal_def)
    then have "outcome (recover_batches env bs now sealed1 ?d)
      (\<lambda>sealed' d'. live env N l (\<lambda>_. True) (P \<union> set (concat sealed')) (materialized_through d') d' \<and>
         same_journal ?d d' \<and> safe env N P ?d d' \<and>
         (\<forall>rs \<in> set sealed'. sealed_shape (ol_block_messages l) rs))
      (\<lambda>e d'. store_failure e \<and> safe env N P ?d d')"
      by (intro Cons.IH [OF l1]) (use d1 in simp_all)
    then show "outcome (recover_batches env bs now sealed1 ?d) ?R ?E"
      by (rule outcome_weaken) (use safe_trans [OF s(1)] same_journal_trans [OF s(2)] in auto)
  qed
  then show ?case using ok by simp
qed

text \<open>A restart on a sound store replays the whole journal, or stops at a failed call.\<close>

lemma pending_call:
  assumes env: "ingest_setup env N l" and ok: "store_sound env N (di_store d)"
  shows "outcome (with_store (async_pending_journal_batches (ie_codec env) (ie_config env)) d)
    (\<lambda>bs d'. pending_journal_batches (as_db (di_store d)) = Inr bs \<and> same_journal d d' \<and>
       safe env N P d d' \<and> di_open d' = di_open d \<and> materialized_through d' = materialized_through d)
    (\<lambda>e d'. store_failure e \<and> safe env N P d d')"
proof -
  obtain res st where c: "async_pending_journal_batches (ie_codec env) (ie_config env) (di_store d) = (res, st)"
    by fastforce
  note c' = c [unfolded async_pending_journal_batches_def]
  note a = other_call [OF env ok _ _ c', of P]
  have "pending_journal_batches (as_db (di_store d)) = Inr bs" if r: "res = Inr bs" for bs
    using c'
  proof (cases rule: call_cases)
    case (answered reply)
    then show ?thesis using r by (auto simp: executed_def apply_command_def)
  qed (use r in simp_all)
  then show ?thesis
    using a by (cases res) (simp_all add: with_store_def c same_journal_def safe_def store_failure_def)
qed

lemma recover_running:
  assumes env: "ingest_setup env N l" and ok: "store_sound env N st" and new: "ingest_new st l = Inr d"
  shows "outcome (recover_pending env now d)
    (\<lambda>n d'. running env N l P d' \<and> safe env N P d d' \<and> same_journal d d' \<and>
       n = length (ingest_journal (as_db st)))
    (\<lambda>e d'. store_failure e \<and> safe env N P d d')"
proof -
  let ?E = "\<lambda>e d'. store_failure e \<and> safe env N P d d'"
  let ?R = "\<lambda>n d'. running env N l P d' \<and> safe env N P d d' \<and> same_journal d d' \<and>
       n = length (ingest_journal (as_db st))"
  obtain m where m: "new_manager l = Inr m" and d: "d = \<lparr>di_store = st, di_open = m, materialized_through = []\<rparr>"
    using new by (auto simp: ingest_new_def)
  note shape = new_manager_shape [OF m]
  have st: "di_store d = st" by (simp add: d)
  have ji: "journal_inv (as_db st)" by (rule store_soundD(2) [OF env ok])
  have p: "outcome (with_store (async_pending_journal_batches (ie_codec env) (ie_config env)) d)
    (\<lambda>bs d'. pending_journal_batches (as_db st) = Inr bs \<and> same_journal d d' \<and> safe env N P d d' \<and>
       di_open d' = m \<and> materialized_through d' = []) ?E"
    using pending_call [OF env, of d P] ok by (simp add: st) (simp add: d)
  show ?thesis
    unfolding recover_pending_def
  proof (rule outcome_then [OF p])
    fix bs d1
    assume d1: "pending_journal_batches (as_db st) = Inr bs \<and> same_journal d d1 \<and> safe env N P d d1 \<and>
       di_open d1 = m \<and> materialized_through d1 = []"
    have rows: "ingest_journal (as_db (di_store d1)) = ingest_journal (as_db st)"
      using d1 by (simp add: same_journal_def d)
    obtain "length bs = length (ingest_journal (as_db st))" "batches_of d1 bs"
      "\<forall>j \<in> set (ingest_journal (as_db st)). \<exists>b \<in> set bs. journal_batch_of j = Inr b"
      using pending_journal_batches_spec [OF ji] d1 rows by (auto simp: batches_of_def)
    note bs = this
    have "live env N l (replayed bs) (P \<union> set (concat [])) (materialized_through d1) d1"
      using bs(3) d1 rows shape by (auto simp: live_def replayed_def safe_def advances_def)
    then have rec: "outcome (recover_batches env bs now [] d1)
      (\<lambda>sealed' d'. live env N l (\<lambda>_. True) (P \<union> set (concat sealed')) (materialized_through d') d' \<and>
         same_journal d1 d' \<and> safe env N P d1 d' \<and>
         (\<forall>rs \<in> set sealed'. sealed_shape (ol_block_messages l) rs))
      (\<lambda>e d'. store_failure e \<and> safe env N P d1 d')"
      by (rule recover_batches_live [OF env _ bs(2)]) (use d1 new_manager_clock [OF m] in simp_all)
    have t: "safe env N P d d'" if "safe env N P d1 d'" for d' using d1 that safe_trans by blast
    show "outcome (then_st (recover_batches env bs now [] d1) (\<lambda>sealed d.
        then_st (append_sealed env sealed d) (\<lambda>_ d. (Inr (length bs), d)))) ?R ?E"
    proof (rule outcome_then [OF outcome_weaken [OF rec]])
      fix sealed d2
      assume d2: "live env N l (\<lambda>_. True) (P \<union> set (concat sealed)) (materialized_through d2) d2 \<and>
        same_journal d1 d2 \<and> safe env N P d1 d2 \<and> (\<forall>rs \<in> set sealed. sealed_shape (ol_block_messages l) rs)"
      have a: "outcome (append_sealed env sealed d2)
        (\<lambda>_ d'. (live env N l (\<lambda>_. True) P (materialized_through d2) d' \<and>
           materialized_through d' = materialized_through d2 \<and> same_journal d2 d' \<and> safe env N P d2 d') \<and> True)
        (\<lambda>e d'. safe env N P d2 d' \<and> store_failure e)"
        by (rule outcome_conj [OF append_sealed_live [OF env] append_sealed_failure]) (use d2 in auto)
      have s: "safe env N P d d'" if "safe env N P d2 d'" for d' using d2 that t safe_trans by blast
      show "outcome (then_st (append_sealed env sealed d2) (\<lambda>_ d. (Inr (length bs), d))) ?R ?E"
        by (rule outcome_then [OF outcome_weaken [OF a]])
          (use s bs(1) d1 d2 in \<open>auto simp: running_def same_journal_def\<close>)
    qed (use t in auto)
  qed
qed

end
