(* ===== verification/IngestSystem.thy ===== *)
theory IngestSystem
  imports IngestDurability
begin

text \<open>
  The ingest process over its whole life: started on an empty store, fed, checkpointed, stopped at
  any point by a failing call or a crash, and started again on what the store holds. The states it
  reaches satisfy the invariants of \<open>IngestDurability\<close>; the properties follow from them.
\<close>

section \<open>The process and its restarts\<close>

text \<open>
  The process is up with its state, or down with only the store. \<open>is_acknowledged\<close> and
  \<open>is_purged\<close> are history: the records of the batches whose senders got an answer, and the
  records a purge took out of the open blocks.
\<close>

record ingest_system =
  is_process :: "async_store + durable_ingest"
  is_acknowledged :: "canonical_record set"
  is_purged :: "canonical_record set"

definition system_store :: "ingest_system \<Rightarrow> async_store" where
  "system_store s = (case is_process s of Inl st \<Rightarrow> st | Inr d \<Rightarrow> di_store d)"

text \<open>\<open>RawIngestRuntime::run\<close> returns at the first error of an operation, and the process ends.\<close>

definition after :: "('e + 'a) \<times> durable_ingest \<Rightarrow> async_store + durable_ingest" where
  "after m = (case m of (Inl e, d) \<Rightarrow> Inl (di_store d) | (Inr x, d) \<Rightarrow> Inr d)"

definition map_store :: "(async_store \<Rightarrow> async_store) \<Rightarrow> async_store + durable_ingest \<Rightarrow> async_store + durable_ingest" where
  "map_store f p = (case p of Inl st \<Rightarrow> Inl (f st) | Inr d \<Rightarrow> Inr (d\<lparr>di_store := f (di_store d)\<rparr>))"

definition succeeded :: "('e + 'a) \<times> 's \<Rightarrow> bool" where
  "succeeded m = (case fst m of Inl e \<Rightarrow> False | Inr x \<Rightarrow> True)"

inductive ingest_reachable :: "ingest_env \<Rightarrow> int \<Rightarrow> open_block_limits \<Rightarrow> ingest_system \<Rightarrow> bool"
  for env :: ingest_env and N :: int and l :: open_block_limits where
  boot: "ingest_reachable env N l
    \<lparr>is_process = Inl \<lparr>as_db = empty_db, as_fates = [], as_history = []\<rparr>, is_acknowledged = {}, is_purged = {}\<rparr>"
| fate: "ingest_reachable env N l s \<Longrightarrow>
    ingest_reachable env N l (s\<lparr>is_process := map_store (\<lambda>st. st\<lparr>as_fates := fates\<rparr>) (is_process s)\<rparr>)"
| start: "ingest_reachable env N l s \<Longrightarrow> is_process s = Inl st \<Longrightarrow> ingest_new st l = Inr d \<Longrightarrow>
    ingest_reachable env N l (s\<lparr>is_process := after (recover_pending env now d)\<rparr>)"
| accept: "ingest_reachable env N l s \<Longrightarrow> is_process s = Inr d \<Longrightarrow> no_collision env (rb_records b) d \<Longrightarrow>
    ingest_reachable env N l (s\<lparr>is_process := after (accept_source_batch env b now d),
      is_acknowledged := (if succeeded (accept_source_batch env b now d)
        then is_acknowledged s \<union> set (rb_records b) else is_acknowledged s)\<rparr>)"
| due: "ingest_reachable env N l s \<Longrightarrow> is_process s = Inr d \<Longrightarrow>
    ingest_reachable env N l (s\<lparr>is_process := after (ingest_seal_due env now d)\<rparr>)"
| checkpoint: "ingest_reachable env N l s \<Longrightarrow> is_process s = Inr d \<Longrightarrow>
    ingest_reachable env N l (s\<lparr>is_process := after (ingest_checkpoint env d)\<rparr>)"
| other: "ingest_reachable env N l s \<Longrightarrow> command_fits N cmd \<Longrightarrow> \<not> journal_command cmd \<Longrightarrow>
    ingest_reachable env N l (s\<lparr>is_process :=
      map_store (\<lambda>st. snd (call (ie_codec env) (ie_config env) cmd Inr st)) (is_process s)\<rparr>)"
| purge_open: "ingest_reachable env N l s \<Longrightarrow> is_process s = Inr d \<Longrightarrow>
    ingest_reachable env N l (s\<lparr>is_process := Inr (d\<lparr>di_open := open_purge_channel ch (di_open d)\<rparr>),
      is_purged := is_purged s \<union> {r \<in> open_set (di_open d). channel_key r = ch}\<rparr>)"
| crash: "ingest_reachable env N l s \<Longrightarrow>
    ingest_reachable env N l (s\<lparr>is_process := Inl (system_store s)\<rparr>)"

definition system_inv :: "ingest_env \<Rightarrow> int \<Rightarrow> open_block_limits \<Rightarrow> ingest_system \<Rightarrow> bool" where
  "system_inv env N l s \<longleftrightarrow> store_sound env N (system_store s) \<and>
     (\<forall>r \<in> is_acknowledged s. durable (ie_journal env) (is_purged s) (system_store s) r) \<and>
     (\<forall>d. is_process s = Inr d \<longrightarrow> running env N l (is_purged s) d)"

lemma system_inv_advance:
  assumes inv: "system_inv env N l s" and adv: "advances env N (is_purged s) (system_store s) st"
    and st: "(case p of Inl st' \<Rightarrow> st' = st | Inr d \<Rightarrow> di_store d = st)"
    and run: "\<And>d. p = Inr d \<Longrightarrow> running env N l (is_purged s) d"
  shows "system_inv env N l (s\<lparr>is_process := p\<rparr>)"
proof -
  have "system_store (s\<lparr>is_process := p\<rparr>) = st"
    using st by (cases p) (simp_all add: system_store_def)
  then show ?thesis using inv adv run by (simp add: system_inv_def advances_def)
qed

lemma system_inv_after:
  assumes inv: "system_inv env N l s" and d: "di_store d = system_store s"
    and m: "outcome m (\<lambda>x d'. running env N l (is_purged s) d' \<and> safe env N (is_purged s) d d')
      (\<lambda>e d'. safe env N (is_purged s) d d')"
  shows "system_inv env N l (s\<lparr>is_process := after m\<rparr>)"
  using m
proof (cases rule: outcome_cases)
  case (1 e d')
  then show ?thesis
    using d by (intro system_inv_advance [OF inv, of "di_store d'"]) (simp_all add: after_def safe_def)
next
  case (2 x d')
  then show ?thesis
    using d by (intro system_inv_advance [OF inv, of "di_store d'"]) (simp_all add: after_def safe_def)
qed

text \<open>A change of the store outside the ingest operations.\<close>

lemma system_inv_map_store:
  assumes inv: "system_inv env N l s"
    and f: "advances env N (is_purged s) (system_store s) (f (system_store s))"
      "ingest_journal (as_db (f (system_store s))) = ingest_journal (as_db (system_store s))"
  shows "system_inv env N l (s\<lparr>is_process := map_store f (is_process s)\<rparr>)"
proof (rule system_inv_advance [OF inv f(1)])
  fix d' assume d': "map_store f (is_process s) = Inr d'"
  then obtain d where d: "is_process s = Inr d" "d' = d\<lparr>di_store := f (di_store d)\<rparr>"
    by (auto simp: map_store_def split: sum.splits)
  then have st: "system_store s = di_store d" by (simp add: system_store_def)
  have l: "live env N l (\<lambda>_. True) (is_purged s) (materialized_through d) d"
    using inv d by (simp add: system_inv_def running_def)
  have "live env N l (\<lambda>_. True) (is_purged s) (materialized_through d) d'"
    by (rule live_step [OF l]) (use l d(2) f st in \<open>auto simp: live_def advances_def same_journal_def\<close>)
  then show "running env N l (is_purged s) d'" using d(2) by (simp add: running_def)
qed (auto simp: map_store_def system_store_def split: sum.splits)

lemma untouched_fates: "untouched st (st\<lparr>as_fates := fs\<rparr>)"
  by (simp add: untouched_def)

lemma live_purge:
  assumes l: "live env N l W P ks d"
  shows "live env N l W (P \<union> {r \<in> open_set (di_open d). channel_key r = ch}) ks
    (d\<lparr>di_open := open_purge_channel ch (di_open d)\<rparr>)"
proof -
  have o: "open_shape (ol_block_messages l) (di_open d)" "om_limits (di_open d) = l" using l by (simp_all add: live_def)
  show ?thesis
  proof (rule live_step [OF l])
    fix r assume r: "r \<in> open_set (di_open d) \<union> committed (di_store d) \<union> P"
    show "kept (open_set (di_open (d\<lparr>di_open := open_purge_channel ch (di_open d)\<rparr>)) \<union>
      committed (di_store (d\<lparr>di_open := open_purge_channel ch (di_open d)\<rparr>)) \<union>
      (P \<union> {r \<in> open_set (di_open d). channel_key r = ch})) r"
      by (rule kept_self) (use r purge_shape(3) [OF o(1), of r ch] in auto)
  qed (use l o purge_shape(1,2) [OF o(1), of ch] in \<open>simp_all add: live_def same_journal_def\<close>)
qed

lemma durable_mono: "durable jc P st r \<Longrightarrow> P \<subseteq> R \<Longrightarrow> durable jc R st r"
  using kept_mono [of "committed st \<union> P" r "committed st \<union> R"] by (auto simp: durable_def)

lemma ingest_reachable_inv:
  assumes env: "ingest_setup env N l" and laws: "journal_laws (ie_journal env)"
    and "ingest_reachable env N l s"
  shows "system_inv env N l s"
  using assms(3)
proof (induction rule: ingest_reachable.induct)
  case boot
  then show ?case
    by (auto simp: system_inv_def system_store_def store_sound_def store_reachable_def empty_db_def
        intro: reachable_empty [unfolded empty_db_def])
next
  case (fate s fates)
  have ok: "store_sound env N (system_store s)" using fate.IH by (simp add: system_inv_def)
  show ?case
    by (rule system_inv_map_store [OF fate.IH]) (use untouched_advances [OF ok untouched_fates] in simp_all)
next
  case (start s st d now)
  have st: "di_store d = system_store s" "store_sound env N st"
    using start.IH start.hyps by (auto simp: ingest_new_def system_store_def system_inv_def)
  show ?case
    by (rule system_inv_after [OF start.IH st(1)],
        rule outcome_weaken [OF recover_running [OF env st(2) start.hyps(3), of now "is_purged s"]]) auto
next
  case (accept s d b now)
  have run: "running env N l (is_purged s) d" and st: "di_store d = system_store s"
    using accept.IH accept.hyps(2) by (simp_all add: system_inv_def system_store_def)
  let ?m = "accept_source_batch env b now d"
  note o = accept_source_batch_running [OF env laws run accept.hyps(3), of now]
  have base: "system_inv env N l (s\<lparr>is_process := after ?m\<rparr>)"
    by (rule system_inv_after [OF accept.IH st], rule outcome_weaken [OF o]) auto
  from o show ?case
  proof (cases rule: outcome_cases)
    case (1 e d')
    then show ?thesis using base by (simp add: succeeded_def)
  next
    case (2 x d')
    have "durable (ie_journal env) (is_purged s) (di_store d') r" if "r \<in> set (rb_records b)" for r
      using 2(2) that by (simp add: durable_def)
    then show ?thesis
      using base 2(1) by (auto simp: system_inv_def system_store_def succeeded_def after_def)
  qed
next
  case (due s d now)
  have run: "running env N l (is_purged s) d" and st: "di_store d = system_store s"
    using due.IH due.hyps(2) by (simp_all add: system_inv_def system_store_def)
  show ?case 
    by (rule system_inv_after [OF due.IH st], rule outcome_weaken [OF seal_due_running [OF env run]]) auto
next
  case (checkpoint s d)
  have run: "running env N l (is_purged s) d" and st: "di_store d = system_store s"
    using checkpoint.IH checkpoint.hyps(2) by (simp_all add: system_inv_def system_store_def)
  show ?case
    by (rule system_inv_after [OF checkpoint.IH st], rule outcome_weaken [OF checkpoint_running [OF env run]]) auto
next
  case (other s cmd)
  have ok: "store_sound env N (system_store s)" using other.IH by (simp add: system_inv_def)
  obtain res st' where c: "call (ie_codec env) (ie_config env) cmd Inr (system_store s) = (res, st')" by fastforce
  note a = other_call [OF env ok other.hyps(2,3) c, of "is_purged s"]
  show ?case by (rule system_inv_map_store [OF other.IH]) (use a c in simp_all)
next
  case (purge_open s d ch)
  let ?gone = "{r \<in> open_set (di_open d). channel_key r = ch}"
  let ?d = "d\<lparr>di_open := open_purge_channel ch (di_open d)\<rparr>"
  have "running env N l (is_purged s \<union> ?gone) ?d"
    using live_purge [of env N l "\<lambda>_. True" "is_purged s" "materialized_through d" d ch] purge_open
    by (simp add: system_inv_def running_def)
  then show ?case
    using purge_open durable_mono [of "ie_journal env" "is_purged s" "di_store d" _ "is_purged s \<union> ?gone"]
    by (auto simp: system_inv_def system_store_def)
next
  case (crash s)
  have ok: "store_sound env N (system_store s)" using crash.IH by (simp add: system_inv_def)
  show ?case by (rule system_inv_advance [OF crash.IH advances_refl [OF ok]]) simp_all
qed

section \<open>Properties\<close>

text \<open>
  C2: Durability of the ingest. In every state the system can reach, with any calls of the store
  failing before or after they take effect, the process stopping anywhere, restarts, checkpoints,
  purges and commands of other tasks in between, a record of a batch the ingest has acknowledged is
  in an intact row of the journal, or it or a copy of the same event of the same channel with at
  least its fidelity was part of a committed append to the store or was taken out of the open blocks
  by a purge of its channel.
\<close>
theorem acknowledged_durable:
  assumes "ingest_setup env N l" and "journal_laws (ie_journal env)"
    and "ingest_reachable env N l s" and "r \<in> is_acknowledged s"
  shows "(\<exists>j \<in> set (ingest_journal (as_db (system_store s))). \<exists>rs.
      blake3_hash (ie_journal env) (jr_payload j) = jr_checksum j \<and>
      decode_journal (ie_journal env) (jr_payload j) = Inr rs \<and> r \<in> set rs) \<or>
    (\<exists>q \<in> committed (system_store s) \<union> is_purged s.
      channel_key q = channel_key r \<and> event_key q = event_key r \<and> fidelity r \<le> fidelity q)"
  using ingest_reachable_inv [OF assms(1-3)] assms(4)
  by (auto simp: system_inv_def durable_def journaled_def row_holds_def kept_def)

definition ing_record :: canonical_record where
  "ing_record = SqliteWriter.ex_record 3 3 Unknown"

definition ing_envelope :: journal_envelope where
  "ing_envelope = \<lparr>je_format_version = 1, je_records = [ing_record]\<rparr>"

text \<open>A codec for the journal that knows one envelope.\<close>

definition ing_codec :: journal_codec where
  "ing_codec = \<lparr>to_vec_named = (\<lambda>e. if e = ing_envelope then Inr [1] else Inl ''unknown''),
     encode_all = Inr, decode_all = Inr,
     from_slice = (\<lambda>b. if b = [1] then Inr ing_envelope else Inl ''unknown''),
     blake3_hash = (\<lambda>b. take 32 (b @ replicate 32 0))\<rparr>"

definition ing_env :: ingest_env where
  "ing_env = \<lparr>ie_codec = ex_codec, ie_config = ex_cfg, ie_journal = ing_codec\<rparr>"

definition ing_limits :: open_block_limits where
  "ing_limits = \<lparr>ol_block_messages = 2, max_open_channels = 1, max_open_bytes = 1000,
     idle_seal_after_ms = 10, max_open_age_ms = 100\<rparr>"

definition ing_batch :: raw_source_batch where
  "ing_batch = \<lparr>rb_source_id = ''s'', rb_stream_id = ''t'', rb_first_sequence = 1, rb_last_sequence = 1,
     rb_records = [ing_record]\<rparr>"

definition ing_boot :: durable_ingest where
  "ing_boot = \<lparr>di_store = \<lparr>as_db = empty_db, as_fates = [], as_history = []\<rparr>,
     di_open = \<lparr>om_limits = ing_limits, om_blocks = [], om_estimated_bytes = 0, om_open_messages = 0\<rparr>,
     materialized_through = []\<rparr>"

definition ing_started :: durable_ingest where
  "ing_started = snd (recover_pending ing_env 5 ing_boot)"

definition ing_accepted :: durable_ingest where
  "ing_accepted = snd (accept_source_batch ing_env ing_batch 6 ing_started)"

definition ing_system :: "(async_store + durable_ingest) \<Rightarrow> canonical_record set \<Rightarrow> ingest_system" where
  "ing_system p A = \<lparr>is_process = p, is_acknowledged = A, is_purged = {}\<rparr>"

lemma ing_setup: "ingest_setup ing_env 3 ing_limits"
  using ex_setup by (simp add: ingest_setup_def ing_env_def ing_limits_def limits_valid_def int_defs)

lemma ing_laws: "journal_laws (ie_journal ing_env)"
  by (auto simp: journal_laws_def ing_env_def ing_codec_def min_def)

lemma ing_start_ok: "fst (recover_pending ing_env 5 ing_boot) = Inr 0"
  by code_simp

lemma ing_accept_ok: "fst (accept_source_batch ing_env ing_batch 6 ing_started) = Inr 1"
  by code_simp

lemma ing_checkpoint_ok: "fst (ingest_checkpoint ing_env ing_accepted) = Inr 1"
  by code_simp

lemma ing_fresh: "no_collision ing_env (rb_records ing_batch) ing_started"
proof -
  have "ingest_journal (as_db (di_store ing_started)) = []" by code_simp
  then show ?thesis by (simp add: no_collision_def)
qed

lemma ing_boot_new: "ingest_new \<lparr>as_db = empty_db, as_fates = [], as_history = []\<rparr> ing_limits = Inr ing_boot"
  by (simp add: ingest_new_def new_manager_def ing_limits_def limits_valid_def ing_boot_def)

lemma ing_running: "ingest_reachable ing_env 3 ing_limits (ing_system (Inr ing_started) {})"
proof -
  have "after (recover_pending ing_env 5 ing_boot) = Inr ing_started"
    using ing_start_ok unfolding ing_started_def
    by (cases "recover_pending ing_env 5 ing_boot") (simp add: after_def)
  then show ?thesis
    using start [OF boot _ ing_boot_new, where now = 5 and env = ing_env and N = 3] by (simp add: ing_system_def)
qed

lemma ing_acknowledged:
  "ingest_reachable ing_env 3 ing_limits (ing_system (Inr ing_accepted) {ing_record})"
proof -
  have a: "after (accept_source_batch ing_env ing_batch 6 ing_started) = Inr ing_accepted"
    "succeeded (accept_source_batch ing_env ing_batch 6 ing_started)"
    using ing_accept_ok unfolding ing_accepted_def
    by (cases "accept_source_batch ing_env ing_batch 6 ing_started", simp add: after_def succeeded_def)+
  have "set (rb_records ing_batch) = {ing_record}" by (simp add: ing_batch_def)
  then show ?thesis
    using accept [OF ing_running _ ing_fresh, where now = 6] a by (simp add: ing_system_def)
qed

theorem acknowledged_durable_witness:
  "\<exists>s. ing_record \<in> is_acknowledged s \<and>
    (\<exists>j \<in> set (ingest_journal (as_db (system_store s))). \<exists>rs.
      decode_journal (ie_journal ing_env) (jr_payload j) = Inr rs \<and> ing_record \<in> set rs)"
proof -
  let ?s = "ing_system (Inr ing_accepted) {ing_record}"
  have "as_history (di_store ing_accepted) = [] \<or>
    list_all (\<lambda>h. committed_by h = {}) (as_history (di_store ing_accepted))" by code_simp
  then have "committed (system_store ?s) = {}"
    by (auto simp: ing_system_def system_store_def committed_def list_all_iff)
  moreover have "is_purged ?s = {}" "ing_record \<in> is_acknowledged ?s" by (simp_all add: ing_system_def)
  moreover note acknowledged_durable [OF ing_setup ing_laws ing_acknowledged, of ing_record]
  ultimately show ?thesis by (intro exI [of _ ?s]) auto
qed

text \<open>
  C26: A checkpoint that succeeds leaves nothing behind: the journal is empty, no record is open, no
  processed sequence number is pending, and every record of an acknowledged batch, or a copy of its
  event with at least its fidelity, was part of a committed append or purged. So the journal is
  retired only for records the store holds or held.
\<close>
theorem checkpoint_drains:
  assumes "ingest_setup env N l" and "journal_laws (ie_journal env)" and "ingest_reachable env N l s"
    and "is_process s = Inr d" and "ingest_checkpoint env d = (Inr n, d')"
  shows "ingest_journal (as_db (di_store d')) = [] \<and> materialized_through d' = [] \<and>
    (\<forall>ch b. map_of (om_blocks (di_open d')) ch = Some b \<longrightarrow> ob_records b = []) \<and>
    (\<forall>r \<in> is_acknowledged s. \<exists>q \<in> committed (di_store d') \<union> is_purged s.
       channel_key q = channel_key r \<and> event_key q = event_key r \<and> fidelity r \<le> fidelity q)"
proof -
  have inv: "system_inv env N l s" by (rule ingest_reachable_inv [OF assms(1-3)])
  then have run: "running env N l (is_purged s) d" and st: "system_store s = di_store d"
    using assms(4) by (simp_all add: system_inv_def system_store_def)
  have c: "safe env N (is_purged s) d d'" "ingest_journal (as_db (di_store d')) = []"
    "open_set (di_open d') = {}" "materialized_through d' = []"
    using checkpoint_running [OF assms(1) run] assms(5) by simp_all
  have "ob_records b = []" if "map_of (om_blocks (di_open d')) ch = Some b" for ch b
  proof -
    have "x \<notin> set (ob_records b)" for x using c(3) that unfolding open_set_def by blast
    then show ?thesis by (cases "ob_records b") auto
  qed
  moreover have "\<exists>q \<in> committed (di_store d') \<union> is_purged s.
      channel_key q = channel_key r \<and> event_key q = event_key r \<and> fidelity r \<le> fidelity q"
    if r: "r \<in> is_acknowledged s" for r
  proof -
    have "durable (ie_journal env) (is_purged s) (di_store d') r"
      using inv c(1) st r by (auto simp: system_inv_def safe_def advances_def)
    then show ?thesis using c(2) by (simp add: durable_def journaled_def kept_def)
  qed
  ultimately show ?thesis using c(2,4) by blast
qed

theorem checkpoint_drains_witness:
  "\<exists>d'. ingest_checkpoint ing_env ing_accepted = (Inr 1, d') \<and> ingest_journal (as_db (di_store d')) = [] \<and>
    (\<exists>q \<in> committed (di_store d'). event_key q = event_key ing_record)"
proof -
  obtain d' where d': "ingest_checkpoint ing_env ing_accepted = (Inr 1, d')"
    using ing_checkpoint_ok by (metis prod.collapse)
  have p: "is_process (ing_system (Inr ing_accepted) {ing_record}) = Inr ing_accepted"
    "ing_record \<in> is_acknowledged (ing_system (Inr ing_accepted) {ing_record})"
    "is_purged (ing_system (Inr ing_accepted) {ing_record}) = {}"
    by (simp_all add: ing_system_def)
  from d' show ?thesis
    using checkpoint_drains [OF ing_setup ing_laws ing_acknowledged p(1) d'] p(2,3) by auto
qed

text \<open>
  C28: Recovery after any history. Starting on the store a stopped process left behind, with the
  clock anywhere, the replay of the journal is never refused for a checksum, a payload, a version or
  a clock: it either stops because a call of the store failed, with nothing durable lost, or reports
  as many batches as the journal has rows, leaves the journal as it is, and holds every record of
  every row in the open blocks or has it stored.
\<close>
theorem recovery_replays:
  assumes "ingest_setup env N l" and "journal_laws (ie_journal env)" and "ingest_reachable env N l s"
    and "is_process s = Inl st" and "ingest_new st l = Inr d"
  shows "(\<exists>e d'. recover_pending env now d = (Inl (StoreFailed e), d')) \<or>
    (\<exists>d'. recover_pending env now d = (Inr (length (ingest_journal (as_db st))), d') \<and>
       ingest_journal (as_db (di_store d')) = ingest_journal (as_db st) \<and>
       (\<forall>j \<in> set (ingest_journal (as_db st)). \<exists>rs.
          decode_journal (ie_journal env) (jr_payload j) = Inr rs \<and>
          (\<forall>r \<in> set rs. kept (open_set (di_open d') \<union> committed (di_store d') \<union> is_purged s) r)))"
proof -
  have inv: "system_inv env N l s" by (rule ingest_reachable_inv [OF assms(1-3)])
  then have ok: "store_sound env N st" using assms(4) by (simp add: system_inv_def system_store_def)
  have st: "di_store d = st" using assms(5) by (auto simp: ingest_new_def)
  from recover_running [OF assms(1) ok assms(5), of now "is_purged s"] show ?thesis
  proof (cases rule: outcome_cases)
    case (1 e d')
    then show ?thesis by (auto simp: store_failure_def)
  next
    case (2 n d')
    have "\<exists>rs. decode_journal (ie_journal env) (jr_payload j) = Inr rs \<and>
        (\<forall>r \<in> set rs. kept (open_set (di_open d') \<union> committed (di_store d') \<union> is_purged s) r)"
      if j: "j \<in> set (ingest_journal (as_db st))" for j
    proof -
      obtain rs where rs: "row_holds (ie_journal env) j rs" using ok j by (auto simp: store_sound_def)
      have "j \<in> set (ingest_journal (as_db (di_store d')))" using j 2(2) st by (simp add: same_journal_def)
      then show ?thesis
        using rs 2(2) by (intro exI [of _ rs]) (simp add: running_def live_def row_holds_def)
    qed
    then show ?thesis using 2 st by (intro disjI2 exI [of _ d']) (simp add: same_journal_def)
  qed
qed

text \<open>The process crashes after the acknowledgement and starts again.\<close>

definition ing_restarted :: durable_ingest where
  "ing_restarted = \<lparr>di_store = di_store ing_accepted, di_open = di_open ing_boot, materialized_through = []\<rparr>"

theorem recovery_replays_witness:
  "\<exists>d'. recover_pending ing_env 9 ing_restarted = (Inr 1, d') \<and>
    (\<exists>j \<in> set (ingest_journal (as_db (di_store d'))). \<exists>rs.
       decode_journal (ie_journal ing_env) (jr_payload j) = Inr rs)"
proof -
  let ?s = "ing_system (Inr ing_accepted) {ing_record}\<lparr>is_process := Inl (di_store ing_accepted)\<rparr>"
  have r: "ingest_reachable ing_env 3 ing_limits ?s"
    using crash [OF ing_acknowledged] by (simp add: ing_system_def system_store_def)
  have new: "ingest_new (di_store ing_accepted) ing_limits = Inr ing_restarted"
    by (simp add: ingest_new_def new_manager_def ing_limits_def limits_valid_def ing_restarted_def ing_boot_def)
  have len: "length (ingest_journal (as_db (di_store ing_accepted))) = 1" by code_simp
  have "fst (recover_pending ing_env 9 ing_restarted) = Inr 1" by code_simp
  then show ?thesis
    using recovery_replays [OF ing_setup ing_laws r _ new, of 9] len
    by (cases "ingest_journal (as_db (di_store ing_accepted))") auto
qed

end
