(* ===== verification/Eviction.thy ===== *)
theory Eviction
  imports Prelude "HOL-Library.Multiset" "HOL-Library.Sublist" Complex_Main
begin

text \<open>
  Planning which blocks to evict under storage pressure, \<^verbatim>\<open>src/storage/eviction.rs\<close>. The water marks
  are products of an integer and an \<open>f64\<close> ratio; finite \<open>f64\<close> values are rationals, and rounding to
  53 significant bits, ties to even, is written out.
\<close>

section \<open>The f64 arithmetic of the water marks\<close>

datatype f64 = Finite rat | NonFinite

fun bit_length :: "nat \<Rightarrow> nat" where
  "bit_length n = (if n = 0 then 0 else Suc (bit_length (n div 2)))"

declare bit_length.simps [simp del]

definition pow2 :: "int \<Rightarrow> rat" where
  "pow2 k = (if 0 \<le> k then of_int (2 ^ nat k) else 1 / of_int (2 ^ nat (- k)))"

text \<open>\<open>\<lfloor>log2 x\<rfloor>\<close> for a positive \<open>x\<close>: the difference of the lengths of numerator and denominator, or one less.\<close>

definition binary_exponent :: "rat \<Rightarrow> int" where
  "binary_exponent x =
     (case quotient_of x of (p, q) \<Rightarrow>
        let e = int (bit_length (nat p)) - int (bit_length (nat q))
        in if pow2 e \<le> x then e else e - 1)"

definition round_half_even :: "rat \<Rightarrow> int" where
  "round_half_even y =
     (let f = \<lfloor>y\<rfloor>; d = y - of_int f
      in if d < 1 / 2 then f else if 1 / 2 < d then f + 1 else if even f then f else f + 1)"

definition f64_round :: "rat \<Rightarrow> rat" where
  "f64_round x =
     (if x \<le> 0 then 0
      else let ulp = pow2 (max (binary_exponent x - 52) (- 1074))
           in of_int (round_half_even (x / ulp)) * ulp)"

definition u64_as_f64 :: "nat \<Rightarrow> rat" where
  "u64_as_f64 n = f64_round (of_nat n)"

definition f64_as_u64 :: "rat \<Rightarrow> nat" where
  "f64_as_u64 x = min (nat \<lfloor>x\<rfloor>) u64_max"

text \<open>\<open>(max as f64 * ratio) as u64\<close>; the ratio has been checked to be in \<open>0.0..=1.0\<close>.\<close>

definition water_mark :: "nat \<Rightarrow> f64 \<Rightarrow> nat" where
  "water_mark n r = (case r of Finite x \<Rightarrow> f64_as_u64 (f64_round (u64_as_f64 n * x)) | NonFinite \<Rightarrow> 0)"

fun in_unit :: "f64 \<Rightarrow> bool" where
  "in_unit (Finite x) = (0 \<le> x \<and> x \<le> 1)"
| "in_unit NonFinite = False"

fun f64_ge :: "f64 \<Rightarrow> f64 \<Rightarrow> bool" where
  "f64_ge (Finite x) (Finite y) = (y \<le> x)"
| "f64_ge _ _ = False"

definition ratios_valid :: "f64 \<Rightarrow> f64 \<Rightarrow> f64 \<Rightarrow> bool" where
  "ratios_valid target high emergency \<longleftrightarrow> in_unit target \<and> in_unit high \<and> in_unit emergency \<and>
     \<not> f64_ge target high \<and> \<not> f64_ge high emergency"

section \<open>Blocks, policies and plans\<close>

record block_meta =
  bm_id :: nat
  bm_channel_key :: string
  bm_message_count :: nat
  bm_bytes :: nat
  bm_last_requested_at_ms :: nat
  bm_last_event_at_ms :: nat
  bm_always_join :: bool
  bm_journal_protected :: bool

record pressure_policy =
  pp_effective_max_bytes :: nat
  pp_high_water_ratio :: f64
  pp_target_ratio :: f64
  pp_emergency_ratio :: f64
  pressure_floor_messages_per_channel :: nat
  requested_after_ms :: nat

datatype pressure_mode = Normal | HighWater | Emergency

record eviction_plan =
  ep_mode :: pressure_mode
  evict_ids :: "nat list"
  ep_bytes_before :: nat
  ep_bytes_after :: nat
  crossed_channel_floor :: bool

datatype eviction_error = InvalidPolicy | TargetUnreachable

definition thresholds :: "pressure_policy \<Rightarrow> eviction_error + nat \<times> nat \<times> nat" where
  "thresholds p =
     (if pp_effective_max_bytes p = 0 \<or>
         \<not> ratios_valid (pp_target_ratio p) (pp_high_water_ratio p) (pp_emergency_ratio p)
      then Inl InvalidPolicy
      else Inr (water_mark (pp_effective_max_bytes p) (pp_target_ratio p),
                water_mark (pp_effective_max_bytes p) (pp_high_water_ratio p),
                water_mark (pp_effective_max_bytes p) (pp_emergency_ratio p)))"

definition below_high_water :: "pressure_policy \<Rightarrow> nat \<Rightarrow> eviction_error + bool" where
  "below_high_water p current = and_then (thresholds p) (\<lambda>(target, high, emergency). Inr (current < high))"

definition request_tier :: "bool \<Rightarrow> nat \<Rightarrow> nat \<Rightarrow> nat" where
  "request_tier always_join last_requested requested_after =
     (if always_join then 3
      else if last_requested = 0 then 0
      else if last_requested < requested_after then 1
      else 2)"

definition block_tier :: "pressure_policy \<Rightarrow> block_meta \<Rightarrow> nat" where
  "block_tier p b = request_tier (bm_always_join b) (bm_last_requested_at_ms b) (requested_after_ms p)"

text \<open>The order in which blocks are given up.\<close>

definition eviction_key :: "pressure_policy \<Rightarrow> block_meta \<Rightarrow> nat \<times> nat \<times> nat \<times> nat" where
  "eviction_key p b = (block_tier p b, bm_last_requested_at_ms b, bm_last_event_at_ms b, bm_id b)"

definition candidates :: "pressure_policy \<Rightarrow> block_meta list \<Rightarrow> block_meta list" where
  "candidates p blocks = sort_key (eviction_key p) (filter (\<lambda>b. \<not> bm_journal_protected b) blocks)"

definition channel_messages :: "block_meta list \<Rightarrow> string \<Rightarrow> nat" where
  "channel_messages blocks ch = sum_list (map bm_message_count (filter (\<lambda>b. bm_channel_key b = ch) blocks))"

definition channel_floor :: "pressure_policy \<Rightarrow> block_meta list \<Rightarrow> string \<Rightarrow> nat" where
  "channel_floor p blocks ch =
     (if \<exists>b \<in> set blocks. bm_channel_key b = ch \<and> block_tier p b \<ge> 2
      then pressure_floor_messages_per_channel p else 0)"

text \<open>The state of the loops.\<close>

record selection =
  sel_bytes :: nat
  sel_retained :: "string \<Rightarrow> nat"
  sel_ids :: "nat list"
  sel_deferred :: "block_meta list"

fun select_blocks :: "nat \<Rightarrow> (string \<Rightarrow> nat) \<Rightarrow> block_meta list \<Rightarrow> selection \<Rightarrow> selection" where
  "select_blocks target floors [] s = s"
| "select_blocks target floors (b # bs) s =
     (if sel_bytes s \<le> target then s
      else
        let retained = sel_retained s (bm_channel_key b);
            left = u64_saturating_sub retained (bm_message_count b)
        in if left < floors (bm_channel_key b)
           then select_blocks target floors bs (s\<lparr>sel_deferred := sel_deferred s @ [b]\<rparr>)
           else select_blocks target floors bs
             (s\<lparr>sel_retained := (sel_retained s)(bm_channel_key b := left),
                sel_bytes := u64_saturating_sub (sel_bytes s) (bm_bytes b),
                sel_ids := sel_ids s @ [bm_id b]\<rparr>))"

fun select_deferred :: "nat \<Rightarrow> block_meta list \<Rightarrow> nat \<times> nat list \<Rightarrow> nat \<times> nat list" where
  "select_deferred target [] s = s"
| "select_deferred target (b # bs) (bytes_after, ids) =
     (if bytes_after \<le> target then (bytes_after, ids)
      else select_deferred target bs (u64_saturating_sub bytes_after (bm_bytes b), ids @ [bm_id b]))"

definition plan_pressure_eviction ::
    "block_meta list \<Rightarrow> nat \<Rightarrow> pressure_policy \<Rightarrow> eviction_error + eviction_plan" where
  "plan_pressure_eviction blocks current p =
     and_then (thresholds p) (\<lambda>(target, high, emergency).
       if current < high
       then Inr \<lparr>ep_mode = Normal, evict_ids = [], ep_bytes_before = current, ep_bytes_after = current,
                 crossed_channel_floor = False\<rparr>
       else
         let mode = (if current \<ge> emergency then Emergency else HighWater);
             s = select_blocks target (channel_floor p blocks) (candidates p blocks)
                   \<lparr>sel_bytes = current, sel_retained = channel_messages blocks, sel_ids = [], sel_deferred = []\<rparr>;
             crossed = (sel_bytes s > target \<and> mode = Emergency);
             (bytes_after, ids) = (if crossed then select_deferred target (sel_deferred s) (sel_bytes s, sel_ids s)
                                   else (sel_bytes s, sel_ids s))
         in if bytes_after > target then Inl TargetUnreachable
            else Inr \<lparr>ep_mode = mode, evict_ids = ids, ep_bytes_before = current, ep_bytes_after = bytes_after,
                      crossed_channel_floor = crossed\<rparr>)"

section \<open>The selection\<close>

abbreviation bytes_of :: "block_meta list \<Rightarrow> nat" where
  "bytes_of bs \<equiv> sum_list (map bm_bytes bs)"

lemma saturating_sub_eq [simp]: "u64_saturating_sub a b = a - b"
  by (simp add: u64_saturating_sub_def)

text \<open>The blocks taken, deferred and not looked at split the candidates.\<close>

definition split_of :: "nat \<Rightarrow> block_meta list \<Rightarrow> nat \<Rightarrow> block_meta list \<Rightarrow> block_meta list \<Rightarrow> block_meta list \<Rightarrow> bool" where
  "split_of target bs before taken deferred rest \<longleftrightarrow>
     (\<exists>looked. bs = looked @ rest \<and> mset looked = mset taken + mset deferred) \<and>
     (rest \<noteq> [] \<longrightarrow> before - bytes_of taken \<le> target) \<and>
     (taken \<noteq> [] \<longrightarrow> target < before - bytes_of (butlast taken))"

lemma channel_messages_Cons:
  "channel_messages (b # bs) ch = (if bm_channel_key b = ch then bm_message_count b else 0) + channel_messages bs ch"
  by (simp add: channel_messages_def)

lemma select_blocks_split:
  "\<exists>taken deferred rest. sel_ids (select_blocks target floors bs s) = sel_ids s @ map bm_id taken \<and>
    sel_deferred (select_blocks target floors bs s) = sel_deferred s @ deferred \<and>
    sel_bytes (select_blocks target floors bs s) = sel_bytes s - bytes_of taken \<and>
    (\<forall>ch. sel_retained (select_blocks target floors bs s) ch = sel_retained s ch - channel_messages taken ch) \<and>
    split_of target bs (sel_bytes s) taken deferred rest \<and>
    (\<forall>b \<in> set taken. floors (bm_channel_key b) \<le> sel_retained (select_blocks target floors bs s) (bm_channel_key b)) \<and>
    (\<forall>b \<in> set deferred. sel_retained (select_blocks target floors bs s) (bm_channel_key b) - bm_message_count b
       < floors (bm_channel_key b))"
proof (induction bs arbitrary: s)
  case Nil
  show ?case by (intro exI [of _ "[]"]) (simp add: split_of_def channel_messages_def)
next
  case (Cons b bs)
  let ?ch = "bm_channel_key b" and ?left = "sel_retained s (bm_channel_key b) - bm_message_count b"
  show ?case
  proof (cases "sel_bytes s \<le> target")
    case True
    then show ?thesis
      by (intro exI [of _ "[]"] exI [of _ "b # bs"]) (simp add: split_of_def channel_messages_def)
  next
    case big: False
    show ?thesis
    proof (cases "?left < floors ?ch")
      case True
      let ?s = "s\<lparr>sel_deferred := sel_deferred s @ [b]\<rparr>"
      let ?r = "select_blocks target floors bs ?s"
      have step: "select_blocks target floors (b # bs) s = ?r" using big True by simp
      obtain taken deferred rest where r: "sel_ids ?r = sel_ids ?s @ map bm_id taken"
        "sel_deferred ?r = sel_deferred ?s @ deferred" "sel_bytes ?r = sel_bytes ?s - bytes_of taken"
        "\<forall>ch. sel_retained ?r ch = sel_retained ?s ch - channel_messages taken ch"
        "split_of target bs (sel_bytes ?s) taken deferred rest"
        "\<forall>b \<in> set taken. floors (bm_channel_key b) \<le> sel_retained ?r (bm_channel_key b)"
        "\<forall>b \<in> set deferred. sel_retained ?r (bm_channel_key b) - bm_message_count b < floors (bm_channel_key b)"
        using Cons.IH [of ?s] by blast
      have "sel_retained ?r ?ch - bm_message_count b < floors ?ch" using r(4) True by simp
      moreover have "split_of target (b # bs) (sel_bytes s) taken (b # deferred) rest"
        using r(5) by (auto simp: split_of_def intro: exI [of _ "b # _"])
      ultimately show ?thesis
        using r unfolding step
        by (intro exI [of _ taken] exI [of _ "b # deferred"] exI [of _ rest]) simp
    next
      case False
      let ?s = "s\<lparr>sel_retained := (sel_retained s)(?ch := ?left),
                sel_bytes := sel_bytes s - bm_bytes b, sel_ids := sel_ids s @ [bm_id b]\<rparr>"
      let ?r = "select_blocks target floors bs ?s"
      have step: "select_blocks target floors (b # bs) s = ?r" using big False by simp
      obtain taken deferred rest where r: "sel_ids ?r = sel_ids ?s @ map bm_id taken"
        "sel_deferred ?r = sel_deferred ?s @ deferred" "sel_bytes ?r = sel_bytes ?s - bytes_of taken"
        "\<forall>ch. sel_retained ?r ch = sel_retained ?s ch - channel_messages taken ch"
        "split_of target bs (sel_bytes ?s) taken deferred rest"
        "\<forall>b \<in> set taken. floors (bm_channel_key b) \<le> sel_retained ?r (bm_channel_key b)"
        "\<forall>b \<in> set deferred. sel_retained ?r (bm_channel_key b) - bm_message_count b < floors (bm_channel_key b)"
        using Cons.IH [of ?s] by blast
      have "floors ?ch \<le> sel_retained ?r ?ch"
      proof (cases "\<exists>c \<in> set taken. bm_channel_key c = ?ch")
        case True
        then show ?thesis using r(6) by metis
      next
        case False
        then have "channel_messages taken ?ch = 0" by (induction taken) (auto simp: channel_messages_def)
        then show ?thesis using r(4) \<open>\<not> ?left < floors ?ch\<close> by simp
      qed
      moreover have "split_of target (b # bs) (sel_bytes s) (b # taken) deferred rest"
        using r(5) big by (cases "taken = []") (auto simp: split_of_def intro: exI [of _ "b # _"])
      moreover have "\<forall>ch. sel_retained ?r ch = sel_retained s ch - channel_messages (b # taken) ch"
        using r(4) by (simp add: channel_messages_Cons)
      ultimately show ?thesis
        using r(1,2,3,6,7) unfolding step
        by (intro exI [of _ "b # taken"] exI [of _ deferred] exI [of _ rest]) simp
    qed
  qed
qed

lemma select_deferred_split:
  "\<exists>taken rest. select_deferred target bs (before, ids) = (before - bytes_of taken, ids @ map bm_id taken) \<and>
    bs = taken @ rest \<and> (rest \<noteq> [] \<longrightarrow> before - bytes_of taken \<le> target) \<and>
    (taken \<noteq> [] \<longrightarrow> target < before - bytes_of (butlast taken))"
proof (induction bs arbitrary: before ids)
  case (Cons b bs)
  show ?case
  proof (cases "before \<le> target")
    case True
    then show ?thesis by (intro exI [of _ "[]"] exI [of _ "b # bs"]) simp
  next
    case False
    obtain taken rest where r: "select_deferred target bs (before - bm_bytes b, ids @ [bm_id b]) =
        (before - bm_bytes b - bytes_of taken, (ids @ [bm_id b]) @ map bm_id taken)" "bs = taken @ rest"
      "rest \<noteq> [] \<longrightarrow> before - bm_bytes b - bytes_of taken \<le> target"
      "taken \<noteq> [] \<longrightarrow> target < before - bm_bytes b - bytes_of (butlast taken)"
      using Cons.IH by blast
    then show ?thesis
      using False by (intro exI [of _ "b # taken"] exI [of _ rest]) auto
  qed
qed simp


section \<open>Plans\<close>

definition unprotected :: "block_meta list \<Rightarrow> block_meta list" where
  "unprotected blocks = filter (\<lambda>b. \<not> bm_journal_protected b) blocks"

lemma mset_candidates: "mset (candidates p blocks) = mset (unprotected blocks)"
  by (simp add: candidates_def unprotected_def)

lemma sorted_candidates: "sorted (map (eviction_key p) (candidates p blocks))"
  by (simp add: candidates_def)

text \<open>What the two loops leave, from the state of the store above the high water mark.\<close>

lemma plan_cases:
  assumes t: "thresholds p = Inr (target, high, emergency)" and h: "high \<le> current"
  obtains taken deferred looked rest late left where
    "candidates p blocks = looked @ rest" "mset looked = mset taken + mset deferred" "deferred = late @ left"
    "rest \<noteq> [] \<longrightarrow> current - bytes_of taken \<le> target"
    "taken \<noteq> [] \<longrightarrow> target < current - bytes_of (butlast taken)"
    "\<forall>b \<in> set taken. channel_floor p blocks (bm_channel_key b) \<le>
       channel_messages blocks (bm_channel_key b) - channel_messages taken (bm_channel_key b)"
    "\<forall>b \<in> set deferred. channel_messages blocks (bm_channel_key b) - channel_messages taken (bm_channel_key b)
       - bm_message_count b < channel_floor p blocks (bm_channel_key b)"
    "late \<noteq> [] \<longrightarrow> target < current - bytes_of taken - bytes_of (butlast late) \<and> emergency \<le> current"
    "emergency \<le> current \<longrightarrow> left \<noteq> [] \<longrightarrow> current - bytes_of taken - bytes_of late \<le> target"
    "plan_pressure_eviction blocks current p =
       (if target < current - bytes_of taken - bytes_of late then Inl TargetUnreachable
        else Inr \<lparr>ep_mode = (if emergency \<le> current then Emergency else HighWater),
          evict_ids = map bm_id (taken @ late), ep_bytes_before = current,
          ep_bytes_after = current - bytes_of taken - bytes_of late,
          crossed_channel_floor = (target < current - bytes_of taken \<and> emergency \<le> current)\<rparr>)"
proof -
  let ?s0 = "\<lparr>sel_bytes = current, sel_retained = channel_messages blocks, sel_ids = [], sel_deferred = []\<rparr>"
  define s where "s = select_blocks target (channel_floor p blocks) (candidates p blocks) ?s0"
  obtain taken deferred rest where r: "sel_ids s = map bm_id taken" "sel_deferred s = deferred"
    "sel_bytes s = current - bytes_of taken"
    "\<forall>ch. sel_retained s ch = channel_messages blocks ch - channel_messages taken ch"
    "split_of target (candidates p blocks) current taken deferred rest"
    "\<forall>b \<in> set taken. channel_floor p blocks (bm_channel_key b) \<le> sel_retained s (bm_channel_key b)"
    "\<forall>b \<in> set deferred. sel_retained s (bm_channel_key b) - bm_message_count b
       < channel_floor p blocks (bm_channel_key b)"
    using select_blocks_split [of target "channel_floor p blocks" "candidates p blocks" ?s0]
    unfolding s_def [symmetric] by auto
  let ?crossed = "target < current - bytes_of taken \<and> emergency \<le> current"
  obtain late left where d: "select_deferred target deferred (current - bytes_of taken, map bm_id taken) =
      (current - bytes_of taken - bytes_of late, map bm_id taken @ map bm_id late)"
    "deferred = late @ left" "left \<noteq> [] \<longrightarrow> current - bytes_of taken - bytes_of late \<le> target"
    "late \<noteq> [] \<longrightarrow> target < current - bytes_of taken - bytes_of (butlast late)"
    using select_deferred_split [of target deferred "current - bytes_of taken" "map bm_id taken"] by blast
  define late' where "late' = (if ?crossed then late else [])"
  define left' where "left' = (if ?crossed then left else deferred)"
  have plan: "plan_pressure_eviction blocks current p =
       (if target < current - bytes_of taken - bytes_of late' then Inl TargetUnreachable
        else Inr \<lparr>ep_mode = (if emergency \<le> current then Emergency else HighWater),
          evict_ids = map bm_id (taken @ late'), ep_bytes_before = current,
          ep_bytes_after = current - bytes_of taken - bytes_of late', crossed_channel_floor = ?crossed\<rparr>)"
    using h d(1) r(1-3)
    unfolding plan_pressure_eviction_def t and_then.simps prod.case Let_def s_def [symmetric] late'_def
    by auto
  obtain looked where l: "candidates p blocks = looked @ rest" "mset looked = mset taken + mset deferred"
    "rest \<noteq> [] \<longrightarrow> current - bytes_of taken \<le> target"
    "taken \<noteq> [] \<longrightarrow> target < current - bytes_of (butlast taken)"
    using r(5) by (auto simp: split_of_def)
  have a1: "deferred = late' @ left'" using d(2) by (simp add: late'_def left'_def)
  have a2: "\<forall>b \<in> set taken. channel_floor p blocks (bm_channel_key b) \<le>
       channel_messages blocks (bm_channel_key b) - channel_messages taken (bm_channel_key b)"
    and a3: "\<forall>b \<in> set deferred. channel_messages blocks (bm_channel_key b) - channel_messages taken (bm_channel_key b)
       - bm_message_count b < channel_floor p blocks (bm_channel_key b)"
    using r(6,7) by (simp_all only: r(4))
  have a4: "late' \<noteq> [] \<longrightarrow> target < current - bytes_of taken - bytes_of (butlast late') \<and> emergency \<le> current"
    using d(4) by (simp add: late'_def)
  have a5: "emergency \<le> current \<longrightarrow> left' \<noteq> [] \<longrightarrow> current - bytes_of taken - bytes_of late' \<le> target"
    using d(3) by (simp add: late'_def left'_def)
  show ?thesis by (rule that [OF l(1,2) a1 l(3,4) a2 a3 a4 a5 plan])
qed

lemma emergency_plan:
  assumes t: "thresholds p = Inr (target, high, emergency)" and "high \<le> current" and e: "emergency \<le> current"
  shows "plan_pressure_eviction blocks current p = Inl TargetUnreachable \<longleftrightarrow>
    target < current - bytes_of (unprotected blocks)"
proof -
  obtain taken deferred looked rest late left where c:
    "candidates p blocks = looked @ rest" "mset looked = mset taken + mset deferred" "deferred = late @ left"
    "rest \<noteq> [] \<longrightarrow> current - bytes_of taken \<le> target"
    "emergency \<le> current \<longrightarrow> left \<noteq> [] \<longrightarrow> current - bytes_of taken - bytes_of late \<le> target"
    and pl: "plan_pressure_eviction blocks current p =
       (if target < current - bytes_of taken - bytes_of late then Inl TargetUnreachable
        else Inr \<lparr>ep_mode = (if emergency \<le> current then Emergency else HighWater),
          evict_ids = map bm_id (taken @ late), ep_bytes_before = current,
          ep_bytes_after = current - bytes_of taken - bytes_of late,
          crossed_channel_floor = (target < current - bytes_of taken \<and> emergency \<le> current)\<rparr>)"
    by (rule plan_cases [OF t assms(2)]) blast
  have bytes: "bytes_of (unprotected blocks) = bytes_of taken + bytes_of late + bytes_of left + bytes_of rest"
  proof -
    have "sum_mset (image_mset bm_bytes (mset (unprotected blocks))) =
      sum_mset (image_mset bm_bytes (mset taken + mset late + mset left + mset rest))"
      by (simp add: mset_candidates [of p, symmetric] c(1-3) ac_simps)
    then show ?thesis by (simp add: sum_mset_sum_list [symmetric])
  qed
  have "current - bytes_of taken - bytes_of late \<le> target" if "left \<noteq> [] \<or> rest \<noteq> []"
    using that c(4,5) e by auto
  then show ?thesis
    using bytes by (cases "left = [] \<and> rest = []") (auto simp: pl)
qed

text \<open>Above the high water mark a plan is empty only when the store is at its target.\<close>

lemma plan_reaches_target:
  assumes "thresholds p = Inr (target, high, emergency)" and "high \<le> current"
    and "plan_pressure_eviction blocks current p = Inr plan"
  shows "ep_bytes_after plan \<le> target" and "evict_ids plan = [] \<longrightarrow> current \<le> target"
    and "ep_mode plan = (if emergency \<le> current then Emergency else HighWater)"
proof -
  obtain taken late where "plan_pressure_eviction blocks current p =
       (if target < current - bytes_of taken - bytes_of late then Inl TargetUnreachable
        else Inr \<lparr>ep_mode = (if emergency \<le> current then Emergency else HighWater),
          evict_ids = map bm_id (taken @ late), ep_bytes_before = current,
          ep_bytes_after = current - bytes_of taken - bytes_of late,
          crossed_channel_floor = (target < current - bytes_of taken \<and> emergency \<le> current)\<rparr>)"
    by (rule plan_cases [OF assms(1,2)]) blast
  then show "ep_bytes_after plan \<le> target" "evict_ids plan = [] \<longrightarrow> current \<le> target"
    "ep_mode plan = (if emergency \<le> current then Emergency else HighWater)"
    using assms(3) by (auto split: if_splits)
qed

section \<open>Examples\<close>

definition ev_policy :: pressure_policy where
  "ev_policy = \<lparr>pp_effective_max_bytes = 1000, pp_high_water_ratio = Finite (3 / 4),
     pp_target_ratio = Finite (1 / 2), pp_emergency_ratio = Finite (7 / 8),
     pressure_floor_messages_per_channel = 5, requested_after_ms = 100\<rparr>"

definition ev_block :: "nat \<Rightarrow> string \<Rightarrow> nat \<Rightarrow> nat \<Rightarrow> block_meta" where
  "ev_block i ch bytes requested = \<lparr>bm_id = i, bm_channel_key = ch, bm_message_count = 5, bm_bytes = bytes,
     bm_last_requested_at_ms = requested, bm_last_event_at_ms = i, bm_always_join = False,
     bm_journal_protected = False\<rparr>"

definition ev_blocks :: "block_meta list" where
  "ev_blocks = [ev_block 1 ''a'' 300 200, ev_block 2 ''b'' 200 0, ev_block 3 ''b'' 200 0, ev_block 4 ''a'' 100 200]"

lemma ev_thresholds: "thresholds ev_policy = Inr (500, 750, 875)"
  by code_simp

lemma ev_plan: "plan_pressure_eviction ev_blocks 800 ev_policy =
    Inr \<lparr>ep_mode = HighWater, evict_ids = [2, 3], ep_bytes_before = 800, ep_bytes_after = 400,
      crossed_channel_floor = False\<rparr>"
  unfolding plan_pressure_eviction_def ev_thresholds and_then.simps prod.case by code_simp

section \<open>Properties\<close>

text \<open>
  C13: An eviction plan is safe, exact and economical. It is empty while the store is below the high
  water mark. Above it, the planned blocks are blocks of the store that the journal does not protect,
  the bytes afterwards are those before less the planned ones and are at most the target, and without
  the last planned block they would not be. Only in an emergency is a channel taken below its floor:
  otherwise every channel with a planned block keeps at least its floor, and a block that ranks before
  a planned one is planned too, unless giving it up would take its channel below the floor.
\<close>
theorem plan_safe:
  assumes t: "thresholds p = Inr (target, high, emergency)"
    and plan: "plan_pressure_eviction blocks current p = Inr plan"
  shows "ep_bytes_before plan = current \<and>
    (current < high \<longrightarrow> ep_mode plan = Normal \<and> evict_ids plan = [] \<and> ep_bytes_after plan = current) \<and>
    (high \<le> current \<longrightarrow> (\<exists>taken. evict_ids plan = map bm_id taken \<and>
       mset taken \<subseteq># mset (unprotected blocks) \<and>
       ep_mode plan = (if emergency \<le> current then Emergency else HighWater) \<and>
       ep_bytes_after plan = current - bytes_of taken \<and> ep_bytes_after plan \<le> target \<and>
       (taken \<noteq> [] \<longrightarrow> target < current - bytes_of (butlast taken)) \<and>
       (crossed_channel_floor plan \<longrightarrow> emergency \<le> current) \<and>
       (\<not> crossed_channel_floor plan \<longrightarrow> (\<forall>b \<in> set taken.
          channel_floor p blocks (bm_channel_key b) \<le>
            channel_messages blocks (bm_channel_key b) - channel_messages taken (bm_channel_key b) \<and>
          (\<forall>c \<in> set (unprotected blocks). eviction_key p c < eviction_key p b \<longrightarrow> c \<in> set taken \<or>
             channel_messages blocks (bm_channel_key c) - channel_messages taken (bm_channel_key c)
               - bm_message_count c < channel_floor p blocks (bm_channel_key c))))))"
proof (cases "current < high")
  case True
  then show ?thesis using plan by (auto simp: plan_pressure_eviction_def t)
next
  case False
  then have h: "high \<le> current" by simp
  obtain taken deferred looked rest late left where c:
    "candidates p blocks = looked @ rest" "mset looked = mset taken + mset deferred" "deferred = late @ left"
    "rest \<noteq> [] \<longrightarrow> current - bytes_of taken \<le> target"
    "taken \<noteq> [] \<longrightarrow> target < current - bytes_of (butlast taken)"
    "\<forall>b \<in> set taken. channel_floor p blocks (bm_channel_key b) \<le>
       channel_messages blocks (bm_channel_key b) - channel_messages taken (bm_channel_key b)"
    "\<forall>b \<in> set deferred. channel_messages blocks (bm_channel_key b) - channel_messages taken (bm_channel_key b)
       - bm_message_count b < channel_floor p blocks (bm_channel_key b)"
    "late \<noteq> [] \<longrightarrow> target < current - bytes_of taken - bytes_of (butlast late) \<and> emergency \<le> current"
    and pl: "plan_pressure_eviction blocks current p =
       (if target < current - bytes_of taken - bytes_of late then Inl TargetUnreachable
        else Inr \<lparr>ep_mode = (if emergency \<le> current then Emergency else HighWater),
          evict_ids = map bm_id (taken @ late), ep_bytes_before = current,
          ep_bytes_after = current - bytes_of taken - bytes_of late,
          crossed_channel_floor = (target < current - bytes_of taken \<and> emergency \<le> current)\<rparr>)"
    by (rule plan_cases [OF t h]) blast
  let ?all = "taken @ late"
  have p1: "plan = \<lparr>ep_mode = (if emergency \<le> current then Emergency else HighWater),
          evict_ids = map bm_id ?all, ep_bytes_before = current,
          ep_bytes_after = current - bytes_of ?all,
          crossed_channel_floor = (target < current - bytes_of taken \<and> emergency \<le> current)\<rparr>"
    and le: "current - bytes_of ?all \<le> target"
    using plan pl by (auto split: if_splits)
  have sub: "mset ?all \<subseteq># mset (unprotected blocks)"
    by (simp add: mset_candidates [of p, symmetric] c(1-3))
  have last: "target < current - bytes_of (butlast ?all)" if "?all \<noteq> []"
    using that c(5,8) by (cases "late = []") (auto simp: butlast_append)
  have none: "late = []" if "\<not> crossed_channel_floor plan"
  proof (rule ccontr)
    assume "late \<noteq> []"
    then have "target < current - bytes_of taken" "emergency \<le> current" using c(8) by auto
    then show False using that p1 by simp
  qed
  have order: "c' \<in> set taken \<or> channel_messages blocks (bm_channel_key c') - channel_messages taken (bm_channel_key c')
        - bm_message_count c' < channel_floor p blocks (bm_channel_key c')"
    if b: "b \<in> set taken" and c': "c' \<in> set (unprotected blocks)" "eviction_key p c' < eviction_key p b" for b c'
  proof -
    have "set (unprotected blocks) = set (looked @ rest)"
      using mset_candidates [of p blocks] c(1) by (metis set_mset_mset)
    moreover have "set looked = set taken \<union> set deferred"
      using c(2) by (metis set_mset_mset set_mset_union)
    moreover have "eviction_key p x \<le> eviction_key p y" if "x \<in> set looked" "y \<in> set rest" for x y
      using sorted_candidates [of p blocks] that unfolding c(1) by (auto simp: sorted_append)
    ultimately have "c' \<in> set taken \<union> set deferred"
      using b c' by (metis Un_iff leD set_append)
    then show ?thesis using c(7) by blast
  qed
  show ?thesis
    using False
  proof (intro conjI impI exI [of _ ?all])
    assume nc: "\<not> crossed_channel_floor plan"
    show "\<forall>b \<in> set ?all. channel_floor p blocks (bm_channel_key b) \<le>
        channel_messages blocks (bm_channel_key b) - channel_messages ?all (bm_channel_key b) \<and>
      (\<forall>c \<in> set (unprotected blocks). eviction_key p c < eviction_key p b \<longrightarrow> c \<in> set ?all \<or>
         channel_messages blocks (bm_channel_key c) - channel_messages ?all (bm_channel_key c)
           - bm_message_count c < channel_floor p blocks (bm_channel_key c))"
      unfolding none [OF nc] append_Nil2 using c(6) order by blast
  qed (use p1 le sub last in auto)
qed

theorem plan_safe_witness:
  "\<exists>taken. [2, 3] = map bm_id taken \<and> mset taken \<subseteq># mset (unprotected ev_blocks) \<and> 400 = 800 - bytes_of taken"
proof -
  let ?plan = "\<lparr>ep_mode = HighWater, evict_ids = [2, 3], ep_bytes_before = 800, ep_bytes_after = 400,
      crossed_channel_floor = False\<rparr>"
  have "750 \<le> (800 :: nat)" by simp
  with plan_safe [OF ev_thresholds ev_plan] have "\<exists>taken. evict_ids ?plan = map bm_id taken \<and>
    mset taken \<subseteq># mset (unprotected ev_blocks) \<and> ep_bytes_after ?plan = 800 - bytes_of taken" by blast
  then show ?thesis by simp
qed

text \<open>
  In an emergency the plan fails only when no plan could reach the target: exactly when giving up
  every block the journal does not protect would leave the store above it.
\<close>
theorem emergency_plan_exact:
  assumes "thresholds p = Inr (target, high, emergency)" and "high \<le> current" and "emergency \<le> current"
  shows "plan_pressure_eviction blocks current p = Inl TargetUnreachable \<longleftrightarrow>
    target < current - bytes_of (unprotected blocks)"
  by (rule emergency_plan [OF assms])

theorem emergency_plan_exact_witness:
  "plan_pressure_eviction ev_blocks 2000 ev_policy = Inl TargetUnreachable \<and>
   plan_pressure_eviction ev_blocks 1000 ev_policy \<noteq> Inl TargetUnreachable"
  using emergency_plan_exact [OF ev_thresholds, of 2000 ev_blocks]
    emergency_plan_exact [OF ev_thresholds, of 1000 ev_blocks]
  by (simp add: unprotected_def ev_blocks_def ev_block_def)

end
