(* ===== verification/Budget.thy ===== *)
theory Budget
  imports AsyncStore Eviction
begin

text \<open>
  The storage budget of \<^verbatim>\<open>src/storage/budget.rs\<close>: the ceiling that node and filesystem limits
  allow, the distribution of the file's overhead over the blocks, and the bounded loop that evicts
  blocks until the store is below its high water mark. The sizes of the database files, the
  filesystem's answers and the clock are parameters, one value per pass. Durations are nanoseconds.
\<close>

record filesystem_space =
  fs_total_bytes :: nat
  fs_available_bytes :: nat

record storage_budget =
  sb_max_bytes :: nat
  max_filesystem_percent :: nat
  min_free_bytes :: nat
  wal_reserve_bytes :: nat
  sb_high_water_ratio :: f64
  sb_target_ratio :: f64
  sb_emergency_ratio :: f64
  sb_pressure_floor :: nat
  requested_channel_protect_for :: nat
  max_enforcement_passes :: nat

datatype storage_budget_error =
    InvalidBudget
  | Filesystem string
  | BudgetStore store_error
  | BudgetEviction eviction_error
  | EnforcementIncomplete

record budget_enforcement =
  be_mode :: pressure_mode
  be_effective_max_bytes :: nat
  be_bytes_before :: nat
  be_bytes_after :: nat
  be_evicted_blocks :: nat
  be_passes :: nat

definition budget_validate :: "storage_budget \<Rightarrow> storage_budget_error + unit" where
  "budget_validate b =
     (if sb_max_bytes b = 0 \<or> max_filesystem_percent b = 0 \<or> max_filesystem_percent b > 100 \<or>
         max_enforcement_passes b = 0 \<or> requested_channel_protect_for b = 0 \<or>
         \<not> ratios_valid (sb_target_ratio b) (sb_high_water_ratio b) (sb_emergency_ratio b)
      then Inl InvalidBudget else Inr ())"

text \<open>The percentage is computed in \<open>u128\<close>, so it does not overflow.\<close>

definition effective_max_bytes ::
    "storage_budget \<Rightarrow> nat \<Rightarrow> filesystem_space \<Rightarrow> storage_budget_error + nat" where
  "effective_max_bytes b current fs =
     and_then (budget_validate b) (\<lambda>_.
       if fs_total_bytes fs = 0 \<or> fs_available_bytes fs > fs_total_bytes fs
       then Inl (Filesystem ''capacity values are inconsistent'')
       else
         let percent_cap = min (fs_total_bytes fs * max_filesystem_percent b div 100) u64_max;
             required_free = u64_saturating_add (min_free_bytes b) (wal_reserve_bytes b);
             free_space_cap = u64_saturating_sub (u64_saturating_add current (fs_available_bytes fs)) required_free
         in Inr (min (min (sb_max_bytes b) percent_cap) free_space_cap))"

section \<open>The blocks under pressure\<close>

text \<open>\<open>SqliteBlockStore::pressure_blocks\<close>: the inner join drops rows without a channel.\<close>

definition block_meta_of :: "sqlite_db \<Rightarrow> block_row \<Rightarrow> channel_row \<Rightarrow> store_error + block_meta" where
  "block_meta_of db row c =
     and_then (ok_or range_error (u64_try_from (row_id row))) (\<lambda>i.
     and_then (ok_or range_error (u64_try_from (row_message_count row))) (\<lambda>n.
       Inr \<lparr>bm_id = i, bm_channel_key = row_channel row, bm_message_count = n,
            bm_bytes = u64_saturating_add (length (row_payload row)) 384,
            bm_last_requested_at_ms = (case u64_try_from (last_requested_at_ms c) of None \<Rightarrow> 0 | Some t \<Rightarrow> t),
            bm_last_event_at_ms = (case u64_try_from (row_last_event_at_ms row) of None \<Rightarrow> 0 | Some t \<Rightarrow> t),
            bm_always_join = (row_channel row \<in> set (always_join_channels db)),
            bm_journal_protected = False\<rparr>))"

definition pressure_blocks :: "sqlite_db \<Rightarrow> store_error + block_meta list" where
  "pressure_blocks db = collect_results (\<lambda>(row, c). block_meta_of db row c)
     (List.map_filter (\<lambda>row. map_option (Pair row) (map_of (channel_table db) (row_channel row)))
        (message_blocks db))"

text \<open>The loop of \<open>distribute_physical_overhead\<close>: each block gets its share, the first ones one byte more.\<close>

fun spread :: "nat \<Rightarrow> nat \<Rightarrow> block_meta list \<Rightarrow> block_meta list" where
  "spread each remainder [] = []"
| "spread each remainder (b # bs) =
     (if remainder > 0
      then b\<lparr>bm_bytes := u64_saturating_add (u64_saturating_add (bm_bytes b) each) 1\<rparr> # spread each (remainder - 1) bs
      else b\<lparr>bm_bytes := u64_saturating_add (bm_bytes b) each\<rparr> # spread each 0 bs)"

definition distribute_physical_overhead :: "block_meta list \<Rightarrow> nat \<Rightarrow> block_meta list" where
  "distribute_physical_overhead metas physical =
     (if metas = [] then metas
      else let overhead = u64_saturating_sub physical (sum_list (map bm_bytes metas));
               count = max (length metas) 1
           in spread (overhead div count) (overhead mod count) metas)"

section \<open>Enforcement\<close>

text \<open>What the enforcement reads from outside, per pass.\<close>

record surroundings =
  physical_bytes :: "nat \<Rightarrow> async_store \<Rightarrow> store_error + nat"
  measure_space :: "nat \<Rightarrow> nat \<Rightarrow> storage_budget_error + filesystem_space"
  unix_ms :: "nat \<Rightarrow> nat"

definition policy_for :: "storage_budget \<Rightarrow> nat \<Rightarrow> nat \<Rightarrow> pressure_policy" where
  "policy_for b effective now =
     \<lparr>pp_effective_max_bytes = max effective 1, pp_high_water_ratio = sb_high_water_ratio b,
      pp_target_ratio = sb_target_ratio b, pp_emergency_ratio = sb_emergency_ratio b,
      pressure_floor_messages_per_channel = sb_pressure_floor b,
      requested_after_ms = u64_saturating_sub now
        (requested_channel_protect_for b div 1000000 mod 2 ^ 64)\<rparr>"

text \<open>The body of one pass up to the eviction: done, or the blocks to evict.\<close>

definition plan_pass ::
    "storage_budget \<Rightarrow> surroundings \<Rightarrow> nat \<Rightarrow> nat \<Rightarrow> async_store
      \<Rightarrow> storage_budget_error + nat \<times> pressure_mode \<times> nat list" where
  "plan_pass b sur pass current st =
     and_then (measure_space sur pass current) (\<lambda>fs.
     and_then (effective_max_bytes b current fs) (\<lambda>effective.
     let policy = policy_for b effective (unix_ms sur pass) in
     and_then (map_err BudgetEviction (below_high_water policy current)) (\<lambda>below.
     if below then Inr (effective, Normal, [])
     else
       and_then (map_err BudgetStore (pressure_blocks (as_db st))) (\<lambda>metas.
       and_then (map_err BudgetEviction
           (plan_pressure_eviction (distribute_physical_overhead metas current) current policy)) (\<lambda>plan.
         Inr (effective, ep_mode plan, evict_ids plan))))))"

text \<open>\<open>n\<close> passes are left of \<open>max_enforcement_passes\<close>.\<close>

fun enforce_passes ::
    "codec \<Rightarrow> sqlite_config \<Rightarrow> storage_budget \<Rightarrow> surroundings \<Rightarrow> nat \<Rightarrow> nat \<Rightarrow> budget_enforcement \<Rightarrow> async_store
      \<Rightarrow> (storage_budget_error + budget_enforcement) \<times> async_store" where
  "enforce_passes cd cfg b sur pass 0 r st =
     (if be_bytes_after r \<ge> water_mark (be_effective_max_bytes r) (sb_high_water_ratio b)
      then (Inl EnforcementIncomplete, st)
      else (Inr (r\<lparr>be_passes := max_enforcement_passes b\<rparr>), st))"
| "enforce_passes cd cfg b sur pass (Suc n) r st =
     (case plan_pass b sur pass (be_bytes_after r) st of
        Inl e \<Rightarrow> (Inl e, st)
      | Inr (effective, mode, ids) \<Rightarrow>
          if ids = [] then (Inr (r\<lparr>be_mode := mode, be_effective_max_bytes := effective, be_passes := pass\<rparr>), st)
          else
            (case async_evict_block_ids cd cfg ids st of
               (Inl e, st') \<Rightarrow> (Inl (BudgetStore e), st')
             | (Inr deleted, st') \<Rightarrow>
                 (case physical_bytes sur (Suc pass) st' of
                    Inl e \<Rightarrow> (Inl (BudgetStore e), st')
                  | Inr current \<Rightarrow> enforce_passes cd cfg b sur (Suc pass) n
                      (r\<lparr>be_mode := mode, be_effective_max_bytes := effective, be_bytes_after := current,
                         be_evicted_blocks := u64_saturating_add (be_evicted_blocks r) deleted\<rparr>) st')))"

definition enforce ::
    "codec \<Rightarrow> sqlite_config \<Rightarrow> storage_budget \<Rightarrow> surroundings \<Rightarrow> async_store
      \<Rightarrow> (storage_budget_error + budget_enforcement) \<times> async_store" where
  "enforce cd cfg b sur st =
     (case physical_bytes sur 0 st of
        Inl e \<Rightarrow> (Inl (BudgetStore e), st)
      | Inr bytes \<Rightarrow> enforce_passes cd cfg b sur 0 (max_enforcement_passes b)
          \<lparr>be_mode = Normal, be_effective_max_bytes = 0, be_bytes_before = bytes, be_bytes_after = bytes,
           be_evicted_blocks = 0, be_passes = 0\<rparr> st)"

section \<open>The distribution of the overhead\<close>

lemma spread_bytes:
  assumes "sum_list (map bm_bytes bs) + each * length bs + remainder \<le> u64_max" and "remainder \<le> length bs"
  shows "sum_list (map bm_bytes (spread each remainder bs)) =
      sum_list (map bm_bytes bs) + each * length bs + remainder"
  using assms
  by (induction each remainder bs rule: spread.induct) (auto simp: u64_saturating_add_def)

lemma spread_same:
  "map bm_id (spread each remainder bs) = map bm_id bs"
  "map bm_journal_protected (spread each remainder bs) = map bm_journal_protected bs"
  by (induction each remainder bs rule: spread.induct) auto

lemma spread_share:
  "list_all2 (\<lambda>b b'. bm_bytes b + each \<le> u64_max - 1 \<longrightarrow>
      bm_bytes b' = bm_bytes b + each \<or> bm_bytes b' = bm_bytes b + each + 1) bs (spread each remainder bs)"
  by (induction each remainder bs rule: spread.induct) (auto simp: u64_saturating_add_def)

lemma distribute_bytes:
  assumes "metas \<noteq> []" and "physical \<le> u64_max" and "sum_list (map bm_bytes metas) \<le> u64_max"
  shows "sum_list (map bm_bytes (distribute_physical_overhead metas physical)) =
      max physical (sum_list (map bm_bytes metas))"
proof -
  let ?o = "physical - sum_list (map bm_bytes metas)" and ?n = "length metas"
  have n: "0 < ?n" "max ?n 1 = ?n" using assms(1) by (cases metas; simp)+
  have o: "?o div ?n * ?n + ?o mod ?n = ?o" by simp
  have "?o mod ?n \<le> ?n" using n(1) by (simp add: less_imp_le)
  moreover have "sum_list (map bm_bytes metas) + ?o div ?n * ?n + ?o mod ?n \<le> u64_max"
    using o assms(2,3) by linarith
  ultimately show ?thesis
    using spread_bytes [of metas "?o div ?n" "?o mod ?n"] assms(1) n o
    by (simp add: distribute_physical_overhead_def Let_def)
qed

lemma distribute_same:
  "map bm_journal_protected (distribute_physical_overhead metas physical) = map bm_journal_protected metas"
  "map bm_id (distribute_physical_overhead metas physical) = map bm_id metas"
  by (simp_all add: distribute_physical_overhead_def Let_def spread_same)

section \<open>A bounded enforcement\<close>

definition high_mark :: "storage_budget \<Rightarrow> nat \<Rightarrow> nat" where
  "high_mark b effective = water_mark effective (sb_high_water_ratio b)"

definition target_mark :: "storage_budget \<Rightarrow> nat \<Rightarrow> nat" where
  "target_mark b effective = water_mark effective (sb_target_ratio b)"

lemma policy_thresholds:
  assumes "thresholds (policy_for b effective now) = Inr (target, high, emergency)"
  shows "target = target_mark b (max effective 1)" "high = high_mark b (max effective 1)"
  using assms by (auto simp: thresholds_def policy_for_def target_mark_def high_mark_def split: if_splits)

lemma plan_pass_done:
  assumes "plan_pass b sur pass current st = Inr (effective, mode, [])"
  shows "current < high_mark b (max effective 1) \<or> current \<le> target_mark b (max effective 1)"
proof -
  let ?p = "policy_for b effective (unix_ms sur pass)"
  obtain below where below: "below_high_water ?p current = Inr below"
    and rest: "below \<or> (\<exists>metas plan. plan_pressure_eviction (distribute_physical_overhead metas current) current ?p
        = Inr plan \<and> evict_ids plan = [])"
    using assms by (auto simp: plan_pass_def Let_def split: if_splits)
  obtain target high emergency where t: "thresholds ?p = Inr (target, high, emergency)"
    and b: "below = (current < high)"
    using below by (auto simp: below_high_water_def)
  show ?thesis
  proof (cases "current < high")
    case True
    then show ?thesis using policy_thresholds [OF t] by simp
  next
    case False
    then obtain metas plan where "plan_pressure_eviction (distribute_physical_overhead metas current) current ?p = Inr plan"
      "evict_ids plan = []" using rest b by blast
    then show ?thesis using plan_reaches_target(2) [OF t] False policy_thresholds [OF t] by simp
  qed
qed

text \<open>\<open>evictions n h\<close>: at most \<open>n\<close> commands, each an eviction of at least one block.\<close>

definition evictions :: "nat \<Rightarrow> (writer_command \<times> writer_reply) list \<Rightarrow> bool" where
  "evictions n h \<longleftrightarrow> length h \<le> n \<and> (\<forall>(cmd, reply) \<in> set h. \<exists>ids. cmd = EvictBlocks ids \<and> ids \<noteq> [])"

lemma evict_call_history:
  assumes "async_evict_block_ids cd cfg ids st = (res, st')" and "ids \<noteq> []"
  obtains h where "as_history st' = as_history st @ h" "evictions 1 h"
  using assms(1) unfolding async_evict_block_ids_def
proof (cases rule: call_cases)
  case (answered reply)
  then show ?thesis using assms(2) that [of "[(EvictBlocks ids, reply)]"] by (simp add: executed_def evictions_def)
next
  case (lost reply)
  then show ?thesis using assms(2) that [of "[(EvictBlocks ids, reply)]"] by (simp add: executed_def evictions_def)
next
  case (failed e)
  then show ?thesis using that [of "[]"] by (simp add: untouched_def evictions_def)
qed

lemma enforce_passes_bounded:
  assumes "enforce_passes cd cfg b sur pass n r st = (res, st')" and "pass + n = max_enforcement_passes b"
  shows "(\<exists>h. as_history st' = as_history st @ h \<and> evictions n h) \<and>
    (\<forall>r'. res = Inr r' \<longrightarrow> be_passes r' \<le> max_enforcement_passes b \<and> be_bytes_before r' = be_bytes_before r \<and>
       (be_bytes_after r' < high_mark b (be_effective_max_bytes r') \<or>
        be_bytes_after r' < high_mark b (max (be_effective_max_bytes r') 1) \<or>
        be_bytes_after r' \<le> target_mark b (max (be_effective_max_bytes r') 1)))"
  using assms
proof (induction n arbitrary: pass r st)
  case 0
  then show ?case by (auto simp: evictions_def high_mark_def split: if_splits)
next
  case (Suc n)
  show ?case
  proof (cases "plan_pass b sur pass (be_bytes_after r) st")
    case (Inl e)
    then show ?thesis using Suc.prems by (auto simp: evictions_def)
  next
    case (Inr t)
    obtain effective mode ids where t: "t = (effective, mode, ids)" by (metis prod.exhaust)
    note p = Inr [unfolded t]
    show ?thesis
    proof (cases "ids = []")
      case True
      then show ?thesis
        using Suc.prems p plan_pass_done [OF p [unfolded True]] by (auto simp: evictions_def)
    next
      case False
      obtain res1 st1 where e: "async_evict_block_ids cd cfg ids st = (res1, st1)" by fastforce
      obtain h where h: "as_history st1 = as_history st @ h" "evictions 1 h"
        using evict_call_history [OF e False] by blast
      have h': "evictions (Suc n) h" using h(2) by (simp add: evictions_def)
      show ?thesis
      proof (cases "\<exists>deleted current. res1 = Inr deleted \<and> physical_bytes sur (Suc pass) st1 = Inr current")
        case False
        then obtain err where "res = Inl err" "st' = st1"
          using Suc.prems(1) p e \<open>ids \<noteq> []\<close> by (auto split: sum.splits)
        then show ?thesis using h(1) h' by auto
      next
        case True
        then obtain deleted current where c: "res1 = Inr deleted" "physical_bytes sur (Suc pass) st1 = Inr current"
          by blast
        let ?r = "r\<lparr>be_mode := mode, be_effective_max_bytes := effective, be_bytes_after := current,
                    be_evicted_blocks := u64_saturating_add (be_evicted_blocks r) deleted\<rparr>"
        have step: "enforce_passes cd cfg b sur (Suc pass) n ?r st1 = (res, st')"
          using Suc.prems(1) p e c \<open>ids \<noteq> []\<close> by simp
        have IH: "(\<exists>h. as_history st' = as_history st1 @ h \<and> evictions n h) \<and>
          (\<forall>r'. res = Inr r' \<longrightarrow> be_passes r' \<le> max_enforcement_passes b \<and> be_bytes_before r' = be_bytes_before ?r \<and>
             (be_bytes_after r' < high_mark b (be_effective_max_bytes r') \<or>
              be_bytes_after r' < high_mark b (max (be_effective_max_bytes r') 1) \<or>
              be_bytes_after r' \<le> target_mark b (max (be_effective_max_bytes r') 1)))"
          by (rule Suc.IH [OF step]) (use Suc.prems(2) in simp)
        then obtain h2 where h2: "as_history st' = as_history st1 @ h2" "evictions n h2" by blast
        have "evictions (Suc n) (h @ h2)" using h(2) h2(2) by (auto simp: evictions_def)
        then show ?thesis using IH h(1) h2(1) by auto
      qed
    qed
  qed
qed

lemma collect_results_member: "collect_results f xs = Inr ys \<Longrightarrow> y \<in> set ys \<Longrightarrow> \<exists>x \<in> set xs. f x = Inr y"
  by (induction xs arbitrary: ys) (auto split: sum.splits)

section \<open>Properties\<close>

text \<open>
  C15: Budget enforcement always ends, within the configured number of passes, whatever sizes, space and
  clock it reads and whichever calls fail: it executes at most one eviction per pass, of at least one
  block, and nothing else. When it reports success the store is below the high water mark of the ceiling
  it reports, or at its target.
\<close>
theorem enforcement_bounded:
  assumes "enforce cd cfg b sur st = (res, st')"
  shows "(\<exists>h. as_history st' = as_history st @ h \<and> length h \<le> max_enforcement_passes b \<and>
      (\<forall>(cmd, reply) \<in> set h. \<exists>ids. cmd = EvictBlocks ids \<and> ids \<noteq> [])) \<and>
    (case res of Inl e \<Rightarrow> True
     | Inr r \<Rightarrow> be_passes r \<le> max_enforcement_passes b \<and>
         (be_bytes_after r < water_mark (max (be_effective_max_bytes r) 1) (sb_high_water_ratio b) \<or>
          be_bytes_after r < water_mark (be_effective_max_bytes r) (sb_high_water_ratio b) \<or>
          be_bytes_after r \<le> water_mark (max (be_effective_max_bytes r) 1) (sb_target_ratio b)))"
proof (cases "physical_bytes sur 0 st")
  case (Inl e)
  then show ?thesis using assms by (auto simp: enforce_def)
next
  case (Inr bytes)
  then have "enforce_passes cd cfg b sur 0 (max_enforcement_passes b)
      \<lparr>be_mode = Normal, be_effective_max_bytes = 0, be_bytes_before = bytes, be_bytes_after = bytes,
       be_evicted_blocks = 0, be_passes = 0\<rparr> st = (res, st')"
    using assms by (simp add: enforce_def)
  from enforce_passes_bounded [OF this] show ?thesis
    by (auto simp: evictions_def high_mark_def target_mark_def split: sum.splits)
qed

definition bud_budget :: storage_budget where
  "bud_budget = \<lparr>sb_max_bytes = 1000, max_filesystem_percent = 50, min_free_bytes = 10, wal_reserve_bytes = 10,
     sb_high_water_ratio = Finite (3 / 4), sb_target_ratio = Finite (1 / 2), sb_emergency_ratio = Finite (7 / 8),
     sb_pressure_floor = 0, requested_channel_protect_for = 1000000, max_enforcement_passes = 2\<rparr>"

definition bud_sur :: surroundings where
  "bud_sur = \<lparr>physical_bytes = (\<lambda>pass st. Inr (if pass = 0 then 900 else 300)),
     measure_space = (\<lambda>pass current. Inr \<lparr>fs_total_bytes = 100000, fs_available_bytes = 90000\<rparr>),
     unix_ms = (\<lambda>pass. 1000)\<rparr>"

definition bud_store :: async_store where
  "bud_store = \<lparr>as_db = ex_db, as_fates = [], as_history = []\<rparr>"

lemma bud_enforce: "map_sum id be_evicted_blocks (fst (enforce ex_codec ex_cfg bud_budget bud_sur bud_store)) = Inr 1"
  by code_simp

theorem enforcement_bounded_witness:
  "\<exists>r st'. enforce ex_codec ex_cfg bud_budget bud_sur bud_store = (Inr r, st') \<and> be_passes r \<le> 2"
proof -
  obtain res st' where e: "enforce ex_codec ex_cfg bud_budget bud_sur bud_store = (res, st')" by fastforce
  then obtain r where "res = Inr r" using bud_enforce by (cases res) auto
  moreover have "max_enforcement_passes bud_budget = 2" by (simp add: bud_budget_def)
  ultimately show ?thesis using enforcement_bounded [OF e] e by auto
qed

text \<open>
  An emergency always has a way out. The overhead of the database file is spread over the blocks so
  that their bytes add up to the size of the files, and the store's blocks are never protected, so in
  an emergency planning on a store with blocks succeeds and brings the planned bytes down to the target.
\<close>
theorem emergency_reaches_target:
  assumes "pressure_blocks db = Inr metas" and "metas \<noteq> []" and "current \<le> u64_max"
    and "sum_list (map bm_bytes metas) \<le> u64_max"
    and t: "thresholds p = Inr (target, high, emergency)" and c: "high \<le> current" "emergency \<le> current"
  shows "\<exists>plan. plan_pressure_eviction (distribute_physical_overhead metas current) current p = Inr plan \<and>
    ep_mode plan = Emergency \<and> ep_bytes_after plan \<le> target"
proof -
  let ?blocks = "distribute_physical_overhead metas current"
  have "\<forall>b \<in> set metas. \<not> bm_journal_protected b"
    using assms(1) unfolding pressure_blocks_def
    by (auto simp: block_meta_of_def dest!: collect_results_member)
  then have "list_all Not (map bm_journal_protected ?blocks)"
    unfolding distribute_same by (simp add: list_all_iff)
  then have "unprotected ?blocks = ?blocks"
    unfolding unprotected_def by (simp add: list.pred_map list_all_iff filter_id_conv)
  then have "\<not> target < current - bytes_of (unprotected ?blocks)"
    using distribute_bytes [OF assms(2,3,4)] by simp
  then have "plan_pressure_eviction ?blocks current p \<noteq> Inl TargetUnreachable"
    using emergency_plan [OF t c] by blast
  moreover have "plan_pressure_eviction ?blocks current p \<noteq> Inl InvalidPolicy"
    using t by (auto simp: plan_pressure_eviction_def Let_def split: prod.splits if_splits)
  ultimately obtain plan where plan: "plan_pressure_eviction ?blocks current p = Inr plan"
    by (cases "plan_pressure_eviction ?blocks current p") (metis eviction_error.exhaust, blast)
  then show ?thesis using plan_reaches_target(1,3) [OF t c(1) plan] c(2) by auto
qed

theorem emergency_reaches_target_witness:
  "\<exists>metas plan. pressure_blocks ex_db = Inr metas \<and>
    plan_pressure_eviction (distribute_physical_overhead metas 900) 900 ev_policy = Inr plan \<and>
    ep_bytes_after plan \<le> 500"
proof -
  have "map_sum id (\<lambda>metas. (metas \<noteq> [], sum_list (map bm_bytes metas) \<le> u64_max)) (pressure_blocks ex_db)
    = Inr (True, True)" by code_simp
  then obtain metas where m: "pressure_blocks ex_db = Inr metas" "metas \<noteq> []"
    "sum_list (map bm_bytes metas) \<le> u64_max"
    by (cases "pressure_blocks ex_db") auto
  have "900 \<le> u64_max" by (simp add: int_defs)
  from emergency_reaches_target [OF m(1,2) this m(3) ev_thresholds] m(1) show ?thesis by auto
qed

end
