(* ===== verification/Batcher.thy ===== *)
theory Batcher
  imports Ingest RawIrc Placement
begin

text \<open>
  The two batchers that number the records of a source before the ingest,
  \<^verbatim>\<open>DirectIrcBatcher\<close> of \<^verbatim>\<open>src/storage/direct_irc.rs\<close> and \<^verbatim>\<open>RawBatcher\<close> of
  \<^verbatim>\<open>src/storage/raw_firehose.rs\<close>. Their common contract, that the batches they give out number
  the records they took in without a gap and in order, is a locale.
\<close>

section \<open>The contract\<close>

text \<open>A batch of the records \<open>rs\<close> whose first sequence number is \<open>n\<close>.\<close>

definition batch_of :: "string \<times> string \<Rightarrow> nat \<Rightarrow> canonical_record list \<Rightarrow> raw_source_batch \<Rightarrow> bool" where
  "batch_of stream n rs b \<longleftrightarrow> rs \<noteq> [] \<and> rb_records b = rs \<and> (rb_source_id b, rb_stream_id b) = stream \<and>
     rb_first_sequence b = n \<and> rb_last_sequence b = n + length rs - 1"

datatype batcher_command = Push canonical_record | Flush

fun run_batcher ::
    "('s \<Rightarrow> canonical_record \<Rightarrow> raw_source_batch option \<times> 's) \<Rightarrow> ('s \<Rightarrow> raw_source_batch option \<times> 's)
      \<Rightarrow> batcher_command list \<Rightarrow> 's \<Rightarrow> raw_source_batch list \<times> 's" where
  "run_batcher push flush [] s = ([], s)"
| "run_batcher push flush (cmd # cmds) s =
     (case (case cmd of Push r \<Rightarrow> push s r | Flush \<Rightarrow> flush s) of (res, s') \<Rightarrow>
        case run_batcher push flush cmds s' of (bs, s'') \<Rightarrow>
          ((case res of None \<Rightarrow> bs | Some b \<Rightarrow> b # bs), s''))"

fun pushed :: "batcher_command list \<Rightarrow> canonical_record list" where
  "pushed [] = []"
| "pushed (Push r # cmds) = r # pushed cmds"
| "pushed (Flush # cmds) = pushed cmds"

text \<open>Batches that continue each other from \<open>n\<close> up to before \<open>m\<close>.\<close>

fun continuous :: "string \<times> string \<Rightarrow> nat \<Rightarrow> raw_source_batch list \<Rightarrow> nat \<Rightarrow> bool" where
  "continuous stream n [] m = (n = m)"
| "continuous stream n (b # bs) m =
     (batch_of stream n (rb_records b) b \<and> continuous stream (Suc (rb_last_sequence b)) bs m)"

locale batcher =
  fixes push :: "'s \<Rightarrow> canonical_record \<Rightarrow> raw_source_batch option \<times> 's"
    and flush :: "'s \<Rightarrow> raw_source_batch option \<times> 's"
    and invar :: "'s \<Rightarrow> bool"
    and stream :: "'s \<Rightarrow> string \<times> string"
    and start :: "'s \<Rightarrow> nat"
    and held :: "'s \<Rightarrow> canonical_record list"
  assumes push_law: "invar s \<Longrightarrow> start s + length (held s) + 1 \<le> u64_max \<Longrightarrow> push s r = (res, s') \<Longrightarrow>
      invar s' \<and> stream s' = stream s \<and>
      (case res of None \<Rightarrow> held s' = held s @ [r] \<and> start s' = start s
       | Some b \<Rightarrow> batch_of (stream s) (start s) (held s @ [r]) b \<and> held s' = [] \<and>
           start s' = start s + Suc (length (held s)))"
    and flush_law: "invar s \<Longrightarrow> start s + length (held s) \<le> u64_max \<Longrightarrow> flush s = (res, s') \<Longrightarrow>
      invar s' \<and> stream s' = stream s \<and> held s' = [] \<and> start s' = start s + length (held s) \<and>
      (case res of None \<Rightarrow> held s = [] | Some b \<Rightarrow> batch_of (stream s) (start s) (held s) b)"
begin

lemma run_continuous:
  assumes "invar s" and "start s + length (held s) + length (pushed cmds) \<le> u64_max"
    and "run_batcher push flush cmds s = (bs, s')"
  shows "invar s' \<and> stream s' = stream s \<and> continuous (stream s) (start s) bs (start s') \<and>
    held s @ pushed cmds = concat (map rb_records bs) @ held s' \<and>
    start s' + length (held s') = start s + length (held s) + length (pushed cmds)"
  using assms
proof (induction cmds arbitrary: s bs)
  case (Cons cmd cmds)
  obtain res s1 where st: "(case cmd of Push r \<Rightarrow> push s r | Flush \<Rightarrow> flush s) = (res, s1)" by fastforce
  obtain bs1 where rest: "run_batcher push flush cmds s1 = (bs1, s')"
    and bs: "bs = (case res of None \<Rightarrow> bs1 | Some b \<Rightarrow> b # bs1)"
    using Cons.prems(3) st by (auto split: prod.splits)
  have new: "rs \<noteq> [] \<Longrightarrow> batch_of (stream s) n rs b \<Longrightarrow> Suc (rb_last_sequence b) = n + length rs \<and> rb_records b = rs"
    for n rs b by (cases rs) (auto simp: batch_of_def)
  show ?case
  proof (cases cmd)
    case (Push r)
    note law = push_law [OF Cons.prems(1), of r res s1]
    have l: "invar s1" "stream s1 = stream s"
      "(case res of None \<Rightarrow> held s1 = held s @ [r] \<and> start s1 = start s
       | Some b \<Rightarrow> batch_of (stream s) (start s) (held s @ [r]) b \<and> held s1 = [] \<and>
           start s1 = start s + Suc (length (held s)))"
      using law st Push Cons.prems(2) by auto
    have "start s1 + length (held s1) + length (pushed cmds) \<le> u64_max"
      using l(3) Cons.prems(2) Push by (cases res) auto
    note IH = Cons.IH [OF l(1) this rest]
    show ?thesis
    proof (cases res)
      case None
      then show ?thesis using IH l bs Push by simp
    next
      case (Some b)
      then show ?thesis using IH l bs Push new [of "held s @ [r]" "start s" b] by simp
    qed
  next
    case Flush
    have l: "invar s1" "stream s1 = stream s" "held s1 = []" "start s1 = start s + length (held s)"
      "(case res of None \<Rightarrow> held s = [] | Some b \<Rightarrow> batch_of (stream s) (start s) (held s) b)"
      using flush_law [OF Cons.prems(1), of res s1] st Flush Cons.prems(2) by auto
    have "start s1 + length (held s1) + length (pushed cmds) \<le> u64_max"
      using l Cons.prems(2) Flush by simp
    note IH = Cons.IH [OF l(1) this rest]
    show ?thesis
    proof (cases res)
      case None
      then show ?thesis using IH l bs Flush by simp
    next
      case (Some b)
      then have "held s \<noteq> []" using l(5) by (auto simp: batch_of_def)
      then show ?thesis using IH l bs Flush Some new [of "held s" "start s" b] by simp
    qed
  qed
qed simp

end

text \<open>A batch of the contract passes the ingest's check of its range.\<close>

lemma batch_of_accepted:
  assumes "batch_of stream n rs b" and "n + length rs \<le> u64_max"
  shows "rb_records b \<noteq> [] \<and> source_batch_count b = Some (length (rb_records b))"
proof -
  obtain k where "length rs = Suc k" using assms(1) by (cases rs) (auto simp: batch_of_def)
  then show ?thesis using assms by (auto simp: batch_of_def source_batch_count_def)
qed

lemma continuous_le: "continuous stream n bs m \<Longrightarrow> n \<le> m"
  by (induction bs arbitrary: n) (force simp: batch_of_def)+

lemma continuous_accepted:
  "continuous stream n bs m \<Longrightarrow> m \<le> u64_max \<Longrightarrow> b \<in> set bs \<Longrightarrow>
     rb_records b \<noteq> [] \<and> source_batch_count b = Some (length (rb_records b))"
proof (induction bs arbitrary: n)
  case (Cons c bs)
  have c: "batch_of stream n (rb_records c) c" "continuous stream (Suc (rb_last_sequence c)) bs m"
    using Cons.prems(1) by simp_all
  have "n + length (rb_records c) \<le> u64_max"
    using c(1) continuous_le [OF c(2)] Cons.prems(2) by (auto simp: batch_of_def)
  then show ?case using Cons.IH [OF c(2)] batch_of_accepted [OF c(1)] Cons.prems(2,3) by auto
qed simp

section \<open>The batcher of the IRC listener\<close>

record direct_irc_batcher =
  dib_source_id :: string
  dib_stream_id :: string
  dib_batch_messages :: nat
  dib_next_sequence :: nat
  dib_records :: "canonical_record list"

definition direct_batcher_new :: "string \<Rightarrow> string \<Rightarrow> nat \<Rightarrow> unit + direct_irc_batcher" where
  "direct_batcher_new src stream batch_messages =
     (if src = [] \<or> stream = [] \<or> batch_messages = 0 then Inl ()
      else Inr \<lparr>dib_source_id = src, dib_stream_id = stream, dib_batch_messages = batch_messages,
                dib_next_sequence = 1, dib_records = []\<rparr>)"

definition direct_flush :: "direct_irc_batcher \<Rightarrow> raw_source_batch option \<times> direct_irc_batcher" where
  "direct_flush self =
     (if dib_records self = [] then (None, self)
      else
        let first = dib_next_sequence self;
            last_sequence = u64_saturating_add first (length (dib_records self) - 1)
        in (Some \<lparr>rb_source_id = dib_source_id self, rb_stream_id = dib_stream_id self,
                  rb_first_sequence = first, rb_last_sequence = last_sequence, rb_records = dib_records self\<rparr>,
            self\<lparr>dib_records := [], dib_next_sequence := u64_saturating_add last_sequence 1\<rparr>))"

text \<open>\<open>push_raw\<close> after the line has been read.\<close>

definition direct_push :: "direct_irc_batcher \<Rightarrow> canonical_record \<Rightarrow> raw_source_batch option \<times> direct_irc_batcher" where
  "direct_push self r =
     (let self' = self\<lparr>dib_records := dib_records self @ [r]\<rparr>
      in if length (dib_records self') \<ge> dib_batch_messages self' then direct_flush self' else (None, self'))"

definition push_raw ::
    "(string \<Rightarrow> string + irc_message) \<Rightarrow> (bytes \<Rightarrow> bytes) \<Rightarrow> direct_irc_batcher \<Rightarrow> string \<Rightarrow> int
      \<Rightarrow> (raw_irc_error + raw_source_batch option) \<times> direct_irc_batcher" where
  "push_raw parse_message hash self raw received =
     (case canonicalize_raw_irc_from parse_message hash raw received (dib_source_id self) DirectIrc of
        Inl e \<Rightarrow> (Inl e, self)
      | Inr r \<Rightarrow> (case direct_push self r of (res, self') \<Rightarrow> (Inr res, self')))"

definition direct_ok :: "direct_irc_batcher \<Rightarrow> bool" where
  "direct_ok self \<longleftrightarrow> dib_batch_messages self \<noteq> 0"

interpretation direct: batcher direct_push direct_flush direct_ok
  "\<lambda>s. (dib_source_id s, dib_stream_id s)" dib_next_sequence dib_records
proof
  have flush: "direct_ok s' \<and> (dib_source_id s', dib_stream_id s') = (dib_source_id s, dib_stream_id s) \<and>
      dib_records s' = [] \<and> dib_next_sequence s' = dib_next_sequence s + length (dib_records s) \<and>
      (case res of None \<Rightarrow> dib_records s = []
       | Some b \<Rightarrow> batch_of (dib_source_id s, dib_stream_id s) (dib_next_sequence s) (dib_records s) b)"
    if "direct_ok s" "dib_next_sequence s + length (dib_records s) \<le> u64_max" "direct_flush s = (res, s')"
    for s res s'
  proof (cases "dib_records s")
    case Nil
    then show ?thesis using that by (auto simp: direct_flush_def)
  next
    case (Cons r rs)
    then show ?thesis
      using that by (auto simp: direct_flush_def direct_ok_def batch_of_def u64_saturating_add_def Let_def)
  qed
  show "direct_ok s' \<and> (dib_source_id s', dib_stream_id s') = (dib_source_id s, dib_stream_id s) \<and>
      dib_records s' = [] \<and> dib_next_sequence s' = dib_next_sequence s + length (dib_records s) \<and>
      (case res of None \<Rightarrow> dib_records s = []
       | Some b \<Rightarrow> batch_of (dib_source_id s, dib_stream_id s) (dib_next_sequence s) (dib_records s) b)"
    if "direct_ok s" "dib_next_sequence s + length (dib_records s) \<le> u64_max" "direct_flush s = (res, s')"
    for s res s' using flush [OF that] .
  show "direct_ok s' \<and> (dib_source_id s', dib_stream_id s') = (dib_source_id s, dib_stream_id s) \<and>
      (case res of None \<Rightarrow> dib_records s' = dib_records s @ [r] \<and> dib_next_sequence s' = dib_next_sequence s
       | Some b \<Rightarrow> batch_of (dib_source_id s, dib_stream_id s) (dib_next_sequence s) (dib_records s @ [r]) b \<and>
           dib_records s' = [] \<and> dib_next_sequence s' = dib_next_sequence s + Suc (length (dib_records s)))"
    if "direct_ok s" "dib_next_sequence s + length (dib_records s) + 1 \<le> u64_max" "direct_push s r = (res, s')"
    for s r res s'
  proof (cases "length (dib_records s) + 1 \<ge> dib_batch_messages s")
    case False
    then show ?thesis using that by (auto simp: direct_push_def direct_ok_def)
  next
    case True
    let ?s = "s\<lparr>dib_records := dib_records s @ [r]\<rparr>"
    have "direct_flush ?s = (res, s')" using that(3) True by (simp add: direct_push_def)
    from flush [of ?s, OF _ _ this] show ?thesis
      using that(1,2) by (cases res) (auto simp: direct_ok_def)
  qed
qed

section \<open>The batcher of a raw firehose\<close>

record raw_batcher =
  wb_placement :: "cache_placement option"
  wb_source_id :: string
  wb_stream_id :: string
  wb_batch_messages :: nat
  wb_next_sequence :: nat
  wb_first_sequence :: nat
  wb_records :: "canonical_record list"

definition raw_batcher_new :: "string \<Rightarrow> string \<Rightarrow> nat \<Rightarrow> raw_batcher" where
  "raw_batcher_new src stream batch_messages =
     \<lparr>wb_placement = None, wb_source_id = src, wb_stream_id = stream, wb_batch_messages = batch_messages,
      wb_next_sequence = 0, wb_first_sequence = 0, wb_records = []\<rparr>"

definition take_batch :: "raw_batcher \<Rightarrow> raw_source_batch \<times> raw_batcher" where
  "take_batch self =
     (\<lparr>rb_source_id = wb_source_id self, rb_stream_id = wb_stream_id self,
       rb_first_sequence = wb_first_sequence self, rb_last_sequence = u64_saturating_sub (wb_next_sequence self) 1,
       rb_records = wb_records self\<rparr>,
      self\<lparr>wb_records := []\<rparr>)"

definition raw_push :: "raw_batcher \<Rightarrow> canonical_record \<Rightarrow> raw_source_batch option \<times> raw_batcher" where
  "raw_push self r =
     (let self1 = (if wb_records self = [] then self\<lparr>wb_first_sequence := wb_next_sequence self\<rparr> else self);
          self2 = self1\<lparr>wb_records := wb_records self1 @ [r],
                        wb_next_sequence := u64_saturating_add (wb_next_sequence self1) 1\<rparr>
      in if length (wb_records self2) \<ge> wb_batch_messages self2
         then map_prod Some id (take_batch self2) else (None, self2))"

definition raw_flush :: "raw_batcher \<Rightarrow> raw_source_batch option \<times> raw_batcher" where
  "raw_flush self = (if wb_records self \<noteq> [] then map_prod Some id (take_batch self) else (None, self))"

definition raw_start :: "raw_batcher \<Rightarrow> nat" where
  "raw_start self = (if wb_records self = [] then wb_next_sequence self else wb_first_sequence self)"

definition raw_ok :: "raw_batcher \<Rightarrow> bool" where
  "raw_ok self \<longleftrightarrow> wb_next_sequence self = raw_start self + length (wb_records self)"

interpretation raw: batcher raw_push raw_flush raw_ok
  "\<lambda>s. (wb_source_id s, wb_stream_id s)" raw_start wb_records
proof
  show "raw_ok s' \<and> (wb_source_id s', wb_stream_id s') = (wb_source_id s, wb_stream_id s) \<and>
      wb_records s' = [] \<and> raw_start s' = raw_start s + length (wb_records s) \<and>
      (case res of None \<Rightarrow> wb_records s = []
       | Some b \<Rightarrow> batch_of (wb_source_id s, wb_stream_id s) (raw_start s) (wb_records s) b)"
    if "raw_ok s" "raw_start s + length (wb_records s) \<le> u64_max" "raw_flush s = (res, s')" for s res s'
    using that by (auto simp: raw_flush_def take_batch_def raw_ok_def raw_start_def batch_of_def
        u64_saturating_sub_def split: if_splits)
  show "raw_ok s' \<and> (wb_source_id s', wb_stream_id s') = (wb_source_id s, wb_stream_id s) \<and>
      (case res of None \<Rightarrow> wb_records s' = wb_records s @ [r] \<and> raw_start s' = raw_start s
       | Some b \<Rightarrow> batch_of (wb_source_id s, wb_stream_id s) (raw_start s) (wb_records s @ [r]) b \<and>
           wb_records s' = [] \<and> raw_start s' = raw_start s + Suc (length (wb_records s)))"
    if "raw_ok s" "raw_start s + length (wb_records s) + 1 \<le> u64_max" "raw_push s r = (res, s')" for s r res s'
    using that by (auto simp: raw_push_def take_batch_def raw_ok_def raw_start_def batch_of_def Let_def
        u64_saturating_add_def u64_saturating_sub_def split: if_splits)
qed

section \<open>Properties\<close>

text \<open>
  The IRC listener's batcher numbers what it takes in: over any pushes and flushes after its
  creation the batches it gives out continue each other from sequence number 1, their records and the
  ones still held are the records pushed, in order, and the ingest accepts the range of each.
\<close>
theorem direct_batches_continuous:
  assumes "direct_batcher_new src stream n = Inr s" and "length (pushed cmds) < u64_max"
    and "run_batcher direct_push direct_flush cmds s = (bs, s')"
  shows "continuous (src, stream) 1 bs (dib_next_sequence s') \<and>
    pushed cmds = concat (map rb_records bs) @ dib_records s' \<and>
    (\<forall>b \<in> set bs. rb_records b \<noteq> [] \<and> source_batch_count b = Some (length (rb_records b)))"
proof -
  have s: "direct_ok s" "dib_records s = []" "dib_next_sequence s = 1"
    "(dib_source_id s, dib_stream_id s) = (src, stream)"
    using assms(1) by (auto simp: direct_batcher_new_def direct_ok_def split: if_splits)
  have "dib_next_sequence s + length (dib_records s) + length (pushed cmds) \<le> u64_max"
    using s assms(2) by simp
  note r = direct.run_continuous [OF s(1) this assms(3)]
  have "continuous (src, stream) 1 bs (dib_next_sequence s')" using r unfolding s(3,4) by blast
  moreover have "dib_next_sequence s' + length (dib_records s') = 1 + length (pushed cmds)"
    using r s(2,3) by simp
  then have "dib_next_sequence s' \<le> u64_max" using assms(2) by linarith
  ultimately show ?thesis using r s(2) continuous_accepted by auto
qed

definition bat_record :: "u8 \<Rightarrow> canonical_record" where
  "bat_record k = \<lparr>channel_key = ''a'', event_at_ms = 1, received_at_ms = 1, event_key = [k],
     source_id = ''s'', fidelity = DirectIrc, raw_irc = []\<rparr>"

theorem direct_batches_continuous_witness:
  "\<exists>s bs s'. direct_batcher_new ''s'' ''t'' 2 = Inr s \<and>
    run_batcher direct_push direct_flush [Push (bat_record 1), Push (bat_record 2), Push (bat_record 3), Flush] s = (bs, s') \<and>
    continuous (''s'', ''t'') 1 bs (dib_next_sequence s') \<and> length bs = 2"
proof -
  let ?cmds = "[Push (bat_record 1), Push (bat_record 2), Push (bat_record 3), Flush]"
  obtain s where s: "direct_batcher_new ''s'' ''t'' 2 = Inr s"
    "s = \<lparr>dib_source_id = ''s'', dib_stream_id = ''t'', dib_batch_messages = 2, dib_next_sequence = 1, dib_records = []\<rparr>"
    by (simp add: direct_batcher_new_def)
  obtain bs s' where r: "run_batcher direct_push direct_flush ?cmds s = (bs, s')" by fastforce
  have "length (fst (run_batcher direct_push direct_flush ?cmds s)) = 2"
    unfolding s(2) by code_simp
  moreover have "length (pushed ?cmds) < u64_max" by (simp add: int_defs)
  ultimately show ?thesis
    using direct_batches_continuous [OF s(1) _ r] s(1) r by auto
qed

text \<open>
  The same for the batcher of a raw firehose, whose numbers start from 0 on every connection.
\<close>
theorem raw_batches_continuous:
  assumes "length (pushed cmds) \<le> u64_max"
    and "run_batcher raw_push raw_flush cmds (raw_batcher_new src stream n) = (bs, s')"
  shows "continuous (src, stream) 0 bs (raw_start s') \<and>
    pushed cmds = concat (map rb_records bs) @ wb_records s' \<and>
    (\<forall>b \<in> set bs. rb_records b \<noteq> [] \<and> source_batch_count b = Some (length (rb_records b)))"
proof -
  let ?s = "raw_batcher_new src stream n"
  have s: "raw_ok ?s" "wb_records ?s = []" "raw_start ?s = 0" "(wb_source_id ?s, wb_stream_id ?s) = (src, stream)"
    by (simp_all add: raw_batcher_new_def raw_ok_def raw_start_def)
  have "raw_start ?s + length (wb_records ?s) + length (pushed cmds) \<le> u64_max"
    using s assms(1) by simp
  note r = raw.run_continuous [OF s(1) this assms(2)]
  have "continuous (src, stream) 0 bs (raw_start s')" using r unfolding s(3,4) by blast
  moreover have "raw_start s' + length (wb_records s') = length (pushed cmds)" using r s(2,3) by simp
  then have "raw_start s' \<le> u64_max" using assms(1) by linarith
  ultimately show ?thesis using r s(2) continuous_accepted by auto
qed

theorem raw_batches_continuous_witness:
  "\<exists>bs s'. run_batcher raw_push raw_flush [Push (bat_record 1), Flush, Flush] (raw_batcher_new ''s'' ''t'' 2) = (bs, s') \<and>
    continuous (''s'', ''t'') 0 bs (raw_start s')"
proof -
  obtain bs s' where r: "run_batcher raw_push raw_flush [Push (bat_record 1), Flush, Flush]
      (raw_batcher_new ''s'' ''t'' 2) = (bs, s')" by fastforce
  have "length (pushed [Push (bat_record 1), Flush, Flush]) \<le> u64_max" by (simp add: int_defs)
  then show ?thesis using raw_batches_continuous [OF _ r] r by blast
qed

end
