(* ===== verification/RawFirehose.thy ===== *)
theory RawFirehose
  imports Batcher
begin

text \<open>
  A raw firehose source, \<^verbatim>\<open>src/storage/raw_firehose.rs\<close>: a WebSocket connection whose text
  frames are read line by line, canonicalized, filtered by the cache placement, batched and sent to
  the ingest queue, and the loop that reconnects with a bounded backoff. The socket is a list of
  events, the queue's receiver may go away after any number of batches. Strings are UTF-8 bytes.
  Durations are nanoseconds.
\<close>

section \<open>Lines of a frame\<close>

text \<open>\<open>char::is_whitespace\<close> in UTF-8, as suffixes.\<close>

definition is_ascii_space :: "char \<Rightarrow> bool" where
  "is_ascii_space c \<longleftrightarrow> (let n = of_char c :: nat in 9 \<le> n \<and> n \<le> 13 \<or> n = 32)"

definition wide_spaces :: "string list" where
  "wide_spaces =
     [[CHR 0xC2, CHR 0x85], [CHR 0xC2, CHR 0xA0], [CHR 0xE1, CHR 0x9A, CHR 0x80]] @
     map (\<lambda>n. [CHR 0xE2, CHR 0x80, char_of (n :: nat)]) [0x80, 0x81, 0x82, 0x83, 0x84, 0x85, 0x86, 0x87, 0x88,
       0x89, 0x8A, 0xA8, 0xA9, 0xAF] @
     [[CHR 0xE2, CHR 0x81, CHR 0x9F], [CHR 0xE3, CHR 0x80, CHR 0x80]]"

definition space_length :: "string \<Rightarrow> nat" where
  "space_length rs =
     (case rs of [] \<Rightarrow> 0
      | c # _ \<Rightarrow> if is_ascii_space c then 1
                else case find (\<lambda>w. take (length w) rs = rev w) wide_spaces of None \<Rightarrow> 0 | Some w \<Rightarrow> length w)"

text \<open>On the reversed string.\<close>

function drop_spaces :: "string \<Rightarrow> string" where
  "drop_spaces rs = (if rs = [] \<or> space_length rs = 0 then rs else drop_spaces (drop (space_length rs) rs))"
  by pat_completeness auto
termination by (relation "measure length") auto

declare drop_spaces.simps [simp del]

definition trim_end :: "string \<Rightarrow> string" where
  "trim_end s = rev (drop_spaces (rev s))"

text \<open>\<open>str::lines\<close>: a line ends at a newline, with a carriage return before it dropped.\<close>

definition strip_cr :: "string \<Rightarrow> string" where
  "strip_cr line = (if line \<noteq> [] \<and> last line = CHR 0x0D then butlast line else line)"

function text_lines :: "string \<Rightarrow> string list" where
  "text_lines s =
     (if s = [] then []
      else case dropWhile (\<lambda>c. c \<noteq> CHR 0x0A) s of
             [] \<Rightarrow> [s]
           | _ # rest \<Rightarrow> strip_cr (takeWhile (\<lambda>c. c \<noteq> CHR 0x0A) s) # text_lines rest)"
  by pat_completeness auto
termination
proof (relation "measure length")
  fix s and x :: char and rest :: string
  assume "s \<noteq> []" "dropWhile (\<lambda>c. c \<noteq> CHR 0x0A) s = x # rest"
  then show "(rest, s) \<in> measure length"
    using length_dropWhile_le [of "\<lambda>c. c \<noteq> CHR 0x0A" s] by simp
qed simp

declare text_lines.simps [simp del]

text \<open>\<open>std::str::from_utf8\<close> on a binary frame.\<close>

definition continuation :: "u8 \<Rightarrow> bool" where
  "continuation b \<longleftrightarrow> 0x80 \<le> b \<and> b \<le> 0xBF"

fun valid_utf8 :: "bytes \<Rightarrow> bool" where
  "valid_utf8 [] = True"
| "valid_utf8 (a # bs) =
     (if a < 0x80 then valid_utf8 bs
      else case bs of
        [] \<Rightarrow> False
      | b # bs2 \<Rightarrow>
          if 0xC2 \<le> a \<and> a \<le> 0xDF then continuation b \<and> valid_utf8 bs2
          else case bs2 of
            [] \<Rightarrow> False
          | c # bs3 \<Rightarrow>
              if 0xE0 \<le> a \<and> a \<le> 0xEF
              then continuation b \<and> continuation c \<and> (a = 0xE0 \<longrightarrow> 0xA0 \<le> b) \<and> (a = 0xED \<longrightarrow> b \<le> 0x9F) \<and> valid_utf8 bs3
              else case bs3 of
                [] \<Rightarrow> False
              | d # bs4 \<Rightarrow>
                  0xF0 \<le> a \<and> a \<le> 0xF4 \<and> continuation b \<and> continuation c \<and> continuation d \<and>
                  (a = 0xF0 \<longrightarrow> 0x90 \<le> b) \<and> (a = 0xF4 \<longrightarrow> b \<le> 0x8F) \<and> valid_utf8 bs4)"

definition from_utf8 :: "bytes \<Rightarrow> string option" where
  "from_utf8 bs = (if valid_utf8 bs then Some (map (\<lambda>b. char_of (unat b)) bs) else None)"

section \<open>The source\<close>

record raw_firehose_config =
  fc_source_id :: string
  fc_url :: string
  fc_origin :: string
  fc_batch_messages :: nat
  fc_batch_max_delay :: nat
  reconnect_min_delay :: nat
  reconnect_max_delay :: nat

datatype raw_firehose_error =
    InvalidFirehose string
  | Connection string
  | OutputClosed

record raw_firehose_source =
  rf_config :: raw_firehose_config
  rf_placement :: "cache_placement option"

definition raw_firehose_new :: "raw_firehose_config \<Rightarrow> raw_firehose_error + raw_firehose_source" where
  "raw_firehose_new c =
     (if fc_source_id c = [] \<or> fc_url c = [] \<or> fc_batch_messages c = 0 \<or> fc_batch_max_delay c = 0 \<or>
         reconnect_min_delay c = 0 \<or> reconnect_max_delay c < reconnect_min_delay c
      then Inl (InvalidFirehose ''IDs, URL, batch bounds, and reconnect bounds must be valid'')
      else Inr \<lparr>rf_config = c, rf_placement = None\<rparr>)"

definition with_placement :: "cache_placement option \<Rightarrow> raw_firehose_source \<Rightarrow> raw_firehose_source" where
  "with_placement p self = self\<lparr>rf_placement := p\<rparr>"

text \<open>The bounded queue to the ingest; \<open>iq_taken\<close> is what its receiver accepts before it goes away.\<close>

record ingest_queue =
  iq_sent :: "raw_source_batch list"
  iq_taken :: "nat option"

definition send_if_some ::
    "raw_source_batch option \<Rightarrow> ingest_queue \<Rightarrow> (raw_firehose_error + unit) \<times> ingest_queue" where
  "send_if_some batch q =
     (case batch of
        None \<Rightarrow> (Inr (), q)
      | Some b \<Rightarrow>
          (case iq_taken q of
             Some n \<Rightarrow> if length (iq_sent q) \<ge> n then (Inl OutputClosed, q)
                       else (Inr (), q\<lparr>iq_sent := iq_sent q @ [b]\<rparr>)
           | None \<Rightarrow> (Inr (), q\<lparr>iq_sent := iq_sent q @ [b]\<rparr>)))"

text \<open>The IRC parser and the hashes are parameters.\<close>

record firehose_env =
  fe_parse :: "string \<Rightarrow> string + irc_message"
  fe_hash :: "bytes \<Rightarrow> bytes"
  fe_owner_hash :: "bytes \<Rightarrow> bytes"

definition not_owner :: "firehose_env \<Rightarrow> raw_batcher \<Rightarrow> canonical_record \<Rightarrow> bool" where
  "not_owner env b r \<longleftrightarrow>
     (case wb_placement b of None \<Rightarrow> False | Some p \<Rightarrow> \<not> retains (fe_owner_hash env) p (channel_key r))"

fun accept_each ::
    "firehose_env \<Rightarrow> int \<Rightarrow> string list \<Rightarrow> raw_batcher \<times> ingest_queue
      \<Rightarrow> (raw_firehose_error + unit) \<times> raw_batcher \<times> ingest_queue" where
  "accept_each env now [] (b, q) = (Inr (), b, q)"
| "accept_each env now (line # lines) (b, q) =
     (case canonicalize_raw_irc_from (fe_parse env) (fe_hash env) line now (wb_source_id b) Reconstructed of
        Inl e \<Rightarrow> accept_each env now lines (b, q)
      | Inr r \<Rightarrow>
          if not_owner env b r then accept_each env now lines (b, q)
          else case raw_push b r of (batch, b') \<Rightarrow>
            (case send_if_some batch q of
               (Inl e, q') \<Rightarrow> (Inl e, b', q')
             | (Inr _, q') \<Rightarrow> accept_each env now lines (b', q')))"

definition accept_lines ::
    "firehose_env \<Rightarrow> nat \<Rightarrow> string \<Rightarrow> raw_batcher \<times> ingest_queue
      \<Rightarrow> (raw_firehose_error + unit) \<times> raw_batcher \<times> ingest_queue" where
  "accept_lines env now text st =
     accept_each env (i64_try_from_or_max now) (filter (\<lambda>line. line \<noteq> []) (map trim_end (text_lines text))) st"

definition send_flush :: "raw_batcher \<times> ingest_queue \<Rightarrow> (raw_firehose_error + unit) \<times> raw_batcher \<times> ingest_queue" where
  "send_flush st = (case st of (b, q) \<Rightarrow> case raw_flush b of (batch, b') \<Rightarrow>
     case send_if_some batch q of (res, q') \<Rightarrow> (res, b', q'))"

section \<open>A connection\<close>

text \<open>What \<open>tokio::select!\<close> delivers; a ping comes with whether the pong could be sent.\<close>

datatype firehose_event =
    Cancelled
  | FlushTick
  | TextFrame nat string
  | BinaryFrame nat bytes
  | PingFrame bool
  | ClosedFrame
  | OtherFrame

text \<open>\<open>None\<close>: the connection is still open after these events.\<close>

fun connection_loop ::
    "firehose_env \<Rightarrow> firehose_event list \<Rightarrow> raw_batcher \<times> ingest_queue
      \<Rightarrow> (raw_firehose_error + unit) option \<times> raw_batcher \<times> ingest_queue" where
  "connection_loop env [] st = (None, st)"
| "connection_loop env (e # es) st =
     (let continue = (\<lambda>m. case m of (Inl err, st') \<Rightarrow> (Some (Inl err), st')
                                  | (Inr _, st') \<Rightarrow> connection_loop env es st');
          finish = (\<lambda>m. case m of (res, st') \<Rightarrow> (Some res, st'))
      in case e of
           Cancelled \<Rightarrow> finish (send_flush st)
         | FlushTick \<Rightarrow> continue (send_flush st)
         | TextFrame now text \<Rightarrow> continue (accept_lines env now text st)
         | BinaryFrame now bs \<Rightarrow>
             (case from_utf8 bs of None \<Rightarrow> connection_loop env es st
              | Some text \<Rightarrow> continue (accept_lines env now text st))
         | PingFrame sent \<Rightarrow> if sent then connection_loop env es st else finish (send_flush st)
         | ClosedFrame \<Rightarrow> finish (send_flush st)
         | OtherFrame \<Rightarrow> connection_loop env es st)"

text \<open>The handshake's outcome, and the times it was made, are read from outside.\<close>

definition run_connection ::
    "firehose_env \<Rightarrow> raw_firehose_source \<Rightarrow> nat \<Rightarrow> raw_firehose_error + nat \<Rightarrow> firehose_event list \<Rightarrow> ingest_queue
      \<Rightarrow> (raw_firehose_error + unit) option \<times> ingest_queue" where
  "run_connection env self generation handshake events q =
     (case handshake of
        Inl e \<Rightarrow> (Some (Inl e), q)
      | Inr connected_at \<Rightarrow>
          let src = fc_source_id (rf_config self);
              stream = src @ ''-'' @ show_nat connected_at @ ''-'' @ show_nat generation;
              b = (raw_batcher_new src stream (fc_batch_messages (rf_config self)))\<lparr>wb_placement := rf_placement self\<rparr>
          in case connection_loop env events (b, q) of (res, b', q') \<Rightarrow> (res, q'))"

section \<open>Reconnecting\<close>

definition duration_max :: nat where
  "duration_max = u64_max * 1000000000 + 999999999"

definition next_backoff :: "raw_firehose_config \<Rightarrow> nat \<Rightarrow> nat \<Rightarrow> nat" where
  "next_backoff c elapsed backoff =
     (if elapsed \<ge> 30 * 1000000000 then reconnect_min_delay c
      else min (min (backoff * 2) duration_max) (reconnect_max_delay c))"

text \<open>
  One round of the loop: whether the source was cancelled before it, the connection, its duration,
  whether it was cancelled when the connection ended, and whether it was during the sleep.
\<close>

record firehose_round =
  fr_cancelled_before :: bool
  fr_handshake :: "raw_firehose_error + nat"
  fr_events :: "firehose_event list"
  fr_elapsed :: nat
  fr_cancelled_after :: bool
  fr_cancelled_asleep :: bool

fun firehose_loop ::
    "firehose_env \<Rightarrow> raw_firehose_source \<Rightarrow> firehose_round list \<Rightarrow> nat \<Rightarrow> nat \<Rightarrow> ingest_queue
      \<Rightarrow> (raw_firehose_error + unit) option \<times> nat list \<times> ingest_queue" where
  "firehose_loop env self [] generation backoff q = (None, [], q)"
| "firehose_loop env self (x # xs) generation backoff q =
     (if fr_cancelled_before x then (Some (Inr ()), [], q)
      else
        let generation' = u64_saturating_add generation 1
        in case run_connection env self generation' (fr_handshake x) (fr_events x) q of
             (None, q') \<Rightarrow> (None, [], q')
           | (Some res, q') \<Rightarrow>
               if res = Inr () \<and> fr_cancelled_after x then (Some (Inr ()), [], q')
               else if res = Inl OutputClosed then (Some (Inl OutputClosed), [], q')
               else
                 let backoff' = next_backoff (rf_config self) (fr_elapsed x) backoff
                 in if fr_cancelled_asleep x then (Some (Inr ()), [backoff'], q')
                    else case firehose_loop env self xs generation' backoff' q' of
                           (out, sleeps, q'') \<Rightarrow> (out, backoff' # sleeps, q''))"

definition firehose_run ::
    "firehose_env \<Rightarrow> raw_firehose_source \<Rightarrow> firehose_round list \<Rightarrow> ingest_queue
      \<Rightarrow> (raw_firehose_error + unit) option \<times> nat list \<times> ingest_queue" where
  "firehose_run env self rounds q = firehose_loop env self rounds 0 (reconnect_min_delay (rf_config self)) q"

section \<open>What a connection delivers\<close>

text \<open>The records of a line, a frame and a connection, read off the events.\<close>

definition line_record ::
    "firehose_env \<Rightarrow> cache_placement option \<Rightarrow> string \<Rightarrow> int \<Rightarrow> string \<Rightarrow> canonical_record option" where
  "line_record env placement src now line =
     (case canonicalize_raw_irc_from (fe_parse env) (fe_hash env) line now src Reconstructed of
        Inl e \<Rightarrow> None
      | Inr r \<Rightarrow>
          (case placement of None \<Rightarrow> Some r
           | Some p \<Rightarrow> if retains (fe_owner_hash env) p (channel_key r) then Some r else None))"

definition text_records ::
    "firehose_env \<Rightarrow> cache_placement option \<Rightarrow> string \<Rightarrow> nat \<Rightarrow> string \<Rightarrow> canonical_record list" where
  "text_records env placement src now text =
     List.map_filter (line_record env placement src (i64_try_from_or_max now))
       (filter (\<lambda>line. line \<noteq> []) (map trim_end (text_lines text)))"

fun event_records ::
    "firehose_env \<Rightarrow> cache_placement option \<Rightarrow> string \<Rightarrow> firehose_event \<Rightarrow> canonical_record list" where
  "event_records env placement src (TextFrame now text) = text_records env placement src now text"
| "event_records env placement src (BinaryFrame now bs) =
     (case from_utf8 bs of None \<Rightarrow> [] | Some text \<Rightarrow> text_records env placement src now text)"
| "event_records env placement src e = []"

fun ends_connection :: "firehose_event \<Rightarrow> bool" where
  "ends_connection Cancelled = True"
| "ends_connection ClosedFrame = True"
| "ends_connection (PingFrame sent) = (\<not> sent)"
| "ends_connection e = False"

definition received_records ::
    "firehose_env \<Rightarrow> cache_placement option \<Rightarrow> string \<Rightarrow> firehose_event list \<Rightarrow> canonical_record list" where
  "received_records env placement src events =
     concat (map (event_records env placement src) (takeWhile (\<lambda>e. \<not> ends_connection e) events))"

lemma continuous_length:
  "continuous stream n bs m \<Longrightarrow> m = n + length (concat (map rb_records bs))"
proof (induction bs arbitrary: n)
  case (Cons b bs)
  obtain k where "length (rb_records b) = Suc k"
    using Cons.prems by (cases "rb_records b") (auto simp: batch_of_def)
  then show ?case using Cons.prems Cons.IH [of "Suc (rb_last_sequence b)"] by (auto simp: batch_of_def)
qed simp

lemma continuous_snoc:
  "continuous stream n bs k \<Longrightarrow> batch_of stream k rs b \<Longrightarrow> continuous stream n (bs @ [b]) (k + length rs)"
  by (induction bs arbitrary: n) (auto simp: batch_of_def neq_Nil_conv)

text \<open>The state after the records \<open>taken\<close> have come in: sent in continuous batches, or held.\<close>

definition delivered ::
    "raw_source_batch list \<Rightarrow> string \<times> string \<Rightarrow> cache_placement option \<Rightarrow> canonical_record list
      \<Rightarrow> raw_batcher \<times> ingest_queue \<Rightarrow> bool" where
  "delivered sent0 stream placement taken st \<longleftrightarrow>
     raw_ok (fst st) \<and> (wb_source_id (fst st), wb_stream_id (fst st)) = stream \<and>
     wb_placement (fst st) = placement \<and>
     (\<exists>bs. iq_sent (snd st) = sent0 @ bs \<and> continuous stream 0 bs (raw_start (fst st)) \<and>
        taken = concat (map rb_records bs) @ wb_records (fst st))"

lemma raw_push_placement: "raw_push b r = (batch, b') \<Longrightarrow> wb_placement b' = wb_placement b"
  by (auto simp: raw_push_def take_batch_def Let_def split: if_splits)

lemma raw_flush_placement: "raw_flush b = (batch, b') \<Longrightarrow> wb_placement b' = wb_placement b"
  by (auto simp: raw_flush_def take_batch_def split: if_splits)

lemma send_ok:
  "send_if_some batch q = (Inr u, q') \<Longrightarrow>
     iq_sent q' = iq_sent q @ (case batch of None \<Rightarrow> [] | Some b \<Rightarrow> [b]) \<and> iq_taken q' = iq_taken q"
  by (auto simp: send_if_some_def split: option.splits if_splits)

lemma send_error: "send_if_some batch q = (Inl e, q') \<Longrightarrow> e = OutputClosed \<and> q' = q \<and> iq_taken q \<noteq> None"
  by (auto simp: send_if_some_def split: option.splits if_splits)

lemma delivered_start:
  assumes "delivered sent0 stream placement taken st"
  shows "raw_start (fst st) + length (wb_records (fst st)) = length taken"
proof -
  obtain bs where "continuous stream 0 bs (raw_start (fst st))"
    "taken = concat (map rb_records bs) @ wb_records (fst st)"
    using assms by (auto simp: delivered_def)
  then show ?thesis using continuous_length [of stream 0 bs "raw_start (fst st)"] by simp
qed

lemma delivered_push:
  assumes d: "delivered sent0 stream placement taken (b, q)" and "length taken < u64_max"
    and p: "raw_push b r = (batch, b')" and send: "send_if_some batch q = (Inr u, q')"
  shows "delivered sent0 stream placement (taken @ [r]) (b', q')"
proof -
  obtain bs where bs: "iq_sent q = sent0 @ bs" "continuous stream 0 bs (raw_start b)"
    "taken = concat (map rb_records bs) @ wb_records b"
    using d by (auto simp: delivered_def)
  have b: "raw_ok b" "(wb_source_id b, wb_stream_id b) = stream" "wb_placement b = placement"
    using d by (auto simp: delivered_def)
  have "raw_start b + length (wb_records b) + 1 \<le> u64_max"
    using delivered_start [OF d] assms(2) by simp
  note law = raw.push_law [OF b(1) this p]
  show ?thesis
  proof (cases batch)
    case None
    then show ?thesis
      using law bs b send_ok [OF send] raw_push_placement [OF p] by (auto simp: delivered_def)
  next
    case (Some x)
    have bo: "batch_of stream (raw_start b) (wb_records b @ [r]) x" using law Some b(2) by simp
    have "continuous stream 0 (bs @ [x]) (raw_start b')"
      using continuous_snoc [OF bs(2) bo] law Some by simp
    moreover have "rb_records x = wb_records b @ [r]" using bo by (simp add: batch_of_def)
    ultimately show ?thesis
      using law bs b send_ok [OF send] raw_push_placement [OF p] Some
      by (auto simp: delivered_def intro!: exI [of _ "bs @ [x]"])
  qed
qed

lemma delivered_flush:
  assumes d: "delivered sent0 stream placement taken (b, q)" and "length taken \<le> u64_max"
    and p: "raw_flush b = (batch, b')" and send: "send_if_some batch q = (Inr u, q')"
  shows "delivered sent0 stream placement taken (b', q') \<and> wb_records b' = []"
proof -
  obtain bs where bs: "iq_sent q = sent0 @ bs" "continuous stream 0 bs (raw_start b)"
    "taken = concat (map rb_records bs) @ wb_records b"
    using d by (auto simp: delivered_def)
  have b: "raw_ok b" "(wb_source_id b, wb_stream_id b) = stream" "wb_placement b = placement"
    using d by (auto simp: delivered_def)
  have "raw_start b + length (wb_records b) \<le> u64_max"
    using delivered_start [OF d] assms(2) by simp
  note law = raw.flush_law [OF b(1) this p]
  show ?thesis
  proof (cases batch)
    case None
    then show ?thesis
      using law bs b send_ok [OF send] raw_flush_placement [OF p] by (auto simp: delivered_def)
  next
    case (Some x)
    have bo: "batch_of stream (raw_start b) (wb_records b) x" using law Some b(2) by simp
    have "continuous stream 0 (bs @ [x]) (raw_start b')"
      using continuous_snoc [OF bs(2) bo] law Some by simp
    moreover have "rb_records x = wb_records b" using bo by (simp add: batch_of_def)
    ultimately show ?thesis
      using law bs b send_ok [OF send] raw_flush_placement [OF p] Some
      by (auto simp: delivered_def intro!: exI [of _ "bs @ [x]"])
  qed
qed

lemma delivered_lines:
  assumes "delivered sent0 (src, stream) placement taken (b, q)"
    and "length taken + length (List.map_filter (line_record env placement src now) lines) \<le> u64_max"
    and "accept_each env now lines (b, q) = (res, st')"
  shows "(case res of Inl e \<Rightarrow> e = OutputClosed \<and> iq_taken q \<noteq> None
    | Inr u \<Rightarrow> delivered sent0 (src, stream) placement
        (taken @ List.map_filter (line_record env placement src now) lines) st' \<and>
      iq_taken (snd st') = iq_taken q)"
  using assms
proof (induction lines arbitrary: b q taken)
  case Nil
  then show ?case by (auto simp: map_filter_simps)
next
  case (Cons line lines)
  let ?mf = "List.map_filter (line_record env placement src now)"
  have ids: "wb_source_id b = src" "wb_placement b = placement"
    using Cons.prems(1) by (auto simp: delivered_def)
  show ?case
  proof (cases "line_record env placement src now line")
    case None
    then have "accept_each env now (line # lines) (b, q) = accept_each env now lines (b, q)"
      using ids by (auto simp: line_record_def not_owner_def split: sum.splits option.splits if_splits)
    then show ?thesis
      using Cons.IH [OF Cons.prems(1)] Cons.prems(2,3) None
      by (cases res) (simp_all add: map_filter_simps)
  next
    case (Some r)
    then have r: "canonicalize_raw_irc_from (fe_parse env) (fe_hash env) line now src Reconstructed = Inr r"
      "\<not> not_owner env b r"
      using ids by (auto simp: line_record_def not_owner_def split: sum.splits option.splits if_splits)
    obtain batch b' where p: "raw_push b r = (batch, b')" by fastforce
    obtain out q' where s: "send_if_some batch q = (out, q')" by fastforce
    show ?thesis
    proof (cases out)
      case (Inl e)
      then show ?thesis
        using send_error [OF s [unfolded Inl]] Cons.prems(3) r ids p s by auto
    next
      case (Inr u)
      have step: "accept_each env now lines (b', q') = (res, st')"
        using Cons.prems(3) r ids p s Inr by simp
      have len: "length taken + 1 + length (?mf lines) \<le> u64_max"
        using Cons.prems(2) Some by (simp add: map_filter_simps)
      have d: "delivered sent0 (src, stream) placement (taken @ [r]) (b', q')"
        by (rule delivered_push [OF Cons.prems(1) _ p s [unfolded Inr]]) (use len in simp)
      show ?thesis
        using Cons.IH [OF d _ step] len Some send_ok [OF s [unfolded Inr]]
        by (cases res) (simp_all add: map_filter_simps)
    qed
  qed
qed

lemma delivered_text:
  assumes "delivered sent0 (src, stream) placement taken st"
    and "length taken + length (text_records env placement src now text) \<le> u64_max"
    and "accept_lines env now text st = (res, st')"
  shows "(case res of Inl e \<Rightarrow> e = OutputClosed \<and> iq_taken (snd st) \<noteq> None
    | Inr u \<Rightarrow> delivered sent0 (src, stream) placement (taken @ text_records env placement src now text) st' \<and>
      iq_taken (snd st') = iq_taken (snd st))"
proof -
  let ?lines = "filter (\<lambda>line. line \<noteq> []) (map trim_end (text_lines text))"
  have "accept_each env (i64_try_from_or_max now) ?lines (fst st, snd st) = (res, st')"
    using assms(3) by (simp add: accept_lines_def)
  note d = delivered_lines [OF _ _ this, of sent0 src stream placement taken]
  have "delivered sent0 (src, stream) placement taken (fst st, snd st)" using assms(1) by simp
  moreover have "length taken + length (List.map_filter
      (line_record env placement src (i64_try_from_or_max now)) ?lines) \<le> u64_max"
    using assms(2) by (simp add: text_records_def)
  ultimately show ?thesis using d by (cases res) (simp_all add: text_records_def)
qed

lemma delivered_send_flush:
  assumes d: "delivered sent0 stream placement taken st" and "length taken \<le> u64_max"
    and f: "send_flush st = (res, st')"
  shows "(case res of Inl e \<Rightarrow> e = OutputClosed \<and> iq_taken (snd st) \<noteq> None
    | Inr u \<Rightarrow> delivered sent0 stream placement taken st' \<and> wb_records (fst st') = [] \<and>
        iq_taken (snd st') = iq_taken (snd st))"
proof -
  obtain b q where st: "st = (b, q)" by fastforce
  obtain batch b' where p: "raw_flush b = (batch, b')" by fastforce
  obtain out q' where s: "send_if_some batch q = (out, q')" by fastforce
  have r: "res = out" "st' = (b', q')" using f p s st by (simp_all add: send_flush_def)
  show ?thesis
  proof (cases out)
    case (Inl e)
    then show ?thesis using send_error [OF s [unfolded Inl]] r st by simp
  next
    case (Inr u)
    then show ?thesis
      using delivered_flush [OF d [unfolded st] assms(2) p s [unfolded Inr]] send_ok [OF s [unfolded Inr]] r st
      by simp
  qed
qed

lemma received_Cons:
  "received_records env placement src (e # es) =
     (if ends_connection e then [] else event_records env placement src e @ received_records env placement src es)"
  by (simp add: received_records_def)

lemma connection_loop_delivers:
  assumes "delivered sent0 (src, stream) placement taken st"
    and "length taken + length (received_records env placement src events) \<le> u64_max"
    and "connection_loop env events st = (res, st')"
  shows "(case res of
      Some (Inl e) \<Rightarrow> e = OutputClosed \<and> iq_taken (snd st) \<noteq> None
    | Some (Inr u) \<Rightarrow> delivered sent0 (src, stream) placement (taken @ received_records env placement src events) st' \<and>
        wb_records (fst st') = []
    | None \<Rightarrow> delivered sent0 (src, stream) placement (taken @ received_records env placement src events) st')"
  using assms
proof (induction events arbitrary: st taken)
  case Nil
  then show ?case by (auto simp: received_records_def)
next
  case (Cons e es)
  let ?rest = "received_records env placement src es"
  show ?case
  proof (cases "ends_connection e")
    case True
    obtain out st1 where f: "send_flush st = (out, st1)" by (metis surj_pair)
    have "connection_loop env (e # es) st = (Some out, st1)"
      using True f by (cases e) auto
    moreover have "length taken \<le> u64_max" using Cons.prems(2) by simp
    ultimately show ?thesis
      using delivered_send_flush [OF Cons.prems(1) _ f] Cons.prems(3) True
      by (auto simp: received_Cons split: sum.splits)
  next
    case False
    have flush: ?thesis if "e = FlushTick"
    proof -
      obtain out st1 where f: "send_flush st = (out, st1)" by (metis surj_pair)
      have l: "length taken \<le> u64_max" using Cons.prems(2) by simp
      note d = delivered_send_flush [OF Cons.prems(1) l f]
      show ?thesis
      proof (cases out)
        case (Inl err)
        then have "res = Some (Inl err)" using that f Cons.prems(3) by simp
        then show ?thesis using d Inl by simp
      next
        case (Inr u)
        have eq: "received_records env placement src (e # es) = ?rest" using that by (simp add: received_Cons)
        have s: "connection_loop env es st1 = (res, st')" using that f Inr Cons.prems(3) by simp
        have d1: "delivered sent0 (src, stream) placement taken st1" "iq_taken (snd st1) = iq_taken (snd st)"
          using d Inr by simp_all
        show ?thesis
          using Cons.IH [OF d1(1) _ s] Cons.prems(2) unfolding eq d1(2) append_assoc by simp
      qed
    qed
    have frame: ?thesis
      if ev: "event_records env placement src e = text_records env placement src now t"
        and step: "connection_loop env (e # es) st = (case accept_lines env now t st of
          (Inl err, st') \<Rightarrow> (Some (Inl err), st') | (Inr _, st') \<Rightarrow> connection_loop env es st')" for now t
    proof -
      obtain out st1 where a: "accept_lines env now t st = (out, st1)" by (metis surj_pair)
      have l: "length taken + length (text_records env placement src now t) \<le> u64_max"
        using Cons.prems(2) False ev by (simp add: received_Cons)
      note d = delivered_text [OF Cons.prems(1) l a]
      show ?thesis
      proof (cases out)
        case (Inl err)
        then have "res = Some (Inl err)" using step a Cons.prems(3) by simp
        then show ?thesis using d Inl by simp
      next
        case (Inr u)
        have eq: "received_records env placement src (e # es) = text_records env placement src now t @ ?rest"
          using False ev by (simp add: received_Cons)
        have s: "connection_loop env es st1 = (res, st')" using step a Inr Cons.prems(3) by simp
        have d1: "delivered sent0 (src, stream) placement (taken @ text_records env placement src now t) st1"
          "iq_taken (snd st1) = iq_taken (snd st)"
          using d Inr by simp_all
        show ?thesis
          using Cons.IH [OF d1(1) _ s] Cons.prems(2) unfolding eq d1(2) append_assoc by simp
      qed
    qed
    have skip: ?thesis if ev: "event_records env placement src e = []"
      and step: "connection_loop env (e # es) st = connection_loop env es st"
    proof -
      have eq: "received_records env placement src (e # es) = ?rest" using False ev by (simp add: received_Cons)
      show ?thesis using Cons.IH [OF Cons.prems(1)] Cons.prems(2,3) step unfolding eq by simp
    qed
    show ?thesis
    proof (cases e)
      case FlushTick
      then show ?thesis by (rule flush)
    next
      case (TextFrame now t)
      then show ?thesis by (intro frame [of now t]) (simp_all add: Let_def)
    next
      case (BinaryFrame now bs)
      then show ?thesis
        by (cases "from_utf8 bs") (intro skip, simp_all add: Let_def, intro frame [of now], simp_all add: Let_def)
    next
      case (PingFrame ok)
      then show ?thesis using False by (intro skip) simp_all
    next
      case OtherFrame
      then show ?thesis by (intro skip) simp_all
    qed (use False in simp_all)
  qed
qed

section \<open>Properties\<close>

text \<open>
  C27: A connection delivers what it receives. When it ends without an error, the batches it has added
  to the queue continue each other from sequence number 0 under the connection's own stream, and their
  records are exactly those of the frames up to its end: of every line of a text frame, or of a binary
  frame that is UTF-8, that is a retained message of a channel the placement owns, in order. It ends
  with an error after the handshake only when the queue's receiver is gone.
\<close>
theorem connection_delivers:
  assumes r: "run_connection env self generation (Inr t) events q = (Some res, q')"
    and stream: "stream = fc_source_id (rf_config self) @ ''-'' @ show_nat t @ ''-'' @ show_nat generation"
    and recs: "rs = received_records env (rf_placement self) (fc_source_id (rf_config self)) events"
    and len: "length rs \<le> u64_max"
  shows "(case res of
      Inl e \<Rightarrow> e = OutputClosed \<and> iq_taken q \<noteq> None
    | Inr u \<Rightarrow> \<exists>bs. iq_sent q' = iq_sent q @ bs \<and>
        continuous (fc_source_id (rf_config self), stream) 0 bs (length rs) \<and>
        concat (map rb_records bs) = rs)"
proof -
  let ?src = "fc_source_id (rf_config self)"
  let ?b = "(raw_batcher_new ?src stream (fc_batch_messages (rf_config self)))\<lparr>wb_placement := rf_placement self\<rparr>"
  obtain b' where l: "connection_loop env events (?b, q) = (Some res, b', q')"
    using r by (auto simp: run_connection_def stream Let_def split: prod.splits)
  have "delivered (iq_sent q) (?src, stream) (rf_placement self) [] (?b, q)"
    by (simp add: delivered_def raw_batcher_new_def raw_ok_def raw_start_def)
  note d = connection_loop_delivers [OF this _ l]
  show ?thesis
  proof (cases res)
    case (Inl e)
    then show ?thesis using d len recs by simp
  next
    case (Inr u)
    then have f: "delivered (iq_sent q) (?src, stream) (rf_placement self) rs (b', q')" "wb_records b' = []"
      using d len recs by simp_all
    then obtain bs where "iq_sent q' = iq_sent q @ bs" "continuous (?src, stream) 0 bs (raw_start b')"
      "rs = concat (map rb_records bs)"
      by (auto simp: delivered_def)
    moreover have "raw_start b' = length rs" using delivered_start [OF f(1)] f(2) by simp
    ultimately show ?thesis using Inr by auto
  qed
qed

definition ex_firehose_env :: firehose_env where
  "ex_firehose_env = \<lparr>fe_parse = ex_parse_message, fe_hash = id, fe_owner_hash = id\<rparr>"

definition ex_firehose :: raw_firehose_source where
  "ex_firehose = \<lparr>rf_config = \<lparr>fc_source_id = ''s'', fc_url = ''u'', fc_origin = ''o'', fc_batch_messages = 2,
     fc_batch_max_delay = 5, reconnect_min_delay = 1, reconnect_max_delay = 8\<rparr>, rf_placement = None\<rparr>"

definition ex_frames :: "firehose_event list" where
  "ex_frames = [TextFrame 9 (''line'' @ [CHR 0x0A] @ ''other'' @ [CHR 0x0A] @ ''line''), PingFrame True,
     TextFrame 9 ''line'', ClosedFrame, TextFrame 9 ''line'']"

theorem connection_delivers_witness:
  "\<exists>q'. run_connection ex_firehose_env ex_firehose 1 (Inr 7) ex_frames \<lparr>iq_sent = [], iq_taken = None\<rparr> =
      (Some (Inr ()), q') \<and>
    map (\<lambda>b. length (rb_records b)) (iq_sent q') = [2, 1] \<and>
    concat (map rb_records (iq_sent q')) = received_records ex_firehose_env None ''s'' ex_frames"
proof -
  let ?q = "\<lparr>iq_sent = [], iq_taken = None\<rparr>" and ?rs = "received_records ex_firehose_env None ''s'' ex_frames"
  let ?r = "run_connection ex_firehose_env ex_firehose 1 (Inr 7) ex_frames ?q"
  have "fst ?r = Some (Inr ())" "map (\<lambda>b. length (rb_records b)) (iq_sent (snd ?r)) = [2, 1]"
    "length ?rs = 3" by code_simp+
  then obtain q' where q': "?r = (Some (Inr ()), q')" "map (\<lambda>b. length (rb_records b)) (iq_sent q') = [2, 1]"
    and len: "length ?rs \<le> u64_max"
    by (cases ?r) (auto simp: int_defs)
  have rs: "?rs = received_records ex_firehose_env (rf_placement ex_firehose)
      (fc_source_id (rf_config ex_firehose)) ex_frames" by (simp add: ex_firehose_def)
  note d = connection_delivers [OF q'(1) refl rs len, unfolded sum.case ingest_queue.select_convs append_Nil]
  then have "concat (map rb_records (iq_sent q')) = ?rs" by blast
  then show ?thesis by (intro exI [of _ q'] conjI q')
qed

text \<open>
  However often the connection fails, the source waits between the configured bounds before it
  tries again: every sleep lies between them, and the loop ends only when it is cancelled or when the
  queue's receiver is gone, never by a failed connection.
\<close>
theorem reconnects_forever:
  assumes new: "raw_firehose_new c = Inr self" and max: "reconnect_max_delay c \<le> duration_max"
    and run: "firehose_run env (with_placement p self) rounds q = (out, sleeps, q')"
  shows "(\<forall>d \<in> set sleeps. reconnect_min_delay c \<le> d \<and> d \<le> reconnect_max_delay c) \<and>
    (case out of None \<Rightarrow> True | Some (Inl e) \<Rightarrow> e = OutputClosed
     | Some (Inr u) \<Rightarrow> \<exists>x \<in> set rounds. fr_cancelled_before x \<or> fr_cancelled_after x \<or> fr_cancelled_asleep x)"
proof -
  have c: "rf_config (with_placement p self) = c" "reconnect_min_delay c \<le> reconnect_max_delay c"
    using new by (auto simp: raw_firehose_new_def with_placement_def split: if_splits)
  have "reconnect_min_delay c \<le> b \<Longrightarrow> firehose_loop env (with_placement p self) rounds g b q = (out, sleeps, q') \<Longrightarrow> ?thesis"
    for g b
  proof (induction rounds arbitrary: g b q out sleeps q')
    case (Cons x xs)
    let ?b = "next_backoff c (fr_elapsed x) b"
    have b: "reconnect_min_delay c \<le> ?b" "?b \<le> reconnect_max_delay c"
      using Cons.prems(1) c(2) max by (auto simp: next_backoff_def min_def)
    show ?case
    proof (cases "fr_cancelled_before x")
      case True
      then show ?thesis using Cons.prems(2) by auto
    next
      case False
      obtain o1 q1 where r: "run_connection env (with_placement p self) (u64_saturating_add g 1)
          (fr_handshake x) (fr_events x) q = (o1, q1)" by fastforce
      show ?thesis
      proof (cases "o1 = None \<or> o1 = Some (Inl OutputClosed) \<or> (o1 = Some (Inr ()) \<and> fr_cancelled_after x) \<or>
          fr_cancelled_asleep x")
        case True
        then show ?thesis
          using Cons.prems(2) False r b c(1) by (cases o1) (auto simp: Let_def split: if_splits)
      next
        case more: False
        obtain o2 s2 q2 where l: "firehose_loop env (with_placement p self) xs (u64_saturating_add g 1) ?b q1 =
            (o2, s2, q2)" by (metis prod_cases3)
        have e: "out = o2" "sleeps = ?b # s2" "q' = q2"
          using Cons.prems(2) False r more l c(1) by (cases o1, simp, force simp: Let_def)+
        show ?thesis
          using Cons.IH [OF b(1) l] b unfolding e by (cases o2; cases "the o2") auto
      qed
    qed
  qed simp
  then show ?thesis using run c by (auto simp: firehose_run_def)
qed

theorem reconnects_forever_witness:
  "\<exists>q'. firehose_run ex_firehose_env ex_firehose
      (replicate 5 \<lparr>fr_cancelled_before = False, fr_handshake = Inl (Connection ''x''), fr_events = [],
        fr_elapsed = 0, fr_cancelled_after = False, fr_cancelled_asleep = False\<rparr>)
      \<lparr>iq_sent = [], iq_taken = None\<rparr> = (None, [2, 4, 8, 8, 8], q') \<and>
    (\<forall>d \<in> set [2, 4, 8, 8, 8]. reconnect_min_delay (rf_config ex_firehose) \<le> d)"
proof -
  let ?rounds = "replicate 5 \<lparr>fr_cancelled_before = False, fr_handshake = Inl (Connection ''x''), fr_events = [],
        fr_elapsed = 0, fr_cancelled_after = False, fr_cancelled_asleep = False\<rparr>"
  let ?r = "firehose_run ex_firehose_env (with_placement None ex_firehose) ?rounds \<lparr>iq_sent = [], iq_taken = None\<rparr>"
  have e: "with_placement None ex_firehose = ex_firehose" by (simp add: with_placement_def ex_firehose_def)
  have "fst ?r = None" "fst (snd ?r) = [2, 4, 8, 8, 8]" by code_simp+
  then obtain q' where r: "?r = (None, [2, 4, 8, 8, 8], q')" by (metis prod.collapse)
  have new: "raw_firehose_new (rf_config ex_firehose) = Inr ex_firehose"
    by (simp add: raw_firehose_new_def ex_firehose_def)
  have "reconnect_max_delay (rf_config ex_firehose) \<le> duration_max"
    by (simp add: ex_firehose_def duration_max_def)
  from reconnects_forever [OF new this r] show ?thesis using r unfolding e by blast
qed

end
