(* ===== verification/IngestRuntime.thy ===== *)
theory IngestRuntime
  imports IngestSystem Budget RawFirehose
begin

text \<open>
  The ingest task, \<^verbatim>\<open>src/storage/ingest_runtime.rs\<close>: it replays the journal, takes batches from
  the sources and from an external channel, seals blocks that are due, checkpoints when the journal is
  large or old, expires and evicts blocks, and drains everything before it stops. What the channels,
  the timers and the clocks deliver is a list of events, one per turn of \<^verbatim>\<open>tokio::select!\<close>; a branch
  whose guard is off is not polled. Durations and instants are nanoseconds, times Unix milliseconds.
\<close>

record ingest_runtime_config =
  queue_batches :: nat
  seal_interval :: nat
  checkpoint_interval :: nat
  checkpoint_poll_interval :: nat
  checkpoint_journal_bytes :: nat
  message_ttl :: nat

datatype ingest_runtime_error =
    InvalidConfig
  | RuntimeIngest ingest_error
  | RuntimeBudget storage_budget_error
  | SourceTask string
  | AllSourcesStopped

text \<open>\<open>ir_external\<close>: whether there is an external channel.\<close>

record raw_ingest_runtime =
  ir_ingest :: durable_ingest
  ir_sources :: "raw_firehose_source list"
  ir_external :: bool
  ir_config :: ingest_runtime_config
  ir_budget :: "storage_budget option"

definition invalid_runtime_config :: "ingest_runtime_config \<Rightarrow> bool" where
  "invalid_runtime_config c \<longleftrightarrow>
     queue_batches c = 0 \<or> seal_interval c = 0 \<or> checkpoint_interval c = 0 \<or>
     checkpoint_poll_interval c = 0 \<or> checkpoint_journal_bytes c = 0 \<or> message_ttl c = 0"

definition runtime_new ::
    "durable_ingest \<Rightarrow> raw_firehose_source list \<Rightarrow> ingest_runtime_config
      \<Rightarrow> ingest_runtime_error + raw_ingest_runtime" where
  "runtime_new d sources c =
     (if sources = [] \<or> invalid_runtime_config c then Inl InvalidConfig
      else Inr \<lparr>ir_ingest = d, ir_sources = sources, ir_external = False, ir_config = c, ir_budget = None\<rparr>)"

definition runtime_new_with_external_input ::
    "durable_ingest \<Rightarrow> raw_firehose_source list \<Rightarrow> ingest_runtime_config
      \<Rightarrow> ingest_runtime_error + raw_ingest_runtime" where
  "runtime_new_with_external_input d sources c =
     (if invalid_runtime_config c then Inl InvalidConfig
      else Inr \<lparr>ir_ingest = d, ir_sources = sources, ir_external = True, ir_config = c, ir_budget = None\<rparr>)"

definition with_external_input :: "raw_ingest_runtime \<Rightarrow> raw_ingest_runtime" where
  "with_external_input self = self\<lparr>ir_external := True\<rparr>"

definition with_budget_enforcer :: "storage_budget \<Rightarrow> raw_ingest_runtime \<Rightarrow> raw_ingest_runtime" where
  "with_budget_enforcer b self = self\<lparr>ir_budget := Some b\<rparr>"

definition checkpoint_due :: "nat \<Rightarrow> nat \<Rightarrow> ingest_runtime_config \<Rightarrow> bool" where
  "checkpoint_due journal_bytes elapsed c \<longleftrightarrow>
     journal_bytes \<ge> checkpoint_journal_bytes c \<or> elapsed \<ge> checkpoint_interval c"

section \<open>The gauges and counters\<close>

record runtime_metrics =
  rm_queue_depth :: int
  rm_accepted_batches :: nat
  rm_accepted_records :: nat
  rm_last_accept :: int
  rm_checkpoints :: nat
  rm_last_checkpoint :: int
  rm_expired_blocks :: nat
  rm_expired_messages :: nat
  rm_store :: store_stats
  rm_journal_batches :: int
  rm_journal_bytes :: int

definition inc_by :: "nat \<Rightarrow> nat \<Rightarrow> nat" where
  "inc_by n counter = (counter + n) mod 2 ^ 64"

definition unix_seconds :: "nat \<Rightarrow> int" where
  "unix_seconds now_ms = i64_try_from_or_max (now_ms div 1000)"

definition record_journal_metrics :: "journal_stats \<Rightarrow> runtime_metrics \<Rightarrow> runtime_metrics" where
  "record_journal_metrics j m =
     m\<lparr>rm_journal_batches := i64_try_from_or_max (js_batches j),
       rm_journal_bytes := i64_try_from_or_max (js_bytes j)\<rparr>"

text \<open>
  A reader's query sees the committed store or fails, and which is given from outside: \<open>None\<close>
  when it is answered.
\<close>

definition read_journal_stats :: "store_error option \<Rightarrow> async_store \<Rightarrow> store_error + journal_stats" where
  "read_journal_stats failure st =
     (case failure of Some e \<Rightarrow> Inl e | None \<Rightarrow> Inr (sql_journal_stats (as_db st)))"

definition read_stats :: "store_error option \<Rightarrow> async_store \<Rightarrow> store_error + store_stats" where
  "read_stats failure st = (case failure of Some e \<Rightarrow> Inl e | None \<Rightarrow> sql_stats (as_db st))"

definition record_store_metrics ::
    "store_error option \<Rightarrow> store_error option \<Rightarrow> async_store \<Rightarrow> runtime_metrics
      \<Rightarrow> ingest_runtime_error + runtime_metrics" where
  "record_store_metrics failure journal_failure st m =
     and_then (map_err (RuntimeIngest \<circ> StoreFailed) (read_stats failure st)) (\<lambda>stats.
     and_then (map_err (RuntimeIngest \<circ> StoreFailed) (read_journal_stats journal_failure st)) (\<lambda>journal.
       Inr (record_journal_metrics journal (m\<lparr>rm_store := stats\<rparr>))))"

definition ingest_is_fresh :: "runtime_metrics \<Rightarrow> int \<Rightarrow> nat \<Rightarrow> nat \<Rightarrow> bool" where
  "ingest_is_fresh m now_seconds max_age max_queue_batches \<longleftrightarrow>
     rm_last_accept m > 0 \<and>
     i64_saturating_sub now_seconds (rm_last_accept m) \<le> i64_try_from_or_max (max_age div 1000000000) \<and>
     (if rm_queue_depth m < 0 then u64_max else nat (rm_queue_depth m)) \<le> max_queue_batches"

section \<open>The operations of the task\<close>

text \<open>
  The state of \<^verbatim>\<open>run\<close>. \<open>rs_received\<close> and \<open>rs_accepted\<close> are history: the batches taken from
  the channels, and those counted as accepted.
\<close>

record runtime_state =
  rs_ingest :: durable_ingest
  source_open :: bool
  external_open :: bool
  rs_tasks :: nat
  last_checkpoint :: nat
  rs_metrics :: runtime_metrics
  rs_received :: "raw_source_batch list"
  rs_accepted :: "raw_source_batch list"

definition on_ingest ::
    "(durable_ingest \<Rightarrow> (ingest_error + 'a) \<times> durable_ingest) \<Rightarrow> runtime_state
      \<Rightarrow> (ingest_runtime_error + 'a) \<times> runtime_state" where
  "on_ingest f s = (case f (rs_ingest s) of (res, d) \<Rightarrow> (map_err RuntimeIngest res, s\<lparr>rs_ingest := d\<rparr>))"

definition on_metrics :: "(runtime_metrics \<Rightarrow> runtime_metrics) \<Rightarrow> runtime_state \<Rightarrow> runtime_state" where
  "on_metrics f s = s\<lparr>rs_metrics := f (rs_metrics s)\<rparr>"

text \<open>The clock is read before and after a batch.\<close>

definition runtime_accept ::
    "ingest_env \<Rightarrow> nat \<times> nat \<Rightarrow> raw_source_batch \<Rightarrow> runtime_state
      \<Rightarrow> (ingest_runtime_error + unit) \<times> runtime_state" where
  "runtime_accept env clock b s =
     then_st (on_ingest (accept_source_batch env b (fst clock)) (s\<lparr>rs_received := rs_received s @ [b]\<rparr>))
       (\<lambda>_ s. (Inr (), on_metrics (\<lambda>m. m\<lparr>rm_accepted_batches := inc_by 1 (rm_accepted_batches m),
           rm_accepted_records := inc_by (length (rb_records b)) (rm_accepted_records m),
           rm_last_accept := unix_seconds (snd clock)\<rparr>) (s\<lparr>rs_accepted := rs_accepted s @ [b]\<rparr>)))"

definition enforce_budget ::
    "ingest_env \<Rightarrow> raw_ingest_runtime \<Rightarrow> surroundings \<Rightarrow> runtime_state
      \<Rightarrow> (ingest_runtime_error + unit) \<times> runtime_state" where
  "enforce_budget env self sur s =
     (case ir_budget self of
        None \<Rightarrow> (Inr (), s)
      | Some b \<Rightarrow>
          (case enforce (ie_codec env) (ie_config env) b sur (di_store (rs_ingest s)) of
             (res, st) \<Rightarrow> (map_sum RuntimeBudget (\<lambda>_. ()) res,
               s\<lparr>rs_ingest := (rs_ingest s)\<lparr>di_store := st\<rparr>\<rparr>)))"

definition retention_cutoff :: "ingest_runtime_config \<Rightarrow> nat \<Rightarrow> int" where
  "retention_cutoff c now =
     i64_try_from_or_max (u64_saturating_sub now (min (message_ttl c div 1000000) u64_max))"

definition expire_retention ::
    "ingest_env \<Rightarrow> raw_ingest_runtime \<Rightarrow> nat \<Rightarrow> runtime_state
      \<Rightarrow> (ingest_runtime_error + unit) \<times> runtime_state" where
  "expire_retention env self now s =
     then_st (on_ingest (ingest_expire_before env (retention_cutoff (ir_config self) now)) s)
       (\<lambda>expired s. (Inr (), on_metrics (\<lambda>m. m\<lparr>rm_expired_blocks := inc_by (fst expired) (rm_expired_blocks m),
          rm_expired_messages := inc_by (snd expired) (rm_expired_messages m)\<rparr>) s))"

text \<open>What a checkpoint poll reads from outside.\<close>

record poll_readings =
  pr_stats_failure :: "store_error option"
  pr_instant :: nat
  pr_retention_now :: nat
  pr_surroundings :: surroundings
  pr_finished_now :: nat
  pr_finished :: nat

text \<open>The cycle of a due checkpoint.\<close>

definition checkpoint_cycle ::
    "ingest_env \<Rightarrow> raw_ingest_runtime \<Rightarrow> poll_readings \<Rightarrow> runtime_state
      \<Rightarrow> (ingest_runtime_error + unit) \<times> runtime_state" where
  "checkpoint_cycle env self p s =
     then_st (on_ingest (ingest_checkpoint env) s) (\<lambda>_ s.
     then_st (expire_retention env self (pr_retention_now p) s) (\<lambda>_ s.
     then_st (enforce_budget env self (pr_surroundings p) s) (\<lambda>_ s.
       (Inr (), on_metrics (\<lambda>m. m\<lparr>rm_checkpoints := inc_by 1 (rm_checkpoints m),
          rm_last_checkpoint := unix_seconds (pr_finished_now p)\<rparr>)
          (s\<lparr>last_checkpoint := pr_finished p\<rparr>)))))"

definition checkpoint_poll ::
    "ingest_env \<Rightarrow> raw_ingest_runtime \<Rightarrow> poll_readings \<Rightarrow> runtime_state
      \<Rightarrow> (ingest_runtime_error + unit) \<times> runtime_state" where
  "checkpoint_poll env self p s =
     then_st (on_ingest (with_store (async_maintain_space (ie_codec env) (ie_config env))) s) (\<lambda>_ s.
       case read_journal_stats (pr_stats_failure p) (di_store (rs_ingest s)) of
         Inl e \<Rightarrow> (Inl (RuntimeIngest (StoreFailed e)), s)
       | Inr journal \<Rightarrow>
           let s = on_metrics (record_journal_metrics journal) s in
           if \<not> checkpoint_due (js_bytes journal) (pr_instant p - last_checkpoint s) (ir_config self) then (Inr (), s)
           else checkpoint_cycle env self p s)"

text \<open>A joined task: both the join and the source can report an error.\<close>

definition task_ended ::
    "string + unit \<Rightarrow> runtime_state \<Rightarrow> (ingest_runtime_error + unit) \<times> runtime_state" where
  "task_ended result s =
     (case result of
        Inl e \<Rightarrow> (Inl (SourceTask e), s\<lparr>rs_tasks := rs_tasks s - 1\<rparr>)
      | Inr u \<Rightarrow> (Inr (), s\<lparr>rs_tasks := rs_tasks s - 1\<rparr>))"

section \<open>Shutting down\<close>

datatype late_event =
    LateBatch "nat \<times> nat" "raw_source_batch option"
  | LateTask "string + unit"

text \<open>
  \<open>sd_external\<close> is \<open>None\<close> when the external channel is never closed; \<open>sd_late\<close> is what
  comes in while tasks are left, \<open>sd_queued\<close> what is left in the queue after them.
\<close>

record shutdown =
  sd_late :: "late_event list"
  sd_queued :: "((nat \<times> nat) \<times> raw_source_batch) list"
  sd_external :: "((nat \<times> nat) \<times> raw_source_batch) list option"

datatype turn = Continue | Finished | Waiting

fun drain_tasks ::
    "ingest_env \<Rightarrow> late_event list \<Rightarrow> runtime_state \<Rightarrow> (ingest_runtime_error + turn) \<times> runtime_state" where
  "drain_tasks env [] s = (Inr (if rs_tasks s = 0 then Continue else Waiting), s)"
| "drain_tasks env (e # es) s =
     (if rs_tasks s = 0 then (Inr Continue, s)
      else case e of
             LateBatch clock None \<Rightarrow> drain_tasks env es s
           | LateBatch clock (Some b) \<Rightarrow> then_st (runtime_accept env clock b s) (\<lambda>_ s. drain_tasks env es s)
           | LateTask result \<Rightarrow> then_st (task_ended result s) (\<lambda>_ s. drain_tasks env es s))"

fun drain_queue ::
    "ingest_env \<Rightarrow> ((nat \<times> nat) \<times> raw_source_batch) list \<Rightarrow> runtime_state
      \<Rightarrow> (ingest_runtime_error + unit) \<times> runtime_state" where
  "drain_queue env [] s = (Inr (), s)"
| "drain_queue env ((clock, b) # rest) s =
     then_st (runtime_accept env clock b s) (\<lambda>_ s. drain_queue env rest s)"

definition drain_external ::
    "ingest_env \<Rightarrow> raw_ingest_runtime \<Rightarrow> ((nat \<times> nat) \<times> raw_source_batch) list option \<Rightarrow> runtime_state
      \<Rightarrow> (ingest_runtime_error + turn) \<times> runtime_state" where
  "drain_external env self external s =
     (if \<not> ir_external self then (Inr Continue, s)
      else case external of
             None \<Rightarrow> (Inr Waiting, s)
           | Some batches \<Rightarrow> then_st (drain_queue env batches s) (\<lambda>_ s. (Inr Continue, s)))"

definition shut_down ::
    "ingest_env \<Rightarrow> raw_ingest_runtime \<Rightarrow> shutdown \<Rightarrow> runtime_state
      \<Rightarrow> (ingest_runtime_error + turn) \<times> runtime_state" where
  "shut_down env self sd s =
     then_st (drain_tasks env (sd_late sd) s) (\<lambda>t s.
     if t = Waiting then (Inr Waiting, s)
     else
       then_st (drain_queue env (sd_queued sd) s) (\<lambda>_ s.
       then_st (drain_external env self (sd_external sd) s) (\<lambda>t s.
       if t = Waiting then (Inr Waiting, s)
       else
         then_st (on_ingest (ingest_checkpoint env) s) (\<lambda>_ s.
           (Inr Finished, on_metrics (\<lambda>m. m\<lparr>rm_queue_depth := 0\<rparr>) s)))))"

section \<open>The loop\<close>

text \<open>
  The last three are not branches of the loop: the spawned refresh of the gauges, a command another
  task sends to the store, and a purge of the open blocks by a request.
\<close>

datatype runtime_event =
    Cancellation shutdown
  | FromSources "nat \<times> nat" "raw_source_batch option"
  | FromExternal "nat \<times> nat" "raw_source_batch option"
  | SealTick nat
  | CheckpointPoll poll_readings
  | TaskJoined "string + unit"
  | MetricsRefresh "store_error option" "store_error option"
  | OtherTask writer_command
  | OtherPurge string

definition continuing :: "('e + unit) \<times> 's \<Rightarrow> ('e + turn) \<times> 's" where
  "continuing m = then_st m (\<lambda>_ s. (Inr Continue, s))"

fun runtime_turn ::
    "ingest_env \<Rightarrow> raw_ingest_runtime \<Rightarrow> runtime_event \<Rightarrow> runtime_state
      \<Rightarrow> (ingest_runtime_error + turn) \<times> runtime_state" where
  "runtime_turn env self (Cancellation sd) s = shut_down env self sd s"
| "runtime_turn env self (FromSources clock batch) s =
     (if \<not> source_open s then (Inr Continue, s)
      else case batch of
             Some b \<Rightarrow> continuing (runtime_accept env clock b s)
           | None \<Rightarrow> if \<not> external_open s then (Inl AllSourcesStopped, s)
                     else (Inr Continue, s\<lparr>source_open := False\<rparr>))"
| "runtime_turn env self (FromExternal clock batch) s =
     (if \<not> external_open s then (Inr Continue, s)
      else case batch of
             Some b \<Rightarrow> continuing (runtime_accept env clock b s)
           | None \<Rightarrow> if \<not> source_open s then (Inl AllSourcesStopped, s\<lparr>external_open := False\<rparr>)
                     else (Inr Continue, s\<lparr>external_open := False\<rparr>))"
| "runtime_turn env self (SealTick now) s =
     then_st (on_ingest (ingest_seal_due env now) s) (\<lambda>_ s. (Inr Continue, s))"
| "runtime_turn env self (CheckpointPoll p) s = continuing (checkpoint_poll env self p s)"
| "runtime_turn env self (TaskJoined result) s =
     (if rs_tasks s = 0 then (Inr Continue, s) else continuing (task_ended result s))"
| "runtime_turn env self (MetricsRefresh f1 f2) s =
     (Inr Continue, on_metrics (\<lambda>m. case record_store_metrics f1 f2 (di_store (rs_ingest s)) m of
        Inl e \<Rightarrow> m | Inr m' \<Rightarrow> m') s)"
| "runtime_turn env self (OtherTask cmd) s =
     (Inr Continue, s\<lparr>rs_ingest := (rs_ingest s)\<lparr>di_store :=
        snd (call (ie_codec env) (ie_config env) cmd Inr (di_store (rs_ingest s)))\<rparr>\<rparr>)"
| "runtime_turn env self (OtherPurge ch) s =
     (Inr Continue, s\<lparr>rs_ingest := (rs_ingest s)\<lparr>di_open := open_purge_channel ch (di_open (rs_ingest s))\<rparr>\<rparr>)"

text \<open>Each event with the length of the queue at the start of the turn. \<open>None\<close>: still running.\<close>

fun runtime_loop ::
    "ingest_env \<Rightarrow> raw_ingest_runtime \<Rightarrow> (nat \<times> runtime_event) list \<Rightarrow> runtime_state
      \<Rightarrow> (ingest_runtime_error + unit) option \<times> runtime_state" where
  "runtime_loop env self [] s = (None, s)"
| "runtime_loop env self ((depth, e) # es) s =
     (case runtime_turn env self e (on_metrics (\<lambda>m. m\<lparr>rm_queue_depth := i64_try_from_or_max depth\<rparr>) s) of
        (Inl err, s') \<Rightarrow> (Some (Inl err), s')
      | (Inr Continue, s') \<Rightarrow> runtime_loop env self es s'
      | (Inr Finished, s') \<Rightarrow> (Some (Inr ()), s')
      | (Inr Waiting, s') \<Rightarrow> (None, s'))"

text \<open>What the start reads: the clock, the readers' outcomes, the instant, and the gauges so far.\<close>

record start_readings =
  sr_now :: nat
  sr_stats_failure :: "store_error option"
  sr_journal_failure :: "store_error option"
  sr_instant :: nat
  sr_metrics :: runtime_metrics

definition runtime_state_new :: "raw_ingest_runtime \<Rightarrow> start_readings \<Rightarrow> runtime_state" where
  "runtime_state_new self sr =
     \<lparr>rs_ingest = ir_ingest self, source_open = True, external_open = ir_external self,
      rs_tasks = length (ir_sources self), last_checkpoint = sr_instant sr, rs_metrics = sr_metrics sr,
      rs_received = [], rs_accepted = []\<rparr>"

definition runtime_run ::
    "ingest_env \<Rightarrow> raw_ingest_runtime \<Rightarrow> start_readings \<Rightarrow> (nat \<times> runtime_event) list
      \<Rightarrow> (ingest_runtime_error + unit) option \<times> runtime_state" where
  "runtime_run env self sr events =
     (case on_ingest (recover_pending env (sr_now sr)) (runtime_state_new self sr) of
        (Inl e, s) \<Rightarrow> (Some (Inl e), s)
      | (Inr recovered_batches, s) \<Rightarrow>
          (case record_store_metrics (sr_stats_failure sr) (sr_journal_failure sr) (di_store (rs_ingest s)) (rs_metrics s) of
             Inl e \<Rightarrow> (Some (Inl e), s)
           | Inr m \<Rightarrow> runtime_loop env self events (s\<lparr>rs_metrics := m\<rparr>)))"

section \<open>What holds while the task runs\<close>

definition payloads :: "async_store \<Rightarrow> bytes set" where
  "payloads st = jr_payload ` set (ingest_journal (as_db st))"

definition accepted_records :: "runtime_state \<Rightarrow> canonical_record set" where
  "accepted_records s = (\<Union>b \<in> set (rs_accepted s). set (rb_records b))"

text \<open>
  \<open>A\<close>: the records acknowledged before the start. \<open>P\<close>: those of purged channels. \<open>S\<close>: the
  payloads on which the hash has no collision.
\<close>

record runtime_context =
  cx_env :: ingest_env
  cx_N :: int
  cx_limits :: open_block_limits
  cx_purged :: "canonical_record set"
  cx_payloads :: "bytes set"
  cx_before :: "canonical_record set"

definition all_durable :: "runtime_context \<Rightarrow> runtime_state \<Rightarrow> bool" where
  "all_durable x s \<longleftrightarrow> (\<forall>r \<in> cx_before x \<union> accepted_records s.
     durable (ie_journal (cx_env x)) (cx_purged x) (di_store (rs_ingest s)) r)"

definition runtime_base :: "runtime_context \<Rightarrow> runtime_state \<Rightarrow> bool" where
  "runtime_base x s \<longleftrightarrow>
     running (cx_env x) (cx_N x) (cx_limits x) (cx_purged x) (rs_ingest s) \<and>
     payloads (di_store (rs_ingest s)) \<subseteq> cx_payloads x \<and> all_durable x s"

definition runtime_sound :: "runtime_context \<Rightarrow> runtime_state \<Rightarrow> bool" where
  "runtime_sound x s \<longleftrightarrow> runtime_base x s \<and> rs_received s = rs_accepted s"

definition same_history :: "runtime_state \<Rightarrow> runtime_state \<Rightarrow> bool" where
  "same_history s s' \<longleftrightarrow> rs_received s' = rs_received s \<and> rs_accepted s' = rs_accepted s"

text \<open>The hypotheses on the environment, the codecs and the hash.\<close>

definition context_ok :: "runtime_context \<Rightarrow> bool" where
  "context_ok x \<longleftrightarrow> ingest_setup (cx_env x) (cx_N x) (cx_limits x) \<and> journal_laws (ie_journal (cx_env x)) \<and>
     inj_on (blake3_hash (ie_journal (cx_env x))) (cx_payloads x)"

definition batch_known :: "runtime_context \<Rightarrow> raw_source_batch \<Rightarrow> bool" where
  "batch_known x b \<longleftrightarrow>
     (\<forall>data. encode_journal (ie_journal (cx_env x)) (rb_records b) = Inr data \<longrightarrow> data \<in> cx_payloads x)"

lemma on_metrics_simps [simp]:
  "rs_ingest (on_metrics f s) = rs_ingest s" "rs_received (on_metrics f s) = rs_received s"
  "rs_accepted (on_metrics f s) = rs_accepted s" "rs_tasks (on_metrics f s) = rs_tasks s"
  by (simp_all add: on_metrics_def)

lemma base_cong:
  "rs_ingest s' = rs_ingest s \<Longrightarrow> rs_accepted s' = rs_accepted s \<Longrightarrow> runtime_base x s' = runtime_base x s"
  by (simp add: runtime_base_def all_durable_def accepted_records_def)

lemma sound_cong:
  "rs_ingest s' = rs_ingest s \<Longrightarrow> rs_accepted s' = rs_accepted s \<Longrightarrow> rs_received s' = rs_received s \<Longrightarrow>
     runtime_sound x s' = runtime_sound x s"
  using base_cong [of s' s x] by (simp add: runtime_sound_def)

lemma sound_all_durable: "runtime_sound x s \<Longrightarrow> all_durable x s"
  by (simp add: runtime_sound_def runtime_base_def)

lemma all_durable_step:
  assumes "all_durable x s" and "same_history s s'"
    and "advances (cx_env x) N (cx_purged x) (di_store (rs_ingest s)) (di_store (rs_ingest s'))"
  shows "all_durable x s'"
  using assms by (auto simp: all_durable_def same_history_def accepted_records_def advances_def)

lemma on_ingest_base:
  assumes s: "runtime_base x s"
    and o: "outcome (f (rs_ingest s))
      (\<lambda>y d'. running (cx_env x) (cx_N x) (cx_limits x) (cx_purged x) d' \<and>
         safe (cx_env x) (cx_N x) (cx_purged x) (rs_ingest s) d' \<and> payloads (di_store d') \<subseteq> cx_payloads x \<and> R y d')
      (\<lambda>e d'. safe (cx_env x) (cx_N x) (cx_purged x) (rs_ingest s) d')"
  shows "outcome (on_ingest f s)
    (\<lambda>y s'. runtime_base x s' \<and> same_history s s' \<and> R y (rs_ingest s')) (\<lambda>e s'. all_durable x s')"
  using o
proof (cases rule: outcome_cases)
  case (1 e d')
  then show ?thesis
    using s all_durable_step [of x s "s\<lparr>rs_ingest := d'\<rparr>" "cx_N x"]
    by (simp add: on_ingest_def same_history_def safe_def runtime_base_def)
next
  case (2 y d')
  then show ?thesis
    using s all_durable_step [of x s "s\<lparr>rs_ingest := d'\<rparr>" "cx_N x"]
    by (simp add: on_ingest_def same_history_def safe_def runtime_base_def)
qed

text \<open>The same for a state whose batches are all accepted.\<close>

lemma on_ingest_sound:
  assumes s: "runtime_sound x s"
    and o: "outcome (f (rs_ingest s))
      (\<lambda>y d'. running (cx_env x) (cx_N x) (cx_limits x) (cx_purged x) d' \<and>
         safe (cx_env x) (cx_N x) (cx_purged x) (rs_ingest s) d' \<and> payloads (di_store d') \<subseteq> cx_payloads x \<and> R y d')
      (\<lambda>e d'. safe (cx_env x) (cx_N x) (cx_purged x) (rs_ingest s) d')"
  shows "outcome (on_ingest f s)
    (\<lambda>y s'. runtime_sound x s' \<and> same_history s s' \<and> R y (rs_ingest s')) (\<lambda>e s'. all_durable x s')"
proof -
  have b: "runtime_base x s" using s by (simp add: runtime_sound_def)
  show ?thesis
    by (rule outcome_weaken [OF on_ingest_base [of x s f R, OF b o]])
      (use s in \<open>auto simp: runtime_sound_def same_history_def\<close>)
qed

text \<open>Steps of the store beside the ingest.\<close>

lemma running_store_step:
  assumes d: "running env N l P d" and adv: "advances env N P (di_store d) st"
    and j: "ingest_journal (as_db st) = ingest_journal (as_db (di_store d))"
  shows "running env N l P (d\<lparr>di_store := st\<rparr>) \<and> safe env N P d (d\<lparr>di_store := st\<rparr>) \<and>
    payloads st = payloads (di_store d)"
proof -
  have l: "live env N l (\<lambda>_. True) P (materialized_through d) d" using d by (simp add: running_def)
  have "live env N l (\<lambda>_. True) P (materialized_through d) (d\<lparr>di_store := st\<rparr>)"
    by (rule live_step [OF l]) (use l adv j in \<open>auto simp: live_def advances_def same_journal_def\<close>)
  then show ?thesis using adv j by (simp add: running_def safe_def payloads_def)
qed

lemma other_with_store:
  assumes env: "ingest_setup env N l" and d: "running env N l P d" and p: "payloads (di_store d) \<subseteq> S"
    and cmd: "command_fits N cmd" "\<not> journal_command cmd"
  shows "outcome (with_store (call (ie_codec env) (ie_config env) cmd answer) d)
    (\<lambda>y d'. running env N l P d' \<and> safe env N P d d' \<and> payloads (di_store d') \<subseteq> S \<and> True)
    (\<lambda>e d'. safe env N P d d')"
proof -
  obtain res st where c: "call (ie_codec env) (ie_config env) cmd answer (di_store d) = (res, st)" by fastforce
  have ok: "store_sound env N (di_store d)" using d by (simp add: running_def live_def)
  note a = other_call [OF env ok cmd c, of P]
  then show ?thesis
    using running_store_step [OF d, of st] p c by (cases res) (simp_all add: with_store_def)
qed

lemma enforce_passes_advances:
  assumes env: "ingest_setup env N l"
  shows "store_sound env N st \<Longrightarrow>
    enforce_passes (ie_codec env) (ie_config env) b sur pass n r st = (res, st') \<Longrightarrow>
    advances env N P st st' \<and> ingest_journal (as_db st') = ingest_journal (as_db st)"
proof (induction n arbitrary: pass r st)
  case 0
  then show ?case by (auto split: if_splits)
next
  case (Suc n)
  note same = advances_refl [OF Suc.prems(1), of P]
  show ?case
  proof (cases "\<exists>effective mode ids. plan_pass b sur pass (be_bytes_after r) st = Inr (effective, mode, ids) \<and> ids \<noteq> []")
    case False
    then have "st' = st" using Suc.prems(2) by (auto split: sum.splits prod.splits if_splits)
    then show ?thesis using same by simp
  next
    case True
    then obtain effective mode ids where p: "plan_pass b sur pass (be_bytes_after r) st = Inr (effective, mode, ids)"
      "ids \<noteq> []" by blast
    obtain res1 st1 where e: "async_evict_block_ids (ie_codec env) (ie_config env) ids st = (res1, st1)" by fastforce
    have a: "advances env N P st st1 \<and> ingest_journal (as_db st1) = ingest_journal (as_db st)"
      by (rule other_call [OF env Suc.prems(1) _ _ e [unfolded async_evict_block_ids_def]]) simp_all
    show ?thesis
    proof (cases "\<exists>deleted current. res1 = Inr deleted \<and> physical_bytes sur (Suc pass) st1 = Inr current")
      case False
      then have "st' = st1" using Suc.prems(2) p e by (auto split: sum.splits)
      then show ?thesis using a by simp
    next
      case True
      then obtain deleted current where c: "res1 = Inr deleted" "physical_bytes sur (Suc pass) st1 = Inr current"
        by blast
      have "store_sound env N st1" using a by (simp add: advances_def)
      from Suc.IH [OF this] Suc.prems(2) p e c have
        "advances env N P st1 st' \<and> ingest_journal (as_db st') = ingest_journal (as_db st1)" by simp
      then show ?thesis using a advances_trans by metis
    qed
  qed
qed

lemma enforce_advances:
  assumes "ingest_setup env N l" and "store_sound env N st"
    and "enforce (ie_codec env) (ie_config env) b sur st = (res, st')"
  shows "advances env N P st st' \<and> ingest_journal (as_db st') = ingest_journal (as_db st)"
proof (cases "physical_bytes sur 0 st")
  case (Inl e)
  then show ?thesis using assms advances_refl [of env N st P] by (simp add: enforce_def)
next
  case (Inr bytes)
  then show ?thesis using enforce_passes_advances [OF assms(1,2)] assms(3) by (simp add: enforce_def)
qed

section \<open>The operations of the task keep it\<close>

lemma base_running: "runtime_base x s \<Longrightarrow>
    running (cx_env x) (cx_N x) (cx_limits x) (cx_purged x) (rs_ingest s)"
  by (simp add: runtime_base_def)

lemma sound_parts:
  assumes "runtime_sound x s"
  shows "running (cx_env x) (cx_N x) (cx_limits x) (cx_purged x) (rs_ingest s)"
    "payloads (di_store (rs_ingest s)) \<subseteq> cx_payloads x"
    "store_sound (cx_env x) (cx_N x) (di_store (rs_ingest s))"
    "runtime_base x s" "rs_received s = rs_accepted s"
  using assms by (auto simp: runtime_sound_def runtime_base_def running_def live_def)

lemma known_no_collision:
  assumes cx: "context_ok x" and s: "runtime_base x s" and b: "batch_known x b"
  shows "no_collision (cx_env x) (rb_records b) (rs_ingest s)"
proof -
  let ?jc = "ie_journal (cx_env x)"
  have "jr_payload j = data" if data: "encode_journal ?jc (rb_records b) = Inr data"
    and j: "j \<in> set (ingest_journal (as_db (di_store (rs_ingest s))))"
    and same: "jr_checksum j = blake3_hash ?jc data" for data j
  proof -
    obtain rs where "row_holds ?jc j rs"
      using s j by (auto simp: runtime_base_def running_def live_def store_sound_def)
    then have "blake3_hash ?jc (jr_payload j) = blake3_hash ?jc data" using same by (simp add: row_holds_def)
    moreover have "jr_payload j \<in> cx_payloads x" using s j by (auto simp: runtime_base_def payloads_def)
    moreover have "data \<in> cx_payloads x" using b data by (simp add: batch_known_def)
    ultimately show ?thesis using cx unfolding context_ok_def by (blast dest: inj_onD)
  qed
  then show ?thesis by (simp add: no_collision_def)
qed

lemma added_payloads:
  assumes "journal_added (cx_env x) (rb_records b) d d'" and "batch_known x b"
    and "payloads (di_store d) \<subseteq> cx_payloads x"
  shows "payloads (di_store d') \<subseteq> cx_payloads x"
  using assms unfolding journal_added_def batch_known_def payloads_def by blast

lemma runtime_accept_sound:
  assumes cx: "context_ok x" and s: "runtime_sound x s" and b: "batch_known x b"
  shows "outcome (runtime_accept (cx_env x) clock b s) 
    (\<lambda>_ s'. runtime_sound x s' \<and> rs_accepted s' = rs_accepted s @ [b]) (\<lambda>e s'. all_durable x s')"
proof -
  let ?s = "s\<lparr>rs_received := rs_received s @ [b]\<rparr>"
  let ?R = "\<lambda>y d'. \<forall>r \<in> set (rb_records b). durable (ie_journal (cx_env x)) (cx_purged x) (di_store d') r"
  have base: "runtime_base x ?s" using sound_parts(4) [OF s] base_cong [of ?s s x] by simp
  have ok: "ingest_setup (cx_env x) (cx_N x) (cx_limits x)" "journal_laws (ie_journal (cx_env x))"
    using cx by (simp_all add: context_ok_def)
  note o = accept_source_batch_running [OF ok base_running [OF base] known_no_collision [OF cx base b], of "fst clock"]
  have p: "payloads (di_store (rs_ingest ?s)) \<subseteq> cx_payloads x" using base by (simp add: runtime_base_def)
  have "outcome (on_ingest (accept_source_batch (cx_env x) b (fst clock)) ?s)
    (\<lambda>y s'. runtime_base x s' \<and> same_history ?s s' \<and> ?R y (rs_ingest s')) (\<lambda>e s'. all_durable x s')"
    by (rule on_ingest_base [OF base], rule outcome_weaken [OF o])
      (use added_payloads [OF _ b p] in \<open>auto simp: durable_def\<close>)
  then show ?thesis
    unfolding runtime_accept_def
    by (rule outcome_then)
      (use sound_parts(5) [OF s] in \<open>auto simp: runtime_sound_def runtime_base_def all_durable_def
         accepted_records_def same_history_def\<close>)
qed

lemma seal_due_sound:
  assumes cx: "context_ok x" and s: "runtime_sound x s"
  shows "outcome (on_ingest (ingest_seal_due (cx_env x) now) s)
    (\<lambda>_ s'. runtime_sound x s' \<and> same_history s s' \<and> True) (\<lambda>e s'. all_durable x s')"
proof -
  have ok: "ingest_setup (cx_env x) (cx_N x) (cx_limits x)" using cx by (simp add: context_ok_def)
  show ?thesis
    by (rule on_ingest_sound [OF s], rule outcome_weaken [OF seal_due_running [OF ok sound_parts(1) [OF s]]])
      (use sound_parts(2) [OF s] in \<open>auto simp: same_journal_def payloads_def\<close>)
qed

text \<open>What a checkpoint leaves.\<close>

definition drained :: "durable_ingest \<Rightarrow> bool" where
  "drained d \<longleftrightarrow> ingest_journal (as_db (di_store d)) = [] \<and> open_set (di_open d) = {} \<and>
     materialized_through d = []"

lemma checkpoint_sound:
  assumes cx: "context_ok x" and s: "runtime_sound x s"
  shows "outcome (on_ingest (ingest_checkpoint (cx_env x)) s)
    (\<lambda>_ s'. runtime_sound x s' \<and> same_history s s' \<and> drained (rs_ingest s')) (\<lambda>e s'. all_durable x s')"
proof -
  have ok: "ingest_setup (cx_env x) (cx_N x) (cx_limits x)" using cx by (simp add: context_ok_def)
  show ?thesis
    by (rule on_ingest_sound [OF s], rule outcome_weaken [OF checkpoint_running [OF ok sound_parts(1) [OF s]]])
      (auto simp: drained_def payloads_def)
qed

lemma other_command_sound:
  assumes cx: "context_ok x" and s: "runtime_sound x s"
    and cmd: "command_fits (cx_N x) cmd" "\<not> journal_command cmd"
  shows "outcome (on_ingest (with_store (call (ie_codec (cx_env x)) (ie_config (cx_env x)) cmd answer)) s)
    (\<lambda>_ s'. runtime_sound x s' \<and> same_history s s' \<and> True) (\<lambda>e s'. all_durable x s')"
proof -
  have ok: "ingest_setup (cx_env x) (cx_N x) (cx_limits x)" using cx by (simp add: context_ok_def)
  show ?thesis by (rule on_ingest_sound [OF s]) (rule other_with_store [OF ok sound_parts(1,2) [OF s] cmd])
qed

lemma expire_retention_sound:
  assumes cx: "context_ok x" and s: "runtime_sound x s"
  shows "outcome (expire_retention (cx_env x) self now s)
    (\<lambda>_ s'. runtime_sound x s' \<and> same_history s s') (\<lambda>e s'. all_durable x s')"
proof -
  let ?cutoff = "retention_cutoff (ir_config self) now"
  have eq: "ingest_expire_before (cx_env x) ?cutoff =
      with_store (call (ie_codec (cx_env x)) (ie_config (cx_env x)) (ExpireBlocks ?cutoff) answer_expired)"
    by (simp add: fun_eq_iff ingest_expire_before_def with_store_def async_expire_blocks_before_def)
  show ?thesis
    unfolding expire_retention_def eq
    by (rule outcome_then [OF other_command_sound [OF cx s]])
      (auto simp: same_history_def sound_cong [of "on_metrics _ _"])
qed

lemma enforce_budget_sound:
  assumes cx: "context_ok x" and s: "runtime_sound x s"
  shows "outcome (enforce_budget (cx_env x) self sur s)
    (\<lambda>_ s'. runtime_sound x s' \<and> same_history s s') (\<lambda>e s'. all_durable x s')"
proof (cases "ir_budget self")
  case None
  then show ?thesis using s by (simp add: enforce_budget_def same_history_def)
next
  case (Some b)
  have ok: "ingest_setup (cx_env x) (cx_N x) (cx_limits x)" using cx by (simp add: context_ok_def)
  obtain res st where e: "enforce (ie_codec (cx_env x)) (ie_config (cx_env x)) b sur (di_store (rs_ingest s)) = (res, st)"
    by fastforce
  let ?s = "s\<lparr>rs_ingest := (rs_ingest s)\<lparr>di_store := st\<rparr>\<rparr>"
  note a = enforce_advances [OF ok sound_parts(3) [OF s] e, of "cx_purged x"]
  have d: "all_durable x ?s"
    by (rule all_durable_step [OF sound_all_durable [OF s], of _ "cx_N x"]) (use a in \<open>simp_all add: same_history_def\<close>)
  moreover have "runtime_sound x ?s"
    using running_store_step [OF sound_parts(1) [OF s] conjunct1 [OF a] conjunct2 [OF a]] sound_parts(2,5) [OF s] d
    by (simp add: runtime_sound_def runtime_base_def)
  ultimately show ?thesis
    using Some e by (cases res) (simp_all add: enforce_budget_def same_history_def)
qed

lemma checkpoint_cycle_sound:
  assumes cx: "context_ok x" and s: "runtime_sound x s"
  shows "outcome (checkpoint_cycle (cx_env x) self p s) (\<lambda>_ s'. runtime_sound x s') (\<lambda>e s'. all_durable x s')"
  unfolding checkpoint_cycle_def
  by (rule outcome_then [OF checkpoint_sound [OF cx s]],
      rule outcome_then [OF expire_retention_sound [OF cx]], blast,
      rule outcome_then [OF enforce_budget_sound [OF cx]], blast)
    (auto simp: sound_cong [of "on_metrics _ _"] sound_cong [of "_\<lparr>last_checkpoint := _\<rparr>"])

lemma checkpoint_poll_sound:
  assumes cx: "context_ok x" and s: "runtime_sound x s"
  shows "outcome (checkpoint_poll (cx_env x) self p s) (\<lambda>_ s'. runtime_sound x s') (\<lambda>e s'. all_durable x s')"
proof -
  let ?env = "cx_env x"
  have m: "async_maintain_space (ie_codec ?env) (ie_config ?env) =
      call (ie_codec ?env) (ie_config ?env) MaintainSpace answer_done"
    by (simp add: fun_eq_iff async_maintain_space_def)
  have cmd: "command_fits (cx_N x) MaintainSpace" "\<not> journal_command MaintainSpace" by simp_all
  show ?thesis
    unfolding checkpoint_poll_def m
  proof (rule outcome_then [OF other_command_sound [OF cx s cmd]])
    fix u s1
    assume s1: "runtime_sound x s1 \<and> same_history s s1 \<and> True"
    let ?read = "read_journal_stats (pr_stats_failure p) (di_store (rs_ingest s1))"
    have "runtime_sound x (on_metrics f s1)" for f using s1 sound_cong [of "on_metrics f s1" s1 x] by simp
    note cycle = this checkpoint_cycle_sound [OF cx this, of self p]
    show "outcome (case ?read of
         Inl e \<Rightarrow> (Inl (RuntimeIngest (StoreFailed e)), s1)
       | Inr journal \<Rightarrow>
           let s = on_metrics (record_journal_metrics journal) s1 in
           if \<not> checkpoint_due (js_bytes journal) (pr_instant p - last_checkpoint s) (ir_config self) then (Inr (), s)
           else checkpoint_cycle ?env self p s)
      (\<lambda>_ s'. runtime_sound x s') (\<lambda>e s'. all_durable x s')"
      using s1 cycle sound_all_durable [of x s1] by (cases ?read) (simp_all add: Let_def)
  qed
qed

lemma task_ended_sound:
  assumes "runtime_sound x s"
  shows "outcome (task_ended result s) (\<lambda>_ s'. runtime_sound x s') (\<lambda>e s'. all_durable x s')"
proof -
  let ?s = "s\<lparr>rs_tasks := rs_tasks s - 1\<rparr>"
  have "runtime_sound x ?s" using assms sound_cong [of ?s s x] by simp
  then show ?thesis by (auto simp: task_ended_def sound_all_durable split: sum.splits)
qed

fun late_batches :: "late_event \<Rightarrow> raw_source_batch list" where
  "late_batches (LateBatch clock (Some b)) = [b]"
| "late_batches e = []"

lemma drain_tasks_sound:
  assumes cx: "context_ok x"
  shows "runtime_sound x s \<Longrightarrow> \<forall>e \<in> set es. \<forall>b \<in> set (late_batches e). batch_known x b \<Longrightarrow>
    outcome (drain_tasks (cx_env x) es s) (\<lambda>t s'. runtime_sound x s' \<and> (t = Continue \<longrightarrow> rs_tasks s' = 0))
      (\<lambda>e s'. all_durable x s')"
proof (induction es arbitrary: s)
  case (Cons e es)
  show ?case
  proof (cases "rs_tasks s = 0")
    case True
    then show ?thesis using Cons.prems by simp
  next
    case False
    show ?thesis
    proof (cases e)
      case (LateBatch clock batch)
      show ?thesis
      proof (cases batch)
        case None
        then show ?thesis using False LateBatch Cons by simp
      next
        case (Some b)
        then have "outcome (then_st (runtime_accept (cx_env x) clock b s) (\<lambda>_ s. drain_tasks (cx_env x) es s))
          (\<lambda>t s'. runtime_sound x s' \<and> (t = Continue \<longrightarrow> rs_tasks s' = 0)) (\<lambda>e s'. all_durable x s')"
          using Cons.prems LateBatch
          by (intro outcome_then [OF runtime_accept_sound [OF cx Cons.prems(1)]] Cons.IH) auto
        then show ?thesis using False LateBatch Some by simp
      qed
    next
      case (LateTask result)
      have "outcome (then_st (task_ended result s) (\<lambda>_ s. drain_tasks (cx_env x) es s))
          (\<lambda>t s'. runtime_sound x s' \<and> (t = Continue \<longrightarrow> rs_tasks s' = 0)) (\<lambda>e s'. all_durable x s')"
        using Cons.prems
        by (intro outcome_then [OF task_ended_sound [OF Cons.prems(1)]] Cons.IH) auto
      then show ?thesis using False LateTask by simp
    qed
  qed
qed simp

lemma drain_queue_sound:
  assumes cx: "context_ok x"
  shows "runtime_sound x s \<Longrightarrow> \<forall>(c, b) \<in> set bs. batch_known x b \<Longrightarrow>
    outcome (drain_queue (cx_env x) bs s)
      (\<lambda>_ s'. runtime_sound x s' \<and> rs_accepted s' = rs_accepted s @ map snd bs) (\<lambda>e s'. all_durable x s')"
proof (induction bs arbitrary: s)
  case (Cons cb bs)
  obtain c b where cb: "cb = (c, b)" by fastforce
  have k: "batch_known x b" using Cons.prems(2) cb by simp
  show ?case
    unfolding cb drain_queue.simps
  proof (rule outcome_then [OF runtime_accept_sound [OF cx Cons.prems(1) k]])
    fix u s1
    assume s1: "runtime_sound x s1 \<and> rs_accepted s1 = rs_accepted s @ [b]"
    show "outcome (drain_queue (cx_env x) bs s1)
      (\<lambda>_ s'. runtime_sound x s' \<and> rs_accepted s' = rs_accepted s @ map snd ((c, b) # bs)) (\<lambda>e s'. all_durable x s')"
      by (rule outcome_weaken [OF Cons.IH]) (use s1 Cons.prems(2) in auto)
  qed
qed simp

text \<open>What a completed shutdown has taken in.\<close>

definition taken_in :: "raw_ingest_runtime \<Rightarrow> shutdown \<Rightarrow> runtime_state \<Rightarrow> bool" where
  "taken_in self sd s \<longleftrightarrow> snd ` set (sd_queued sd) \<subseteq> set (rs_accepted s) \<and>
     (ir_external self \<longrightarrow> (\<exists>bs. sd_external sd = Some bs \<and> snd ` set bs \<subseteq> set (rs_accepted s)))"

definition shutdown_batches :: "shutdown \<Rightarrow> raw_source_batch list" where
  "shutdown_batches sd = concat (map late_batches (sd_late sd)) @ map snd (sd_queued sd) @
     (case sd_external sd of None \<Rightarrow> [] | Some bs \<Rightarrow> map snd bs)"

lemma drain_external_sound:
  assumes cx: "context_ok x" and s: "runtime_sound x s"
    and k: "\<forall>b \<in> set (shutdown_batches sd). batch_known x b"
  shows "outcome (drain_external (cx_env x) self (sd_external sd) s)
    (\<lambda>t s'. runtime_sound x s' \<and> (\<exists>more. rs_accepted s' = rs_accepted s @ more \<and>
       (t \<noteq> Waiting \<longrightarrow> ir_external self \<longrightarrow> (\<exists>bs. sd_external sd = Some bs \<and> more = map snd bs))))
    (\<lambda>e s'. all_durable x s')"
proof (cases "ir_external self \<and> sd_external sd \<noteq> None")
  case True
  then obtain bs where bs: "sd_external sd = Some bs" by blast
  have "\<forall>(c, b) \<in> set bs. batch_known x b" using k bs by (force simp: shutdown_batches_def)
  note q = drain_queue_sound [OF cx s this]
  show ?thesis
    using True bs by (simp add: drain_external_def) (rule outcome_then [OF q], simp)
next
  case False
  then show ?thesis using s by (auto simp: drain_external_def)
qed

lemma shut_down_sound:
  assumes cx: "context_ok x" and s: "runtime_sound x s"
    and k: "\<forall>b \<in> set (shutdown_batches sd). batch_known x b"
  shows "outcome (shut_down (cx_env x) self sd s)
    (\<lambda>t s'. runtime_sound x s' \<and> (t = Finished \<or> t = Waiting) \<and>
       (t = Finished \<longrightarrow> drained (rs_ingest s') \<and> taken_in self sd s'))
    (\<lambda>e s'. all_durable x s')"
  unfolding shut_down_def
proof (rule outcome_then [OF drain_tasks_sound [OF cx s]])
  show "\<forall>e \<in> set (sd_late sd). \<forall>b \<in> set (late_batches e). batch_known x b"
    using k by (force simp: shutdown_batches_def)
next
  fix t s1
  assume s1: "runtime_sound x s1 \<and> (t = Continue \<longrightarrow> rs_tasks s1 = 0)"
  let ?Q = "\<lambda>t s'. runtime_sound x s' \<and> (t = Finished \<or> t = Waiting) \<and>
       (t = Finished \<longrightarrow> drained (rs_ingest s') \<and> taken_in self sd s')"
  have kq: "\<forall>(c, b) \<in> set (sd_queued sd). batch_known x b" using k by (force simp: shutdown_batches_def)
  have "outcome (then_st (drain_queue (cx_env x) (sd_queued sd) s1) (\<lambda>_ s.
       then_st (drain_external (cx_env x) self (sd_external sd) s) (\<lambda>t s.
       if t = Waiting then (Inr Waiting, s)
       else
         then_st (on_ingest (ingest_checkpoint (cx_env x)) s) (\<lambda>_ s.
           (Inr Finished, on_metrics (\<lambda>m. m\<lparr>rm_queue_depth := 0\<rparr>) s)))))
    ?Q (\<lambda>e s'. all_durable x s')"
  proof (rule outcome_then [OF drain_queue_sound [OF cx conjunct1 [OF s1] kq]])
    fix u s2
    assume s2: "runtime_sound x s2 \<and> rs_accepted s2 = rs_accepted s1 @ map snd (sd_queued sd)"
    show "outcome (then_st (drain_external (cx_env x) self (sd_external sd) s2) (\<lambda>t s.
       if t = Waiting then (Inr Waiting, s)
       else
         then_st (on_ingest (ingest_checkpoint (cx_env x)) s) (\<lambda>_ s.
           (Inr Finished, on_metrics (\<lambda>m. m\<lparr>rm_queue_depth := 0\<rparr>) s))))
      ?Q (\<lambda>e s'. all_durable x s')"
    proof (rule outcome_then [OF drain_external_sound [OF cx conjunct1 [OF s2] k, of self]])
      fix t s3
      assume s3: "runtime_sound x s3 \<and> (\<exists>more. rs_accepted s3 = rs_accepted s2 @ more \<and>
         (t \<noteq> Waiting \<longrightarrow> ir_external self \<longrightarrow> (\<exists>bs. sd_external sd = Some bs \<and> more = map snd bs)))"
      have set_map_snd: "snd ` set bs = set (map snd bs)" for bs :: "((nat \<times> nat) \<times> raw_source_batch) list" by simp
      have taken: "taken_in self sd s4" if "t \<noteq> Waiting" "same_history s3 s4" for s4
        using s2 s3 that by (auto simp: taken_in_def same_history_def set_map_snd simp del: set_map)
      have "outcome (then_st (on_ingest (ingest_checkpoint (cx_env x)) s3) (\<lambda>_ s.
           (Inr Finished, on_metrics (\<lambda>m. m\<lparr>rm_queue_depth := 0\<rparr>) s))) ?Q (\<lambda>e s'. all_durable x s')"
        if "t \<noteq> Waiting"
        by (rule outcome_then [OF checkpoint_sound [OF cx conjunct1 [OF s3]]])
          (use taken [OF that] in \<open>auto simp: sound_cong [of "on_metrics _ _"] same_history_def\<close>)
      then show "outcome (if t = Waiting then (Inr Waiting, s3)
         else then_st (on_ingest (ingest_checkpoint (cx_env x)) s3) (\<lambda>_ s.
           (Inr Finished, on_metrics (\<lambda>m. m\<lparr>rm_queue_depth := 0\<rparr>) s)))
        ?Q (\<lambda>e s'. all_durable x s')"
        using s3 by simp
    qed
  qed
  then show "outcome (if t = Waiting then (Inr Waiting, s1)
     else
       then_st (drain_queue (cx_env x) (sd_queued sd) s1) (\<lambda>_ s.
       then_st (drain_external (cx_env x) self (sd_external sd) s) (\<lambda>t s.
       if t = Waiting then (Inr Waiting, s)
       else
         then_st (on_ingest (ingest_checkpoint (cx_env x)) s) (\<lambda>_ s.
           (Inr Finished, on_metrics (\<lambda>m. m\<lparr>rm_queue_depth := 0\<rparr>) s)))))
    ?Q (\<lambda>e s'. all_durable x s')"
    using s1 by simp
qed

section \<open>The whole run\<close>

fun event_batches :: "runtime_event \<Rightarrow> raw_source_batch list" where
  "event_batches (Cancellation sd) = shutdown_batches sd"
| "event_batches (FromSources clock (Some b)) = [b]"
| "event_batches (FromExternal clock (Some b)) = [b]"
| "event_batches e = []"

fun other_ok :: "int \<Rightarrow> runtime_event \<Rightarrow> bool" where
  "other_ok N (OtherTask cmd) \<longleftrightarrow> command_fits N cmd \<and> \<not> journal_command cmd"
| "other_ok N e \<longleftrightarrow> True"

fun purged_by :: "runtime_event \<Rightarrow> string set" where
  "purged_by (OtherPurge ch) = {ch}"
| "purged_by e = {}"

definition event_known :: "runtime_context \<Rightarrow> runtime_event \<Rightarrow> bool" where
  "event_known x e \<longleftrightarrow> (\<forall>b \<in> set (event_batches e). batch_known x b) \<and> other_ok (cx_N x) e \<and>
     {r. channel_key r \<in> purged_by e} \<subseteq> cx_purged x"

definition shutdown_of :: "raw_ingest_runtime \<Rightarrow> runtime_event \<Rightarrow> runtime_state \<Rightarrow> bool" where
  "shutdown_of self e s \<longleftrightarrow> (\<exists>sd. e = Cancellation sd \<and> drained (rs_ingest s) \<and> taken_in self sd s)"

lemma continuing_sound:
  assumes "outcome m (\<lambda>_ s'. runtime_sound x s') (\<lambda>e s'. all_durable x s')"
  shows "outcome (continuing m) (\<lambda>t s'. runtime_sound x s' \<and> (t = Finished \<longrightarrow> shutdown_of self e s'))
    (\<lambda>e s'. all_durable x s')"
  unfolding continuing_def by (rule outcome_then [OF assms]) simp

lemma purge_sound:
  assumes s: "runtime_sound x s" and p: "{r. channel_key r = ch} \<subseteq> cx_purged x"
  shows "runtime_sound x (s\<lparr>rs_ingest := (rs_ingest s)\<lparr>di_open := open_purge_channel ch (di_open (rs_ingest s))\<rparr>\<rparr>)"
proof -
  have same: "cx_purged x \<union> {r \<in> open_set (di_open (rs_ingest s)). channel_key r = ch} = cx_purged x"
    using p by auto
  have "running (cx_env x) (cx_N x) (cx_limits x) (cx_purged x)
      ((rs_ingest s)\<lparr>di_open := open_purge_channel ch (di_open (rs_ingest s))\<rparr>)"
    using live_purge [OF sound_parts(1) [OF s, unfolded running_def], of ch] unfolding same
    by (simp add: running_def)
  then show ?thesis
    using s by (simp add: runtime_sound_def runtime_base_def all_durable_def accepted_records_def)
qed

lemma runtime_turn_sound:
  assumes cx: "context_ok x" and s: "runtime_sound x s" and e: "event_known x e"
  shows "outcome (runtime_turn (cx_env x) self e s)
    (\<lambda>t s'. runtime_sound x s' \<and> (t = Finished \<longrightarrow> shutdown_of self e s')) (\<lambda>e s'. all_durable x s')"
proof (cases e)
  case (Cancellation sd)
  then have "\<forall>b \<in> set (shutdown_batches sd). batch_known x b" using e by (simp add: event_known_def)
  from shut_down_sound [OF cx s this] show ?thesis
    unfolding Cancellation runtime_turn.simps by (rule outcome_weaken) (auto simp: shutdown_of_def)
next
  case (FromSources clock batch)
  have "runtime_sound x (s\<lparr>source_open := False\<rparr>)" using s sound_cong [of "s\<lparr>source_open := False\<rparr>" s x] by simp
  moreover have "outcome (continuing (runtime_accept (cx_env x) clock b s))
      (\<lambda>t s'. runtime_sound x s' \<and> (t = Finished \<longrightarrow> shutdown_of self e s')) (\<lambda>e s'. all_durable x s')"
    if "batch = Some b" for b
    by (rule continuing_sound, rule outcome_weaken [OF runtime_accept_sound [OF cx s]])
      (use e that FromSources in \<open>auto simp: event_known_def\<close>)
  ultimately show ?thesis
    using s sound_all_durable [OF s] FromSources by (cases batch) simp_all
next
  case (FromExternal clock batch)
  let ?s = "s\<lparr>external_open := False\<rparr>"
  have "runtime_sound x ?s" using s sound_cong [of ?s s x] by simp
  moreover have "outcome (continuing (runtime_accept (cx_env x) clock b s))
      (\<lambda>t s'. runtime_sound x s' \<and> (t = Finished \<longrightarrow> shutdown_of self e s')) (\<lambda>e s'. all_durable x s')"
    if "batch = Some b" for b
    by (rule continuing_sound, rule outcome_weaken [OF runtime_accept_sound [OF cx s]])
      (use e that FromExternal in \<open>auto simp: event_known_def\<close>)
  ultimately show ?thesis
    using s sound_all_durable [of x ?s] FromExternal by (cases batch) simp_all
next
  case (SealTick now)
  show ?thesis
    unfolding SealTick runtime_turn.simps by (rule outcome_then [OF seal_due_sound [OF cx s]]) simp
next
  case (CheckpointPoll p)
  show ?thesis
    unfolding CheckpointPoll runtime_turn.simps by (rule continuing_sound [OF checkpoint_poll_sound [OF cx s]])
next
  case (TaskJoined result)
  then show ?thesis using s continuing_sound [OF task_ended_sound [OF s]] by simp
next
  case (MetricsRefresh f1 f2)
  then show ?thesis using s sound_cong [of "on_metrics _ s" s x] by simp
next
  case (OtherTask cmd)
  have cmd: "command_fits (cx_N x) cmd" "\<not> journal_command cmd" using e OtherTask by (simp_all add: event_known_def)
  let ?d = "rs_ingest s" and ?env = "cx_env x"
  obtain res st where c: "call (ie_codec ?env) (ie_config ?env) cmd Inr (di_store ?d) = (res, st)" by fastforce
  have ok: "ingest_setup ?env (cx_N x) (cx_limits x)" using cx by (simp add: context_ok_def)
  note a = other_call [OF ok sound_parts(3) [OF s] cmd c, of "cx_purged x"]
  let ?s = "s\<lparr>rs_ingest := ?d\<lparr>di_store := st\<rparr>\<rparr>"
  have "all_durable x ?s"
    by (rule all_durable_step [OF sound_all_durable [OF s], of _ "cx_N x"]) (use a in \<open>simp_all add: same_history_def\<close>)
  then have "runtime_sound x ?s"
    using running_store_step [OF sound_parts(1) [OF s] conjunct1 [OF a] conjunct2 [OF a]] sound_parts(2,5) [OF s]
    by (simp add: runtime_sound_def runtime_base_def)
  then show ?thesis using OtherTask c by simp
next
  case (OtherPurge ch)
  then have "{r. channel_key r = ch} \<subseteq> cx_purged x" using e by (simp add: event_known_def)
  then show ?thesis using purge_sound [OF s] OtherPurge by simp
qed

lemma runtime_loop_sound:
  assumes cx: "context_ok x"
  shows "runtime_sound x s \<Longrightarrow> \<forall>(k, e) \<in> set events. event_known x e \<Longrightarrow>
    runtime_loop (cx_env x) self events s = (res, s') \<Longrightarrow>
    all_durable x s' \<and> (res = Some (Inr ()) \<longrightarrow> rs_received s' = rs_accepted s' \<and>
      (\<exists>(k, e) \<in> set events. shutdown_of self e s'))"
proof (induction events arbitrary: s)
  case Nil
  then show ?case using sound_all_durable by simp
next
  case (Cons ke es)
  obtain k e where ke: "ke = (k, e)" by fastforce
  let ?s = "on_metrics (\<lambda>m. m\<lparr>rm_queue_depth := i64_try_from_or_max k\<rparr>) s"
  have s: "runtime_sound x ?s" using Cons.prems(1) sound_cong [of ?s s x] by simp
  have e: "event_known x e" using Cons.prems(2) ke by simp
  from runtime_turn_sound [OF cx s e, of self] show ?case
  proof (cases rule: outcome_cases)
    case (1 err s1)
    then have "res = Some (Inl err)" "s' = s1" using Cons.prems(3) ke by simp_all
    then show ?thesis using 1 by simp
  next
    case (2 t s1)
    show ?thesis
    proof (cases t)
      case Continue
      then have l: "runtime_loop (cx_env x) self es s1 = (res, s')" using 2 Cons.prems(3) ke by simp
      have s1: "runtime_sound x s1" using 2(2) by simp
      have es: "\<forall>(k, e) \<in> set es. event_known x e" using Cons.prems(2) by simp
      from Cons.IH [OF s1 es l] show ?thesis by auto
    next
      case Finished
      then have "res = Some (Inr ())" "s' = s1" using 2 Cons.prems(3) ke by simp_all
      then show ?thesis using 2 Finished sound_all_durable sound_parts(5) ke by auto
    next
      case Waiting
      then have "res = None" "s' = s1" using 2 Cons.prems(3) ke by simp_all
      then show ?thesis using 2 sound_all_durable by simp
    qed
  qed
qed

text \<open>The context of a run that starts on what a stopped process left.\<close>

definition run_context ::
    "ingest_env \<Rightarrow> int \<Rightarrow> open_block_limits \<Rightarrow> ingest_system \<Rightarrow> (nat \<times> runtime_event) list \<Rightarrow> runtime_context" where
  "run_context env N l sys events =
     \<lparr>cx_env = env, cx_N = N, cx_limits = l,
      cx_purged = is_purged sys \<union> {r. \<exists>(k, e) \<in> set events. channel_key r \<in> purged_by e},
      cx_payloads = payloads (system_store sys) \<union>
        {data. \<exists>(k, e) \<in> set events. \<exists>b \<in> set (event_batches e).
           encode_journal (ie_journal env) (rb_records b) = Inr data},
      cx_before = is_acknowledged sys\<rparr>"

lemma runtime_run_sound:
  assumes env: "ingest_setup env N l" "journal_laws (ie_journal env)"
    and reach: "ingest_reachable env N l sys" and st: "is_process sys = Inl st" and new: "ingest_new st l = Inr d"
    and self: "ir_ingest self = d" and others: "\<forall>(k, e) \<in> set events. other_ok N e"
    and hash: "inj_on (blake3_hash (ie_journal env)) (cx_payloads (run_context env N l sys events))"
    and run: "runtime_run env self sr events = (res, s')"
  shows "all_durable (run_context env N l sys events) s' \<and>
    (res = Some (Inr ()) \<longrightarrow> rs_received s' = rs_accepted s' \<and> (\<exists>(k, e) \<in> set events. shutdown_of self e s'))"
proof -
  let ?x = "run_context env N l sys events"
  have ctx: "cx_env ?x = env" "cx_N ?x = N" "cx_limits ?x = l" "cx_before ?x = is_acknowledged sys"
    by (simp_all add: run_context_def)
  have cx: "context_ok ?x" using env hash by (simp add: context_ok_def ctx)
  have inv: "system_inv env N l sys" by (rule ingest_reachable_inv [OF env reach])
  have sound: "store_sound env N st" using inv st by (simp add: system_inv_def system_store_def)
  have d: "di_store d = st" using new by (auto simp: ingest_new_def)
  let ?s = "runtime_state_new self sr"
  have s: "rs_ingest ?s = d" "rs_accepted ?s = []" "rs_received ?s = []"
    by (simp_all add: runtime_state_new_def self)
  have purged: "is_purged sys \<subseteq> cx_purged ?x" by (simp add: run_context_def)
  have dur: "all_durable ?x ?s"
    using inv st d durable_mono [OF _ purged]
    by (simp add: all_durable_def accepted_records_def s ctx system_inv_def system_store_def)
  have pay: "payloads st \<subseteq> cx_payloads ?x" using st by (simp add: run_context_def system_store_def)
  from recover_running [OF env(1) sound new, of "sr_now sr" "cx_purged ?x"]
  have rec: "outcome (on_ingest (recover_pending env (sr_now sr)) ?s)
    (\<lambda>_ s1. runtime_sound ?x s1) (\<lambda>e s1. all_durable ?x s1)"
  proof (cases rule: outcome_cases)
    case (1 e d')
    then show ?thesis
      using all_durable_step [OF dur, of "?s\<lparr>rs_ingest := d'\<rparr>" N]
      by (simp add: on_ingest_def s same_history_def safe_def ctx)
  next
    case (2 n d')
    have "all_durable ?x (?s\<lparr>rs_ingest := d'\<rparr>)"
      using all_durable_step [OF dur, of "?s\<lparr>rs_ingest := d'\<rparr>" N] 2(2)
      by (simp add: s same_history_def safe_def ctx)
    then show ?thesis
      using 2 pay d by (simp add: on_ingest_def s runtime_sound_def runtime_base_def ctx same_journal_def payloads_def)
  qed
  have known: "\<forall>(k, e) \<in> set events. event_known ?x e"
    using others by (fastforce simp: event_known_def batch_known_def run_context_def)
  from rec show ?thesis
  proof (cases rule: outcome_cases)
    case (1 e s1)
    then have "res = Some (Inl e)" "s' = s1" using run by (simp_all add: runtime_run_def)
    then show ?thesis using 1(2) by simp
  next
    case (2 n s1)
    show ?thesis
    proof (cases "record_store_metrics (sr_stats_failure sr) (sr_journal_failure sr)
        (di_store (rs_ingest s1)) (rs_metrics s1)")
      case (Inl e)
      then have "res = Some (Inl e)" "s' = s1" using 2 run by (simp_all add: runtime_run_def)
      then show ?thesis using sound_all_durable [OF 2(2)] by simp
    next
      case (Inr m)
      have "runtime_sound ?x (s1\<lparr>rs_metrics := m\<rparr>)" using 2(2) sound_cong [of "s1\<lparr>rs_metrics := m\<rparr>" s1 ?x] by simp
      moreover have "runtime_loop env self events (s1\<lparr>rs_metrics := m\<rparr>) = (res, s')"
        using 2 run Inr by (simp add: runtime_run_def)
      ultimately show ?thesis using runtime_loop_sound [OF cx _ known, unfolded ctx] by blast
    qed
  qed
qed

section \<open>Properties\<close>

text \<open>
  C3: A shutdown that reports success has drained everything. The journal is empty, nothing is open and
  no sequence number is pending; every batch left in the queue of the sources, and every batch of the
  external channel up to its end, was taken in; every batch that was taken in was acknowledged, and
  each of its records, and of the batches acknowledged before the start, was committed to the store, itself
  or as a copy of its event with at least its fidelity, unless its channel was purged.
\<close>
theorem clean_shutdown:
  assumes env: "ingest_setup env N l" "journal_laws (ie_journal env)"
    and reach: "ingest_reachable env N l sys" and st: "is_process sys = Inl st" and new: "ingest_new st l = Inr d"
    and self: "ir_ingest self = d" and others: "\<forall>(k, e) \<in> set events. other_ok N e"
    and hash: "inj_on (blake3_hash (ie_journal env)) (payloads st \<union>
      {data. \<exists>(k, e) \<in> set events. \<exists>b \<in> set (event_batches e).
         encode_journal (ie_journal env) (rb_records b) = Inr data})"
    and run: "runtime_run env self sr events = (Some (Inr ()), s')"
  shows "ingest_journal (as_db (di_store (rs_ingest s'))) = [] \<and>
    open_set (di_open (rs_ingest s')) = {} \<and> materialized_through (rs_ingest s') = [] \<and>
    (\<exists>k sd. (k, Cancellation sd) \<in> set events \<and> snd ` set (sd_queued sd) \<subseteq> set (rs_received s') \<and>
       (ir_external self \<longrightarrow> (\<exists>bs. sd_external sd = Some bs \<and> snd ` set bs \<subseteq> set (rs_received s')))) \<and>
    (\<forall>r \<in> is_acknowledged sys \<union> (\<Union>b \<in> set (rs_received s'). set (rb_records b)).
       (\<exists>(k, e) \<in> set events. channel_key r \<in> purged_by e) \<or>
       (\<exists>q \<in> committed (di_store (rs_ingest s')) \<union> is_purged sys.
          channel_key q = channel_key r \<and> event_key q = event_key r \<and> fidelity r \<le> fidelity q))"
proof -
  let ?x = "run_context env N l sys events"
  have "inj_on (blake3_hash (ie_journal env)) (cx_payloads ?x)"
    using hash st by (simp add: run_context_def system_store_def)
  note r = runtime_run_sound [OF env reach st new self others this run]
  then obtain k e where e: "(k, e) \<in> set events" "shutdown_of self e s'" by auto
  then obtain sd where sd: "e = Cancellation sd" "drained (rs_ingest s')" "taken_in self sd s'"
    by (auto simp: shutdown_of_def)
  have same: "rs_accepted s' = rs_received s'" using r by simp
  have "(\<exists>(k, e) \<in> set events. channel_key r \<in> purged_by e) \<or>
       (\<exists>q \<in> committed (di_store (rs_ingest s')) \<union> is_purged sys.
          channel_key q = channel_key r \<and> event_key q = event_key r \<and> fidelity r \<le> fidelity q)"
    if "r \<in> is_acknowledged sys \<union> (\<Union>b \<in> set (rs_received s'). set (rb_records b))" for r
  proof -
    have "durable (ie_journal env) (cx_purged ?x) (di_store (rs_ingest s')) r"
      using r that by (simp add: all_durable_def accepted_records_def run_context_def same)
    then have "kept (committed (di_store (rs_ingest s')) \<union> cx_purged ?x) r"
      using sd(2) by (simp add: durable_def journaled_def drained_def)
    then obtain q where q: "q \<in> committed (di_store (rs_ingest s')) \<union> cx_purged ?x"
      "channel_key q = channel_key r" "event_key q = event_key r" "fidelity r \<le> fidelity q"
      by (auto simp: kept_def)
    show ?thesis
    proof (cases "q \<in> committed (di_store (rs_ingest s')) \<union> is_purged sys")
      case True
      then show ?thesis using q by blast
    next
      case False
      then show ?thesis using q by (auto simp: run_context_def)
    qed
  qed
  moreover have "\<exists>k sd. (k, Cancellation sd) \<in> set events \<and> snd ` set (sd_queued sd) \<subseteq> set (rs_received s') \<and>
       (ir_external self \<longrightarrow> (\<exists>bs. sd_external sd = Some bs \<and> snd ` set bs \<subseteq> set (rs_received s')))"
    using e(1) sd(1,3) by (intro exI [of _ k] exI [of _ sd]) (simp add: taken_in_def same)
  ultimately show ?thesis using sd(2) unfolding drained_def by blast
qed

text \<open>
  However the task ends, or while it is still running, with any call of the store failing, a batch
  counted as accepted is durable: each record is in an intact row of the journal, ready for the next
  start, or was committed to the store or lost only to a purge of its channel.
\<close>
theorem task_loses_nothing:
  assumes env: "ingest_setup env N l" "journal_laws (ie_journal env)"
    and reach: "ingest_reachable env N l sys" and st: "is_process sys = Inl st" and new: "ingest_new st l = Inr d"
    and self: "ir_ingest self = d" and others: "\<forall>(k, e) \<in> set events. other_ok N e"
    and hash: "inj_on (blake3_hash (ie_journal env)) (payloads st \<union>
      {data. \<exists>(k, e) \<in> set events. \<exists>b \<in> set (event_batches e).
         encode_journal (ie_journal env) (rb_records b) = Inr data})"
    and run: "runtime_run env self sr events = (res, s')"
    and r: "r \<in> is_acknowledged sys \<union> (\<Union>b \<in> set (rs_accepted s'). set (rb_records b))"
  shows "(\<exists>j \<in> set (ingest_journal (as_db (di_store (rs_ingest s')))). \<exists>rs.
       blake3_hash (ie_journal env) (jr_payload j) = jr_checksum j \<and>
       decode_journal (ie_journal env) (jr_payload j) = Inr rs \<and> r \<in> set rs) \<or>
    (\<exists>q. (q \<in> committed (di_store (rs_ingest s')) \<union> is_purged sys \<or>
          (\<exists>(k, e) \<in> set events. channel_key q \<in> purged_by e)) \<and>
       channel_key q = channel_key r \<and> event_key q = event_key r \<and> fidelity r \<le> fidelity q)"
proof -
  let ?x = "run_context env N l sys events"
  have "inj_on (blake3_hash (ie_journal env)) (cx_payloads ?x)"
    using hash st by (simp add: run_context_def system_store_def)
  note s = runtime_run_sound [OF env reach st new self others this run]
  have "durable (ie_journal env) (cx_purged ?x) (di_store (rs_ingest s')) r"
    using s r by (simp add: all_durable_def accepted_records_def run_context_def)
  then consider "journaled (ie_journal env) (di_store (rs_ingest s')) r"
    | q where "q \<in> committed (di_store (rs_ingest s')) \<union> cx_purged ?x"
      "channel_key q = channel_key r" "event_key q = event_key r" "fidelity r \<le> fidelity q"
    by (auto simp: durable_def kept_def)
  then show ?thesis
  proof cases
    case 1
    then show ?thesis by (auto simp: journaled_def row_holds_def)
  next
    case 2
    then show ?thesis by (intro disjI2 exI [of _ q]) (auto simp: run_context_def)
  qed
qed

definition rt_runtime :: raw_ingest_runtime where
  "rt_runtime = \<lparr>ir_ingest = ing_boot, ir_sources = [ex_firehose], ir_external = True,
     ir_config = \<lparr>queue_batches = 4, seal_interval = 5, checkpoint_interval = 100, checkpoint_poll_interval = 10,
       checkpoint_journal_bytes = 1, message_ttl = 1000\<rparr>, ir_budget = Some bud_budget\<rparr>"

definition rt_start :: start_readings where
  "rt_start = \<lparr>sr_now = 5, sr_stats_failure = None, sr_journal_failure = None, sr_instant = 0,
     sr_metrics = \<lparr>rm_queue_depth = 0, rm_accepted_batches = 0, rm_accepted_records = 0, rm_last_accept = 0,
       rm_checkpoints = 0, rm_last_checkpoint = 0, rm_expired_blocks = 0, rm_expired_messages = 0,
       rm_store = \<lparr>st_channels = 0, st_blocks = 0, st_messages = 0, st_compressed_bytes = 0, st_uncompressed_bytes = 0\<rparr>,
       rm_journal_batches = 0, rm_journal_bytes = 0\<rparr>\<rparr>"

definition rt_events :: "(nat \<times> runtime_event) list" where
  "rt_events = [(1, FromSources (6, 7) (Some ing_batch)), (0, SealTick 8),
     (1, Cancellation \<lparr>sd_late = [LateTask (Inr ())], sd_queued = [((9, 9), ing_batch)], sd_external = Some []\<rparr>)]"

lemma rt_hash:
  "inj_on (blake3_hash (ie_journal ing_env)) (payloads \<lparr>as_db = empty_db, as_fates = [], as_history = []\<rparr> \<union>
      {data. \<exists>(k, e) \<in> set rt_events. \<exists>b \<in> set (event_batches e).
         encode_journal (ie_journal ing_env) (rb_records b) = Inr data})"
proof -
  have "payloads \<lparr>as_db = empty_db, as_fates = [], as_history = []\<rparr> = {}" by (simp add: payloads_def empty_db_def)
  moreover have "encode_journal (ie_journal ing_env) rs = Inr data \<Longrightarrow> data = [1]" for rs data
    by (auto simp: encode_journal_def ing_env_def ing_codec_def split: if_splits)
  then have "{data. \<exists>(k, e) \<in> set rt_events. \<exists>b \<in> set (event_batches e).
         encode_journal (ie_journal ing_env) (rb_records b) = Inr data} \<subseteq> {[1]}" by auto
  ultimately show ?thesis by (simp add: inj_on_subset [of _ "{[1]}"])
qed

lemma rt_others: "\<forall>(k, e) \<in> set rt_events. other_ok 3 e"
  by (simp add: rt_events_def)

lemma rt_boot: "is_process \<lparr>is_process = Inl \<lparr>as_db = empty_db, as_fates = [], as_history = []\<rparr>,
    is_acknowledged = {}, is_purged = {}\<rparr> = Inl \<lparr>as_db = empty_db, as_fates = [], as_history = []\<rparr>"
  by simp

theorem clean_shutdown_witness:
  "\<exists>s'. runtime_run ing_env rt_runtime rt_start rt_events = (Some (Inr ()), s') \<and>
    length (rs_received s') = 2 \<and> ingest_journal (as_db (di_store (rs_ingest s'))) = [] \<and>
    (\<exists>k sd. (k, Cancellation sd) \<in> set rt_events \<and> snd ` set (sd_queued sd) \<subseteq> set (rs_received s'))"
proof -
  let ?r = "runtime_run ing_env rt_runtime rt_start rt_events"
  have "fst ?r = Some (Inr ())" "length (rs_received (snd ?r)) = 2" by code_simp+
  then obtain s' where s': "?r = (Some (Inr ()), s')" "length (rs_received s') = 2" by (cases ?r) auto
  have self: "ir_ingest rt_runtime = ing_boot" by (simp add: rt_runtime_def)
  note c = clean_shutdown [OF ing_setup ing_laws boot rt_boot ing_boot_new self rt_others rt_hash s'(1)]
  have e: "\<exists>k sd. (k, Cancellation sd) \<in> set rt_events \<and> snd ` set (sd_queued sd) \<subseteq> set (rs_received s') \<and>
       (ir_external rt_runtime \<longrightarrow> (\<exists>bs. sd_external sd = Some bs \<and> snd ` set bs \<subseteq> set (rs_received s')))"
    by (rule conjunct1 [OF conjunct2 [OF conjunct2 [OF conjunct2 [OF c]]]])
  then obtain k sd where "(k, Cancellation sd) \<in> set rt_events" "snd ` set (sd_queued sd) \<subseteq> set (rs_received s')"
    by (elim exE conjE)
  then show ?thesis by (intro exI [of _ s'] exI conjI s' conjunct1 [OF c])
qed

text \<open>The store's thread stops during the seal of the second event; the first batch stays in the journal.\<close>

definition rt_failing :: durable_ingest where
  "rt_failing = ing_boot\<lparr>di_store := \<lparr>as_db = empty_db, as_fates = [Answered, Answered, SendFailed], as_history = []\<rparr>\<rparr>"

theorem task_loses_nothing_witness:
  "\<exists>s'. runtime_run ing_env (rt_runtime\<lparr>ir_ingest := rt_failing\<rparr>) rt_start
      [(1, FromSources (6, 7) (Some ing_batch)), (0, SealTick 200)] = (Some (Inl (RuntimeIngest (StoreFailed writer_closed))), s') \<and>
    (\<exists>j \<in> set (ingest_journal (as_db (di_store (rs_ingest s')))). \<exists>rs.
       decode_journal (ie_journal ing_env) (jr_payload j) = Inr rs \<and> ing_record \<in> set rs)"
proof -
  let ?fates = "[Answered, Answered, SendFailed]"
  let ?st = "\<lparr>as_db = empty_db, as_fates = ?fates, as_history = []\<rparr>"
  let ?sys = "\<lparr>is_process = Inl ?st, is_acknowledged = {}, is_purged = {}\<rparr>"
  let ?events = "[(1, FromSources (6, 7) (Some ing_batch)), (0, SealTick 200)]"
  let ?rt = "rt_runtime\<lparr>ir_ingest := rt_failing\<rparr>"
  let ?r = "runtime_run ing_env ?rt rt_start ?events"
  have reach: "ingest_reachable ing_env 3 ing_limits ?sys"
    using fate [OF boot, of ing_env 3 ing_limits ?fates] by (simp add: map_store_def)
  have new: "ingest_new ?st ing_limits = Inr rt_failing"
    by (simp add: ingest_new_def new_manager_def ing_limits_def limits_valid_def ing_boot_def rt_failing_def)
  have st: "is_process ?sys = Inl ?st" and self: "ir_ingest ?rt = rt_failing"
    and others: "\<forall>(k, e) \<in> set ?events. other_ok 3 e" by simp_all
  have "encode_journal (ie_journal ing_env) rs = Inr data \<Longrightarrow> data = [1]" for rs data
    by (auto simp: encode_journal_def ing_env_def ing_codec_def split: if_splits)
  then have hash: "inj_on (blake3_hash (ie_journal ing_env)) (payloads ?st \<union>
      {data. \<exists>(k, e) \<in> set ?events. \<exists>b \<in> set (event_batches e).
         encode_journal (ie_journal ing_env) (rb_records b) = Inr data})"
    by (auto simp: payloads_def empty_db_def inj_on_def)
  have v: "fst ?r = Some (Inl (RuntimeIngest (StoreFailed writer_closed)))"
    "map rb_records (rs_accepted (snd ?r)) = [[ing_record]]"
    "list_all (\<lambda>h. committed_by h = {}) (as_history (di_store (rs_ingest (snd ?r))))" by code_simp+
  obtain res s' where r: "?r = (res, s')" by fastforce
  have v': "res = Some (Inl (RuntimeIngest (StoreFailed writer_closed)))" "map rb_records (rs_accepted s') = [[ing_record]]"
    "committed (di_store (rs_ingest s')) = {}"
    using v unfolding r by (auto simp: committed_def list_all_iff)
  then have acc: "ing_record \<in> is_acknowledged ?sys \<union> (\<Union>b \<in> set (rs_accepted s'). set (rb_records b))" by auto
  show ?thesis
    using task_loses_nothing [OF ing_setup ing_laws reach st new self others hash r acc] v'(1,3) r by auto
qed

end
