(* ===== verification/IrcListener.thy ===== *)
theory IrcListener
  imports RawFirehose ControlProperties
begin

text \<open>
  The bot's own connection to the chat, \<^verbatim>\<open>src/irc_listener.rs\<close>: the forwarder, which records joins
  and parts in the control store, keeps the live coverage of each channel and sends what it hears to the
  ingest, and the loop that decides which channels the bot is in. The \<open>twitch_irc\<close> client is outside:
  its messages and the channel states it reports are events, the commands it is given are listed.
  Instants and durations are milliseconds.
\<close>

section \<open>Messages of the client\<close>

text \<open>Each with the line it was parsed from; other messages are not sent to a channel.\<close>

datatype server_message =
    ClearChat string string
  | ClearMsg string string
  | Join string string
  | Notice "string option" "string option" string
  | Part string string
  | Privmsg string string
  | RoomState string string
  | UserNotice string string
  | UserState string string
  | OtherMessage string

fun channel_login :: "server_message \<Rightarrow> string option" where
  "channel_login (ClearChat ch raw) = Some ch"
| "channel_login (ClearMsg ch raw) = Some ch"
| "channel_login (Join ch raw) = Some ch"
| "channel_login (Notice ch mid raw) = ch"
| "channel_login (Part ch raw) = Some ch"
| "channel_login (Privmsg ch raw) = Some ch"
| "channel_login (RoomState ch raw) = Some ch"
| "channel_login (UserNotice ch raw) = Some ch"
| "channel_login (UserState ch raw) = Some ch"
| "channel_login (OtherMessage raw) = None"

fun message_source :: "server_message \<Rightarrow> string" where
  "message_source (ClearChat ch raw) = raw"
| "message_source (ClearMsg ch raw) = raw"
| "message_source (Join ch raw) = raw"
| "message_source (Notice ch mid raw) = raw"
| "message_source (Part ch raw) = raw"
| "message_source (Privmsg ch raw) = raw"
| "message_source (RoomState ch raw) = raw"
| "message_source (UserNotice ch raw) = raw"
| "message_source (UserState ch raw) = raw"
| "message_source (OtherMessage raw) = raw"

datatype client_command = PartChannel string | JoinChannel string | SetWanted "string set"

record irc_config =
  join_retry_min :: nat
  join_retry_max :: nat
  unavailable_retry_after :: nat
  join_confirmation_timeout :: nat
  channels_expire_after :: nat
  irc_message_ttl :: nat

section \<open>The forwarder\<close>

text \<open>\<open>fw_output\<close> is \<open>None\<close> when the ingest is disabled.\<close>

record forwarder =
  fw_batcher :: "direct_irc_batcher option"
  fw_output :: "ingest_queue option"
  fw_db :: control_db
  fw_client :: "client_command list"

definition owned_irc :: string where
  "owned_irc = ''owned-irc''"

definition direct_irc :: string where
  "direct_irc = ''direct-irc''"

text \<open>\<open>expect\<close> on the new batcher: with batches of no messages the process stops.\<close>

definition forwarder_new ::
    "ingest_queue option \<Rightarrow> nat \<Rightarrow> int \<Rightarrow> nat \<Rightarrow> control_db \<Rightarrow> unit + forwarder" where
  "forwarder_new output pid now batch_messages db =
     (case output of
        None \<Rightarrow> Inr \<lparr>fw_batcher = None, fw_output = None, fw_db = db, fw_client = []\<rparr>
      | Some q \<Rightarrow>
          and_then (direct_batcher_new owned_irc (owned_irc @ ''-'' @ show_nat pid @ ''-'' @ show_int now) batch_messages)
            (\<lambda>b. Inr \<lparr>fw_batcher = Some b, fw_output = Some q, fw_db = db, fw_client = []\<rparr>))"

definition on_db :: "(control_db \<Rightarrow> control_db) \<Rightarrow> forwarder \<Rightarrow> forwarder" where
  "on_db g f = f\<lparr>fw_db := g (fw_db f)\<rparr>"

text \<open>\<open>output.send(batch)\<close>: whether the batch was delivered.\<close>

definition forward_batch :: "raw_source_batch \<Rightarrow> forwarder \<Rightarrow> bool \<times> forwarder" where
  "forward_batch batch f =
     (case fw_output f of
        None \<Rightarrow> (False, f)
      | Some q \<Rightarrow>
          (case send_if_some (Some batch) q of
             (Inl e, q') \<Rightarrow> (False, f\<lparr>fw_output := Some q'\<rparr>)
           | (Inr u, q') \<Rightarrow> (True, f\<lparr>fw_output := Some q'\<rparr>)))"

text \<open>Flushing the batcher: false only when there was a batch and it could not be delivered.\<close>

definition forward_flush :: "forwarder \<Rightarrow> bool \<times> forwarder" where
  "forward_flush f =
     (case (fw_output f, fw_batcher f) of
        (Some q, Some b) \<Rightarrow>
          (case direct_flush b of
             (None, b') \<Rightarrow> (True, f\<lparr>fw_batcher := Some b'\<rparr>)
           | (Some batch, b') \<Rightarrow> forward_batch batch (f\<lparr>fw_batcher := Some b'\<rparr>))
      | _ \<Rightarrow> (True, f))"

definition ingest_stopped :: "forwarder \<Rightarrow> forwarder" where
  "ingest_stopped f = on_db discard_all_live_coverage (f\<lparr>fw_batcher := None\<rparr>)"

definition flush_tick :: "forwarder \<Rightarrow> forwarder" where
  "flush_tick f = (if fw_batcher f = None then f
     else case forward_flush f of (arrived, f') \<Rightarrow> if arrived then f' else ingest_stopped f')"

definition forward_shutdown :: "int \<Rightarrow> forwarder \<Rightarrow> bool \<times> forwarder" where
  "forward_shutdown now f =
     (case forward_flush f of (arrived, f') \<Rightarrow>
        (arrived, if arrived then on_db (\<lambda>db. snd (close_all_live_coverage now db)) f'
                  else on_db discard_all_live_coverage f'))"

text \<open>
  What is read while a message is handled: when it was received, the clock of the store, and the state
  the client reports for the channel.
\<close>

record message_reading =
  mr_received :: int
  mr_now :: int
  mr_status :: "bool \<times> bool"

definition unavailable_notice :: "message_reading \<Rightarrow> server_message \<Rightarrow> (string \<times> string) option" where
  "unavailable_notice rd m =
     (case m of
        Notice (Some ch) (Some mid) raw \<Rightarrow>
          if mid \<in> {''msg_channel_suspended'', ''tos_ban''} \<or> (mid = ''msg_banned'' \<and> mr_status rd \<noteq> (True, True))
          then Some (ch, mid) else None
      | _ \<Rightarrow> None)"

definition join_health :: "irc_config \<Rightarrow> message_reading \<Rightarrow> server_message \<Rightarrow> forwarder \<Rightarrow> forwarder" where
  "join_health c rd m f =
     (case m of
        Join ch raw \<Rightarrow> on_db (mark_join_confirmed (mr_now rd) ch) f
      | Part ch raw \<Rightarrow> on_db (mark_join_unavailable (mr_now rd) ch ''parted'' (join_retry_min c)) f
      | _ \<Rightarrow>
          (case unavailable_notice rd m of
             None \<Rightarrow> f
           | Some (ch, kind) \<Rightarrow>
               (on_db (mark_join_unavailable (mr_now rd) ch kind (unavailable_retry_after c)) f)
                 \<lparr>fw_client := fw_client f @ [PartChannel ch]\<rparr>))"

definition live_update :: "message_reading \<Rightarrow> server_message \<Rightarrow> forwarder \<Rightarrow> forwarder" where
  "live_update rd m f =
     (if fw_batcher f = None then f
      else case m of
        Join ch raw \<Rightarrow> on_db (begin_live_coverage ch direct_irc (mr_received rd)) f
      | Part ch raw \<Rightarrow> on_db (\<lambda>db. snd (end_live_coverage ch (mr_received rd) db)) f
      | _ \<Rightarrow>
          (case unavailable_notice rd m of
             None \<Rightarrow> f
           | Some (ch, kind) \<Rightarrow> on_db (\<lambda>db. snd (end_live_coverage ch (mr_received rd) db)) f))"

definition forward_line :: "firehose_env \<Rightarrow> message_reading \<Rightarrow> server_message \<Rightarrow> forwarder \<Rightarrow> forwarder" where
  "forward_line env rd m f =
     (case (channel_login m, fw_output f, fw_batcher f) of
        (Some ch, Some q, Some b) \<Rightarrow>
          (case push_raw (fe_parse env) (fe_hash env) b (message_source m) (mr_received rd) of
             (Inr (Some batch), b') \<Rightarrow>
               (case forward_batch batch (f\<lparr>fw_batcher := Some b'\<rparr>) of
                  (arrived, f') \<Rightarrow> if arrived then f' else ingest_stopped f')
           | (Inr None, b') \<Rightarrow> f\<lparr>fw_batcher := Some b'\<rparr>
           | (Inl (UnsupportedCommand cmd), b') \<Rightarrow> f\<lparr>fw_batcher := Some b'\<rparr>
           | (Inl e, b') \<Rightarrow> on_db (discard_live_coverage ch) (f\<lparr>fw_batcher := Some b'\<rparr>))
      | _ \<Rightarrow> f)"

definition forward_message :: "firehose_env \<Rightarrow> irc_config \<Rightarrow> message_reading \<Rightarrow> server_message \<Rightarrow> forwarder \<Rightarrow> forwarder" where
  "forward_message env c rd m f = forward_line env rd m (live_update rd m (join_health c rd m f))"

text \<open>One turn of the loop, and what other tasks do to the control store in between.\<close>

datatype forward_event =
    FlushDue
  | Incoming message_reading server_message
  | ShutDown int
  | EndOfMessages
  | ControlOperation control_op

datatype forward_result = Forwarding | ShutDownClean | ShutDownLost | ClientEnded

fun forward_turn :: "firehose_env \<Rightarrow> irc_config \<Rightarrow> forward_event \<Rightarrow> forwarder \<Rightarrow> forward_result \<times> forwarder" where
  "forward_turn env c FlushDue f = (Forwarding, flush_tick f)"
| "forward_turn env c (Incoming rd m) f = (Forwarding, forward_message env c rd m f)"
| "forward_turn env c (ShutDown now) f =
     (case forward_shutdown now f of (arrived, f') \<Rightarrow> (if arrived then ShutDownClean else ShutDownLost, f'))"
| "forward_turn env c EndOfMessages f = (ClientEnded, f)"
| "forward_turn env c (ControlOperation operation) f = (Forwarding, on_db (control_step operation) f)"

fun run_forwarder ::
    "firehose_env \<Rightarrow> irc_config \<Rightarrow> forward_event list \<Rightarrow> forwarder \<Rightarrow> forward_result \<times> forwarder" where
  "run_forwarder env c [] f = (Forwarding, f)"
| "run_forwarder env c (e # es) f =
     (let turn = forward_turn env c e f
      in if fst turn = Forwarding then run_forwarder env c es (snd turn) else turn)"

section \<open>Joining and parting\<close>

text \<open>The clocks and channel states that one turn reads.\<close>

record joiner_reading =
  jr_now :: "nat \<Rightarrow> int"
  jr_status :: "string \<Rightarrow> bool \<times> bool"

datatype joiner_event = RetryTick joiner_reading | Reconcile joiner_reading

definition retry_joins ::
    "irc_config \<Rightarrow> joiner_reading \<Rightarrow> control_db \<times> client_command list \<Rightarrow> control_db \<times> client_command list" where
  "retry_joins c jr st =
     (case st of (db, commands) \<Rightarrow>
        case fail_stale_join_attempts (jr_now jr 0) (join_retry_min c) (join_retry_max c) db of
          (Inl e, db') \<Rightarrow> (db', commands)
        | (Inr stale, db') \<Rightarrow>
            if stale = 0 then (db', commands)
            else (db', commands @ [SetWanted
              (get_channel_logins_to_join (jr_now jr 1) (jr_now jr 2) (channels_expire_after c) db')]))"

definition reconcile_channel :: "irc_config \<Rightarrow> joiner_reading \<Rightarrow> string \<Rightarrow> control_db \<Rightarrow> control_db" where
  "reconcile_channel c jr ch db =
     (if jr_status jr ch = (True, True) then mark_join_confirmed (jr_now jr 2) ch db
      else snd (begin_join_attempt_if_due (jr_now jr 2) ch (join_confirmation_timeout c)
        (join_retry_min c) (join_retry_max c) db))"

text \<open>The channels are a hash set; they are taken in their order.\<close>

definition reconcile ::
    "irc_config \<Rightarrow> joiner_reading \<Rightarrow> control_db \<times> client_command list \<Rightarrow> control_db \<times> client_command list" where
  "reconcile c jr st =
     (case st of (db, commands) \<Rightarrow>
        let channels = get_channel_logins_to_join (jr_now jr 0) (jr_now jr 1) (channels_expire_after c) db;
            db1 = fold (reconcile_channel c jr) (sorted_list_of_set channels) db;
            coverage_cutoff = i64_saturating_sub (jr_now jr 3) (i64_try_from_or_max (irc_message_ttl c));
            db2 = snd (prune_coverage_ended_before coverage_cutoff db1);
            demand_cutoff = i64_saturating_sub (jr_now jr 4) (i64_try_from_or_max (channels_expire_after c));
            db3 = snd (prune_inactive_channels demand_cutoff db2)
        in (db3, commands @ [SetWanted channels]))"

fun run_channel_join_parter ::
    "irc_config \<Rightarrow> joiner_event list \<Rightarrow> control_db \<times> client_command list \<Rightarrow> control_db \<times> client_command list" where
  "run_channel_join_parter c [] st = st"
| "run_channel_join_parter c (RetryTick jr # es) st = run_channel_join_parter c es (retry_joins c jr st)"
| "run_channel_join_parter c (Reconcile jr # es) st = run_channel_join_parter c es (reconcile c jr st)"

definition join_if_needed ::
    "irc_config \<Rightarrow> joiner_reading \<Rightarrow> string \<Rightarrow> control_db \<times> client_command list
      \<Rightarrow> (storage_error + unit) \<times> control_db \<times> client_command list" where
  "join_if_needed c jr ch st =
     (case st of (db, commands) \<Rightarrow>
        let db1 = touch_or_add_channel (jr_now jr 0) ch db
        in if jr_status jr ch = (True, True) then (Inr (), db1, commands)
           else case begin_join_attempt_if_due (jr_now jr 1) ch (join_confirmation_timeout c)
                  (join_retry_min c) (join_retry_max c) db1 of
                  (Inl e, db2) \<Rightarrow> (Inl e, db2, commands)
                | (Inr due, db2) \<Rightarrow> (Inr (), db2, if due then commands @ [JoinChannel ch] else commands))"

section \<open>Coverage is what was heard\<close>

definition concerns :: "string \<Rightarrow> server_message \<Rightarrow> bool" where
  "concerns ch m \<longleftrightarrow> (case channel_login m of None \<Rightarrow> False | Some c \<Rightarrow> to_ascii_lowercase c = ch)"

text \<open>The records sent to the ingest or held for the next batch.\<close>

definition carried :: "forwarder \<Rightarrow> canonical_record set" where
  "carried f = (case fw_output f of None \<Rightarrow> {} | Some q \<Rightarrow> \<Union>b \<in> set (iq_sent q). set (rb_records b)) \<union>
     (case fw_batcher f of None \<Rightarrow> {} | Some b \<Rightarrow> set (dib_records b))"

text \<open>A message is carried, or it is of a command that is not kept.\<close>

definition taken :: "firehose_env \<Rightarrow> forwarder \<Rightarrow> message_reading \<Rightarrow> server_message \<Rightarrow> bool" where
  "taken env f rd m \<longleftrightarrow>
     (case canonicalize_raw_irc_from (fe_parse env) (fe_hash env) (message_source m) (mr_received rd) owned_irc DirectIrc of
        Inl e \<Rightarrow> (\<exists>cmd. e = UnsupportedCommand cmd)
      | Inr r \<Rightarrow> r \<in> carried f)"

text \<open>The events from a join of the channel on, all of whose messages were taken.\<close>

definition attested :: "firehose_env \<Rightarrow> forwarder \<Rightarrow> forward_event list \<Rightarrow> string \<Rightarrow> int \<Rightarrow> bool" where
  "attested env f evs ch start \<longleftrightarrow>
     (\<exists>rd c raw post. evs = Incoming rd (Join c raw) # post \<and> to_ascii_lowercase c = ch \<and> start = mr_received rd) \<and>
     (\<forall>rd m. Incoming rd m \<in> set evs \<longrightarrow> concerns ch m \<longrightarrow> taken env f rd m)"

fun event_time :: "forward_event \<Rightarrow> int option" where
  "event_time (Incoming rd m) = Some (mr_received rd)"
| "event_time (ShutDown now) = Some now"
| "event_time e = None"

text \<open>Only the forwarder keeps live coverage, and only it records coverage of its source.\<close>

fun other_operation :: "control_op \<Rightarrow> bool" where
  "other_operation (BeginLive ch src t) = False"
| "other_operation (EndLive ch t) = False"
| "other_operation (CloseAllLive t) = False"
| "other_operation (RecordCoverage ch src a b) = (src \<noteq> direct_irc)"
| "other_operation operation = True"

definition live_honest :: "firehose_env \<Rightarrow> forward_event list \<Rightarrow> forwarder \<Rightarrow> string \<times> live_entry \<Rightarrow> bool" where
  "live_honest env past f l \<longleftrightarrow> lv_source (snd l) = direct_irc \<and>
     (\<exists>pre evs. past = pre @ evs \<and> attested env f evs (fst l) (lv_started_at (snd l)))"

definition row_honest ::
    "firehose_env \<Rightarrow> coverage_row set \<Rightarrow> forward_event list \<Rightarrow> forwarder \<Rightarrow> coverage_row \<Rightarrow> bool" where
  "row_honest env rows past f r \<longleftrightarrow> (cv_source r = direct_irc \<longrightarrow> r \<in> rows \<or>
     (\<exists>pre evs e rest. past = pre @ evs @ e # rest \<and> event_time e = Some (cv_end r) \<and>
        attested env f evs (cv_channel r) (cv_start r)))"

definition batcher_ok :: "forwarder \<Rightarrow> bool" where
  "batcher_ok f \<longleftrightarrow> (\<forall>b. fw_batcher f = Some b \<longrightarrow> dib_source_id b = owned_irc \<and> fw_output f \<noteq> None)"

text \<open>\<open>rows\<close>: the intervals of earlier runs.\<close>

definition honest :: "firehose_env \<Rightarrow> coverage_row set \<Rightarrow> forward_event list \<Rightarrow> forwarder \<Rightarrow> bool" where
  "honest env rows past f \<longleftrightarrow> batcher_ok f \<and>
     (fw_batcher f = None \<longrightarrow> live_tab (fw_db f) = []) \<and>
     (\<forall>l \<in> set (live_tab (fw_db f)). live_honest env past f l) \<and>
     (fw_batcher f \<noteq> None \<longrightarrow> (\<forall>r \<in> set (coverage_tab (fw_db f)). row_honest env rows past f r))"

lemma on_db_simps [simp]:
  "fw_batcher (on_db g f) = fw_batcher f" "fw_output (on_db g f) = fw_output f" "fw_db (on_db g f) = g (fw_db f)"
  "fw_client (on_db g f) = fw_client f" "carried (on_db g f) = carried f"
  by (simp_all add: on_db_def carried_def)

lemma taken_mono: "taken env f rd m \<Longrightarrow> carried f \<subseteq> carried f' \<Longrightarrow> taken env f' rd m"
  by (auto simp: taken_def split: sum.splits)

lemma attested_mono: "attested env f evs ch start \<Longrightarrow> carried f \<subseteq> carried f' \<Longrightarrow> attested env f' evs ch start"
  unfolding attested_def using taken_mono by blast

lemma attested_snoc:
  assumes "attested env f evs ch start" and "\<And>rd m. e = Incoming rd m \<Longrightarrow> concerns ch m \<Longrightarrow> taken env f rd m"
  shows "attested env f (evs @ [e]) ch start"
  using assms by (auto simp: attested_def)

lemma live_honest_mono:
  "live_honest env past f l \<Longrightarrow> carried f \<subseteq> carried f' \<Longrightarrow> live_honest env past f' l"
  unfolding live_honest_def using attested_mono by blast

lemma live_honest_snoc:
  assumes "live_honest env past f l" and "carried f \<subseteq> carried f'"
    and "\<And>rd m. e = Incoming rd m \<Longrightarrow> concerns (fst l) m \<Longrightarrow> taken env f' rd m"
  shows "live_honest env (past @ [e]) f' l"
proof -
  obtain pre evs where "past = pre @ evs" "attested env f evs (fst l) (lv_started_at (snd l))"
    using assms(1) by (auto simp: live_honest_def)
  then have "past @ [e] = pre @ (evs @ [e])" "attested env f' (evs @ [e]) (fst l) (lv_started_at (snd l))"
    using attested_snoc [OF attested_mono [OF _ assms(2)] assms(3)] by simp_all
  then show ?thesis using assms(1) unfolding live_honest_def by blast
qed

lemma row_honest_snoc:
  assumes "row_honest env rows past f r" and "carried f \<subseteq> carried f'"
  shows "row_honest env rows (past @ [e]) f' r"
  unfolding row_honest_def
proof (intro impI)
  assume "cv_source r = direct_irc"
  then consider "r \<in> rows" | pre evs e' rest where "past = pre @ evs @ e' # rest" "event_time e' = Some (cv_end r)"
      "attested env f evs (cv_channel r) (cv_start r)"
    using assms(1) unfolding row_honest_def by blast
  then show "r \<in> rows \<or> (\<exists>pre evs e' rest. past @ [e] = pre @ evs @ e' # rest \<and>
      event_time e' = Some (cv_end r) \<and> attested env f' evs (cv_channel r) (cv_start r))"
  proof cases
    case 2
    then have "past @ [e] = pre @ evs @ e' # (rest @ [e])" by simp
    then show ?thesis using 2 attested_mono [OF 2(3) assms(2)] by blast
  qed simp
qed

text \<open>A live entry that ends at an event becomes an honest row.\<close>

lemma live_row_honest:
  assumes "live_honest env past f l" and "carried f \<subseteq> carried f'" and "event_time e = Some t"
  shows "row_honest env rows (past @ [e]) f' (live_row t l)"
proof -
  obtain pre evs where p: "past = pre @ evs" "attested env f evs (fst l) (lv_started_at (snd l))"
    using assms(1) by (auto simp: live_honest_def)
  have "past @ [e] = pre @ evs @ e # []" using p by simp
  then show ?thesis
    using attested_mono [OF p(2) assms(2)] assms(3) unfolding row_honest_def live_row_def by fastforce
qed

lemma forward_batch_spec:
  assumes "forward_batch batch f = (arrived, f')" and "fw_output f \<noteq> None"
  shows "fw_batcher f' = fw_batcher f \<and> fw_db f' = fw_db f \<and> fw_client f' = fw_client f \<and> fw_output f' \<noteq> None \<and>
    (arrived \<longrightarrow> carried f' = carried f \<union> set (rb_records batch))"
proof -
  obtain q where q: "fw_output f = Some q" using assms(2) by blast
  obtain out q' where s: "send_if_some (Some batch) q = (out, q')" by fastforce
  show ?thesis
  proof (cases out)
    case (Inl e)
    then show ?thesis using assms(1) q s by (auto simp: forward_batch_def)
  next
    case (Inr u)
    then show ?thesis
      using assms(1) q s send_ok [OF s [unfolded Inr]] by (auto simp: forward_batch_def carried_def)
  qed
qed

lemma direct_flush_spec:
  "direct_flush b = (res, b') \<Longrightarrow> dib_source_id b' = dib_source_id b \<and> dib_records b' = [] \<and>
     dib_records b = (case res of None \<Rightarrow> [] | Some batch \<Rightarrow> rb_records batch)"
  by (auto simp: direct_flush_def Let_def split: if_splits)

lemma forward_flush_spec:
  assumes "forward_flush f = (arrived, f')" and "batcher_ok f"
  shows "fw_db f' = fw_db f \<and> batcher_ok f' \<and> (fw_batcher f' = None \<longleftrightarrow> fw_batcher f = None) \<and>
    (arrived \<longrightarrow> carried f' = carried f \<and> (\<forall>b. fw_batcher f' = Some b \<longrightarrow> dib_records b = []))"
proof (cases "fw_batcher f")
  case None
  then show ?thesis using assms by (auto simp: forward_flush_def split: option.splits)
next
  case (Some b)
  obtain q where q: "fw_output f = Some q" using assms(2) Some by (auto simp: batcher_ok_def)
  obtain res b' where d: "direct_flush b = (res, b')" by fastforce
  note b' = direct_flush_spec [OF d]
  show ?thesis
  proof (cases res)
    case None
    then have "arrived" "f' = f\<lparr>fw_batcher := Some b'\<rparr>" using assms(1) Some q d by (simp_all add: forward_flush_def)
    then show ?thesis using assms(2) Some None b' by (auto simp: batcher_ok_def carried_def)
  next
    case batch: (Some batch)
    let ?f = "f\<lparr>fw_batcher := Some b'\<rparr>"
    have fb: "forward_batch batch ?f = (arrived, f')" using assms(1) Some q d batch by (simp add: forward_flush_def)
    have "fw_output ?f \<noteq> None" using q by simp
    note spec = forward_batch_spec [OF fb this]
    have "carried f = carried ?f \<union> set (rb_records batch)" using Some batch b' by (auto simp: carried_def)
    then show ?thesis using spec assms(2) Some batch b' by (auto simp: batcher_ok_def)
  qed
qed

lemma ingest_stopped_honest: "honest env rows past (ingest_stopped f)"
  by (simp add: honest_def ingest_stopped_def discard_all_live_coverage_def batcher_ok_def)

lemma flush_tick_honest:
  assumes h: "honest env rows past f"
  shows "honest env rows (past @ [FlushDue]) (flush_tick f)"
proof (cases "fw_batcher f")
  case None
  then show ?thesis using h by (simp add: honest_def flush_tick_def)
next
  case (Some b)
  obtain arrived f' where fl: "forward_flush f = (arrived, f')" by fastforce
  have "batcher_ok f" using h by (simp add: honest_def)
  note s = forward_flush_spec [OF fl this]
  show ?thesis
  proof (cases arrived)
    case True
    then have "carried f \<subseteq> carried f'" using s by simp
    then show ?thesis
      using h s Some True fl live_honest_snoc [of env past f _ f' FlushDue] row_honest_snoc [of env rows past f _ f' FlushDue]
      by (auto simp: honest_def flush_tick_def)
  next
    case False
    then show ?thesis using Some fl ingest_stopped_honest by (simp add: flush_tick_def)
  qed
qed

text \<open>While a message is handled, before its line is pushed: the join may have opened a new entry.\<close>

definition opened_by :: "message_reading \<Rightarrow> server_message \<Rightarrow> string \<times> live_entry \<Rightarrow> bool" where
  "opened_by rd m l \<longleftrightarrow> (\<exists>c raw. m = Join c raw \<and>
     l = (to_ascii_lowercase c, \<lparr>lv_source = direct_irc, lv_started_at = mr_received rd\<rparr>))"

definition handling ::
    "firehose_env \<Rightarrow> coverage_row set \<Rightarrow> forward_event list \<Rightarrow> message_reading \<Rightarrow> server_message \<Rightarrow> forwarder \<Rightarrow> bool" where
  "handling env rows past rd m f \<longleftrightarrow> batcher_ok f \<and>
     (fw_batcher f = None \<longrightarrow> live_tab (fw_db f) = []) \<and>
     (\<forall>l \<in> set (live_tab (fw_db f)). live_honest env past f l \<or> opened_by rd m l) \<and>
     (fw_batcher f \<noteq> None \<longrightarrow>
       (\<forall>r \<in> set (coverage_tab (fw_db f)). row_honest env rows (past @ [Incoming rd m]) f r))"

lemma honest_same:
  assumes "honest env rows past f" and "fw_batcher f' = fw_batcher f" and "fw_output f' = fw_output f"
    and "set (live_tab (fw_db f')) \<subseteq> set (live_tab (fw_db f))"
    and "\<And>r. r \<in> set (coverage_tab (fw_db f')) \<Longrightarrow> r \<in> set (coverage_tab (fw_db f)) \<or> cv_source r \<noteq> direct_irc"
  shows "honest env rows past f'"
proof -
  have c: "carried f' = carried f" using assms(2,3) by (simp add: carried_def)
  then have t: "taken env f' = taken env f" by (auto simp: fun_eq_iff taken_def split: sum.splits)
  then have "attested env f' = attested env f" by (simp add: fun_eq_iff attested_def)
  then have "live_honest env past f' = live_honest env past f" "row_honest env rows past f' = row_honest env rows past f"
    by (simp_all add: fun_eq_iff live_honest_def row_honest_def)
  note same = this
  have "live_tab (fw_db f) = [] \<Longrightarrow> live_tab (fw_db f') = []" using assms(4) by auto
  moreover have "row_honest env rows past f r" if "fw_batcher f \<noteq> None" "r \<in> set (coverage_tab (fw_db f'))" for r
  proof (cases "cv_source r = direct_irc")
    case True
    then have "r \<in> set (coverage_tab (fw_db f))" using assms(5) [OF that(2)] by blast
    then show ?thesis using assms(1) that(1) by (simp add: honest_def)
  qed (simp add: row_honest_def)
  moreover have "live_honest env past f l" if "l \<in> set (live_tab (fw_db f'))" for l
    using that assms(1,4) unfolding honest_def by blast
  ultimately show ?thesis
    using assms(1) unfolding honest_def batcher_ok_def same assms(2,3) by blast
qed

lemma join_health_same:
  "fw_batcher (join_health c rd m f) = fw_batcher f" "fw_output (join_health c rd m f) = fw_output f"
  "live_tab (fw_db (join_health c rd m f)) = live_tab (fw_db f)"
  "coverage_tab (fw_db (join_health c rd m f)) = coverage_tab (fw_db f)"
  by (auto simp: join_health_def mark_join_confirmed_def mark_join_unavailable_def Let_def
      split: server_message.splits option.splits)

lemma join_health_honest: "honest env rows past f \<Longrightarrow> honest env rows past (join_health c rd m f)"
  by (rule honest_same, assumption) (simp_all add: join_health_same)

lemma ended_rows:
  assumes "end_live_coverage channel t db = (res, db')"
  shows "set (live_tab db') \<subseteq> set (live_tab db) \<and>
    (\<forall>r \<in> set (coverage_tab db'). r \<in> set (coverage_tab db) \<or> (\<exists>l \<in> set (live_tab db). r = live_row t l))"
  by (cases rule: end_live_cases [OF assms refl]) (auto simp: without_key_def dest: map_of_SomeD)

lemma handling_end:
  assumes h: "honest env rows past f" and b: "fw_batcher f \<noteq> None"
  shows "handling env rows past rd m (on_db (\<lambda>db. snd (end_live_coverage ch (mr_received rd) db)) f)"
proof -
  let ?f = "on_db (\<lambda>db. snd (end_live_coverage ch (mr_received rd) db)) f" and ?e = "Incoming rd m"
  obtain res db where e: "end_live_coverage ch (mr_received rd) (fw_db f) = (res, db)" by fastforce
  note r = ended_rows [OF e]
  have t: "event_time ?e = Some (mr_received rd)" by simp
  have c: "carried f \<subseteq> carried ?f" by simp
  have "live_honest env past f l \<Longrightarrow> live_honest env past ?f l" for l
    by (rule live_honest_mono [OF _ c])
  moreover have "row_honest env rows (past @ [?e]) ?f x" if "x \<in> set (coverage_tab db)" for x
    using r that h b row_honest_snoc [OF _ c, of env rows past x ?e] live_row_honest [OF _ c t, of env past _ rows]
    by (auto simp: honest_def)
  ultimately show ?thesis using h b e r by (auto simp: handling_def honest_def batcher_ok_def)
qed

lemma handling_same:
  assumes h: "honest env rows past f" shows "handling env rows past rd m f"
  using h row_honest_snoc [of env rows past f _ f "Incoming rd m"] by (auto simp: handling_def honest_def)

lemma live_update_handling:
  assumes h: "honest env rows past f"
  shows "handling env rows past rd m (live_update rd m f)"
proof (cases "fw_batcher f")
  case None
  then show ?thesis using handling_same [OF h] by (simp add: live_update_def)
next
  case (Some b)
  then have b: "fw_batcher f \<noteq> None" by simp
  note other = handling_same [OF h, of rd m] handling_end [OF h b, of rd m]
  show ?thesis
  proof (cases m)
    case (Join ch raw)
    let ?f = "on_db (begin_live_coverage ch direct_irc (mr_received rd)) f"
    have c: "carried f \<subseteq> carried ?f" by simp
    have lm: "live_honest env past f l \<Longrightarrow> live_honest env past ?f l" for l by (rule live_honest_mono [OF _ c])
    have rm: "row_honest env rows past f r \<Longrightarrow> row_honest env rows (past @ [Incoming rd m]) ?f r" for r
      by (rule row_honest_snoc [OF _ c])
    have tabs: "coverage_tab (fw_db ?f) = coverage_tab (fw_db f)" "fw_batcher ?f = fw_batcher f" "fw_output ?f = fw_output f"
      by (simp_all add: begin_live_coverage_def Let_def)
    have live: "l \<in> set (live_tab (fw_db f)) \<or> opened_by rd m l" if "l \<in> set (live_tab (fw_db ?f))" for l
      using that Join by (auto simp: begin_live_coverage_def Let_def without_key_def opened_by_def)
    have "handling env rows past rd m ?f"
      using h b lm rm live unfolding handling_def honest_def batcher_ok_def tabs by blast
    then show ?thesis using Join Some by (simp add: live_update_def)
  qed (use b other in \<open>auto simp: live_update_def split: option.splits\<close>)
qed

lemma handled_honest:
  assumes h: "handling env rows past rd m f" and c: "carried f \<subseteq> carried f'"
    and same: "fw_batcher f' = None \<longleftrightarrow> fw_batcher f = None" "batcher_ok f'"
      "set (live_tab (fw_db f')) \<subseteq> set (live_tab (fw_db f))" "coverage_tab (fw_db f') = coverage_tab (fw_db f)"
    and t: "\<And>l. l \<in> set (live_tab (fw_db f')) \<Longrightarrow> concerns (fst l) m \<Longrightarrow> taken env f' rd m"
  shows "honest env rows (past @ [Incoming rd m]) f'"
proof -
  let ?e = "Incoming rd m"
  have "live_honest env (past @ [?e]) f' l" if l: "l \<in> set (live_tab (fw_db f'))" for l
  proof -
    have tk: "taken env f' rd' m'" if "?e = Incoming rd' m'" "concerns (fst l) m'" for rd' m'
      using t [OF l] that by simp
    consider "live_honest env past f l" | "opened_by rd m l" using h same(3) l by (auto simp: handling_def)
    then show ?thesis
    proof cases
      case 1
      then show ?thesis by (rule live_honest_snoc [OF _ c tk])
    next
      case 2
      then obtain ch raw where j: "m = Join ch raw"
        "l = (to_ascii_lowercase ch, \<lparr>lv_source = direct_irc, lv_started_at = mr_received rd\<rparr>)"
        by (auto simp: opened_by_def)
      have "attested env f' [?e] (fst l) (lv_started_at (snd l))"
        using tk by (auto simp: attested_def j)
      then show ?thesis unfolding live_honest_def using j by (intro conjI exI [of _ past] exI [of _ "[?e]"]) simp_all
    qed
  qed
  moreover have "row_honest env rows (past @ [?e]) f' r" if "row_honest env rows (past @ [?e]) f r" for r
    using that attested_mono [OF _ c] unfolding row_honest_def by blast
  moreover have "live_tab (fw_db f) = [] \<Longrightarrow> live_tab (fw_db f') = []" using same(3) by auto
  ultimately show ?thesis using h same by (auto simp: honest_def handling_def)
qed

text \<open>Pushing a line.\<close>

lemma direct_push_spec:
  "direct_push b r = (res, b') \<Longrightarrow> dib_source_id b' = dib_source_id b \<and>
     dib_records b @ [r] = (case res of None \<Rightarrow> dib_records b' | Some batch \<Rightarrow> rb_records batch) \<and>
     (res \<noteq> None \<longrightarrow> dib_records b' = [])"
  by (auto simp: direct_push_def direct_flush_def Let_def split: if_splits)

lemma forward_line_honest:
  assumes h: "handling env rows past rd m f"
  shows "honest env rows (past @ [Incoming rd m]) (forward_line env rd m f)"
proof (cases "channel_login m = None \<or> fw_batcher f = None")
  case True
  then have "forward_line env rd m f = f" by (auto simp: forward_line_def split: option.splits)
  moreover have "honest env rows (past @ [Incoming rd m]) f"
  proof (rule handled_honest [OF h])
    fix l assume "l \<in> set (live_tab (fw_db f))" "concerns (fst l) m"
    then show "taken env f rd m" using True h by (auto simp: handling_def concerns_def)
  qed (use h in \<open>auto simp: handling_def\<close>)
  ultimately show ?thesis by simp
next
  case False
  then obtain ch b where ch: "channel_login m = Some ch" and b: "fw_batcher f = Some b" by auto
  have ok: "batcher_ok f" using h by (simp add: handling_def)
  then obtain q where q: "fw_output f = Some q" and src: "dib_source_id b = owned_irc"
    using b by (auto simp: batcher_ok_def)
  let ?c = "canonicalize_raw_irc_from (fe_parse env) (fe_hash env) (message_source m) (mr_received rd) owned_irc DirectIrc"
  have same: "f\<lparr>fw_batcher := Some b\<rparr> = f" using b by simp
  show ?thesis
  proof (cases ?c)
    case (Inl e)
    show ?thesis
    proof (cases "\<exists>cmd. e = UnsupportedCommand cmd")
      case True
      then have "forward_line env rd m f = f"
        using ch b q src Inl same by (auto simp: forward_line_def push_raw_def)
      moreover have "honest env rows (past @ [Incoming rd m]) f"
        by (rule handled_honest [OF h]) (use h True Inl in \<open>auto simp: handling_def taken_def\<close>)
      ultimately show ?thesis by simp
    next
      case False
      let ?f = "on_db (discard_live_coverage ch) f"
      have "forward_line env rd m f = ?f"
        using ch b q src Inl False same by (cases e) (auto simp: forward_line_def push_raw_def)
      moreover have "honest env rows (past @ [Incoming rd m]) ?f"
        by (rule handled_honest [OF h])
          (use h ch in \<open>auto simp: handling_def batcher_ok_def discard_live_coverage_def without_key_def concerns_def\<close>)
      ultimately show ?thesis by simp
    qed
  next
    case (Inr r)
    obtain res b' where p: "direct_push b r = (res, b')" by fastforce
    note d = direct_push_spec [OF p]
    have push: "push_raw (fe_parse env) (fe_hash env) b (message_source m) (mr_received rd) = (Inr res, b')"
      using Inr p src by (simp add: push_raw_def)
    let ?f = "f\<lparr>fw_batcher := Some b'\<rparr>"
    show ?thesis
    proof (cases res)
      case None
      have line: "forward_line env rd m f = ?f" using ch b q push None by (simp add: forward_line_def)
      have "dib_records b' = dib_records b @ [r]" using d None by simp
      then have "carried ?f = insert r (carried f)" using b by (auto simp: carried_def)
      then have "honest env rows (past @ [Incoming rd m]) ?f"
        by (intro handled_honest [OF h]) (use h d b q src Inr in \<open>auto simp: handling_def batcher_ok_def taken_def\<close>)
      then show ?thesis using line by simp
    next
      case (Some batch)
      obtain arrived f' where fb: "forward_batch batch ?f = (arrived, f')" by fastforce
      have "fw_output ?f \<noteq> None" using q by simp
      note s = forward_batch_spec [OF fb this]
      have line: "forward_line env rd m f = (if arrived then f' else ingest_stopped f')"
        using ch b q push Some fb by (simp add: forward_line_def)
      show ?thesis
      proof (cases arrived)
        case True
        have rec: "dib_records b @ [r] = rb_records batch" "dib_records b' = []" using d Some by simp_all
        have "set (rb_records batch) = insert r (set (dib_records b))" unfolding rec(1) [symmetric] by simp
        then have "carried f' = insert r (carried f)" using s True b rec(2) by (auto simp: carried_def)
        then have "honest env rows (past @ [Incoming rd m]) f'"
          by (intro handled_honest [OF h]) (use h d s b q src Inr in \<open>auto simp: handling_def batcher_ok_def taken_def\<close>)
        then show ?thesis using line True by simp
      next
        case False
        then show ?thesis using line ingest_stopped_honest by simp
      qed
    qed
  qed
qed

lemma forward_message_honest:
  "honest env rows past f \<Longrightarrow> honest env rows (past @ [Incoming rd m]) (forward_message env c rd m f)"
  unfolding forward_message_def
  by (intro forward_line_honest live_update_handling join_health_honest)

text \<open>Operations of other tasks.\<close>

lemma other_operation_tabs:
  assumes "other_operation operation"
  shows "set (live_tab (control_step operation db)) \<subseteq> set (live_tab db) \<and>
    (\<forall>r \<in> set (coverage_tab (control_step operation db)). r \<in> set (coverage_tab db) \<or> cv_source r \<noteq> direct_irc)"
proof (cases operation)
  case (BootstrapAlwaysJoin chs)
  then show ?thesis by (simp add: control_step_def local_bootstrap_always_join_def mark_bootstrap_applied_def)
next
  case (ReplaceAlwaysJoin chs)
  then show ?thesis by (simp add: control_step_def local_replace_always_join_def mark_bootstrap_applied_def)
qed (use assms in \<open>auto simp: control_step_def apply_cluster_policy_def local_set_always_join_def
  mark_bootstrap_applied_def always_join_channel_def touch_or_add_channel_def local_set_channel_ignored_def
  invalidate_channel_coverage_def delete_coverage_of_def discard_live_coverage_def discard_all_live_coverage_def
  prune_coverage_ended_before_def prune_inactive_channels_def record_repair_checkpoint_def
  begin_join_attempt_if_due_def mark_join_confirmed_def mark_join_unavailable_def fail_stale_join_attempts_def
  record_coverage_interval_def local_append_authorization_def local_update_authorization_def
  local_delete_authorization_def without_key_def Let_def split: if_splits option.splits sum.splits\<close>)

lemma honest_snoc_other:
  assumes h: "honest env rows past f" and e: "\<And>rd m. e \<noteq> Incoming rd m"
  shows "honest env rows (past @ [e]) f"
  using h e live_honest_snoc [of env past f _ f e] row_honest_snoc [of env rows past f _ f e]
  by (auto simp: honest_def)

lemma insert_coverage_rows_set:
  "insert_coverage_rows rs rows = Inr rows' \<Longrightarrow> set rows' = set rows \<union> set rs"
  by (induction rs arbitrary: rows) (auto simp: insert_coverage_row_def split: if_splits)

lemma closed_rows:
  assumes "close_all_live_coverage t db = (res, db')"
  shows "set (live_tab db') \<subseteq> set (live_tab db) \<and>
    (\<forall>r \<in> set (coverage_tab db'). r \<in> set (coverage_tab db) \<or> (\<exists>l \<in> set (live_tab db). r = live_row t l))"
proof (cases "insert_coverage_rows (map (live_row t) (filter (\<lambda>l. lv_started_at (snd l) \<le> t) (live_tab db)))
    (coverage_tab db)")
  case (Inl e)
  then show ?thesis using assms by (simp add: close_all_live_coverage_def)
next
  case (Inr rows)
  then have "set rows = set (coverage_tab db) \<union>
      set (map (live_row t) (filter (\<lambda>l. lv_started_at (snd l) \<le> t) (live_tab db)))"
    by (rule insert_coverage_rows_set)
  moreover have "db' = db\<lparr>coverage_tab := rows, live_tab := []\<rparr>"
    using assms Inr by (simp add: close_all_live_coverage_def)
  ultimately show ?thesis by auto
qed

lemma forward_shutdown_honest:
  assumes h: "honest env rows past f" and s: "forward_shutdown now f = (True, f')"
  shows "honest env rows (past @ [ShutDown now]) f' \<and> (\<forall>b. fw_batcher f' = Some b \<longrightarrow> dib_records b = [])"
proof -
  let ?e = "ShutDown now"
  obtain f1 where fl: "forward_flush f = (True, f1)" "f' = on_db (\<lambda>db. snd (close_all_live_coverage now db)) f1"
    using s by (auto simp: forward_shutdown_def split: prod.splits if_splits)
  have "batcher_ok f" using h by (simp add: honest_def)
  note p = forward_flush_spec [OF fl(1) this]
  have c: "carried f \<subseteq> carried f'" using p fl(2) by simp
  obtain res db' where cl: "close_all_live_coverage now (fw_db f1) = (res, db')" by fastforce
  note r = closed_rows [OF cl]
  have db: "fw_db f1 = fw_db f" "fw_db f' = db'" using p cl fl(2) by simp_all
  have b: "fw_batcher f' = None \<longleftrightarrow> fw_batcher f = None" "batcher_ok f'"
    using p fl(2) by (simp_all add: batcher_ok_def)
  have live: "live_honest env (past @ [?e]) f' l" if "l \<in> set (live_tab db')" for l
    using that r h db by (intro live_honest_snoc [OF _ c]) (auto simp: honest_def)
  have row: "row_honest env rows (past @ [?e]) f' x" if alive: "fw_batcher f \<noteq> None" and x: "x \<in> set (coverage_tab db')" for x
  proof -
    from r x consider (old) "x \<in> set (coverage_tab (fw_db f))" | (closed) l where "l \<in> set (live_tab (fw_db f))" "x = live_row now l"
      unfolding db by blast
    then show ?thesis
    proof cases
      case old
      then show ?thesis using h alive row_honest_snoc [OF _ c] by (simp add: honest_def)
    next
      case closed
      then show ?thesis using h live_row_honest [OF _ c, of env past l ?e now rows] by (simp add: honest_def)
    qed
  qed
  have empty: "live_tab (fw_db f) = [] \<Longrightarrow> live_tab db' = []" using r db by auto
  have "honest env rows (past @ [?e]) f'"
    unfolding honest_def db
  proof (intro conjI impI ballI)
    show "live_tab db' = []" if "fw_batcher f' = None" using that h b(1) empty by (simp add: honest_def)
    show "row_honest env rows (past @ [?e]) f' x" if "fw_batcher f' \<noteq> None" "x \<in> set (coverage_tab db')" for x
      by (rule row) (use that b(1) in simp_all)
  qed (use b(2) live in blast)+
  then show ?thesis using p fl(2) by simp
qed

lemma run_forwarder_honest:
  assumes "honest env rows past f" and "\<forall>e \<in> set events. \<forall>operation. e = ControlOperation operation \<longrightarrow> other_operation operation"
    and "run_forwarder env c events f = (res, f')" and "res = Forwarding \<or> res = ShutDownClean"
  shows "\<exists>more rest. events = more @ rest \<and> (res = Forwarding \<longrightarrow> rest = []) \<and> honest env rows (past @ more) f' \<and>
    (res = ShutDownClean \<longrightarrow> (\<forall>b. fw_batcher f' = Some b \<longrightarrow> dib_records b = []))"
  using assms
proof (induction events arbitrary: past f)
  case Nil
  then show ?case by auto
next
  case (Cons e es)
  have step: ?case if h: "honest env rows (past @ [e]) f1" and r: "run_forwarder env c es f1 = (res, f')" for f1
  proof -
    obtain more rest where m: "es = more @ rest" "res = Forwarding \<longrightarrow> rest = []" "honest env rows ((past @ [e]) @ more) f'"
      "res = ShutDownClean \<longrightarrow> (\<forall>b. fw_batcher f' = Some b \<longrightarrow> dib_records b = [])"
      using Cons.IH [OF h _ r Cons.prems(4)] Cons.prems(2) by auto
    then have "e # es = (e # more) @ rest" "honest env rows (past @ e # more) f'" by simp_all
    then show ?thesis using m by blast
  qed
  show ?case
  proof (cases e)
    case FlushDue
    show ?thesis by (rule step [of "flush_tick f"]) (use flush_tick_honest [OF Cons.prems(1)] Cons.prems(3) FlushDue in simp_all)
  next
    case (Incoming rd m)
    show ?thesis
      by (rule step [of "forward_message env c rd m f"])
        (use forward_message_honest [OF Cons.prems(1)] Cons.prems(3) Incoming in simp_all)
  next
    case (ShutDown now)
    obtain arrived f1 where s: "forward_shutdown now f = (arrived, f1)" by fastforce
    then have a: "arrived" "res = ShutDownClean" "f1 = f'" using Cons.prems(3,4) ShutDown by (auto split: if_splits)
    have "forward_shutdown now f = (True, f')" using s a by simp
    note h = forward_shutdown_honest [OF Cons.prems(1) this]
    show ?thesis by (rule exI [of _ "[e]"], rule exI [of _ es]) (use h a ShutDown in simp)
  next
    case EndOfMessages
    then show ?thesis using Cons.prems(3,4) by auto
  next
    case (ControlOperation operation)
    have "other_operation operation" using Cons.prems(2) ControlOperation by simp
    note t = other_operation_tabs [OF this, of "fw_db f"]
    have "honest env rows past (on_db (control_step operation) f)"
      by (rule honest_same [OF Cons.prems(1)]) (use t in simp_all)
    then have "honest env rows (past @ [e]) (on_db (control_step operation) f)"
      by (rule honest_snoc_other) (simp add: ControlOperation)
    then show ?thesis by (rule step) (use Cons.prems(3) ControlOperation in simp)
  qed
qed

section \<open>Properties\<close>


definition irc_env :: firehose_env where
  "irc_env = \<lparr>fe_parse = (\<lambda>s. if s = ''line'' then Inr ex_message else Inr (ex_message\<lparr>im_command := ''JOIN''\<rparr>)),
     fe_hash = (\<lambda>_. []), fe_owner_hash = id\<rparr>"

definition irc_cfg :: irc_config where
  "irc_cfg = \<lparr>join_retry_min = 10, join_retry_max = 100, unavailable_retry_after = 50, join_confirmation_timeout = 20,
     channels_expire_after = 1000, irc_message_ttl = 1000\<rparr>"

definition irc_at :: "int \<Rightarrow> server_message \<Rightarrow> forward_event" where
  "irc_at t m = Incoming \<lparr>mr_received = t, mr_now = t, mr_status = (True, True)\<rparr> m"

definition irc_events :: "forward_event list" where
  "irc_events = [irc_at 5 (Join ''Chan'' ''join''), irc_at 6 (Privmsg ''chan'' ''line''), FlushDue,
     irc_at 7 (Part ''chan'' ''part''), irc_at 8 (Join ''chan'' ''join''), irc_at 9 (Privmsg ''chan'' ''line''), ShutDown 20]"

definition irc_start :: "nat option \<Rightarrow> unit + forwarder" where
  "irc_start receiver = forwarder_new (Some \<lparr>iq_sent = [], iq_taken = receiver\<rparr>) 1 2 10 empty_control_db"

definition irc_forwarder :: "nat option \<Rightarrow> forwarder" where
  "irc_forwarder receiver = (case irc_start receiver of Inl u \<Rightarrow> undefined | Inr f \<Rightarrow> f)"

lemma irc_start_ok: "irc_start receiver = Inr (irc_forwarder receiver)"
  by (simp add: irc_start_def irc_forwarder_def forwarder_new_def direct_batcher_new_def owned_irc_def)


text \<open>
  An interval recorded at a part stays when the batch with its messages is lost afterwards: only live
  coverage is discarded when the ingest is gone.
\<close>
theorem lost_batch_keeps_interval:
  "\<exists>f'. run_forwarder irc_env irc_cfg
      [irc_at 5 (Join ''chan'' ''join''), irc_at 6 (Privmsg ''chan'' ''line''), irc_at 7 (Part ''chan'' ''part''), FlushDue]
      (irc_forwarder (Some 0)) = (Forwarding, f') \<and>
    get_coverage_intervals ''chan'' 100 (fw_db f') = [\<lparr>start_ms = 5, end_ms = 7, source = direct_irc\<rparr>] \<and> carried f' = {}"
proof -
  let ?r = "run_forwarder irc_env irc_cfg
      [irc_at 5 (Join ''chan'' ''join''), irc_at 6 (Privmsg ''chan'' ''line''), irc_at 7 (Part ''chan'' ''part''), FlushDue]
      (irc_forwarder (Some 0))"
  have v: "fst ?r = Forwarding" "fw_batcher (snd ?r) = None" "map_option iq_sent (fw_output (snd ?r)) = Some []"
    "get_coverage_intervals ''chan'' 100 (fw_db (snd ?r)) = [\<lparr>start_ms = 5, end_ms = 7, source = direct_irc\<rparr>]"
    by code_simp+
  then have "carried (snd ?r) = {}" by (auto simp: carried_def)
  then show ?thesis using v by (intro exI [of _ "snd ?r"]) (simp add: prod_eq_iff)
qed

text \<open>
  A channel that many requests ask for is joined once: after a request that sent a JOIN, no request
  sends another before the time the join has to be confirmed has passed, and the JOIN was sent only
  because the client was not in the channel.
\<close>
theorem join_once:
  assumes one: "join_if_needed c jr ch (db, commands) = (Inr (), db1, commands1)" and sent: "commands1 \<noteq> commands"
    and two: "join_if_needed c jr' ch (db1, commands1) = (res, db2, commands2)"
    and early: "jr_now jr' 1 < i64_saturating_add (jr_now jr 1) (duration_ms (join_confirmation_timeout c))"
  shows "commands1 = commands @ [JoinChannel ch] \<and> jr_status jr ch \<noteq> (True, True) \<and> commands2 = commands1"
proof -
  let ?ch = "to_ascii_lowercase ch"
  let ?deadline = "i64_saturating_add (jr_now jr 1) (duration_ms (join_confirmation_timeout c))"
  have touch: "join_tab (touch_or_add_channel n ch d) = join_tab d" for n d
    by (simp add: touch_or_add_channel_def Let_def)
  have s: "jr_status jr ch \<noteq> (True, True)"
    "begin_join_attempt_if_due (jr_now jr 1) ch (join_confirmation_timeout c) (join_retry_min c) (join_retry_max c)
       (touch_or_add_channel (jr_now jr 0) ch db) = (Inr True, db1)"
    "commands1 = commands @ [JoinChannel ch]"
    using one sent by (auto simp: join_if_needed_def Let_def split: if_splits sum.splits prod.splits)
  obtain j where j: "map_of (join_tab db1) ?ch = Some j" "jn_state j = JoinPending" "jn_next_retry j = ?deadline"
    using s(2) by (auto simp: begin_join_attempt_if_due_def Let_def update_conv' join_pending_def
        split: option.splits sum.splits if_splits)
  have "map_of (join_tab (touch_or_add_channel (jr_now jr' 0) ch db1)) ?ch = Some j" using j(1) by (simp add: touch)
  then have "commands2 = commands1"
    using two j(2,3) early
    by (auto simp: join_if_needed_def begin_join_attempt_if_due_def Let_def split: if_splits sum.splits prod.splits)
  then show ?thesis using s(1,3) by blast
qed

theorem join_once_witness:
  "\<exists>db1 db2. join_if_needed irc_cfg \<lparr>jr_now = (\<lambda>_. 5), jr_status = (\<lambda>_. (True, False))\<rparr> ''Chan'' (empty_control_db, []) =
      (Inr (), db1, [JoinChannel ''Chan'']) \<and>
    join_if_needed irc_cfg \<lparr>jr_now = (\<lambda>_. 24), jr_status = (\<lambda>_. (True, False))\<rparr> ''Chan'' (db1, [JoinChannel ''Chan'']) =
      (Inr (), db2, [JoinChannel ''Chan''])"
proof -
  let ?jr = "\<lparr>jr_now = (\<lambda>_. 5), jr_status = (\<lambda>_. (True, False))\<rparr>" and ?jr' = "\<lparr>jr_now = (\<lambda>_. 24), jr_status = (\<lambda>_. (True, False))\<rparr>"
  let ?one = "join_if_needed irc_cfg ?jr ''Chan'' (empty_control_db, [])"
  have "fst ?one = Inr ()" "snd (snd ?one) = [JoinChannel ''Chan'']" by code_simp+
  then obtain db1 where one: "?one = (Inr (), db1, [JoinChannel ''Chan''])" by (metis prod.collapse)
  let ?two = "join_if_needed irc_cfg ?jr' ''Chan'' (db1, [JoinChannel ''Chan''])"
  obtain res db2 commands2 where two: "?two = (res, db2, commands2)" by (metis prod_cases3)
  have early: "jr_now ?jr' 1 < i64_saturating_add (jr_now ?jr 1) (duration_ms (join_confirmation_timeout irc_cfg))"
    by code_simp
  have "[JoinChannel ''Chan''] \<noteq> []" by simp
  from join_once [OF one this two early] have c2: "commands2 = [JoinChannel ''Chan'']" by simp
  have "fst (join_if_needed irc_cfg ?jr' ''Chan'' (snd ?one)) = Inr ()" by code_simp
  then have "res = Inr ()" using one two by simp
  then show ?thesis using one two c2 by blast
qed

end
