(* ===== verification/Sessions.thy ===== *)
theory Sessions
  imports Peer ControlProperties
begin

text \<open>
  Sessions of the users who manage their channel: creating, checking, extending and revoking one,
  \<^verbatim>\<open>src/web/auth_endpoints.rs\<close>, \<^verbatim>\<open>src/web/auth.rs\<close> and \<^verbatim>\<open>src/web/auth_middleware.rs\<close>. Twitch's two
  services, the random bytes and the clock are read from outside: what each call of a request answers is
  part of the request's reading. \<open>chrono\<close>'s range of instants is a parameter, as in \<open>ControlStore\<close>.
\<close>

section \<open>Twitch\<close>

text \<open>
  What a call over HTTP comes to: no answer, or a status with the text \<open>error_for_status\<close> has for it and
  the decoded body. Statuses from 400 to 599 are errors.
\<close>

datatype 'a http_answer = NoAnswer string | Answered nat string "string + 'a"

record twitch_user_access_token =
  tt_access_token :: string
  tt_refresh_token :: string

record helix_user =
  hu_id :: string
  hu_login :: string
  hu_display_name :: string
  hu_profile_image_url :: string

definition http_json ::
    "(string \<Rightarrow> api_error) \<Rightarrow> (nat \<Rightarrow> string \<Rightarrow> api_error) \<Rightarrow> 'a http_answer \<Rightarrow> api_error + 'a" where
  "http_json failed bad_status answer =
     (case answer of
        NoAnswer e \<Rightarrow> Inl (failed e)
      | Answered status text json \<Rightarrow>
          if 400 \<le> status \<and> status < 600 then Inl (bad_status status text) else map_err failed json)"

text \<open>
  The clock of the request by the number of the reading, the answer to the k-th query of the user with a
  bearer token, to a refresh with a refresh token and to the exchange of a code, and the random bytes.
\<close>

record session_reading =
  se_now :: "nat \<Rightarrow> int"
  se_user :: "nat \<Rightarrow> string \<Rightarrow> helix_user http_answer"
  se_refresh :: "string \<Rightarrow> twitch_user_access_token http_answer"
  se_exchange :: "string \<Rightarrow> twitch_user_access_token http_answer"
  se_random :: "u8 list"

record session_config =
  sessions_expire_after :: nat
  recheck_twitch_auth_after :: nat

text \<open>A handler refuses, or panics where the code unwraps an instant out of range.\<close>

datatype session_failure = Refused api_error | Panicked

definition add_duration :: "(int \<Rightarrow> bool) \<Rightarrow> int \<Rightarrow> nat \<Rightarrow> session_failure + int" where
  "add_duration in_chrono t d = (if in_chrono (t + int d) then Inr (t + int d) else Inl Panicked)"

record user_authorization_response =
  ur_access_token :: string
  ur_valid_until :: int
  ur_user_id :: string
  ur_user_login :: string
  ur_user_name :: string
  ur_profile_image_url :: string
  ur_details_valid_until :: int

definition from_auth ::
    "(int \<Rightarrow> bool) \<Rightarrow> user_authorization \<Rightarrow> nat \<Rightarrow> session_failure + user_authorization_response" where
  "from_auth in_chrono a user_details_valid_for =
     and_then (add_duration in_chrono (ua_validated_ms a) user_details_valid_for) (\<lambda>until.
     Inr \<lparr>ur_access_token = ua_access_token a, ur_valid_until = ua_valid_until_ms a, ur_user_id = ua_user_id a,
          ur_user_login = ua_user_login a, ur_user_name = ua_user_name a,
          ur_profile_image_url = ua_profile_image_url a, ur_details_valid_until = until\<rparr>)"

section \<open>Checking a session\<close>

definition refresh_token :: "session_reading \<Rightarrow> user_authorization \<Rightarrow> (api_error + unit) \<times> user_authorization" where
  "refresh_token rd a =
     (case http_json FailedTwitchAccessTokenRefresh
         (\<lambda>status text. if status = 400 then Unauthorized else FailedTwitchAccessTokenRefresh text)
         (se_refresh rd (ua_twitch_refresh_token a)) of
        Inl e \<Rightarrow> (Inl e, a)
      | Inr t \<Rightarrow> (Inr (), a\<lparr>ua_twitch_access_token := tt_access_token t, ua_twitch_refresh_token := tt_refresh_token t\<rparr>))"

definition query_user :: "session_reading \<Rightarrow> nat \<Rightarrow> user_authorization \<Rightarrow> api_error + helix_user" where
  "query_user rd k a =
     http_json QueryUserDetails
       (\<lambda>status text. if status = 401 then Unauthorized else FailedTwitchAccessTokenRefresh text)
       (se_user rd k (ua_twitch_access_token a))"

text \<open>The recursive call has \<open>try_refresh_if_invalid\<close> false.\<close>

function validate_still_valid_inner ::
    "session_reading \<Rightarrow> nat \<Rightarrow> bool \<Rightarrow> user_authorization \<Rightarrow> (api_error + unit) \<times> user_authorization" where
  "validate_still_valid_inner rd k try_refresh_if_invalid a =
     (case query_user rd k a of
        Inr u \<Rightarrow> (Inr (), a\<lparr>ua_validated_ms := se_now rd 2, ua_user_id := hu_id u, ua_user_login := hu_login u,
                              ua_user_name := hu_display_name u\<rparr>)
      | Inl e \<Rightarrow>
          if e = Unauthorized \<and> try_refresh_if_invalid
          then (case refresh_token rd a of
                  (Inl e', a') \<Rightarrow> (Inl e', a')
                | (Inr _, a') \<Rightarrow> validate_still_valid_inner rd (Suc k) False a')
          else (Inl e, a))"
  by pat_completeness auto
termination by (relation "measure (\<lambda>(rd, k, t, a). if t then 1 else 0)") auto

declare validate_still_valid_inner.simps [simp del]

definition validate_still_valid ::
    "session_config \<Rightarrow> session_reading \<Rightarrow> user_authorization \<Rightarrow> (session_failure + unit) \<times> user_authorization" where
  "validate_still_valid c rd a =
     (if se_now rd 1 < ua_validated_ms a then (Inl Panicked, a)
      else if se_now rd 1 - ua_validated_ms a \<le> int (recheck_twitch_auth_after c) then (Inr (), a)
      else case validate_still_valid_inner rd 0 True a of (res, a') \<Rightarrow> (map_err Refused res, a'))"

definition is_lower_hex :: "char \<Rightarrow> bool" where
  "is_lower_hex c \<longleftrightarrow> (let n = (of_char c :: nat) in 48 \<le> n \<and> n \<le> 57 \<or> 97 \<le> n \<and> n \<le> 102)"

definition authorization_header :: "string \<Rightarrow> string option" where
  "authorization_header s =
     (case strip_prefix ''Bearer '' s of
        Some token \<Rightarrow> if length token = 128 \<and> list_all is_lower_hex token then Some token else None
      | None \<Rightarrow> None)"

text \<open>The middleware: the session with which the request goes on.\<close>

definition request_token :: "(bytes \<Rightarrow> string option) \<Rightarrow> headers \<Rightarrow> session_failure + string" where
  "request_token to_str hs =
     (case hs ''authorization'' of
        None \<Rightarrow> Inl (Refused (MissingHeader ''authorization''))
      | Some v \<Rightarrow>
          (case to_str v of
             None \<Rightarrow> Inl (Refused (HeaderValueNotUtf8 ''authorization''))
           | Some s \<Rightarrow> ok_or (Refused MalformedAuthorizationHeader) (authorization_header s)))"

definition with_authorization ::
    "(bytes \<Rightarrow> string option) \<Rightarrow> (int \<Rightarrow> bool) \<Rightarrow> session_config \<Rightarrow> session_reading \<Rightarrow> headers \<Rightarrow> control_store
      \<Rightarrow> (session_failure + user_authorization) \<times> control_store" where
  "with_authorization to_str in_chrono c rd hs store =
     (case and_then (request_token to_str hs) (\<lambda>token.
           and_then (map_err (\<lambda>e. Refused (QueryAccessToken e)) (get_user_authorization in_chrono (se_now rd 0) token store))
             (ok_or (Refused Unauthorized))) of
        Inl e \<Rightarrow> (Inl e, store)
      | Inr a \<Rightarrow>
          (case validate_still_valid c rd a of
             (Inl e, a') \<Rightarrow> (Inl e, store)
           | (Inr _, a') \<Rightarrow>
               if a \<noteq> a' then
                 (case update_user_authorization (se_now rd 3) a' store of
                    (Inl e, store') \<Rightarrow> (Inl (Refused (UpdateUserAuthorization e)), store')
                  | (Inr _, store') \<Rightarrow> (Inr a', store'))
               else (Inr a', store)))"

section \<open>The endpoints\<close>

definition hex_digit :: "u8 \<Rightarrow> char" where
  "hex_digit n = (if n < 10 then char_of (48 + unat n) else char_of (87 + unat n))"

definition hex_byte :: "u8 \<Rightarrow> string" where
  "hex_byte b = [hex_digit (drop_bit 4 b), hex_digit (take_bit 4 b)]"

definition random_token :: "session_reading \<Rightarrow> string" where
  "random_token rd = concat (map hex_byte (take 64 (se_random rd)))"

definition new_authorization ::
    "session_reading \<Rightarrow> twitch_user_access_token \<Rightarrow> helix_user \<Rightarrow> int \<Rightarrow> user_authorization" where
  "new_authorization rd t u until =
     \<lparr>ua_access_token = random_token rd, ua_twitch_access_token = tt_access_token t,
      ua_twitch_refresh_token = tt_refresh_token t, ua_validated_ms = se_now rd 0,
      ua_valid_until_ms = until, ua_user_id = hu_id u, ua_user_login = hu_login u,
      ua_user_name = hu_display_name u, ua_profile_image_url = hu_profile_image_url u\<rparr>"

definition create_token ::
    "(int \<Rightarrow> bool) \<Rightarrow> session_config \<Rightarrow> session_reading \<Rightarrow> string option \<Rightarrow> control_store
      \<Rightarrow> (session_failure + user_authorization_response) \<times> control_store" where
  "create_token in_chrono c rd query store =
     (case and_then (map_err Refused (
           and_then (ok_or InvalidQuery query) (\<lambda>code.
           and_then (http_json ExchangeCodeForAccessToken
              (\<lambda>status text. if status = 400 then InvalidAuthorizationCode else ExchangeCodeForAccessToken text)
              (se_exchange rd code)) (\<lambda>t.
           and_then (http_json QueryUserDetails (\<lambda>status text. QueryUserDetails text)
              (se_user rd 0 (tt_access_token t))) (\<lambda>u. Inr (t, u)))))) (\<lambda>(t, u).
           and_then (add_duration in_chrono (se_now rd 0) (sessions_expire_after c)) (\<lambda>until. Inr (new_authorization rd t u until))) of
        Inl e \<Rightarrow> (Inl e, store)
      | Inr a \<Rightarrow>
          (case append_user_authorization (se_now rd 1) a store of
             (Inl e, store') \<Rightarrow> (Inl (Refused (SaveUserAuthorization e)), store')
           | (Inr _, store') \<Rightarrow> (from_auth in_chrono a (recheck_twitch_auth_after c), store')))"

definition extend_token ::
    "(int \<Rightarrow> bool) \<Rightarrow> session_config \<Rightarrow> session_reading \<Rightarrow> user_authorization \<Rightarrow> control_store
      \<Rightarrow> (session_failure + user_authorization_response) \<times> control_store" where
  "extend_token in_chrono c rd a store =
     (case add_duration in_chrono (se_now rd 4) (sessions_expire_after c) of
        Inl e \<Rightarrow> (Inl e, store)
      | Inr until \<Rightarrow>
          (let a' = a\<lparr>ua_valid_until_ms := until\<rparr>
           in case update_user_authorization (se_now rd 5) a' store of
                (Inl e, store') \<Rightarrow> (Inl (Refused (UpdateUserAuthorization e)), store')
              | (Inr _, store') \<Rightarrow> (from_auth in_chrono a' (recheck_twitch_auth_after c), store')))"

definition revoke_token ::
    "session_reading \<Rightarrow> user_authorization \<Rightarrow> control_store \<Rightarrow> (session_failure + nat) \<times> control_store" where
  "revoke_token rd a store =
     (case delete_user_authorization (se_now rd 4) (ua_access_token a) store of
        (Inl e, store') \<Rightarrow> (Inl (Refused (AuthorizationRevokeFailed e)), store')
      | (Inr _, store') \<Rightarrow> (Inr 204, store'))"

section \<open>What a session rests on\<close>

text \<open>Twitch named the user of the session in this reading, at the instant the session carries.\<close>

definition answered_user :: "helix_user http_answer \<Rightarrow> helix_user option" where
  "answered_user answer =
     (case answer of Answered status text (Inr u) \<Rightarrow> if 400 \<le> status \<and> status < 600 then None else Some u | _ \<Rightarrow> None)"

definition names_user :: "user_authorization \<Rightarrow> helix_user \<Rightarrow> bool" where
  "names_user a u \<longleftrightarrow> ua_user_id a = hu_id u \<and> ua_user_login a = hu_login u \<and> ua_user_name a = hu_display_name u"

definition confirmed_by :: "session_reading \<Rightarrow> user_authorization \<Rightarrow> bool" where
  "confirmed_by rd a \<longleftrightarrow> ua_validated_ms a \<in> {se_now rd 0, se_now rd 2} \<and>
     (\<exists>k u. answered_user (se_user rd k (ua_twitch_access_token a)) = Some u \<and> names_user a u)"

lemma http_json_ok:
  "http_json failed bad answer = Inr x \<longleftrightarrow>
     (\<exists>status text. answer = Answered status text (Inr x) \<and> \<not> (400 \<le> status \<and> status < 600))"
  by (auto simp: http_json_def map_err_def split: http_answer.splits sum.splits)

lemma query_user_answered:
  "query_user rd k a = Inr u \<Longrightarrow> answered_user (se_user rd k (ua_twitch_access_token a)) = Some u"
  by (auto simp: query_user_def http_json_ok answered_user_def)

lemma refresh_token_keeps:
  "refresh_token rd a = (res, a') \<Longrightarrow> ua_access_token a' = ua_access_token a \<and> ua_valid_until_ms a' = ua_valid_until_ms a"
  by (auto simp: refresh_token_def split: sum.splits)

lemma validate_inner_spec:
  assumes "validate_still_valid_inner rd k t a = (Inr (), a')"
  shows "confirmed_by rd a' \<and> ua_validated_ms a' = se_now rd 2 \<and> ua_access_token a' = ua_access_token a \<and>
    ua_valid_until_ms a' = ua_valid_until_ms a"
  using assms
proof (induction rd k t a rule: validate_still_valid_inner.induct)
  case (1 rd k t a)
  note eq = "1.prems" [unfolded validate_still_valid_inner.simps [of rd k t a]]
  show ?case
  proof (cases "query_user rd k a")
    case (Inl e)
    then have flag: "e = Unauthorized \<and> t" using eq by (auto split: if_splits)
    obtain r a1 where f: "refresh_token rd a = (r, a1)" by fastforce
    then have rec: "validate_still_valid_inner rd (Suc k) False a1 = (Inr (), a')" and r: "r = Inr ()"
      using eq Inl flag by (auto split: sum.splits)
    show ?thesis using "1.IH" [OF Inl flag f [symmetric] r rec] refresh_token_keeps [OF f] by simp
  next
    case (Inr u)
    then have "a' = a\<lparr>ua_validated_ms := se_now rd 2, ua_user_id := hu_id u, ua_user_login := hu_login u,
        ua_user_name := hu_display_name u\<rparr>"
      using eq by simp
    then show ?thesis using query_user_answered [OF Inr] by (auto simp: confirmed_by_def names_user_def)
  qed
qed

lemma validate_spec:
  assumes "validate_still_valid c rd a = (Inr (), a')"
  shows "ua_access_token a' = ua_access_token a \<and> ua_valid_until_ms a' = ua_valid_until_ms a \<and>
    (a' = a \<and> ua_validated_ms a \<le> se_now rd 1 \<and> se_now rd 1 - ua_validated_ms a \<le> int (recheck_twitch_auth_after c) \<or>
     confirmed_by rd a' \<and> ua_validated_ms a' = se_now rd 2)"
  using assms validate_inner_spec [of rd 0 True a a']
  by (auto simp: validate_still_valid_def map_err_def split: if_splits prod.splits sum.splits)

section \<open>Runs\<close>

datatype session_event =
    CreateSession session_reading "string option"
  | CheckSession session_reading headers
  | ExtendSession session_reading headers
  | RevokeSession session_reading headers

fun event_reading :: "session_event \<Rightarrow> session_reading" where
  "event_reading (CreateSession rd q) = rd"
| "event_reading (CheckSession rd hs) = rd"
| "event_reading (ExtendSession rd hs) = rd"
| "event_reading (RevokeSession rd hs) = rd"

text \<open>Whether the handler answered, and the store after it.\<close>

fun session_step ::
    "(bytes \<Rightarrow> string option) \<Rightarrow> (int \<Rightarrow> bool) \<Rightarrow> session_config \<Rightarrow> session_event \<Rightarrow> control_store \<Rightarrow> bool \<times> control_store" where
  "session_step to_str in_chrono c (CreateSession rd q) store =
     (case create_token in_chrono c rd q store of (res, store') \<Rightarrow> (\<not> isl res, store'))"
| "session_step to_str in_chrono c (CheckSession rd hs) store =
     (case with_authorization to_str in_chrono c rd hs store of (res, store') \<Rightarrow> (\<not> isl res, store'))"
| "session_step to_str in_chrono c (ExtendSession rd hs) store =
     (case with_authorization to_str in_chrono c rd hs store of
        (Inl e, store') \<Rightarrow> (False, store')
      | (Inr a, store') \<Rightarrow> (case extend_token in_chrono c rd a store' of (res, store'') \<Rightarrow> (\<not> isl res, store'')))"
| "session_step to_str in_chrono c (RevokeSession rd hs) store =
     (case with_authorization to_str in_chrono c rd hs store of
        (Inl e, store') \<Rightarrow> (False, store')
      | (Inr a, store') \<Rightarrow> (case revoke_token rd a store' of (res, store'') \<Rightarrow> (\<not> isl res, store'')))"

fun session_run ::
    "(bytes \<Rightarrow> string option) \<Rightarrow> (int \<Rightarrow> bool) \<Rightarrow> session_config \<Rightarrow> session_event list \<Rightarrow> control_store
      \<Rightarrow> (session_event \<times> bool) list \<times> control_store" where
  "session_run to_str in_chrono c [] store = ([], store)"
| "session_run to_str in_chrono c (e # es) store =
     (let step = session_step to_str in_chrono c e store; rest = session_run to_str in_chrono c es (snd step)
      in ((e, fst step) # fst rest, snd rest))"

text \<open>
  The tokens a trace leaves: those handed out or about to be, less those revoked. A creation that panics
  after it saved the session has handed out nothing, but the session is there.
\<close>

definition may_live :: "(bytes \<Rightarrow> string option) \<Rightarrow> session_event \<times> bool \<Rightarrow> string set \<Rightarrow> string set" where
  "may_live to_str x tokens =
     (case x of
        (CreateSession rd q, ok) \<Rightarrow> insert (random_token rd) tokens
      | (RevokeSession rd hs, True) \<Rightarrow> {t \<in> tokens. request_token to_str hs \<noteq> Inr t}
      | _ \<Rightarrow> tokens)"

definition session_inv ::
    "session_reading set \<Rightarrow> string set \<Rightarrow> control_store \<Rightarrow> bool" where
  "session_inv readings tokens store \<longleftrightarrow> cs_cluster store = None \<and>
     (\<forall>t a. map_of (auth_tab (cs_db store)) t = Some a \<longrightarrow>
        ua_access_token a = t \<and> t \<in> tokens \<and> (\<exists>rd \<in> readings. confirmed_by rd a))"

lemma local_steps:
  assumes "cs_cluster store = None"
  shows "update_user_authorization now a store = (Inr (), store\<lparr>cs_db := local_update_authorization a (cs_db store)\<rparr>)"
    and "delete_user_authorization now t store = (Inr (), store\<lparr>cs_db := local_delete_authorization t (cs_db store)\<rparr>)"
    and "append_user_authorization now a store =
      (case local_append_authorization a (cs_db store) of (res, db) \<Rightarrow> (res, store\<lparr>cs_db := db\<rparr>))"
    and "get_user_authorization in_chrono now t store = local_get_authorization in_chrono now t (cs_db store)"
  using assms
  by (simp_all add: update_user_authorization_def delete_user_authorization_def append_user_authorization_def
      get_user_authorization_def via_cluster_def)

lemma local_get_Some:
  "local_get_authorization in_chrono now t db = Inr (Some a) \<Longrightarrow>
     map_of (auth_tab db) t = Some a \<and> now \<le> ua_valid_until_ms a"
  by (auto simp: local_get_authorization_def authorization_of_def split: option.splits if_splits)

lemma session_inv_mono: "session_inv R T store \<Longrightarrow> R \<subseteq> R' \<Longrightarrow> T \<subseteq> T' \<Longrightarrow> session_inv R' T' store"
  unfolding session_inv_def by blast

lemma session_inv_update:
  assumes "session_inv R T store" and "ua_access_token a \<in> T" and "rd \<in> R" and "confirmed_by rd a"
  shows "session_inv R T (store\<lparr>cs_db := local_update_authorization a (cs_db store)\<rparr>)"
  using assms by (auto simp: session_inv_def local_update_authorization_def update_conv')

text \<open>The middleware, on a store of confirmed sessions.\<close>

lemma with_authorization_inv:
  assumes inv: "session_inv R T store" and run: "with_authorization to_str in_chrono c rd hs store = (res, store')"
  shows "session_inv (insert rd R) T store' \<and>
    (\<forall>a. res = Inr a \<longrightarrow> request_token to_str hs = Inr (ua_access_token a) \<and> ua_access_token a \<in> T \<and>
       se_now rd 0 \<le> ua_valid_until_ms a \<and> (\<exists>rd' \<in> insert rd R. confirmed_by rd' a) \<and>
       (ua_validated_ms a = se_now rd 2 \<or> ua_validated_ms a \<le> se_now rd 1 \<and>
          se_now rd 1 - ua_validated_ms a \<le> int (recheck_twitch_auth_after c)) \<and>
       map_of (auth_tab (cs_db store')) (ua_access_token a) = Some a)"
proof -
  have same: "session_inv (insert rd R) T store" using inv by (rule session_inv_mono) auto
  have loc: "cs_cluster store = None" using inv by (simp add: session_inv_def)
  note l = local_steps [OF loc]
  define found where "found = and_then (request_token to_str hs) (\<lambda>token.
      and_then (map_err (\<lambda>e. Refused (QueryAccessToken e)) (get_user_authorization in_chrono (se_now rd 0) token store))
        (ok_or (Refused Unauthorized)))"
  note eq = run [unfolded with_authorization_def, folded found_def]
  show ?thesis
  proof (cases found)
    case (Inl e)
    then show ?thesis using eq same by auto
  next
    case (Inr a)
    then obtain token where t: "request_token to_str hs = Inr token"
      "get_user_authorization in_chrono (se_now rd 0) token store = Inr (Some a)"
      by (auto simp: found_def)
    then have a: "map_of (auth_tab (cs_db store)) token = Some a" "se_now rd 0 \<le> ua_valid_until_ms a"
      using local_get_Some l(4) by fastforce+
    have s: "ua_access_token a = token" "token \<in> T" "\<exists>rd \<in> R. confirmed_by rd a"
      using inv a(1) by (auto simp: session_inv_def)
    obtain v a' where v: "validate_still_valid c rd a = (v, a')" by fastforce
    show ?thesis
    proof (cases v)
      case (Inl e)
      then show ?thesis using eq Inr v same by auto
    next
      case ok: (Inr u)
      have spec: "ua_access_token a' = ua_access_token a" "ua_valid_until_ms a' = ua_valid_until_ms a"
        "a' = a \<and> ua_validated_ms a \<le> se_now rd 1 \<and> se_now rd 1 - ua_validated_ms a \<le> int (recheck_twitch_auth_after c) \<or>
           confirmed_by rd a' \<and> ua_validated_ms a' = se_now rd 2"
        using validate_spec [of c rd a a'] v ok by auto
      have conf: "\<exists>rd' \<in> insert rd R. confirmed_by rd' a'" using spec(3) s(3) by blast
      have r: "res = Inr a'" "store' = (if a \<noteq> a' then store\<lparr>cs_db := local_update_authorization a' (cs_db store)\<rparr> else store)"
        using eq Inr v ok l(1) by (auto split: if_splits)
      have "session_inv (insert rd R) T store'"
        using r(2) same conf session_inv_update [OF same, of a'] spec(1) s(1,2) by auto
      moreover have "map_of (auth_tab (cs_db store')) (ua_access_token a') = Some a'"
        using r(2) a(1) s(1) spec(1) by (auto simp: local_update_authorization_def update_conv')
      ultimately show ?thesis using r t(1) a(2) s spec conf by auto
    qed
  qed
qed

lemma create_token_inv:
  assumes inv: "session_inv R T store" and run: "create_token in_chrono c rd q store = (res, store')"
  shows "session_inv (insert rd R) (insert (random_token rd) T) store'"
proof -
  let ?R = "insert rd R" and ?T = "insert (random_token rd) T"
  have same: "session_inv ?R ?T store" using inv by (rule session_inv_mono) auto
  have loc: "cs_cluster store = None" using inv by (simp add: session_inv_def)
  define made where "made = and_then (map_err Refused (
       and_then (ok_or InvalidQuery q) (\<lambda>code.
       and_then (http_json ExchangeCodeForAccessToken
          (\<lambda>status text. if status = 400 then InvalidAuthorizationCode else ExchangeCodeForAccessToken text)
          (se_exchange rd code)) (\<lambda>t.
       and_then (http_json QueryUserDetails (\<lambda>status text. QueryUserDetails text)
          (se_user rd 0 (tt_access_token t))) (\<lambda>u. Inr (t, u)))))) (\<lambda>(t, u).
       and_then (add_duration in_chrono (se_now rd 0) (sessions_expire_after c)) (\<lambda>until. Inr (new_authorization rd t u until)))"
  note eq = run [unfolded create_token_def, folded made_def]
  show ?thesis
  proof (cases made)
    case (Inl e)
    then show ?thesis using eq same by simp
  next
    case (Inr a)
    then obtain t u until where u: "http_json QueryUserDetails (\<lambda>status text. QueryUserDetails text)
        (se_user rd 0 (tt_access_token t)) = Inr u"
      and a: "a = new_authorization rd t u until"
      by (auto simp: made_def)
    then have a: "ua_access_token a = random_token rd" "ua_twitch_access_token a = tt_access_token t"
      "ua_validated_ms a = se_now rd 0" "names_user a u"
      by (simp_all add: names_user_def new_authorization_def)
    have conf: "confirmed_by rd a"
      using u a by (auto simp: confirmed_by_def http_json_ok answered_user_def intro!: exI [of _ "0::nat"])
    show ?thesis
    proof (cases "map_of (auth_tab (cs_db store)) (ua_access_token a)")
      case None
      then have "store' = store\<lparr>cs_db := (cs_db store)\<lparr>auth_tab := auth_tab (cs_db store) @ [(ua_access_token a, a)]\<rparr>\<rparr>"
        using eq Inr local_steps(3) [OF loc] by (simp add: local_append_authorization_def split: prod.splits)
      then show ?thesis using same conf a(1) None
        by (auto simp: session_inv_def map_add_def split: option.splits if_splits)
    next
      case (Some old)
      then have "store' = store" using eq Inr local_steps(3) [OF loc] by (simp add: local_append_authorization_def)
      then show ?thesis using same by simp
    qed
  qed
qed

lemma session_step_inv:
  assumes inv: "session_inv R T store" and run: "session_step to_str in_chrono c e store = (ok, store')"
  shows "session_inv (insert (event_reading e) R) (may_live to_str (e, ok) T) store'"
proof (cases e)
  case (CreateSession rd q)
  obtain res s where c: "create_token in_chrono c rd q store = (res, s)" by fastforce
  then show ?thesis using create_token_inv [OF inv c] run CreateSession by (simp add: may_live_def)
next
  case (CheckSession rd hs)
  obtain res s where w: "with_authorization to_str in_chrono c rd hs store = (res, s)" by fastforce
  then show ?thesis using with_authorization_inv [OF inv w] run CheckSession by (simp add: may_live_def)
next
  case (ExtendSession rd hs)
  obtain res s where w: "with_authorization to_str in_chrono c rd hs store = (res, s)" by fastforce
  note wi = with_authorization_inv [OF inv w]
  show ?thesis
  proof (cases res)
    case (Inl f)
    then show ?thesis using w wi run ExtendSession by (simp add: may_live_def)
  next
    case (Inr a)
    have loc: "cs_cluster s = None" using wi by (simp add: session_inv_def)
    have a: "ua_access_token a \<in> T" "\<exists>rd' \<in> insert rd R. confirmed_by rd' a" using wi Inr by simp_all
    have "store' = s \<or> (\<exists>until. store' = s\<lparr>cs_db := local_update_authorization (a\<lparr>ua_valid_until_ms := until\<rparr>) (cs_db s)\<rparr>)"
      using w run ExtendSession Inr local_steps(1) [OF loc]
      by (auto simp: extend_token_def Let_def split: sum.splits prod.splits)
    then show ?thesis
    proof (elim disjE exE)
      assume "store' = s"
      then show ?thesis using wi ExtendSession by (simp add: may_live_def)
    next
      fix until assume st: "store' = s\<lparr>cs_db := local_update_authorization (a\<lparr>ua_valid_until_ms := until\<rparr>) (cs_db s)\<rparr>"
      obtain rd' where rd: "rd' \<in> insert rd R" "confirmed_by rd' a" using a(2) by blast
      have "confirmed_by rd' (a\<lparr>ua_valid_until_ms := until\<rparr>)" using rd(2) by (simp add: confirmed_by_def names_user_def)
      then show ?thesis using session_inv_update [of "insert rd R" T s "a\<lparr>ua_valid_until_ms := until\<rparr>" rd'] wi a(1) rd(1) st
        by (simp add: may_live_def ExtendSession)
    qed
  qed
next
  case (RevokeSession rd hs)
  obtain res s where w: "with_authorization to_str in_chrono c rd hs store = (res, s)" by fastforce
  note wi = with_authorization_inv [OF inv w]
  show ?thesis
  proof (cases res)
    case (Inl f)
    then show ?thesis using w wi run RevokeSession by (simp add: may_live_def)
  next
    case (Inr a)
    have loc: "cs_cluster s = None" using wi by (simp add: session_inv_def)
    have st: "ok" "store' = s\<lparr>cs_db := local_delete_authorization (ua_access_token a) (cs_db s)\<rparr>"
      using w run RevokeSession Inr local_steps(2) [OF loc] by (auto simp: revoke_token_def)
    have "request_token to_str hs = Inr (ua_access_token a)" using wi Inr by simp
    then show ?thesis using wi st RevokeSession
      by (auto simp: may_live_def session_inv_def local_delete_authorization_def)
  qed
qed

lemma session_run_inv:
  assumes "session_inv R T store" and "session_run to_str in_chrono c events store = (trace, store')"
  shows "session_inv (R \<union> event_reading ` set events) (fold (may_live to_str) trace T) store'"
  using assms
proof (induction events arbitrary: R T store trace)
  case Nil
  then show ?case by simp
next
  case (Cons e es)
  obtain ok s where st: "session_step to_str in_chrono c e store = (ok, s)" by fastforce
  obtain rest where r: "session_run to_str in_chrono c es s = (rest, store')" "trace = (e, ok) # rest"
    using Cons.prems(2) st by (cases "session_run to_str in_chrono c es s") (auto simp: Let_def)
  show ?case using Cons.IH [OF session_step_inv [OF Cons.prems(1) st] r(1)] r(2) by simp
qed

section \<open>Properties\<close>


definition sx_user :: helix_user where
  "sx_user = \<lparr>hu_id = ''1'', hu_login = ''anna'', hu_display_name = ''Anna'', hu_profile_image_url = ''p''\<rparr>"

text \<open>The clock shows \<open>t\<close>; Twitch accepts the token \<open>good\<close> only, and a refresh gives it.\<close>

definition sx_reading :: "int \<Rightarrow> string \<Rightarrow> session_reading" where
  "sx_reading t issued =
     \<lparr>se_now = (\<lambda>_. t),
      se_user = (\<lambda>_ token. if token = ''good'' then Answered 200 [] (Inr sx_user) else Answered 401 ''no'' (Inl [])),
      se_refresh = (\<lambda>_. Answered 200 [] (Inr \<lparr>tt_access_token = ''good'', tt_refresh_token = ''r2''\<rparr>)),
      se_exchange = (\<lambda>_. Answered 200 [] (Inr \<lparr>tt_access_token = issued, tt_refresh_token = ''r1''\<rparr>)),
      se_random = replicate 64 0xAB\<rparr>"

definition sx_config :: session_config where
  "sx_config = \<lparr>sessions_expire_after = 1000, recheck_twitch_auth_after = 10\<rparr>"

definition sx_token :: string where
  "sx_token = concat (replicate 64 ''ab'')"

definition sx_headers :: headers where
  "sx_headers = (\<lambda>_. None)(''authorization'' \<mapsto> utf8 (''Bearer '' @ sx_token))"

definition sx_to_str :: "bytes \<Rightarrow> string option" where
  "sx_to_str v = (if v = utf8 (''Bearer '' @ sx_token) then Some (''Bearer '' @ sx_token) else None)"

definition sx_store :: control_store where
  "sx_store = \<lparr>cs_cluster = None, cs_db = empty_control_db\<rparr>"

definition sx_created :: "(session_event \<times> bool) list \<times> control_store" where
  "sx_created = session_run sx_to_str (\<lambda>_. True) sx_config [CreateSession (sx_reading 5 ''good'') (Some ''code'')] sx_store"


lemma hex_digit_lower: "unat n < 16 \<Longrightarrow> is_lower_hex (hex_digit n)"
  by (auto simp: is_lower_hex_def hex_digit_def word_less_nat_alt Let_def)

lemma unat_nibbles: "unat (take_bit 4 (b :: u8)) < 16" "unat (drop_bit 4 (b :: u8)) < 16"
proof -
  have "unat b < 256" using unsigned_less [of b] by simp
  then have "unat b div 16 < 16" by linarith
  moreover have "unat (drop_bit 4 b) = unat b div 16"
    using unat_drop_bit_eq [of 4 b] by (simp only: drop_bit_eq_div) simp
  ultimately show "unat (drop_bit 4 b) < 16" by simp
  show "unat (take_bit 4 b) < 16" using unsigned_take_bit_eq [of 4 b, where ?'a = nat] by (simp add: take_bit_eq_mod)
qed

lemma hex_bytes: "length (concat (map hex_byte bs)) = 2 * length bs \<and> list_all is_lower_hex (concat (map hex_byte bs))"
  by (induction bs) (auto simp: hex_byte_def hex_digit_lower unat_nibbles)

lemma random_token_format:
  "64 \<le> length (se_random rd) \<Longrightarrow> authorization_header (''Bearer '' @ random_token rd) = Some (random_token rd)"
  using hex_bytes [of "take 64 (se_random rd)"] by (simp add: random_token_def authorization_header_def strip_prefix_def)

lemma new_authorization_fields [simp]:
  "ua_access_token (new_authorization rd t u until) = random_token rd"
  "ua_validated_ms (new_authorization rd t u until) = se_now rd 0"
  "ua_valid_until_ms (new_authorization rd t u until) = until"
  by (simp_all add: new_authorization_def)

lemma create_token_made:
  assumes "cs_cluster store = None" and "create_token in_chrono c rd q store = (Inr r, store1)"
  shows "\<exists>a. ua_access_token a = random_token rd \<and> ua_validated_ms a = se_now rd 0 \<and>
    in_chrono (ua_valid_until_ms a) \<and>
    from_auth in_chrono a (recheck_twitch_auth_after c) = Inr r \<and> cs_cluster store1 = None \<and>
    map_of (auth_tab (cs_db store1)) (random_token rd) = Some a"
proof -
  obtain t u until where a: "in_chrono until" "local_append_authorization (new_authorization rd t u until) (cs_db store) = (Inr (), cs_db store1)"
    "from_auth in_chrono (new_authorization rd t u until) (recheck_twitch_auth_after c) = Inr r" "cs_cluster store1 = None"
    using assms by (auto simp: create_token_def local_steps add_duration_def split: sum.splits prod.splits if_splits)
  have "cs_db store1 = snd (local_append_authorization (new_authorization rd t u until) (cs_db store))" using a(2) by simp
  then have "map_of (auth_tab (cs_db store1)) (random_token rd) = Some (new_authorization rd t u until)"
    using a(2) by (simp add: local_append_authorization_def map_add_def split: if_splits)
  then show ?thesis using a by (intro exI [of _ "new_authorization rd t u until"]) simp
qed

text \<open>
  C29: A session that was handed out works until it expires or is revoked. With the token of a creation
  that succeeded, a request is let through as that session, without asking Twitch and without a change of
  the store, while the creation is no longer ago than the time between checks; once it is revoked,
  every request with the token is refused as unauthorized.
\<close>
theorem session_roundtrip:
  assumes loc: "cs_cluster store = None" and made: "create_token in_chrono c rd q store = (Inr r, store1)"
    and random: "64 \<le> length (se_random rd)" and chrono: "in_chrono (se_now rd 0)"
    and header: "Option.bind (hs ''authorization'') to_str = Some (''Bearer '' @ ur_access_token r)"
    and fresh: "se_now rd 0 \<le> se_now rd' 1" "se_now rd' 1 \<le> se_now rd 0 + int (recheck_twitch_auth_after c)"
    and unexpired: "se_now rd' 0 \<le> ur_valid_until r"
  shows "\<exists>a store2. from_auth in_chrono a (recheck_twitch_auth_after c) = Inr r \<and>
    with_authorization to_str in_chrono c rd' hs store1 = (Inr a, store1) \<and>
    revoke_token rd' a store1 = (Inr 204, store2) \<and>
    (\<forall>rd''. with_authorization to_str in_chrono c rd'' hs store2 = (Inl (Refused Unauthorized), store2))"
proof -
  obtain a where a: "ua_access_token a = random_token rd" "ua_validated_ms a = se_now rd 0" "in_chrono (ua_valid_until_ms a)"
    "from_auth in_chrono a (recheck_twitch_auth_after c) = Inr r" "cs_cluster store1 = None"
    "map_of (auth_tab (cs_db store1)) (random_token rd) = Some a"
    using create_token_made [OF loc made] by blast
  have r: "ur_access_token r = random_token rd" "ur_valid_until r = ua_valid_until_ms a"
    using a(1,4) by (auto simp: from_auth_def)
  obtain v where "hs ''authorization'' = Some v" "to_str v = Some (''Bearer '' @ random_token rd)"
    using header r(1) by (auto simp: Option.bind_eq_Some_conv)
  then have t: "request_token to_str hs = Inr (random_token rd)"
    using random_token_format [OF random] by (simp add: request_token_def)
  have "get_user_authorization in_chrono (se_now rd' 0) (random_token rd) store1 = Inr (Some a)"
    using a chrono unexpired r(2) by (simp add: local_steps local_get_authorization_def authorization_of_def)
  then have w: "with_authorization to_str in_chrono c rd' hs store1 = (Inr a, store1)"
    using t fresh a(2) by (simp add: with_authorization_def validate_still_valid_def)
  let ?store2 = "store1\<lparr>cs_db := local_delete_authorization (random_token rd) (cs_db store1)\<rparr>"
  have d: "revoke_token rd' a store1 = (Inr 204, ?store2)"
    using a(1,5) by (simp add: revoke_token_def local_steps)
  have "get_user_authorization in_chrono now (random_token rd) ?store2 = Inr None" for now
    using a(5) by (simp add: local_steps local_get_authorization_def local_delete_authorization_def)
  then have "with_authorization to_str in_chrono c rd'' hs ?store2 = (Inl (Refused Unauthorized), ?store2)" for rd''
    using t by (simp add: with_authorization_def)
  then show ?thesis using a(4) w d by blast
qed

theorem session_roundtrip_witness:
  "\<exists>a. with_authorization sx_to_str (\<lambda>_. True) sx_config (sx_reading 9 ''good'') sx_headers (snd sx_created) =
      (Inr a, snd sx_created)"
proof -
  let ?c = "create_token (\<lambda>_. True) sx_config (sx_reading 5 ''good'') (Some ''code'') sx_store"
  have v: "\<not> isl (fst ?c)" "ur_access_token (projr (fst ?c)) = sx_token" "ur_valid_until (projr (fst ?c)) = 1005"
    by code_simp+
  obtain r where made: "?c = (Inr r, snd ?c)" using v(1) by (cases ?c; cases "fst ?c") auto
  have r: "ur_access_token r = sx_token" "ur_valid_until r = 1005" using v(2,3) made by (metis fst_conv sum.sel(2))+
  have created: "snd sx_created = snd ?c" by (simp add: sx_created_def Let_def split: prod.splits)
  have loc: "cs_cluster sx_store = None" by (simp add: sx_store_def)
  have rd: "64 \<le> length (se_random (sx_reading 5 ''good''))" by (simp add: sx_reading_def)
  have header: "Option.bind (sx_headers ''authorization'') sx_to_str = Some (''Bearer '' @ ur_access_token r)"
    by (simp add: sx_headers_def sx_to_str_def r(1))
  have "\<exists>a store2. from_auth (\<lambda>_. True) a (recheck_twitch_auth_after sx_config) = Inr r \<and>
    with_authorization sx_to_str (\<lambda>_. True) sx_config (sx_reading 9 ''good'') sx_headers (snd ?c) = (Inr a, snd ?c) \<and>
    revoke_token (sx_reading 9 ''good'') a (snd ?c) = (Inr 204, store2) \<and>
    (\<forall>rd''. with_authorization sx_to_str (\<lambda>_. True) sx_config rd'' sx_headers store2 = (Inl (Refused Unauthorized), store2))"
    by (rule session_roundtrip [of sx_store "\<lambda>_. True" sx_config "sx_reading 5 ''good''" "Some ''code''" r "snd ?c" sx_headers sx_to_str,
          OF loc made rd _ header]) (simp_all add: sx_reading_def sx_config_def r(2))
  then show ?thesis unfolding created by blast
qed

text \<open>
  A clock behind the one that confirmed the session, as on another node of the cluster, makes the check
  panic: the code unwraps the conversion of a negative difference.
\<close>
theorem clock_behind_panics:
  "fst (with_authorization sx_to_str (\<lambda>_. True) sx_config (sx_reading 4 ''good'') sx_headers (snd sx_created)) = Inl Panicked"
  by code_simp

text \<open>
  A token that was refreshed is stored only when the query after it succeeds: when that fails, the new
  tokens are forgotten.
\<close>
theorem failed_check_forgets_refresh:
  assumes "request_token to_str hs = Inr token" and "get_user_authorization in_chrono (se_now rd 0) token store = Inr (Some a)"
    and "ua_validated_ms a + int (recheck_twitch_auth_after c) < se_now rd 1"
    and "query_user rd 0 a = Inl Unauthorized" and "refresh_token rd a = (Inr (), a')" and "query_user rd 1 a' = Inl e"
  shows "with_authorization to_str in_chrono c rd hs store = (Inl (Refused e), store)"
  using assms
  by (simp add: with_authorization_def validate_still_valid_def validate_still_valid_inner.simps)

end
