(* ===== verification/UserActions.thy ===== *)
theory UserActions
  imports ClusterPolicy IrcListener Sessions
begin

text \<open>
  What a user does to the own channel: \<^verbatim>\<open>src/web/purge.rs\<close> deletes its messages and
  \<^verbatim>\<open>src/web/ignored.rs\<close> takes it out of the service or back. The handlers run after the middleware of
  \<open>Sessions\<close>, for the login of its session, over the stores and the policies of \<open>ClusterPolicy\<close>.
\<close>

definition node_call ::
    "(storage_error \<Rightarrow> api_error) \<Rightarrow> int \<Rightarrow> mutation \<Rightarrow> policy_app \<Rightarrow> (api_error + unit) \<times> policy_app" where
  "node_call failed now operation app =
     (case pa_cluster app of
        None \<Rightarrow> (Inr (), app)
      | Some node \<Rightarrow>
          (case node_mutate now operation node of
             (res, node') \<Rightarrow> (map_err failed (map_sum id (\<lambda>_. ()) res), app\<lparr>pa_cluster := Some node'\<rparr>)))"

definition on_store ::
    "(sqlite_db \<Rightarrow> (store_error + 'a) \<times> sqlite_db) \<Rightarrow> (store_error \<Rightarrow> api_error) \<Rightarrow> policy_app \<Rightarrow> (api_error + 'a) \<times> policy_app" where
  "on_store g failed app = (case g (pa_db app) of (res, db) \<Rightarrow> (map_err failed res, app\<lparr>pa_db := db\<rparr>))"

definition on_control :: "(control_db \<Rightarrow> control_db) \<Rightarrow> policy_app \<Rightarrow> (api_error + unit) \<times> policy_app" where
  "on_control g app = (Inr (), app\<lparr>pa_control := g (pa_control app)\<rparr>)"

text \<open>The policy the cluster holds for the user's channel is applied on this node.\<close>

definition apply_current :: "string \<Rightarrow> policy_app \<Rightarrow> (api_error + unit) \<times> policy_app" where
  "apply_current login app =
     (case pa_cluster app of
        None \<Rightarrow> (Inr (), app)
      | Some node \<Rightarrow>
          then_st (map_err GetCoverage (policy_of (cn_db node) login), app)
            (\<lambda>policy app. apply_policy (to_ascii_lowercase login) policy app))"

section \<open>Purging\<close>

text \<open>When the request came, the clock of the cluster's write, and whether the client is in the channel.\<close>

record purge_reading =
  pg_cutoff :: int
  pg_now :: int
  pg_joined :: bool

definition purge_messages :: "purge_reading \<Rightarrow> string \<Rightarrow> policy_app \<Rightarrow> (api_error + nat) \<times> policy_app" where
  "purge_messages rd login app =
     then_st (node_call GetCoverage (pg_now rd) (PurgeTo login (pg_cutoff rd)) app) (\<lambda>_ app.
     then_st (on_control (invalidate_channel_coverage login) app) (\<lambda>_ app.
     then_st (on_store (purge_channel (to_ascii_lowercase login) (pg_cutoff rd)) PurgeMessages app) (\<lambda>_ app.
     then_st (Inr (), app\<lparr>pa_open := map_option (open_purge_channel (to_ascii_lowercase login)) (pa_open app)\<rparr>) (\<lambda>_ app.
     then_st (apply_current login app) (\<lambda>_ app.
     then_st (if pg_joined rd then on_control (begin_live_coverage login ''direct-irc'' (pg_cutoff rd)) app
              else (Inr (), app)) (\<lambda>_ app.
     (Inr 204, app)))))))"

section \<open>Ignoring\<close>

definition the_store :: "policy_app \<Rightarrow> control_store" where
  "the_store app = \<lparr>cs_cluster = pa_cluster app, cs_db = pa_control app\<rparr>"

definition on_control_store ::
    "(control_store \<Rightarrow> (storage_error + 'a) \<times> control_store) \<Rightarrow> (storage_error \<Rightarrow> api_error) \<Rightarrow> policy_app
      \<Rightarrow> (api_error + 'a) \<times> policy_app" where
  "on_control_store g failed app =
     (case g (the_store app) of
        (res, store) \<Rightarrow> (map_err failed res, app\<lparr>pa_cluster := cs_cluster store, pa_control := cs_db store\<rparr>))"

definition get_ignored :: "string \<Rightarrow> policy_app \<Rightarrow> api_error + bool" where
  "get_ignored login app = map_err GetChannelIgnored (is_channel_ignored login (the_store app))"

text \<open>
  \<open>None\<close> is a body that is no such JSON. The client parts from the channel or joins it; a join refuses a
  login that is no login, and the code unwraps that.
\<close>

definition set_ignored ::
    "(string \<Rightarrow> string + unit) \<Rightarrow> int \<Rightarrow> bool option \<Rightarrow> string \<Rightarrow> policy_app
      \<Rightarrow> ((session_failure + nat) \<times> client_command list) \<times> policy_app" where
  "set_ignored validate_login now request_body login app =
     (case then_st (ok_or InvalidPayload request_body, app) (\<lambda>ignored app.
           then_st (on_control_store (set_channel_ignored now login ignored) SetChannelIgnored app) (\<lambda>_ app.
           then_st (on_store (set_channel_blocked (to_ascii_lowercase login) ignored) PurgeMessages app) (\<lambda>_ app.
           then_st (apply_current login app) (\<lambda>_ app. (Inr ignored, app))))) of
        (Inl e, app') \<Rightarrow> ((Inl (Refused e), []), app')
      | (Inr ignored, app') \<Rightarrow>
          if ignored then ((Inr 204, [PartChannel login]), app')
          else if isl (validate_login login) then ((Inl Panicked, []), app')
          else ((Inr 204, [JoinChannel login]), app'))"

section \<open>A purge forgets\<close>

definition no_coverage :: "string \<Rightarrow> control_db \<Rightarrow> bool" where
  "no_coverage ch db \<longleftrightarrow> (\<forall>r \<in> set (coverage_tab db). cv_channel r \<noteq> ch) \<and> map_of (live_tab db) ch = None"

definition none_open :: "string \<Rightarrow> policy_app \<Rightarrow> bool" where
  "none_open ch app \<longleftrightarrow> (\<forall>m. pa_open app = Some m \<longrightarrow> map_of (om_blocks m) ch = None)"

lemma open_purge_none: "map_of (om_blocks (open_purge_channel ch m)) ch = None"
  by (auto simp: open_purge_channel_def take_block_def map_of_eq_None_iff split: option.splits)

lemma open_purge_other: "map_of (om_blocks m) ch = None \<Longrightarrow> map_of (om_blocks (open_purge_channel k m)) ch = None"
  by (auto simp: open_purge_channel_def take_block_def map_of_eq_None_iff split: option.splits)

lemma no_coverage_delete [simp]: "no_coverage ch (delete_coverage_of ch db)"
  by (simp add: no_coverage_def delete_coverage_of_def)

lemma apply_policy_gone:
  assumes "apply_policy ch policy app0 = (Inr (), app')" and "none_open ch app0" and "no_coverage ch (pa_control app0)"
  shows "none_open ch app' \<and> no_coverage ch (pa_control app')"
proof -
  have load: "pa_open (load_applied ch app0) = pa_open app0"
    by (simp add: load_applied_def split: option.splits)
  have cover: "no_coverage ch (apply_cluster_policy c p db) \<longleftrightarrow> no_coverage ch db" for c p db
    by (simp add: no_coverage_def apply_cluster_policy_def Let_def)
  have invalid: "no_coverage ch db \<Longrightarrow> no_coverage ch (invalidate_channel_coverage c db)" for c db
    by (auto simp: no_coverage_def invalidate_channel_coverage_def delete_coverage_of_def)
  show ?thesis
    using assms load load_applied_same [of ch app0]
    by (auto simp: apply_policy_def purge_stage_def Let_def none_open_def cover invalid open_purge_other
        split: if_splits prod.splits sum.splits)
qed

text \<open>What each stage of the handler leaves for the next.\<close>

lemma purge_stages:
  assumes ok: "setup_ok cd cfg N" and inv: "policy_inv cd N app"
    and run: "purge_messages rd login app = (Inr status, app')"
  shows "status = 204 \<and> policy_inv cd N app' \<and> none_open (to_ascii_lowercase login) app' \<and>
    purged_to (pa_db app') (to_ascii_lowercase login) (pg_cutoff rd) \<and>
    (\<forall>r \<in> set (coverage_tab (pa_control app')). cv_channel r \<noteq> to_ascii_lowercase login) \<and>
    map_of (live_tab (pa_control app')) (to_ascii_lowercase login) =
      (if pg_joined rd then Some \<lparr>lv_source = ''direct-irc'', lv_started_at = pg_cutoff rd\<rparr> else None)"
proof -
  let ?ch = "to_ascii_lowercase login"
  obtain a1 a3 a5 x where st: "node_call GetCoverage (pg_now rd) (PurgeTo login (pg_cutoff rd)) app = (Inr (), a1)"
    "on_store (purge_channel ?ch (pg_cutoff rd)) PurgeMessages (snd (on_control (invalidate_channel_coverage login) a1)) = (Inr x, a3)"
    "apply_current login (a3\<lparr>pa_open := map_option (open_purge_channel ?ch) (pa_open a3)\<rparr>) = (Inr (), a5)"
    "(if pg_joined rd then on_control (begin_live_coverage login ''direct-irc'' (pg_cutoff rd)) a5 else (Inr (), a5)) = (Inr (), app')"
    "status = 204"
    using run by (auto simp: purge_messages_def then_st_Inr on_control_def split: if_splits)
  have a1: "pa_db a1 = pa_db app" "pa_open a1 = pa_open app" "pa_control a1 = pa_control app" "pa_applied a1 = pa_applied app"
    using st(1) by (auto simp: node_call_def split: option.splits prod.splits)
  obtain db where p: "purge_channel ?ch (pg_cutoff rd) (pa_db app) = (Inr x, db)"
    and a3: "a3 = a1\<lparr>pa_control := invalidate_channel_coverage login (pa_control app), pa_db := db\<rparr>"
    using st(2) a1 by (auto simp: on_store_def on_control_def split: prod.splits)
  have s: "store_inv cd N (pa_db app)" "policies_purged (pa_db app) (pa_applied app)"
    "policies_purged (pa_db app) (applied_tab (pa_control app))"
    using inv by (simp_all add: policy_inv_def)
  note pc = purge_command [OF ok s(1) p]
  define a4 where "a4 = a3\<lparr>pa_open := map_option (open_purge_channel ?ch) (pa_open a3)\<rparr>"
  have i4: "policy_inv cd N a4"
    using pc s(2,3) policies_purged_grow a1 by (auto simp: policy_inv_def a4_def a3)
  have g4: "none_open ?ch a4" "no_coverage ?ch (pa_control a4)" "purged_to (pa_db a4) ?ch (pg_cutoff rd)"
    using pc by (auto simp: none_open_def a4_def a3 open_purge_none invalidate_channel_coverage_def)
  have g5: "policy_inv cd N a5 \<and> none_open ?ch a5 \<and> no_coverage ?ch (pa_control a5) \<and>
      purged_to (pa_db a5) ?ch (pg_cutoff rd)"
  proof (cases "pa_cluster a4")
    case None
    then have "a5 = a4" using st(3) by (simp add: apply_current_def a4_def)
    then show ?thesis using i4 g4 by simp
  next
    case (Some node)
    then obtain policy where ap: "apply_policy ?ch policy a4 = (Inr (), a5)"
      using st(3) by (auto simp: apply_current_def then_st_Inr a4_def [symmetric])
    show ?thesis
      using apply_policy_inv [OF ok i4 _ ap] apply_policy_gone [OF ap g4(1,2)] purged_to_grow [OF _ g4(3), of "pa_db a5"] by simp
  qed
  show ?thesis
    using st(4,5) g5
    by (auto simp: on_control_def no_coverage_def begin_live_coverage_def Let_def none_open_def policy_inv_def map_add_def
        split: if_splits)
qed

text \<open>
  C12: A purge that succeeded forgets the channel for good: no query returns a record of it received at or
  before the request, whatever the writer does afterwards and whatever policy was applied with it, none is
  held in the open blocks, and no recorded coverage of it is left; live coverage starts anew at the
  request, if the client is in the channel, and otherwise is gone.
\<close>
theorem purge_forgets:
  assumes "setup_ok cd cfg N" and "policy_reachable cd cfg N app"
    and "purge_messages rd login app = (Inr status, app')" and "0 < pg_cutoff rd"
    and "list_all (command_fits N) cmds" and "qr_channel_key q = to_ascii_lowercase login"
    and "sql_query cd (run_commands cd cfg cmds (pa_db app')) q = Inr res"
  shows "(\<forall>r \<in> set (lr_records res). pg_cutoff rd < received_at_ms r) \<and>
    (\<forall>m. pa_open app' = Some m \<longrightarrow> open_query q m = []) \<and>
    (\<forall>r \<in> set (coverage_tab (pa_control app')). cv_channel r \<noteq> to_ascii_lowercase login) \<and>
    map_of (live_tab (pa_control app')) (to_ascii_lowercase login) =
      (if pg_joined rd then Some \<lparr>lv_source = ''direct-irc'', lv_started_at = pg_cutoff rd\<rparr> else None)"
proof -
  note g = purge_stages [OF assms(1) policy_reachable_inv [OF assms(1,2)] assms(3)]
  have "store_inv cd N (pa_db app')" using g by (simp add: policy_inv_def)
  from served_after_purge [OF assms(1) this assms(5,7)] g assms(4,6)
  have "\<forall>r \<in> set (lr_records res). pg_cutoff rd < received_at_ms r" by simp
  moreover have "open_query q m = []" if "pa_open app' = Some m" for m
    using g that assms(6) by (simp add: none_open_def open_query_def drain_to_last_def)
  ultimately show ?thesis using g by blast
qed

text \<open>A node without a cluster that holds a record of the channel \<open>a\<close> in its open blocks.\<close>

definition ua_record :: "int \<Rightarrow> canonical_record" where
  "ua_record t = (ex_event ''a'' 7 Unknown 0)\<lparr>received_at_ms := t\<rparr>"

definition ua_app :: "int \<Rightarrow> policy_app" where
  "ua_app t = ex_app\<lparr>pa_cluster := None,
     pa_open := Some (open_step (OpenAppend (ua_record t) 9)
       \<lparr>om_limits = ex_limits, om_blocks = [], om_estimated_bytes = 0, om_open_messages = 0\<rparr>)\<rparr>"

lemma ua_reachable: "policy_reachable ex_codec ex_cfg 3 (ua_app t)"
proof -
  have "policy_reachable ex_codec ex_cfg 3 ex_app"
    unfolding ex_app_def by (rule policy_start [OF ex_reachable])
  from policy_changes [OF this] show ?thesis by (simp add: ua_app_def)
qed

definition ua_purge :: purge_reading where
  "ua_purge = \<lparr>pg_cutoff = 1, pg_now = 1, pg_joined = True\<rparr>"

theorem purge_forgets_witness:
  "\<exists>app' res. purge_messages ua_purge ''A'' (ua_app 1) = (Inr 204, app') \<and>
    sql_query ex_codec (run_commands ex_codec ex_cfg [Append [ex_batch1]] (pa_db app'))
      \<lparr>qr_channel_key = ''a'', after_ms = None, before_ms = None, limit = 5\<rparr> = Inr res \<and>
    lr_records res \<noteq> [] \<and> (\<forall>r \<in> set (lr_records res). 1 < received_at_ms r) \<and> pa_open app' \<noteq> None"
proof -
  let ?p = "purge_messages ua_purge ''A'' (ua_app 1)"
  let ?q = "\<lparr>qr_channel_key = ''a'', after_ms = None, before_ms = None, limit = 5\<rparr>"
  let ?res = "sql_query ex_codec (run_commands ex_codec ex_cfg [Append [ex_batch1]] (pa_db (snd ?p))) ?q"
  have p: "fst ?p = Inr 204" and o: "pa_open (snd ?p) = None \<longleftrightarrow> False" by code_simp+
  have "case ?res of Inl e \<Rightarrow> False | Inr res \<Rightarrow> lr_records res \<noteq> []" by code_simp
  then obtain res where res: "?res = Inr res" "lr_records res \<noteq> []" by (auto split: sum.splits)
  have run: "?p = (Inr 204, snd ?p)" using p by (metis prod.collapse)
  have q: "list_all (command_fits 3) [Append [ex_batch1]]" "qr_channel_key ?q = to_ascii_lowercase ''A''"
    by (simp add: ex_fits) code_simp
  have pos: "0 < pg_cutoff ua_purge" by (simp add: ua_purge_def)
  from purge_forgets [OF ex_setup ua_reachable run pos q res(1)]
  have "\<forall>r \<in> set (lr_records res). 1 < received_at_ms r" by (simp add: ua_purge_def)
  then show ?thesis using run res o by blast
qed

text \<open>
  The open blocks lose the channel whatever the cutoff: a message received between the request and the
  purge of the open blocks is gone, but the live coverage that starts at the request covers it.
\<close>
theorem purge_overclaims:
  "\<exists>app' l. purge_messages ua_purge ''A'' (ua_app 5) = (Inr 204, app') \<and>
    open_records (the (pa_open (ua_app 5))) = {#ua_record 5#} \<and> open_records (the (pa_open app')) = {#} \<and>
    (case sql_query ex_codec (pa_db app') \<lparr>qr_channel_key = ''a'', after_ms = None, before_ms = None, limit = 5\<rparr> of
       Inl e \<Rightarrow> False | Inr res \<Rightarrow> lr_records res = []) \<and>
    map_of (live_tab (pa_control app')) ''a'' = Some l \<and> lv_started_at l < received_at_ms (ua_record 5)"
proof -
  let ?p = "purge_messages ua_purge ''A'' (ua_app 5)"
  have p: "fst ?p = Inr 204" by code_simp
  have "map (\<lambda>(k, b). (k, ob_records b)) (om_blocks (the (pa_open (ua_app 5)))) = [(''a'', [ua_record 5])]"
    "om_blocks (the (pa_open (snd ?p))) = []" by code_simp+
  then have o: "open_records (the (pa_open (ua_app 5))) = {#ua_record 5#}" "open_records (the (pa_open (snd ?p))) = {#}"
    by (auto simp: open_records_def)
  have q: "case sql_query ex_codec (pa_db (snd ?p)) \<lparr>qr_channel_key = ''a'', after_ms = None, before_ms = None, limit = 5\<rparr> of
       Inl e \<Rightarrow> False | Inr res \<Rightarrow> lr_records res = []" by code_simp
  have l: "map_of (live_tab (pa_control (snd ?p))) ''a'' = Some \<lparr>lv_source = ''direct-irc'', lv_started_at = 1\<rparr>"
    by code_simp
  have "?p = (Inr 204, snd ?p)" using p by (metis prod.collapse)
  then show ?thesis using o q l by (intro exI conjI) (assumption | simp add: ua_record_def)+
qed

section \<open>Ignoring and back\<close>



text \<open>
  Without a cluster, ignoring deletes the stored blocks but not the open one: what it holds is still there
  when the channel is taken back before the block was sealed.
\<close>
theorem ignored_keeps_open:
  "\<exists>app1 c1 app2 c2. set_ignored (\<lambda>_. Inr ()) 3 (Some True) ''A'' (ua_app 2) = ((Inr 204, c1), app1) \<and>
    set_ignored (\<lambda>_. Inr ()) 4 (Some False) ''A'' app1 = ((Inr 204, c2), app2) \<and>
    open_query \<lparr>qr_channel_key = ''a'', after_ms = None, before_ms = None, limit = 5\<rparr> (the (pa_open app2)) = [ua_record 2]"
proof -
  let ?r1 = "set_ignored (\<lambda>_. Inr ()) 3 (Some True) ''A'' (ua_app 2)"
  let ?r2 = "set_ignored (\<lambda>_. Inr ()) 4 (Some False) ''A'' (snd ?r1)"
  have "fst (fst ?r1) = Inr 204" "fst (fst ?r2) = Inr 204"
    "open_query \<lparr>qr_channel_key = ''a'', after_ms = None, before_ms = None, limit = 5\<rparr> (the (pa_open (snd ?r2))) = [ua_record 2]"
    by code_simp+
  then show ?thesis by (metis prod.collapse)
qed

end
