(* ===== verification/AdminChannels.thy ===== *)
theory AdminChannels
  imports UserActions
begin

text \<open>
  The always-join list that an administrator keeps, \<^verbatim>\<open>src/web/admin.rs\<close>: the token in a file, the
  normalization of the channels, and the handlers that read and change the list in the control store and
  bring the block store in line. The hash of the token (BLAKE3), the login check and the file are
  parameters.
\<close>

section \<open>The token\<close>

datatype admin_config_error = ReadToken string string | TokenTooShort | InvalidLimit

text \<open>\<open>str::trim\<close>: the code points with the property \<open>White_Space\<close>, in UTF-8.\<close>

definition white_spaces :: "string list" where
  "white_spaces = map (map char_of)
     (map (\<lambda>n. [n]) ([9..<14] @ [32 :: nat]) @ [[0xC2, 0x85], [0xC2, 0xA0], [0xE1, 0x9A, 0x80]] @
      map (\<lambda>n. [0xE2, 0x80, n]) ([0x80..<0x8B] @ [0xA8, 0xA9, 0xAF]) @ [[0xE2, 0x81, 0x9F], [0xE3, 0x80, 0x80]])"

fun strip_any :: "string list \<Rightarrow> string \<Rightarrow> string option" where
  "strip_any [] s = None"
| "strip_any (p # ps) s =
     (case strip_prefix p s of Some t \<Rightarrow> if p = [] then strip_any ps s else Some t | None \<Rightarrow> strip_any ps s)"

lemma strip_any_shorter: "strip_any ps s = Some t \<Longrightarrow> length t < length s"
  by (induction ps) (auto simp: strip_prefix_Some split: option.splits if_splits)

function trim_with :: "string list \<Rightarrow> string \<Rightarrow> string" where
  "trim_with ps s = (case strip_any ps s of None \<Rightarrow> s | Some t \<Rightarrow> trim_with ps t)"
  by pat_completeness auto
termination by (relation "measure (\<lambda>(ps, s). length s)") (auto dest: strip_any_shorter)

declare trim_with.simps [simp del]

definition trim :: "string \<Rightarrow> string" where
  "trim s = rev (trim_with (map rev white_spaces) (rev (trim_with white_spaces s)))"

record admin_config =
  token_file :: "string option"
  max_always_join_channels :: nat

definition from_token :: "(bytes \<Rightarrow> bytes) \<Rightarrow> string \<Rightarrow> admin_config_error + bytes" where
  "from_token hash token = (if length token < 32 then Inl TokenTooShort else Inr (hash (utf8 token)))"

definition from_config ::
    "(bytes \<Rightarrow> bytes) \<Rightarrow> (string \<Rightarrow> string + string) \<Rightarrow> admin_config \<Rightarrow> admin_config_error + bytes option" where
  "from_config hash read_file c =
     (if max_always_join_channels c = 0 then Inl InvalidLimit
      else case token_file c of
        None \<Rightarrow> Inr None
      | Some path \<Rightarrow>
          and_then (map_err (ReadToken path) (read_file path)) (\<lambda>token.
          and_then (from_token hash (trim token)) (\<lambda>auth. Inr (Some auth))))"

definition authorize_admin ::
    "(bytes \<Rightarrow> bytes) \<Rightarrow> (bytes \<Rightarrow> string option) \<Rightarrow> bytes option \<Rightarrow> headers \<Rightarrow> api_error + unit" where
  "authorize_admin hash to_str auth hs =
     and_then (ok_or AdminAccessDisabled auth) (\<lambda>token_hash.
       let supplied = (case Option.bind (Option.bind (hs ''authorization'') to_str) (strip_prefix ''Bearer '') of
                         None \<Rightarrow> [] | Some s \<Rightarrow> s)
       in if token_hash = hash (utf8 supplied) then Inr () else Inl UnauthorizedAdmin)"

section \<open>The list\<close>

text \<open>The \<open>BTreeSet\<close> is its elements in order.\<close>

fun normalize_into ::
    "(string \<Rightarrow> string + unit) \<Rightarrow> nat \<Rightarrow> string list \<Rightarrow> string list \<Rightarrow> api_error + string list" where
  "normalize_into validate_login maximum [] normalized = Inr normalized"
| "normalize_into validate_login maximum (channel # rest) normalized =
     (let ch = to_ascii_lowercase channel
      in and_then (map_err InvalidChannelLogin (validate_login ch)) (\<lambda>_.
           let normalized' = insort_insert ch normalized
           in if length normalized' > maximum then Inl (AlwaysJoinLimit maximum)
              else normalize_into validate_login maximum rest normalized'))"

definition normalize_channels ::
    "(string \<Rightarrow> string + unit) \<Rightarrow> string list \<Rightarrow> nat \<Rightarrow> api_error + string list" where
  "normalize_channels validate_login requested maximum = normalize_into validate_login maximum requested []"

definition reject_ignored :: "string list \<Rightarrow> policy_app \<Rightarrow> api_error + unit" where
  "reject_ignored chs app =
     and_then (map_err ManageAlwaysJoin (get_ignored_channels (the_store app))) (\<lambda>ignored.
       case filter (\<lambda>ch. ch \<in> ignored) chs of [] \<Rightarrow> Inr () | ch # _ \<Rightarrow> Inl (AlwaysJoinIgnored ch))"

definition admin_synchronize :: "policy_app \<Rightarrow> (api_error + unit) \<times> policy_app" where
  "admin_synchronize app =
     then_st (map_err ManageAlwaysJoin (get_always_join_channels (the_store app)), app) (\<lambda>channels app.
     then_st (on_store (sync_always_join_channels channels) SyncAlwaysJoin app) (\<lambda>_ app.
     (Inr (), app\<lparr>pa_reconciles := Suc (pa_reconciles app)\<rparr>)))"

record admin_env =
  ad_hash :: "bytes \<Rightarrow> bytes"
  ad_to_str :: "bytes \<Rightarrow> string option"
  ad_validate :: "string \<Rightarrow> string + unit"
  ad_auth :: "bytes option"
  ad_maximum :: nat

abbreviation admitted :: "admin_env \<Rightarrow> headers \<Rightarrow> api_error + unit" where
  "admitted env hs \<equiv> authorize_admin (ad_hash env) (ad_to_str env) (ad_auth env) hs"

definition get_always_join :: "admin_env \<Rightarrow> headers \<Rightarrow> policy_app \<Rightarrow> api_error + string list" where
  "get_always_join env hs app =
     and_then (admitted env hs) (\<lambda>_. map_err ManageAlwaysJoin (get_always_join_channels (the_store app)))"

definition replace_always_join ::
    "admin_env \<Rightarrow> int \<Rightarrow> headers \<Rightarrow> string list option \<Rightarrow> policy_app \<Rightarrow> (api_error + string list) \<times> policy_app" where
  "replace_always_join env now hs request_body app =
     then_st (admitted env hs, app) (\<lambda>_ app.
     then_st (ok_or InvalidPayload request_body, app) (\<lambda>requested app.
     then_st (normalize_channels (ad_validate env) requested (ad_maximum env), app) (\<lambda>channels app.
     then_st (reject_ignored channels app, app) (\<lambda>_ app.
     then_st (on_control_store (replace_always_join_channels now channels) ManageAlwaysJoin app) (\<lambda>_ app.
     then_st (admin_synchronize app) (\<lambda>_ app. (Inr channels, app)))))))"

definition pin_error :: "storage_error \<Rightarrow> api_error" where
  "pin_error e = (case e of AlwaysJoinLimitReached maximum \<Rightarrow> AlwaysJoinLimit maximum | _ \<Rightarrow> ManageAlwaysJoin e)"

definition add_always_join ::
    "admin_env \<Rightarrow> int \<Rightarrow> headers \<Rightarrow> string \<Rightarrow> policy_app \<Rightarrow> (api_error + nat) \<times> policy_app" where
  "add_always_join env now hs requested app =
     then_st (admitted env hs, app) (\<lambda>_ app.
     then_st (normalize_channels (ad_validate env) [requested] (ad_maximum env), app) (\<lambda>channels app.
     then_st (reject_ignored channels app, app) (\<lambda>_ app.
     then_st (on_control_store (set_always_join_channel now (hd channels) True (ad_maximum env)) pin_error app) (\<lambda>_ app.
     then_st (admin_synchronize app) (\<lambda>_ app. (Inr 204, app))))))"

definition remove_always_join ::
    "admin_env \<Rightarrow> int \<Rightarrow> headers \<Rightarrow> string \<Rightarrow> policy_app \<Rightarrow> (api_error + nat) \<times> policy_app" where
  "remove_always_join env now hs requested app =
     then_st (admitted env hs, app) (\<lambda>_ app.
     then_st (normalize_channels (ad_validate env) [requested] (ad_maximum env), app) (\<lambda>channels app.
     then_st (on_control_store (set_always_join_channel now (hd channels) False (ad_maximum env)) ManageAlwaysJoin app) (\<lambda>_ app.
     then_st (admin_synchronize app) (\<lambda>_ app. (Inr 204, app)))))"

section \<open>Only with the token\<close>

text \<open>The text a request presents as its token.\<close>

definition presented :: "(bytes \<Rightarrow> string option) \<Rightarrow> headers \<Rightarrow> string" where
  "presented to_str hs =
     (case Option.bind (Option.bind (hs ''authorization'') to_str) (strip_prefix ''Bearer '') of None \<Rightarrow> [] | Some s \<Rightarrow> s)"

lemma admitted_iff:
  "admitted env hs = Inr u \<longleftrightarrow> ad_auth env = Some (ad_hash env (utf8 (presented (ad_to_str env) hs)))"
  by (auto simp: authorize_admin_def presented_def Let_def split: if_splits)

section \<open>The normalized list\<close>

lemma normalize_into_spec:
  assumes "normalize_into validate_login maximum chs acc = Inr out" and "sorted acc" and "distinct acc"
    and "length acc \<le> maximum"
  shows "sorted out \<and> distinct out \<and> set out = set acc \<union> to_ascii_lowercase ` set chs \<and> length out \<le> maximum \<and>
    (\<forall>ch \<in> to_ascii_lowercase ` set chs. validate_login ch = Inr ())"
  using assms
proof (induction chs arbitrary: acc)
  case Nil
  then show ?case by simp
next
  case (Cons ch chs)
  let ?acc = "insort_insert (to_ascii_lowercase ch) acc"
  have v: "validate_login (to_ascii_lowercase ch) = Inr ()" "length ?acc \<le> maximum"
    "normalize_into validate_login maximum chs ?acc = Inr out"
    using Cons.prems(1) by (auto simp: Let_def split: if_splits)
  show ?case
    using Cons.IH [OF v(3)] Cons.prems(2,3) v(1,2)
    by (auto simp: set_insort_insert sorted_insort_insert distinct_insort_insert)
qed

lemma normalize_into_fails:
  assumes "normalize_into validate_login maximum chs acc = Inl e" and "sorted acc" and "distinct acc"
  shows "(\<exists>ch \<in> set chs. \<exists>x. validate_login (to_ascii_lowercase ch) = Inl x \<and> e = InvalidChannelLogin x) \<or>
    e = AlwaysJoinLimit maximum \<and> maximum < card (set acc \<union> to_ascii_lowercase ` set chs)"
  using assms
proof (induction chs arbitrary: acc)
  case Nil
  then show ?case by simp
next
  case (Cons ch chs)
  let ?ch = "to_ascii_lowercase ch"
  let ?acc = "insort_insert ?ch acc"
  show ?case
  proof (cases "validate_login ?ch")
    case (Inl x)
    then show ?thesis using Cons.prems(1) by (auto simp: Let_def)
  next
    case (Inr u)
    have d: "distinct ?acc" "sorted ?acc" "set ?acc = insert ?ch (set acc)"
      using Cons.prems(2,3) by (simp_all add: set_insort_insert sorted_insort_insert distinct_insort_insert)
    have card: "card (insert ?ch (set acc)) = length ?acc" using distinct_card [OF d(1)] d(3) by simp
    show ?thesis
    proof (cases "length ?acc > maximum")
      case True
      have "insert ?ch (set acc) \<subseteq> set acc \<union> to_ascii_lowercase ` set (ch # chs)" by auto
      from card_mono [OF _ this] card True have "maximum < card (set acc \<union> to_ascii_lowercase ` set (ch # chs))" by simp
      then show ?thesis using True Cons.prems(1) Inr by (simp add: Let_def)
    next
      case False
      then have "normalize_into validate_login maximum chs ?acc = Inl e" using Cons.prems(1) Inr by (simp add: Let_def)
      from Cons.IH [OF this d(2,1)] show ?thesis by (auto simp: d(3))
    qed
  qed
qed

section \<open>The channels of the control store\<close>

text \<open>A channel has one row.\<close>

definition one_row :: "control_db \<Rightarrow> bool" where
  "one_row db \<longleftrightarrow> distinct (map fst (channel_tab db))"

definition pinned :: "control_db \<Rightarrow> string \<Rightarrow> bool" where
  "pinned db ch \<longleftrightarrow> (case map_of (channel_tab db) ch of None \<Rightarrow> False | Some e \<Rightarrow> ce_always_join e)"

lemma one_row_same: "channel_tab db' = channel_tab db \<Longrightarrow> one_row db' = one_row db"
  by (simp add: one_row_def)

lemma one_row_upsert: "one_row db \<Longrightarrow> channel_tab db' = upsert ch f new (channel_tab db) \<Longrightarrow> one_row db'"
  by (simp add: one_row_def distinct_upsert)

lemma one_row_filter: "one_row db \<Longrightarrow> channel_tab db' = filter P (channel_tab db) \<Longrightarrow> one_row db'"
  by (simp add: one_row_def distinct_map_filter)

lemma one_row_map: "one_row db \<Longrightarrow> (\<And>x. fst (f x) = fst x) \<Longrightarrow> one_row (db\<lparr>channel_tab := map f (channel_tab db)\<rparr>)"
  by (simp add: one_row_def comp_def)

lemma fold_pins:
  assumes "one_row db"
  shows "one_row (fold always_join_channel chs db) \<and>
    (\<forall>k. pinned (fold always_join_channel chs db) k \<longleftrightarrow> pinned db k \<or> k \<in> set chs)"
  using assms
proof (induction chs arbitrary: db)
  case Nil
  then show ?case by simp
next
  case (Cons ch chs)
  have "one_row (always_join_channel ch db)"
    by (rule one_row_upsert [OF Cons.prems]) (simp add: always_join_channel_def)
  moreover have "pinned (always_join_channel ch db) k \<longleftrightarrow> pinned db k \<or> k = ch" for k
    by (auto simp: pinned_def always_join_channel_def map_of_upsert split: option.splits)
  ultimately show ?case using Cons.IH [of "always_join_channel ch db"] by auto
qed

lemma bootstrap_mark [simp]:
  "channel_tab (mark_bootstrap_applied db) = channel_tab db"
  "one_row (mark_bootstrap_applied db) = one_row db"
  "pinned (mark_bootstrap_applied db) = pinned db"
  by (simp_all add: mark_bootstrap_applied_def one_row_def pinned_def fun_eq_iff)

lemma replaced_pins:
  assumes "one_row db"
  shows "one_row (local_replace_always_join chs db) \<and>
    (\<forall>k. pinned (local_replace_always_join chs db) k \<longleftrightarrow> k \<in> to_ascii_lowercase ` set chs)"
proof -
  let ?db = "db\<lparr>channel_tab := map (\<lambda>(k, e). (k, e\<lparr>ce_always_join := False\<rparr>)) (channel_tab db)\<rparr>"
  have one: "one_row ?db" by (rule one_row_map [OF assms]) auto
  have "map_of (channel_tab ?db) k = map_option (\<lambda>e. e\<lparr>ce_always_join := False\<rparr>) (map_of (channel_tab db) k)" for k
    by (simp add: map_of_map)
  then have none: "\<not> pinned ?db k" for k by (simp add: pinned_def split: option.splits)
  note f = fold_pins [OF one, of "remdups (map to_ascii_lowercase chs)"]
  show ?thesis using f none by (simp add: local_replace_always_join_def)
qed

lemma control_step_one_row:
  assumes "one_row db"
  shows "one_row (control_step operation db)"
proof (cases operation)
  case (BootstrapAlwaysJoin chs)
  then show ?thesis using assms fold_pins [OF assms]
    by (simp add: control_step_def local_bootstrap_always_join_def)
next
  case (SetAlwaysJoin ch b n)
  have on: "one_row (always_join_channel k db)" for k using fold_pins [OF assms, of "[k]"] by simp
  have off: "one_row (db\<lparr>channel_tab := map (\<lambda>(k, e). if k = c then (k, e\<lparr>ce_always_join := False\<rparr>) else (k, e)) (channel_tab db)\<rparr>)"
    for c by (rule one_row_map [OF assms]) auto
  show ?thesis using SetAlwaysJoin assms on off by (simp add: control_step_def local_set_always_join_def Let_def)
next
  case (ReplaceAlwaysJoin chs)
  then show ?thesis using replaced_pins [OF assms] by (simp add: control_step_def)
qed (use assms in \<open>auto simp: one_row_def distinct_upsert distinct_map_filter control_step_def apply_cluster_policy_def
      touch_or_add_channel_def local_set_channel_ignored_def prune_inactive_channels_def
      invalidate_channel_coverage_def delete_coverage_of_def
      discard_live_coverage_def discard_all_live_coverage_def prune_coverage_ended_before_def
      record_repair_checkpoint_def begin_join_attempt_if_due_def mark_join_confirmed_def
      mark_join_unavailable_def fail_stale_join_attempts_def begin_live_coverage_def end_live_coverage_def
      close_all_live_coverage_def record_coverage_interval_def local_append_authorization_def
      local_update_authorization_def local_delete_authorization_def Let_def split: option.splits sum.splits\<close>)

lemma one_row_empty: "one_row empty_control_db"
  by (simp add: one_row_def empty_control_db_def)

lemma local_pins:
  assumes "one_row db"
  shows "sorted (local_always_join_channels db) \<and> distinct (local_always_join_channels db) \<and>
    set (local_always_join_channels db) = {k. pinned db k}"
proof -
  have d: "distinct (map fst (filter (\<lambda>(ch, e). ce_always_join e) (channel_tab db)))"
    using assms by (simp add: one_row_def distinct_map_filter)
  have m: "(k, e) \<in> set (channel_tab db) \<longleftrightarrow> map_of (channel_tab db) k = Some e" for k e
    using assms by (simp add: one_row_def)
  have "pinned db k \<longleftrightarrow> (\<exists>e. map_of (channel_tab db) k = Some e \<and> ce_always_join e)" for k
    by (simp add: pinned_def split: option.splits)
  then have "set (map fst (filter (\<lambda>(ch, e). ce_always_join e) (channel_tab db))) = {k. pinned db k}"
    unfolding set_map set_filter by (auto simp: m image_def)
  then show ?thesis using d by (simp add: local_always_join_channels_def distinct_map_sort)
qed

lemma policy_one_row: "policy_reachable cd cfg N app \<Longrightarrow> one_row (pa_control app)"
proof (induction rule: policy_reachable.induct)
  case (policy_applies app ch policy)
  have load: "pa_control (load_applied ch app) = pa_control app" by (rule load_applied_same)
  have stage: "one_row (pa_control a) \<Longrightarrow> one_row (pa_control (snd (purge_stage ch t a)))" for a t
    by (auto simp: purge_stage_def invalidate_channel_coverage_def delete_coverage_of_def one_row_def split: prod.splits sum.splits)
  have applied: "one_row d \<Longrightarrow> one_row (apply_cluster_policy ch policy d)" for d
    using control_step_one_row [of d "ApplyClusterPolicy ch policy"] by (simp add: control_step_def)
  show ?case
    using policy_applies(3) load stage [of "load_applied ch app\<lparr>pa_db := _\<rparr>"]
    by (auto simp: apply_policy_def Let_def split: prod.splits sum.splits intro!: applied)
      (metis snd_conv policy_app.select_convs(5) policy_app.surjective policy_app.update_convs(3))+
qed (simp_all add: one_row_empty control_step_one_row)

lemma insert_always_join_distinct:
  "distinct chs \<Longrightarrow> set chs \<inter> set (always_join_channels db) = {} \<Longrightarrow>
     insert_always_join chs db = Inr (db\<lparr>always_join_channels := always_join_channels db @ chs\<rparr>)"
  by (induction chs arbitrary: db) auto

lemma sync_always_join_distinct:
  "distinct chs \<Longrightarrow> sync_always_join_channels chs db = (Inr (), db\<lparr>always_join_channels := chs\<rparr>)"
  by (simp add: sync_always_join_channels_def transaction_def insert_always_join_distinct)

section \<open>Properties\<close>


text \<open>
  C31: Only the administrator changes the list: with the token of a configuration that was accepted, a
  request after which anything differs presented a text with the hash of the token in the file, less the
  white space around it, which has at least 32 bytes.
\<close>
theorem admin_only:
  assumes "from_config (ad_hash env) read_file c = Inr (ad_auth env)"
    and "app' \<in> {snd (replace_always_join env now hs request_body app), snd (add_always_join env now hs ch app),
      snd (remove_always_join env now hs ch app)}" and "app' \<noteq> app"
  shows "\<exists>path contents. token_file c = Some path \<and> read_file path = Inr contents \<and> 32 \<le> length (trim contents) \<and>
    ad_hash env (utf8 (presented (ad_to_str env) hs)) = ad_hash env (utf8 (trim contents))"
proof -
  have "admitted env hs = Inr ()"
    using assms(2,3)
    by (cases "admitted env hs") (auto simp: replace_always_join_def add_always_join_def remove_always_join_def)
  then have "ad_auth env = Some (ad_hash env (utf8 (presented (ad_to_str env) hs)))" by (simp add: admitted_iff)
  then show ?thesis
    using assms(1) by (auto simp: from_config_def from_token_def split: if_splits option.splits)
qed

definition ad_file :: string where
  "ad_file = [char_of (9 :: nat)] @ replicate 32 (CHR ''k'') @ [char_of (10 :: nat)]"

definition ad_env :: admin_env where
  "ad_env = \<lparr>ad_hash = rev, ad_to_str = (\<lambda>v. Some (map (\<lambda>b. char_of (unat b)) v)), ad_validate = (\<lambda>_. Inr ()),
     ad_auth = Some (rev (utf8 (replicate 32 (CHR ''k'')))), ad_maximum = 2\<rparr>"

definition ad_headers :: headers where
  "ad_headers = (\<lambda>_. None)(''authorization'' \<mapsto> utf8 (''Bearer '' @ replicate 32 (CHR ''k'')))"


theorem admin_only_witness:
  "32 \<le> length (trim ad_file) \<and> trim ad_file = presented (ad_to_str ad_env) ad_headers \<and>
   snd (add_always_join ad_env 1 ad_headers ''x'' (ua_app 1)) \<noteq> ua_app 1"
proof -
  let ?c = "\<lparr>token_file = Some ''f'', max_always_join_channels = 2\<rparr>"
  have c: "from_config (ad_hash ad_env) (\<lambda>_. Inr ad_file) ?c = Inr (ad_auth ad_env)" by code_simp
  let ?app = "snd (add_always_join ad_env 1 ad_headers ''x'' (ua_app 1))"
  have "pa_reconciles ?app = 1" "pa_reconciles (ua_app 1) = 0" by code_simp+
  then have d: "?app \<noteq> ua_app 1" by auto
  have m: "?app \<in> {snd (replace_always_join ad_env 1 ad_headers None (ua_app 1)), ?app,
      snd (remove_always_join ad_env 1 ad_headers ''x'' (ua_app 1))}" by simp
  from admin_only [OF c m d] have "32 \<le> length (trim ad_file)" by auto
  moreover have "trim ad_file = presented (ad_to_str ad_env) ad_headers" by code_simp
  ultimately show ?thesis using d by blast
qed

end
