(* ===== verification/ViewerBadges.thy ===== *)
theory ViewerBadges
  imports Sessions
begin

text \<open>
  The badge images for the viewer page, \<^verbatim>\<open>src/web/viewer_badges.rs\<close>: the application's token and the
  badges of Twitch and of a channel, each kept for a while. What a request reads, the clock and the answers of
  Twitch, is its reading; instants are milliseconds, and whether one can be represented is a parameter. A
  hash map iterates in an order that the reading gives.
\<close>

record badge =
  bd_url :: string
  bd_title :: string

record helix_badge_version =
  hv_id :: string
  hv_image_url_2x :: string
  hv_title :: string

record helix_badge_set =
  hs_set_id :: string
  hs_versions :: "helix_badge_version list"

type_synonym helix_badges = "helix_badge_set list"

record app_token_response =
  at_access_token :: string
  at_expires_in :: nat

record cached_token =
  ct_value :: string
  ct_valid_until :: int

record cached_badges =
  cb_value :: helix_badges
  cb_fetched_at :: int

record badge_state =
  bs_token :: "cached_token option"
  bs_global :: "cached_badges option"
  bs_channels :: "(string \<times> cached_badges) list"

definition badge_cache_ttl :: int where
  "badge_cache_ttl = 60 * 60 * 1000"

definition max_channel_cache_entries :: nat where
  "max_channel_cache_entries = 128"

text \<open>The answers are functions of the token they are asked with.\<close>

record badge_reading =
  br_now :: int
  br_token_now :: int
  br_token :: "app_token_response http_answer"
  br_global :: "string \<Rightarrow> helix_badges http_answer"
  br_channel :: "string \<Rightarrow> helix_badges http_answer"
  br_order :: "(string \<times> cached_badges) list \<Rightarrow> (string \<times> cached_badges) list"

text \<open>An error is one of the code's texts; adding to an instant may panic.\<close>

datatype badge_failure = BadgeError string | BadgePanic

definition badge_json :: "string \<Rightarrow> string \<Rightarrow> string \<Rightarrow> 'a http_answer \<Rightarrow> badge_failure + 'a" where
  "badge_json transport bad_status bad_body answer =
     (case answer of
        NoAnswer e \<Rightarrow> Inl (BadgeError transport)
      | Answered status text json \<Rightarrow>
          if 400 \<le> status \<and> status < 600 then Inl (BadgeError bad_status) else map_err (\<lambda>_. BadgeError bad_body) json)"

definition fresh_token ::
    "(int \<Rightarrow> bool) \<Rightarrow> badge_reading \<Rightarrow> badge_state \<Rightarrow> (badge_failure + string) \<times> badge_state" where
  "fresh_token in_instant rd st =
     (case badge_json ''token transport'' ''token status'' ''token decode'' (br_token rd) of
        Inl e \<Rightarrow> (Inl e, st)
      | Inr t \<Rightarrow>
          (let valid_until = br_token_now rd + int (u64_saturating_sub (at_expires_in t) 30) * 1000
           in if in_instant valid_until
              then (Inr (at_access_token t), st\<lparr>bs_token := Some \<lparr>ct_value = at_access_token t, ct_valid_until = valid_until\<rparr>\<rparr>)
              else (Inl BadgePanic, st)))"

definition app_token ::
    "(int \<Rightarrow> bool) \<Rightarrow> badge_reading \<Rightarrow> badge_state \<Rightarrow> (badge_failure + string) \<times> badge_state" where
  "app_token in_instant rd st =
     (case bs_token st of
        None \<Rightarrow> fresh_token in_instant rd st
      | Some t \<Rightarrow> if ct_valid_until t > br_token_now rd + 60 * 1000 then (Inr (ct_value t), st)
                  else fresh_token in_instant rd st)"

definition fetch_badges :: "helix_badges http_answer \<Rightarrow> badge_failure + helix_badges" where
  "fetch_badges = badge_json ''badge transport'' ''badge status'' ''badge decode''"

text \<open>\<open>duration_since\<close> is zero for an instant that is yet to come.\<close>

definition still_cached :: "int \<Rightarrow> cached_badges option \<Rightarrow> helix_badges option" where
  "still_cached now entry =
     (case entry of None \<Rightarrow> None
      | Some c \<Rightarrow> if max 0 (now - cb_fetched_at c) < badge_cache_ttl then Some (cb_value c) else None)"

definition cached_or_fetched :: "helix_badges option \<Rightarrow> helix_badges http_answer \<Rightarrow> badge_failure + helix_badges" where
  "cached_or_fetched cached answer = (case cached of Some v \<Rightarrow> Inr v | None \<Rightarrow> fetch_badges answer)"

fun min_by_fetched :: "(string \<times> cached_badges) list \<Rightarrow> (string \<times> cached_badges) option" where
  "min_by_fetched [] = None"
| "min_by_fetched (x # xs) =
     (case min_by_fetched xs of
        None \<Rightarrow> Some x | Some y \<Rightarrow> if cb_fetched_at (snd y) < cb_fetched_at (snd x) then Some y else Some x)"

definition make_room ::
    "((string \<times> cached_badges) list \<Rightarrow> (string \<times> cached_badges) list) \<Rightarrow> string \<Rightarrow>
     (string \<times> cached_badges) list \<Rightarrow> (string \<times> cached_badges) list" where
  "make_room order channel_id entries =
     (if length entries \<ge> max_channel_cache_entries \<and> map_of entries channel_id = None
      then case min_by_fetched (order entries) of
             None \<Rightarrow> entries
           | Some (oldest, c) \<Rightarrow> filter (\<lambda>(k, v). k \<noteq> oldest) entries
      else entries)"

definition store_badges ::
    "badge_reading \<Rightarrow> string \<Rightarrow> helix_badges \<Rightarrow> helix_badges \<Rightarrow> badge_state \<Rightarrow> badge_state" where
  "store_badges rd channel_id global channel st =
     st\<lparr>bs_global := Some \<lparr>cb_value = global, cb_fetched_at = br_now rd\<rparr>,
        bs_channels := AList.update channel_id \<lparr>cb_value = channel, cb_fetched_at = br_now rd\<rparr>
          (make_room (br_order rd) channel_id (bs_channels st))\<rparr>"

definition badge_entries :: "helix_badges \<Rightarrow> (string \<times> badge) list" where
  "badge_entries sets = concat (map (\<lambda>s. map (\<lambda>v.
     (hs_set_id s @ ''/'' @ hv_id v, \<lparr>bd_url = hv_image_url_2x v, bd_title = hv_title v\<rparr>)) (hs_versions s)) sets)"

definition badge_map :: "helix_badges \<Rightarrow> helix_badges \<Rightarrow> string \<Rightarrow> badge option" where
  "badge_map global channel =
     fold (\<lambda>(k, b) badges. badges(k \<mapsto> b)) (badge_entries (global @ channel)) (\<lambda>_. None)"

definition load_badges ::
    "(int \<Rightarrow> bool) \<Rightarrow> badge_reading \<Rightarrow> string \<Rightarrow> badge_state \<Rightarrow> (badge_failure + (string \<Rightarrow> badge option)) \<times> badge_state" where
  "load_badges in_instant rd channel_id st =
     (let cached_global = still_cached (br_now rd) (bs_global st);
          cached_channel = still_cached (br_now rd) (map_of (bs_channels st) channel_id)
      in case app_token in_instant rd st of
           (Inl e, st') \<Rightarrow> (Inl e, st')
         | (Inr token, st') \<Rightarrow>
             (case and_then (cached_or_fetched cached_global (br_global rd token)) (\<lambda>global.
                   and_then (cached_or_fetched cached_channel (br_channel rd token)) (\<lambda>channel. Inr (global, channel))) of
                Inl e \<Rightarrow> (Inl e, st')
              | Inr (global, channel) \<Rightarrow> (Inr (badge_map global channel), store_badges rd channel_id global channel st')))"

datatype badge_answer = BadgeStatus nat | BadgeMap "string \<Rightarrow> badge option" | BadgeCrash

definition get_badges ::
    "(int \<Rightarrow> bool) \<Rightarrow> badge_reading \<Rightarrow> string \<Rightarrow> badge_state \<Rightarrow> badge_answer \<times> badge_state" where
  "get_badges in_instant rd channel_id st =
     (if channel_id = [] \<or> length channel_id > 20 \<or>
         \<not> list_all (\<lambda>c. 48 \<le> (of_char c :: nat) \<and> (of_char c :: nat) \<le> 57) channel_id
      then (BadgeStatus 400, st)
      else case load_badges in_instant rd channel_id st of
             (Inl BadgePanic, st') \<Rightarrow> (BadgeCrash, st')
           | (Inl (BadgeError e), st') \<Rightarrow> (BadgeStatus 502, st')
           | (Inr response, st') \<Rightarrow> (BadgeMap response, st'))"

section \<open>The badges of a response\<close>

lemma fold_update_last:
  "fold (\<lambda>(k, b) badges. badges(k \<mapsto> b)) xs m k = (case map_of (rev xs) k of None \<Rightarrow> m k | Some b \<Rightarrow> Some b)"
  by (induction xs arbitrary: m) (auto simp: map_add_def split: option.splits prod.splits)

lemma badge_map_last: "badge_map global channel k = map_of (rev (badge_entries (global @ channel))) k"
  by (simp add: badge_map_def fold_update_last split: option.splits)

lemma badge_entries_append: "badge_entries (a @ b) = badge_entries a @ badge_entries b"
  by (simp add: badge_entries_def)

lemma badge_map_channel_first:
  "badge_map global channel k =
     (case map_of (rev (badge_entries channel)) k of Some b \<Rightarrow> Some b | None \<Rightarrow> map_of (rev (badge_entries global)) k)"
  by (simp add: badge_map_last badge_entries_append map_add_def)

section \<open>The caches\<close>

lemma min_by_fetched_member: "min_by_fetched xs = Some x \<Longrightarrow> x \<in> set xs"
  by (induction xs arbitrary: x) (auto split: option.splits if_splits)

lemma min_by_fetched_None: "min_by_fetched xs = None \<longleftrightarrow> xs = []"
  by (cases xs) (auto split: option.splits)

lemma make_room_spec:
  assumes "distinct (map fst entries)" and "\<And>xs. set (order xs) = set xs" and "length entries \<le> max_channel_cache_entries"
  shows "distinct (map fst (make_room order k entries))"
    and "length (AList.update k c (make_room order k entries)) \<le> max_channel_cache_entries"
    and "map_of entries k = Some v \<Longrightarrow> make_room order k entries = entries"
proof -
  show "distinct (map fst (make_room order k entries))"
    using assms(1) by (auto simp: make_room_def distinct_map_filter split: option.splits prod.splits)
  show "map_of entries k = Some v \<Longrightarrow> make_room order k entries = entries" by (simp add: make_room_def)
  have len: "length (AList.update k c xs) = (if map_of xs k = None then Suc (length xs) else length xs)"
    for xs :: "(string \<times> cached_badges) list"
    by (induction xs) auto
  show "length (AList.update k c (make_room order k entries)) \<le> max_channel_cache_entries"
  proof (cases "length entries \<ge> max_channel_cache_entries \<and> map_of entries k = None")
    case False
    then show ?thesis using assms(3) by (auto simp: make_room_def len)
  next
    case True
    then have full: "length entries = max_channel_cache_entries" using assms(3) by simp
    then have "entries \<noteq> []" by (auto simp: max_channel_cache_entries_def)
    then have "order entries \<noteq> []" using assms(2) [of entries] by auto
    then obtain old c' where m: "min_by_fetched (order entries) = Some (old, c')"
      using min_by_fetched_None by (metis not_None_eq surj_pair)
    then have "(old, c') \<in> set entries" using min_by_fetched_member assms(2) by blast
    then have "length (filter (\<lambda>(k, v). k \<noteq> old) entries) < length entries"
      by (induction entries) (auto simp: less_Suc_eq_le intro: le_SucI)
    then show ?thesis using True m full
      by (auto simp: make_room_def len map_of_eq_None_iff)
  qed
qed

text \<open>
  Requests interleave only between reading and writing a cache, each under its lock: what is written may
  have been computed from an older state.
\<close>

inductive badge_reachable :: "badge_state \<Rightarrow> bool" where
  badge_start: "badge_reachable \<lparr>bs_token = None, bs_global = None, bs_channels = []\<rparr>"
| badge_token: "badge_reachable st \<Longrightarrow> badge_reachable (st\<lparr>bs_token := t\<rparr>)"
| badge_store: "badge_reachable st \<Longrightarrow> (\<And>xs. set (br_order rd xs) = set xs) \<Longrightarrow>
    badge_reachable (store_badges rd channel_id global channel st)"

lemma badge_reachable_bounded:
  "badge_reachable st \<Longrightarrow> distinct (map fst (bs_channels st)) \<and> length (bs_channels st) \<le> max_channel_cache_entries"
proof (induction rule: badge_reachable.induct)
  case badge_start
  then show ?case by simp
next
  case (badge_token st t)
  then show ?case by simp
next
  case (badge_store st rd channel_id global channel)
  then show ?case
    using make_room_spec(1,2) [of "bs_channels st" "br_order rd"] by (simp add: store_badges_def distinct_update)
qed

lemma app_token_same:
  "app_token in_instant rd st = (res, st') \<Longrightarrow> \<exists>t. st' = st\<lparr>bs_token := t\<rparr>"
  by (auto simp: app_token_def fresh_token_def Let_def split: option.splits if_splits sum.splits
      intro: exI [of _ "bs_token st"])

lemma fetch_badges_ok: "fetch_badges answer = Inr v \<Longrightarrow>
    \<exists>status text. answer = Answered status text (Inr v) \<and> \<not> (400 \<le> status \<and> status < 600)"
  by (auto simp: fetch_badges_def badge_json_def split: http_answer.splits if_splits)

lemma load_badges_ok:
  assumes "load_badges in_instant rd channel_id st = (Inr response, st')"
  shows "\<exists>token t global channel. app_token in_instant rd st = (Inr token, st\<lparr>bs_token := t\<rparr>) \<and>
    cached_or_fetched (still_cached (br_now rd) (bs_global st)) (br_global rd token) = Inr global \<and>
    cached_or_fetched (still_cached (br_now rd) (map_of (bs_channels st) channel_id)) (br_channel rd token) = Inr channel \<and>
    response = badge_map global channel \<and> st' = store_badges rd channel_id global channel (st\<lparr>bs_token := t\<rparr>)"
proof -
  obtain r s where a: "app_token in_instant rd st = (r, s)" by fastforce
  then show ?thesis
    using assms app_token_same [OF a] by (cases r) (auto simp: load_badges_def Let_def split: sum.splits)
qed

section \<open>Properties\<close>

text \<open>The badges kept, when they are not too old, and otherwise those that Twitch answered to this request.\<close>

definition kept_or_answered :: "int \<Rightarrow> cached_badges option \<Rightarrow> helix_badges http_answer \<Rightarrow> helix_badges \<Rightarrow> bool" where
  "kept_or_answered now entry answer v \<longleftrightarrow>
     (case still_cached now entry of
        Some u \<Rightarrow> v = u
      | None \<Rightarrow> \<exists>status text. answer = Answered status text (Inr v) \<and> \<not> (400 \<le> status \<and> status < 600))"

lemma cached_or_fetched_ok:
  "cached_or_fetched (still_cached now entry) answer = Inr v \<Longrightarrow> kept_or_answered now entry answer v"
  by (auto simp: cached_or_fetched_def kept_or_answered_def dest: fetch_badges_ok split: option.splits)

text \<open>
  A response holds the badges of the channel and, where it has none of that name, those of Twitch, of
  several of one name the last; both are the ones kept or, when those are older than an hour, what Twitch
  answered to the request. Both are kept then, and never those of more than 128 channels.
\<close>
theorem badges_exact:
  assumes "badge_reachable st" and "\<And>xs. set (br_order rd xs) = set xs"
    and "load_badges in_instant rd channel_id st = (Inr response, st')"
  shows "badge_reachable st' \<and> length (bs_channels st') \<le> 128 \<and>
    (\<exists>token global channel.
       kept_or_answered (br_now rd) (bs_global st) (br_global rd token) global \<and>
       kept_or_answered (br_now rd) (map_of (bs_channels st) channel_id) (br_channel rd token) channel \<and>
       (\<forall>k. response k = (case map_of (rev (badge_entries channel)) k of
          Some b \<Rightarrow> Some b | None \<Rightarrow> map_of (rev (badge_entries global)) k)) \<and>
       bs_global st' = Some \<lparr>cb_value = global, cb_fetched_at = br_now rd\<rparr> \<and>
       map_of (bs_channels st') channel_id = Some \<lparr>cb_value = channel, cb_fetched_at = br_now rd\<rparr>)"
proof -
  obtain token t global channel where l: "app_token in_instant rd st = (Inr token, st\<lparr>bs_token := t\<rparr>)"
    "cached_or_fetched (still_cached (br_now rd) (bs_global st)) (br_global rd token) = Inr global"
    "cached_or_fetched (still_cached (br_now rd) (map_of (bs_channels st) channel_id)) (br_channel rd token) = Inr channel"
    "response = badge_map global channel" "st' = store_badges rd channel_id global channel (st\<lparr>bs_token := t\<rparr>)"
    using load_badges_ok [OF assms(3)] by blast
  have "badge_reachable st'" unfolding l(5) by (rule badge_store [OF badge_token [OF assms(1)] assms(2)])
  moreover from this have "length (bs_channels st') \<le> 128"
    using badge_reachable_bounded by (fastforce simp: max_channel_cache_entries_def)
  moreover have "bs_global st' = Some \<lparr>cb_value = global, cb_fetched_at = br_now rd\<rparr>"
    "map_of (bs_channels st') channel_id = Some \<lparr>cb_value = channel, cb_fetched_at = br_now rd\<rparr>"
    by (simp_all add: l(5) store_badges_def update_conv')
  ultimately show ?thesis
    using cached_or_fetched_ok [OF l(2)] cached_or_fetched_ok [OF l(3)] badge_map_channel_first l(4) by blast
qed

fun badge_run ::
    "(int \<Rightarrow> bool) \<Rightarrow> (badge_reading \<times> string) list \<Rightarrow> badge_state \<Rightarrow>
     (badge_failure + (string \<Rightarrow> badge option)) list \<times> badge_state" where
  "badge_run in_instant [] st = ([], st)"
| "badge_run in_instant ((rd, channel_id) # rest) st =
     (let one = load_badges in_instant rd channel_id st; more = badge_run in_instant rest (snd one)
      in (fst one # fst more, snd more))"


definition vb_sets :: "string \<Rightarrow> helix_badges" where
  "vb_sets url = [\<lparr>hs_set_id = ''sub'', hs_versions = [\<lparr>hv_id = ''1'', hv_image_url_2x = url, hv_title = []\<rparr>]\<rparr>]"

definition vb_reading :: "int \<Rightarrow> string \<Rightarrow> badge_reading" where
  "vb_reading now url =
     \<lparr>br_now = now, br_token_now = now, br_token = Answered 200 [] (Inr \<lparr>at_access_token = ''t'', at_expires_in = 100\<rparr>),
      br_global = (\<lambda>_. Answered 200 [] (Inr (vb_sets url))), br_channel = (\<lambda>_. Answered 200 [] (Inr [])), br_order = id\<rparr>"

definition vb_empty :: badge_state where
  "vb_empty = \<lparr>bs_token = None, bs_global = None, bs_channels = []\<rparr>"

theorem badges_exact_witness:
  "\<exists>response st'. load_badges (\<lambda>_. True) (vb_reading 0 ''old'') ''1'' vb_empty = (Inr response, st') \<and>
    length (bs_channels st') \<le> 128 \<and> response ''sub/1'' = Some \<lparr>bd_url = ''old'', bd_title = []\<rparr>"
proof -
  let ?l = "load_badges (\<lambda>_. True) (vb_reading 0 ''old'') ''1'' vb_empty"
  have "\<not> isl (fst ?l)" "projr (fst ?l) ''sub/1'' = Some \<lparr>bd_url = ''old'', bd_title = []\<rparr>" by code_simp+
  then obtain response st' where l: "?l = (Inr response, st')" "response ''sub/1'' = Some \<lparr>bd_url = ''old'', bd_title = []\<rparr>"
    by (cases ?l; cases "fst ?l") auto
  have "badge_reachable vb_empty" unfolding vb_empty_def by (rule badge_start)
  from badges_exact [OF this _ l(1)] have "length (bs_channels st') \<le> 128" by (simp add: vb_reading_def)
  then show ?thesis using l by blast
qed


end
