(* ===== verification/SegmentStore.thy ===== *)
theory SegmentStore
  imports MemoryStore
begin

text \<open>
  The log-structured implementation of \<open>MessageStore\<close>, \<^verbatim>\<open>src/storage/segment.rs\<close>: the payloads of the
  blocks are appended to one file, and an SQLite index holds their metadata and offsets. The file is its
  bytes, the index two tables; a transaction that fails leaves the index as it was. Errors of the file
  system and of SQLite are texts. The sequence numbers and the counts of messages, sums of numbers below
  \<open>2^32\<close>, are taken to stay below \<open>2^63\<close>.
\<close>

record segment_row =
  sg_id :: nat
  sg_channel :: string
  sg_sequence :: int
  sg_version :: int
  sg_first :: int
  sg_last :: int
  sg_count :: int
  sg_uncompressed :: int
  sg_checksum :: bytes
  sg_offset :: int
  sg_payload_bytes :: int

text \<open>The channels with \<open>next_block_sequence\<close> and \<open>retained_messages\<close>.\<close>

record segment_index =
  si_channels :: "(string \<times> int \<times> int) list"
  si_rows :: "segment_row list"

record segment_store =
  sg_data :: bytes
  sg_index :: segment_index
  sg_block_messages :: nat
  sg_target :: nat
  sg_level :: int

definition conversion_error :: store_error where
  "conversion_error = Backend ''out of range integral type conversion attempted''"

definition up_to :: "nat \<Rightarrow> int \<Rightarrow> store_error + nat" where
  "up_to bound n = (if 0 \<le> n \<and> n \<le> int bound then Inr (nat n) else Inl conversion_error)"

section \<open>Reading\<close>

definition rows_in_order :: "string \<Rightarrow> segment_row list \<Rightarrow> segment_row list" where
  "rows_in_order ch rows = sort_key sg_sequence (filter (\<lambda>d. sg_channel d = ch) rows)"

definition descriptor_row :: "segment_row \<Rightarrow> store_error + segment_row" where
  "descriptor_row d = (if length (sg_checksum d) = 32 then Inr d else Inl (Backend ''Query is not read-only''))"

definition read_block :: "bytes \<Rightarrow> string \<Rightarrow> segment_row \<Rightarrow> store_error + encoded_block" where
  "read_block data ch d =
     and_then (up_to u64_max (sg_payload_bytes d)) (\<lambda>n.
     and_then (up_to u64_max (sg_offset d)) (\<lambda>offset.
     if n \<noteq> 0 \<and> length data < offset + n then Inl (Backend ''failed to fill whole buffer'')
     else and_then (up_to 65535 (sg_version d)) (\<lambda>version.
       and_then (up_to u32_max (sg_count d)) (\<lambda>count.
       and_then (up_to u32_max (sg_uncompressed d)) (\<lambda>uncompressed.
         Inr \<lparr>format_version = version, eb_channel_key = ch, first_event_at_ms = sg_first d,
              last_event_at_ms = sg_last d, message_count = count, uncompressed_bytes = uncompressed,
              checksum = sg_checksum d, payload = take n (drop offset data)\<rparr>)))))"

definition load_channel_blocks :: "bytes \<Rightarrow> string \<Rightarrow> segment_index \<Rightarrow> store_error + encoded_block list" where
  "load_channel_blocks data ch ix =
     and_then (collect_results descriptor_row (rows_in_order ch (si_rows ix))) (\<lambda>descriptors.
       collect_results (read_block data ch) descriptors)"

text \<open>A query reads and decodes one block after another.\<close>

definition seg_query :: "codec \<Rightarrow> segment_store \<Rightarrow> query_request \<Rightarrow> store_error + local_result" where
  "seg_query cd self request =
     (if limit request = 0 then Inl InvalidLimit
      else let ch = qr_channel_key request
      in and_then (collect_results descriptor_row (rows_in_order ch (si_rows (sg_index self)))) (\<lambda>descriptors.
         and_then (collect_results (\<lambda>d. and_then (read_block (sg_data self) ch d) (\<lambda>b. map_err Block (decode cd b))) descriptors)
           (\<lambda>rss. Inr (answer_query request (concat rss)))))"

text \<open>\<open>SUM\<close> of integers fails when it overflows.\<close>

definition sum_column :: "int list \<Rightarrow> store_error + nat" where
  "sum_column ns =
     (if i64_range (sum_list ns) then up_to u64_max (sum_list ns) else Inl (Backend ''integer overflow''))"

definition seg_stats :: "segment_store \<Rightarrow> store_error + store_stats" where
  "seg_stats self =
     (let rows = si_rows (sg_index self)
      in and_then (sum_column (map sg_count rows)) (\<lambda>messages.
         and_then (sum_column (map sg_payload_bytes rows)) (\<lambda>compressed.
         and_then (sum_column (map sg_uncompressed rows)) (\<lambda>uncompressed.
           Inr \<lparr>st_channels = length (si_channels (sg_index self)), st_blocks = length rows, st_messages = messages,
                st_compressed_bytes = compressed, st_uncompressed_bytes = uncompressed\<rparr>))))"

section \<open>Opening\<close>

text \<open>
  \<open>COALESCE(MAX(file_offset + payload_bytes), 0)\<close>; a sum beyond the integers of SQLite is a real number,
  which the code does not read.
\<close>

definition indexed_end :: "segment_row list \<Rightarrow> int" where
  "indexed_end rows = (case iter_max (map (\<lambda>d. sg_offset d + sg_payload_bytes d) rows) of None \<Rightarrow> 0 | Some n \<Rightarrow> n)"

definition empty_index :: segment_index where
  "empty_index = \<lparr>si_channels = [], si_rows = []\<rparr>"

text \<open>The file and the index as they are found, both empty when they are not there.\<close>

definition open_segments :: "bytes \<Rightarrow> segment_index \<Rightarrow> nat \<Rightarrow> nat \<Rightarrow> store_error + segment_store" where
  "open_segments data ix bm target =
     (if bm = 0 \<or> target = 0 then Inl (Backend ''block and retention sizes must be greater than zero'')
      else if indexed_end (si_rows ix) > i64_max then Inl (Backend ''Invalid column type Real at index: 0'')
      else and_then (up_to u64_max (indexed_end (si_rows ix))) (\<lambda>indexed.
        if length data < indexed then Inl (Backend ''segment file is shorter than its committed index'')
        else Inr \<lparr>sg_data = (if length data > indexed then take indexed data else data), sg_index = ix,
                  sg_block_messages = bm, sg_target = target, sg_level = 3\<rparr>))"

section \<open>Appending\<close>

definition next_segment_id :: "segment_row list \<Rightarrow> nat" where
  "next_segment_id rows = (case iter_max (map sg_id rows) of None \<Rightarrow> 1 | Some n \<Rightarrow> Suc n)"

text \<open>\<open>INSERT OR IGNORE INTO channels\<close>\<close>

definition ensure_channel :: "string \<Rightarrow> segment_index \<Rightarrow> segment_index" where
  "ensure_channel ch ix =
     (if map_of (si_channels ix) ch = None then ix\<lparr>si_channels := si_channels ix @ [(ch, 0, 0)]\<rparr> else ix)"

definition segment_row_of :: "nat \<Rightarrow> string \<Rightarrow> int \<Rightarrow> encoded_block \<Rightarrow> int \<Rightarrow> int \<Rightarrow> segment_row" where
  "segment_row_of i ch seq b offset n =
     \<lparr>sg_id = i, sg_channel = ch, sg_sequence = seq, sg_version = int (format_version b), sg_first = first_event_at_ms b,
      sg_last = last_event_at_ms b, sg_count = int (message_count b), sg_uncompressed = int (uncompressed_bytes b),
      sg_checksum = checksum b, sg_offset = offset, sg_payload_bytes = n\<rparr>"

text \<open>
  The chunks one by one: the file grows by the payload before the row is written; it cannot grow beyond the
  offsets of the operating system. On an error the file is what it had become.
\<close>

fun insert_segments ::
    "codec \<Rightarrow> int \<Rightarrow> string \<Rightarrow> canonical_record list list \<Rightarrow> int \<Rightarrow> int \<Rightarrow> segment_row list \<Rightarrow> bytes
      \<Rightarrow> (store_error + int \<times> int \<times> segment_row list) \<times> bytes" where
  "insert_segments cd level ch [] seq retained rows data = (Inr (seq, retained, rows), data)"
| "insert_segments cd level ch (chunk # rest) seq retained rows data =
     (case encode cd chunk level of
        Inl e \<Rightarrow> (Inl (Block e), data)
      | Inr b \<Rightarrow>
          if int (length data + length (payload b)) > i64_max then (Inl (Backend ''File too large''), data)
          else (case (i64_try_from (length data), i64_try_from (length (payload b))) of
             (Some offset, Some n) \<Rightarrow>
               if list_ex (\<lambda>d. sg_channel d = ch \<and> sg_sequence d = seq) rows
               then (Inl (Backend ''UNIQUE constraint failed: segment_blocks.channel_key, segment_blocks.block_sequence''),
                     data @ payload b)
               else insert_segments cd level ch rest (seq + 1) (retained + int (message_count b))
                 (rows @ [segment_row_of (next_segment_id rows) ch seq b offset n]) (data @ payload b)
           | _ \<Rightarrow> (Inl conversion_error, data @ payload b)))"

lemma rows_in_order_member: "rows_in_order ch rows = d # ds \<Longrightarrow> d \<in> set rows \<and> sg_channel d = ch"
proof -
  assume "rows_in_order ch rows = d # ds"
  then have "d \<in> set (rows_in_order ch rows)" by simp
  then show ?thesis by (simp add: rows_in_order_def)
qed

function evict_segments :: "string \<Rightarrow> int \<Rightarrow> int \<Rightarrow> segment_row list \<Rightarrow> int \<times> segment_row list" where
  "evict_segments ch allowed retained rows =
     (if retained > allowed
      then (case rows_in_order ch rows of
              [] \<Rightarrow> (retained, rows)
            | d # _ \<Rightarrow> evict_segments ch allowed (i64_saturating_sub retained (sg_count d))
                          (filter (\<lambda>d'. sg_id d' \<noteq> sg_id d) rows))
      else (retained, rows))"
  by pat_completeness auto
termination
  by (relation "measure (\<lambda>(ch, allowed, retained, rows). length rows)")
     (auto dest!: rows_in_order_member intro!: length_filter_less)

declare evict_segments.simps [simp del]

definition record_keys :: "canonical_record list list \<Rightarrow> event_key set" where
  "record_keys rss = event_key ` set (concat rss)"

definition seg_append_transaction ::
    "codec \<Rightarrow> segment_store \<Rightarrow> string \<Rightarrow> canonical_record list \<Rightarrow> segment_index \<Rightarrow> bytes
      \<Rightarrow> (store_error + segment_index) \<times> bytes" where
  "seg_append_transaction cd self ch records ix0 data =
     (let ix = ensure_channel ch ix0
      in case and_then (load_channel_blocks data ch ix) (collect_results (\<lambda>b. map_err Block (decode cd b))) of
           Inl e \<Rightarrow> (Inl e, data)
         | Inr rss \<Rightarrow>
             (let kept = fst (retain_new event_key (record_keys rss) (sort_key event_order records))
              in if kept = [] then (Inr ix, data)
                 else case map_of (si_channels ix) ch of
                   None \<Rightarrow> (Inl (Backend ''Query returned no rows''), data)
                 | Some (seq, retained) \<Rightarrow>
                     (case insert_segments cd (sg_level self) ch (chunks (sg_block_messages self) kept)
                        seq retained (si_rows ix) data of
                        (Inl e, data') \<Rightarrow> (Inl e, data')
                      | (Inr (seq', retained', rows), data') \<Rightarrow>
                          (let (left, rows') = evict_segments ch
                             (i64_try_from_or_max (allowed_messages (sg_target self) (sg_block_messages self))) retained' rows
                           in (Inr \<lparr>si_channels = AList.update ch (seq', left) (si_channels ix), si_rows = rows'\<rparr>,
                               data')))))"

fun append_each ::
    "codec \<Rightarrow> segment_store \<Rightarrow> canonical_record list list \<Rightarrow> segment_index \<Rightarrow> bytes
      \<Rightarrow> (store_error + segment_index) \<times> bytes" where
  "append_each cd self [] ix data = (Inr ix, data)"
| "append_each cd self ([] # batches) ix data = append_each cd self batches ix data"
| "append_each cd self ((r # rs) # batches) ix data =
     (case seg_append_transaction cd self (channel_key r) (r # rs) ix data of
        (Inl e, data') \<Rightarrow> (Inl e, data')
      | (Inr ix', data') \<Rightarrow> append_each cd self batches ix' data')"

text \<open>
  What the file system and the index do at the end: an error of syncing or committing, and one of taking
  back what a failed append wrote.
\<close>

record segment_io =
  io_commit :: "string option"
  io_truncate :: "string option"

definition seg_append_batches ::
    "codec \<Rightarrow> segment_io \<Rightarrow> canonical_record list list \<Rightarrow> segment_store \<Rightarrow> (store_error + unit) \<times> segment_store" where
  "seg_append_batches cd io batches self =
     (if list_ex mixed_batch batches then (Inl MixedChannelBatch, self)
      else case append_each cd self batches (sg_index self) (sg_data self) of
        (res, data) \<Rightarrow>
          (case (case res of Inl e \<Rightarrow> Inl e
                 | Inr ix \<Rightarrow> (case io_commit io of Some e \<Rightarrow> Inl (Backend e) | None \<Rightarrow> Inr ix)) of
             Inr ix \<Rightarrow> (Inr (), self\<lparr>sg_data := data, sg_index := ix\<rparr>)
           | Inl e \<Rightarrow>
               (case io_truncate io of
                  Some e' \<Rightarrow> (Inl (Backend e'), self\<lparr>sg_data := data\<rparr>)
                | None \<Rightarrow> (Inl e, self\<lparr>sg_data := take (length (sg_data self)) data\<rparr>))))"

definition seg_append_batch ::
    "codec \<Rightarrow> segment_io \<Rightarrow> segment_store \<Rightarrow> canonical_record list \<Rightarrow> (store_error + unit) \<times> segment_store" where
  "seg_append_batch cd io self records = seg_append_batches cd io [records] self"

section \<open>Invariant and abstraction\<close>

definition row_block :: "bytes \<Rightarrow> segment_row \<Rightarrow> encoded_block" where
  "row_block data d = projr (read_block data (sg_channel d) d)"

definition row_ok :: "codec \<Rightarrow> bytes \<Rightarrow> segment_row \<Rightarrow> bool" where
  "row_ok cd data d \<longleftrightarrow>
     read_block data (sg_channel d) d = Inr (row_block data d) \<and> good_block cd (sg_channel d) (row_block data d) \<and>
     length (sg_checksum d) = 32 \<and> 0 \<le> sg_offset d \<and> 0 \<le> sg_payload_bytes d \<and>
     sg_offset d + sg_payload_bytes d \<le> int (length data) \<and> sg_offset d + sg_payload_bytes d \<le> i64_max"

definition channel_rows :: "string \<Rightarrow> segment_row list \<Rightarrow> segment_row list" where
  "channel_rows ch = filter (\<lambda>d. sg_channel d = ch)"

definition row_blocks :: "bytes \<Rightarrow> string \<Rightarrow> segment_row list \<Rightarrow> encoded_block list" where
  "row_blocks data ch rows = map (row_block data) (channel_rows ch rows)"

definition rows_records :: "codec \<Rightarrow> bytes \<Rightarrow> string \<Rightarrow> segment_row list \<Rightarrow> canonical_record list" where
  "rows_records cd data ch rows = blocks_records cd (row_blocks data ch rows)"

text \<open>
  The rows have ids of their own and read a good block each; those of a channel are in the order of their
  sequence numbers, all below the next one, and the counter of the channel is the number of its records, at
  most \<open>A\<close>.
\<close>

definition rows_ok :: "codec \<Rightarrow> bytes \<Rightarrow> segment_row list \<Rightarrow> bool" where
  "rows_ok cd data rows \<longleftrightarrow> distinct (map sg_id rows) \<and> (\<forall>d \<in> set rows. row_ok cd data d)"

definition sequence_ok :: "string \<Rightarrow> int \<Rightarrow> segment_row list \<Rightarrow> bool" where
  "sequence_ok ch seq rows \<longleftrightarrow>
     sorted_wrt (<) (map sg_sequence (channel_rows ch rows)) \<and> (\<forall>d \<in> set (channel_rows ch rows). sg_sequence d < seq)"

definition counted_ok :: "codec \<Rightarrow> nat \<Rightarrow> bytes \<Rightarrow> string \<Rightarrow> int \<Rightarrow> segment_row list \<Rightarrow> bool" where
  "counted_ok cd A data ch retained rows \<longleftrightarrow>
     retained = int (length (rows_records cd data ch rows)) \<and> retained \<le> int A \<and>
     distinct (map event_key (rows_records cd data ch rows))"

definition index_ok :: "codec \<Rightarrow> nat \<Rightarrow> bytes \<Rightarrow> segment_index \<Rightarrow> bool" where
  "index_ok cd A data ix \<longleftrightarrow>
     distinct (map fst (si_channels ix)) \<and> rows_ok cd data (si_rows ix) \<and>
     (\<forall>d \<in> set (si_rows ix). sg_channel d \<in> fst ` set (si_channels ix)) \<and>
     (\<forall>ch seq retained. map_of (si_channels ix) ch = Some (seq, retained) \<longrightarrow>
        sequence_ok ch seq (si_rows ix) \<and> counted_ok cd A data ch retained (si_rows ix))"

definition seg_allowed :: "segment_store \<Rightarrow> nat" where
  "seg_allowed self = allowed_messages (sg_target self) (sg_block_messages self)"

text \<open>\<open>N\<close> bounds the batches that the counters have room for.\<close>

definition seg_inv :: "codec \<Rightarrow> nat \<Rightarrow> segment_store \<Rightarrow> bool" where
  "seg_inv cd N self \<longleftrightarrow> codec_ok cd \<and> 0 < sg_block_messages self \<and> 0 < sg_target self \<and> sg_level self = 3 \<and>
     int (seg_allowed self) + int N \<le> i64_max \<and> index_ok cd (seg_allowed self) (sg_data self) (sg_index self)"

definition seg_retained :: "codec \<Rightarrow> segment_store \<Rightarrow> string \<Rightarrow> canonical_record list" where
  "seg_retained cd self ch = rows_records cd (sg_data self) ch (si_rows (sg_index self))"

text \<open>What the store is for a client: the in-memory store with the same blocks.\<close>

definition abs_channel :: "codec \<Rightarrow> bytes \<Rightarrow> segment_row list \<Rightarrow> string \<Rightarrow> channel_blocks" where
  "abs_channel cd data rows ch =
     \<lparr>blocks = row_blocks data ch rows, seen_event_keys = event_key ` set (rows_records cd data ch rows),
      cb_message_count = length (rows_records cd data ch rows)\<rparr>"

definition abs_channels :: "codec \<Rightarrow> bytes \<Rightarrow> segment_index \<Rightarrow> (string \<times> channel_blocks) list" where
  "abs_channels cd data ix = map (\<lambda>(ch, c). (ch, abs_channel cd data (si_rows ix) ch)) (si_channels ix)"

definition abs_store :: "codec \<Rightarrow> segment_store \<Rightarrow> memory_store" where
  "abs_store cd self =
     \<lparr>block_messages = sg_block_messages self, target_messages_per_channel = sg_target self,
      compression_level = sg_level self, channels = abs_channels cd (sg_data self) (sg_index self)\<rparr>"

section \<open>The file only matters where the rows point\<close>

lemma take_drop_prefix: "offset + n \<le> length data \<Longrightarrow> take n (drop offset (data @ extra)) = take n (drop offset data)"
  by simp

lemma up_to_Inr [simp]: "up_to bound n = Inr m \<longleftrightarrow> 0 \<le> n \<and> n \<le> int bound \<and> m = nat n"
  by (auto simp: up_to_def)

lemma read_block_cut:
  assumes "0 \<le> sg_offset d" and "0 \<le> sg_payload_bytes d" and "sg_offset d + sg_payload_bytes d \<le> int k"
    and "k \<le> length data"
  shows "read_block (take k data) ch d = read_block data ch d"
proof -
  have k: "nat (sg_offset d) + nat (sg_payload_bytes d) \<le> k" using assms(1-3) by linarith
  then have "take (nat (sg_payload_bytes d)) (drop (nat (sg_offset d)) (take k data)) =
      take (nat (sg_payload_bytes d)) (drop (nat (sg_offset d)) data)"
    by (simp add: drop_take)
  then show ?thesis using assms k by (simp add: read_block_def up_to_def)
qed

lemma row_ok_cut:
  assumes "row_ok cd data d" and "sg_offset d + sg_payload_bytes d \<le> int k" and "k \<le> length data"
  shows "row_ok cd (take k data) d" and "row_block (take k data) d = row_block data d"
proof -
  have r: "read_block (take k data) (sg_channel d) d = read_block data (sg_channel d) d"
    using read_block_cut assms by (simp add: row_ok_def)
  show "row_block (take k data) d = row_block data d" by (simp add: row_block_def r)
  then show "row_ok cd (take k data) d" using assms r by (simp add: row_ok_def)
qed

lemma row_ok_more:
  assumes "row_ok cd data d"
  shows "row_ok cd (data @ extra) d" and "row_block (data @ extra) d = row_block data d"
proof -
  have "read_block data (sg_channel d) d = read_block (data @ extra) (sg_channel d) d"
    using read_block_cut [of d "length data" "data @ extra" "sg_channel d"] assms by (simp add: row_ok_def)
  then show "row_block (data @ extra) d = row_block data d" by (simp add: row_block_def)
  then show "row_ok cd (data @ extra) d"
    using assms \<open>read_block data (sg_channel d) d = read_block (data @ extra) (sg_channel d) d\<close>
    by (auto simp: row_ok_def)
qed

text \<open>Two files in which every row reads the same block are the same for the invariant and the abstraction.\<close>

lemma same_blocks:
  assumes "\<forall>d \<in> set (si_rows ix). row_ok cd data' d \<and> row_block data' d = row_block data d" and "index_ok cd A data ix"
  shows "index_ok cd A data' ix" and "abs_channels cd data' ix = abs_channels cd data ix"
proof -
  have b: "row_blocks data' ch (si_rows ix) = row_blocks data ch (si_rows ix)" for ch
    using assms(1) by (auto simp: row_blocks_def channel_rows_def)
  then have r: "rows_records cd data' ch (si_rows ix) = rows_records cd data ch (si_rows ix)" for ch
    by (simp add: rows_records_def)
  show "index_ok cd A data' ix" using assms by (auto simp: index_ok_def counted_ok_def rows_ok_def r)
  show "abs_channels cd data' ix = abs_channels cd data ix"
    by (simp add: abs_channels_def abs_channel_def b r)
qed

lemma index_ok_more:
  assumes "index_ok cd A data ix"
  shows "index_ok cd A (data @ extra) ix" and "abs_channels cd (data @ extra) ix = abs_channels cd data ix"
proof -
  have "\<forall>d \<in> set (si_rows ix). row_ok cd (data @ extra) d \<and> row_block (data @ extra) d = row_block data d"
    using assms row_ok_more by (auto simp: index_ok_def rows_ok_def)
  then show "index_ok cd A (data @ extra) ix" "abs_channels cd (data @ extra) ix = abs_channels cd data ix"
    using same_blocks assms by blast+
qed

lemma indexed_end_Max:
  "indexed_end rows = (if rows = [] then 0 else Max ((\<lambda>d. sg_offset d + sg_payload_bytes d) ` set rows))"
  by (auto simp: indexed_end_def iter_max_def max_list1_Max split: list.splits)

lemma indexed_end_ge: "d \<in> set rows \<Longrightarrow> sg_offset d + sg_payload_bytes d \<le> indexed_end rows"
  by (auto simp: indexed_end_Max)

lemma indexed_end_bounds:
  assumes "\<forall>d \<in> set rows. row_ok cd data d"
  shows "0 \<le> indexed_end rows \<and> indexed_end rows \<le> int (length data) \<and> indexed_end rows \<le> i64_max"
proof (cases "rows = []")
  case True
  then show ?thesis by (simp add: indexed_end_Max int_defs)
next
  case False
  then have "indexed_end rows \<in> (\<lambda>d. sg_offset d + sg_payload_bytes d) ` set rows"
    unfolding indexed_end_Max using Max_in [of "(\<lambda>d. sg_offset d + sg_payload_bytes d) ` set rows"] by simp
  then obtain d where "d \<in> set rows" "indexed_end rows = sg_offset d + sg_payload_bytes d" by blast
  then show ?thesis using assms by (auto simp: row_ok_def)
qed

section \<open>Queries\<close>

lemma channel_rows_absent:
  "index_ok cd A data ix \<Longrightarrow> map_of (si_channels ix) ch = None \<Longrightarrow> channel_rows ch (si_rows ix) = []"
  by (auto simp: index_ok_def channel_rows_def filter_empty_conv map_of_eq_None_iff)

lemma rows_in_order_sorted: "sequence_ok ch seq rows \<Longrightarrow> rows_in_order ch rows = channel_rows ch rows"
  unfolding sequence_ok_def rows_in_order_def channel_rows_def
  by (rule sort_key_id_if_sorted, rule strict_sorted_imp_sorted) simp

lemma index_ok_rows:
  assumes "index_ok cd A data ix"
  shows "collect_results descriptor_row (rows_in_order ch (si_rows ix)) = Inr (channel_rows ch (si_rows ix))"
    and "\<And>d. d \<in> set (channel_rows ch (si_rows ix)) \<Longrightarrow> row_ok cd data d \<and> sg_channel d = ch"
proof -
  show ok: "\<And>d. d \<in> set (channel_rows ch (si_rows ix)) \<Longrightarrow> row_ok cd data d \<and> sg_channel d = ch"
    using assms by (auto simp: index_ok_def rows_ok_def channel_rows_def)
  have order: "rows_in_order ch (si_rows ix) = channel_rows ch (si_rows ix)"
  proof (cases "map_of (si_channels ix) ch")
    case None
    then show ?thesis using channel_rows_absent [OF assms] by (simp add: rows_in_order_def channel_rows_def)
  next
    case (Some c)
    then have "sequence_ok ch (fst c) (si_rows ix)" using assms unfolding index_ok_def by (metis prod.collapse)
    then show ?thesis by (rule rows_in_order_sorted)
  qed
  show "collect_results descriptor_row (rows_in_order ch (si_rows ix)) = Inr (channel_rows ch (si_rows ix))"
    unfolding order using collect_results_map [of "channel_rows ch (si_rows ix)" descriptor_row id] ok
    by (auto simp: descriptor_row_def row_ok_def)
qed

lemma read_block_count: "read_block data ch d = Inr b \<Longrightarrow> message_count b = nat (sg_count d) \<and> 0 \<le> sg_count d"
  by (auto simp: read_block_def split: if_splits)

lemma row_ok_reads:
  assumes "row_ok cd data d" and "sg_channel d = ch"
  shows "read_block data ch d = Inr (row_block data d)"
    and "decode cd (row_block data d) = Inr (block_records cd (row_block data d))"
    and "sg_count d = int (length (block_records cd (row_block data d)))"
proof -
  show r: "read_block data ch d = Inr (row_block data d)" using assms by (simp add: row_ok_def)
  show d: "decode cd (row_block data d) = Inr (block_records cd (row_block data d))"
    using assms by (simp add: row_ok_def good_block_def)
  have "message_count (row_block data d) = nat (sg_count d)" "0 \<le> sg_count d"
    using read_block_count [OF r] by simp_all
  moreover have "message_count (row_block data d) = length (block_records cd (row_block data d))"
    using decode_Inr(1) [OF d] by (simp add: describes_def)
  ultimately show "sg_count d = int (length (block_records cd (row_block data d)))" by linarith
qed

lemma load_blocks:
  assumes "index_ok cd A data ix"
  shows "load_channel_blocks data ch ix = Inr (row_blocks data ch (si_rows ix))"
    and "collect_results (\<lambda>b. map_err Block (decode cd b)) (row_blocks data ch (si_rows ix)) =
      Inr (map (block_records cd) (row_blocks data ch (si_rows ix)))"
proof -
  have "collect_results (read_block data ch) (channel_rows ch (si_rows ix)) =
      Inr (map (row_block data) (channel_rows ch (si_rows ix)))"
    by (rule collect_results_map) (use index_ok_rows(2) [OF assms] row_ok_reads(1) in blast)
  then show "load_channel_blocks data ch ix = Inr (row_blocks data ch (si_rows ix))"
    using index_ok_rows(1) [OF assms, of ch] by (simp add: load_channel_blocks_def row_blocks_def)
  show "collect_results (\<lambda>b. map_err Block (decode cd b)) (row_blocks data ch (si_rows ix)) =
      Inr (map (block_records cd) (row_blocks data ch (si_rows ix)))"
    by (rule collect_results_map) (use index_ok_rows(2) [OF assms] row_ok_reads(2) in \<open>auto simp: row_blocks_def\<close>)
qed

lemma seg_query_answer:
  assumes "index_ok cd A (sg_data s) (sg_index s)" and "limit q \<noteq> 0"
  shows "seg_query cd s q = Inr (answer_query q (seg_retained cd s (qr_channel_key q)))"
proof -
  let ?ch = "qr_channel_key q"
  let ?rows = "channel_rows ?ch (si_rows (sg_index s))"
  have "and_then (read_block (sg_data s) ?ch d) (\<lambda>b. map_err Block (decode cd b)) =
      Inr (block_records cd (row_block (sg_data s) d))" if "d \<in> set ?rows" for d
    using index_ok_rows(2) [OF assms(1) that] row_ok_reads [of cd "sg_data s" d ?ch] by simp
  then have "collect_results (\<lambda>d. and_then (read_block (sg_data s) ?ch d) (\<lambda>b. map_err Block (decode cd b))) ?rows =
      Inr (map (\<lambda>d. block_records cd (row_block (sg_data s) d)) ?rows)"
    by (rule collect_results_map)
  then show ?thesis
    using assms(2) index_ok_rows(1) [OF assms(1), of ?ch]
    by (simp add: seg_query_def Let_def seg_retained_def rows_records_def row_blocks_def blocks_records_def comp_def)
qed

lemma map_of_relabel: "map_of (map (\<lambda>(ch, c). (ch, f ch)) xs) k = map_option (\<lambda>_. f k) (map_of xs k)"
  by (induction xs) auto

lemma abs_channel_of:
  assumes "index_ok cd A (sg_data s) (sg_index s)"
  shows "channel_of (abs_store cd s) ch = abs_channel cd (sg_data s) (si_rows (sg_index s)) ch"
proof (cases "map_of (si_channels (sg_index s)) ch")
  case None
  then show ?thesis using channel_rows_absent [OF assms None]
    by (simp add: channel_of_def abs_store_def abs_channels_def map_of_relabel abs_channel_def row_blocks_def
        rows_records_def empty_channel_def)
next
  case (Some c)
  then show ?thesis by (simp add: channel_of_def abs_store_def abs_channels_def map_of_relabel)
qed

lemma mem_retained_abs:
  "index_ok cd A (sg_data s) (sg_index s) \<Longrightarrow> mem_retained cd (abs_store cd s) ch = seg_retained cd s ch"
  by (simp add: mem_retained_channel_of abs_channel_of abs_channel_def seg_retained_def rows_records_def)

end
