(* ===== verification/SegmentSpec.thy ===== *)
theory SegmentSpec
  imports SegmentStore
begin

text \<open>
  The log-structured store refines the in-memory one: what an append that succeeds leaves is what the
  in-memory store has after the same append, one that fails leaves nothing, and a store that is opened after
  a crash is the one before or the one after.
\<close>

section \<open>Writing the chunks\<close>

lemma next_segment_id_fresh: "next_segment_id rows \<notin> set (map sg_id rows)"
proof (cases "rows = []")
  case False
  then have "sg_id d < next_segment_id rows" if "d \<in> set rows" for d
    using that by (auto simp: next_segment_id_def iter_max_def max_list1_Max less_Suc_eq_le split: list.splits)
  then show ?thesis by fastforce
qed simp

lemma row_of_block_ok:
  assumes "codec_ok cd" and "encode cd chunk level = Inr b" and "\<forall>r \<in> set chunk. channel_key r = ch"
    and "int (length data + length (payload b)) \<le> i64_max"
  shows "row_ok cd (data @ payload b) (segment_row_of i ch seq b (int (length data)) (int (length (payload b))))"
    and "row_block (data @ payload b) (segment_row_of i ch seq b (int (length data)) (int (length (payload b)))) = b"
proof -
  let ?d = "segment_row_of i ch seq b (int (length data)) (int (length (payload b)))"
  have g: "good_block cd ch b" by (rule encode_good_block(1) [OF assms(1-3)])
  have sum: "checksum b = blake3 cd (payload b)" by (rule encode_Inr(3) [OF assms(2)])
  have "read_block (data @ payload b) ch ?d = Inr b"
    using encode_Inr [OF assms(2)] g assms(4)
    by (auto simp: read_block_def segment_row_of_def up_to_def good_block_def block_format_version_def
        int_defs intro!: encoded_block.equality)
  then have r: "read_block (data @ payload b) (sg_channel ?d) ?d = Inr b" by (simp add: segment_row_of_def)
  then show "row_block (data @ payload b) ?d = b" by (simp add: row_block_def)
  with r g show "row_ok cd (data @ payload b) ?d"
    using assms(4) codec_okD(3) [OF assms(1), of "payload b"] sum
    by (auto simp: row_ok_def segment_row_of_def)
qed

lemma channel_rows_append [simp]: "channel_rows ch (xs @ ys) = channel_rows ch xs @ channel_rows ch ys"
  by (simp add: channel_rows_def)

lemma rows_ok_append:
  assumes "rows_ok cd data rows" and "row_ok cd (data @ extra) d" and "sg_id d = next_segment_id rows"
  shows "rows_ok cd (data @ extra) (rows @ [d])"
  using assms row_ok_more(1) next_segment_id_fresh [of rows] by (auto simp: rows_ok_def)

lemma insert_step:
  assumes "insert_segments cd level ch (chunk # rest) seq retained rows data = (res, data')"
  shows "(\<exists>e extra. res = Inl e \<and> data' = data @ extra) \<or>
    (\<exists>b. encode cd chunk level = Inr b \<and> int (length data + length (payload b)) \<le> i64_max \<and>
       insert_segments cd level ch rest (seq + 1) (retained + int (message_count b))
         (rows @ [segment_row_of (next_segment_id rows) ch seq b (int (length data)) (int (length (payload b)))])
         (data @ payload b) = (res, data'))"
  using assms by (auto split: sum.splits option.splits if_splits)

text \<open>The file only grows, whether writing the chunks succeeds or not.\<close>

lemma insert_segments_extends:
  "insert_segments cd level ch cs seq retained rows data = (res, data') \<Longrightarrow> \<exists>extra. data' = data @ extra"
proof (induction cs arbitrary: seq retained rows data)
  case Nil
  then show ?case by auto
next
  case (Cons chunk rest)
  from insert_step [OF Cons.prems] show ?case by (fastforce dest: Cons.IH)
qed

lemma insert_segments_push:
  assumes "codec_ok cd" and "insert_segments cd level ch cs seq retained rows data = (Inr (seq', retained', rows'), data')"
    and "\<forall>r \<in> set (concat cs). channel_key r = ch" and "rows_ok cd data rows" and "sequence_ok ch seq rows"
  shows "rows_ok cd data' rows' \<and> sequence_ok ch seq' rows' \<and> retained' = retained + int (length (concat cs)) \<and>
    (\<exists>new. rows' = rows @ new \<and> (\<forall>d \<in> set new. sg_channel d = ch) \<and>
       blocks_records cd (map (row_block data') new) = concat cs \<and>
       (\<forall>c. push_chunks cd level cs c = (Inr (), c\<lparr>blocks := blocks c @ map (row_block data') new,
          cb_message_count := cb_message_count c + length (concat cs)\<rparr>)))"
  using assms(2-)
proof (induction cs arbitrary: seq retained rows data)
  case Nil
  then show ?case by auto
next
  case (Cons chunk rest)
  from insert_step [OF Cons.prems(1)] obtain b where b: "encode cd chunk level = Inr b"
    "int (length data + length (payload b)) \<le> i64_max" and
    run: "insert_segments cd level ch rest (seq + 1) (retained + int (message_count b))
         (rows @ [segment_row_of (next_segment_id rows) ch seq b (int (length data)) (int (length (payload b)))])
         (data @ payload b) = (Inr (seq', retained', rows'), data')" by auto
  let ?d = "segment_row_of (next_segment_id rows) ch seq b (int (length data)) (int (length (payload b)))"
  have chan: "\<forall>r \<in> set chunk. channel_key r = ch" using Cons.prems(2) by simp
  note d = row_of_block_ok [OF assms(1) b(1) chan b(2), of "next_segment_id rows" seq]
  have rows: "rows_ok cd (data @ payload b) (rows @ [?d])"
    by (rule rows_ok_append [OF Cons.prems(3) d(1)]) (simp add: segment_row_of_def)
  have seq: "sequence_ok ch (seq + 1) (rows @ [?d])"
    using Cons.prems(4) by (force simp: sequence_ok_def channel_rows_def segment_row_of_def sorted_wrt_append)
  have rest: "\<forall>r \<in> set (concat rest). channel_key r = ch" using Cons.prems(2) by simp
  obtain new where new: "rows_ok cd data' rows'" "sequence_ok ch seq' rows'"
    "retained' = retained + int (message_count b) + int (length (concat rest))"
    "rows' = (rows @ [?d]) @ new" "\<forall>d \<in> set new. sg_channel d = ch"
    "blocks_records cd (map (row_block data') new) = concat rest"
    "\<forall>c. push_chunks cd level rest c = (Inr (), c\<lparr>blocks := blocks c @ map (row_block data') new,
          cb_message_count := cb_message_count c + length (concat rest)\<rparr>)"
    using Cons.IH [OF run rest rows seq] by blast
  obtain extra where "data' = (data @ payload b) @ extra" using insert_segments_extends [OF run] by blast
  then have row: "row_block data' ?d = b" using row_ok_more(2) [OF d(1), of extra] d(2) by simp
  have chunk: "block_records cd b = chunk" by (rule encode_good_block(2) [OF assms(1) b(1) chan])
  have len: "message_count b = length chunk" using encode_Inr(1) [OF b(1)] by (simp add: describes_def)
  have "sg_channel ?d = ch" by (simp add: segment_row_of_def)
  then show ?case
    using new b(1) row chunk len by (intro conjI exI [of _ "?d # new"]) (auto simp: algebra_simps)
qed

section \<open>Evicting\<close>

lemma filter_id_rows:
  assumes "distinct (map sg_id rows)" and "channel_rows ch rows = d # ds"
  shows "channel_rows ch (filter (\<lambda>d'. sg_id d' \<noteq> sg_id d) rows) = ds"
    and "c \<noteq> ch \<Longrightarrow> channel_rows c (filter (\<lambda>d'. sg_id d' \<noteq> sg_id d) rows) = channel_rows c rows"
proof -
  have d: "d \<in> set rows" "sg_channel d = ch" using assms(2) by (auto simp: channel_rows_def filter_eq_Cons_iff)
  have same: "sg_id d' = sg_id d \<longleftrightarrow> d' = d" if "d' \<in> set rows" for d'
    using assms(1) d(1) that by (auto simp: distinct_map dest: inj_onD)
  have "distinct (d # ds)"
    unfolding assms(2) [symmetric] channel_rows_def using assms(1) by (simp add: distinct_map)
  moreover have "channel_rows ch (filter (\<lambda>d'. sg_id d' \<noteq> sg_id d) rows) = filter (\<lambda>d'. d' \<noteq> d) (channel_rows ch rows)"
    using same by (auto simp: channel_rows_def intro!: filter_cong)
  ultimately show "channel_rows ch (filter (\<lambda>d'. sg_id d' \<noteq> sg_id d) rows) = ds"
    by (auto simp: assms(2) intro!: filter_True)
  show "channel_rows c (filter (\<lambda>d'. sg_id d' \<noteq> sg_id d) rows) = channel_rows c rows" if "c \<noteq> ch"
    using same d(2) that by (auto simp: channel_rows_def intro!: filter_cong)
qed

lemma forget_block:
  assumes "channel_rows ch rows = d # ds" and "channel_rows ch rows' = ds"
    and "distinct (map event_key (rows_records cd data ch rows))"
  shows "foldl forget (abs_channel cd data rows ch\<lparr>blocks := row_blocks data ch rows'\<rparr>)
      (block_records cd (row_block data d)) = abs_channel cd data rows' ch"
proof -
  have "rows_records cd data ch rows = block_records cd (row_block data d) @ rows_records cd data ch rows'"
    by (simp add: rows_records_def row_blocks_def assms(1,2))
  then show ?thesis
    using assms(3) by (intro channel_blocks.equality) (auto simp: abs_channel_def)
qed

lemma evict_segments_front:
  assumes "rows_ok cd data rows" and "sequence_ok ch seq rows" and "retained = int (length (rows_records cd data ch rows))"
    and "retained \<le> i64_max" and "distinct (map event_key (rows_records cd data ch rows))"
    and "evict_segments ch (int A) retained rows = (left, rows')"
  shows "rows_ok cd data rows' \<and> sequence_ok ch seq rows' \<and> counted_ok cd A data ch left rows' \<and>
    evict_front cd A (abs_channel cd data rows ch) = (Inr (), abs_channel cd data rows' ch) \<and>
    (\<forall>c. c \<noteq> ch \<longrightarrow> channel_rows c rows' = channel_rows c rows) \<and> set rows' \<subseteq> set rows"
  using assms
proof (induction ch "int A" retained rows rule: evict_segments.induct)
  case (1 ch retained rows)
  note prems = "1.prems"
  have cnt: "cb_message_count (abs_channel cd data rows ch) = length (rows_records cd data ch rows)"
    by (simp add: abs_channel_def)
  have order: "rows_in_order ch rows = channel_rows ch rows" by (rule rows_in_order_sorted [OF prems(2)])
  show ?case
  proof (cases "retained > int A")
    case False
    then have "left = retained" "rows' = rows"
      using prems(6) by (simp_all add: evict_segments.simps [of ch "int A" retained rows])
    moreover have "evict_front cd A (abs_channel cd data rows ch) = (Inr (), abs_channel cd data rows ch)"
      using False prems(3) cnt by (simp add: evict_front.simps [of cd A])
    ultimately show ?thesis using prems False by (auto simp: counted_ok_def)
  next
    case True
    then have "rows_records cd data ch rows \<noteq> []" using prems(3) by auto
    then obtain d ds where d: "channel_rows ch rows = d # ds"
      by (cases "channel_rows ch rows") (auto simp: rows_records_def row_blocks_def)
    let ?rows = "filter (\<lambda>d'. sg_id d' \<noteq> sg_id d) rows"
    have ids: "distinct (map sg_id rows)" using prems(1) by (simp add: rows_ok_def)
    note rest = filter_id_rows [OF ids d]
    have ok: "row_ok cd data d" "sg_channel d = ch"
      using d prems(1) by (auto simp: rows_ok_def channel_rows_def filter_eq_Cons_iff)
    note reads = row_ok_reads [OF ok]
    have recs: "rows_records cd data ch rows = block_records cd (row_block data d) @ rows_records cd data ch ?rows"
      by (simp add: rows_records_def row_blocks_def d rest(1))
    have left: "i64_saturating_sub retained (sg_count d) = int (length (rows_records cd data ch ?rows))"
      using prems(3,4) recs reads(3) by (simp add: int_defs)
    have run: "evict_segments ch (int A) (i64_saturating_sub retained (sg_count d)) ?rows = (left, rows')"
      using prems(6) True order d by (simp add: evict_segments.simps [of ch "int A" retained rows])
    have IH: "rows_ok cd data rows' \<and> sequence_ok ch seq rows' \<and> counted_ok cd A data ch left rows' \<and>
      evict_front cd A (abs_channel cd data ?rows ch) = (Inr (), abs_channel cd data rows' ch) \<and>
      (\<forall>c. c \<noteq> ch \<longrightarrow> channel_rows c rows' = channel_rows c ?rows) \<and> set rows' \<subseteq> set ?rows"
    proof (rule "1.hyps" [OF True order [unfolded d]])
      show "rows_ok cd data ?rows" using prems(1) by (auto simp: rows_ok_def distinct_map_filter)
      show "sequence_ok ch seq ?rows" using prems(2) by (simp add: sequence_ok_def rest(1) d)
      show "i64_saturating_sub retained (sg_count d) \<le> i64_max" using left recs prems(3,4) by simp
      show "distinct (map event_key (rows_records cd data ch ?rows))" using prems(5) recs by simp
    qed (use left run in auto)
    have "blocks (abs_channel cd data rows ch) = row_block data d # row_blocks data ch ?rows"
      by (simp add: abs_channel_def row_blocks_def d rest(1))
    then have "evict_front cd A (abs_channel cd data rows ch) = evict_front cd A (abs_channel cd data ?rows ch)"
      using True prems(3) cnt reads(2) forget_block [OF d rest(1) prems(5)]
      by (simp add: evict_front.simps [of cd A "abs_channel cd data rows ch"])
    then show ?thesis using IH rest(2) by auto
  qed
qed

section \<open>A transaction\<close>

definition seg_view :: "codec \<Rightarrow> segment_store \<Rightarrow> bytes \<Rightarrow> segment_index \<Rightarrow> memory_store" where
  "seg_view cd self data ix = abs_store cd (self\<lparr>sg_data := data, sg_index := ix\<rparr>)"

lemma seg_view_simps [simp]:
  "block_messages (seg_view cd self data ix) = sg_block_messages self"
  "compression_level (seg_view cd self data ix) = sg_level self"
  "channels (seg_view cd self data ix) = abs_channels cd data ix"
  "mem_allowed (seg_view cd self data ix) = seg_allowed self"
  by (simp_all add: seg_view_def abs_store_def mem_allowed_def seg_allowed_def)

lemma update_relabel:
  assumes "distinct (map fst xs)" and "\<And>k. k \<noteq> ch \<Longrightarrow> f' k = f k"
  shows "map (\<lambda>(k, v). (k, f' k)) (AList.update ch v xs) = AList.update ch (f' ch) (map (\<lambda>(k, v). (k, f k)) xs)"
  using assms(1)
proof (induction xs)
  case (Cons x xs)
  obtain k u where x: "x = (k, u)" by fastforce
  show ?case
  proof (cases "k = ch")
    case True
    then have "f' k' = f k'" if "(k', u') \<in> set xs" for k' u' using Cons.prems x that assms(2) by force
    then show ?thesis using True x by auto
  qed (use Cons x assms(2) in auto)
qed simp

lemma ensure_channel_spec:
  assumes "index_ok cd A data ix"
  shows "index_ok cd A data (ensure_channel ch ix)" and "si_rows (ensure_channel ch ix) = si_rows ix"
    and "\<exists>c. map_of (si_channels (ensure_channel ch ix)) ch = Some c"
    and "AList.update ch c (abs_channels cd data (ensure_channel ch ix)) = AList.update ch c (abs_channels cd data ix)"
proof -
  show rows: "si_rows (ensure_channel ch ix) = si_rows ix" by (simp add: ensure_channel_def)
  show "\<exists>c. map_of (si_channels (ensure_channel ch ix)) ch = Some c"
    by (auto simp: ensure_channel_def map_add_def split: option.splits)
  show "index_ok cd A data (ensure_channel ch ix)"
  proof (cases "map_of (si_channels ix) ch")
    case None
    then have "channel_rows ch (si_rows ix) = []" by (rule channel_rows_absent [OF assms])
    then have "sequence_ok ch 0 (si_rows ix)" "counted_ok cd A data ch 0 (si_rows ix)"
      by (simp_all add: sequence_ok_def counted_ok_def rows_records_def row_blocks_def)
    then show ?thesis using assms None
      by (auto simp: index_ok_def ensure_channel_def map_add_def map_of_eq_None_iff split: option.splits if_splits)
  qed (use assms in \<open>simp add: ensure_channel_def\<close>)
  have "AList.update ch c (xs @ [(ch, v)]) = AList.update ch c xs" if "map_of xs ch = None" for v and xs :: "(string \<times> channel_blocks) list"
    using that by (induction xs) (auto split: if_splits)
  then show "AList.update ch c (abs_channels cd data (ensure_channel ch ix)) = AList.update ch c (abs_channels cd data ix)"
    by (simp add: ensure_channel_def abs_channels_def map_of_relabel)
qed

lemma seg_view_channel:
  "index_ok cd A data ix \<Longrightarrow> channel_of (seg_view cd self data ix) ch = abs_channel cd data (si_rows ix) ch"
  using abs_channel_of [of cd A "self\<lparr>sg_data := data, sg_index := ix\<rparr>"] by (simp add: seg_view_def)

text \<open>The rows of the channel after the insertions, as the in-memory store has them after pushing.\<close>

lemma pushed_channel:
  assumes "rows_ok cd data rows" and "data' = data @ extra" and "\<forall>d \<in> set new. sg_channel d = ch"
    and "blocks_records cd (map (row_block data') new) = kept"
    and "distinct (map event_key (rows_records cd data ch rows))"
    and "retain_new event_key (event_key ` set (rows_records cd data ch rows)) rs = (kept, seen)"
  shows "(abs_channel cd data rows ch)\<lparr>seen_event_keys := seen, blocks := row_blocks data ch rows @ map (row_block data') new,
      cb_message_count := length (rows_records cd data ch rows) + length kept\<rparr> = abs_channel cd data' (rows @ new) ch"
    and "rows_records cd data' ch (rows @ new) = rows_records cd data ch rows @ kept"
    and "distinct (map event_key (rows_records cd data' ch (rows @ new)))"
    and "c \<noteq> ch \<Longrightarrow> row_blocks data' c (rows @ new) = row_blocks data c rows"
proof -
  have old: "row_blocks data' c rows = row_blocks data c rows" for c
    using assms(1,2) row_ok_more(2) by (auto simp: row_blocks_def channel_rows_def rows_ok_def)
  have new: "channel_rows ch new = new" "c \<noteq> ch \<Longrightarrow> channel_rows c new = []" for c
    using assms(3) by (auto simp: channel_rows_def filter_empty_conv intro!: filter_True)
  have blocks: "row_blocks data' ch (rows @ new) = row_blocks data ch rows @ map (row_block data') new"
    using old [of ch] new(1) by (simp add: row_blocks_def)
  then show recs: "rows_records cd data' ch (rows @ new) = rows_records cd data ch rows @ kept"
    by (simp add: rows_records_def assms(4))
  note kept = retain_new_spec [OF assms(6)]
  show "distinct (map event_key (rows_records cd data' ch (rows @ new)))"
    using kept assms(5) by (auto simp: recs)
  have "seen = event_key ` set (rows_records cd data ch rows @ kept)" using kept by auto
  then show "(abs_channel cd data rows ch)\<lparr>seen_event_keys := seen, blocks := row_blocks data ch rows @ map (row_block data') new,
      cb_message_count := length (rows_records cd data ch rows) + length kept\<rparr> = abs_channel cd data' (rows @ new) ch"
    by (simp add: abs_channel_def recs blocks)
  show "row_blocks data' c (rows @ new) = row_blocks data c rows" if "c \<noteq> ch"
    using old [of c] new(2) [OF that] by (simp add: row_blocks_def)
qed

lemma retain_new_length: "retain_new key seen xs = (kept, seen') \<Longrightarrow> length kept \<le> length xs"
  by (induction xs arbitrary: seen kept seen') (auto split: if_splits prod.splits intro: le_SucI)

lemma transaction_extends:
  "seg_append_transaction cd self ch rs ix data = (res, data') \<Longrightarrow> \<exists>extra. data' = data @ extra"
  by (auto simp: seg_append_transaction_def Let_def split: sum.splits option.splits if_splits prod.splits
      dest: insert_segments_extends)

lemma mem_append_evict:
  assumes "rs \<noteq> []" and "\<not> mixed_batch rs" and "ch = channel_key (hd rs)"
    and "retain_new event_key (seen_event_keys (channel_of s ch)) (sort_key event_order rs) = (kept, seen)"
    and "push_chunks cd (compression_level s) (chunks (block_messages s) kept)
      (channel_of s ch\<lparr>seen_event_keys := seen\<rparr>) = (Inr (), c2)"
    and "evict_front cd (mem_allowed s) c2 = (Inr (), c3)"
  shows "mem_append_batch cd s rs = (Inr (), s\<lparr>channels := AList.update ch c3 (channels s)\<rparr>)"
  using mem_append_unfold [OF assms(1,2,4,5,3)] assms(6) by simp

lemma transaction_refines:
  assumes "codec_ok cd" and "0 < sg_block_messages self" and "index_ok cd (seg_allowed self) data ix0"
    and "int (seg_allowed self) + int (length rs) \<le> i64_max" and "rs \<noteq> []" and "\<not> mixed_batch rs" and "ch = channel_key (hd rs)"
    and "seg_append_transaction cd self ch rs ix0 data = (Inr ix', data')"
  shows "index_ok cd (seg_allowed self) data' ix' \<and>
    mem_append_batch cd (seg_view cd self data ix0) rs = (Inr (), seg_view cd self data' ix')"
proof -
  let ?A = "seg_allowed self" and ?ix = "ensure_channel ch ix0"
  let ?rows = "si_rows ix0" and ?s = "seg_view cd self data ix0"
  let ?keys = "event_key ` set (rows_records cd data ch ?rows)"
  note ens = ensure_channel_spec [OF assms(3), of ch]
  obtain kept seen where rn: "retain_new event_key ?keys (sort_key event_order rs) = (kept, seen)" by fastforce
  have load: "and_then (load_channel_blocks data ch ?ix) (collect_results (\<lambda>b. map_err Block (decode cd b))) =
      Inr (map (block_records cd) (row_blocks data ch ?rows))"
    using load_blocks [OF ens(1), of ch] ens(2) by simp
  have keys: "record_keys (map (block_records cd) (row_blocks data ch ?rows)) = ?keys"
    by (simp add: record_keys_def rows_records_def blocks_records_def)
  have chan: "channel_of ?s ch = abs_channel cd data ?rows ch" by (rule seg_view_channel [OF assms(3)])
  have rn': "retain_new event_key (seen_event_keys (channel_of ?s ch)) (sort_key event_order rs) = (kept, seen)"
    using rn by (simp add: chan abs_channel_def)
  have rows0: "rows_ok cd data ?rows" using assms(3) by (simp add: index_ok_def)
  obtain seq retained where c: "map_of (si_channels ?ix) ch = Some (seq, retained)" using ens(3) by auto
  then have counters: "sequence_ok ch seq ?rows" "counted_ok cd ?A data ch retained ?rows"
    using ens(1,2) by (auto simp: index_ok_def)
  have A: "i64_try_from_or_max ?A = int ?A" using assms(4) by (simp add: int_defs)
  show ?thesis
  proof (cases "kept = []")
    case True
    then have "ix' = ?ix" "data' = data"
      using assms(8) load keys rn by (simp_all add: seg_append_transaction_def Let_def)
    have "seen = ?keys" using retain_new_spec [OF rn] True by auto
    then have push: "push_chunks cd (compression_level ?s) (chunks (block_messages ?s) kept)
      (channel_of ?s ch\<lparr>seen_event_keys := seen\<rparr>) = (Inr (), abs_channel cd data ?rows ch)"
      using True by (simp add: chan abs_channel_def)
    have "evict_front cd (mem_allowed ?s) (abs_channel cd data ?rows ch) = (Inr (), abs_channel cd data ?rows ch)"
      using counters(2) by (simp add: evict_front.simps [of cd ?A] counted_ok_def abs_channel_def)
    from mem_append_evict [OF assms(5,6,7) rn' push this]
    have "mem_append_batch cd ?s rs = (Inr (), ?s\<lparr>channels := AList.update ch (abs_channel cd data ?rows ch) (abs_channels cd data ix0)\<rparr>)"
      by simp
    moreover have "AList.update ch (abs_channel cd data ?rows ch) (abs_channels cd data ix0) = abs_channels cd data ?ix"
    proof -
      have "map_of (abs_channels cd data ?ix) ch = Some (abs_channel cd data ?rows ch)"
        using c by (simp add: abs_channels_def map_of_relabel ens(2))
      then have "AList.update ch (abs_channel cd data ?rows ch) (abs_channels cd data ?ix) = abs_channels cd data ?ix"
        by (rule update_triv)
      then show ?thesis by (simp add: ens(4))
    qed
    ultimately show ?thesis using ens(1) \<open>ix' = ?ix\<close> \<open>data' = data\<close>
      by (simp add: seg_view_def abs_store_def)
  next
    case False
    obtain seq' retained' rows1 left rows2 where ins: "insert_segments cd (sg_level self) ch
        (chunks (sg_block_messages self) kept) seq retained ?rows data = (Inr (seq', retained', rows1), data')"
      and ev: "evict_segments ch (int ?A) retained' rows1 = (left, rows2)"
      and ix': "ix' = \<lparr>si_channels = AList.update ch (seq', left) (si_channels ?ix), si_rows = rows2\<rparr>"
      using assms(8) load keys rn False c A ens(2)
      by (auto simp: seg_append_transaction_def Let_def seg_allowed_def split: sum.splits prod.splits)
    have cc: "concat (chunks (sg_block_messages self) kept) = kept" by (rule concat_chunks [OF assms(2)])
    have kept_ch: "\<forall>r \<in> set (concat (chunks (sg_block_messages self) kept)). channel_key r = ch"
      using retain_new_spec [OF rn] not_mixed_batch [OF assms(6)] by (auto simp: cc assms(7))
    obtain new where new: "rows_ok cd data' rows1" "sequence_ok ch seq' rows1" "retained' = retained + int (length kept)"
      "rows1 = ?rows @ new" "\<forall>d \<in> set new. sg_channel d = ch" "blocks_records cd (map (row_block data') new) = kept"
      "\<And>c. push_chunks cd (sg_level self) (chunks (sg_block_messages self) kept) c = (Inr (), c\<lparr>blocks := blocks c @ map (row_block data') new,
          cb_message_count := cb_message_count c + length kept\<rparr>)"
      using insert_segments_push [OF assms(1) ins kept_ch rows0 counters(1)] unfolding cc by blast
    obtain extra where extra: "data' = data @ extra" using insert_segments_extends [OF ins] by blast
    note pushed = pushed_channel [OF rows0 extra new(5,6) _ rn, folded new(4)]
    have dk: "distinct (map event_key (rows_records cd data ch ?rows))" using counters(2) by (simp add: counted_ok_def)
    have len: "length kept \<le> length rs" using retain_new_length [OF rn] by simp
    have cnt: "retained' = int (length (rows_records cd data' ch rows1))"
      using new(3) counters(2) pushed(2) [OF dk] by (simp add: counted_ok_def)
    have "retained' \<le> i64_max" using new(3) counters(2) len assms(4) by (simp add: counted_ok_def)
    from evict_segments_front [OF new(1,2) cnt this pushed(3) [OF dk] ev]
    have e: "rows_ok cd data' rows2" "sequence_ok ch seq' rows2" "counted_ok cd ?A data' ch left rows2"
      "evict_front cd ?A (abs_channel cd data' rows1 ch) = (Inr (), abs_channel cd data' rows2 ch)"
      "\<And>c. c \<noteq> ch \<Longrightarrow> channel_rows c rows2 = channel_rows c rows1" "set rows2 \<subseteq> set rows1" by blast+
    have push: "push_chunks cd (compression_level ?s) (chunks (block_messages ?s) kept)
      (channel_of ?s ch\<lparr>seen_event_keys := seen\<rparr>) = (Inr (), abs_channel cd data' rows1 ch)"
      using pushed(1) [OF dk] by (simp add: chan new(7)) (simp add: abs_channel_def)
    have app: "mem_append_batch cd ?s rs = (Inr (), ?s\<lparr>channels := AList.update ch (abs_channel cd data' rows2 ch) (abs_channels cd data ix0)\<rparr>)"
      using mem_append_evict [OF assms(5,6,7) rn' push] e(4) by simp
    have others: "row_blocks data' c rows2 = row_blocks data c ?rows" if "c \<noteq> ch" for c
      using pushed(4) [OF dk that] e(5) [OF that] by (simp add: row_blocks_def)
    have keys_ch: "distinct (map fst (si_channels ?ix))" using ens(1) by (simp add: index_ok_def)
    have "abs_channels cd data' ix' = AList.update ch (abs_channel cd data' rows2 ch) (abs_channels cd data ?ix)"
      unfolding ix' abs_channels_def segment_index.simps ens(2)
      by (rule update_relabel [OF keys_ch]) (simp add: abs_channel_def rows_records_def others)
    then have abs: "seg_view cd self data' ix' = ?s\<lparr>channels := AList.update ch (abs_channel cd data' rows2 ch) (abs_channels cd data ix0)\<rparr>"
      by (simp add: ens(4) seg_view_def abs_store_def)
    have "sequence_ok c sq rows2 \<and> counted_ok cd ?A data' c rt rows2"
      if "map_of (si_channels ?ix) c = Some (sq, rt)" "c \<noteq> ch" for c sq rt
    proof -
      have "sequence_ok c sq ?rows \<and> counted_ok cd ?A data c rt ?rows"
        using ens(1,2) that(1) by (auto simp: index_ok_def)
      moreover have "channel_rows c rows2 = channel_rows c ?rows"
        using e(5) [OF that(2)] new(4,5) that(2) by (auto simp: channel_rows_def filter_empty_conv)
      ultimately show ?thesis using others [OF that(2)]
        by (simp add: sequence_ok_def counted_ok_def rows_records_def)
    qed
    moreover have "sg_channel d \<in> insert ch (fst ` set (si_channels ?ix))" if "d \<in> set rows2" for d
      using that e(6) new(4,5) ens(1,2) by (auto simp: index_ok_def)
    ultimately have "index_ok cd ?A data' ix'"
      using e(1-3) keys_ch by (auto simp: index_ok_def ix' update_conv' distinct_update dom_update split: if_splits)
    then show ?thesis using app abs by simp
  qed
qed

section \<open>Appending\<close>

text \<open>The same batches appended to the in-memory store, up to the first error.\<close>

fun mem_appends ::
    "codec \<Rightarrow> canonical_record list list \<Rightarrow> memory_store \<Rightarrow> (store_error + unit) \<times> memory_store" where
  "mem_appends cd [] m = (Inr (), m)"
| "mem_appends cd (rs # batches) m =
     (case mem_append_batch cd m rs of (Inl e, m') \<Rightarrow> (Inl e, m') | (Inr _, m') \<Rightarrow> mem_appends cd batches m')"

lemma append_each_extends:
  "append_each cd self batches ix data = (res, data') \<Longrightarrow> \<exists>extra. data' = data @ extra"
proof (induction cd self batches ix data rule: append_each.induct)
  case (3 cd self r rs batches ix data)
  obtain res1 data1 where t: "seg_append_transaction cd self (channel_key r) (r # rs) ix data = (res1, data1)" by fastforce
  show ?case
    using "3.prems" t transaction_extends [OF t] "3.IH" [OF t [symmetric]] by (cases res1) fastforce+
qed auto

lemma append_each_refines:
  assumes "codec_ok cd" and "0 < sg_block_messages self" and "index_ok cd (seg_allowed self) data ix"
    and "int (seg_allowed self) + int N \<le> i64_max" and "\<forall>rs \<in> set batches. length rs \<le> N \<and> \<not> mixed_batch rs"
    and "append_each cd self batches ix data = (Inr ix', data')"
  shows "index_ok cd (seg_allowed self) data' ix' \<and>
    mem_appends cd batches (seg_view cd self data ix) = (Inr (), seg_view cd self data' ix')"
  using assms(3,5,6)
proof (induction batches arbitrary: ix data)
  case Nil
  then show ?case by simp
next
  case (Cons rs batches)
  show ?case
  proof (cases rs)
    case Nil
    then show ?thesis using Cons by simp
  next
    case (Cons r rest)
    obtain ix1 data1 where t: "seg_append_transaction cd self (channel_key r) rs ix data = (Inr ix1, data1)"
      and run: "append_each cd self batches ix1 data1 = (Inr ix', data')"
      using Cons.prems(3) \<open>rs = r # rest\<close> by (auto split: prod.splits sum.splits)
    have "int (seg_allowed self) + int (length rs) \<le> i64_max" using assms(4) Cons.prems(2) by simp
    from transaction_refines [OF assms(1,2) Cons.prems(1) this _ _ _ t] Cons.prems(2) \<open>rs = r # rest\<close>
    have one: "index_ok cd (seg_allowed self) data1 ix1"
      "mem_append_batch cd (seg_view cd self data ix) rs = (Inr (), seg_view cd self data1 ix1)" by auto
    have "index_ok cd (seg_allowed self) data' ix' \<and>
      mem_appends cd batches (seg_view cd self data1 ix1) = (Inr (), seg_view cd self data' ix')"
      by (rule Cons.IH [OF one(1) _ run]) (use Cons.prems(2) in auto)
    then show ?thesis using one(2) by simp
  qed
qed

lemma seg_view_self [simp]: "seg_view cd s (sg_data s) (sg_index s) = abs_store cd s"
  by (simp add: seg_view_def)

lemma mixed_batch_appended: "list_ex mixed_batch [rs] \<longleftrightarrow> mixed_batch rs"
  by simp

lemma seg_append_spec:
  assumes "seg_inv cd N s" and "\<forall>rs \<in> set batches. length rs \<le> N" and "seg_append_batches cd io batches s = (res, s')"
  shows "seg_inv cd N s' \<and>
    (case res of
       Inr _ \<Rightarrow> mem_appends cd batches (abs_store cd s) = (Inr (), abs_store cd s')
     | Inl e \<Rightarrow> abs_store cd s' = abs_store cd s \<and> sg_index s' = sg_index s \<and> (\<exists>extra. sg_data s' = sg_data s @ extra) \<and>
         (io_truncate io = None \<longrightarrow> s' = s))"
proof (cases "list_ex mixed_batch batches")
  case True
  then show ?thesis using assms by (auto simp: seg_append_batches_def)
next
  case False
  obtain each data' where run: "append_each cd s batches (sg_index s) (sg_data s) = (each, data')" by fastforce
  obtain extra where extra: "data' = sg_data s @ extra" using append_each_extends [OF run] by blast
  have ix: "index_ok cd (seg_allowed s) (sg_data s) (sg_index s)" using assms(1) by (simp add: seg_inv_def)
  show ?thesis
  proof (cases "\<exists>ix'. each = Inr ix' \<and> io_commit io = None")
    case True
    then obtain ix' where ix': "each = Inr ix'" "io_commit io = None" by blast
    have r: "res = Inr ()" and s': "s' = s\<lparr>sg_data := data', sg_index := ix'\<rparr>"
      using assms(3) False run ix' by (simp_all add: seg_append_batches_def)
    have "index_ok cd (seg_allowed s) data' ix' \<and>
      mem_appends cd batches (seg_view cd s (sg_data s) (sg_index s)) = (Inr (), seg_view cd s data' ix')"
      by (rule append_each_refines [OF _ _ ix, of N])
        (use assms(1,2) False run ix' in \<open>auto simp: seg_inv_def list_ex_iff\<close>)
    then show ?thesis using assms(1) r s' by (simp add: seg_inv_def seg_view_def seg_allowed_def)
  next
    case False': False
    then obtain e where "(case each of Inl e \<Rightarrow> Inl e
        | Inr ix \<Rightarrow> (case io_commit io of Some e \<Rightarrow> Inl (Backend e) | None \<Rightarrow> Inr ix)) = Inl e"
      by (cases each) (auto split: option.splits)
    then have "(\<exists>e. res = Inl e) \<and> (s' = s \<or> io_truncate io \<noteq> None \<and> s' = s\<lparr>sg_data := data'\<rparr>)"
      using assms(3) False run extra by (auto simp: seg_append_batches_def split: option.splits)
    then show ?thesis
      using assms(1) index_ok_more [OF ix, of extra] extra
      by (auto simp: seg_inv_def seg_allowed_def abs_store_def)
  qed
qed

lemma mem_inv_abs: "seg_inv cd N s \<Longrightarrow> mem_inv cd (abs_store cd s)"
proof -
  assume inv: "seg_inv cd N s"
  then have ix: "index_ok cd (seg_allowed s) (sg_data s) (sg_index s)" by (simp add: seg_inv_def)
  have "channel_inv cd ch (abs_channel cd (sg_data s) (si_rows (sg_index s)) ch)"
    if "map_of (si_channels (sg_index s)) ch = Some c" for ch c
  proof -
    have "counted_ok cd (seg_allowed s) (sg_data s) ch (snd c) (si_rows (sg_index s))"
      using ix that unfolding index_ok_def by (metis prod.collapse)
    moreover have "good_block cd ch b" if "b \<in> set (row_blocks (sg_data s) ch (si_rows (sg_index s)))" for b
      using that index_ok_rows(2) [OF ix, of _ ch] by (auto simp: row_blocks_def row_ok_def)
    ultimately show ?thesis by (auto simp: channel_inv_def abs_channel_def counted_ok_def rows_records_def)
  qed
  then show ?thesis using inv
    by (auto simp: mem_inv_def abs_store_def seg_inv_def abs_channels_def map_of_relabel)
qed

lemma seg_retained_abs: "seg_inv cd N s \<Longrightarrow> seg_retained cd s ch = mem_retained cd (abs_store cd s) ch"
  unfolding seg_inv_def using mem_retained_abs by metis

lemma seg_append_one:
  assumes "seg_inv cd N s" and "length rs \<le> N" and "seg_append_batch cd io s rs = (res, s')"
  shows "seg_inv cd N s'" and "abs_store cd s' = abs_store cd s \<or> mem_append_batch cd (abs_store cd s) rs = (Inr (), abs_store cd s')"
  using seg_append_spec [OF assms(1) _ assms(3) [unfolded seg_append_batch_def]] assms(2)
  by (auto split: sum.splits prod.splits)

interpretation seg: message_store "seg_append_batch cd io" "seg_query cd" "seg_retained cd" "seg_inv cd N"
    "\<lambda>rs. length rs \<le> N"
  for cd io N
proof unfold_locales
  show "limit q = 0 \<Longrightarrow> seg_query cd s q = Inl InvalidLimit" for q s by (simp add: seg_query_def)
  show "seg_inv cd N s \<Longrightarrow> limit q \<noteq> 0 \<Longrightarrow>
      seg_query cd s q = Inr (answer_query q (seg_retained cd s (qr_channel_key q)))" for s q
    unfolding seg_inv_def using seg_query_answer by blast
  show "mixed_batch rs \<Longrightarrow> seg_append_batch cd io s rs = (Inl MixedChannelBatch, s)" for rs s
    by (simp add: seg_append_batch_def seg_append_batches_def)
  fix s rs res s' ch r
  show "seg_inv cd N s \<Longrightarrow> r \<in> set (seg_retained cd s ch) \<Longrightarrow> channel_key r = ch"
    using mem_retained_channel mem_inv_abs seg_retained_abs by metis
  assume a: "seg_inv cd N s" "length rs \<le> N" "seg_append_batch cd io s rs = (res, s')"
  show i: "seg_inv cd N s'" by (rule seg_append_one(1) [OF a])
  note abs = seg_append_one(2) [OF a] and step = mem_append_step [OF mem_inv_abs [OF a(1)]]
  show "ch \<notin> channel_key ` set rs \<Longrightarrow> seg_retained cd s' ch = seg_retained cd s ch"
    unfolding seg_retained_abs [OF a(1)] seg_retained_abs [OF i] using abs step(2) by metis
  show "r \<in> set (seg_retained cd s' ch) \<Longrightarrow> r \<in> set (seg_retained cd s ch) \<or> r \<in> set rs"
    unfolding seg_retained_abs [OF a(1)] seg_retained_abs [OF i] using abs step(3) by metis
qed

section \<open>Opening\<close>

lemma open_segments_same:
  assumes "seg_inv cd N s" and "found = sg_data s @ extra"
  shows "\<exists>s2. open_segments found (sg_index s) (sg_block_messages s) (sg_target s) = Inr s2 \<and>
    seg_inv cd N s2 \<and> abs_store cd s2 = abs_store cd s \<and> int (length (sg_data s2)) = indexed_end (si_rows (sg_index s))"
proof -
  let ?rows = "si_rows (sg_index s)" and ?ix = "sg_index s"
  have ix: "index_ok cd (seg_allowed s) found ?ix" and same: "abs_channels cd found ?ix = abs_channels cd (sg_data s) ?ix"
    using assms index_ok_more [of cd "seg_allowed s" "sg_data s" ?ix extra] by (auto simp: seg_inv_def)
  have ok: "\<forall>d \<in> set ?rows. row_ok cd found d" using ix by (simp add: index_ok_def rows_ok_def)
  note b = indexed_end_bounds [OF ok]
  define k where "k = nat (indexed_end ?rows)"
  have k: "int k = indexed_end ?rows" "k \<le> length found" "k \<le> u64_max" using b by (auto simp: k_def int_defs)
  let ?data = "take k found"
  have cut: "row_ok cd ?data d \<and> row_block ?data d = row_block found d" if "d \<in> set ?rows" for d
    using row_ok_cut [of cd found d k] ok indexed_end_ge [OF that] k that by auto
  note ix' = same_blocks [OF _ ix, of ?data]
  let ?s = "\<lparr>sg_data = ?data, sg_index = ?ix, sg_block_messages = sg_block_messages s, sg_target = sg_target s, sg_level = 3\<rparr>"
  have "open_segments found ?ix (sg_block_messages s) (sg_target s) = Inr ?s"
  proof -
    have "up_to u64_max (indexed_end ?rows) = Inr k" unfolding up_to_Inr using k by linarith
    moreover have "indexed_end ?rows \<le> i64_max" "\<not> length found < k" using b k(2) by auto
    ultimately show ?thesis using assms(1) by (auto simp: open_segments_def seg_inv_def simp del: up_to_Inr)
  qed
  moreover have "seg_inv cd N ?s" using assms(1) ix'(1) cut by (simp add: seg_inv_def seg_allowed_def)
  moreover have "abs_store cd ?s = abs_store cd s"
    using assms(1) ix'(2) cut same by (simp add: seg_inv_def abs_store_def)
  ultimately show ?thesis using k by (intro exI [of _ ?s]) simp
qed

section \<open>Properties\<close>

text \<open>
  C23: The log-structured store refines the in-memory one. An append that succeeds, of several batches one
  after another in one transaction, leaves what the in-memory store has after the same appends: the same
  blocks, in the same order and with the same evictions. One that fails, at whatever block and also when its
  bytes cannot be taken back, leaves what there was. A query is answered as the in-memory store answers it.
\<close>
theorem segments_refine:
  assumes "seg_inv cd N s" and "\<forall>rs \<in> set batches. length rs \<le> N" and "seg_append_batches cd io batches s = (res, s')"
  shows "seg_inv cd N s' \<and> seg_query cd s' q = mem_query cd (abs_store cd s') q \<and>
    (case res of
       Inr _ \<Rightarrow> mem_appends cd batches (abs_store cd s) = (Inr (), abs_store cd s')
     | Inl e \<Rightarrow> abs_store cd s' = abs_store cd s \<and> (io_truncate io = None \<longrightarrow> s' = s))"
proof -
  have inv: "seg_inv cd N s'" using seg_append_spec [OF assms] by blast
  have "seg_query cd s' q = mem_query cd (abs_store cd s') q"
  proof (cases "limit q = 0")
    case True
    then show ?thesis by (simp add: seg.query_zero mem.query_zero)
  next
    case False
    then show ?thesis
      using seg.query_answer [OF inv] mem.query_answer [OF mem_inv_abs [OF inv]] seg_retained_abs [OF inv] by simp
  qed
  then show ?thesis using seg_append_spec [OF assms] by (auto split: sum.splits)
qed

text \<open>
  C24: A crash loses nothing that was acknowledged. The store is opened again with the index as it was before
  an append or, when that succeeded, as it is after it, and with whatever bytes the crash left behind the
  file's own: opening succeeds, cuts the file at the end of its last block, and what is stored is what was
  stored before the append or after it.
\<close>
theorem segments_recover:
  assumes "seg_inv cd N s" and "\<forall>rs \<in> set batches. length rs \<le> N" and "seg_append_batches cd io batches s = (res, s')"
    and "ix = sg_index s \<and> found = sg_data s @ junk \<or> res = Inr () \<and> ix = sg_index s' \<and> found = sg_data s' @ junk"
  shows "\<exists>s2. open_segments found ix (sg_block_messages s) (sg_target s) = Inr s2 \<and> seg_inv cd N s2 \<and>
    int (length (sg_data s2)) = indexed_end (si_rows ix) \<and>
    (abs_store cd s2 = abs_store cd s \<or> res = Inr () \<and> abs_store cd s2 = abs_store cd s')"
proof -
  have inv: "seg_inv cd N s'" using seg_append_spec [OF assms(1-3)] by blast
  have same: "sg_block_messages s' = sg_block_messages s" "sg_target s' = sg_target s"
    using assms(3) by (auto simp: seg_append_batches_def split: if_splits sum.splits option.splits prod.splits)
  show ?thesis
    using assms(4) open_segments_same [OF assms(1)] open_segments_same [OF inv, unfolded same] by blast
qed

section \<open>Witnesses\<close>

definition ex_seg :: segment_store where
  "ex_seg = \<lparr>sg_data = [], sg_index = empty_index, sg_block_messages = 1, sg_target = 2, sg_level = 3\<rparr>"

definition ex_seg_batch :: "canonical_record list" where
  "ex_seg_batch = [ex_mem_record 2 2, ex_mem_record 1 1, ex_mem_record 3 3]"

definition ex_seg_io :: segment_io where
  "ex_seg_io = \<lparr>io_commit = None, io_truncate = None\<rparr>"

lemma ex_seg_inv: "seg_inv ex_mem_codec 10 ex_seg"
  by (simp add: seg_inv_def ex_seg_def ex_mem_codec_def table_codec_ok seg_allowed_def allowed_messages_def int_defs
      index_ok_def rows_ok_def empty_index_def)

lemma ex_seg_run: "\<exists>s'. seg_append_batches ex_mem_codec ex_seg_io [ex_seg_batch] ex_seg = (Inr (), s')"
proof -
  have "fst (seg_append_batches ex_mem_codec ex_seg_io [ex_seg_batch] ex_seg) = Inr ()" by code_simp
  then show ?thesis by (metis prod.collapse)
qed

theorem segments_refine_witness:
  "\<exists>s'. seg_append_batches ex_mem_codec ex_seg_io [ex_seg_batch] ex_seg = (Inr (), s') \<and>
    mem_appends ex_mem_codec [ex_seg_batch] (abs_store ex_mem_codec ex_seg) = (Inr (), abs_store ex_mem_codec s')"
proof -
  obtain s' where r: "seg_append_batches ex_mem_codec ex_seg_io [ex_seg_batch] ex_seg = (Inr (), s')" using ex_seg_run by blast
  from segments_refine [OF ex_seg_inv _ this] show ?thesis using r by (auto simp: ex_seg_batch_def)
qed

theorem segments_recover_witness:
  "\<exists>s' s2. seg_append_batches ex_mem_codec ex_seg_io [ex_seg_batch] ex_seg = (Inr (), s') \<and>
    open_segments (sg_data s' @ [1, 2]) (sg_index s') 1 2 = Inr s2 \<and>
    int (length (sg_data s2)) = indexed_end (si_rows (sg_index s'))"
proof -
  obtain s' where r: "seg_append_batches ex_mem_codec ex_seg_io [ex_seg_batch] ex_seg = (Inr (), s')" using ex_seg_run by blast
  from segments_recover [OF ex_seg_inv _ r, of "sg_index s'" "sg_data s' @ [1, 2]" "[1, 2]"] show ?thesis
    using r by (auto simp: ex_seg_batch_def ex_seg_def)
qed

end
