(* ===== verification/NodeConfig.thy ===== *)
theory NodeConfig
  imports Cluster Peer Repair "HOL-Library.Word"
begin

unbundle bit_operations_syntax

text \<open>
  What a node makes of its configuration when it starts: the addresses of the other nodes and of the repair
  providers, in \<^verbatim>\<open>src/cluster.rs\<close>, \<^verbatim>\<open>src/web/peer.rs\<close> and \<^verbatim>\<open>src/web/repair.rs\<close>, and the answers it takes
  from the nodes of a cluster. The crate \<open>url\<close> is a parameter: how it takes a text apart and how it replaces a
  path. Durations are milliseconds. Building an HTTP client may fail, which is a parameter as well.
\<close>

section \<open>Addresses, as the standard library parses them\<close>

datatype ip_addr = V4 nat nat nat nat | V6 "nat list"

definition digit_of :: "nat \<Rightarrow> char \<Rightarrow> nat option" where
  "digit_of radix c =
     (let n = (of_char c :: nat);
          d = (if 48 \<le> n \<and> n \<le> 57 then n - 48
               else if 65 \<le> n \<and> n \<le> 90 then n - 55
               else if 97 \<le> n \<and> n \<le> 122 then n - 87 else radix)
      in if d < radix then Some d else None)"

text \<open>\<open>Parser::read_number\<close>: all the digits there are, no more than allowed.\<close>

definition read_number :: "nat \<Rightarrow> nat \<Rightarrow> bool \<Rightarrow> nat \<Rightarrow> string \<Rightarrow> (nat \<times> string) option" where
  "read_number radix max_digits zero_prefix bound s =
     (let ds = takeWhile (\<lambda>c. digit_of radix c \<noteq> None) s;
          n = foldl (\<lambda>acc c. acc * radix + the (digit_of radix c)) 0 ds
      in if ds = [] \<or> length ds > max_digits \<or> (\<not> zero_prefix \<and> hd ds = CHR ''0'' \<and> length ds > 1) \<or> n > bound
         then None else Some (n, drop (length ds) s))"

definition separated :: "char \<Rightarrow> bool \<Rightarrow> (string \<Rightarrow> 'a option) \<Rightarrow> string \<Rightarrow> 'a option" where
  "separated sep first read s =
     (if first then read s else (case s of [] \<Rightarrow> None | c # cs \<Rightarrow> if c = sep then read cs else None))"

definition read_octet :: "bool \<Rightarrow> string \<Rightarrow> (nat \<times> string) option" where
  "read_octet first = separated (CHR ''.'') first (read_number 10 3 False 255)"

definition read_ipv4 :: "string \<Rightarrow> ((nat \<times> nat \<times> nat \<times> nat) \<times> string) option" where
  "read_ipv4 s =
     Option.bind (read_octet True s) (\<lambda>(a, s). Option.bind (read_octet False s) (\<lambda>(b, s).
     Option.bind (read_octet False s) (\<lambda>(c, s). Option.bind (read_octet False s) (\<lambda>(d, s).
       Some ((a, b, c, d), s)))))"

text \<open>\<open>read_groups\<close>: groups of 16 bits, the last two possibly as an IPv4 address.\<close>

fun read_groups :: "nat \<Rightarrow> bool \<Rightarrow> string \<Rightarrow> nat list \<times> bool \<times> string" where
  "read_groups 0 first s = ([], False, s)"
| "read_groups (Suc left) first s =
     (case (if left \<ge> 1 then separated (CHR '':'') first read_ipv4 s else None) of
        Some ((a, b, c, d), s') \<Rightarrow> ([a * 256 + b, c * 256 + d], True, s')
      | None \<Rightarrow>
          (case separated (CHR '':'') first (read_number 16 4 True 65535) s of
             None \<Rightarrow> ([], False, s)
           | Some (g, s') \<Rightarrow>
               (case read_groups left False s' of (gs, v4, s'') \<Rightarrow> (g # gs, v4, s''))))"

definition read_ipv6 :: "string \<Rightarrow> (nat list \<times> string) option" where
  "read_ipv6 s =
     (case read_groups 8 True s of (head, v4, s1) \<Rightarrow>
        if length head = 8 then Some (head, s1)
        else if v4 then None
        else (case s1 of c1 # c2 # s2 \<Rightarrow>
            if c1 = CHR '':'' \<and> c2 = CHR '':''
            then (case read_groups (8 - (length head + 1)) True s2 of (tail, _, s3) \<Rightarrow>
                Some (head @ replicate (8 - length head - length tail) 0 @ tail, s3))
            else None
          | _ \<Rightarrow> None))"

definition parse_ip :: "string \<Rightarrow> ip_addr option" where
  "parse_ip s =
     (case read_ipv4 s of
        Some ((a, b, c, d), rest) \<Rightarrow> if rest = [] then Some (V4 a b c d) else None
      | None \<Rightarrow> (case read_ipv6 s of Some (gs, rest) \<Rightarrow> if rest = [] then Some (V6 gs) else None | None \<Rightarrow> None))"

text \<open>\<open>is_private\<close> and \<open>is_loopback\<close> of the two kinds of addresses, and the ranges the code adds.\<close>

definition v4_is_private :: "nat \<Rightarrow> nat \<Rightarrow> bool" where
  "v4_is_private a b \<longleftrightarrow> a = 10 \<or> (a = 172 \<and> 16 \<le> b \<and> b \<le> 31) \<or> (a = 192 \<and> b = 168)"

definition private_ip :: "ip_addr \<Rightarrow> bool" where
  "private_ip ip =
     (case ip of
        V4 a b c d \<Rightarrow> v4_is_private a b \<or> a = 127 \<or> (a = 100 \<and> 64 \<le> b \<and> b < 128)
      | V6 gs \<Rightarrow> gs = [0, 0, 0, 0, 0, 0, 0, 1] \<or> (word_of_nat (hd gs) :: 16 word) AND 0xfe00 = 0xfc00)"

section \<open>The addresses of a cluster\<close>

record url =
  url_scheme :: string
  url_username :: string
  url_password :: "string option"
  url_host :: "string option"
  url_port :: "nat option"
  url_path :: string
  url_query :: "string option"
  url_fragment :: "string option"
  url_opaque :: bool

text \<open>\<open>Url::parse\<close>, with the text of its error, and \<open>set_path\<close>.\<close>

record url_crate =
  url_parse :: "string \<Rightarrow> string + url"
  url_set_path :: "url \<Rightarrow> string \<Rightarrow> url"

definition trim_brackets :: "string \<Rightarrow> string" where
  "trim_brackets s =
     (let inner = dropWhile (\<lambda>c. c = CHR ''['' \<or> c = CHR '']'') s
      in rev (dropWhile (\<lambda>c. c = CHR ''['' \<or> c = CHR '']'') (rev inner)))"

definition private_origin :: "url_crate \<Rightarrow> string \<Rightarrow> storage_error + url" where
  "private_origin crate value =
     and_then (map_err (\<lambda>_. unavailable) (url_parse crate value)) (\<lambda>peer.
       let private = (case Option.bind (url_host peer) (\<lambda>h. parse_ip (trim_brackets h)) of
             None \<Rightarrow> False | Some ip \<Rightarrow> private_ip ip)
       in if \<not> private \<or> url_scheme peer \<notin> {''http'', ''https''} \<or> url_username peer \<noteq> [] \<or> url_password peer \<noteq> None \<or>
             url_path peer \<noteq> ''/'' \<or> url_query peer \<noteq> None \<or> url_fragment peer \<noteq> None
          then Inl unavailable else Inr peer)"

record cluster_config =
  ccf_role :: string
  ccf_peer_url :: string
  ccf_replica_urls :: "string list"
  ccf_authority_url :: string
  ccf_request_timeout :: nat
  ccf_sync_interval :: nat

record cluster_control =
  cc_peer :: url
  cc_replicas :: "url list"
  cc_token :: string
  cc_owner :: bool
  cc_authority :: "url option"

fun parse_replicas :: "url_crate \<Rightarrow> string list \<Rightarrow> url list \<Rightarrow> storage_error + url list" where
  "parse_replicas crate [] acc = Inr acc"
| "parse_replicas crate (value # rest) acc =
     and_then (private_origin crate value) (\<lambda>url.
       if url \<in> set acc then Inl unavailable else parse_replicas crate rest (acc @ [url]))"

definition cluster_replicas :: "url_crate \<Rightarrow> cluster_config \<Rightarrow> url \<Rightarrow> storage_error + url list" where
  "cluster_replicas crate cfg peer =
     (if ccf_role cfg \<noteq> ''owner'' then Inr []
      else if ccf_replica_urls cfg = [] then Inr [peer]
      else parse_replicas crate (ccf_replica_urls cfg) [])"

text \<open>\<open>opened\<close> is the node's database with its tables, or the error of opening it.\<close>

definition cluster_from_config ::
    "url_crate \<Rightarrow> cluster_config \<Rightarrow> string option \<Rightarrow> storage_error + cluster_db \<Rightarrow> bool \<Rightarrow>
     storage_error + (cluster_control \<times> cluster_db) option" where
  "cluster_from_config crate cfg token opened client_builds =
     (if ccf_role cfg = ''off'' then Inr None
      else if ccf_role cfg \<notin> {''owner'', ''replica'', ''consensus''} \<or> ccf_request_timeout cfg = 0 \<or> ccf_sync_interval cfg = 0
      then Inl unavailable
      else and_then (ok_or unavailable (case token of None \<Rightarrow> None
               | Some t \<Rightarrow> if length (utf8 t) \<ge> 32 then Some t else None)) (\<lambda>token.
        if length (ccf_replica_urls cfg) > 24 then Inl unavailable
        else and_then (if ccf_role cfg = ''consensus''
                then and_then (private_origin crate (ccf_authority_url cfg)) (\<lambda>u. Inr (Some u)) else Inr None) (\<lambda>authority.
          and_then (private_origin crate (if authority \<noteq> None then ccf_authority_url cfg else ccf_peer_url cfg)) (\<lambda>peer.
            if ccf_role cfg = ''replica'' \<and> ccf_replica_urls cfg \<noteq> [] then Inl unavailable
            else and_then (cluster_replicas crate cfg peer) (\<lambda>replicas.
              and_then opened (\<lambda>db.
                if \<not> client_builds then Inl unavailable
                else let c = \<lparr>cc_peer = peer, cc_replicas = replicas, cc_token = token, cc_owner = ccf_role cfg = ''owner'',
                              cc_authority = authority\<rparr>
                  in and_then (if cc_owner c then cluster_check db else Inr ()) (\<lambda>_. Inr (Some (c, db)))))))))"

section \<open>Answers of other nodes\<close>

definition max_response :: nat where
  "max_response = 16 * 1024 * 1024"

text \<open>The body in its chunks, of which one may fail.\<close>

fun read_answer :: "bytes \<Rightarrow> (unit + bytes) list \<Rightarrow> storage_error + bytes" where
  "read_answer acc [] = Inr acc"
| "read_answer acc (Inl _ # _) = Inl unavailable"
| "read_answer acc (Inr chunk # rest) =
     (if length acc + length chunk > max_response then Inl unavailable else read_answer (acc @ chunk) rest)"

text \<open>A request that got no answer, or the status and the body of the one it got.\<close>

type_synonym node_answer = "(nat \<times> (unit + bytes) list) option"

definition answer_body :: "node_answer \<Rightarrow> storage_error + bytes" where
  "answer_body answer =
     (case answer of
        None \<Rightarrow> Inl unavailable
      | Some (status, body) \<Rightarrow> if status < 200 \<or> 300 \<le> status then Inl unavailable else read_answer [] body)"

definition remote_to :: "(bytes \<Rightarrow> 'a option) \<Rightarrow> node_answer \<Rightarrow> storage_error + 'a" where
  "remote_to from_json answer = and_then (answer_body answer) (\<lambda>bytes. ok_or unavailable (from_json bytes))"

text \<open>The answer of the database of a cluster by consensus; \<open>JNum\<close> is an integer of 64 bits, signed or not.\<close>

datatype answer_value =
    JNil | JTruth bool | JNum int | JReal | JText string | JArray "answer_value list" | JObject "(string \<times> answer_value) list"

fun answer_field :: "string \<Rightarrow> answer_value \<Rightarrow> answer_value option" where
  "answer_field k (JObject entries) = map_of entries k"
| "answer_field k _ = None"

definition failed_result :: "answer_value \<Rightarrow> bool" where
  "failed_result r \<longleftrightarrow>
     (case r of JObject _ \<Rightarrow> False | _ \<Rightarrow> True) \<or> answer_field ''error'' r \<noteq> None \<or> answer_field ''error_v2'' r \<noteq> None"

definition authority_request ::
    "(bytes \<Rightarrow> answer_value option) \<Rightarrow> cluster_control \<Rightarrow> nat \<Rightarrow> node_answer \<Rightarrow> storage_error + answer_value list" where
  "authority_request from_json c expected answer =
     (if cc_authority c = None then Inl unavailable
      else and_then (remote_to from_json answer) (\<lambda>body.
        case answer_field ''results'' body of
          Some (JArray results) \<Rightarrow>
            if answer_field ''error'' body \<noteq> None \<or> answer_field ''error_v2'' body \<noteq> None \<or> length results \<noteq> expected \<or>
               list_ex failed_result results
            then Inl unavailable else Inr results
        | _ \<Rightarrow> Inl unavailable))"

definition rows_affected :: "answer_value \<Rightarrow> storage_error + nat" where
  "rows_affected r =
     (case answer_field ''rows_affected'' r of
        None \<Rightarrow> Inr 0
      | Some v \<Rightarrow> (case v of JNum n \<Rightarrow> if 0 \<le> n then Inr (nat n) else Inl unavailable | _ \<Rightarrow> Inl unavailable))"

text \<open>The statements of a write and one more, which increments the revision.\<close>

definition consensus_write ::
    "(bytes \<Rightarrow> answer_value option) \<Rightarrow> cluster_control \<Rightarrow> nat \<Rightarrow> node_answer \<Rightarrow> storage_error + nat list" where
  "consensus_write from_json c n answer =
     and_then (authority_request from_json c (n + 1) answer) (\<lambda>results. collect_results rows_affected (take n results))"

definition consensus_query ::
    "(bytes \<Rightarrow> answer_value option) \<Rightarrow> cluster_control \<Rightarrow> node_answer \<Rightarrow> storage_error + answer_value list list" where
  "consensus_query from_json c answer =
     and_then (authority_request from_json c 1 answer) (\<lambda>results.
       case answer_field ''values'' (hd results) of
         None \<Rightarrow> Inr []
       | Some JNil \<Rightarrow> Inr []
       | Some (JArray rows) \<Rightarrow> collect_results (\<lambda>r. case r of JArray vs \<Rightarrow> Inr vs | _ \<Rightarrow> Inl unavailable) rows
       | Some _ \<Rightarrow> Inl unavailable)"

text \<open>\<open>set_pin_local\<close>: two statements, the pin and the marker.\<close>

definition consensus_set_pin ::
    "(bytes \<Rightarrow> answer_value option) \<Rightarrow> cluster_control \<Rightarrow> bool \<Rightarrow> nat \<Rightarrow> node_answer \<Rightarrow> storage_error + unit" where
  "consensus_set_pin from_json c enabled maximum answer =
     and_then (consensus_write from_json c 2 answer) (\<lambda>rows.
       if enabled \<and> hd rows = 0 then Inl (AlwaysJoinLimitReached maximum) else Inr ())"

section \<open>Clients of other nodes and of repair providers\<close>

definition base_url_of :: "url_crate \<Rightarrow> string \<Rightarrow> string + url" where
  "base_url_of crate text =
     and_then (url_parse crate text) (\<lambda>u.
       if url_scheme u \<notin> {''http'', ''https''} \<or> url_opaque u \<or> url_query u \<noteq> None \<or> url_fragment u \<noteq> None
       then Inl ''must be an HTTP(S) base URL without query or fragment''
       else if url_path u \<noteq> [] \<and> last (url_path u) = CHR ''/'' then Inr u
       else Inr (url_set_path crate u (url_path u @ ''/'')))"

datatype peer_config_error = MissingToken | InvalidLimits | InvalidPeerUrl string string | PeerHttpClient

record peer_node_config =
  pnc_name :: string
  pnc_base_url :: string

record peer_config =
  pcf_shared_token :: "string option"
  pcf_nodes :: "peer_node_config list"
  pcf_connect_timeout :: nat
  pcf_request_timeout :: nat
  pcf_delegate_timeout :: nat
  pcf_max_inflight :: nat

record base_node =
  bn_name :: string
  bn_url :: url

record peer_client =
  pcl_nodes :: "base_node list"
  pcl_token :: string
  pcl_request_timeout :: nat
  pcl_delegate_timeout :: nat
  pcl_permits :: nat

definition parse_node :: "url_crate \<Rightarrow> peer_node_config \<Rightarrow> peer_config_error + base_node" where
  "parse_node crate n =
     and_then (map_err (InvalidPeerUrl (pnc_name n)) (base_url_of crate (pnc_base_url n))) (\<lambda>u.
       Inr \<lparr>bn_name = pnc_name n, bn_url = u\<rparr>)"

definition peer_from_config :: "url_crate \<Rightarrow> peer_config \<Rightarrow> bool \<Rightarrow> peer_config_error + peer_client option" where
  "peer_from_config crate cfg client_builds =
     (if pcf_nodes cfg = [] then Inr None
      else if pcf_max_inflight cfg = 0 \<or> pcf_delegate_timeout cfg = 0 \<or> pcf_request_timeout cfg = 0 then Inl InvalidLimits
      else and_then (ok_or MissingToken (case pcf_shared_token cfg of None \<Rightarrow> None
               | Some t \<Rightarrow> if t = [] then None else Some t)) (\<lambda>token.
        and_then (collect_results (parse_node crate) (pcf_nodes cfg)) (\<lambda>nodes.
          if \<not> client_builds then Inl PeerHttpClient
          else Inr (Some \<lparr>pcl_nodes = nodes, pcl_token = token, pcl_request_timeout = pcf_request_timeout cfg,
                          pcl_delegate_timeout = pcf_delegate_timeout cfg, pcl_permits = pcf_max_inflight cfg\<rparr>))))"

datatype repair_config_error = InvalidBounds | InvalidNames | InvalidProviderUrl string string | RepairHttpClient

record repair_provider_config =
  rpc_name :: string
  rpc_base_url :: string
  rpc_kind :: provider_kind

record repair_config =
  rcf_providers :: "repair_provider_config list"
  rcf_request_timeout :: nat
  rcf_fast_return_wait :: nat
  rcf_foreground_wait :: nat
  rcf_max_inflight :: nat
  rcf_max_response_bytes :: nat
  rcf_failure_threshold :: nat
  rcf_open_duration :: nat
  rcf_refresh_after :: nat
  rcf_partial_retry_after :: nat
  rcf_failure_retry_after :: nat

record repair_provider =
  rpr_name :: string
  rpr_url :: url
  rpr_kind :: provider_kind
  rpr_breaker :: breaker
  rpr_circuit :: circuit_state

record repair_client =
  rcl_providers :: "repair_provider list"
  rcl_request_timeout :: nat
  rcl_max_response_bytes :: nat
  rcl_permits :: nat

definition parse_provider ::
    "url_crate \<Rightarrow> nat \<Rightarrow> nat \<Rightarrow> repair_provider_config \<Rightarrow> repair_config_error + repair_provider" where
  "parse_provider crate threshold duration p =
     and_then (map_err (InvalidProviderUrl (rpc_name p)) (base_url_of crate (rpc_base_url p))) (\<lambda>u.
       Inr \<lparr>rpr_name = rpc_name p, rpr_url = u, rpr_kind = rpc_kind p, rpr_breaker = new_breaker threshold duration,
            rpr_circuit = closed_circuit\<rparr>)"

fun names_valid :: "string set \<Rightarrow> repair_provider_config list \<Rightarrow> bool" where
  "names_valid names [] = True"
| "names_valid names (p # ps) = (rpc_name p \<noteq> [] \<and> rpc_name p \<notin> names \<and> names_valid (insert (rpc_name p) names) ps)"

definition repair_from_config :: "url_crate \<Rightarrow> repair_config \<Rightarrow> bool \<Rightarrow> repair_config_error + repair_client option" where
  "repair_from_config crate cfg client_builds =
     (if rcf_providers cfg = [] then Inr None
      else if rcf_max_inflight cfg = 0 \<or> rcf_max_response_bytes cfg = 0 \<or> rcf_request_timeout cfg = 0 \<or>
         rcf_fast_return_wait cfg = 0 \<or> rcf_foreground_wait cfg = 0 \<or>
         rcf_fast_return_wait cfg > rcf_foreground_wait cfg \<or> rcf_foreground_wait cfg > rcf_request_timeout cfg
      then Inl InvalidBounds
      else if \<not> names_valid {} (rcf_providers cfg) then Inl InvalidNames
      else and_then (collect_results (parse_provider crate (rcf_failure_threshold cfg) (rcf_open_duration cfg))
             (rcf_providers cfg)) (\<lambda>providers.
        if \<not> client_builds then Inl RepairHttpClient
        else Inr (Some \<lparr>rcl_providers = providers, rcl_request_timeout = rcf_request_timeout cfg,
                        rcl_max_response_bytes = rcf_max_response_bytes cfg, rcl_permits = rcf_max_inflight cfg\<rparr>)))"

record repair_coordinator =
  rco_client :: repair_client
  rco_foreground_wait :: nat
  rco_fast_return_wait :: nat
  rco_delays :: retry_delays

definition coordinator_from_config ::
    "url_crate \<Rightarrow> repair_config \<Rightarrow> bool \<Rightarrow> repair_config_error + repair_coordinator option" where
  "coordinator_from_config crate cfg client_builds =
     and_then (repair_from_config crate cfg client_builds) (\<lambda>client.
       Inr (map_option (\<lambda>cl. \<lparr>rco_client = cl, rco_foreground_wait = rcf_foreground_wait cfg,
           rco_fast_return_wait = rcf_fast_return_wait cfg,
           rco_delays = \<lparr>success_retry = rcf_refresh_after cfg, partial_retry = rcf_partial_retry_after cfg,
             failure_retry = rcf_failure_retry_after cfg\<rparr>\<rparr>) client))"

text \<open>
  \<open>wait_foreground\<close>: the completion that is there; else the value when the channel first changes (or its
  sender ends), after \<open>first\<close> milliseconds, within one of the two waits.
\<close>

definition wait_foreground ::
    "repair_coordinator \<Rightarrow> repair_outcome option \<Rightarrow> (nat \<times> repair_outcome option) option \<Rightarrow> repair_outcome option" where
  "wait_foreground co completed first =
     (case completed of
        Some c \<Rightarrow> Some c
      | None \<Rightarrow>
          (case first of
             None \<Rightarrow> None
           | Some (t, v) \<Rightarrow>
               if t \<le> rco_fast_return_wait co then v
               else if t - rco_fast_return_wait co \<le> rco_foreground_wait co - rco_fast_return_wait co then v
               else None))"

section \<open>Private addresses\<close>

text \<open>The ranges: 10/8, 172.16/12, 192.168/16, 127/8, 100.64/10, and ::1 and fc00::/7.\<close>

definition v4_number :: "nat \<Rightarrow> nat \<Rightarrow> nat \<Rightarrow> nat \<Rightarrow> nat" where
  "v4_number a b c d = ((a * 256 + b) * 256 + c) * 256 + d"

definition in_private_range :: "ip_addr \<Rightarrow> bool" where
  "in_private_range ip \<longleftrightarrow>
     (case ip of
        V4 a b c d \<Rightarrow>
          (let n = v4_number a b c d
           in n div 2 ^ 24 = 10 \<or> n div 2 ^ 20 = 172 * 16 + 1 \<or> n div 2 ^ 16 = 192 * 256 + 168 \<or>
              n div 2 ^ 24 = 127 \<or> n div 2 ^ 22 = 100 * 4 + 1)
      | V6 gs \<Rightarrow> gs = [0, 0, 0, 0, 0, 0, 0, 1] \<or> 0xfc00 \<le> hd gs \<and> hd gs \<le> 0xfdff)"

lemma prefix7_word:
  assumes "n < 65536"
  shows "(word_of_nat n :: 16 word) AND 0xfe00 = 0xfc00 \<longleftrightarrow> 0xfc00 \<le> n \<and> n \<le> 0xfdff"
proof -
  let ?x = "word_of_nat n :: 16 word"
  have m: "(0xfe00 :: 16 word) = push_bit 9 (mask 7)" by (simp add: mask_eq_exp_minus_1)
  have "?x AND push_bit 9 (mask 7) = push_bit 9 (drop_bit 9 ?x)"
    by (intro bit_word_eqI) (auto simp: bit_simps)
  then have "?x AND 0xfe00 = push_bit 9 (drop_bit 9 ?x)" by (simp only: m)
  moreover have "unat (push_bit 9 (drop_bit 9 ?x)) = n div 512 * 512"
  proof -
    have x: "unat ?x = n" using assms by (simp add: unat_of_nat)
    have "unat (drop_bit 9 ?x) = n div 512" unfolding unat_drop_bit_eq x by (simp add: drop_bit_eq_div)
    then have "word_of_nat (unat (drop_bit 9 ?x)) = (word_of_nat (n div 512) :: 16 word)" by (simp only:)
    then have "drop_bit 9 ?x = word_of_nat (n div 512)" unfolding of_nat_unat ucast_id .
    then have "push_bit 9 (drop_bit 9 ?x) = word_of_nat (push_bit 9 (n div 512))" by (simp only: push_bit_of_nat)
    then have "push_bit 9 (drop_bit 9 ?x) = word_of_nat (n div 512 * 512)" by (simp only: push_bit_eq_mult) simp
    moreover have "unat (word_of_nat m :: 16 word) = m" if "m < 65536" for m using that by (simp add: unat_of_nat)
    moreover have "n div 512 * 512 < 65536" using assms by linarith
    ultimately show ?thesis by (simp only:)
  qed
  moreover have "unat (0xfc00 :: 16 word) = 0xfc00" by simp
  ultimately have "?x AND 0xfe00 = 0xfc00 \<longleftrightarrow> n div 512 * 512 = 0xfc00" by (metis word_unat_eq_iff)
  also have "\<dots> \<longleftrightarrow> n div 512 = 126" by linarith
  also have "\<dots> \<longleftrightarrow> 0xfc00 \<le> n \<and> n \<le> 0xfdff" by auto
  finally show ?thesis .
qed

lemma read_number_bound: "read_number radix digits zero bound s = Some (n, rest) \<Longrightarrow> n \<le> bound"
  by (auto simp: read_number_def Let_def split: if_splits)

lemma read_octet_bound: "read_octet first s = Some (n, rest) \<Longrightarrow> n \<le> 255"
  by (auto simp: read_octet_def separated_def dest: read_number_bound split: if_splits list.splits)

lemma read_ipv4_bound:
  "read_ipv4 s = Some ((a, b, c, d), rest) \<Longrightarrow> a \<le> 255 \<and> b \<le> 255 \<and> c \<le> 255 \<and> d \<le> 255"
  by (auto simp: read_ipv4_def bind_eq_Some_conv dest: read_octet_bound)

lemma separated_ipv4_bound:
  "separated sep first read_ipv4 s = Some ((a, b, c, d), rest) \<Longrightarrow> a \<le> 255 \<and> b \<le> 255 \<and> c \<le> 255 \<and> d \<le> 255"
  by (auto simp: separated_def dest: read_ipv4_bound split: if_splits list.splits)

lemma separated_number_bound:
  "separated sep first (read_number radix digits zero bound) s = Some (n, rest) \<Longrightarrow> n \<le> bound"
  by (auto simp: separated_def dest: read_number_bound split: if_splits list.splits)

lemma read_groups_bound:
  "read_groups left first s = (gs, v4, rest) \<Longrightarrow> length gs \<le> left \<and> (\<forall>g \<in> set gs. g < 65536)"
proof (induction left first s arbitrary: gs v4 rest rule: read_groups.induct)
  case (2 left first s)
  show ?case
  proof (cases "if left \<ge> 1 then separated (CHR '':'') first read_ipv4 s else None")
    case (Some r)
    then obtain a b c d s' where r: "separated (CHR '':'') first read_ipv4 s = Some ((a, b, c, d), s')" "left \<ge> 1"
      by (cases r) (auto split: if_splits)
    then show ?thesis using "2.prems" separated_ipv4_bound [OF r(1)] by auto
  next
    case None
    show ?thesis
    proof (cases "separated (CHR '':'') first (read_number 16 4 True 65535) s")
      case None': None
      then show ?thesis using "2.prems" None by simp
    next
      case (Some r)
      obtain g s' where r: "r = (g, s')" by fastforce
      obtain gs' v' s'' where rest: "read_groups left False s' = (gs', v', s'')" by (cases "read_groups left False s'") auto
      have "length gs' \<le> left \<and> (\<forall>g \<in> set gs'. g < 65536)"
        by (rule "2.IH" [OF None Some [unfolded r] refl rest])
      then show ?thesis using "2.prems" None Some r rest separated_number_bound [OF Some [unfolded r]] by auto
    qed
  qed
qed simp

text \<open>An address has octets, or eight groups.\<close>

lemma parse_ip_bound:
  assumes "parse_ip s = Some ip"
  shows "(\<exists>a b c d. ip = V4 a b c d \<and> a \<le> 255 \<and> b \<le> 255 \<and> c \<le> 255 \<and> d \<le> 255) \<or>
    (\<exists>gs. ip = V6 gs \<and> length gs = 8 \<and> (\<forall>g \<in> set gs. g < 65536))"
proof (cases "read_ipv4 s")
  case (Some r)
  then obtain a b c d where "read_ipv4 s = Some ((a, b, c, d), [])" "ip = V4 a b c d"
    using assms by (cases r) (auto simp: parse_ip_def split: if_splits)
  then show ?thesis using read_ipv4_bound by blast
next
  case None
  then obtain gs where v6: "read_ipv6 s = Some (gs, [])" "ip = V6 gs"
    using assms by (auto simp: parse_ip_def split: option.splits if_splits)
  obtain head v4 s1 where h: "read_groups 8 True s = (head, v4, s1)" by (cases "read_groups 8 True s") auto
  note hb = read_groups_bound [OF h]
  show ?thesis
  proof (cases "length head = 8")
    case True
    then show ?thesis using v6 h hb by (auto simp: read_ipv6_def)
  next
    case False
    then obtain c1 c2 s2 tail v s3 where t: "read_groups (8 - (length head + 1)) True s2 = (tail, v, s3)"
      "gs = head @ replicate (8 - length head - length tail) 0 @ tail"
      using v6 h by (auto simp: read_ipv6_def split: if_splits list.splits prod.splits)
    then show ?thesis using v6(2) hb False read_groups_bound [OF t(1)] by auto
  qed
qed

lemma digits_unique:
  fixes a a' q q' m :: nat
  assumes "q < m" and "q' < m"
  shows "a * m + q = a' * m + q' \<longleftrightarrow> a = a' \<and> q = q'"
proof
  assume eq: "a * m + q = a' * m + q'"
  have "(a * m + q) div m = a" "(a * m + q) mod m = q" "(a' * m + q') div m = a'" "(a' * m + q') mod m = q'"
    using assms by simp_all
  then show "a = a' \<and> q = q'" by (simp add: eq)
qed simp

lemma private_ip_range:
  assumes "parse_ip s = Some ip"
  shows "private_ip ip \<longleftrightarrow> in_private_range ip"
  using parse_ip_bound [OF assms]
proof (elim disjE exE conjE)
  fix a b c d
  assume ip: "ip = V4 a b c d" and ok: "a \<le> 255" "b \<le> 255" "c \<le> 255" "d \<le> 255"
  define n where "n = v4_number a b c d"
  have n: "n div 2 ^ 24 = a" "n div 2 ^ 16 = a * 256 + b" "n div 2 ^ 20 = a * 16 + b div 16" "n div 2 ^ 22 = a * 4 + b div 64"
    unfolding n_def v4_number_def using ok by simp_all
  have "n div 2 ^ 20 = 172 * 16 + 1 \<longleftrightarrow> a = 172 \<and> b div 16 = 1"
    unfolding n(3) by (rule digits_unique) (use ok in auto)
  moreover have "b div 16 = 1 \<longleftrightarrow> 16 \<le> b \<and> b \<le> 31" by auto
  moreover have "n div 2 ^ 16 = 192 * 256 + 168 \<longleftrightarrow> a = 192 \<and> b = 168"
    unfolding n(2) by (rule digits_unique) (use ok in auto)
  moreover have "n div 2 ^ 22 = 100 * 4 + 1 \<longleftrightarrow> a = 100 \<and> b div 64 = 1"
    unfolding n(4) by (rule digits_unique) (use ok in auto)
  moreover have "b div 64 = 1 \<longleftrightarrow> 64 \<le> b \<and> b < 128" by auto
  moreover have "n div 16777216 = a" using n(1) by simp
  ultimately show ?thesis
    by (simp add: ip private_ip_def in_private_range_def v4_is_private_def n_def [symmetric] Let_def)
next
  fix gs :: "nat list"
  assume ip: "ip = V6 gs" "length gs = 8" "\<forall>g \<in> set gs. g < 65536"
  then have "hd gs < 65536" by (cases gs) auto
  then show ?thesis using prefix7_word ip(1) by (simp add: private_ip_def in_private_range_def)
qed

section \<open>Well-formed addresses\<close>

definition private_base :: "url \<Rightarrow> bool" where
  "private_base u \<longleftrightarrow>
     (\<exists>h ip. url_host u = Some h \<and> parse_ip (trim_brackets h) = Some ip \<and> in_private_range ip) \<and>
     url_scheme u \<in> {''http'', ''https''} \<and> url_username u = [] \<and> url_password u = None \<and> url_path u = ''/'' \<and>
     url_query u = None \<and> url_fragment u = None"

lemma private_origin_ok: "private_origin crate value = Inr u \<Longrightarrow> private_base u \<and> url_parse crate value = Inr u"
  by (auto simp: private_origin_def private_base_def Let_def bind_eq_Some_conv private_ip_range
      split: if_splits option.splits)

lemma parse_replicas_ok:
  "parse_replicas crate vs acc = Inr us \<Longrightarrow> distinct acc \<Longrightarrow> \<forall>u \<in> set acc. private_base u \<Longrightarrow>
     distinct us \<and> length us = length acc + length vs \<and> (\<forall>u \<in> set us. private_base u)"
proof (induction crate vs acc rule: parse_replicas.induct)
  case (2 crate v rest acc)
  then obtain u where u: "private_origin crate v = Inr u" "u \<notin> set acc" "parse_replicas crate rest (acc @ [u]) = Inr us"
    by (auto split: if_splits)
  then show ?case using "2.IH" [OF u(2,3)] "2.prems" private_origin_ok [OF u(1)] by auto
qed simp


text \<open>
  What the code relies on when it replaces a path by itself and a slash: that only the path changes, as the
  crate documents for a path that needs no encoding, being the path of a URL.
\<close>

definition set_path_ok :: "url_crate \<Rightarrow> bool" where
  "set_path_ok crate \<longleftrightarrow> (\<forall>text u. url_parse crate text = Inr u \<and> \<not> url_opaque u \<longrightarrow>
     url_set_path crate u (url_path u @ ''/'') = u\<lparr>url_path := url_path u @ ''/''\<rparr>)"

definition base_url_ok :: "url \<Rightarrow> bool" where
  "base_url_ok u \<longleftrightarrow> url_scheme u \<in> {''http'', ''https''} \<and> \<not> url_opaque u \<and> url_query u = None \<and> url_fragment u = None \<and>
     url_path u \<noteq> [] \<and> last (url_path u) = CHR ''/''"

lemma base_url_of_ok: "set_path_ok crate \<Longrightarrow> base_url_of crate text = Inr u \<Longrightarrow> base_url_ok u"
proof -
  assume ok: "set_path_ok crate" and base: "base_url_of crate text = Inr u"
  obtain v where v: "url_parse crate text = Inr v" using base by (cases "url_parse crate text") (auto simp: base_url_of_def)
  then have parts: "url_scheme v \<in> {''http'', ''https''}" "\<not> url_opaque v" "url_query v = None" "url_fragment v = None" and
    u: "u = (if url_path v \<noteq> [] \<and> last (url_path v) = CHR ''/'' then v else url_set_path crate v (url_path v @ ''/''))"
    using base by (auto simp: base_url_of_def split: if_splits)
  have "url_set_path crate v (url_path v @ ''/'') = v\<lparr>url_path := url_path v @ ''/''\<rparr>"
    using ok v parts(2) unfolding set_path_ok_def by blast
  then show ?thesis using parts u by (auto simp: base_url_ok_def)
qed

lemma names_valid_iff:
  "names_valid names ps \<longleftrightarrow> [] \<notin> rpc_name ` set ps \<and> names \<inter> rpc_name ` set ps = {} \<and> distinct (map rpc_name ps)"
  by (induction names ps rule: names_valid.induct) auto

lemma collect_parsed:
  assumes "collect_results f xs = Inr ys" and "\<And>x y. f x = Inr y \<Longrightarrow> g y = h x \<and> P y"
  shows "map g ys = map h xs \<and> (\<forall>y \<in> set ys. P y)"
  using collect_results_Inr [OF assms(1)] by (induction rule: list_all2_induct) (auto dest: assms(2))

definition peer_client_ok :: "peer_config \<Rightarrow> peer_client \<Rightarrow> bool" where
  "peer_client_ok cfg p \<longleftrightarrow>
     map bn_name (pcl_nodes p) = map pnc_name (pcf_nodes cfg) \<and> pcl_nodes p \<noteq> [] \<and>
     (\<forall>n \<in> set (pcl_nodes p). base_url_ok (bn_url n)) \<and> pcf_shared_token cfg = Some (pcl_token p) \<and> pcl_token p \<noteq> [] \<and>
     0 < pcl_request_timeout p \<and> 0 < pcl_delegate_timeout p \<and> 0 < pcl_permits p"

definition provider_ok :: "repair_provider \<Rightarrow> bool" where
  "provider_ok v \<longleftrightarrow> base_url_ok (rpr_url v) \<and> rpr_circuit v = closed_circuit \<and> 0 < failure_threshold (rpr_breaker v)"

definition coordinator_ok :: "repair_config \<Rightarrow> repair_coordinator \<Rightarrow> bool" where
  "coordinator_ok cfg r \<longleftrightarrow>
     (let names = map rpr_name (rcl_providers (rco_client r))
      in names = map rpc_name (rcf_providers cfg) \<and> distinct names \<and> [] \<notin> set names) \<and>
     (\<forall>v \<in> set (rcl_providers (rco_client r)). provider_ok v) \<and>
     0 < rco_fast_return_wait r \<and> rco_fast_return_wait r \<le> rco_foreground_wait r \<and>
     rco_foreground_wait r \<le> rcl_request_timeout (rco_client r) \<and>
     0 < rcl_permits (rco_client r) \<and> 0 < rcl_max_response_bytes (rco_client r)"

text \<open>
  The clients a node starts with are well formed. The peers are those of the configuration, in its order,
  with a token that is not empty and bounds that are not zero; the repair providers have names of their own,
  circuits that are closed and open after at least one failure, and waits that lie within each other; and every
  base URL is one that paths can be joined to.
\<close>
theorem clients_well_formed:
  assumes "set_path_ok crate" and "peer_from_config crate pc builds = Inr peers"
    and "coordinator_from_config crate rc builds = Inr repairs"
  shows "(\<forall>p \<in> set_option peers. peer_client_ok pc p) \<and> (\<forall>r \<in> set_option repairs. coordinator_ok rc r) \<and>
    (peers = None \<longleftrightarrow> pcf_nodes pc = []) \<and> (repairs = None \<longleftrightarrow> rcf_providers rc = [])"
proof -
  have "peer_client_ok pc p" if eq: "peers = Some p" for p
  proof -
    obtain nodes where n: "collect_results (parse_node crate) (pcf_nodes pc) = Inr nodes" and p: "pcl_nodes p = nodes"
      "pcf_nodes pc \<noteq> []" "pcf_shared_token pc = Some (pcl_token p)" "pcl_token p \<noteq> []"
      "0 < pcl_request_timeout p" "0 < pcl_delegate_timeout p" "0 < pcl_permits p"
      using assms(2) [unfolded eq] by (auto simp: peer_from_config_def split: if_splits option.splits)
    have "map bn_name nodes = map pnc_name (pcf_nodes pc) \<and> (\<forall>n \<in> set nodes. base_url_ok (bn_url n))"
      by (rule collect_parsed [OF n]) (use base_url_of_ok [OF assms(1)] in \<open>auto simp: parse_node_def\<close>)
    then show ?thesis using p by (auto simp: peer_client_ok_def)
  qed
  moreover have "coordinator_ok rc r" if eq: "repairs = Some r" for r
  proof -
    obtain providers where v: "collect_results (parse_provider crate (rcf_failure_threshold rc) (rcf_open_duration rc))
        (rcf_providers rc) = Inr providers" and r: "rcl_providers (rco_client r) = providers"
      "names_valid {} (rcf_providers rc)" "0 < rco_fast_return_wait r" "rco_fast_return_wait r \<le> rco_foreground_wait r"
      "rco_foreground_wait r \<le> rcl_request_timeout (rco_client r)" "0 < rcl_permits (rco_client r)"
      "0 < rcl_max_response_bytes (rco_client r)"
      using assms(3) [unfolded eq] by (auto simp: coordinator_from_config_def repair_from_config_def split: if_splits)
    have "map rpr_name providers = map rpc_name (rcf_providers rc) \<and> (\<forall>v \<in> set providers. provider_ok v)"
      by (rule collect_parsed [OF v])
        (use base_url_of_ok [OF assms(1)] in \<open>auto simp: parse_provider_def provider_ok_def new_breaker_def\<close>)
    then show ?thesis using r by (auto simp: coordinator_ok_def names_valid_iff Let_def)
  qed
  moreover have "(peers = None \<longleftrightarrow> pcf_nodes pc = []) \<and> (repairs = None \<longleftrightarrow> rcf_providers rc = [])"
    using assms(2,3) by (auto simp: peer_from_config_def coordinator_from_config_def repair_from_config_def split: if_splits)
  ultimately show ?thesis by auto
qed

text \<open>
  C22: An answer of the database of a cluster by consensus counts only when it is a success of at most 16 MiB
  that reports, without an error anywhere, one result for each statement asked for; a write then yields the
  numbers of rows of its own statements, without that of the revision, and a pin that affected no row is the
  error of the limit.
\<close>
theorem consensus_answers_exact:
  assumes "consensus_write from_json c n answer = Inr rows"
  shows "length rows = n \<and>
    (\<exists>status body bytes results answered. answer = Some (status, body) \<and> 200 \<le> status \<and> status < 300 \<and>
       (\<forall>b \<in> set body. \<not> isl b) \<and> bytes = concat (map projr body) \<and> length bytes \<le> max_response \<and>
       from_json bytes = Some answered \<and> answer_field ''results'' answered = Some (JArray results) \<and>
       answer_field ''error'' answered = None \<and> answer_field ''error_v2'' answered = None \<and> length results = Suc n \<and>
       (\<forall>r \<in> set results. \<not> failed_result r) \<and> list_all2 (\<lambda>r k. rows_affected r = Inr k) (take n results) rows) \<and>
    (n = 2 \<longrightarrow> consensus_set_pin from_json c enabled maximum answer =
       (if enabled \<and> hd rows = 0 then Inl (AlwaysJoinLimitReached maximum) else Inr ()))"
proof -
  have body: "read_answer acc body = Inr bytes \<Longrightarrow> length acc \<le> max_response \<Longrightarrow>
      (\<forall>b \<in> set body. \<not> isl b) \<and> bytes = acc @ concat (map projr body) \<and> length bytes \<le> max_response" for acc body bytes
    by (induction acc body rule: read_answer.induct) (auto split: if_splits)
  obtain results where a: "authority_request from_json c (n + 1) answer = Inr results"
    and k: "collect_results rows_affected (take n results) = Inr rows"
    using assms by (auto simp: consensus_write_def)
  have two: "n = 2 \<longrightarrow> consensus_set_pin from_json c enabled maximum answer =
       (if enabled \<and> hd rows = 0 then Inl (AlwaysJoinLimitReached maximum) else Inr ())"
    using assms by (auto simp: consensus_set_pin_def)
  obtain answered where body': "remote_to from_json answer = Inr answered" and
    f: "(case answer_field ''results'' answered of
          Some (JArray results) \<Rightarrow>
            if answer_field ''error'' answered \<noteq> None \<or> answer_field ''error_v2'' answered \<noteq> None \<or> length results \<noteq> Suc n \<or>
               list_ex failed_result results
            then Inl unavailable else Inr results
        | _ \<Rightarrow> Inl unavailable) = Inr results"
    using a by (auto simp: authority_request_def split: if_splits)
  obtain v where "answer_field ''results'' answered = Some v" using f by (cases "answer_field ''results'' answered") auto
  then have "answer_field ''results'' answered = Some (JArray results)" "answer_field ''error'' answered = None"
    "answer_field ''error_v2'' answered = None" "length results = Suc n" "\<forall>r \<in> set results. \<not> failed_result r"
    using f by (cases v; simp add: list_ex_iff split: if_splits)+
  note r = body' this
  obtain status chunks bytes where s: "answer = Some (status, chunks)" "200 \<le> status" "status < 300"
    "read_answer [] chunks = Inr bytes" "from_json bytes = Some answered"
    using r(1) by (auto simp: remote_to_def answer_body_def split: if_splits option.splits)
  have all2: "list_all2 (\<lambda>r k. rows_affected r = Inr k) (take n results) rows" by (rule collect_results_Inr [OF k])
  then have len: "length rows = n" using r(5) by (auto dest: list_all2_lengthD)
  have b: "\<forall>b \<in> set chunks. \<not> isl b" "bytes = concat (map projr chunks)" "length bytes \<le> max_response"
    using body [OF s(4)] by auto
  show ?thesis
    by (intro conjI exI [of _ status] exI [of _ chunks] exI [of _ bytes] exI [of _ results] exI [of _ answered])
      (fact len two s b r all2)+
qed

section \<open>Witnesses\<close>

text \<open>A crate that knows two texts, only to evaluate the definitions.\<close>

definition ex_url :: "string \<Rightarrow> string \<Rightarrow> url" where
  "ex_url host path = \<lparr>url_scheme = ''http'', url_username = [], url_password = None, url_host = Some host,
     url_port = Some 80, url_path = path, url_query = None, url_fragment = None, url_opaque = False\<rparr>"

definition ex_crate :: url_crate where
  "ex_crate = \<lparr>url_parse = (\<lambda>t. if t = ''a'' then Inr (ex_url ''10.0.0.1'' ''/'')
       else if t = ''b'' then Inr (ex_url ''[fd00::2]'' ''/'')
       else if t = ''c'' then Inr (ex_url ''example.com'' ''/base'') else Inl ''bad''),
     url_set_path = (\<lambda>u p. u\<lparr>url_path := p\<rparr>)\<rparr>"

definition ex_owner_config :: cluster_config where
  "ex_owner_config = \<lparr>ccf_role = ''owner'', ccf_peer_url = ''a'', ccf_replica_urls = [''a'', ''b''], ccf_authority_url = [],
     ccf_request_timeout = 3000, ccf_sync_interval = 5000\<rparr>"

definition ex_node_token :: string where
  "ex_node_token = replicate 32 (CHR ''t'')"


definition ex_peers :: peer_config where
  "ex_peers = \<lparr>pcf_shared_token = Some ''s'', pcf_nodes = [\<lparr>pnc_name = ''n'', pnc_base_url = ''c''\<rparr>], pcf_connect_timeout = 1000,
     pcf_request_timeout = 3000, pcf_delegate_timeout = 5000, pcf_max_inflight = 32\<rparr>"

definition ex_repairs :: repair_config where
  "ex_repairs = \<lparr>rcf_providers = [\<lparr>rpc_name = ''r'', rpc_base_url = ''c'', rpc_kind = Rustlog\<rparr>], rcf_request_timeout = 10000,
     rcf_fast_return_wait = 350, rcf_foreground_wait = 1500, rcf_max_inflight = 16, rcf_max_response_bytes = 4194304,
     rcf_failure_threshold = 5, rcf_open_duration = 30000, rcf_refresh_after = 21600000, rcf_partial_retry_after = 300000,
     rcf_failure_retry_after = 60000\<rparr>"

theorem clients_well_formed_witness:
  "\<exists>p r. peer_from_config ex_crate ex_peers True = Inr (Some p) \<and> peer_client_ok ex_peers p \<and>
    coordinator_from_config ex_crate ex_repairs True = Inr (Some r) \<and> coordinator_ok ex_repairs r"
proof -
  let ?p = "peer_from_config ex_crate ex_peers True" and ?r = "coordinator_from_config ex_crate ex_repairs True"
  have "\<not> isl ?p" "projr ?p \<noteq> None" "\<not> isl ?r" "projr ?r \<noteq> None" by code_simp+
  then obtain p r where e: "?p = Inr (Some p)" "?r = Inr (Some r)" by (cases ?p; cases ?r) auto
  have "set_path_ok ex_crate" by (simp add: set_path_ok_def ex_crate_def)
  from clients_well_formed [OF this e] show ?thesis using e by auto
qed

definition ex_control_node :: cluster_control where
  "ex_control_node = \<lparr>cc_peer = ex_url ''10.0.0.1'' ''/'', cc_replicas = [], cc_token = ex_node_token, cc_owner = False,
     cc_authority = Some (ex_url ''10.0.0.1'' ''/'')\<rparr>"

definition ex_answer_json :: "bytes \<Rightarrow> answer_value option" where
  "ex_answer_json b = Some (JObject [(''results'', JArray [JObject [(''rows_affected'', JNum 0)], JObject [], JObject []])])"

theorem consensus_answers_exact_witness:
  "consensus_write ex_answer_json ex_control_node 2 (Some (200, [Inr [1]])) = Inr [0, 0] \<and>
   consensus_set_pin ex_answer_json ex_control_node True 7 (Some (200, [Inr [1]])) = Inl (AlwaysJoinLimitReached 7)"
proof -
  have w: "consensus_write ex_answer_json ex_control_node 2 (Some (200, [Inr [1]])) = Inr [0, 0]" by code_simp
  from consensus_answers_exact [OF w, of True 7] show ?thesis using w by simp
qed

end
