(* ===== verification/Startup.thy ===== *)
theory Startup
  imports IngestRuntime ClusterPolicy ResponseCache AdminChannels NodeConfig
begin

text \<open>
  How a node starts and stops, \<^verbatim>\<open>src/main.rs\<close>, \<^verbatim>\<open>run\<close> of \<^verbatim>\<open>src/web/mod.rs\<close> and \<^verbatim>\<open>src/web/health.rs\<close>: the
  checks of the configuration, the stores as they are brought in line before anything is served or ingested, the
  synchronization with the other nodes, the supervision of the tasks, and the two health checks. The opened
  stores are given: a node that uses consensus, whose database is not local, is not part of this model. Every
  error ends the process. Durations are nanoseconds, except those of \<open>NodeConfig\<close>.
\<close>

section \<open>The configuration of the parts\<close>

record cache_placement_config =
  pl_local_node :: string
  pl_members :: "string list"
  pl_copies :: nat

definition placement_from_config :: "cache_placement_config \<Rightarrow> unit + cache_placement option" where
  "placement_from_config c =
     (if pl_members c = [] then Inr None
      else case new_placement (pl_local_node c) (pl_members c) (pl_copies c) of
             None \<Rightarrow> Inl () | Some p \<Rightarrow> Inr (Some p))"

record ingest_config =
  ic_enabled :: bool
  ic_raw_firehoses :: "string list"
  ic_origin :: string
  ic_batch_messages :: nat
  ic_batch_max_delay :: nat
  ic_reconnect_min_delay :: nat
  ic_reconnect_max_delay :: nat
  ic_max_open_channels :: nat
  ic_max_open_bytes :: nat
  ic_idle_seal_after :: nat
  ic_max_open_age :: nat
  ic_runtime :: ingest_runtime_config

text \<open>\<open>new_cache\<close> holds the bounds of the response cache.\<close>

record node_config =
  nc_placement :: cache_placement_config
  nc_cluster_role :: string
  nc_always_join :: "string list"
  nc_admin :: admin_config
  nc_block_messages :: nat
  nc_ingest :: ingest_config
  nc_budget :: storage_budget
  nc_peer :: peer_config
  nc_repair :: repair_config
  nc_max_inflight_requests :: nat
  nc_cache_enabled :: bool
  nc_cache :: cache_config

datatype bind_error =
    InvalidClusterState
  | InvalidPeerConfig peer_config_error
  | InvalidRepairConfig repair_config_error
  | InvalidAdminConfig admin_config_error
  | InvalidResponseCacheConfig cache_config_error

text \<open>The ways the process ends before it serves anything.\<close>

datatype startup_error =
    InvalidPlacement
  | PlacementWithoutControl
  | TooManyBootstrapChannels nat
  | InvalidBootstrapChannel string
  | BootstrapFailed storage_error
  | AlwaysJoinUnreadable storage_error
  | AlwaysJoinNotSynchronized store_error
  | IgnoredUnreadable storage_error
  | IgnoredNotSynchronized store_error
  | ZeroIngestBounds
  | InvalidIngest ingest_error
  | InvalidRawFirehose raw_firehose_error
  | InvalidStorageBudget storage_budget_error
  | InvalidRuntime ingest_runtime_error
  | WebFailed bind_error

section \<open>The stores\<close>

definition bootstrap_channels :: "string list \<Rightarrow> string list" where
  "bootstrap_channels chs = remdups_adj (sort (map to_ascii_lowercase chs))"

definition control_of :: "policy_app \<Rightarrow> control_store" where
  "control_of app = \<lparr>cs_cluster = pa_cluster app, cs_db = pa_control app\<rparr>"

definition with_control :: "control_store \<Rightarrow> policy_app \<Rightarrow> policy_app" where
  "with_control cs app = app\<lparr>pa_cluster := cs_cluster cs, pa_control := cs_db cs\<rparr>"

definition sync_blocks ::
    "(sqlite_db \<Rightarrow> (store_error + unit) \<times> sqlite_db) \<Rightarrow> (store_error \<Rightarrow> startup_error) \<Rightarrow> policy_app
      \<Rightarrow> (startup_error + unit) \<times> policy_app" where
  "sync_blocks f err app = (case f (pa_db app) of (res, db) \<Rightarrow> (map_err err res, app\<lparr>pa_db := db\<rparr>))"

text \<open>\<open>order\<close> is the order in which the set of ignored channels is listed.\<close>

definition prepare_stores ::
    "(string \<Rightarrow> string + unit) \<Rightarrow> (string set \<Rightarrow> string list) \<Rightarrow> int \<Rightarrow> node_config \<Rightarrow> policy_app
      \<Rightarrow> (startup_error + unit) \<times> policy_app" where
  "prepare_stores validate_login order now cfg app =
     (let chs = bootstrap_channels (nc_always_join cfg)
      in if length chs > max_always_join_channels (nc_admin cfg) then (Inl (TooManyBootstrapChannels (length chs)), app)
         else case find (\<lambda>ch. isl (validate_login ch)) chs of
           Some ch \<Rightarrow> (Inl (InvalidBootstrapChannel ch), app)
         | None \<Rightarrow>
             then_st (case bootstrap_always_join_channels now chs (control_of app) of
                        (res, cs) \<Rightarrow> (map_err BootstrapFailed res, with_control cs app)) (\<lambda>_ app.
             then_st (map_err AlwaysJoinUnreadable (get_always_join_channels (control_of app)), app) (\<lambda>pins app.
             then_st (sync_blocks (sync_always_join_channels pins) AlwaysJoinNotSynchronized app) (\<lambda>_ app.
             then_st (map_err IgnoredUnreadable (get_ignored_channels (control_of app)), app) (\<lambda>ignored app.
             sync_blocks (sync_blocked_channels (order ignored)) IgnoredNotSynchronized app)))))"

section \<open>The ingest\<close>

definition duration_millis :: "nat \<Rightarrow> nat" where
  "duration_millis d = min (d div 1000000) u64_max"

definition open_limits :: "node_config \<Rightarrow> open_block_limits" where
  "open_limits cfg =
     \<lparr>ol_block_messages = nc_block_messages cfg, max_open_channels = ic_max_open_channels (nc_ingest cfg),
      max_open_bytes = ic_max_open_bytes (nc_ingest cfg),
      idle_seal_after_ms = duration_millis (ic_idle_seal_after (nc_ingest cfg)),
      max_open_age_ms = duration_millis (ic_max_open_age (nc_ingest cfg))\<rparr>"

definition source_config :: "ingest_config \<Rightarrow> nat \<Rightarrow> string \<Rightarrow> raw_firehose_config" where
  "source_config ic i address =
     \<lparr>fc_source_id = ''raw-firehose-'' @ show_nat i, fc_url = address, fc_origin = ic_origin ic,
      fc_batch_messages = ic_batch_messages ic, fc_batch_max_delay = ic_batch_max_delay ic,
      reconnect_min_delay = ic_reconnect_min_delay ic, reconnect_max_delay = ic_reconnect_max_delay ic\<rparr>"

definition start_sources ::
    "ingest_config \<Rightarrow> cache_placement option \<Rightarrow> raw_firehose_error + raw_firehose_source list" where
  "start_sources ic placement =
     collect_results (\<lambda>(i, address). and_then (raw_firehose_new (source_config ic i address)) (\<lambda>s.
       Inr (with_placement placement s))) (enumerate 0 (ic_raw_firehoses ic))"

definition start_ingest ::
    "node_config \<Rightarrow> cache_placement option \<Rightarrow> async_store \<Rightarrow> startup_error + raw_ingest_runtime option" where
  "start_ingest cfg placement store =
     (let ic = nc_ingest cfg
      in if \<not> ic_enabled ic then Inr None
         else if queue_batches (ic_runtime ic) = 0 \<or> ic_batch_messages ic = 0 then Inl ZeroIngestBounds
         else and_then (map_err InvalidIngest (ingest_new store (open_limits cfg))) (\<lambda>d.
           and_then (map_err InvalidRawFirehose (start_sources ic placement)) (\<lambda>sources.
           and_then (map_err InvalidStorageBudget (budget_validate (nc_budget cfg))) (\<lambda>_.
           and_then (map_err InvalidRuntime (runtime_new_with_external_input d sources (ic_runtime ic))) (\<lambda>r.
             Inr (Some (with_budget_enforcer (nc_budget cfg) r)))))))"

section \<open>The web server\<close>

record web_parts =
  wp_peer :: "peer_client option"
  wp_peer_placement :: "cache_placement option"
  wp_repair :: "repair_coordinator option"
  wp_admin :: "bytes option"
  wp_public_permits :: "nat option"
  wp_cache :: "cache_config option"

text \<open>Every other member of the placement must be a peer.\<close>

definition members_unknown :: "cache_placement_config \<Rightarrow> peer_config \<Rightarrow> bool" where
  "members_unknown pl peers \<longleftrightarrow>
     pl_members pl \<noteq> [] \<and>
     list_ex (\<lambda>name. \<not> list_ex (\<lambda>n. pnc_name n = name) (pcf_nodes peers))
       (filter (\<lambda>name. name \<noteq> pl_local_node pl) (pl_members pl))"

definition start_web ::
    "url_crate \<Rightarrow> bool \<Rightarrow> (bytes \<Rightarrow> bytes) \<Rightarrow> (string \<Rightarrow> string + string) \<Rightarrow> node_config \<Rightarrow> bind_error + web_parts" where
  "start_web crate builds hash read_file cfg =
     and_then (map_err InvalidPeerConfig (peer_from_config crate (nc_peer cfg) builds)) (\<lambda>peer.
     and_then (case peer of None \<Rightarrow> Inr None
               | Some _ \<Rightarrow> map_err (\<lambda>_. InvalidClusterState) (placement_from_config (nc_placement cfg))) (\<lambda>placement.
     if members_unknown (nc_placement cfg) (nc_peer cfg) then Inl InvalidClusterState
     else
       and_then (map_err InvalidRepairConfig (coordinator_from_config crate (nc_repair cfg) builds)) (\<lambda>repair.
       and_then (map_err InvalidAdminConfig (from_config hash read_file (nc_admin cfg))) (\<lambda>auth.
       and_then (map_err InvalidResponseCacheConfig (cache_from_config (nc_cache_enabled cfg) (nc_cache cfg))) (\<lambda>cache.
         Inr \<lparr>wp_peer = peer, wp_peer_placement = placement, wp_repair = repair, wp_admin = auth,
              wp_public_permits = (if nc_max_inflight_requests cfg > 0 then Some (nc_max_inflight_requests cfg) else None),
              wp_cache = cache\<rparr>)))))"

text \<open>A node that holds a snapshot applies its policies before it binds its address.\<close>

definition admit :: "policy_app \<Rightarrow> (bind_error + unit) \<times> policy_app" where
  "admit app =
     (case pa_cluster app of
        None \<Rightarrow> (Inr (), app)
      | Some node \<Rightarrow>
          if \<not> has_snapshot (cn_db node) then (Inr (), app)
          else (case synchronize app of
                  (Inl e, app') \<Rightarrow> (Inl InvalidClusterState, app')
                | (Inr _, app') \<Rightarrow> (Inr (), with_node_db (mark_ready (cn_db node)) app')))"

text \<open>One round of the task that keeps the cluster's state; \<open>pulled\<close> is the owner's answer.\<close>

definition sync_tick ::
    "(string \<Rightarrow> string + unit) \<Rightarrow> storage_error + snapshot \<Rightarrow> policy_app \<Rightarrow> (api_error + unit) \<times> policy_app" where
  "sync_tick validate_login pulled app =
     (case pa_cluster app of
        None \<Rightarrow> (Inr (), app)
      | Some node \<Rightarrow>
          if cn_owner node
          then then_st (synchronize app) (\<lambda>_ app.
                 (map_err GetCoverage (push_snapshot True (cn_answers node) (cn_db node)), app))
          else (case pulled of
                  Inl e \<Rightarrow> (Inl (GetCoverage e), app)
                | Inr s \<Rightarrow> accept_snapshot validate_login s app))"

section \<open>Starting\<close>

record start_env =
  se_validate_login :: "string \<Rightarrow> string + unit"
  se_order :: "string set \<Rightarrow> string list"
  se_now :: int
  se_fates :: "call_fate list"
  se_crate :: url_crate
  se_builds :: bool
  se_hash :: "bytes \<Rightarrow> bytes"
  se_read_file :: "string \<Rightarrow> string + string"

definition start_node ::
    "start_env \<Rightarrow> node_config \<Rightarrow> policy_app
      \<Rightarrow> (startup_error + raw_ingest_runtime option \<times> web_parts) \<times> policy_app" where
  "start_node env cfg app =
     (case placement_from_config (nc_placement cfg) of
        Inl _ \<Rightarrow> (Inl InvalidPlacement, app)
      | Inr placement \<Rightarrow>
          if placement \<noteq> None \<and> nc_cluster_role cfg = ''off'' then (Inl PlacementWithoutControl, app)
          else
            then_st (prepare_stores (se_validate_login env) (se_order env) (se_now env) cfg app) (\<lambda>_ app.
            then_st (start_ingest cfg placement \<lparr>as_db = pa_db app, as_fates = se_fates env, as_history = []\<rparr>, app) (\<lambda>runtime app.
            then_st (map_err WebFailed (start_web (se_crate env) (se_builds env) (se_hash env) (se_read_file env) cfg),
                     app\<lparr>pa_open := map_option (di_open \<circ> ir_ingest) runtime\<rparr>) (\<lambda>web app.
            then_st (case admit app of (res, app') \<Rightarrow> (map_err WebFailed res, app')) (\<lambda>_ app.
              (Inr (runtime, web), app))))))"

section \<open>Supervision\<close>

text \<open>
  The tasks of the process and the web server, by the order in which they end; \<open>Some\<close> error for one that ends
  abnormally. The signal of the operating system is received once.
\<close>

datatype process_event =
    OsSignal
  | WorkerEnded nat "string option"
  | WebEnded "string option"

record supervisor =
  sv_running :: "nat set"
  sv_web :: bool
  sv_signalled :: bool
  sv_cancelled :: bool
  sv_exit_code :: int

definition worker_ended :: "string option \<Rightarrow> supervisor \<Rightarrow> supervisor" where
  "worker_ended failure sv =
     (case failure of
        None \<Rightarrow> if sv_cancelled sv then sv else sv\<lparr>sv_cancelled := True, sv_exit_code := 1\<rparr>
      | Some e \<Rightarrow> sv\<lparr>sv_cancelled := True, sv_exit_code := 1\<rparr>)"

text \<open>One turn of the loop; \<open>None\<close> for an event that cannot happen.\<close>

fun supervise_step :: "process_event \<Rightarrow> supervisor \<Rightarrow> supervisor option" where
  "supervise_step OsSignal sv =
     (if sv_signalled sv then None else Some (sv\<lparr>sv_signalled := True, sv_cancelled := True\<rparr>))"
| "supervise_step (WorkerEnded i failure) sv =
     (if i \<notin> sv_running sv then None else Some (worker_ended failure (sv\<lparr>sv_running := sv_running sv - {i}\<rparr>)))"
| "supervise_step (WebEnded failure) sv =
     (if \<not> sv_web sv then None else Some (worker_ended failure (sv\<lparr>sv_web := False\<rparr>)))"

definition all_ended :: "supervisor \<Rightarrow> bool" where
  "all_ended sv \<longleftrightarrow> sv_running sv = {} \<and> \<not> sv_web sv"

text \<open>The loop: the exit code, once everything has ended.\<close>

fun supervise :: "process_event list \<Rightarrow> supervisor \<Rightarrow> int option" where
  "supervise [] sv = (if all_ended sv then Some (sv_exit_code sv) else None)"
| "supervise (e # es) sv =
     (if all_ended sv then Some (sv_exit_code sv)
      else case supervise_step e sv of None \<Rightarrow> None | Some sv' \<Rightarrow> supervise es sv')"

definition start_supervisor :: "nat \<Rightarrow> supervisor" where
  "start_supervisor n = \<lparr>sv_running = {..<n}, sv_web = True, sv_signalled = False, sv_cancelled = False, sv_exit_code = 0\<rparr>"

section \<open>Health\<close>

text \<open>A gauge of a source: whether it is connected, and the second of its last event.\<close>

definition source_is_fresh :: "(int \<times> int) option \<Rightarrow> int \<Rightarrow> nat \<Rightarrow> bool" where
  "source_is_fresh gauges now oldest =
     (case gauges of
        None \<Rightarrow> False
      | Some (online, last_event) \<Rightarrow>
          online = 1 \<and> last_event > 0 \<and>
          i64_saturating_sub now last_event \<le> i64_try_from_or_max (oldest div 1000000000))"

record health_config =
  firehose_max_event_age :: nat
  ingest_max_accept_age :: nat
  max_queue_batches :: nat

definition ingest_healthy ::
    "ingest_config \<Rightarrow> health_config \<Rightarrow> int \<Rightarrow> (nat \<Rightarrow> (int \<times> int) option) \<Rightarrow> runtime_metrics \<Rightarrow> bool" where
  "ingest_healthy ic hc now gauges metrics \<longleftrightarrow>
     (let sources_fresh = ic_raw_firehoses ic = [] \<or>
           list_ex (\<lambda>i. source_is_fresh (gauges i) now (firehose_max_event_age hc)) [0..<length (ic_raw_firehoses ic)]
      in \<not> ic_enabled ic \<or> sources_fresh \<and> ingest_is_fresh metrics now (ingest_max_accept_age hc) (max_queue_batches hc))"

text \<open>The gauge that is set, and the status; the sizes and whether the stores can be read are given.\<close>

definition ready ::
    "node_config \<Rightarrow> health_config \<Rightarrow> int \<Rightarrow> (nat \<Rightarrow> (int \<times> int) option) \<Rightarrow> runtime_metrics \<Rightarrow> store_error + unit \<Rightarrow>
     storage_error + unit \<Rightarrow> store_error + nat \<Rightarrow> storage_budget_error + filesystem_space \<Rightarrow> int \<times> nat" where
  "ready cfg hc now gauges metrics blocks_readable control_readable physical space =
     (of_bool (ingest_healthy (nc_ingest cfg) hc now gauges metrics),
      if isl blocks_readable \<or> isl control_readable then 503
      else case physical of
        Inl _ \<Rightarrow> 503
      | Inr bytes \<Rightarrow>
          (case and_then space (effective_max_bytes (nc_budget cfg) bytes) of
             Inl _ \<Rightarrow> 503
           | Inr effective_max \<Rightarrow>
               (case sb_emergency_ratio (nc_budget cfg) of
                  NonFinite \<Rightarrow> 204
                | Finite ratio \<Rightarrow>
                    if u64_as_f64 bytes \<ge> f64_round (u64_as_f64 effective_max * ratio) then 503 else 204)))"

section \<open>Examples\<close>

definition ex_start_app :: policy_app where
  "ex_start_app = \<lparr>pa_cluster = None, pa_applied = [], pa_db = empty_db, pa_open = None,
     pa_control = empty_control_db, pa_parted = [], pa_reconciles = 0\<rparr>"

definition ex_start_env :: start_env where
  "ex_start_env = \<lparr>se_validate_login = (\<lambda>_. Inr ()), se_order = sorted_list_of_set, se_now = 7, se_fates = [],
     se_crate = \<lparr>url_parse = (\<lambda>_. Inl []), url_set_path = (\<lambda>u _. u)\<rparr>, se_builds = True, se_hash = (\<lambda>b. b),
     se_read_file = (\<lambda>_. Inl [])\<rparr>"

definition ex_node_config :: node_config where
  "ex_node_config =
     \<lparr>nc_placement = \<lparr>pl_local_node = [], pl_members = [], pl_copies = 0\<rparr>, nc_cluster_role = ''off'',
      nc_always_join = [''B'', ''a'', ''b''], nc_admin = \<lparr>token_file = None, max_always_join_channels = 5\<rparr>,
      nc_block_messages = 4,
      nc_ingest = \<lparr>ic_enabled = False, ic_raw_firehoses = [], ic_origin = [], ic_batch_messages = 1, ic_batch_max_delay = 1,
        ic_reconnect_min_delay = 1, ic_reconnect_max_delay = 1, ic_max_open_channels = 1, ic_max_open_bytes = 1,
        ic_idle_seal_after = 1, ic_max_open_age = 1,
        ic_runtime = \<lparr>queue_batches = 1, seal_interval = 1, checkpoint_interval = 1, checkpoint_poll_interval = 1,
          checkpoint_journal_bytes = 1, message_ttl = 1\<rparr>\<rparr>,
      nc_budget = \<lparr>sb_max_bytes = 1, max_filesystem_percent = 1, min_free_bytes = 0, wal_reserve_bytes = 0,
        sb_high_water_ratio = NonFinite, sb_target_ratio = NonFinite, sb_emergency_ratio = NonFinite, sb_pressure_floor = 1,
        requested_channel_protect_for = 1, max_enforcement_passes = 1\<rparr>,
      nc_peer = \<lparr>pcf_shared_token = None, pcf_nodes = [], pcf_connect_timeout = 1, pcf_request_timeout = 1,
        pcf_delegate_timeout = 1, pcf_max_inflight = 1\<rparr>,
      nc_repair = \<lparr>rcf_providers = [], rcf_request_timeout = 1, rcf_fast_return_wait = 1, rcf_foreground_wait = 1,
        rcf_max_inflight = 1, rcf_max_response_bytes = 1, rcf_failure_threshold = 1, rcf_open_duration = 1,
        rcf_refresh_after = 1, rcf_partial_retry_after = 1, rcf_failure_retry_after = 1\<rparr>,
      nc_max_inflight_requests = 1, nc_cache_enabled = False,
      nc_cache = \<lparr>max_age = 1, pressure_hold = 1, enter_inflight = 1, max_entries = 1, max_bytes = 1, max_entry_bytes = 1\<rparr>\<rparr>"

section \<open>What a start leaves\<close>

lemma sync_blocks_Inr: "sync_blocks f err app = (Inr (), app') \<longleftrightarrow>
    (\<exists>db. f (pa_db app) = (Inr (), db) \<and> app' = app\<lparr>pa_db := db\<rparr>)"
  by (auto simp: sync_blocks_def split: prod.splits)

lemma drop_channel_always_join [simp]: "always_join_channels (drop_channel ch db) = always_join_channels db"
  by (simp add: drop_channel_def delete_channel_rows_def delete_block_rows_def Let_def)

lemma insert_blocked_always_join:
  "insert_blocked chs db = Inr db' \<Longrightarrow> always_join_channels db' = always_join_channels db"
  by (induction chs arbitrary: db) (force split: if_splits)+

lemma sync_blocked_keeps_always_join:
  assumes "sync_blocked_channels chs db = (res, db')"
  shows "always_join_channels db' = always_join_channels db"
proof -
  have "transaction (\<lambda>db. and_then (insert_blocked chs (db\<lparr>blocked_channels := []\<rparr>))
      (\<lambda>db'. Inr ((), db'))) db = (res, db')"
    using assms by (simp add: sync_blocked_channels_def)
  then show ?thesis by (rule transaction_cases) (auto dest: insert_blocked_always_join)
qed

lemma prepare_stores_alone:
  assumes inv: "db_inv cd N (pa_db app)" and alone: "pa_cluster app = None"
    and order: "\<forall>S. finite S \<longrightarrow> set (order S) = S"
    and run: "prepare_stores va order now cfg app = (Inr (), app')"
  shows "db_inv cd N (pa_db app') \<and> pa_cluster app' = None \<and>
    pa_control app' = snd (local_bootstrap_always_join (bootstrap_channels (nc_always_join cfg)) (pa_control app)) \<and>
    set (blocked_channels (pa_db app')) = local_ignored_channels (pa_control app') \<and>
    always_join_channels (pa_db app') = local_always_join_channels (pa_control app') \<and>
    (\<forall>ch. sql_retained cd (pa_db app') ch =
       (if ch \<in> local_ignored_channels (pa_control app') then [] else sql_retained cd (pa_db app) ch)) \<and>
    length (bootstrap_channels (nc_always_join cfg)) \<le> max_always_join_channels (nc_admin cfg) \<and>
    (\<forall>ch \<in> set (bootstrap_channels (nc_always_join cfg)). va ch = Inr ())"
proof -
  let ?chs = "bootstrap_channels (nc_always_join cfg)"
  let ?control = "snd (local_bootstrap_always_join ?chs (pa_control app))"
  have max: "\<not> max_always_join_channels (nc_admin cfg) < length ?chs"
    using run by (auto simp: prepare_stores_def Let_def split: if_splits)
  have valid: "find (\<lambda>ch. isl (va ch)) ?chs = None"
    using run max by (auto simp: prepare_stores_def Let_def split: option.splits)
  have boot: "bootstrap_always_join_channels now ?chs (control_of app) =
      (Inr (fst (local_bootstrap_always_join ?chs (pa_control app))), \<lparr>cs_cluster = None, cs_db = ?control\<rparr>)"
    using alone by (simp add: bootstrap_always_join_channels_def via_cluster_def control_of_def split: prod.splits)
  define app1 where "app1 = app\<lparr>pa_control := ?control\<rparr>"
  have c1: "with_control \<lparr>cs_cluster = None, cs_db = ?control\<rparr> app = app1"
    using alone by (simp add: with_control_def app1_def)
  have a1: "pa_cluster app1 = None" "pa_db app1 = pa_db app" "pa_control app1 = ?control" using alone by (simp_all add: app1_def)
  obtain db1 db2 where pins: "sync_always_join_channels (local_always_join_channels ?control) (pa_db app) = (Inr (), db1)"
    and ignored: "sync_blocked_channels (order (local_ignored_channels ?control)) db1 = (Inr (), db2)"
    and app': "app' = app1\<lparr>pa_db := db2\<rparr>"
  proof -
    have g: "get_always_join_channels (control_of app1) = Inr (local_always_join_channels ?control)"
      by (simp add: get_always_join_channels_def control_of_def a1)
    have i: "get_ignored_channels (control_of (app1\<lparr>pa_db := db\<rparr>)) = Inr (local_ignored_channels ?control)" for db
      by (simp add: get_ignored_channels_def control_of_def a1)
    show thesis
      using run max valid that by (auto simp: prepare_stores_def Let_def boot c1 then_st_Inr sync_blocks_Inr g i a1(2))
  qed
  have d1: "db_inv cd N db1" "db1 = pa_db app\<lparr>always_join_channels := local_always_join_channels ?control\<rparr>"
    using sync_always_join_channels_spec [OF inv pins] by auto
  have "finite (local_ignored_channels ?control)" by (simp add: local_ignored_channels_def)
  then have set: "set (order (local_ignored_channels ?control)) = local_ignored_channels ?control" using order by blast
  have d2: "db_inv cd N db2" "set (blocked_channels db2) = local_ignored_channels ?control"
    "\<forall>k. sql_retained cd db2 k = (if k \<in> local_ignored_channels ?control then [] else sql_retained cd db1 k)"
    using sync_blocked_channels_spec [OF d1(1) ignored] by (simp_all add: set)
  have "always_join_channels db2 = always_join_channels db1" by (rule sync_blocked_keeps_always_join [OF ignored])
  moreover have "sql_retained cd db1 k = sql_retained cd (pa_db app) k" for k by (simp add: d1(2) sql_retained_def)
  moreover have "\<forall>ch \<in> set ?chs. va ch = Inr ()"
    using valid by (auto simp: find_None_iff isl_def) (metis old.unit.exhaust sum.exhaust)
  ultimately show ?thesis using d1 d2 max a1 app' by simp
qed

text \<open>What the parts of the ingest were made from.\<close>

lemma start_sources_ok:
  "start_sources ic placement = Inr sources \<Longrightarrow>
     map (fc_url \<circ> rf_config) sources = ic_raw_firehoses ic \<and> (\<forall>s \<in> set sources. rf_placement s = placement)"
proof -
  assume "start_sources ic placement = Inr sources"
  then have "list_all2 (\<lambda>x y. (case x of (i, address) \<Rightarrow> and_then (raw_firehose_new (source_config ic i address)) (\<lambda>s.
      Inr (with_placement placement s))) = Inr y) (enumerate 0 (ic_raw_firehoses ic)) sources"
    unfolding start_sources_def by (rule collect_results_Inr)
  then have "list_all2 (\<lambda>x y. snd x = fc_url (rf_config y) \<and> rf_placement y = placement)
      (enumerate 0 (ic_raw_firehoses ic)) sources"
    by (rule list_all2_mono)
      (auto simp: raw_firehose_new_def source_config_def with_placement_def split: if_splits)
  then have "map snd (enumerate 0 (ic_raw_firehoses ic)) = map (fc_url \<circ> rf_config) sources \<and>
      (\<forall>s \<in> set sources. rf_placement s = placement)"
    by (induction rule: list_all2_induct) auto
  then show ?thesis by simp
qed

lemma start_ingest_ok:
  assumes "start_ingest cfg placement store = Inr runtime"
  shows "(runtime = None \<longleftrightarrow> \<not> ic_enabled (nc_ingest cfg)) \<and>
    (\<forall>r \<in> set_option runtime. di_store (ir_ingest r) = store \<and> om_blocks (di_open (ir_ingest r)) = [] \<and>
       limits_valid (om_limits (di_open (ir_ingest r))) \<and> \<not> invalid_runtime_config (ir_config r) \<and> ir_external r \<and>
       map (fc_url \<circ> rf_config) (ir_sources r) = ic_raw_firehoses (nc_ingest cfg) \<and>
       (\<forall>s \<in> set (ir_sources r). rf_placement s = placement) \<and>
       ir_budget r = Some (nc_budget cfg) \<and> budget_validate (nc_budget cfg) = Inr ())"
  using assms start_sources_ok
  by (auto simp: start_ingest_def Let_def ingest_new_def new_manager_def runtime_new_with_external_input_def
      with_budget_enforcer_def split: if_splits)

lemma start_web_ok:
  assumes "start_web crate builds hash read_file cfg = Inr web"
  shows "\<not> members_unknown (nc_placement cfg) (nc_peer cfg) \<and>
    peer_from_config crate (nc_peer cfg) builds = Inr (wp_peer web) \<and>
    from_config hash read_file (nc_admin cfg) = Inr (wp_admin web) \<and>
    (wp_peer web \<noteq> None \<longrightarrow> placement_from_config (nc_placement cfg) = Inr (wp_peer_placement web))"
  using assms by (auto simp: start_web_def map_err_def split: if_splits option.splits sum.splits)

lemma map_err_case_Inr: "(case m of (res, s) \<Rightarrow> (map_err f res, s)) = (Inr x, s') \<longleftrightarrow> m = (Inr x, s')"
  by (cases m) auto

lemma start_node_Inr:
  assumes "start_node env cfg app = (Inr (runtime, web), app')"
  obtains placement app1 where "placement_from_config (nc_placement cfg) = Inr placement"
    and "placement \<noteq> None \<longrightarrow> nc_cluster_role cfg \<noteq> ''off''"
    and "prepare_stores (se_validate_login env) (se_order env) (se_now env) cfg app = (Inr (), app1)"
    and "start_ingest cfg placement \<lparr>as_db = pa_db app1, as_fates = se_fates env, as_history = []\<rparr> = Inr runtime"
    and "start_web (se_crate env) (se_builds env) (se_hash env) (se_read_file env) cfg = Inr web"
    and "admit (app1\<lparr>pa_open := map_option (di_open \<circ> ir_ingest) runtime\<rparr>) = (Inr (), app')"
  using assms by (auto simp: start_node_def then_st_Inr map_err_case_Inr split: sum.splits if_splits)

section \<open>Properties\<close>

text \<open>
  C19: A node without a cluster that starts has brought its stores in line. The store blocks exactly the channels
  that the control store has as ignored, and has given up their records and no others, so a channel ignored
  while its blocks could not be deleted is deleted now; it protects exactly the always-join channels, to which
  the configured ones were added if that had not been done before. The ingest runs when it is enabled, on this
  store, with valid bounds, one source for each address, and an enforced budget; and when it is told which
  members hold which channels, every other member is a peer and the placement of the sources is that of the
  peers.
\<close>
theorem startup_sound:
  assumes "db_inv cd N (pa_db app)" and "pa_cluster app = None" and "\<forall>S. finite S \<longrightarrow> set (se_order env S) = S"
    and "start_node env cfg app = (Inr (runtime, web), app')"
  shows "db_inv cd N (pa_db app') \<and>
    pa_control app' = snd (local_bootstrap_always_join (bootstrap_channels (nc_always_join cfg)) (pa_control app)) \<and>
    set (blocked_channels (pa_db app')) = local_ignored_channels (pa_control app') \<and>
    (\<forall>ch. sql_retained cd (pa_db app') ch =
       (if ch \<in> local_ignored_channels (pa_control app') then [] else sql_retained cd (pa_db app) ch)) \<and>
    always_join_channels (pa_db app') = local_always_join_channels (pa_control app') \<and>
    (runtime = None \<longleftrightarrow> \<not> ic_enabled (nc_ingest cfg)) \<and>
    (\<forall>r \<in> set_option runtime. as_db (di_store (ir_ingest r)) = pa_db app' \<and> pa_open app' = Some (di_open (ir_ingest r)) \<and>
       limits_valid (om_limits (di_open (ir_ingest r))) \<and> \<not> invalid_runtime_config (ir_config r) \<and>
       map (fc_url \<circ> rf_config) (ir_sources r) = ic_raw_firehoses (nc_ingest cfg) \<and>
       budget_validate (nc_budget cfg) = Inr () \<and> ir_budget r = Some (nc_budget cfg) \<and>
       (\<forall>s \<in> set (ir_sources r). placement_from_config (nc_placement cfg) = Inr (rf_placement s) \<and>
          (wp_peer web \<noteq> None \<longrightarrow> wp_peer_placement web = rf_placement s))) \<and>
    (\<forall>m \<in> set (pl_members (nc_placement cfg)). m = pl_local_node (nc_placement cfg) \<or>
       m \<in> pnc_name ` set (pcf_nodes (nc_peer cfg)))"
proof -
  obtain placement app1 where p: "placement_from_config (nc_placement cfg) = Inr placement"
    and prep: "prepare_stores (se_validate_login env) (se_order env) (se_now env) cfg app = (Inr (), app1)"
    and ing: "start_ingest cfg placement \<lparr>as_db = pa_db app1, as_fates = se_fates env, as_history = []\<rparr> = Inr runtime"
    and web: "start_web (se_crate env) (se_builds env) (se_hash env) (se_read_file env) cfg = Inr web"
    and adm: "admit (app1\<lparr>pa_open := map_option (di_open \<circ> ir_ingest) runtime\<rparr>) = (Inr (), app')"
    using start_node_Inr [OF assms(4)] by metis
  note stores = prepare_stores_alone [OF assms(1-3) prep]
  then have app': "app' = app1\<lparr>pa_open := map_option (di_open \<circ> ir_ingest) runtime\<rparr>" using adm by (simp add: admit_def)
  have members: "\<forall>m \<in> set (pl_members (nc_placement cfg)). m = pl_local_node (nc_placement cfg) \<or>
       m \<in> pnc_name ` set (pcf_nodes (nc_peer cfg))"
    using start_web_ok [OF web] by (fastforce simp: members_unknown_def list_ex_iff)
  have peers: "wp_peer web \<noteq> None \<longrightarrow> wp_peer_placement web = placement" using start_web_ok [OF web] p by auto
  have same: "pa_db app' = pa_db app1" "pa_control app' = pa_control app1"
    "pa_open app' = map_option (di_open \<circ> ir_ingest) runtime" by (simp_all add: app')
  note ingest = start_ingest_ok [OF ing]
  have parts: "\<forall>r \<in> set_option runtime. as_db (di_store (ir_ingest r)) = pa_db app' \<and> pa_open app' = Some (di_open (ir_ingest r)) \<and>
       limits_valid (om_limits (di_open (ir_ingest r))) \<and> \<not> invalid_runtime_config (ir_config r) \<and>
       map (fc_url \<circ> rf_config) (ir_sources r) = ic_raw_firehoses (nc_ingest cfg) \<and>
       budget_validate (nc_budget cfg) = Inr () \<and> ir_budget r = Some (nc_budget cfg) \<and>
       (\<forall>s \<in> set (ir_sources r). placement_from_config (nc_placement cfg) = Inr (rf_placement s) \<and>
          (wp_peer web \<noteq> None \<longrightarrow> wp_peer_placement web = rf_placement s))"
  proof (rule ballI)
    fix r assume r: "r \<in> set_option runtime"
    then have op: "pa_open app' = Some (di_open (ir_ingest r))" by (simp add: same(3))
    note i = bspec [OF conjunct2 [OF ingest] r]
    then have placed: "\<forall>s \<in> set (ir_sources r). rf_placement s = placement" by (elim conjE)
    have "\<forall>s \<in> set (ir_sources r). placement_from_config (nc_placement cfg) = Inr (rf_placement s) \<and>
          (wp_peer web \<noteq> None \<longrightarrow> wp_peer_placement web = rf_placement s)"
      using placed p peers by auto
    with i op show "as_db (di_store (ir_ingest r)) = pa_db app' \<and> pa_open app' = Some (di_open (ir_ingest r)) \<and>
       limits_valid (om_limits (di_open (ir_ingest r))) \<and> \<not> invalid_runtime_config (ir_config r) \<and>
       map (fc_url \<circ> rf_config) (ir_sources r) = ic_raw_firehoses (nc_ingest cfg) \<and>
       budget_validate (nc_budget cfg) = Inr () \<and> ir_budget r = Some (nc_budget cfg) \<and>
       (\<forall>s \<in> set (ir_sources r). placement_from_config (nc_placement cfg) = Inr (rf_placement s) \<and>
          (wp_peer web \<noteq> None \<longrightarrow> wp_peer_placement web = rf_placement s))"
      by (elim conjE, intro conjI) (simp_all add: same(1))
  qed
  have enabled: "runtime = None \<longleftrightarrow> \<not> ic_enabled (nc_ingest cfg)" using ingest by blast
  show ?thesis
    using stores [folded same(1,2)] parts enabled members by (elim conjE) (intro conjI; assumption)
qed

text \<open>The policies of a snapshot, once they are applied, are purged.\<close>

lemma apply_policies_purged:
  assumes "setup_ok cd cfg N" and "policy_inv cd N app" and "\<forall>(ch, p) \<in> set policies. to_ascii_lowercase ch = ch"
    and "apply_policies policies app = (Inr (), app')"
  shows "policy_inv cd N app' \<and> cutoffs_grow (pa_db app) (pa_db app') \<and>
    (\<forall>(ch, p) \<in> set policies. purged_to (pa_db app') ch (cp_purge_ms p))"
  using assms(2-)
proof (induction policies arbitrary: app)
  case Nil
  then show ?case by (simp add: cutoffs_grow_eq)
next
  case (Cons c rest)
  obtain ch p where c: "c = (ch, p)" by fastforce
  obtain res app1 where step: "apply_policy ch p app = (res, app1)" by (cases "apply_policy ch p app")
  have one: "apply_policy ch p app = (Inr (), app1)" and run: "apply_policies rest app1 = (Inr (), app')"
    using Cons.prems(3) by (cases res; simp add: c step)+
  have lower: "to_ascii_lowercase ch = ch" "\<forall>(ch, p) \<in> set rest. to_ascii_lowercase ch = ch"
    using Cons.prems(2) c by simp_all
  have a: "policy_inv cd N app1" "cutoffs_grow (pa_db app) (pa_db app1)" "purged_to (pa_db app1) ch (cp_purge_ms p)"
    using apply_policy_inv [OF assms(1) Cons.prems(1) _ one] lower by simp_all
  have r: "policy_inv cd N app'" "cutoffs_grow (pa_db app1) (pa_db app')"
    "\<forall>(ch, p) \<in> set rest. purged_to (pa_db app') ch (cp_purge_ms p)"
    using Cons.IH [OF a(1) lower(2) run] by simp_all
  moreover have "cutoffs_grow (pa_db app) (pa_db app')" by (rule cutoffs_grow_trans [OF a(2) r(2)])
  moreover have "purged_to (pa_db app') ch (cp_purge_ms p)" by (rule purged_to_grow [OF r(2) a(3)])
  ultimately show ?case by (simp add: c)
qed

theorem startup_sound_witness:
  "\<exists>web app'. start_node ex_start_env ex_node_config ex_start_app = (Inr (None, web), app') \<and>
     always_join_channels (pa_db app') = [''a'', ''b''] \<and> blocked_channels (pa_db app') = []"
proof -
  let ?run = "start_node ex_start_env ex_node_config ex_start_app"
  have ok: "case ?run of (Inr (runtime, web), app') \<Rightarrow> runtime = None \<and> local_always_join_channels (pa_control app') = [''a'', ''b''] \<and>
     local_ignored_channels (pa_control app') = {} | _ \<Rightarrow> False"
    by code_simp
  obtain web app' where run: "?run = (Inr (None, web), app')"
    and pins: "local_always_join_channels (pa_control app') = [''a'', ''b'']" and ignored: "local_ignored_channels (pa_control app') = {}"
  proof (cases ?run)
    case (Pair res app')
    then show ?thesis using ok that by (cases res) auto
  qed
  have "db_inv ex_codec 3 (pa_db ex_start_app)" "pa_cluster ex_start_app = None" by (simp_all add: ex_start_app_def)
  moreover have "\<forall>S. finite S \<longrightarrow> set (se_order ex_start_env S) = S" by (simp add: ex_start_env_def)
  ultimately have "always_join_channels (pa_db app') = [''a'', ''b''] \<and> blocked_channels (pa_db app') = []"
    using startup_sound [OF _ _ _ run] by (simp add: pins ignored)
  then show ?thesis using run by blast
qed

section \<open>Supervision, exactly\<close>

definition ends_badly :: "process_event \<Rightarrow> bool" where
  "ends_badly e \<longleftrightarrow> (case e of OsSignal \<Rightarrow> False | WorkerEnded i f \<Rightarrow> f \<noteq> None | WebEnded f \<Rightarrow> f \<noteq> None)"

lemma supervise_used:
  "supervise es sv = Some code \<Longrightarrow> \<exists>used rest. es = used @ rest \<and>
     (\<forall>i \<in> sv_running sv. \<exists>f. WorkerEnded i f \<in> set used) \<and> (sv_web sv \<longrightarrow> (\<exists>f. WebEnded f \<in> set used)) \<and>
     (sv_exit_code sv \<in> {0, 1} \<longrightarrow> code \<in> {0, 1}) \<and>
     (code = 0 \<longleftrightarrow> sv_exit_code sv = 0 \<and> list_all (\<lambda>e. \<not> ends_badly e) used \<and>
        (sv_cancelled sv \<or> used = [] \<or> hd used = OsSignal))"
proof (induction es arbitrary: sv)
  case Nil
  then show ?case by (auto simp: all_ended_def split: if_splits)
next
  case (Cons e es)
  show ?case
  proof (cases "all_ended sv")
    case True
    then show ?thesis using Cons.prems by (intro exI [of _ "[]"] exI [of _ "e # es"]) (auto simp: all_ended_def)
  next
    case False
    then obtain sv' where step: "supervise_step e sv = Some sv'" and rest: "supervise es sv' = Some code"
      using Cons.prems by (auto split: option.splits)
    obtain used rem where u: "es = used @ rem" "\<forall>i \<in> sv_running sv'. \<exists>f. WorkerEnded i f \<in> set used"
      "sv_web sv' \<longrightarrow> (\<exists>f. WebEnded f \<in> set used)" "sv_exit_code sv' \<in> {0, 1} \<longrightarrow> code \<in> {0, 1}"
      "code = 0 \<longleftrightarrow> sv_exit_code sv' = 0 \<and> list_all (\<lambda>e. \<not> ends_badly e) used \<and>
        (sv_cancelled sv' \<or> used = [] \<or> hd used = OsSignal)"
      using Cons.IH [OF rest] by blast
    have used: "\<forall>i \<in> sv_running sv. i \<in> sv_running sv' \<or> (\<exists>f. e = WorkerEnded i f)"
      "sv_web sv \<longrightarrow> sv_web sv' \<or> (\<exists>f. e = WebEnded f)"
      using step by (cases e; auto simp: worker_ended_def split: if_splits option.splits)+
    have code: "sv_exit_code sv \<in> {0, 1} \<longrightarrow> sv_exit_code sv' \<in> {0, 1}" "sv_cancelled sv'"
      "sv_exit_code sv' = 0 \<longleftrightarrow> sv_exit_code sv = 0 \<and> \<not> ends_badly e \<and> (sv_cancelled sv \<or> e = OsSignal)"
      using step by (cases e; auto simp: worker_ended_def ends_badly_def split: if_splits option.splits)+
    show ?thesis
    proof (intro exI conjI)
      show "e # es = (e # used) @ rem" using u(1) by simp
      show "\<forall>i \<in> sv_running sv. \<exists>f. WorkerEnded i f \<in> set (e # used)" using used(1) u(2) by fastforce
      show "sv_web sv \<longrightarrow> (\<exists>f. WebEnded f \<in> set (e # used))" using used(2) u(3) by fastforce
      show "sv_exit_code sv \<in> {0, 1} \<longrightarrow> code \<in> {0, 1}" using u(4) code(1) by blast
      show "code = 0 \<longleftrightarrow> sv_exit_code sv = 0 \<and> list_all (\<lambda>e. \<not> ends_badly e) (e # used) \<and>
        (sv_cancelled sv \<or> e # used = [] \<or> hd (e # used) = OsSignal)"
        using u(5) code(2,3) by auto
    qed
  qed
qed

text \<open>
  C21: The process ends only when each of its tasks and the web server have ended, with exit code 0 or 1; it is 0
  exactly when the first thing that happened is the signal of the operating system and nothing ended abnormally.
\<close>
theorem supervisor_exact:
  assumes "supervise es (start_supervisor n) = Some code"
  shows "\<exists>used rest. es = used @ rest \<and> (\<forall>i < n. \<exists>f. WorkerEnded i f \<in> set used) \<and> (\<exists>f. WebEnded f \<in> set used) \<and>
    code \<in> {0, 1} \<and> (code = 0 \<longleftrightarrow> hd used = OsSignal \<and> list_all (\<lambda>e. \<not> ends_badly e) used)"
proof -
  obtain used rest where u: "es = used @ rest" "\<forall>i < n. \<exists>f. WorkerEnded i f \<in> set used" "\<exists>f. WebEnded f \<in> set used"
    "code \<in> {0, 1}" "code = 0 \<longleftrightarrow> list_all (\<lambda>e. \<not> ends_badly e) used \<and> (used = [] \<or> hd used = OsSignal)"
    using supervise_used [OF assms] by (auto simp: start_supervisor_def)
  then have "used \<noteq> []" by auto
  then show ?thesis using u by blast
qed

theorem supervisor_exact_witness:
  "\<exists>used rest. [OsSignal, WebEnded None, WorkerEnded 0 None, WorkerEnded 1 None] = used @ rest \<and> hd used = OsSignal \<and>
     list_all (\<lambda>e. \<not> ends_badly e) used"
proof -
  have run: "supervise [OsSignal, WebEnded None, WorkerEnded 0 None, WorkerEnded 1 None] (start_supervisor 2) = Some 0"
    by code_simp
  show ?thesis using supervisor_exact [OF run] by blast
qed

text \<open>Whatever the order in which the tasks end, with or without a signal, the process ends.\<close>

lemma supervise_returns:
  assumes "\<forall>i. length (filter (\<lambda>e. \<exists>f. e = WorkerEnded i f) es) = of_bool (i \<in> sv_running sv)"
    and "length (filter (\<lambda>e. \<exists>f. e = WebEnded f) es) = of_bool (sv_web sv)"
    and "length (filter (\<lambda>e. e = OsSignal) es) \<le> of_bool (\<not> sv_signalled sv)"
  shows "\<exists>code. supervise es sv = Some code"
  using assms
proof (induction es arbitrary: sv)
  case Nil
  then show ?case by (auto simp: all_ended_def)
next
  case (Cons e es)
  show ?case
  proof (cases e)
    case OsSignal
    then show ?thesis using Cons.prems Cons.IH [of "sv\<lparr>sv_signalled := True, sv_cancelled := True\<rparr>"]
      by (auto split: if_splits)
  next
    case (WorkerEnded i f)
    then have "i \<in> sv_running sv" using Cons.prems(1) [rule_format, of i] by (cases "i \<in> sv_running sv") auto
    moreover have "length (filter (\<lambda>e. \<exists>f. e = WorkerEnded j f) es) = of_bool (j \<in> sv_running sv - {i})" for j
      using Cons.prems(1) [rule_format, of j] WorkerEnded calculation by (auto split: if_splits)
    ultimately show ?thesis
      using WorkerEnded Cons.prems(2,3) Cons.IH [of "worker_ended f (sv\<lparr>sv_running := sv_running sv - {i}\<rparr>)"]
      by (auto simp: worker_ended_def split: if_splits option.splits)
  next
    case (WebEnded f)
    then have "sv_web sv" using Cons.prems(2) by (cases "sv_web sv") auto
    then show ?thesis using WebEnded Cons.prems Cons.IH [of "worker_ended f (sv\<lparr>sv_web := False\<rparr>)"]
      by (auto simp: worker_ended_def split: if_splits option.splits)
  qed
qed

section \<open>Admission\<close>

lemma synchronize_purged:
  assumes "setup_ok cd cfg N" and "policy_inv cd N app" and "pa_cluster app = Some node"
    and "policies_of (cn_db node) = Inr policies" and "\<forall>(ch, p) \<in> set policies. to_ascii_lowercase ch = ch"
    and "synchronize app = (Inr (), app')"
  shows "(\<forall>(ch, p) \<in> set policies. purged_to (pa_db app') ch (cp_purge_ms p)) \<and>
    always_join_channels (pa_db app') = map fst (filter (\<lambda>(c, p). cp_always_join p) policies)"
proof -
  let ?pins = "map fst (filter (\<lambda>(c, p). cp_always_join p) policies)"
  obtain r1 app1 where a: "apply_policies policies app = (r1, app1)" by (cases "apply_policies policies app")
  obtain r2 db2 where s: "sync_always_join_channels ?pins (pa_db app1) = (r2, db2)"
    by (cases "sync_always_join_channels ?pins (pa_db app1)")
  have ok: "r1 = Inr ()" "r2 = Inr ()" "pa_db app' = db2"
    using assms(6) by (cases r1; cases r2; auto simp: synchronize_def assms(3,4) map_err_def a s)+
  have p: "policy_inv cd N app1" "\<forall>(ch, p) \<in> set policies. purged_to (pa_db app1) ch (cp_purge_ms p)"
    using apply_policies_purged [OF assms(1,2,5) a [unfolded ok]] by simp_all
  then have "db_inv cd N (pa_db app1)" by (simp add: policy_inv_def store_inv_def)
  from sync_always_join_channels_spec [OF this s] have "db2 = pa_db app1\<lparr>always_join_channels := ?pins\<rparr>" by (simp add: ok)
  then show ?thesis using p purged_to_grow [OF cutoffs_grow_eq] by (fastforce simp: ok)
qed

text \<open>
  A cluster node that holds a snapshot when it starts is admitted, and marked ready, only after every policy of
  the snapshot has been applied: each channel's records are purged up to the time its policy names, and the store
  protects exactly the channels that the policies pin. When that fails, it is not marked ready.
\<close>
theorem admission_purges:
  assumes "setup_ok cd cfg N" and "policy_inv cd N app" and "pa_cluster app = Some node" and "has_snapshot (cn_db node)"
    and "policies_of (cn_db node) = Inr policies" and "\<forall>(ch, p) \<in> set policies. to_ascii_lowercase ch = ch"
    and "admit app = (res, app')"
  shows "case res of
      Inl e \<Rightarrow> e = InvalidClusterState \<and> app' = snd (synchronize app)
    | Inr _ \<Rightarrow> (\<forall>(ch, p) \<in> set policies. purged_to (pa_db app') ch (cp_purge_ms p)) \<and>
        always_join_channels (pa_db app') = map fst (filter (\<lambda>(c, p). cp_always_join p) policies)"
proof -
  obtain r1 app1 where s: "synchronize app = (r1, app1)" by (cases "synchronize app")
  show ?thesis
  proof (cases r1)
    case (Inl e)
    then show ?thesis using assms(7) by (auto simp: admit_def assms(3,4) s)
  next
    case (Inr u)
    then have "res = Inr ()" "pa_db app' = pa_db app1" using assms(7) by (auto simp: admit_def assms(3,4) s with_node_db_def)
    then show ?thesis using synchronize_purged [OF assms(1-3,5,6)] s Inr by simp
  qed
qed

end
