(* ===== verification/Pipeline.thy ===== *)
theory Pipeline
  imports RecentMessages ResponseCache ClusterPolicy
begin

text \<open>
  The public routes of \<^verbatim>\<open>src/web/mod.rs\<close>: a request passes \<open>delegate_overload\<close>, then \<open>gate\<close>, then the response
  cache, then the handler. Each request brings what it finds: the state of the node when the gate runs, the
  writer's commands between the gate and the read, the control store, the clocks and the answers of peers. The
  extraction of path and query from an address and the encoding of bodies are parameters. What the handler writes
  while it runs is part of what later requests find.
\<close>

section \<open>The layers\<close>

record public_env =
  pe_extract :: "string \<Rightarrow> string option \<times> query_options option"
  pe_rejection :: response
  pe_reply :: "recent_response \<Rightarrow> bytes"
  pe_error :: "nat \<Rightarrow> string \<Rightarrow> string \<Rightarrow> bytes"
  pe_codec :: codec
  pe_store :: sqlite_config
  pe_cache :: "cache_config option"
  pe_token :: "string option"

record 'c public_request =
  rq_uri :: string
  rq_path :: string
  rq_query :: "string option"
  rq_headers :: headers
  rq_inflight :: nat
  rq_instant :: nat
  rq_now :: int
  rq_app :: policy_app
  rq_writes :: "writer_command list"
  rq_control :: 'c
  rq_deps :: "(sqlite_db, 'c) deps"
  rq_peers :: "(string \<Rightarrow> string option \<Rightarrow> response option list) option"

definition recent_reply :: "(recent_response \<Rightarrow> bytes) \<Rightarrow> recent_response \<Rightarrow> response" where
  "recent_reply json reply =
     \<lparr>rs_status = 200,
      rs_headers = (\<lambda>_. None)(''content-type'' \<mapsto> utf8 ''application/json'', coverage_header \<mapsto> utf8 (rr_coverage reply)),
      rs_body = Bytes (json reply)\<rparr>"

definition run_handler ::
    "'c public_env_scheme \<Rightarrow> 'd public_request \<Rightarrow> channel_policy option \<Rightarrow> policy_app
      \<Rightarrow> api_error + recent_response \<times> (sqlite_db, 'd) recent_state" where
  "run_handler env rq policy app =
     (case pe_extract env (rq_uri rq) of
        (path, query) \<Rightarrow>
          get_recent_messages (rq_deps rq) (rq_now rq) path query (rq_headers rq) policy
            (run_commands (pe_codec env) (pe_store env) (rq_writes rq) (pa_db app)) (rq_control rq))"

definition pending_of :: "'c public_env_scheme \<Rightarrow> response \<Rightarrow> pending_response" where
  "pending_of env r =
     (let b = (case rs_body r of Bytes b \<Rightarrow> b | ErrorBody status msg code \<Rightarrow> pe_error env status msg code)
      in \<lparr>pd_status = rs_status r, pd_headers = rs_headers r, pd_lower = length b, pd_upper = Some (length b),
          pd_body = Some b\<rparr>)"

definition sent :: "outgoing \<Rightarrow> response" where
  "sent out =
     (case out of
        Built r \<Rightarrow> r
      | Forwarded p \<Rightarrow>
          \<lparr>rs_status = pd_status p, rs_headers = pd_headers p,
           rs_body = Bytes (case pd_body p of None \<Rightarrow> [] | Some b \<Rightarrow> b)\<rparr>)"

definition through_cache ::
    "'c public_env_scheme \<Rightarrow> 'd public_request \<Rightarrow> channel_policy option \<Rightarrow> policy_app \<Rightarrow> cache_state \<times> pressure_state
      \<Rightarrow> response \<times> cache_state \<times> pressure_state" where
  "through_cache env rq policy app st =
     (let served = pending_of env (case run_handler env rq policy app of
                     Inl e \<Rightarrow> error_response e | Inr (reply, _) \<Rightarrow> recent_reply (pe_reply env) reply)
      in case pe_cache env of
           None \<Rightarrow> (sent (Forwarded served), st)
         | Some cfg \<Rightarrow>
             (case adaptive_response_cache cfg (cache_key (d_to_str (rq_deps rq)) (rq_uri rq) (rq_headers rq) policy)
                     (rq_inflight rq) (rq_instant rq) served st of
                (out, st') \<Rightarrow> (sent out, st')))"

definition gate_of :: "'c public_env_scheme \<Rightarrow> 'd public_request \<Rightarrow> string
    \<Rightarrow> (api_error + channel_policy option) \<times> policy_app" where
  "gate_of env rq login =
     gate (d_to_str (rq_deps rq)) (d_validate_login (rq_deps rq)) (pe_token env) login (rq_path rq) (rq_headers rq) (rq_app rq)"

definition gated ::
    "'c public_env_scheme \<Rightarrow> 'd public_request \<Rightarrow> cache_state \<times> pressure_state
      \<Rightarrow> response \<times> cache_state \<times> pressure_state" where
  "gated env rq st =
     (case fst (pe_extract env (rq_uri rq)) of
        None \<Rightarrow> (pe_rejection env, st)
      | Some login \<Rightarrow>
          (case gate_of env rq login of
             (Inl e, _) \<Rightarrow> (error_response e, st)
           | (Inr policy, app) \<Rightarrow> through_cache env rq policy app st))"

definition public_response ::
    "'c public_env_scheme \<Rightarrow> 'd public_request \<Rightarrow> cache_state \<times> pressure_state
      \<Rightarrow> response \<times> cache_state \<times> pressure_state" where
  "public_response env rq st =
     (case gated env rq st of
        (r, st') \<Rightarrow> (delegate_overload (d_to_str (rq_deps rq)) (d_validate_login (rq_deps rq)) (rq_peers rq)
                      (rq_path rq) (rq_query rq) (rq_headers rq) r, st'))"

fun run_public ::
    "'c public_env_scheme \<Rightarrow> 'd public_request list \<Rightarrow> cache_state \<times> pressure_state \<Rightarrow> cache_state \<times> pressure_state" where
  "run_public env [] st = st"
| "run_public env (rq # rqs) st = run_public env rqs (snd (public_response env rq st))"

section \<open>Reads stay in their window\<close>

lemma drained_member: "r \<in> set (drain_to_last n xs) \<Longrightarrow> r \<in> set xs"
  by (simp add: drain_to_last_alt in_set_dropD)

lemma sql_query_window:
  assumes "sql_query cd db q = Inr res" and "r \<in> set (lr_records res)"
  shows "in_window q r"
proof -
  obtain rss where "res = answer_query q (concat rss)" using assms(1) by (auto simp: sql_query_def split: if_splits)
  then have "r \<in> set (filter (in_window q) (sort_key received_order (concat rss)))"
    using assms(2) drained_member by (fastforce simp: answer_query_def Let_def)
  then show ?thesis by simp
qed

lemma open_query_window: "r \<in> set (open_query q m) \<Longrightarrow> in_window q r"
  unfolding open_query_def Let_def by (drule drained_member) simp

text \<open>A request whose handler reads the store and, if there are any, the open blocks.\<close>

definition reads_node :: "codec \<Rightarrow> (int \<Rightarrow> bool) \<Rightarrow> 'd public_request \<Rightarrow> bool" where
  "reads_node cd in_chrono rq \<longleftrightarrow> d_query (rq_deps rq) = sql_query cd \<and> d_in_chrono (rq_deps rq) = in_chrono \<and>
     (\<forall>opened. d_open (rq_deps rq) = Some opened \<longrightarrow> (\<exists>m. opened = (\<lambda>q. Inr (open_query q m))))"

lemma read_from_window:
  assumes "reads_node cd in_chrono rq" and "read_from (rq_deps rq) ch w s r" and "opt_after w = Some a"
  shows "a < received_at_ms r"
proof -
  let ?n = "d_max_buffer_size (rq_deps rq)"
  let ?q = "\<lparr>qr_channel_key = to_ascii_lowercase ch, after_ms = opt_after w, before_ms = opt_before w, limit = requested_limit w ?n\<rparr>"
  obtain rs where rs: "query_local_messages (d_query (rq_deps rq) s) (d_open (rq_deps rq)) ch w ?n = Inr rs" "r \<in> set rs"
    using assms(2) by (auto simp: read_from_def)
  have sub: "set (merge_peer_records x y n) \<subseteq> set x \<union> set y" for x y n using merge_peer_records_shape by blast
  have "in_window ?q r"
  proof (cases "requested_limit w ?n = 0")
    case True
    then show ?thesis using rs by (simp add: query_local_messages_def)
  next
    case False
    then have lim: "requested_limit w ?n \<noteq> 0" by simp
    obtain sealed opened where a: "sql_query cd s ?q = Inr sealed" "rs = merge_peer_records (lr_records sealed) opened (requested_limit w ?n)"
      and op: "opened = [] \<or> (\<exists>m. opened = open_query ?q m)"
    proof (cases "d_open (rq_deps rq)")
      case None
      then show ?thesis using rs(1) assms(1) lim that by (auto simp: query_local_messages_def Let_def reads_node_def)
    next
      case (Some opened)
      then obtain m where "opened = (\<lambda>q. Inr (open_query q m))" using assms(1) by (auto simp: reads_node_def)
      then show ?thesis using Some rs(1) assms(1) lim that
        by (auto simp: query_local_messages_def Let_def reads_node_def map_err_def)
    qed
    have "r \<in> set (lr_records sealed) \<union> set opened" using rs(2) a(2) sub by blast
    then show ?thesis using sql_query_window [OF a(1)] op open_query_window by auto
  qed
  then show ?thesis by (simp add: in_window_def assms(3))
qed

definition cutoff_of :: "channel_policy option \<Rightarrow> int" where
  "cutoff_of policy = (case policy of None \<Rightarrow> 0 | Some p \<Rightarrow> cp_purge_ms p)"

lemma storage_after_cutoff:
  assumes "0 < cutoff_of policy" and "f (cutoff_of policy)"
  shows "\<exists>a. opt_after (storage_options f policy now options) = Some a \<and> cutoff_of policy \<le> a"
  using assms by (auto simp: storage_options_def purge_after_def cutoff_of_def Let_def split: option.splits)

section \<open>The state of the cache\<close>

text \<open>The requests that reached the cache, as its history has them.\<close>

definition cache_step :: "'c public_env_scheme \<Rightarrow> 'd public_request \<Rightarrow> cache_request list" where
  "cache_step env rq =
     (case fst (pe_extract env (rq_uri rq)) of
        None \<Rightarrow> []
      | Some login \<Rightarrow>
          (case gate_of env rq login of
             (Inl e, _) \<Rightarrow> []
           | (Inr policy, app) \<Rightarrow>
               [(cache_key (d_to_str (rq_deps rq)) (rq_uri rq) (rq_headers rq) policy, rq_inflight rq, rq_instant rq,
                 pending_of env (case run_handler env rq policy app of
                     Inl e \<Rightarrow> error_response e | Inr (reply, _) \<Rightarrow> recent_reply (pe_reply env) reply))]))"

lemma run_cache_append: "run_cache cfg (qs @ rs) st = run_cache cfg rs (run_cache cfg qs st)"
  by (induction cfg qs st rule: run_cache.induct) (simp_all split: prod.splits)

lemma public_response_step:
  assumes "pe_cache env = Some cfg"
  shows "snd (public_response env rq st) = run_cache cfg (cache_step env rq) st"
  by (auto simp: public_response_def gated_def through_cache_def cache_step_def assms Let_def split: prod.splits option.splits sum.splits)

lemma run_public_cache:
  assumes "pe_cache env = Some cfg"
  shows "run_public env rqs st = run_cache cfg (concat (map (cache_step env) rqs)) st"
  by (induction rqs arbitrary: st) (simp_all add: public_response_step [OF assms] run_cache_append)

lemma adaptive_hit:
  assumes "cache_shape s" and "cache_bounded cfg s" and "adaptive_response_cache cfg k n now r (s, p) = (res, st')"
  shows "(\<exists>c. map_of (cs_entries s) k = Some c \<and> now - inserted_at c \<le> max_age cfg \<and> res = Built (cached_to_response c)) \<or>
    (\<exists>s'. res = fst (capture_response cfg k r now s'))"
proof -
  obtain active p1 where pa: "pressure_active cfg n now p = (active, p1)" by fastforce
  obtain hit s1 where g: "(if active then cache_get cfg k now s else (None, s)) = (hit, s1)" by fastforce
  show ?thesis
  proof (cases hit)
    case None
    then have "res = fst (capture_response cfg k r now s1)"
      using assms(3) pa g by (auto simp: adaptive_response_cache_def split: prod.splits)
    then show ?thesis by blast
  next
    case (Some c)
    then have "cache_get cfg k now s = (Some c, s1)" using g by (auto split: if_splits)
    from cache_get_spec [OF assms(1,2) this] have "map_of (cs_entries s) k = Some c" "now - inserted_at c \<le> max_age cfg" by simp_all
    moreover have "res = Built (cached_to_response c)"
      using assms(3) pa g Some by (auto simp: adaptive_response_cache_def)
    ultimately show ?thesis by blast
  qed
qed

lemma status_error: "status_code e \<noteq> 200"
  by (cases e) simp_all

lemma error_response_status: "rs_status (error_response e) \<noteq> 200"
  by (simp add: error_response_def Let_def status_error)

lemma pending_simps [simp]:
  "pd_status (pending_of env r) = rs_status r" "pd_headers (pending_of env r) = rs_headers r"
  "pd_body (pending_of env (recent_reply (pe_reply env) reply)) = Some (pe_reply env reply)"
  "rs_status (recent_reply encoded reply) = 200"
  by (simp_all add: pending_of_def recent_reply_def Let_def)

text \<open>What a handler's run makes of a request that is answered successfully.\<close>

definition answers :: "'c public_env_scheme \<Rightarrow> 'd public_request \<Rightarrow> channel_policy option \<Rightarrow> policy_app \<Rightarrow> bytes
    \<Rightarrow> (sqlite_db, 'd) recent_state \<Rightarrow> bool" where
  "answers env rq policy app b read \<longleftrightarrow> (\<exists>reply. run_handler env rq policy app = Inr (reply, read) \<and> b = pe_reply env reply)"

lemma captured_answers:
  assumes "captured cfg k c q" and "q \<in> set (concat (map (cache_step env) rqs))"
  obtains rq login policy app read where "rq \<in> set rqs" and "fst (pe_extract env (rq_uri rq)) = Some login"
    and "gate_of env rq login = (Inr policy, app)"
    and "k = cache_key (d_to_str (rq_deps rq)) (rq_uri rq) (rq_headers rq) policy"
    and "inserted_at c = rq_instant rq" and "answers env rq policy app (c_body c) read"
proof -
  obtain rq where rq: "rq \<in> set rqs" "q \<in> set (cache_step env rq)" using assms(2) by auto
  obtain login policy app where g: "fst (pe_extract env (rq_uri rq)) = Some login" "gate_of env rq login = (Inr policy, app)"
    and q: "q = (cache_key (d_to_str (rq_deps rq)) (rq_uri rq) (rq_headers rq) policy, rq_inflight rq, rq_instant rq,
                 pending_of env (case run_handler env rq policy app of
                     Inl e \<Rightarrow> error_response e | Inr (reply, _) \<Rightarrow> recent_reply (pe_reply env) reply))"
  proof (cases "fst (pe_extract env (rq_uri rq))")
    case None
    then show ?thesis using rq(2) by (simp add: cache_step_def)
  next
    case (Some login)
    obtain res app where "gate_of env rq login = (res, app)" by fastforce
    then show ?thesis using that Some rq(2) by (cases res) (simp_all add: cache_step_def)
  qed
  obtain reply read where h: "run_handler env rq policy app = Inr (reply, read)"
    using assms(1) q error_response_status by (cases "run_handler env rq policy app") (auto simp: captured_def)
  have "answers env rq policy app (c_body c) read" using assms(1) q h by (simp add: captured_def answers_def)
  with that rq(1) g q assms(1) show thesis by (auto simp: captured_def)
qed

lemma answer_after_cutoff:
  assumes "answers env rq policy app b read" and "reads_node cd in_chrono rq"
    and "0 < cutoff_of policy" and "in_chrono (cutoff_of policy)"
  shows "\<forall>r \<in> set (rv_records read). cutoff_of policy < received_at_ms r \<or>
    (\<exists>fetch ch window n peer. d_peers (rq_deps rq) = Some fetch \<and> fetch ch window n = Inr (Some peer) \<and> r \<in> set (pr_records peer))"
proof
  fix r assume r: "r \<in> set (rv_records read)"
  obtain path query where e: "pe_extract env (rq_uri rq) = (path, query)" by fastforce
  obtain reply where "get_recent_messages (rq_deps rq) (rq_now rq) path query (rq_headers rq) policy
      (run_commands (pe_codec env) (pe_store env) (rq_writes rq) (pa_db app)) (rq_control rq) = Inr (reply, read)"
    using assms(1) by (auto simp: answers_def run_handler_def e)
  then obtain ch options st allow where run:
    "read_local (rq_deps rq) (rq_now rq) ch options (storage_options (d_in_chrono (rq_deps rq)) policy (rq_now rq) options)
       (run_commands (pe_codec env) (pe_store env) (rq_writes rq) (pa_db app)) (rq_control rq) = Inr st"
    "external_repair (rq_deps rq) (rq_now rq) allow ch options (storage_options (d_in_chrono (rq_deps rq)) policy (rq_now rq) options)
       (peer_repair (rq_deps rq) (rq_now rq) allow ch options (storage_options (d_in_chrono (rq_deps rq)) policy (rq_now rq) options) st)
       = Inr read"
    by (rule get_recent_messages_Inr)
  have chrono: "d_in_chrono (rq_deps rq) = in_chrono" using assms(2) by (simp add: reads_node_def)
  obtain a where "opt_after (storage_options in_chrono policy (rq_now rq) options) = Some a" "cutoff_of policy \<le> a"
    using storage_after_cutoff [of policy in_chrono, OF assms(3,4)] by blast
  then have "cutoff_of policy < received_at_ms r"
    if "read_from (rq_deps rq) ch (storage_options in_chrono policy (rq_now rq) options) s r" for s
    using read_from_window [OF assms(2) that] by fastforce
  then show "cutoff_of policy < received_at_ms r \<or>
    (\<exists>fetch ch window n peer. d_peers (rq_deps rq) = Some fetch \<and> fetch ch window n = Inr (Some peer) \<and> r \<in> set (pr_records peer))"
    using recent_records_from [OF run] r unfolding chrono by blast
qed

lemma gate_passes_unignored:
  "gate to_str va token login path hs app = (Inr policy, app') \<Longrightarrow> (\<forall>p. policy = Some p \<longrightarrow> \<not> cp_ignored p)"
  by (auto simp: gate_def Let_def split: option.splits sum.splits if_splits prod.splits)

text \<open>What passed the gate and was answered successfully, now or from the cache.\<close>

lemma gated_answer:
  assumes cfg: "pe_cache env = Some cfg" and ok: "ResponseCache.config_ok cfg"
    and history: "run_public env history (empty_cache, None) = st"
    and r: "gated env rq st = (r, st')" "rs_status r = 200" "rs_status (pe_rejection env) \<noteq> 200"
  obtains login policy app q policy' app' b read where "fst (pe_extract env (rq_uri rq)) = Some login"
    and "gate_of env rq login = (Inr policy, app)"
    and "q \<in> set (history @ [rq])" and "rq_uri q = rq_uri rq" and "rq_instant rq - rq_instant q \<le> max_age cfg"
    and "gate_of env q login = (Inr policy', app')" and "cutoff_of policy' = cutoff_of policy"
    and "answers env q policy' app' b read" and "rs_body r = Bytes b"
proof -
  obtain login policy app where g: "fst (pe_extract env (rq_uri rq)) = Some login" "gate_of env rq login = (Inr policy, app)"
    and through: "through_cache env rq policy app st = (r, st')"
    using r error_response_status by (auto simp: gated_def split: option.splits prod.splits sum.splits)
  let ?served = "pending_of env (case run_handler env rq policy app of
                     Inl e \<Rightarrow> error_response e | Inr (reply, _) \<Rightarrow> recent_reply (pe_reply env) reply)"
  let ?key = "cache_key (d_to_str (rq_deps rq)) (rq_uri rq) (rq_headers rq) policy"
  obtain s p where st: "st = (s, p)" by fastforce
  obtain out where out: "adaptive_response_cache cfg ?key (rq_inflight rq) (rq_instant rq) ?served (s, p) = (out, st')" "r = sent out"
    using through by (auto simp: through_cache_def cfg Let_def st split: prod.splits)
  let ?qs = "concat (map (cache_step env) history)"
  have inv: "cache_inv cfg ?qs s"
    using run_cache_inv [OF ok cache_inv_empty] history by (simp add: run_public_cache [OF cfg] st)
  then have shape: "cache_shape s" "cache_bounded cfg s" by (simp_all add: cache_inv_def)
  from adaptive_hit [OF shape out(1)] show thesis
  proof
    assume "\<exists>s'. out = fst (capture_response cfg ?key ?served (rq_instant rq) s')"
    then have "rs_status r = 200 \<longrightarrow> pd_status ?served = 200 \<and> (\<exists>b. pd_body ?served = Some b \<and> rs_body r = Bytes b)"
      using out(2) by (auto simp: capture_response_def to_bytes_def sent_def pending_of_def Let_def split: if_splits option.splits)
    then have served: "pd_status ?served = 200" "\<exists>b. pd_body ?served = Some b \<and> rs_body r = Bytes b" using r(2) by simp_all
    obtain reply read where h: "run_handler env rq policy app = Inr (reply, read)"
      using served(1) error_response_status by (cases "run_handler env rq policy app") auto
    then have "answers env rq policy app (pe_reply env reply) read" "rs_body r = Bytes (pe_reply env reply)"
      using served(2) by (auto simp: answers_def)
    with that [OF g _ refl _ g(2) refl] show thesis by simp
  next
    assume "\<exists>c. map_of (cs_entries s) ?key = Some c \<and> rq_instant rq - inserted_at c \<le> max_age cfg \<and> out = Built (cached_to_response c)"
    then obtain c where c: "map_of (cs_entries s) ?key = Some c" "rq_instant rq - inserted_at c \<le> max_age cfg"
      "out = Built (cached_to_response c)" by blast
    then obtain x where x: "captured cfg ?key c x" "x \<in> set ?qs" using inv unfolding cache_inv_def by blast
    obtain q login' policy' app' read where q: "q \<in> set history" "fst (pe_extract env (rq_uri q)) = Some login'"
      "gate_of env q login' = (Inr policy', app')" "?key = cache_key (d_to_str (rq_deps q)) (rq_uri q) (rq_headers q) policy'"
      "inserted_at c = rq_instant q" "answers env q policy' app' (c_body c) read"
      by (rule captured_answers [OF x])
    have same: "rq_uri rq = rq_uri q \<and> cutoff_of policy = cutoff_of policy'"
      using key_inject [OF q(4) [unfolded cache_key_def Let_def]] by (simp add: cutoff_of_def)
    show thesis
      by (rule that [OF g, of q policy' app' "c_body c" read])
         (use q g same c(2,3) out(2) in \<open>simp_all add: sent_def cached_to_response_def\<close>)
  qed
qed


definition px_env :: "unit public_env_scheme" where
  "px_env = \<lparr>pe_extract = (\<lambda>_. (Some ''A'', Some default_options)),
     pe_rejection = \<lparr>rs_status = 400, rs_headers = (\<lambda>_. None), rs_body = Bytes []\<rparr>,
     pe_reply = (\<lambda>reply. [of_nat (length (rr_messages reply))]), pe_error = (\<lambda>_ _ _. []), pe_codec = ex_codec,
     pe_store = ex_cfg, pe_cache = Some ex_cache_config, pe_token = None\<rparr>"

definition px_request :: "nat \<Rightarrow> unit public_request" where
  "px_request t = \<lparr>rq_uri = ''/api/A'', rq_path = ''/api/A'', rq_query = None, rq_headers = (\<lambda>_. None), rq_inflight = 1,
     rq_instant = t, rq_now = 100, rq_app = ex_app, rq_writes = [Append [ex_batch1]], rq_control = (), rq_deps = ex_deps,
     rq_peers = None\<rparr>"

lemma px_handler:
  obtains policy app reply read where "\<And>t. gate_of px_env (px_request t) ''A'' = (Inr policy, app)"
    and "\<And>t. run_handler px_env (px_request t) policy app = Inr (reply, read)"
    and "cutoff_of policy = 1" and "rv_records read \<noteq> []"
proof -
  let ?g = "gate_of px_env (px_request 0) ''A''"
  have ok: "case ?g of (Inr policy, app) \<Rightarrow> cutoff_of policy = 1 \<and>
      (case run_handler px_env (px_request 0) policy app of Inr (reply, read) \<Rightarrow> rv_records read \<noteq> [] | Inl e \<Rightarrow> False)
    | (Inl e, app) \<Rightarrow> False"
    by code_simp
  obtain res app where g: "?g = (res, app)" by (cases ?g)
  obtain policy where p: "res = Inr policy" using ok g by (cases res) auto
  obtain reply read where h: "run_handler px_env (px_request 0) policy app = Inr (reply, read)" "rv_records read \<noteq> []"
    using ok g p by (cases "run_handler px_env (px_request 0) policy app") auto
  show thesis
  proof (rule that)
    show "gate_of px_env (px_request t) ''A'' = (Inr policy, app)" for t
      using g p by (simp add: gate_of_def px_request_def)
    show "run_handler px_env (px_request t) policy app = Inr (reply, read)" for t
      using h(1) by (simp add: run_handler_def px_request_def)
    show "cutoff_of policy = 1" using ok g p by simp
    show "rv_records read \<noteq> []" by (rule h(2))
  qed
qed


section \<open>Delegation\<close>

lemma target_of_nested:
  "delegate_target va (''/recent-messages/'' @ ch) query = None"
  by (auto simp: delegate_target_def strip_prefix_Some public_recent_prefix_def split: option.splits)

lemma target_of_legacy:
  assumes "ch \<noteq> []" and "CHR ''/'' \<notin> set ch" and "va ch = Inr ()"
  shows "delegate_target va (''/api/'' @ ch) query = Some (ch, query)"
proof -
  have "strip_prefix public_recent_prefix (''/api/'' @ ch) = None"
    using assms(2) by (cases "strip_prefix public_recent_prefix (''/api/'' @ ch)") (auto simp: strip_prefix_Some public_recent_prefix_def)
  moreover have "strip_prefix ''/api/'' (''/api/'' @ ch) = Some ch" by (simp add: strip_prefix_Some)
  ultimately show ?thesis using assms by (simp add: delegate_target_def)
qed

text \<open>
  C18: Which route a request takes decides whether an overloaded node hands it on. A nested router sees an address
  without the prefix it is nested under, as axum documents. On the legacy route, which is not nested, a request for
  a valid login that may ask peers, refused as overloaded, gets the first answer of a peer, if there is one. On the
  route of version 2, nested under its prefix, it keeps the refusal: the address that \<open>delegate_target\<close> looks at
  does not have the prefix that it looks for.
\<close>
theorem nested_never_delegates:
  assumes "\<forall>prefix rest. nested prefix (prefix @ rest) = rest"
  shows "(rq_path rq = nested ''/api/v2'' (''/api/v2'' @ ''/recent-messages/'' @ ch) \<longrightarrow>
      public_response env rq st = gated env rq st) \<and>
    (rq_path rq = ''/api/'' @ ch \<and> ch \<noteq> [] \<and> CHR ''/'' \<notin> set ch \<and> d_validate_login (rq_deps rq) ch = Inr () \<and>
      rs_status (fst (gated env rq st)) = 503 \<and> rs_headers (fst (gated env rq st)) overloaded_header = Some (utf8 ''1'') \<and>
      allows_peer_fetch (d_to_str (rq_deps rq)) (rq_headers rq) = Inr True \<and>
      rq_peers rq = Some ask \<longrightarrow>
      public_response env rq st =
        (case delegate_recent (ask ch (rq_query rq)) of
           Inl _ \<Rightarrow> gated env rq st | Inr r \<Rightarrow> (r, snd (gated env rq st))))"
proof (intro conjI impI)
  assume "rq_path rq = nested ''/api/v2'' (''/api/v2'' @ ''/recent-messages/'' @ ch)"
  then have "rq_path rq = ''/recent-messages/'' @ ch" using assms by metis
  then have "delegate_target (d_validate_login (rq_deps rq)) (rq_path rq) (rq_query rq) = None"
    by (simp only: target_of_nested)
  then show "public_response env rq st = gated env rq st"
    by (cases "gated env rq st") (simp add: public_response_def delegate_overload_def Let_def split: option.splits)
next
  assume l: "rq_path rq = ''/api/'' @ ch \<and> ch \<noteq> [] \<and> CHR ''/'' \<notin> set ch \<and> d_validate_login (rq_deps rq) ch = Inr () \<and>
      rs_status (fst (gated env rq st)) = 503 \<and> rs_headers (fst (gated env rq st)) overloaded_header = Some (utf8 ''1'') \<and>
      allows_peer_fetch (d_to_str (rq_deps rq)) (rq_headers rq) = Inr True \<and>
      rq_peers rq = Some ask"
  then have "delegate_target (d_validate_login (rq_deps rq)) (rq_path rq) (rq_query rq) = Some (ch, rq_query rq)"
    by (metis target_of_legacy)
  moreover obtain r st' where g: "gated env rq st = (r, st')" by (cases "gated env rq st")
  moreover have "rs_status r = 503" "rs_headers r overloaded_header = Some (utf8 ''1'')" using l g by simp_all
  ultimately show "public_response env rq st =
        (case delegate_recent (ask ch (rq_query rq)) of
           Inl _ \<Rightarrow> gated env rq st | Inr r \<Rightarrow> (r, snd (gated env rq st)))"
    using l by (simp add: public_response_def delegate_overload_def split: sum.splits)
qed

definition px_overloaded :: "string \<Rightarrow> unit public_request" where
  "px_overloaded path = (px_request 0)\<lparr>rq_path := path, rq_deps := ex_deps\<lparr>d_admitted := False\<rparr>,
     rq_peers := Some (\<lambda>_ _. [Some \<lparr>rs_status = 200, rs_headers = (\<lambda>_. None), rs_body = Bytes [7]\<rparr>])\<rparr>"

theorem nested_never_delegates_witness:
  "rs_status (fst (public_response px_env (px_overloaded ''/recent-messages/A'') (empty_cache, None))) = 503 \<and>
   rs_body (fst (public_response px_env (px_overloaded ''/api/A'') (empty_cache, None))) = Bytes [7]"
proof -
  let ?st = "(empty_cache, None) :: cache_state \<times> pressure_state"
  have nested: "\<forall>prefix rest. (\<lambda>prefix path. drop (length prefix) path) prefix (prefix @ rest) = (rest :: string)" by simp
  have refused: "rs_status (fst (gated px_env (px_overloaded ''/recent-messages/A'') ?st)) = 503"
    "rs_status (fst (gated px_env (px_overloaded ''/api/A'') ?st)) = 503"
    "rs_headers (fst (gated px_env (px_overloaded ''/api/A'') ?st)) overloaded_header = Some (utf8 ''1'')"
    by code_simp+
  have "public_response px_env (px_overloaded ''/recent-messages/A'') ?st = gated px_env (px_overloaded ''/recent-messages/A'') ?st"
    using nested_never_delegates [OF nested, of "px_overloaded ''/recent-messages/A''" "''A''" px_env ?st]
    by (simp add: px_overloaded_def)
  moreover have "allows_peer_fetch (d_to_str (rq_deps (px_overloaded ''/api/A''))) (rq_headers (px_overloaded ''/api/A'')) = Inr True"
    by code_simp
  then have "public_response px_env (px_overloaded ''/api/A'') ?st =
      (case delegate_recent [Some \<lparr>rs_status = 200, rs_headers = (\<lambda>_. None), rs_body = Bytes [7]\<rparr>] of
         Inl _ \<Rightarrow> gated px_env (px_overloaded ''/api/A'') ?st
       | Inr r \<Rightarrow> (r, snd (gated px_env (px_overloaded ''/api/A'') ?st)))"
    using nested_never_delegates [OF nested, of "px_overloaded ''/api/A''" "''A''" px_env ?st] refused(2,3)
    by (simp add: px_overloaded_def px_request_def ex_deps_def)
  ultimately show ?thesis using refused(1) by (simp add: delegate_one_def)
qed

end
