(* ===== verification/Spec2Isabelle.thy ===== *)
theory Spec2Isabelle
  imports RecentMessages ResponseCache ClusterPolicy IngestRuntime IrcListener Sessions AdminChannels ViewerBadges
    SegmentSpec NodeConfig Startup Pipeline
begin

text \<open>
  A verification development of the recent-messages service: the program keeps the last chat messages of Twitch
  channels and serves them over HTTP. It is a Rust crate, \<^verbatim>\<open>src/\<close> in the repository; the names below are
  those of its files and functions, and the models are shallow: a struct is a \<open>record\<close>, an enum a \<open>datatype\<close>, a
  function a definition, a mutable object a state that is passed on, an error an \<open>Inl\<close> of a sum.

  \<^bold>\<open>How the parts of the program work together.\<close> Messages come in over the bot's own IRC connection
  (\<^verbatim>\<open>irc_listener.rs\<close>, \<^verbatim>\<open>storage/direct_irc.rs\<close>) and over WebSocket firehoses (\<^verbatim>\<open>storage/raw_firehose.rs\<close>), are
  turned into canonical records (\<^verbatim>\<open>storage/raw_irc.rs\<close>) and numbered batches, and are taken in by the ingest task
  (\<^verbatim>\<open>storage/ingest_runtime.rs\<close>). It writes each batch to a journal before it acknowledges it (\<^verbatim>\<open>storage/ingest.rs\<close>),
  collects the records of a channel in open blocks (\<^verbatim>\<open>storage/open_blocks.rs\<close>), and writes sealed blocks to the SQLite
  store through a writer thread (\<^verbatim>\<open>storage/sqlite_async.rs\<close>, \<^verbatim>\<open>storage/sqlite.rs\<close>, \<^verbatim>\<open>storage/block.rs\<close>), under a storage
  budget that evicts blocks (\<^verbatim>\<open>storage/budget.rs\<close>, \<^verbatim>\<open>storage/eviction.rs\<close>). A request reads the store and the open
  blocks, judges by the recorded coverage (\<^verbatim>\<open>db.rs\<close>, \<^verbatim>\<open>coverage.rs\<close>) whether something is missing, and if so asks the
  other nodes (\<^verbatim>\<open>web/peer.rs\<close>) and external providers (\<^verbatim>\<open>web/repair.rs\<close>); the answer is exported
  (\<^verbatim>\<open>message_export.rs\<close>) and may be cached under load (\<^verbatim>\<open>web/response_cache.rs\<close>). The policy of a channel, whether
  it is ignored, always joined, and purged up to when, is kept in the control store and replicated between nodes
  (\<^verbatim>\<open>cluster.rs\<close>, \<^verbatim>\<open>web/cluster_policy.rs\<close>); users and an administrator change it (\<^verbatim>\<open>web/auth*.rs\<close>,
  \<^verbatim>\<open>web/purge.rs\<close>, \<^verbatim>\<open>web/ignored.rs\<close>, \<^verbatim>\<open>web/admin.rs\<close>).

  \<^bold>\<open>Which theory models which part.\<close>

  \<^item> \<open>Prelude\<close>, \<open>Text\<close>: saturating and checked integers at the width of the code, the operator for early returns on
    sums, decimal texts, and the lemmas on lists and maps that the others share.
  \<^item> \<open>Records\<close>, \<open>Block\<close>, \<open>Store\<close> (\<^verbatim>\<open>storage/mod.rs\<close>, \<^verbatim>\<open>storage/block.rs\<close>): records, their order and fidelity, queries,
    the block codec, and the trait \<open>MessageStore\<close>, as the locale \<open>message_store\<close> with the laws its clients rely on.
  \<^item> \<open>MemoryStore\<close> (\<^verbatim>\<open>storage/memory.rs\<close>), \<open>SegmentStore\<close> and \<open>SegmentSpec\<close> (\<^verbatim>\<open>storage/segment.rs\<close>), and \<open>SqliteTables\<close>,
    \<open>SqliteAppend\<close>, \<open>SqliteMerge\<close>, \<open>SqliteOutcome\<close>, \<open>SqliteAppendSpec\<close>, \<open>SqliteStore\<close>, \<open>SqliteJournal\<close>, \<open>SqliteWriter\<close>
    (\<^verbatim>\<open>storage/sqlite.rs\<close> and the writer's commands): the three implementations. Each interprets the locale, as
    \<open>mem\<close>, \<open>seg\<close> and \<open>sql\<close>. A table is a list of rows, a trigger a function applied with its statement, a transaction
    keeps the old tables when it fails.
  \<^item> \<open>AsyncStore\<close> (\<^verbatim>\<open>storage/sqlite_async.rs\<close>): the handle, whose calls may fail before or after they were executed.
  \<^item> \<open>OpenBlocks\<close>, \<open>OpenKept\<close> (\<^verbatim>\<open>storage/open_blocks.rs\<close>), \<open>Ingest\<close>, \<open>IngestDurability\<close>, \<open>IngestSystem\<close>
    (\<^verbatim>\<open>storage/ingest.rs\<close>), \<open>Eviction\<close>, \<open>Budget\<close>, \<open>IngestRuntime\<close>: the ingest, from one batch to the life of the process
    with crashes and restarts, and the task that drives it.
  \<^item> \<open>RawIrc\<close>, \<open>Batcher\<close>, \<open>RawFirehose\<close>, \<open>IrcListener\<close>, \<open>Placement\<close>: the sources. The locale \<open>batcher\<close> holds what both
    batchers promise and is interpreted for each, as \<open>direct\<close> and \<open>raw\<close>.
  \<^item> \<open>Coverage\<close>, \<open>Checkpoint\<close>, \<open>ChannelPolicy\<close>, \<open>ControlStore\<close>, \<open>ControlProperties\<close> (\<^verbatim>\<open>db.rs\<close>, \<^verbatim>\<open>coverage.rs\<close>), \<open>Cluster\<close>,
    \<open>ClusterReplication\<close> (\<^verbatim>\<open>cluster.rs\<close>), \<open>ClusterPolicy\<close> (\<^verbatim>\<open>web/cluster_policy.rs\<close>): the control state, local and replicated.
  \<^item> \<open>PeerMerge\<close>, \<open>LocalQuery\<close>, \<open>Peer\<close>, \<open>Repair\<close>, \<open>MessageExport\<close>, \<open>ApiErrors\<close>, \<open>RecentMessages\<close>
    (\<^verbatim>\<open>web/get_recent_messages.rs\<close>), \<open>ResponseCache\<close>, \<open>Pipeline\<close> (the public routes of \<^verbatim>\<open>web/mod.rs\<close>): answering a request.
  \<^item> \<open>Sessions\<close> (\<^verbatim>\<open>web/auth.rs\<close>, \<^verbatim>\<open>web/auth_endpoints.rs\<close>, \<^verbatim>\<open>web/auth_middleware.rs\<close>), \<open>UserActions\<close>, \<open>AdminChannels\<close>,
    \<open>ViewerBadges\<close>: users, the administrator, and the badges of the viewer page.
  \<^item> \<open>NodeConfig\<close>, \<open>Startup\<close> (\<^verbatim>\<open>main.rs\<close>, \<^verbatim>\<open>web/mod.rs\<close>, \<^verbatim>\<open>web/health.rs\<close>, the checks of each \<open>from_config\<close>): what a node accepts
    as its configuration, how it starts, is supervised, and reports its health.

  \<^bold>\<open>What the theorems show.\<close> The properties carry their number in the text before them. In groups:

  \<^item> What is served: the local read yields exactly the newest records held (C1), an answer is sound (C6), a purged
    record is never served again, by the store, the gate, a user's purge, or the cache (C7, C8, C11, C12), the cache
    is transparent and bounded, and export and coverage agree with reference definitions.
  \<^item> What is kept: an acknowledged record survives every failure and crash (C2), a clean shutdown leaves nothing
    behind (C3), appends, seals and evictions lose nothing that they may not lose, the log-structured store refines
    the in-memory one and recovers, and the invariant of the database holds in every state the writer reaches.
  \<^item> What is claimed: coverage is claimed only for what was heard (C4), an assessment is exact.
  \<^item> What is replicated: a replica accepts the owner's current snapshot and then equals it, and cutoffs never fall.
  \<^item> Who may act: a session is one that was created, not revoked, and confirmed by Twitch (C5); only the token of the
    administrator changes the always-join list; a node sends its token only to private addresses.
  \<^item> How a node starts and ends: the stores are in line before anything is served, the exit code is exact.

  Invariants are proved by induction over step relations (\<open>cluster_reachable\<close>, \<open>writer_reachable\<close>, \<open>policy_reachable\<close>,
  \<open>open_reachable\<close>, \<open>control_reachable\<close>) or over the events of a run (\<open>run_forwarder\<close>, \<open>session_run\<close>, \<open>runtime_loop\<close>,
  \<open>run_public\<close>). A property with hypotheses has a witness, which applies it to a concrete state.

  \<^bold>\<open>Bounds and termination.\<close> Every definition is total and there is no fuel. Loops that are not structural end by a
  measure: eviction by the rows or entries that are left, chunking by the records that are left, the refresh of a session
  by its one retry, budget enforcement by the configured number of passes. Tasks that run until they are told to stop
  consume a list of events, of which a run has finitely many; what they do for ever is stated over all lists. Integers
  of a fixed width are integers or naturals with the saturation, the wrap-around or the failed conversion written out;
  \<^verbatim>\<open>f64\<close> is a rational rounded to 53 bits, or not finite.

  \<^bold>\<open>What is a parameter.\<close> The code rests on libraries and services that are not in the repository. MessagePack with
  Zstandard and BLAKE3 (\<open>codec\<close>, with the law that decoding inverts encoding, \<open>codec_ok\<close>), the IRC parser and printer,
  \<open>validate_login\<close>, the range of chrono, humantime, the parsing of addresses, and the header conversion \<open>to_str\<close> are
  functions that definitions take; their documented laws are hypotheses where a property needs them, as for the
  nesting of axum routers in C18. Clocks, random bytes, answers of Twitch, of other nodes and of providers, failures
  of calls, sizes of files and the order of concurrent events are inputs, so a property holds for each of them. SQLite
  is modelled by the statements that the code executes: constraints, conflict clauses, triggers and transactions.

  \<^bold>\<open>What the modelling found.\<close> Places where the code does not do what it means to are proved where they are modelled:
  \<open>lost_probe_blocks_provider\<close> (a permit that times out blocks a repair provider for ever), \<open>purge_overclaims\<close>,
  \<open>ignored_keeps_open\<close>, \<open>lost_batch_keeps_interval\<close>, \<open>clock_behind_panics\<close>, \<open>failed_check_forgets_refresh\<close>, and, among the
  properties, that an interval recorded twice keeps live coverage alive, that badges in use never expire, and that an
  overloaded node hands on only requests of the legacy route.

  \<^bold>\<open>Not modelled.\<close> Input and output around the models: opening files and sockets, pragmas, WAL checkpoints, page reclamation
  and the schema migration of SQLite; the HTTP client and server and the JSON encoding of bodies; metrics and logging;
  the parsing of the configuration file and its default values (\<^verbatim>\<open>config.rs\<close>); the time limit of a request
  (\<^verbatim>\<open>web/timeout.rs\<close>); the waiting for signals (\<^verbatim>\<open>shutdown.rs\<close>). The statements that a node of a consensus cluster sends are
  run by an external database; what is modelled is how their answers are judged. Locks are sequential access: a
  critical section is one step, and the interleavings considered are those of steps. The map of running repairs that
  requests share is not modelled. \<^verbatim>\<open>migrate_messages.rs\<close> is a tool of its own that copies files, and
  \<^verbatim>\<open>cluster_consensus_tests.rs\<close> holds tests.
\<close>

end
